(* ===== verification/Redis_Data.thy ===== *)
theory Redis_Data
  imports Prelude "HOL-Library.AList" "HOL-Library.Char_ord" "HOL-Library.List_Lexorder"
    "HOL-Library.Product_Lexorder"
begin

text \<open>
  The values the queue's scripts keep in Redis, as the commands of the scripts' runtime library
  (\<open>redis.call\<close>) are documented to treat them. A hash is an association list and the empty
  list is the missing key (Redis deletes a hash with its last field, and \<open>EXISTS\<close> is 0 for
  it). A sorted set is the list of its (score, member) pairs in Redis's order, by score and
  then by the bytes of the member. A string with an expiry is its text and the millisecond it
  ends at.
\<close>

section \<open>Hashes\<close>

type_synonym 'f hash = "('f \<times> string) list"

definition hget :: "'f hash \<Rightarrow> 'f \<Rightarrow> string option" where
  "hget h f = map_of h f"

definition hset :: "'f \<Rightarrow> string \<Rightarrow> 'f hash \<Rightarrow> 'f hash" where
  "hset f v h = AList.update f v h"

definition hdel :: "'f \<Rightarrow> 'f hash \<Rightarrow> 'f hash" where
  "hdel f h = AList.delete f h"

definition hsets :: "('f \<times> string) list \<Rightarrow> 'f hash \<Rightarrow> 'f hash" where
  "hsets fvs h = fold (\<lambda>(f, v). hset f v) fvs h"

definition hdels :: "'f list \<Rightarrow> 'f hash \<Rightarrow> 'f hash" where
  "hdels fs h = fold hdel fs h"

definition hexists :: "'f hash \<Rightarrow> bool" where
  "hexists h = (h \<noteq> [])"

lemma hget_empty [simp]: "hget [] f = None"
  by (simp add: hget_def)

lemma hget_hset [simp]: "hget (hset f v h) g = (if g = f then Some v else hget h g)"
  by (simp add: hget_def hset_def update_conv)

lemma hget_hdel [simp]: "hget (hdel f h) g = (if g = f then None else hget h g)"
  by (simp add: hget_def hdel_def delete_conv)

lemma hsets_Nil [simp]: "hsets [] h = h"
  by (simp add: hsets_def)

lemma hsets_Cons [simp]: "hsets ((f, v) # fvs) h = hsets fvs (hset f v h)"
  by (simp add: hsets_def)

lemma hdels_Nil [simp]: "hdels [] h = h"
  by (simp add: hdels_def)

lemma hdels_Cons [simp]: "hdels (f # fs) h = hdels fs (hdel f h)"
  by (simp add: hdels_def)

lemma hget_hdels: "hget (hdels fs h) g = (if g \<in> set fs then None else hget h g)"
  by (induction fs arbitrary: h) auto

lemma hset_exists [simp]: "hset f v h \<noteq> []"
  by (cases h) (auto simp: hset_def)

lemma hget_exists: "hget h f = Some v \<Longrightarrow> h \<noteq> []"
  by (auto simp: hget_def)

section \<open>Sorted sets\<close>

type_synonym zset = "(int \<times> string) list"

definition zrem :: "string \<Rightarrow> zset \<Rightarrow> zset" where
  "zrem x z = filter (\<lambda>p. snd p \<noteq> x) z"

definition zadd :: "int \<Rightarrow> string \<Rightarrow> zset \<Rightarrow> zset" where
  "zadd s x z = insort (s, x) (zrem x z)"

definition zscore :: "zset \<Rightarrow> string \<Rightarrow> int option" where
  "zscore z x = map_option fst (find (\<lambda>p. snd p = x) z)"

definition zids :: "zset \<Rightarrow> string set" where
  "zids z = snd ` set z"

definition zmem :: "zset \<Rightarrow> string \<Rightarrow> bool" where
  "zmem z x = (zscore z x \<noteq> None)"

text \<open>\<open>ZRANGEBYSCORE -inf b LIMIT 0 n\<close>, the bound included or not, and \<open>ZPOPMIN n\<close>.\<close>

definition zupto :: "int \<Rightarrow> nat \<Rightarrow> zset \<Rightarrow> zset" where
  "zupto b n z = take n (filter (\<lambda>p. fst p \<le> b) z)"

definition zbelow :: "int \<Rightarrow> nat \<Rightarrow> zset \<Rightarrow> zset" where
  "zbelow b n z = take n (filter (\<lambda>p. fst p < b) z)"

definition zabove :: "int \<Rightarrow> nat \<Rightarrow> zset \<Rightarrow> zset" where
  "zabove b n z = take n (filter (\<lambda>p. b < fst p) z)"

definition zpopmin :: "nat \<Rightarrow> zset \<Rightarrow> zset \<times> zset" where
  "zpopmin n z = (take n z, drop n z)"

text \<open>What the list of a sorted set always is: in order, no member twice.\<close>

definition zwf :: "zset \<Rightarrow> bool" where
  "zwf z = (sorted z \<and> distinct (map snd z))"

subsection \<open>The interface the scripts rely on\<close>

text \<open>
  The laws of a sorted set as the queue's proofs use them: lookups after an insert and a
  removal, and that both keep the representation sound. The client facts (membership after an
  operation, removal of what is not there) are proved once from the laws.
\<close>

locale sorted_set =
  fixes none :: "'z"
    and add :: "int \<Rightarrow> string \<Rightarrow> 'z \<Rightarrow> 'z"
    and rem :: "string \<Rightarrow> 'z \<Rightarrow> 'z"
    and score :: "'z \<Rightarrow> string \<Rightarrow> int option"
    and wf :: "'z \<Rightarrow> bool"
  assumes wf_none: "wf none"
    and wf_add: "wf z \<Longrightarrow> wf (add s x z)"
    and wf_rem: "wf z \<Longrightarrow> wf (rem x z)"
    and score_none: "score none x = None"
    and score_add: "score (add s x z) y = (if y = x then Some s else score z y)"
    and score_rem: "score (rem x z) y = (if y = x then None else score z y)"
begin

definition members :: "'z \<Rightarrow> string set" where
  "members z = {x. score z x \<noteq> None}"

lemma members_none: "members none = {}"
  by (simp add: members_def score_none)

lemma members_add: "members (add s x z) = insert x (members z)"
  by (auto simp: members_def score_add)

lemma members_rem: "members (rem x z) = members z - {x}"
  by (auto simp: members_def score_rem)

lemma score_rem_absent: "score z x = None \<Longrightarrow> score (rem x z) = score z"
  by (auto simp: score_rem)

lemma score_move: "score (add s x (rem x z)) = score (add s x z)"
  by (auto simp: score_add score_rem)

end

lemma set_zrem: "set (zrem x z) = {p \<in> set z. snd p \<noteq> x}"
  by (auto simp: zrem_def)

lemma set_zadd: "set (zadd s x z) = insert (s, x) {p \<in> set z. snd p \<noteq> x}"
  by (simp add: zadd_def set_insort_key set_zrem)

lemma zwf_Nil [simp]: "zwf []"
  by (simp add: zwf_def)

lemma zwf_zrem [simp]: "zwf z \<Longrightarrow> zwf (zrem x z)"
  by (auto simp: zwf_def zrem_def sorted_wrt_filter distinct_map_filter)

lemma distinct_snd_insort:
  "distinct (map snd z) \<Longrightarrow> x \<notin> snd ` set z \<Longrightarrow> distinct (map snd (insort (s, x) z))"
  by (induction z) (auto simp: set_insort_key)

lemma zwf_zadd [simp]: "zwf z \<Longrightarrow> zwf (zadd s x z)"
proof -
  assume z: "zwf z"
  then have r: "zwf (zrem x z)" by simp
  have "x \<notin> snd ` set (zrem x z)" by (auto simp: set_zrem)
  with r show ?thesis by (auto simp: zwf_def zadd_def sorted_insort distinct_snd_insort)
qed

lemma zscore_Nil [simp]: "zscore [] x = None"
  by (simp add: zscore_def)

lemma zscore_Cons: "zscore (p # z) x = (if snd p = x then Some (fst p) else zscore z x)"
  by (simp add: zscore_def)

lemma zscore_None_iff: "zscore z x = None \<longleftrightarrow> x \<notin> zids z"
  by (induction z) (auto simp: zscore_Cons zids_def)

lemma zscore_zrem [simp]: "zscore (zrem x z) y = (if y = x then None else zscore z y)"
  by (induction z) (auto simp: zscore_Cons zrem_def)

lemma zscore_insort:
  "x \<notin> zids z \<Longrightarrow> zscore (insort (s, x) z) y = (if y = x then Some s else zscore z y)"
  by (induction z) (auto simp: zscore_Cons zids_def)

lemma zscore_zadd [simp]: "zscore (zadd s x z) y = (if y = x then Some s else zscore z y)"
proof -
  have "x \<notin> zids (zrem x z)" by (auto simp: zids_def set_zrem)
  then show ?thesis by (simp add: zadd_def zscore_insort)
qed

interpretation zs: sorted_set "[]" zadd zrem zscore zwf
  by unfold_locales auto

lemma zids_members: "zids z = zs.members z"
  using zscore_None_iff by (auto simp: zs.members_def)

lemma zids_Nil [simp]: "zids [] = {}"
  by (simp add: zids_def)

lemma zids_zadd [simp]: "zids (zadd s x z) = insert x (zids z)"
  by (simp add: zids_members zs.members_add)

lemma zids_zrem [simp]: "zids (zrem x z) = zids z - {x}"
  by (simp add: zids_members zs.members_rem)

lemma zids_finite [simp]: "finite (zids z)"
  by (simp add: zids_def)

lemma zids_empty_iff [simp]: "zids z = {} \<longleftrightarrow> z = []"
  by (simp add: zids_def)

lemma zmem_zids: "zmem z x \<longleftrightarrow> x \<in> zids z"
  using zscore_None_iff by (auto simp: zmem_def)

lemma zrem_absent: "x \<notin> zids z \<Longrightarrow> zrem x z = z"
  by (auto simp: zrem_def zids_def intro!: filter_True)

lemma zscore_Some_in: "zscore z x = Some s \<Longrightarrow> (s, x) \<in> set z"
  by (induction z) (auto simp: zscore_Cons split: if_splits)

lemma zscore_of_in: "zwf z \<Longrightarrow> (s, x) \<in> set z \<Longrightarrow> zscore z x = Some s"
  by (induction z) (force simp: zscore_Cons zwf_def image_iff)+

lemma zupto_set: "set (zupto b n z) \<subseteq> {p \<in> set z. fst p \<le> b}"
  using set_take_subset by (fastforce simp: zupto_def)

lemma zbelow_set: "set (zbelow b n z) \<subseteq> {p \<in> set z. fst p < b}"
  using set_take_subset by (fastforce simp: zbelow_def)

lemma zpop_head:
  assumes "zwf z" and "z = (s, x) # rest"
  shows "rest = zrem x z"
  using assms by (auto simp: zrem_def zwf_def intro!: filter_True[symmetric])

section \<open>Strings with an expiry\<close>

text \<open>\<open>SET key v PX ttl\<close> at \<open>now\<close>; a key is gone once the server's clock has passed its end.\<close>

type_synonym ekey = "(string \<times> int) option"

definition eget :: "int \<Rightarrow> ekey \<Rightarrow> string option" where
  "eget now k = (case k of None \<Rightarrow> None | Some (v, till) \<Rightarrow> if now \<le> till then Some v else None)"

definition eset :: "int \<Rightarrow> string \<Rightarrow> int \<Rightarrow> ekey" where
  "eset now v ttl = Some (v, now + ttl)"

lemma eget_eset: "now' \<le> now + ttl \<Longrightarrow> eget now' (eset now v ttl) = Some v"
  by (simp add: eget_def eset_def)

lemma eget_expired: "now + ttl < now' \<Longrightarrow> eget now' (eset now v ttl) = None"
  by (simp add: eget_def eset_def)

end
