(* ===== verification/Doubles.thy ===== *)
theory Doubles
  imports Prelude
begin

text \<open>
  The part of IEEE double arithmetic the scripts rest on. Lua's and JavaScript's numbers are
  doubles: an integer of at most 53 bits is exact, a longer product is rounded to 53 bits, and a
  quotient of two integers is rounded to 53 significant bits. Both roundings are to the
  nearest, ties to even. Negative values and overflow do not occur where these are used.
\<close>

abbreviation two53 :: int where
  "two53 \<equiv> 9007199254740992"

abbreviation two52 :: int where
  "two52 \<equiv> 4503599627370496"

definition SAFE :: int where
  "SAFE = 9007199254740991"

text \<open>The integer nearest to \<open>a / b\<close>, ties to even.\<close>

definition rhe :: "int \<Rightarrow> int \<Rightarrow> int" where
  "rhe a b = (let q = a div b; r = a mod b
     in if 2 * r < b \<or> (2 * r = b \<and> even q) then q else q + 1)"

text \<open>How many low bits a double drops from \<open>x\<close>, an integer as a double, and a product.\<close>

function fshift :: "int \<Rightarrow> nat" where
  "fshift x = (if x < two53 then 0 else Suc (fshift (x div 2)))"
  by pat_completeness auto
termination
  by (relation "measure nat") auto

declare fshift.simps [simp del]

definition fround :: "int \<Rightarrow> int" where
  "fround x = rhe x (2 ^ fshift x) * 2 ^ fshift x"

definition fmul :: "int \<Rightarrow> int \<Rightarrow> int" where
  "fmul a b = fround (a * b)"

text \<open>
  \<open>a / b\<close> as a double is \<open>m / 2 ^ k\<close> with \<open>k\<close> the scale at which the quotient has its 53 bits;
  \<open>fceil\<close> and \<open>ffloor\<close> are \<open>math.ceil(a / b)\<close> and \<open>math.floor(a / b)\<close>.
\<close>

function fscale :: "int \<Rightarrow> int \<Rightarrow> nat" where
  "fscale a b = (if a \<le> 0 \<or> two52 * b \<le> a then 0 else Suc (fscale (2 * a) b))"
  by pat_completeness auto
termination
  by (relation "measure (\<lambda>(a, b). nat (two52 * b - a))") auto

declare fscale.simps [simp del]

definition fmant :: "int \<Rightarrow> int \<Rightarrow> int" where
  "fmant a b = rhe (a * 2 ^ fscale a b) b"

definition fceil :: "int \<Rightarrow> int \<Rightarrow> int" where
  "fceil a b = - ((- fmant a b) div 2 ^ fscale a b)"

definition ffloor :: "int \<Rightarrow> int \<Rightarrow> int" where
  "ffloor a b = fmant a b div 2 ^ fscale a b"

text \<open>Whether the double \<open>a / b\<close> is above the integer \<open>m\<close>.\<close>

definition fquot_gt :: "int \<Rightarrow> int \<Rightarrow> int \<Rightarrow> bool" where
  "fquot_gt a b m = (m * 2 ^ fscale a b < fmant a b)"

text \<open>The exact quotient rounded up, which the scripts compute through the double estimate.\<close>

definition cdiv :: "int \<Rightarrow> int \<Rightarrow> int" where
  "cdiv a b = - ((- a) div b)"

section \<open>Rounded products\<close>

lemma rhe_one [simp]: "rhe a 1 = a"
  by (simp add: rhe_def)

lemma rhe_ge: "a div b \<le> rhe a b"
  by (simp add: rhe_def Let_def)

lemma fround_exact: "x < two53 \<Longrightarrow> fround x = x"
  by (simp add: fround_def fshift.simps [of x])

lemma fshift_bound: "two53 \<le> x \<Longrightarrow> 1 \<le> fshift x \<and> two52 \<le> x div 2 ^ fshift x"
proof (induction x rule: fshift.induct)
  case (1 x)
  show ?case
  proof (cases "x div 2 < two53")
    case True
    with "1.prems" show ?thesis by (simp add: fshift.simps [of x] fshift.simps [of "x div 2"])
  next
    case False
    with 1 have "two52 \<le> x div 2 div 2 ^ fshift (x div 2)" by simp
    with "1.prems" show ?thesis
      by (simp add: fshift.simps [of x] zdiv_zmult2_eq)
  qed
qed

lemma fround_big: "two53 \<le> x \<Longrightarrow> two53 \<le> fround x"
proof -
  assume x: "two53 \<le> x"
  let ?k = "fshift x"
  have k: "1 \<le> ?k" and q: "two52 \<le> rhe x (2 ^ ?k)"
    using fshift_bound [OF x] rhe_ge [of x "2 ^ ?k"] by auto
  have "two52 * 2 ^ 1 \<le> two52 * (2::int) ^ ?k"
    using k by (intro mult_left_mono power_increasing) auto
  also have "\<dots> \<le> rhe x (2 ^ ?k) * 2 ^ ?k"
    using q by (intro mult_right_mono) auto
  finally show ?thesis by (simp add: fround_def)
qed

text \<open>Rounding never reverses a comparison with an exactly represented integer.\<close>

lemma fround_less_iff: "y \<le> two53 \<Longrightarrow> fround x < y \<longleftrightarrow> x < y"
  using fround_exact [of x] fround_big [of x] by (cases "x < two53") auto

lemma fround_le_iff: "y < two53 \<Longrightarrow> fround x \<le> y \<longleftrightarrow> x \<le> y"
  using fround_exact [of x] fround_big [of x] by (cases "x < two53") auto

lemma fmul_less_iff: "y \<le> two53 \<Longrightarrow> fmul a b < y \<longleftrightarrow> a * b < y"
  by (simp add: fmul_def fround_less_iff)

lemma fmul_le_iff: "y < two53 \<Longrightarrow> fmul a b \<le> y \<longleftrightarrow> a * b \<le> y"
  by (simp add: fmul_def fround_le_iff)

lemma fmul_exact: "a * b < two53 \<Longrightarrow> fmul a b = a * b"
  by (simp add: fmul_def fround_exact)

section \<open>The double quotient is within one of the exact one\<close>

lemma div_bounds:
  fixes a b :: int
  assumes b: "0 < b"
  shows "a div b * b \<le> a \<and> a < a div b * b + b"
proof -
  have "a div b * b + a mod b = a" by (rule div_mult_mod_eq)
  then show ?thesis using pos_mod_sign [OF b, of a] pos_mod_bound [OF b, of a] by linarith
qed

lemma le_div_iff_mult:
  fixes a b n :: int
  assumes b: "0 < b"
  shows "n \<le> a div b \<longleftrightarrow> n * b \<le> a"
proof
  assume "n \<le> a div b"
  then have "n * b \<le> a div b * b" using b by simp
  then show "n * b \<le> a" using div_bounds [OF b, of a] by linarith
next
  assume "n * b \<le> a"
  then have "n * b < (a div b + 1) * b" using div_bounds [OF b, of a] by (simp add: distrib_right)
  then show "n \<le> a div b" using b by simp
qed

lemma rhe_near:
  assumes b: "0 < b"
  shows "2 * (rhe a b * b) \<le> 2 * a + b" and "2 * a \<le> 2 * (rhe a b * b) + b"
proof -
  define q r where "q = a div b" and "r = a mod b"
  have a: "a = q * b + r" by (simp add: q_def r_def)
  have r: "0 \<le> r" "r < b" using b by (simp_all add: r_def)
  have "rhe a b = q \<and> 2 * r \<le> b \<or> rhe a b = q + 1 \<and> b \<le> 2 * r"
    by (auto simp: rhe_def Let_def q_def r_def)
  then show "2 * (rhe a b * b) \<le> 2 * a + b" and "2 * a \<le> 2 * (rhe a b * b) + b"
    using a r by (auto simp: algebra_simps)
qed

lemma fmant_near:
  assumes b: "0 < b"
  shows "2 * (fmant a b * b) \<le> 2 * (a * 2 ^ fscale a b) + b"
    and "2 * (a * 2 ^ fscale a b) \<le> 2 * (fmant a b * b) + b"
  using rhe_near [OF b, of "a * 2 ^ fscale a b"] by (simp_all add: fmant_def)

lemma cdiv_bounds: "0 < b \<Longrightarrow> a \<le> cdiv a b * b \<and> (cdiv a b - 1) * b < a"
  using div_bounds [of b "- a"] by (simp add: cdiv_def left_diff_distrib)

lemma cdiv_unique:
  assumes "0 < b" and "a \<le> q * b" and "(q - 1) * b < a"
  shows "cdiv a b = q"
proof -
  note c = cdiv_bounds [OF assms(1), of a]
  have "(cdiv a b - 1) * b < q * b" using c assms(2) by linarith
  moreover have "(q - 1) * b < cdiv a b * b" using c assms(3) by linarith
  ultimately show ?thesis
    using assms(1) by (simp add: mult_less_cancel_right)
qed

lemma cdiv_le_iff: "0 < b \<Longrightarrow> cdiv a b \<le> n \<longleftrightarrow> a \<le> n * b"
proof -
  assume b: "0 < b"
  note c = cdiv_bounds [OF b, of a]
  show ?thesis
  proof
    assume "cdiv a b \<le> n"
    then have "cdiv a b * b \<le> n * b" using b by simp
    with c show "a \<le> n * b" by simp
  next
    assume "a \<le> n * b"
    with c have "(cdiv a b - 1) * b < n * b" by linarith
    with b show "cdiv a b \<le> n" by simp
  qed
qed

lemma cdiv_nonneg: "0 < b \<Longrightarrow> 0 \<le> a \<Longrightarrow> 0 \<le> cdiv a b"
  using cdiv_bounds [of b a] by (smt (verit) mult_nonneg_nonneg mult_minus_left zero_less_mult_iff)

lemma cdiv_mono: "0 < b \<Longrightarrow> a \<le> a' \<Longrightarrow> cdiv a b \<le> cdiv a' b"
  using cdiv_le_iff [of b a "cdiv a' b"] cdiv_bounds [of b a'] by linarith

lemma cdiv_zero [simp]: "cdiv 0 b = 0"
  by (simp add: cdiv_def)

lemma cdiv_le_self: "0 < b \<Longrightarrow> 0 \<le> a \<Longrightarrow> cdiv a b \<le> a"
  by (subst cdiv_le_iff) (auto intro: mult_left_mono [of 1 b a, simplified])

lemma fceil_bounds:
  assumes b: "0 < b"
  shows "(fceil a b - 1) * b < a" and "a < (fceil a b + 1) * b"
proof -
  define p where "p = (2::int) ^ fscale a b"
  define m where "m = fmant a b"
  define c where "c = fceil a b"
  have p: "0 < p" by (simp add: p_def)
  have near: "2 * (m * b) \<le> 2 * (a * p) + b" "2 * (a * p) \<le> 2 * (m * b) + b"
    using fmant_near [OF b, of a] by (simp_all add: m_def p_def)
  have up: "m \<le> c * p" and dn: "(c - 1) * p + 1 \<le> m"
    using cdiv_bounds [OF p, of m] by (simp_all add: m_def p_def c_def fceil_def cdiv_def)
  have "((c - 1) * p + 1) * b \<le> m * b" using dn b by simp
  then have "(c - 1) * b * p + b \<le> m * b" by (simp add: algebra_simps)
  then have "(c - 1) * b * p < a * p" using near(1) b by linarith
  then show "(fceil a b - 1) * b < a" using p by (simp add: c_def)
  have "m * b \<le> c * p * b" using up b by simp
  moreover have "b \<le> b * p" using b p by simp
  moreover have "c * p * b = c * b * p" by simp
  ultimately have "a * p < c * b * p + b * p" using near(2) b by linarith
  then have "a * p < (c + 1) * b * p" by (simp add: algebra_simps)
  then show "a < (fceil a b + 1) * b" using p by (simp add: c_def)
qed

lemma fceil_near:
  assumes b: "0 < b"
  shows "cdiv a b - 1 \<le> fceil a b" and "fceil a b \<le> cdiv a b + 1"
proof -
  have "cdiv a b \<le> fceil a b + 1"
    using fceil_bounds(2) [OF b, of a] b by (simp add: cdiv_le_iff)
  then show "cdiv a b - 1 \<le> fceil a b" by simp
  have "(fceil a b - 1) * b < cdiv a b * b"
    using fceil_bounds(1) [OF b, of a] cdiv_bounds [OF b, of a] by linarith
  then show "fceil a b \<le> cdiv a b + 1" using b by simp
qed

lemma ffloor_near:
  assumes b: "0 < b"
  shows "a div b - 1 \<le> ffloor a b" and "ffloor a b \<le> a div b + 1"
proof -
  define p where "p = (2::int) ^ fscale a b"
  define m where "m = fmant a b"
  define f where "f = ffloor a b"
  have p: "0 < p" by (simp add: p_def)
  have near: "2 * (m * b) \<le> 2 * (a * p) + b" "2 * (a * p) \<le> 2 * (m * b) + b"
    using fmant_near [OF b, of a] by (simp_all add: m_def p_def)
  have lo: "f * p \<le> m" and hi: "m \<le> f * p + p - 1"
    using div_bounds [OF p, of m] by (simp_all add: f_def m_def p_def ffloor_def)
  have bp: "b \<le> b * p" using b p by simp
  note ab = div_bounds [OF b, of a]
  have "f * p * b \<le> m * b" using lo b by simp
  moreover have "f * p * b = f * b * p" by simp
  ultimately have "f * b * p < a * p + b * p" using near(1) bp b by linarith
  then have "f * b * p < (a + b) * p" by (simp add: algebra_simps)
  then have "f * b < a + b" using p by simp
  then have "f * b < (a div b + 2) * b" using ab by (simp add: distrib_right)
  then show "ffloor a b \<le> a div b + 1" using b by (simp add: f_def)
  have "m * b \<le> (f * p + p - 1) * b" using hi b by simp
  then have "m * b \<le> f * b * p + b * p - b" by (simp add: algebra_simps)
  then have "a * p < f * b * p + b * p" using near(2) b by linarith
  then have "a * p < (f + 1) * b * p" by (simp add: algebra_simps)
  then have "a < (f + 1) * b" using p by simp
  then have "a div b * b < (f + 1) * b" using ab by linarith
  then show "a div b - 1 \<le> ffloor a b" using b by (simp add: f_def)
qed

end
