(* ===== verification/Gcra.thy ===== *)
theory Gcra
  imports Redis_Data Doubles
begin

text \<open>
  The rate limiter, \<open>packages/redis/src/rate-limit\<close>: the GCRA script (\<open>gcra.ts\<close>), the checks of
  a definition (\<open>define-rate-limit.ts\<close>) and the bound calls (\<open>bind-rate-limit.ts\<close>). Times are
  microseconds of the server's clock, \<open>now\<close> being the script's \<open>TIME\<close>. Every product and
  quotient the script takes is the double's (theory Doubles); the exact algorithm
  \<open>gcra_exact\<close> is what the script is proved to compute.
\<close>

section \<open>The script\<close>

record rate =
  limit :: int
  per :: int
  burst :: int

record gcra_reply =
  rp_allowed :: int
  rp_remaining :: int
  rp_reset :: int
  rp_retry :: int

definition ceildiv :: "int \<Rightarrow> int \<Rightarrow> int" where
  "ceildiv a b = (let q = fceil a b;
       q1 = (if q > 0 \<and> fmul (q - 1) b \<ge> a then q - 1 else q)
     in if fmul q1 b < a then q1 + 1 else q1)"

definition ticks_ms :: "int \<Rightarrow> int \<Rightarrow> int" where
  "ticks_ms lim t = ceildiv (ceildiv t lim) 1000"

definition left_of :: "int \<Rightarrow> int \<Rightarrow> int \<Rightarrow> int" where
  "left_of unit bst free =
     (if free \<le> 0 then 0 else
      (let n = ffloor free unit;
           n1 = (if n > bst then bst else n);
           n2 = (if n1 > 0 \<and> fmul n1 unit > free then n1 - 1 else n1)
       in if n2 < bst \<and> fmul (n2 + 1) unit \<le> free then n2 + 1 else n2))"

text \<open>\<open>string.match(stored, '^(%d+) (%d+)$')\<close>, and the whole trust check of \<open>state\<close>.\<close>

definition match_state :: "string \<Rightarrow> (string \<times> string) option" where
  "match_state s = (let b = takeWhile is_digit s in
     (case dropWhile is_digit s of
        [] \<Rightarrow> None
      | c # a \<Rightarrow> if b \<noteq> [] \<and> c = CHR 0x20 \<and> whole a then Some (b, a) else None))"

definition stored_state :: "int \<Rightarrow> int \<Rightarrow> int \<Rightarrow> string option \<Rightarrow> (int \<times> int) option" where
  "stored_state now tol lim stored = (case stored of None \<Rightarrow> None | Some s \<Rightarrow>
     (case match_state s of None \<Rightarrow> None | Some (bt, at) \<Rightarrow>
       if length bt > 16 \<or> length at > 16 then None
       else (let b = fround (int (parse_nat bt)); a = fround (int (parse_nat at)) in
         if b > SAFE \<or> a > tol then None
         else if b > now \<and> b - now > ceildiv tol lim then None
         else Some (b, a))))"

definition state_text :: "int \<Rightarrow> int \<Rightarrow> string" where
  "state_text b a = show_nat (nat b) @ [CHR 0x20] @ show_nat (nat a)"

definition gcra :: "int \<Rightarrow> rate \<Rightarrow> int \<Rightarrow> bool \<Rightarrow> ekey \<Rightarrow> gcra_reply \<times> ekey" where
  "gcra now r cost write key =
     (let unit = fmul (per r) 1000;
          tol = fmul (burst r) unit;
          (base, d) = (case stored_state now tol (limit r) (eget (now div 1000) key) of
              None \<Rightarrow> (now, 0)
            | Some (seen, ahead) \<Rightarrow>
                if seen > now then (seen, ahead)
                else (let drained = fmul (now - seen) (limit r)
                      in (now, if drained < ahead then ahead - drained else 0)));
          lag = ceildiv (base - now) 1000;
          free = tol - d;
          need = fmul cost unit
      in if need > free
         then (\<lparr>rp_allowed = 0, rp_remaining = left_of unit (burst r) free,
                rp_reset = ticks_ms (limit r) d + lag,
                rp_retry = ticks_ms (limit r) (need - free) + lag\<rparr>, key)
         else (let after = d + need in
           (\<lparr>rp_allowed = 1, rp_remaining = left_of unit (burst r) (free - need),
             rp_reset = ticks_ms (limit r) after + lag, rp_retry = 0\<rparr>,
            if write \<and> cost > 0
            then eset (now div 1000) (state_text base after) (ticks_ms (limit r) after + lag)
            else key)))"

section \<open>The definition's checks\<close>

text \<open>A JavaScript argument: a whole number, another number (a fraction, an infinity, NaN), or none.\<close>

datatype js_number = Whole int | NotWhole | NotNumber

fun isCount :: "js_number \<Rightarrow> bool" where
  "isCount (Whole n) = (\<bar>n\<bar> \<le> SAFE \<and> n \<ge> 1)"
| "isCount NotWhole = False"
| "isCount NotNumber = False"

fun num_of :: "js_number \<Rightarrow> int" where
  "num_of (Whole n) = n"
| "num_of NotWhole = 0"
| "num_of NotNumber = 0"

datatype rate_error = BadName | BadLimit | BadPer | BadBurst | BurstPerTooLarge | RefillTooLong

definition MAX_BURST_PER :: int where
  "MAX_BURST_PER = ffloor SAFE 1000"

definition MAX_REFILL :: int where
  "MAX_REFILL = 10 * 365 * 24 * 60 * 60 * 1000"

definition checkRateValues :: "js_number \<Rightarrow> js_number \<Rightarrow> js_number option \<Rightarrow> rate_error + unit" where
  "checkRateValues lim pr bst =
     (if \<not> isCount lim then Inl BadLimit
      else if \<not> isCount pr then Inl BadPer
      else if (case bst of None \<Rightarrow> False | Some b \<Rightarrow> \<not> isCount b) then Inl BadBurst
      else (let b = num_of (case bst of None \<Rightarrow> lim | Some b \<Rightarrow> b) in
        if fmul b (num_of pr) > MAX_BURST_PER then Inl BurstPerTooLarge
        else if fquot_gt (fmul b (num_of pr)) (num_of lim) MAX_REFILL then Inl RefillTooLong
        else Inr ()))"

text \<open>\<open>defineRateLimit\<close> and \<open>bindRateLimit\<close> run the same checks; the bound rate fills \<open>burst\<close>. The \<open>key\<close> of a definition
  is a function here, so the refusal of one that is not has no branch.\<close>

definition bound_rate :: "string \<Rightarrow> js_number \<Rightarrow> js_number \<Rightarrow> js_number option \<Rightarrow> rate_error + rate" where
  "bound_rate name lim pr bst =
     (if name = [] then Inl BadName
      else (case checkRateValues lim pr bst of
         Inl e \<Rightarrow> Inl e
       | Inr _ \<Rightarrow> Inr \<lparr>limit = num_of lim, per = num_of pr,
                       burst = num_of (case bst of None \<Rightarrow> lim | Some b \<Rightarrow> b)\<rparr>))"

section \<open>The bound calls\<close>

record limit_result =
  allowed :: bool
  res_limit :: int
  remaining :: int
  resetAfter :: int
  retryAfter :: int

datatype limit_error = Cost | RateLimited int

definition toResult :: "gcra_reply \<Rightarrow> rate \<Rightarrow> limit_result" where
  "toResult rp r = \<lparr>allowed = (rp_allowed rp = 1), res_limit = burst r,
     remaining = rp_remaining rp, resetAfter = rp_reset rp, retryAfter = rp_retry rp\<rparr>"

definition checkCost :: "js_number \<Rightarrow> int \<Rightarrow> int \<Rightarrow> bool" where
  "checkCost cost lo bst = (case cost of
     Whole n \<Rightarrow> \<bar>n\<bar> \<le> SAFE \<and> n \<ge> lo \<and> n \<le> bst | _ \<Rightarrow> False)"

definition limit_check :: "int \<Rightarrow> rate \<Rightarrow> js_number \<Rightarrow> bool \<Rightarrow> ekey \<Rightarrow> (limit_error + limit_result) \<times> ekey" where
  "limit_check now r cost write key =
     (if \<not> checkCost cost (if write then 1 else 0) (burst r) then (Inl Cost, key)
      else (let (rp, key') = gcra now r (num_of cost) write key in (Inr (toResult rp r), key')))"

definition consume :: "int \<Rightarrow> rate \<Rightarrow> js_number \<Rightarrow> ekey \<Rightarrow> (limit_error + limit_result) \<times> ekey" where
  "consume now r cost key = limit_check now r cost True key"

definition peek_limit :: "int \<Rightarrow> rate \<Rightarrow> js_number \<Rightarrow> ekey \<Rightarrow> (limit_error + limit_result) \<times> ekey" where
  "peek_limit now r cost key = limit_check now r cost False key"

definition enforce :: "int \<Rightarrow> rate \<Rightarrow> js_number \<Rightarrow> ekey \<Rightarrow> (limit_error + limit_result) \<times> ekey" where
  "enforce now r cost key = (case limit_check now r cost True key of
     (Inl e, key') \<Rightarrow> (Inl e, key')
   | (Inr res, key') \<Rightarrow> (if allowed res then (Inr res, key') else (Inl (RateLimited (retryAfter res)), key')))"

definition reset_limit :: "int \<Rightarrow> ekey \<Rightarrow> bool \<times> ekey" where
  "reset_limit now key = (eget (now div 1000) key \<noteq> None, None)"

section \<open>The exact algorithm\<close>

text \<open>
  The bucket in exact integers: \<open>(base, ahead)\<close>, drained by \<open>limit\<close> ticks a microsecond. This is
  the specification; nothing in it is rounded.
\<close>

definition unit_of :: "rate \<Rightarrow> int" where
  "unit_of r = per r * 1000"

definition tol_of :: "rate \<Rightarrow> int" where
  "tol_of r = burst r * unit_of r"

definition xms :: "int \<Rightarrow> int \<Rightarrow> int" where
  "xms lim t = cdiv (cdiv t lim) 1000"

definition xlevel :: "rate \<Rightarrow> int \<Rightarrow> (int \<times> int) option \<Rightarrow> int \<times> int" where
  "xlevel r now st = (case st of None \<Rightarrow> (now, 0)
     | Some (b, a) \<Rightarrow> if b > now then (b, a) else (now, max 0 (a - (now - b) * limit r)))"

definition gcra_exact :: "int \<Rightarrow> rate \<Rightarrow> int \<Rightarrow> bool \<Rightarrow> (int \<times> int) option \<Rightarrow> gcra_reply \<times> (int \<times> int) option" where
  "gcra_exact now r cost write st =
     (let (base, d) = xlevel r now st;
          lag = cdiv (base - now) 1000;
          free = tol_of r - d;
          need = cost * unit_of r
      in if need > free
         then (\<lparr>rp_allowed = 0, rp_remaining = min (burst r) (free div unit_of r),
                rp_reset = xms (limit r) d + lag, rp_retry = xms (limit r) (need - free) + lag\<rparr>, st)
         else (\<lparr>rp_allowed = 1, rp_remaining = min (burst r) ((free - need) div unit_of r),
                rp_reset = xms (limit r) (d + need) + lag, rp_retry = 0\<rparr>,
               if write \<and> cost > 0 then Some (base, d + need) else st))"

text \<open>What a checked definition guarantees of its rate.\<close>

definition rate_ok :: "rate \<Rightarrow> bool" where
  "rate_ok r = (1 \<le> limit r \<and> limit r \<le> SAFE \<and> 1 \<le> per r \<and> 1 \<le> burst r \<and> tol_of r \<le> SAFE)"

text \<open>A key this script wrote (or none): a state in range, which ends once it has drained.\<close>

definition key_ok :: "rate \<Rightarrow> int \<Rightarrow> ekey \<Rightarrow> bool" where
  "key_ok r now key = (case key of None \<Rightarrow> True | Some (v, till) \<Rightarrow>
     (\<exists>b a. v = state_text b a \<and> 0 \<le> b \<and> b \<le> now \<and> 0 \<le> a \<and> a \<le> tol_of r \<and>
            b div 1000 + xms (limit r) a \<le> till))"

definition klevel :: "rate \<Rightarrow> int \<Rightarrow> ekey \<Rightarrow> int" where
  "klevel r now key = snd (xlevel r now (stored_state now (tol_of r) (limit r) (eget (now div 1000) key)))"

text \<open>Calls one after the other, each at its time; the sum of the costs that were allowed.\<close>

fun gcra_run :: "rate \<Rightarrow> (int \<times> int) list \<Rightarrow> ekey \<Rightarrow> int \<times> ekey" where
  "gcra_run r [] key = (0, key)"
| "gcra_run r ((now, cost) # calls) key =
     (let (rp, key') = gcra now r cost True key; (n, key'') = gcra_run r calls key'
      in ((if rp_allowed rp = 1 then cost else 0) + n, key''))"

section \<open>The script computes the exact algorithm\<close>

lemma ceildiv_exact:
  assumes "0 \<le> a" and "a \<le> two53" and b: "0 < b"
  shows "ceildiv a b = cdiv a b"
proof -
  define c where "c = cdiv a b"
  define q where "q = fceil a b"
  have q: "c - 1 \<le> q" "q \<le> c + 1" using fceil_near [OF b, of a] by (simp_all add: c_def q_def)
  have c: "0 \<le> c" using cdiv_nonneg [OF b assms(1)] by (simp add: c_def)
  have lt: "fmul n b < a \<longleftrightarrow> n < c" for n
    using fmul_less_iff [OF assms(2)] cdiv_le_iff [OF b, of a n] by (auto simp: c_def not_le)
  show ?thesis
    unfolding ceildiv_def Let_def q_def [symmetric] c_def [symmetric]
    using q c by (auto simp: lt not_less[symmetric])
qed

lemma left_exact:
  assumes free: "free < two53" and u: "0 < unit" and bst: "0 \<le> bst" and nn: "0 \<le> free"
  shows "left_of unit bst free = min bst (free div unit)"
proof (cases "free \<le> 0")
  case True
  with nn bst show ?thesis by (simp add: left_of_def)
next
  case False
  define q where "q = free div unit"
  define f where "f = ffloor free unit"
  have f: "q - 1 \<le> f" "f \<le> q + 1" using ffloor_near [OF u, of free] by (simp_all add: q_def f_def)
  have q: "0 \<le> q" using nn u by (simp add: q_def pos_imp_zdiv_nonneg_iff)
  have le: "fmul n unit \<le> free \<longleftrightarrow> n \<le> q" for n
    using fmul_le_iff [OF free] u by (simp add: q_def le_div_iff_mult)
  show ?thesis
    unfolding left_of_def Let_def q_def [symmetric] f_def [symmetric]
    using False f q bst by (auto simp: le not_le[symmetric] min_def)
qed

lemma rate_ok_unit: "rate_ok r \<Longrightarrow> 1000 \<le> unit_of r \<and> unit_of r \<le> tol_of r \<and> tol_of r \<le> SAFE \<and> 0 < limit r"
proof -
  assume r: "rate_ok r"
  then have "1 * unit_of r \<le> burst r * unit_of r"
    by (intro mult_right_mono) (auto simp: rate_ok_def unit_of_def)
  with r show ?thesis by (simp add: rate_ok_def unit_of_def tol_of_def)
qed

lemma rate_ok_fmul:
  assumes "rate_ok r"
  shows "fmul (per r) 1000 = unit_of r" and "fmul (burst r) (unit_of r) = tol_of r"
  using rate_ok_unit [OF assms] by (simp_all add: fmul_exact unit_of_def tol_of_def SAFE_def)

lemma ticks_ms_exact: "0 \<le> t \<Longrightarrow> t \<le> two53 \<Longrightarrow> 0 < lim \<Longrightarrow> ticks_ms lim t = xms lim t"
  using cdiv_le_self [of lim t] cdiv_nonneg [of lim t]
  by (simp add: ticks_ms_def xms_def ceildiv_exact)

lemma fround_nonneg: "0 \<le> x \<Longrightarrow> 0 \<le> fround x"
  using fround_exact [of x] fround_big [of x] by (cases "x < two53") auto

lemma stored_state_bounds:
  "stored_state now tol lim st = Some (b, a) \<Longrightarrow> 0 \<le> b \<and> b \<le> SAFE \<and> 0 \<le> a \<and> a \<le> tol"
  by (auto simp: stored_state_def Let_def fround_nonneg split: option.splits if_splits)

lemma xlevel_bounds:
  assumes "xlevel r now (stored_state now' (tol_of r) lim st) = (b, d)" and "rate_ok r" "0 \<le> now" "now \<le> SAFE"
  shows "now \<le> b \<and> b \<le> SAFE \<and> 0 \<le> d \<and> d \<le> tol_of r"
proof (cases "stored_state now' (tol_of r) lim st")
  case None
  with assms rate_ok_unit [OF assms(2)] show ?thesis by (auto simp: xlevel_def)
next
  case (Some p)
  obtain seen ahead where p: "p = (seen, ahead)" by (cases p)
  note bounds = stored_state_bounds [OF Some [unfolded p]]
  define x where "x = (now - seen) * limit r"
  have "seen \<le> now \<Longrightarrow> 0 \<le> x"
    using rate_ok_unit [OF assms(2)] by (simp add: x_def)
  moreover have "xlevel r now (Some (seen, ahead)) = (if now < seen then (seen, ahead) else (now, max 0 (ahead - x)))"
    by (simp add: xlevel_def x_def)
  ultimately show ?thesis
    using assms(1,3,4) bounds Some p rate_ok_unit [OF assms(2)] by (auto split: if_splits)
qed

lemma drained_exact:
  assumes "a \<le> two53"
  shows "(let drained = fmul t lim in if drained < a then a - drained else 0) = max 0 (a - t * lim)"
  using fmul_less_iff [OF assms, of t lim] fmul_exact [of t lim] assms
  by (auto simp: Let_def max_def)

lemma gcra_equals_exact:
  fixes key :: ekey
  assumes r: "rate_ok r" and now: "0 \<le> now" "now \<le> SAFE" and cost: "0 \<le> cost" "cost \<le> burst r"
  defines "st \<equiv> stored_state now (tol_of r) (limit r) (eget (now div 1000) key)"
  shows "gcra now r cost write key =
    (let (rp, st') = gcra_exact now r cost write st in
     (rp, if rp_allowed rp = 1 \<and> write \<and> cost > 0
          then (case st' of None \<Rightarrow> key
                | Some (b, a) \<Rightarrow> eset (now div 1000) (state_text b a) (xms (limit r) a + cdiv (b - now) 1000))
          else key))"
proof -
  note u = rate_ok_unit [OF r]
  note fm = rate_ok_fmul [OF r]
  obtain b d where bd: "xlevel r now st = (b, d)" by (cases "xlevel r now st")
  have bnd: "now \<le> b \<and> b \<le> SAFE \<and> 0 \<le> d \<and> d \<le> tol_of r"
    using xlevel_bounds [OF _ r now] bd by (simp add: st_def)
  have level: "(case st of None \<Rightarrow> (now, 0) | Some (seen, ahead) \<Rightarrow>
      if seen > now then (seen, ahead)
      else (let drained = fmul (now - seen) (limit r)
            in (now, if drained < ahead then ahead - drained else 0))) = (b, d)"
  proof (cases st)
    case None
    with bd show ?thesis by (simp add: xlevel_def)
  next
    case (Some p)
    obtain seen ahead where p: "p = (seen, ahead)" by (cases p)
    have "ahead \<le> two53"
      using stored_state_bounds [OF Some [unfolded p st_def]] u by (simp add: SAFE_def)
    then have dr: "(if fmul (now - seen) (limit r) < ahead then ahead - fmul (now - seen) (limit r) else 0)
        = max 0 (ahead - (now - seen) * limit r)"
      using drained_exact [of ahead "now - seen" "limit r"] by (simp add: Let_def)
    show ?thesis using bd Some p dr by (simp add: xlevel_def Let_def split: if_splits)
  qed
  have need: "fmul cost (unit_of r) = cost * unit_of r" "cost * unit_of r \<le> tol_of r" "0 \<le> cost * unit_of r"
  proof -
    show le: "cost * unit_of r \<le> tol_of r"
      using cost u by (simp add: tol_of_def mult_right_mono)
    then show "fmul cost (unit_of r) = cost * unit_of r" using u by (simp add: fmul_exact SAFE_def)
    show "0 \<le> cost * unit_of r" using cost u by simp
  qed
  have lag: "ceildiv (b - now) 1000 = cdiv (b - now) 1000"
    using bnd now by (intro ceildiv_exact) (auto simp: SAFE_def)
  have ms: "ticks_ms (limit r) t = xms (limit r) t" if "0 \<le> t" "t \<le> tol_of r" for t
    using that u by (intro ticks_ms_exact) (auto simp: SAFE_def)
  have left: "left_of (unit_of r) (burst r) f = min (burst r) (f div unit_of r)" if "0 \<le> f" "f \<le> tol_of r" for f
    using that u r by (intro left_exact) (auto simp: SAFE_def rate_ok_def)
  show ?thesis
    unfolding gcra_def gcra_exact_def fm st_def [symmetric] bd Let_def case_prod_conv
      level [unfolded Let_def] need(1) lag
    using need(2,3) bnd by (auto simp: ms left)
qed

section \<open>The bucket over time\<close>

lemma xms_bounds:
  assumes "0 < lim"
  shows "t \<le> xms lim t * 1000 * lim"
proof -
  have "t \<le> cdiv t lim * lim" using cdiv_bounds [OF assms] by simp
  also have "cdiv t lim \<le> xms lim t * 1000"
    using cdiv_bounds [of 1000 "cdiv t lim"] by (simp add: xms_def)
  then have "cdiv t lim * lim \<le> xms lim t * 1000 * lim" using assms by simp
  finally show ?thesis .
qed

lemma takeWhile_show [simp]:
  "takeWhile is_digit (show_nat n @ CHR 0x20 # s) = show_nat n"
  "dropWhile is_digit (show_nat n @ CHR 0x20 # s) = CHR 0x20 # s"
proof -
  have d: "\<And>c. c \<in> set (show_nat n) \<Longrightarrow> is_digit c"
    using show_nat_digits [of n] by (simp add: list_all_iff)
  have sp: "\<not> is_digit CHR 0x20" by (simp add: is_digit_def)
  show "takeWhile is_digit (show_nat n @ CHR 0x20 # s) = show_nat n"
    using d sp by (simp add: takeWhile_append2)
  show "dropWhile is_digit (show_nat n @ CHR 0x20 # s) = CHR 0x20 # s"
    using d sp by (simp add: dropWhile_append2)
qed

lemma match_state_text: "match_state (state_text b a) = Some (show_nat (nat b), show_nat (nat a))"
  by (simp add: match_state_def state_text_def Let_def)

lemma stored_state_text:
  assumes "0 \<le> b" "b \<le> now" "now \<le> SAFE" "0 \<le> a" "a \<le> tol" "tol \<le> SAFE"
  shows "stored_state now tol lim (Some (state_text b a)) = Some (b, a)"
proof -
  have len: "length (show_nat (nat x)) \<le> 16" if "x \<le> SAFE" for x
    using that by (intro show_nat_length) (auto simp: SAFE_def)
  have fr: "fround x = x" if "x \<le> SAFE" for x
    using that by (intro fround_exact) (simp add: SAFE_def)
  show ?thesis
    using assms len [of b] len [of a] fr [of b] fr [of a]
    by (simp add: stored_state_def match_state_text not_less)
qed

lemma klevel_None [simp]: "klevel r now None = 0"
  by (simp add: klevel_def eget_def stored_state_def xlevel_def)

lemma klevel_text:
  assumes r: "rate_ok r" and now: "now \<le> SAFE"
    and k: "0 \<le> b" "b \<le> now" "0 \<le> a" "a \<le> tol_of r" "b div 1000 + xms (limit r) a \<le> till"
  shows "klevel r now (Some (state_text b a, till)) = max 0 (a - (now - b) * limit r)"
proof (cases "now div 1000 \<le> till")
  case True
  have "stored_state now (tol_of r) (limit r) (Some (state_text b a)) = Some (b, a)"
    using k now rate_ok_unit [OF r] by (intro stored_state_text) auto
  then show ?thesis using True k by (simp add: klevel_def eget_def xlevel_def)
next
  case False
  define lim where "lim = limit r"
  have lim: "0 < lim" using r by (simp add: lim_def rate_ok_def)
  have "1000 * (b div 1000 + xms lim a + 1) \<le> 1000 * (now div 1000)"
    using False k(5) by (simp add: lim_def)
  then have "xms lim a * 1000 \<le> now - b" by simp
  then have "xms lim a * 1000 * lim \<le> (now - b) * lim" using lim by simp
  then have "a \<le> (now - b) * lim" using xms_bounds [OF lim, of a] by linarith
  then show ?thesis
    using False by (simp add: klevel_def eget_def stored_state_def xlevel_def lim_def)
qed

lemma key_okE:
  assumes "key_ok r now key"
  obtains "key = None"
  | b a till where "key = Some (state_text b a, till)" "0 \<le> b" "b \<le> now" "0 \<le> a" "a \<le> tol_of r"
      "b div 1000 + xms (limit r) a \<le> till"
proof (cases key)
  case None
  then show ?thesis using that(1) by simp
next
  case (Some p)
  obtain v till where p: "p = (v, till)" by (cases p)
  from assms Some p obtain b a where "v = state_text b a" "0 \<le> b" "b \<le> now" "0 \<le> a" "a \<le> tol_of r"
      "b div 1000 + xms (limit r) a \<le> till"
    by (auto simp: key_ok_def)
  then show ?thesis using that(2) Some p by simp
qed

lemma key_ok_later: "key_ok r now key \<Longrightarrow> now \<le> now' \<Longrightarrow> key_ok r now' key"
  by (fastforce simp: key_ok_def split: option.splits)

lemma klevel_bounds: "rate_ok r \<Longrightarrow> 0 \<le> now \<Longrightarrow> now \<le> SAFE \<Longrightarrow> 0 \<le> klevel r now key \<and> klevel r now key \<le> tol_of r"
  using xlevel_bounds [OF prod.collapse [symmetric]] by (simp add: klevel_def)

text \<open>The level sinks at the rate's own speed, and an expired key stands for an empty level.\<close>

lemma klevel_decay:
  assumes r: "rate_ok r" and k: "key_ok r now key" and t: "now \<le> now'" "now' \<le> SAFE"
  shows "klevel r now key - (now' - now) * limit r \<le> klevel r now' key"
  using k
proof (cases rule: key_okE)
  case 1
  then show ?thesis using t r by (simp add: rate_ok_def)
next
  case (2 b a till)
  have "klevel r now key = max 0 (a - (now - b) * limit r)"
    using 2 t by (simp add: klevel_text [OF r])
  moreover have "klevel r now' key = max 0 (a - (now' - b) * limit r)"
    using 2 t by (simp add: klevel_text [OF r])
  moreover have "0 \<le> (now' - now) * limit r" using r t by (simp add: rate_ok_def)
  moreover have "(now' - b) * limit r = (now - b) * limit r + (now' - now) * limit r"
    by (simp add: algebra_simps)
  ultimately show ?thesis by (simp only: max_def) (simp split: if_splits)
qed

text \<open>The decision, and the key after a consume, by the level alone.\<close>

lemma gcra_allowed_iff:
  assumes "rate_ok r" "0 \<le> now" "now \<le> SAFE" "0 \<le> cost" "cost \<le> burst r"
  shows "rp_allowed (fst (gcra now r cost write key)) = 1 \<longleftrightarrow> cost * unit_of r \<le> tol_of r - klevel r now key"
  unfolding gcra_equals_exact [OF assms]
  by (simp add: gcra_exact_def klevel_def Let_def split: prod.splits)

lemma gcra_denied_key:
  "rp_allowed (fst (gcra now r cost write key)) \<noteq> 1 \<Longrightarrow> snd (gcra now r cost write key) = key"
  by (auto simp: gcra_def Let_def split: option.splits prod.splits if_splits)

lemma key_ok_stored:
  assumes "rate_ok r" "key_ok r now key" "now \<le> SAFE"
    and "stored_state now (tol_of r) (limit r) (eget (now div 1000) key) = Some (b, a)"
  shows "b \<le> now"
  using assms(2)
proof (cases rule: key_okE)
  case 1
  with assms(4) show ?thesis by (simp add: eget_def stored_state_def)
next
  case (2 b' a' till)
  then have "stored_state now (tol_of r) (limit r) (Some (state_text b' a')) = Some (b', a')"
    using assms(3) rate_ok_unit [OF assms(1)] by (intro stored_state_text) auto
  with 2 assms(4) show ?thesis by (auto simp: eget_def stored_state_def split: if_splits)
qed

lemma key_ok_xlevel:
  assumes "rate_ok r" "key_ok r now key" "now \<le> SAFE"
  shows "xlevel r now (stored_state now (tol_of r) (limit r) (eget (now div 1000) key)) = (now, klevel r now key)"
  using key_ok_stored [OF assms]
  by (auto simp: klevel_def xlevel_def split: option.splits if_splits)

lemma consume_step:
  assumes r: "rate_ok r" and k: "key_ok r now key" and now: "0 \<le> now" "now \<le> SAFE"
    and cost: "1 \<le> cost" "cost \<le> burst r"
    and ok: "rp_allowed (fst (gcra now r cost True key)) = 1"
  shows "key_ok r now (snd (gcra now r cost True key))"
    and "klevel r now (snd (gcra now r cost True key)) = klevel r now key + cost * unit_of r"
proof -
  define a where "a = klevel r now key + cost * unit_of r"
  have c0: "0 \<le> cost" using cost by simp
  have free: "cost * unit_of r \<le> tol_of r - klevel r now key"
    using ok gcra_allowed_iff [OF r now c0 cost(2)] by simp
  have a: "0 \<le> a" "a \<le> tol_of r"
    using free klevel_bounds [OF r now, of key] c0 rate_ok_unit [OF r] by (simp_all add: a_def)
  have key': "snd (gcra now r cost True key) = Some (state_text now a, now div 1000 + xms (limit r) a)"
    using cost free
    unfolding gcra_equals_exact [OF r now c0 cost(2)]
    by (simp add: gcra_exact_def key_ok_xlevel [OF r k now(2)] Let_def eset_def a_def)
  show "key_ok r now (snd (gcra now r cost True key))"
    using a now unfolding key' by (auto simp: key_ok_def)
  show "klevel r now (snd (gcra now r cost True key)) = klevel r now key + cost * unit_of r"
    using a now unfolding key' by (subst klevel_text [OF r]) (auto simp: a_def)
qed

text \<open>
  The bound on what is let through: in ticks, everything allowed between \<open>t0\<close> and \<open>t1\<close> is at
  most what was free at \<open>t0\<close> plus what drained since.
\<close>

lemma gcra_run_bound:
  assumes r: "rate_ok r" and "key_ok r t0 key" and "0 \<le> t0" and "t1 \<le> SAFE" and "t0 \<le> t1"
    and "sorted (t0 # map fst calls)" and "\<forall>c \<in> set calls. fst c \<le> t1 \<and> 1 \<le> snd c \<and> snd c \<le> burst r"
  shows "fst (gcra_run r calls key) * unit_of r \<le> tol_of r - klevel r t0 key + (t1 - t0) * limit r"
  using assms(2-)
proof (induction calls arbitrary: t0 key)
  case Nil
  have "0 \<le> (t1 - t0) * limit r" using Nil.prems r by (simp add: rate_ok_def)
  then show ?case using klevel_bounds [OF r, of t0 key] Nil.prems by simp
next
  case (Cons c calls)
  obtain t cost where c: "c = (t, cost)" by (cases c)
  have t: "t0 \<le> t" "t \<le> t1" "0 \<le> t" "t \<le> SAFE" and cost: "1 \<le> cost" "cost \<le> burst r"
    and srt: "sorted (t # map fst calls)"
    and all: "\<forall>c \<in> set calls. fst c \<le> t1 \<and> 1 \<le> snd c \<and> snd c \<le> burst r"
    using Cons.prems c by auto
  note kt = key_ok_later [OF Cons.prems(1) t(1)]
  note decay = klevel_decay [OF r Cons.prems(1) t(1) t(4)]
  define rp key' where "rp = fst (gcra t r cost True key)" and "key' = snd (gcra t r cost True key)"
  define g where "g = (if rp_allowed rp = 1 then cost else 0)"
  have key': "key_ok r t key' \<and> klevel r t key' = klevel r t key + g * unit_of r"
    using consume_step [OF r kt t(3,4) cost] gcra_denied_key [of t r cost True key] kt
    by (auto simp: key'_def g_def rp_def)
  have "fst (gcra_run r calls key') * unit_of r \<le> tol_of r - klevel r t key' + (t1 - t) * limit r"
    using key' t Cons.prems srt all by (intro Cons.IH) auto
  moreover have "fst (gcra_run r (c # calls) key) = g + fst (gcra_run r calls key')"
    by (simp add: c g_def rp_def key'_def split: prod.splits)
  moreover have "(t1 - t0) * limit r = (t1 - t) * limit r + (t - t0) * limit r"
    by (simp add: algebra_simps)
  ultimately show ?case using key' decay by (simp add: distrib_right)
qed

lemma gcra_run_key:
  assumes r: "rate_ok r" and "key_ok r t0 key" and "0 \<le> t0" and "t1 \<le> SAFE" and "t0 \<le> t1"
    and "sorted (t0 # map fst calls)" and "\<forall>c \<in> set calls. fst c \<le> t1 \<and> 1 \<le> snd c \<and> snd c \<le> burst r"
  shows "key_ok r t1 (snd (gcra_run r calls key))"
  using assms(2-)
proof (induction calls arbitrary: t0 key)
  case Nil
  then show ?case using key_ok_later by simp
next
  case (Cons c calls)
  obtain t cost where c: "c = (t, cost)" by (cases c)
  have t: "t0 \<le> t" "t \<le> t1" "0 \<le> t" "t \<le> SAFE" and cost: "1 \<le> cost" "cost \<le> burst r" using Cons.prems c by auto
  note kt = key_ok_later [OF Cons.prems(1) t(1)]
  have "key_ok r t (snd (gcra t r cost True key))"
    using consume_step(1) [OF r kt t(3,4) cost] gcra_denied_key [of t r cost True key] kt by metis
  then have "key_ok r t1 (snd (gcra_run r calls (snd (gcra t r cost True key))))"
    using t Cons.prems c by (intro Cons.IH) auto
  then show ?case by (simp add: c split_beta Let_def)
qed

lemma retry_decay:
  assumes r: "rate_ok r" and now: "0 \<le> now" "now' \<le> SAFE" "now \<le> now'"
    and lvl: "xlevel r now (stored_state now (tol_of r) (limit r) (eget (now div 1000) key)) = (b, d)"
    and late: "now + 1000 * (cdiv (b - now) 1000 + xms (limit r) e) \<le> now'" and e: "0 < e" "e \<le> d"
  shows "klevel r now' key \<le> d - e"
proof (cases "stored_state now' (tol_of r) (limit r) (eget (now' div 1000) key)")
  case None
  then show ?thesis using e by (simp add: klevel_def xlevel_def)
next
  case (Some p)
  obtain b' a where p: "p = (b', a)" by (cases p)
  define lim where "lim = limit r"
  have lim: "0 < lim" using r by (simp add: lim_def rate_ok_def)
  have lag: "b - now \<le> 1000 * cdiv (b - now) 1000" using cdiv_bounds [of 1000 "b - now"] by simp
  have wait: "e \<le> xms lim e * 1000 * lim" by (rule xms_bounds [OF lim])
  have same: "eget (now div 1000) key = eget (now' div 1000) key"
    using Some now by (auto simp: eget_def stored_state_def zdiv_mono1 split: option.splits if_splits
        intro: order_trans [OF zdiv_mono1])
  have "0 \<le> xms lim e"
    using cdiv_nonneg [OF _ cdiv_nonneg [OF lim, of e], of 1000] e by (simp add: xms_def)
  then have nb: "b + 1000 * xms lim e \<le> now'" using late lag by (simp add: lim_def)
  obtain v where v: "eget (now div 1000) key = Some v"
    using Some unfolding same by (cases "eget (now' div 1000) key") (simp_all add: stored_state_def)
  have now_st: "stored_state now (tol_of r) (limit r) (eget (now div 1000) key) = Some (b', a)"
    using Some [unfolded p same [symmetric]] lvl e v
    by (auto simp: stored_state_def xlevel_def Let_def split: option.splits if_splits)
  have "e \<le> (now' - b) * lim"
  proof -
    have "xms lim e * 1000 * lim \<le> (now' - b) * lim" using nb lim by simp
    then show ?thesis using wait by linarith
  qed
  moreover have "klevel r now' key = max 0 (a - (now' - b') * lim)"
  proof -
    have "b' \<le> now'"
      using lvl nb now \<open>0 \<le> xms lim e\<close> unfolding now_st
      by (auto simp: xlevel_def split: if_splits)
    then show ?thesis using Some p by (simp add: klevel_def xlevel_def lim_def)
  qed
  moreover have "(now' - b') * lim = (now' - now) * lim + (now - b') * lim"
    by (simp add: algebra_simps)
  ultimately show ?thesis
    using lvl e unfolding now_st by (auto simp: xlevel_def lim_def max_def split: if_splits)
qed

section \<open>Properties\<close>

lemma MAX_BURST_PER_value: "MAX_BURST_PER = 9007199254740"
  by (simp add: MAX_BURST_PER_def ffloor_def fmant_def fscale.simps SAFE_def rhe_def Let_def)

lemma checked_rate_ok:
  assumes "bound_rate name lim pr bst = Inr r"
  shows "rate_ok r"
proof -
  define b where "b = (case bst of None \<Rightarrow> lim | Some b \<Rightarrow> b)"
  have cnt: "isCount lim" "isCount pr" "isCount b" and r: "r = \<lparr>limit = num_of lim, per = num_of pr, burst = num_of b\<rparr>"
    and le: "fmul (num_of b) (num_of pr) \<le> MAX_BURST_PER"
    using assms by (auto simp: bound_rate_def checkRateValues_def b_def Let_def split: if_splits sum.splits option.splits)
  have num: "1 \<le> num_of x \<and> num_of x \<le> SAFE" if "isCount x" for x
    using that by (cases x) auto
  have "num_of b * num_of pr \<le> 9007199254740"
    using le by (simp add: MAX_BURST_PER_value fmul_le_iff)
  then have "num_of b * (num_of pr * 1000) \<le> SAFE"
    by (simp add: SAFE_def)
  then show ?thesis using num [OF cnt(1)] num [OF cnt(2)] num [OF cnt(3)] r
    by (simp add: rate_ok_def tol_of_def unit_of_def)
qed

text \<open>C11. For every rate a definition accepts, the script, with each of its products and quotients
  rounded as a double rounds it, answers exactly what the algorithm in exact integers answers, and
  writes exactly its state: no request is lost or gained to rounding.\<close>

theorem gcra_script_exact:
  fixes key :: ekey
  assumes "bound_rate name lim pr bst = Inr r" and "0 \<le> now" and "now \<le> SAFE"
    and "0 \<le> cost" and "cost \<le> burst r"
  shows "gcra now r cost write key =
    (let (rp, st') = gcra_exact now r cost write
           (stored_state now (tol_of r) (limit r) (eget (now div 1000) key)) in
     (rp, if rp_allowed rp = 1 \<and> write \<and> cost > 0
          then (case st' of None \<Rightarrow> key
                | Some (b, a) \<Rightarrow> eset (now div 1000) (state_text b a) (xms (limit r) a + cdiv (b - now) 1000))
          else key))"
  using gcra_equals_exact [OF checked_rate_ok [OF assms(1)] assms(2-5)] by simp

theorem gcra_script_exact_witness:
  "bound_rate ''api'' (Whole 7) (Whole 1000) None = Inr \<lparr>limit = 7, per = 1000, burst = 7\<rparr> \<and>
   fst (gcra 1000000 \<lparr>limit = 7, per = 1000, burst = 7\<rparr> 2 True None) =
     \<lparr>rp_allowed = 1, rp_remaining = 5, rp_reset = 286, rp_retry = 0\<rparr>"
proof -
  have h: "bound_rate ''api'' (Whole 7) (Whole 1000) None = Inr \<lparr>limit = 7, per = 1000, burst = 7\<rparr>"
    by (simp add: bound_rate_def checkRateValues_def MAX_BURST_PER_value fmul_exact SAFE_def MAX_REFILL_def
        fquot_gt_def fmant_def fscale.simps rhe_def Let_def)
  show ?thesis
    using gcra_script_exact [OF h, of 1000000 2 True None] h
    by (simp add: SAFE_def gcra_exact_def stored_state_def eget_def xlevel_def tol_of_def unit_of_def xms_def cdiv_def Let_def)
qed

text \<open>C7. The limit holds over any stretch of time in which the clock does not go back: from any key the script
  left (or none), whatever the calls and their costs, at times in order between \<open>t0\<close> and \<open>t1\<close>, what \<open>consume\<close>
  allowed is at most what the bucket holds at \<open>t0\<close>, never more than the burst however long the key was idle,
  plus what the rate gives over the elapsed time, exactly. The key left is again one such key, so the next
  stretch is bounded the same way.\<close>

theorem gcra_no_oversell:
  assumes "bound_rate name lim pr bst = Inr r" and "key_ok r t0 key" and "0 \<le> t0" and "t1 \<le> SAFE" and "t0 \<le> t1"
    and "sorted (t0 # map fst calls)" and "\<forall>c \<in> set calls. fst c \<le> t1 \<and> 1 \<le> snd c \<and> snd c \<le> burst r"
  shows "fst (gcra_run r calls key) * (per r * 1000) \<le> burst r * (per r * 1000) - klevel r t0 key + (t1 - t0) * limit r
    \<and> 0 \<le> klevel r t0 key \<and> key_ok r t1 (snd (gcra_run r calls key))"
  using gcra_run_bound [OF checked_rate_ok [OF assms(1)] assms(2-)] gcra_run_key [OF checked_rate_ok [OF assms(1)] assms(2-)]
    klevel_bounds [OF checked_rate_ok [OF assms(1)], of t0 key] assms(3-5)
  by (simp add: unit_of_def tol_of_def)

theorem gcra_no_oversell_witness:
  "fst (gcra_run \<lparr>limit = 2, per = 1000, burst = 2\<rparr> [(5000000, 2), (5000001, 1), (5600000, 1)] (Some (''4000000 1000000'', 5000))) * (1000 * 1000)
     \<le> 2 * (1000 * 1000) + (5600000 - 5000000) * 2"
proof -
  let ?r = "\<lparr>limit = 2, per = 1000, burst = 2\<rparr>" and ?k = "Some (''4000000 1000000'', 5000)"
  have h: "bound_rate ''api'' (Whole 2) (Whole 1000) None = Inr ?r"
    by (simp add: bound_rate_def checkRateValues_def MAX_BURST_PER_value fmul_exact SAFE_def MAX_REFILL_def
        fquot_gt_def fmant_def fscale.simps rhe_def Let_def)
  have "state_text 4000000 1000000 = ''4000000 1000000''" by (simp add: state_text_def show_nat.simps digit_char_def) code_simp
  then have "\<exists>b a. ''4000000 1000000'' = state_text b a \<and> 0 \<le> b \<and> b \<le> 5000000 \<and> 0 \<le> a \<and> a \<le> tol_of ?r \<and> b div 1000 + xms (limit ?r) a \<le> 5000"
    by (intro exI [of _ 4000000] exI [of _ 1000000]) (simp add: tol_of_def unit_of_def xms_def cdiv_def)
  then have k: "key_ok ?r 5000000 ?k" by (simp add: key_ok_def)
  have o: "sorted (5000000 # map fst [(5000000::int, 2::int), (5000001, 1), (5600000, 1)])"
    "\<forall>c \<in> set [(5000000::int, 2::int), (5000001, 1), (5600000, 1)]. fst c \<le> 5600000 \<and> 1 \<le> snd c \<and> snd c \<le> burst ?r" by simp_all
  have t: "(0::int) \<le> 5000000" "5600000 \<le> SAFE" "(5000000::int) \<le> 5600000" by (simp_all add: SAFE_def)
  from gcra_no_oversell [OF h k t o] show ?thesis unfolding rate.simps by linarith
qed

text \<open>C12. The time a denial tells the caller to wait is enough: if nothing else consumes meanwhile, a
  call of the same cost at or after \<open>retryAfter\<close> milliseconds later is allowed.\<close>

theorem gcra_retry_enough:
  fixes key :: ekey
  assumes "bound_rate name lim pr bst = Inr r" and "0 \<le> now" and "now' \<le> SAFE"
    and "0 \<le> cost" and "cost \<le> burst r"
    and "rp_allowed (fst (gcra now r cost w key)) = 0"
    and "now + 1000 * rp_retry (fst (gcra now r cost w key)) \<le> now'" and "now \<le> now'"
  shows "rp_allowed (fst (gcra now' r cost w' key)) = 1"
proof -
  note r = checked_rate_ok [OF assms(1)]
  define st where "st = stored_state now (tol_of r) (limit r) (eget (now div 1000) key)"
  obtain b d where bd: "xlevel r now st = (b, d)" by (cases "xlevel r now st")
  have now: "now \<le> SAFE" using assms by simp
  define e where "e = cost * unit_of r - (tol_of r - d)"
  have den: "0 < e" and late: "now + 1000 * (cdiv (b - now) 1000 + xms (limit r) e) \<le> now'"
    using assms(6,7) unfolding gcra_equals_exact [OF r assms(2) now assms(4,5)] st_def [symmetric]
    by (auto simp: gcra_exact_def bd Let_def e_def add.commute split: if_splits)
  have "cost * unit_of r \<le> tol_of r"
    using assms(5) rate_ok_unit [OF r] by (simp add: tol_of_def mult_right_mono)
  then have "e \<le> d" by (simp add: e_def)
  then have "klevel r now' key \<le> d - e"
    using retry_decay [OF r assms(2,3,8) bd [unfolded st_def] late den] by simp
  then have "cost * unit_of r \<le> tol_of r - klevel r now' key" by (simp add: e_def)
  then show ?thesis
    using gcra_allowed_iff [OF r, of now' cost w' key] assms by simp
qed

theorem gcra_retry_enough_witness:
  "rp_allowed (fst (gcra 2000000 \<lparr>limit = 1, per = 1000, burst = 1\<rparr> 1 True
      (Some (''1500000 1000000'', 2500)))) = 0 \<and>
   rp_allowed (fst (gcra 2500000 \<lparr>limit = 1, per = 1000, burst = 1\<rparr> 1 True
      (Some (''1500000 1000000'', 2500)))) = 1"
proof -
  let ?r = "\<lparr>limit = 1, per = 1000, burst = 1\<rparr>" and ?k = "Some (''1500000 1000000'', 2500)"
  have h: "bound_rate ''api'' (Whole 1) (Whole 1000) None = Inr ?r"
    by (simp add: bound_rate_def checkRateValues_def MAX_BURST_PER_value fmul_exact SAFE_def MAX_REFILL_def
        fquot_gt_def fmant_def fscale.simps rhe_def Let_def)
  have st: "stored_state 2000000 1000000 1 (Some ''1500000 1000000'') = Some (1500000, 1000000)"
    by (simp add: stored_state_def match_state_def is_digit_def whole_def parse_nat_def char_val_def fround_exact SAFE_def Let_def)
  have d: "fst (gcra 2000000 ?r 1 True ?k) =
      \<lparr>rp_allowed = 0, rp_remaining = 0, rp_reset = 500, rp_retry = 500\<rparr>"
    using gcra_script_exact [OF h, of 2000000 1 True ?k] st
    by (simp add: SAFE_def gcra_exact_def eget_def xlevel_def tol_of_def unit_of_def xms_def cdiv_def Let_def)
  show ?thesis
    using gcra_retry_enough [OF h, of 2000000 2500000 1 True ?k True] d by (simp add: SAFE_def)
qed

end
