(* ===== verification/Queue_State.thy ===== *)
theory Queue_State
  imports Gcra
begin

text \<open>
  The state of one queue as its scripts keep it in Redis (\<open>packages/redis/src/queue\<close>, the keys of
  \<open>keys.ts\<close>): the five sorted sets of jobs, one hash per job, the counter, the wake list, the
  groups' keys, the deduplication keys, the schedules and what was published. The trust rule of
  the scripts (\<open>sound\<close> in \<open>scripts/claim/body.ts\<close>) and the small helpers they share
  (\<open>scripts/wake.ts\<close>) are here too.
\<close>

section \<open>Jobs\<close>

text \<open>The fields of a job's hash, and the five sorted sets with the state a hash names for each.\<close>

datatype field = FData | FPriority | FAttempt | FAttempts | FState | FAdded | FRunAt | FTimeout
  | FGroup | FToken | FError | FFinished | FResult | FRetried | FProgress | FStep string

datatype place = Delayed | Ready | Active | Completed | Failed

fun place_text :: "place \<Rightarrow> string" where
  "place_text Delayed = ''delayed''"
| "place_text Ready = ''waiting''"
| "place_text Active = ''active''"
| "place_text Completed = ''completed''"
| "place_text Failed = ''failed''"

lemma place_text_inj [simp]: "place_text p = place_text q \<longleftrightarrow> p = q"
  by (cases p; cases q) simp_all

lemma place_text_eq [simp]:
  "place_text p = ''delayed'' \<longleftrightarrow> p = Delayed" "place_text p = ''waiting'' \<longleftrightarrow> p = Ready"
  "place_text p = ''active'' \<longleftrightarrow> p = Active" "place_text p = ''completed'' \<longleftrightarrow> p = Completed"
  "place_text p = ''failed'' \<longleftrightarrow> p = Failed"
  "''delayed'' = place_text p \<longleftrightarrow> p = Delayed" "''waiting'' = place_text p \<longleftrightarrow> p = Ready"
  "''active'' = place_text p \<longleftrightarrow> p = Active" "''completed'' = place_text p \<longleftrightarrow> p = Completed"
  "''failed'' = place_text p \<longleftrightarrow> p = Failed"
  by (cases p; simp)+

datatype event = Outcome string string string string | Canceled string "string option"

datatype sfield = SKind | SSpec | SZone | SData | SOrigin

record qstate =
  q_zs :: "place \<Rightarrow> zset"
  q_jobs :: "string \<Rightarrow> field hash"
  q_seq :: nat
  q_wake :: nat
  q_paused :: bool
  q_rate :: ekey
  q_gready :: "string \<Rightarrow> zset"
  q_gactive :: "string \<Rightarrow> nat option"
  q_glist :: "string list"
  q_gqueued :: "string set"
  q_mode :: "string option"
  q_dedupe :: "string \<Rightarrow> ekey"
  q_scheds :: zset
  q_shash :: "string \<Rightarrow> sfield hash"
  q_sdef :: "string list"
  q_events :: "event list"

text \<open>A Redis with nothing of the queue in it.\<close>

definition empty_queue :: qstate where
  "empty_queue = \<lparr>q_zs = (\<lambda>p. []), q_jobs = (\<lambda>id. []), q_seq = 0, q_wake = 0, q_paused = False,
     q_rate = None, q_gready = (\<lambda>g. []), q_gactive = (\<lambda>g. None), q_glist = [], q_gqueued = {},
     q_mode = None, q_dedupe = (\<lambda>k. None), q_scheds = [], q_shash = (\<lambda>id. []), q_sdef = [],
     q_events = []\<rparr>"

section \<open>Commands\<close>

text \<open>
  The commands of the scripts on one key each: \<open>ZADD\<close>, \<open>ZREM\<close>, \<open>HSET\<close>, \<open>HDEL\<close>, \<open>DEL\<close>,
  \<open>INCR seq\<close> and \<open>PUBLISH\<close>.
\<close>

definition z_add :: "place \<Rightarrow> int \<Rightarrow> string \<Rightarrow> qstate \<Rightarrow> qstate" where
  "z_add p sc i s = s\<lparr>q_zs := (q_zs s)(p := zadd sc i (q_zs s p))\<rparr>"

definition z_rem :: "place \<Rightarrow> string \<Rightarrow> qstate \<Rightarrow> qstate" where
  "z_rem p i s = s\<lparr>q_zs := (q_zs s)(p := zrem i (q_zs s p))\<rparr>"

definition z_has :: "place \<Rightarrow> string \<Rightarrow> qstate \<Rightarrow> bool" where
  "z_has p i s = zmem (q_zs s p) i"

definition h_get :: "qstate \<Rightarrow> string \<Rightarrow> field \<Rightarrow> string option" where
  "h_get s i f = hget (q_jobs s i) f"

definition h_set :: "string \<Rightarrow> (field \<times> string) list \<Rightarrow> qstate \<Rightarrow> qstate" where
  "h_set i fvs s = s\<lparr>q_jobs := (q_jobs s)(i := hsets fvs (q_jobs s i))\<rparr>"

definition h_del :: "string \<Rightarrow> field list \<Rightarrow> qstate \<Rightarrow> qstate" where
  "h_del i fs s = s\<lparr>q_jobs := (q_jobs s)(i := hdels fs (q_jobs s i))\<rparr>"

definition del_key :: "string \<Rightarrow> qstate \<Rightarrow> qstate" where
  "del_key i s = s\<lparr>q_jobs := (q_jobs s)(i := [])\<rparr>"

definition incr_seq :: "qstate \<Rightarrow> nat \<times> qstate" where
  "incr_seq s = (Suc (q_seq s), s\<lparr>q_seq := Suc (q_seq s)\<rparr>)"

definition publish :: "string \<Rightarrow> string \<Rightarrow> string \<Rightarrow> string \<Rightarrow> qstate \<Rightarrow> qstate" where
  "publish kind i fld json s = s\<lparr>q_events := q_events s @ [Outcome kind i fld json]\<rparr>"

section \<open>The wake token\<close>

text \<open>\<open>WAKE_FN\<close>: at most one token, and whether a job at \<open>runAt\<close> becomes the first delayed one.\<close>

definition wake :: "qstate \<Rightarrow> qstate" where
  "wake s = (if q_wake s = 0 then s\<lparr>q_wake := 1\<rparr> else s)"

definition is_head :: "int \<Rightarrow> qstate \<Rightarrow> bool" where
  "is_head runAt s = (case q_zs s Delayed of [] \<Rightarrow> True | (sc, i) # z \<Rightarrow> runAt < sc)"

section \<open>The trust rule\<close>

text \<open>\<open>group_sound\<close> and \<open>group_of\<close> of \<open>groups.ts\<close>; \<open>sound\<close> of \<open>body.ts\<close> over \<open>HMGET\<close>'s reply.\<close>

definition group_sound :: "string option \<Rightarrow> bool" where
  "group_sound g = (case g of None \<Rightarrow> True | Some v \<Rightarrow>
     v = '''' \<or> (length v \<le> 768 \<and> \<not> list_ex (\<lambda>c. c \<in> set '':{}'') v))"

definition group_of :: "qstate \<Rightarrow> string \<Rightarrow> string" where
  "group_of s i = (case h_get s i FGroup of None \<Rightarrow> '''' | Some g \<Rightarrow> if group_sound (Some g) then g else '''')"

definition whole_opt :: "string option \<Rightarrow> bool" where
  "whole_opt v = (case v of None \<Rightarrow> False | Some t \<Rightarrow> whole t)"

definition num_opt :: "string option \<Rightarrow> nat" where
  "num_opt v = (case v of None \<Rightarrow> 0 | Some t \<Rightarrow> parse_nat t)"

definition sound :: "field hash \<Rightarrow> bool" where
  "sound h = (hget h FData \<noteq> None \<and> whole_opt (hget h FAttempt) \<and> whole_opt (hget h FAttempts)
     \<and> whole_opt (hget h FPriority)
     \<and> num_opt (hget h FAttempts) \<ge> 1 \<and> num_opt (hget h FPriority) \<le> 1000
     \<and> (case hget h FTimeout of None \<Rightarrow> True
        | Some t \<Rightarrow> whole t \<and> length t \<le> 15 \<and> parse_nat t \<ge> 1)
     \<and> group_sound (hget h FGroup))"

definition attempt_of :: "field hash \<Rightarrow> nat" where
  "attempt_of h = num_opt (hget h FAttempt)"

definition attempts_of :: "field hash \<Rightarrow> nat" where
  "attempts_of h = num_opt (hget h FAttempts)"

definition PRIORITY_STEP :: int where
  "PRIORITY_STEP = 1099511627776"

definition ready_score :: "nat \<Rightarrow> qstate \<Rightarrow> int \<times> qstate" where
  "ready_score priority s = (let (n, s1) = incr_seq s in (int priority * PRIORITY_STEP + int n, s1))"

section \<open>What the commands read and leave alone\<close>

lemma hget_hsets: "hget (hsets fvs h) f = (case map_of (rev fvs) f of None \<Rightarrow> hget h f | Some v \<Rightarrow> Some v)"
  by (induction fvs arbitrary: h) (auto simp: map_add_def split: option.splits)

lemma zs_z_add [simp]: "q_zs (z_add p sc i s) q = (if q = p then zadd sc i (q_zs s p) else q_zs s q)"
  by (simp add: z_add_def)

lemma zs_z_rem [simp]: "q_zs (z_rem p i s) q = (if q = p then zrem i (q_zs s p) else q_zs s q)"
  by (simp add: z_rem_def)

lemma z_has_iff: "z_has p i s \<longleftrightarrow> i \<in> zids (q_zs s p)"
  by (simp add: z_has_def zmem_zids)

lemma jobs_h_set [simp]: "q_jobs (h_set i fvs s) j = (if j = i then hsets fvs (q_jobs s i) else q_jobs s j)"
  by (simp add: h_set_def)

lemma jobs_h_del [simp]: "q_jobs (h_del i fs s) j = (if j = i then hdels fs (q_jobs s i) else q_jobs s j)"
  by (simp add: h_del_def)

lemma jobs_del_key [simp]: "q_jobs (del_key i s) j = (if j = i then [] else q_jobs s j)"
  by (simp add: del_key_def)

lemma zs_frame [simp]:
  "q_zs (h_set i fvs s) = q_zs s" "q_zs (h_del i fs s) = q_zs s" "q_zs (del_key i s) = q_zs s"
  "q_zs (publish k i f j s) = q_zs s" "q_zs (wake s) = q_zs s" "q_zs (snd (incr_seq s)) = q_zs s"
  by (simp_all add: h_set_def h_del_def del_key_def publish_def wake_def incr_seq_def)

lemma jobs_frame [simp]:
  "q_jobs (z_add p sc i s) = q_jobs s" "q_jobs (z_rem p i s) = q_jobs s"
  "q_jobs (publish k i f j s) = q_jobs s" "q_jobs (wake s) = q_jobs s" "q_jobs (snd (incr_seq s)) = q_jobs s"
  by (simp_all add: z_add_def z_rem_def publish_def wake_def incr_seq_def)

lemma group_keys_frame [simp]:
  "q_gready (z_add p sc i s) = q_gready s" "q_gactive (z_add p sc i s) = q_gactive s"
  "q_glist (z_add p sc i s) = q_glist s" "q_gqueued (z_add p sc i s) = q_gqueued s"
  "q_gready (z_rem p i s) = q_gready s" "q_gactive (z_rem p i s) = q_gactive s"
  "q_glist (z_rem p i s) = q_glist s" "q_gqueued (z_rem p i s) = q_gqueued s"
  "q_gready (h_set i fvs s) = q_gready s" "q_gactive (h_set i fvs s) = q_gactive s"
  "q_glist (h_set i fvs s) = q_glist s" "q_gqueued (h_set i fvs s) = q_gqueued s"
  "q_gready (h_del i fs s) = q_gready s" "q_gactive (h_del i fs s) = q_gactive s"
  "q_glist (h_del i fs s) = q_glist s" "q_gqueued (h_del i fs s) = q_gqueued s"
  "q_gready (del_key i s) = q_gready s" "q_gactive (del_key i s) = q_gactive s"
  "q_glist (del_key i s) = q_glist s" "q_gqueued (del_key i s) = q_gqueued s"
  "q_gready (publish k i f j s) = q_gready s" "q_gactive (publish k i f j s) = q_gactive s"
  "q_glist (publish k i f j s) = q_glist s" "q_gqueued (publish k i f j s) = q_gqueued s"
  "q_gready (wake s) = q_gready s" "q_gactive (wake s) = q_gactive s"
  "q_glist (wake s) = q_glist s" "q_gqueued (wake s) = q_gqueued s"
  "q_gready (snd (incr_seq s)) = q_gready s" "q_gactive (snd (incr_seq s)) = q_gactive s"
  "q_glist (snd (incr_seq s)) = q_glist s" "q_gqueued (snd (incr_seq s)) = q_gqueued s"
  by (simp_all add: z_add_def z_rem_def h_set_def h_del_def del_key_def publish_def wake_def incr_seq_def)

lemma group_of_jobs: "q_jobs s i = q_jobs s' i \<Longrightarrow> group_of s i = group_of s' i"
  by (simp add: group_of_def h_get_def)

lemma wake_le_1: "q_wake s \<le> 1 \<Longrightarrow> q_wake (wake s) = 1"
  by (simp add: wake_def)

end
