(* ===== verification/Queue_Groups.thy ===== *)
theory Queue_Groups
  imports Queue_State
begin

text \<open>
  The groups' module, \<open>scripts/groups/groups.ts\<close>: the one that writes \<open>ready\<close> with its mirror per
  group, the active counters and the round-robin list, and the marker check every script with a
  \<open>grouped\<close> argument runs first. A configuration is the pair of arguments the scripts take.
\<close>

record qcfg =
  c_grouped :: bool
  c_conc :: nat

section \<open>The helpers\<close>

definition held_of :: "qstate \<Rightarrow> string \<Rightarrow> nat" where
  "held_of s g = (case q_gactive s g of None \<Rightarrow> 0 | Some n \<Rightarrow> n)"

definition has_slot :: "qcfg \<Rightarrow> qstate \<Rightarrow> string \<Rightarrow> bool" where
  "has_slot c s g = (if g = '''' \<or> c_conc c = 0 then True else held_of s g < c_conc c)"

definition rr_push :: "string \<Rightarrow> qstate \<Rightarrow> qstate" where
  "rr_push g s = (if g \<in> q_gqueued s then s
     else s\<lparr>q_gqueued := insert g (q_gqueued s), q_glist := q_glist s @ [g]\<rparr>)"

definition rr_take :: "qstate \<Rightarrow> string option \<times> qstate" where
  "rr_take s = (case q_glist s of [] \<Rightarrow> (None, s)
     | g # gs \<Rightarrow> (Some g, s\<lparr>q_glist := gs, q_gqueued := q_gqueued s - {g}\<rparr>))"

definition gready_add :: "string \<Rightarrow> int \<Rightarrow> string \<Rightarrow> qstate \<Rightarrow> qstate" where
  "gready_add g sc i s = s\<lparr>q_gready := (q_gready s)(g := zadd sc i (q_gready s g))\<rparr>"

definition gready_rem :: "string \<Rightarrow> string \<Rightarrow> qstate \<Rightarrow> qstate" where
  "gready_rem g i s = s\<lparr>q_gready := (q_gready s)(g := zrem i (q_gready s g))\<rparr>"

definition ready_add :: "qcfg \<Rightarrow> string \<Rightarrow> int \<Rightarrow> string \<Rightarrow> qstate \<Rightarrow> bool \<times> qstate" where
  "ready_add c i sc g s = (let s1 = z_add Ready sc i s in
     if \<not> c_grouped c then (True, s1)
     else (let s2 = gready_add g sc i s1 in
       if \<not> has_slot c s2 g then (False, s2) else (True, rr_push g s2)))"

definition ready_rem :: "qcfg \<Rightarrow> string \<Rightarrow> string \<Rightarrow> qstate \<Rightarrow> qstate" where
  "ready_rem c i g s = (let s1 = z_rem Ready i s in if c_grouped c then gready_rem g i s1 else s1)"

definition slot_taken :: "qcfg \<Rightarrow> string \<Rightarrow> qstate \<Rightarrow> qstate" where
  "slot_taken c g s = (if c_grouped c \<and> g \<noteq> '''' then s\<lparr>q_gactive := (q_gactive s)(g := Some (held_of s g + 1))\<rparr> else s)"

definition uncount :: "string \<Rightarrow> qstate \<Rightarrow> qstate" where
  "uncount g s = (if g = '''' then s
     else if held_of s g > 1 then s\<lparr>q_gactive := (q_gactive s)(g := Some (held_of s g - 1))\<rparr>
     else if held_of s g = 1 then s\<lparr>q_gactive := (q_gactive s)(g := None)\<rparr> else s)"

definition slot_freed :: "qcfg \<Rightarrow> string \<Rightarrow> qstate \<Rightarrow> bool \<times> qstate" where
  "slot_freed c g s = (if \<not> c_grouped c then (False, s)
     else (let s1 = uncount g s in
       if q_gready s1 g = [] \<or> \<not> has_slot c s1 g then (False, s1) else (True, rr_push g s1)))"

text \<open>\<open>if redis.call('ZREM', active, id) == 1 then freed = slot_freed(g) end\<close>, as the scripts write it.\<close>

definition leave_active :: "qcfg \<Rightarrow> string \<Rightarrow> string \<Rightarrow> qstate \<Rightarrow> bool \<times> qstate" where
  "leave_active c i g s = (if z_has Active i s then slot_freed c g (z_rem Active i s) else (False, s))"

section \<open>The mode marker\<close>

definition mode_text :: "qcfg \<Rightarrow> string" where
  "mode_text c = (if c_grouped c then ''1:'' @ show_nat (c_conc c) else ''0'')"

definition MISMATCH :: string where
  "MISMATCH = ''ERR groups mismatch''"

definition mode_check :: "qcfg \<Rightarrow> qstate \<Rightarrow> qstate result" where
  "mode_check c s = (case q_mode s of
     Some m \<Rightarrow> if m \<noteq> mode_text c then Inl MISMATCH else Inr s
   | None \<Rightarrow> Inr (s\<lparr>q_mode := Some (mode_text c)\<rparr>))"

text \<open>A script that starts with the check: a refusal is its error reply and nothing is written.\<close>

definition guarded :: "qcfg \<Rightarrow> (qstate \<Rightarrow> 'a \<times> qstate) \<Rightarrow> qstate \<Rightarrow> 'a result \<times> qstate" where
  "guarded c body s = (case mode_check c s of
     Inl e \<Rightarrow> (Inl e, s)
   | Inr s1 \<Rightarrow> (let (r, s2) = body s1 in (Inr r, s2)))"

text \<open>Two configurations with the same marker run the same script.\<close>

definition same_mode :: "qcfg \<Rightarrow> qcfg \<Rightarrow> bool" where
  "same_mode c d = (c_grouped c = c_grouped d \<and> (c_grouped c \<longrightarrow> c_conc c = c_conc d))"

lemma mode_text_inj: "mode_text c = mode_text d \<longleftrightarrow> same_mode c d"
proof -
  have "''1:'' @ xs \<noteq> ''0''" for xs :: string by simp
  then show ?thesis by (auto simp: mode_text_def same_mode_def show_nat_inj)
qed

lemma guarded_refused: "fst (guarded c body s) = Inl e \<Longrightarrow> snd (guarded c body s) = s"
  by (auto simp: guarded_def split: sum.splits prod.splits)

section \<open>What the helpers read and leave alone\<close>

lemma held_of_frame:
  "q_gactive s = q_gactive s' \<Longrightarrow> held_of s g = held_of s' g"
  by (simp add: held_of_def)

lemma has_slot_frame: "q_gactive s = q_gactive s' \<Longrightarrow> has_slot c s g = has_slot c s' g"
  by (simp add: has_slot_def held_of_def)

lemma rr_push_frame [simp]:
  "q_zs (rr_push g s) = q_zs s" "q_jobs (rr_push g s) = q_jobs s" "q_gready (rr_push g s) = q_gready s"
  "q_gactive (rr_push g s) = q_gactive s" "q_wake (rr_push g s) = q_wake s"
  "q_mode (rr_push g s) = q_mode s" "q_paused (rr_push g s) = q_paused s"
  by (simp_all add: rr_push_def)

lemma gready_add_frame [simp]:
  "q_zs (gready_add g sc i s) = q_zs s" "q_jobs (gready_add g sc i s) = q_jobs s"
  "q_gactive (gready_add g sc i s) = q_gactive s" "q_glist (gready_add g sc i s) = q_glist s"
  "q_gqueued (gready_add g sc i s) = q_gqueued s"
  "q_gready (gready_add g sc i s) h = (if h = g then zadd sc i (q_gready s g) else q_gready s h)"
  by (simp_all add: gready_add_def)

lemma gready_rem_frame [simp]:
  "q_zs (gready_rem g i s) = q_zs s" "q_jobs (gready_rem g i s) = q_jobs s"
  "q_gactive (gready_rem g i s) = q_gactive s" "q_glist (gready_rem g i s) = q_glist s"
  "q_gqueued (gready_rem g i s) = q_gqueued s"
  "q_gready (gready_rem g i s) h = (if h = g then zrem i (q_gready s g) else q_gready s h)"
  by (simp_all add: gready_rem_def)

lemma uncount_frame [simp]:
  "q_zs (uncount g s) = q_zs s" "q_jobs (uncount g s) = q_jobs s" "q_gready (uncount g s) = q_gready s"
  "q_glist (uncount g s) = q_glist s" "q_gqueued (uncount g s) = q_gqueued s"
  by (simp_all add: uncount_def)

lemma slot_taken_frame [simp]:
  "q_zs (slot_taken c g s) = q_zs s" "q_jobs (slot_taken c g s) = q_jobs s"
  "q_gready (slot_taken c g s) = q_gready s" "q_glist (slot_taken c g s) = q_glist s"
  "q_gqueued (slot_taken c g s) = q_gqueued s"
  by (simp_all add: slot_taken_def)

lemma held_uncount: "held_of (uncount g s) h = (if h = g \<and> g \<noteq> '''' then held_of s g - 1 else held_of s h)"
  by (auto simp: uncount_def held_of_def)

lemma held_slot_taken: "held_of (slot_taken c g s) h = (if c_grouped c \<and> g \<noteq> '''' \<and> h = g then held_of s g + 1 else held_of s h)"
  by (auto simp: slot_taken_def held_of_def)

lemma ready_add_zs: "q_zs (snd (ready_add c i sc g s)) p = (if p = Ready then zadd sc i (q_zs s Ready) else q_zs s p)"
  by (simp add: ready_add_def Let_def)

lemma ready_add_jobs [simp]: "q_jobs (snd (ready_add c i sc g s)) = q_jobs s"
  by (simp add: ready_add_def Let_def)

lemma ready_rem_zs [simp]: "q_zs (ready_rem c i g s) p = (if p = Ready then zrem i (q_zs s Ready) else q_zs s p)"
  by (simp add: ready_rem_def Let_def)

lemma ready_rem_jobs [simp]: "q_jobs (ready_rem c i g s) = q_jobs s"
  by (simp add: ready_rem_def Let_def)

lemma slot_freed_zs [simp]: "q_zs (snd (slot_freed c g s)) = q_zs s"
  by (simp add: slot_freed_def Let_def)

lemma slot_freed_jobs [simp]: "q_jobs (snd (slot_freed c g s)) = q_jobs s"
  by (simp add: slot_freed_def Let_def)

lemma leave_active_zs:
  "q_zs (snd (leave_active c i g s)) p = (if p = Active then zrem i (q_zs s Active) else q_zs s p)"
  by (simp add: leave_active_def z_has_iff zrem_absent)

lemma leave_active_jobs [simp]: "q_jobs (snd (leave_active c i g s)) = q_jobs s"
  by (simp add: leave_active_def)

section \<open>The keys no job command touches\<close>

definition outer :: "qstate \<Rightarrow> zset \<times> (string \<Rightarrow> sfield hash) \<times> string list \<times> string option \<times> bool \<times> bool \<times> ekey" where
  "outer s = (q_scheds s, q_shash s, q_sdef s, q_mode s, q_paused s, q_wake s \<le> 1, q_rate s)"

lemma outerD:
  assumes "outer s' = outer s"
  shows "q_scheds s' = q_scheds s" and "q_shash s' = q_shash s" and "q_sdef s' = q_sdef s"
    and "q_mode s' = q_mode s" and "q_paused s' = q_paused s" and "q_wake s' \<le> 1 \<longleftrightarrow> q_wake s \<le> 1"
    and "q_rate s' = q_rate s"
  using assms by (simp_all add: outer_def)

lemma outer_state [frame_simps]:
  "outer (z_add p sc i s) = outer s" "outer (z_rem p i s) = outer s" "outer (h_set i fvs s) = outer s"
  "outer (h_del i fs s) = outer s" "outer (del_key i s) = outer s" "outer (publish k i f j s) = outer s"
  "outer (wake s) = outer s" "outer (snd (incr_seq s)) = outer s" "outer (snd (ready_score n s)) = outer s"
  by (simp_all add: outer_def z_add_def z_rem_def h_set_def h_del_def del_key_def publish_def wake_def
      incr_seq_def ready_score_def)

lemma outer_helpers [frame_simps]:
  "outer (rr_push g s) = outer s" "outer (gready_add g sc i s) = outer s" "outer (gready_rem g i s) = outer s"
  "outer (uncount g s) = outer s" "outer (slot_taken c g s) = outer s"
  by (simp_all add: outer_def rr_push_def gready_add_def gready_rem_def uncount_def slot_taken_def)

lemma outer_groups [frame_simps]:
  "outer (snd (ready_add c i sc g s)) = outer s" "outer (ready_rem c i g s) = outer s"
  "outer (snd (slot_freed c g s)) = outer s" "outer (snd (leave_active c i g s)) = outer s"
  by (simp_all add: ready_add_def ready_rem_def slot_freed_def leave_active_def Let_def frame_simps)

end
