(* ===== verification/Queue_Inv.thy ===== *)
theory Queue_Inv
  imports Queue_Groups
begin

text \<open>
  What the queue's keys promise between two scripts, and in the middle of one: every job with a
  hash is in exactly the sorted set its state names and is a job this package could have written
  (\<open>places\<close>), and the four invariants of a grouped queue (\<open>scripts/groups/groups.ts\<close>) with the cap
  (\<open>groups_ok\<close>). The ids of \<open>X\<close> are in flight, taken from a set and not yet put in another; the
  groups of \<open>Y\<close> are exempt from the fourth invariant while the round-robin serves them. Each step
  a script takes on one job is shown to keep \<open>qinv\<close> here; the scripts' theories compose them.
\<close>

definition job_ok :: "place \<Rightarrow> field hash \<Rightarrow> bool" where
  "job_ok p h = (sound h \<and> (hget h FToken \<noteq> None \<longleftrightarrow> p = Active) \<and>
     (case p of Delayed \<Rightarrow> attempt_of h < attempts_of h | Ready \<Rightarrow> attempt_of h < attempts_of h
      | Active \<Rightarrow> 1 \<le> attempt_of h \<and> attempt_of h \<le> attempts_of h
      | _ \<Rightarrow> attempt_of h \<le> attempts_of h))"

definition places :: "string set \<Rightarrow> qstate \<Rightarrow> bool" where
  "places X s = ((\<forall>p i. i \<in> zids (q_zs s p) \<longleftrightarrow> i \<notin> X \<and> h_get s i FState = Some (place_text p)) \<and>
     (\<forall>i. i \<notin> X \<longrightarrow> q_jobs s i \<noteq> [] \<longrightarrow>
        (\<exists>p. h_get s i FState = Some (place_text p) \<and> job_ok p (q_jobs s i))) \<and>
     (\<forall>p. zwf (q_zs s p)))"

definition active_of :: "qstate \<Rightarrow> string \<Rightarrow> string set" where
  "active_of s g = {i \<in> zids (q_zs s Active). group_of s i = g}"

definition mirror_ok :: "qstate \<Rightarrow> bool" where
  "mirror_ok s = ((\<forall>g i. zscore (q_gready s g) i = (if group_of s i = g then zscore (q_zs s Ready) i else None)) \<and>
     (\<forall>g. zwf (q_gready s g)))"

definition counts_ok :: "qstate \<Rightarrow> bool" where
  "counts_ok s = (\<forall>g. held_of s g = (if g = '''' then 0 else card (active_of s g)))"

definition rr_ok :: "qstate \<Rightarrow> bool" where
  "rr_ok s = (distinct (q_glist s) \<and> set (q_glist s) = q_gqueued s)"

definition offered :: "qcfg \<Rightarrow> string set \<Rightarrow> qstate \<Rightarrow> bool" where
  "offered c Y s = (\<forall>g. g \<notin> Y \<longrightarrow> q_gready s g \<noteq> [] \<longrightarrow> has_slot c s g \<longrightarrow> g \<in> q_gqueued s)"

definition capped :: "qcfg \<Rightarrow> qstate \<Rightarrow> bool" where
  "capped c s = (\<forall>g. c_conc c > 0 \<longrightarrow> held_of s g \<le> c_conc c)"

definition ungrouped :: "qstate \<Rightarrow> bool" where
  "ungrouped s = ((\<forall>g. q_gready s g = [] \<and> q_gactive s g = None) \<and> q_glist s = [] \<and> q_gqueued s = {})"

definition groups_ok :: "qcfg \<Rightarrow> string set \<Rightarrow> qstate \<Rightarrow> bool" where
  "groups_ok c Y s = (if c_grouped c then mirror_ok s \<and> counts_ok s \<and> rr_ok s \<and> offered c Y s \<and> capped c s
     else ungrouped s)"

definition qinv :: "qcfg \<Rightarrow> string set \<Rightarrow> string set \<Rightarrow> qstate \<Rightarrow> bool" where
  "qinv c X Y s = (places X s \<and> groups_ok c Y s)"

section \<open>Reading the invariant\<close>

lemma placesI:
  assumes "\<And>p i. i \<in> zids (q_zs s p) \<longleftrightarrow> i \<notin> X \<and> h_get s i FState = Some (place_text p)"
    and "\<And>i. i \<notin> X \<Longrightarrow> q_jobs s i \<noteq> [] \<Longrightarrow> \<exists>p. h_get s i FState = Some (place_text p) \<and> job_ok p (q_jobs s i)"
    and "\<And>p. zwf (q_zs s p)"
  shows "places X s"
  using assms by (simp add: places_def)

lemma places_in: "places X s \<Longrightarrow> i \<in> zids (q_zs s p) \<longleftrightarrow> i \<notin> X \<and> h_get s i FState = Some (place_text p)"
  by (simp add: places_def)

lemma places_job:
  assumes "places X s" and "i \<in> zids (q_zs s p)"
  shows "i \<notin> X" and "h_get s i FState = Some (place_text p)" and "job_ok p (q_jobs s i)"
    and "q_jobs s i \<noteq> []"
proof -
  show i: "i \<notin> X" and st: "h_get s i FState = Some (place_text p)"
    using assms places_in by blast+
  show ne: "q_jobs s i \<noteq> []" using st by (auto simp: h_get_def)
  from assms(1) i ne obtain q where "h_get s i FState = Some (place_text q)" "job_ok q (q_jobs s i)"
    by (auto simp: places_def)
  then show "job_ok p (q_jobs s i)" using st by simp
qed

lemma places_token:
  assumes "places X s" and "i \<notin> X" and "h_get s i FToken \<noteq> None"
  shows "i \<in> zids (q_zs s Active)" and "job_ok Active (q_jobs s i)"
proof -
  have "q_jobs s i \<noteq> []" using assms(3) by (auto simp: h_get_def)
  then obtain p where p: "h_get s i FState = Some (place_text p)" "job_ok p (q_jobs s i)"
    using assms(1,2) by (auto simp: places_def)
  with assms(3) have "p = Active" by (auto simp: job_ok_def h_get_def)
  with p assms show "i \<in> zids (q_zs s Active)" "job_ok Active (q_jobs s i)"
    by (auto simp: places_in)
qed

lemma job_ok_sound: "job_ok p h \<Longrightarrow> sound h"
  by (simp add: job_ok_def)

lemma sound_group: "sound (q_jobs s i) \<Longrightarrow> (case h_get s i FGroup of None \<Rightarrow> '''' | Some g \<Rightarrow> g) = group_of s i"
  by (auto simp: sound_def group_of_def h_get_def split: option.splits)

lemma places_flight_out: "places X s \<Longrightarrow> i \<in> X \<Longrightarrow> i \<notin> zids (q_zs s p)"
  by (simp add: places_in)

lemma qinv_places: "qinv c X Y s \<Longrightarrow> places X s"
  by (simp add: qinv_def)

lemma qinv_groups: "qinv c X Y s \<Longrightarrow> groups_ok c Y s"
  by (simp add: qinv_def)

section \<open>What the invariant depends on\<close>

lemma places_cong: "q_zs s' = q_zs s \<Longrightarrow> q_jobs s' = q_jobs s \<Longrightarrow> places X s' = places X s"
  by (simp add: places_def h_get_def)

lemma mirror_cong:
  assumes "q_zs s' Ready = q_zs s Ready" and "q_gready s' = q_gready s"
    and "\<And>i. i \<in> zids (q_zs s Ready) \<Longrightarrow> group_of s' i = group_of s i"
  shows "mirror_ok s' = mirror_ok s"
proof -
  have "(if group_of s' i = g then zscore (q_zs s Ready) i else None) =
      (if group_of s i = g then zscore (q_zs s Ready) i else None)" for g i
  proof (cases "i \<in> zids (q_zs s Ready)")
    case False
    then have "zscore (q_zs s Ready) i = None" by (simp add: zscore_None_iff)
    then show ?thesis by simp
  qed (simp add: assms(3))
  then show ?thesis unfolding mirror_ok_def assms(1,2) by presburger
qed

lemma counts_cong:
  assumes "q_zs s' Active = q_zs s Active" and "q_gactive s' = q_gactive s"
    and "\<And>i. i \<in> zids (q_zs s Active) \<Longrightarrow> group_of s' i = group_of s i"
  shows "counts_ok s' = counts_ok s"
proof -
  have "active_of s' g = active_of s g" for g using assms(1,3) by (auto simp: active_of_def)
  then show ?thesis using assms(2) by (simp add: counts_ok_def held_of_def)
qed

lemma groups_cong:
  assumes "q_zs s' Ready = q_zs s Ready" and "q_zs s' Active = q_zs s Active"
    and "\<And>i. i \<in> zids (q_zs s Ready) \<or> i \<in> zids (q_zs s Active) \<Longrightarrow> group_of s' i = group_of s i"
    and "q_gready s' = q_gready s" and "q_gactive s' = q_gactive s" and "q_glist s' = q_glist s"
    and "q_gqueued s' = q_gqueued s"
  shows "groups_ok c Y s' = groups_ok c Y s"
proof -
  have "held_of s' g = held_of s g" "has_slot c s' g = has_slot c s g" for g
    using assms(5) by (simp_all add: held_of_def has_slot_def)
  then show ?thesis
    using assms mirror_cong [of s' s] counts_cong [of s' s]
    by (simp add: groups_ok_def rr_ok_def offered_def capped_def ungrouped_def)
qed

lemma groups_frame:
  assumes "q_zs s' = q_zs s" "q_jobs s' = q_jobs s" "q_gready s' = q_gready s" "q_gactive s' = q_gactive s"
    "q_glist s' = q_glist s" "q_gqueued s' = q_gqueued s"
  shows "groups_ok c Y s' = groups_ok c Y s"
  using assms group_of_jobs [of s' _ s] by (intro groups_cong) auto

lemma qinv_cong:
  assumes "q_zs s' = q_zs s" "q_jobs s' = q_jobs s" "q_gready s' = q_gready s" "q_gactive s' = q_gactive s"
    "q_glist s' = q_glist s" "q_gqueued s' = q_gqueued s"
  shows "qinv c X Y s' = qinv c X Y s"
  unfolding qinv_def using places_cong [OF assms(1,2)] groups_frame [OF assms] by simp

lemma qinv_frame [simp]:
  "qinv c X Y (s\<lparr>q_seq := n\<rparr>) = qinv c X Y s" "qinv c X Y (s\<lparr>q_wake := w\<rparr>) = qinv c X Y s"
  "qinv c X Y (s\<lparr>q_paused := b\<rparr>) = qinv c X Y s" "qinv c X Y (s\<lparr>q_rate := k\<rparr>) = qinv c X Y s"
  "qinv c X Y (s\<lparr>q_mode := m\<rparr>) = qinv c X Y s" "qinv c X Y (s\<lparr>q_dedupe := d\<rparr>) = qinv c X Y s"
  "qinv c X Y (s\<lparr>q_scheds := z\<rparr>) = qinv c X Y s" "qinv c X Y (s\<lparr>q_shash := sh\<rparr>) = qinv c X Y s"
  "qinv c X Y (s\<lparr>q_sdef := sd\<rparr>) = qinv c X Y s" "qinv c X Y (s\<lparr>q_events := e\<rparr>) = qinv c X Y s"
  "qinv c X Y (publish k' i f j s) = qinv c X Y s" "qinv c X Y (wake s) = qinv c X Y s"
  "qinv c X Y (snd (incr_seq s)) = qinv c X Y s"
  by (rule qinv_cong; simp add: publish_def wake_def incr_seq_def)+

lemma qinv_same_mode: "same_mode c d \<Longrightarrow> qinv c X Y s = qinv d X Y s"
proof -
  assume m: "same_mode c d"
  then have "has_slot c = has_slot d" if "c_grouped c"
    using that by (simp add: fun_eq_iff has_slot_def same_mode_def)
  with m show ?thesis by (simp add: qinv_def groups_ok_def same_mode_def offered_def capped_def)
qed

lemma qinv_exempt_mono: "qinv c X Y s \<Longrightarrow> Y \<subseteq> Z \<Longrightarrow> qinv c X Z s"
  unfolding qinv_def groups_ok_def offered_def by (simp split: if_splits) blast

section \<open>A job in flight\<close>

text \<open>While a job is in no set its hash may be written freely, and it may come or go.\<close>

lemma qinv_flight_hash:
  assumes "qinv c X Y s" and "i \<in> X"
  shows "qinv c X Y (s\<lparr>q_jobs := (q_jobs s)(i := h)\<rparr>)"
proof -
  have p: "places X s" using assms by (simp add: qinv_def)
  let ?s = "s\<lparr>q_jobs := (q_jobs s)(i := h)\<rparr>"
  have g: "h_get ?s j f = h_get s j f" if "j \<notin> X" for j f
    using that assms(2) by (auto simp: h_get_def)
  have "places X ?s" using p g assms(2) unfolding places_def by auto
  moreover have "groups_ok c Y ?s = groups_ok c Y s"
    by (rule groups_cong) (use p assms(2) in \<open>auto simp: group_of_def h_get_def dest: places_flight_out\<close>)
  ultimately show ?thesis using assms(1) by (simp add: qinv_def)
qed

lemma qinv_flight [simp]:
  assumes "qinv c X Y s" and "i \<in> X"
  shows "qinv c X Y (h_set i fvs s)" and "qinv c X Y (h_del i fs s)" and "qinv c X Y (del_key i s)"
  using qinv_flight_hash [OF assms] by (simp_all add: h_set_def h_del_def del_key_def)

lemma qinv_new:
  assumes "qinv c X Y s" and "q_jobs s i = []"
  shows "qinv c (insert i X) Y s"
proof -
  have "h_get s i f = None" for f using assms(2) by (simp add: h_get_def)
  then show ?thesis using assms by (auto simp: qinv_def places_def)
qed

lemma qinv_gone:
  assumes "qinv c (insert i X) Y s" and "q_jobs s i = []"
  shows "qinv c X Y s"
proof -
  have n: "h_get s i FState = None" using assms(2) by (simp add: h_get_def)
  have "places X s"
  proof (rule placesI)
    fix p j
    show "j \<in> zids (q_zs s p) \<longleftrightarrow> j \<notin> X \<and> h_get s j FState = Some (place_text p)"
      using places_in [OF qinv_places [OF assms(1)], of j p] n by auto
  next
    fix j assume "j \<notin> X" and "q_jobs s j \<noteq> []"
    moreover from this assms(2) have "j \<noteq> i" by auto
    ultimately show "\<exists>p. h_get s j FState = Some (place_text p) \<and> job_ok p (q_jobs s j)"
      using qinv_places [OF assms(1)] by (simp add: places_def)
  next
    show "zwf (q_zs s p)" for p using qinv_places [OF assms(1)] by (simp add: places_def)
  qed
  then show ?thesis using assms(1) by (simp add: qinv_def)
qed

text \<open>A field the invariant does not read may be written on any job.\<close>

definition inert :: "field \<Rightarrow> bool" where
  "inert f = (f \<notin> {FData, FPriority, FAttempt, FAttempts, FState, FTimeout, FGroup, FToken})"

lemma job_ok_cong:
  assumes "\<And>f. f = FData \<or> \<not> inert f \<Longrightarrow> (hget h f = None) = (hget h' f = None)"
    and "\<And>f. \<not> inert f \<Longrightarrow> f \<noteq> FData \<Longrightarrow> hget h f = hget h' f"
  shows "job_ok p h = job_ok p h'"
proof -
  have e: "hget h f = hget h' f" if "f \<in> {FPriority, FAttempt, FAttempts, FTimeout, FGroup, FToken}" for f
    using that assms(2) by (auto simp: inert_def)
  have "attempt_of h = attempt_of h'" "attempts_of h = attempts_of h'" "sound h = sound h'"
    using e assms(1) [of FData] by (simp_all add: attempt_of_def attempts_of_def sound_def)
  then show ?thesis using e [of FToken] unfolding job_ok_def by (cases p) simp_all
qed

lemma qinv_inert:
  assumes q: "qinv c X Y s" and h: "q_jobs s i \<noteq> []" and f: "\<And>f v. (f, v) \<in> set fvs \<Longrightarrow> inert f"
  shows "qinv c X Y (h_set i fvs s)"
proof -
  let ?h = "hsets fvs (q_jobs s i)"
  have r: "hget ?h g = hget (q_jobs s i) g" if "\<not> inert g" for g
    using f that by (auto simp: hget_hsets split: option.splits dest!: map_of_SomeD)
  have j: "job_ok p ?h = job_ok p (q_jobs s i)" for p
    by (rule job_ok_cong) (use r in \<open>auto simp: inert_def\<close>)
  have g: "h_get (h_set i fvs s) k FState = h_get s k FState" "group_of (h_set i fvs s) k = group_of s k" for k
    using r [of FState] r [of FGroup] by (auto simp: h_get_def group_of_def inert_def)
  have "places X (h_set i fvs s)"
    using qinv_places [OF q] h unfolding places_def g by (auto simp: j)
  moreover have "groups_ok c Y (h_set i fvs s) = groups_ok c Y s"
    by (rule groups_cong) (simp_all add: g)
  ultimately show ?thesis using q by (simp add: qinv_def)
qed

end
