(* ===== verification/Queue_Moves.thy ===== *)
theory Queue_Moves
  imports Queue_Inv
begin

text \<open>
  A job's moves between the sorted sets, each with the group helper its script calls, keep the
  invariant: out of a set (the job is then in flight) and into one (it must be in flight, with the
  state and the fields of that set's jobs).
\<close>

section \<open>The sorted sets\<close>

lemma places_take:
  assumes "places X s" and "i \<in> zids (q_zs s p)"
    and "\<And>q. q_zs s' q = (if q = p then zrem i (q_zs s p) else q_zs s q)" and "q_jobs s' = q_jobs s"
  shows "places (insert i X) s'"
proof (rule placesI)
  have st: "h_get s i FState = Some (place_text p)" using places_job [OF assms(1,2)] by simp
  have h: "h_get s' j f = h_get s j f" for j f using assms(4) by (simp add: h_get_def)
  show "j \<in> zids (q_zs s' q) \<longleftrightarrow> j \<notin> insert i X \<and> h_get s' j FState = Some (place_text q)" for q j
    using places_in [OF assms(1), of j q] st by (auto simp: assms(3) h)
  show "\<exists>q. h_get s' j FState = Some (place_text q) \<and> job_ok q (q_jobs s' j)"
    if "j \<notin> insert i X" "q_jobs s' j \<noteq> []" for j
    using that assms(1,4) by (simp add: places_def h)
  show "zwf (q_zs s' q)" for q using assms(1) by (simp add: places_def assms(3))
qed

lemma places_put:
  assumes "places X s" and "i \<in> X" and "h_get s i FState = Some (place_text p)" and "job_ok p (q_jobs s i)"
    and "\<And>q. q_zs s' q = (if q = p then zadd sc i (q_zs s p) else q_zs s q)" and "q_jobs s' = q_jobs s"
  shows "places (X - {i}) s'"
proof (rule placesI)
  have h: "h_get s' j f = h_get s j f" for j f using assms(6) by (simp add: h_get_def)
  show "j \<in> zids (q_zs s' q) \<longleftrightarrow> j \<notin> X - {i} \<and> h_get s' j FState = Some (place_text q)" for q j
    using places_in [OF assms(1), of j q] assms(2,3) by (auto simp: assms(5) h)
  show "\<exists>q. h_get s' j FState = Some (place_text q) \<and> job_ok q (q_jobs s' j)"
    if "j \<notin> X - {i}" "q_jobs s' j \<noteq> []" for j
    using that assms(1,3,4,6) by (cases "j = i") (auto simp: places_def h)
  show "zwf (q_zs s' q)" for q using assms(1) by (simp add: places_def assms(5))
qed

lemma qinv_take:
  assumes "qinv c X Y s" and "i \<in> zids (q_zs s p)" and "p \<noteq> Ready" and "p \<noteq> Active"
  shows "qinv c (insert i X) Y (z_rem p i s)"
proof -
  have "places (insert i X) (z_rem p i s)"
    by (rule places_take [OF qinv_places [OF assms(1)] assms(2)]) simp_all
  moreover have "groups_ok c Y (z_rem p i s) = groups_ok c Y s"
    using assms(3,4) by (intro groups_cong) (auto intro: group_of_jobs)
  ultimately show ?thesis using assms(1) by (simp add: qinv_def)
qed

lemma qinv_put:
  assumes "qinv c X Y s" and "i \<in> X" and "h_get s i FState = Some (place_text p)" and "job_ok p (q_jobs s i)"
    and "p \<noteq> Ready" and "p \<noteq> Active"
  shows "qinv c (X - {i}) Y (z_add p sc i s)"
proof -
  have "places (X - {i}) (z_add p sc i s)"
    by (rule places_put [OF qinv_places [OF assms(1)] assms(2-4)]) simp_all
  moreover have "groups_ok c Y (z_add p sc i s) = groups_ok c Y s"
    using assms(5,6) by (intro groups_cong) (auto intro: group_of_jobs)
  ultimately show ?thesis using assms(1) by (simp add: qinv_def)
qed

section \<open>The ready set and its mirror\<close>

lemma counts_frame:
  assumes "q_zs s' Active = q_zs s Active" and "q_jobs s' = q_jobs s" and "q_gactive s' = q_gactive s"
  shows "counts_ok s' = counts_ok s"
  by (rule counts_cong) (use assms in \<open>auto intro: group_of_jobs\<close>)

lemma mirror_take:
  assumes "mirror_ok s" and "q_zs s' Ready = zrem i (q_zs s Ready)" and "q_jobs s' = q_jobs s"
    and "\<And>g. q_gready s' g = (if g = group_of s i then zrem i (q_gready s g) else q_gready s g)"
  shows "mirror_ok s'"
proof -
  have g: "group_of s' j = group_of s j" for j by (rule group_of_jobs) (simp add: assms(3))
  have z: "zscore (q_gready s h) j = (if group_of s j = h then zscore (q_zs s Ready) j else None)" "zwf (q_gready s h)" for h j
    using assms(1) unfolding mirror_ok_def by blast+
  show ?thesis unfolding mirror_ok_def g assms(2,4)
  proof (intro conjI allI)
    show "zscore (if h = group_of s i then zrem i (q_gready s h) else q_gready s h) j =
        (if group_of s j = h then zscore (zrem i (q_zs s Ready)) j else None)" for h j
      by (cases "j = i") (simp_all add: z(1))
    show "zwf (if h = group_of s i then zrem i (q_gready s h) else q_gready s h)" for h
      by (simp add: z(2))
  qed
qed

lemma mirror_put:
  assumes "mirror_ok s" and "q_zs s' Ready = zadd sc i (q_zs s Ready)" and "q_jobs s' = q_jobs s"
    and "\<And>g. q_gready s' g = (if g = group_of s i then zadd sc i (q_gready s g) else q_gready s g)"
  shows "mirror_ok s'"
proof -
  have g: "group_of s' j = group_of s j" for j by (rule group_of_jobs) (simp add: assms(3))
  have z: "zscore (q_gready s h) j = (if group_of s j = h then zscore (q_zs s Ready) j else None)" "zwf (q_gready s h)" for h j
    using assms(1) unfolding mirror_ok_def by blast+
  show ?thesis unfolding mirror_ok_def g assms(2,4)
  proof (intro conjI allI)
    show "zscore (if h = group_of s i then zadd sc i (q_gready s h) else q_gready s h) j =
        (if group_of s j = h then zscore (zadd sc i (q_zs s Ready)) j else None)" for h j
      by (cases "j = i") (simp_all add: z(1))
    show "zwf (if h = group_of s i then zadd sc i (q_gready s h) else q_gready s h)" for h
      by (simp add: z(2))
  qed
qed

lemma mirror_empty_out: "mirror_ok s \<Longrightarrow> i \<in> zids (q_gready s g) \<Longrightarrow> i \<in> zids (q_zs s Ready) \<and> group_of s i = g"
  using zscore_None_iff by (metis mirror_ok_def)

lemma qinv_take_ready:
  assumes "qinv c X Y s" and "i \<in> zids (q_zs s Ready)"
  shows "qinv c (insert i X) Y (ready_rem c i (group_of s i) s)"
proof -
  let ?s = "ready_rem c i (group_of s i) s"
  have p: "places (insert i X) ?s"
    by (rule places_take [OF qinv_places [OF assms(1)] assms(2)]) simp_all
  have "groups_ok c Y ?s"
  proof (cases "c_grouped c")
    case True
    then have g: "mirror_ok s" "counts_ok s" "rr_ok s" "offered c Y s" "capped c s"
      using assms(1) by (simp_all add: qinv_def groups_ok_def)
    have r: "?s = gready_rem (group_of s i) i (z_rem Ready i s)"
      using True by (simp add: ready_rem_def)
    have h: "held_of ?s k = held_of s k" "has_slot c ?s k = has_slot c s k" for k
      by (simp_all add: r held_of_def has_slot_def)
    have "mirror_ok ?s" by (rule mirror_take [OF g(1), where i = i]) (simp_all add: r)
    moreover have "counts_ok ?s" using g(2) counts_frame [of ?s s] by (simp add: r)
    moreover have "rr_ok ?s" using g(3) by (simp add: rr_ok_def r)
    moreover have "offered c Y ?s"
      using g(4) unfolding offered_def h by (auto simp: r zrem_def split: if_splits)
    moreover have "capped c ?s" using g(5) by (simp add: capped_def h)
    ultimately show ?thesis using True by (simp add: groups_ok_def)
  next
    case False
    then show ?thesis using assms(1) by (simp add: qinv_def groups_ok_def ungrouped_def ready_rem_def)
  qed
  with p show ?thesis by (simp add: qinv_def)
qed

lemma rr_push_queued [simp]: "q_gqueued (rr_push g s) = insert g (q_gqueued s)"
  by (auto simp: rr_push_def)

lemma rr_push_ok: "rr_ok s \<Longrightarrow> rr_ok (rr_push g s)"
  by (auto simp: rr_ok_def rr_push_def)

lemma slot_push [simp]: "held_of (rr_push g s) h = held_of s h" "has_slot c (rr_push g s) h = has_slot c s h"
  by (simp_all add: held_of_def has_slot_def)

lemma qinv_put_ready:
  assumes "qinv c X Y s" and "i \<in> X" and "h_get s i FState = Some (place_text Ready)"
    and "job_ok Ready (q_jobs s i)" and "g = group_of s i"
  shows "qinv c (X - {i}) Y (snd (ready_add c i sc g s))"
proof -
  let ?s = "snd (ready_add c i sc g s)"
  have p: "places (X - {i}) ?s"
    by (rule places_put [OF qinv_places [OF assms(1)] assms(2-4)]) (simp_all add: ready_add_zs)
  have "groups_ok c Y ?s"
  proof (cases "c_grouped c")
    case True
    then have gs: "mirror_ok s" "counts_ok s" "rr_ok s" "offered c Y s" "capped c s"
      using assms(1) by (simp_all add: qinv_def groups_ok_def)
    let ?t = "gready_add g sc i (z_add Ready sc i s)"
    have r: "?s = (if has_slot c ?t g then rr_push g ?t else ?t)"
      using True by (simp add: ready_add_def Let_def)
    have h: "held_of ?t k = held_of s k" "has_slot c ?t k = has_slot c s k" for k
      by (simp_all add: held_of_def has_slot_def)
    have h': "held_of ?s k = held_of s k" "has_slot c ?s k = has_slot c s k" for k
      by (simp_all add: r h)
    have f: "q_gready ?s k = (if k = g then zadd sc i (q_gready s k) else q_gready s k)" for k
      by (simp add: r)
    have "mirror_ok ?s"
      by (rule mirror_put [OF gs(1), where i = i and sc = sc]) (simp_all only: f ready_add_zs ready_add_jobs assms(5) [symmetric] simp_thms if_True)
    moreover have "counts_ok ?s" using gs(2) counts_frame [of ?s s] by (simp add: r)
    moreover have "rr_ok ?t" using gs(3) by (simp add: rr_ok_def)
    then have "rr_ok ?s" by (simp add: r rr_push_ok)
    moreover have "offered c Y ?s"
      using gs(4) unfolding offered_def h' by (auto simp: r h)
    moreover have "capped c ?s" using gs(5) by (simp add: capped_def h')
    ultimately show ?thesis using True by (simp add: groups_ok_def)
  next
    case False
    then show ?thesis using assms(1) by (simp add: qinv_def groups_ok_def ungrouped_def ready_add_def)
  qed
  with p show ?thesis by (simp add: qinv_def)
qed

section \<open>The active set and the counters\<close>

lemma active_of_finite [simp]: "finite (active_of s g)"
  by (simp add: active_of_def)

lemma qinv_take_active:
  assumes "qinv c X Y s" and "i \<in> zids (q_zs s Active)" and "g = group_of s i"
  shows "qinv c (insert i X) Y (snd (leave_active c i g s))"
proof -
  let ?s = "snd (leave_active c i g s)"
  have p: "places (insert i X) ?s"
    by (rule places_take [OF qinv_places [OF assms(1)] assms(2)]) (simp_all add: leave_active_zs)
  have "groups_ok c Y ?s"
  proof (cases "c_grouped c")
    case True
    then have gs: "mirror_ok s" "counts_ok s" "rr_ok s" "offered c Y s" "capped c s"
      using assms(1) by (simp_all add: qinv_def groups_ok_def)
    let ?t = "uncount g (z_rem Active i s)"
    have r: "?s = (if q_gready s g = [] \<or> \<not> has_slot c ?t g then ?t else rr_push g ?t)"
      using True assms(2) by (simp add: leave_active_def slot_freed_def z_has_iff Let_def)
    have h: "held_of ?t k = (if k = g \<and> g \<noteq> '''' then held_of s g - 1 else held_of s k)" for k
      using held_of_frame [of "z_rem Active i s" s] by (simp add: held_uncount)
    have h': "held_of ?s k = held_of ?t k" "has_slot c ?s k = has_slot c ?t k" for k
      by (simp_all add: r)
    have other: "has_slot c ?t k = has_slot c s k" if "k \<noteq> g" for k
      using that by (simp add: has_slot_def h)
    have gr: "group_of ?s j = group_of s j" for j by (rule group_of_jobs) simp
    have a: "active_of ?s k = (if k = g then active_of s k - {i} else active_of s k)" for k
      unfolding active_of_def gr using assms(3) by (auto simp: leave_active_zs)
    have "i \<in> active_of s g" using assms by (simp add: active_of_def)
    then have c: "card (active_of s g - {i}) = card (active_of s g) - 1" by simp
    have f: "q_gready ?s = q_gready s" by (simp add: r)
    have "mirror_ok ?s = mirror_ok s" by (rule mirror_cong) (simp_all add: f gr leave_active_zs)
    then have "mirror_ok ?s" using gs(1) by simp
    moreover have "counts_ok ?s" using gs(2) unfolding counts_ok_def h' h a by (simp add: c)
    moreover have "rr_ok ?t" using gs(3) by (simp add: rr_ok_def)
    then have "rr_ok ?s" by (simp add: r rr_push_ok)
    moreover have "offered c Y ?s"
      unfolding offered_def h'
    proof (intro allI impI)
      fix k assume k: "k \<notin> Y" "q_gready ?s k \<noteq> []" "has_slot c ?t k"
      show "k \<in> q_gqueued ?s"
      proof (cases "k = g")
        case True
        then show ?thesis using k f by (simp add: r)
      next
        case False
        then have "k \<in> q_gqueued s" using gs(4) k f other [OF False] by (simp add: offered_def)
        then show ?thesis by (simp add: r)
      qed
    qed
    moreover have "capped c ?s" unfolding capped_def h' h
    proof (intro allI impI)
      fix k assume "0 < c_conc c"
      then have "held_of s k \<le> c_conc c" "held_of s g \<le> c_conc c" using gs(5) by (simp_all add: capped_def)
      then show "(if k = g \<and> g \<noteq> [] then held_of s g - 1 else held_of s k) \<le> c_conc c" by auto
    qed
    ultimately show ?thesis using True by (simp add: groups_ok_def)
  next
    case False
    then show ?thesis
      using assms by (simp add: qinv_def groups_ok_def ungrouped_def leave_active_def slot_freed_def)
  qed
  with p show ?thesis by (simp add: qinv_def)
qed

lemma qinv_put_active:
  assumes "qinv c X Y s" and "i \<in> X" and "h_get s i FState = Some (place_text Active)"
    and "job_ok Active (q_jobs s i)" and "g = (if c_grouped c then group_of s i else g)"
    and "c_grouped c \<Longrightarrow> has_slot c s g"
  shows "qinv c (X - {i}) Y (slot_taken c g (z_add Active sc i s))"
proof -
  let ?s = "slot_taken c g (z_add Active sc i s)"
  have p: "places (X - {i}) ?s"
    by (rule places_put [OF qinv_places [OF assms(1)] assms(2-4)]) simp_all
  have "groups_ok c Y ?s"
  proof (cases "c_grouped c")
    case True
    then have gs: "mirror_ok s" "counts_ok s" "rr_ok s" "offered c Y s" "capped c s"
      using assms(1) by (simp_all add: qinv_def groups_ok_def)
    have gi: "group_of s i = g" using assms(5) True by simp
    have h: "held_of ?s k = (if k = g \<and> g \<noteq> '''' then held_of s g + 1 else held_of s k)" for k
      using True held_of_frame [of "z_add Active sc i s" s] by (simp add: held_slot_taken)
    have gr: "group_of ?s j = group_of s j" for j by (rule group_of_jobs) simp
    have a: "active_of ?s k = (if k = g then insert i (active_of s k) else active_of s k)" for k
      unfolding active_of_def gr using gi by auto
    have "i \<notin> active_of s g" using places_flight_out [OF qinv_places [OF assms(1)] assms(2)] by (simp add: active_of_def)
    then have c: "card (insert i (active_of s g)) = card (active_of s g) + 1" by simp
    have "mirror_ok ?s" using gs(1) mirror_cong [of ?s s] by (simp add: gr)
    moreover have "counts_ok ?s" using gs(2) unfolding counts_ok_def h a by (auto simp: c)
    moreover have "rr_ok ?s" using gs(3) by (simp add: rr_ok_def)
    moreover have "offered c Y ?s"
      unfolding offered_def
    proof (intro allI impI)
      fix k assume k: "k \<notin> Y" "q_gready ?s k \<noteq> []" "has_slot c ?s k"
      from k(3) have "has_slot c s k" unfolding has_slot_def h by (auto split: if_splits)
      then show "k \<in> q_gqueued ?s" using gs(4) k(1,2) by (simp add: offered_def)
    qed
    moreover have "capped c ?s"
      unfolding capped_def h
    proof (intro allI impI)
      fix k assume n: "0 < c_conc c"
      then have "held_of s k \<le> c_conc c" using gs(5) by (simp add: capped_def)
      moreover have "held_of s g < c_conc c" if "g \<noteq> []" using assms(6) True n that by (simp add: has_slot_def)
      ultimately show "(if k = g \<and> g \<noteq> [] then held_of s g + 1 else held_of s k) \<le> c_conc c" by auto
    qed
    ultimately show ?thesis using True by (simp add: groups_ok_def)
  next
    case False
    then show ?thesis using assms by (simp add: qinv_def groups_ok_def ungrouped_def slot_taken_def)
  qed
  with p show ?thesis by (simp add: qinv_def)
qed

section \<open>The round robin\<close>

lemma qinv_rr_take:
  assumes "qinv c X Y s" and "rr_take s = (Some g, s')" and "c_grouped c"
  shows "qinv c X (insert g Y) s'" and "q_gready s' = q_gready s" and "q_zs s' = q_zs s"
    and "q_jobs s' = q_jobs s" and "q_gactive s' = q_gactive s"
proof -
  obtain gs where l: "q_glist s = g # gs" and s': "s' = s\<lparr>q_glist := gs, q_gqueued := q_gqueued s - {g}\<rparr>"
    using assms(2) by (auto simp: rr_take_def split: list.splits)
  show f: "q_gready s' = q_gready s" "q_zs s' = q_zs s" "q_jobs s' = q_jobs s" "q_gactive s' = q_gactive s"
    by (simp_all add: s')
  have k: "held_of s' k = held_of s k" "has_slot c s' k = has_slot c s k" for k
    using f(4) by (simp_all add: held_of_def has_slot_def)
  have gs: "mirror_ok s" "counts_ok s" "rr_ok s" "offered c Y s" "capped c s"
    using assms(1,3) by (simp_all add: qinv_def groups_ok_def)
  have "mirror_ok s'" using gs(1) mirror_cong [of s' s] f group_of_jobs [of s' _ s] by simp
  moreover have "counts_ok s'" using gs(2) counts_frame [of s' s] f by simp
  moreover have "rr_ok s'" using gs(3) l by (auto simp: rr_ok_def s')
  moreover have "offered c (insert g Y) s'" using gs(4) unfolding offered_def k f by (auto simp: s')
  moreover have "capped c s'" using gs(5) by (simp add: capped_def k)
  ultimately show "qinv c X (insert g Y) s'"
    using assms(1,3) places_cong [of s' s X] f by (simp add: qinv_def groups_ok_def)
qed

lemma qinv_rr_served:
  assumes "qinv c X (insert g Y) s" and "c_grouped c" and "q_gready s g = [] \<or> \<not> has_slot c s g"
  shows "qinv c X Y s"
  using assms by (auto simp: qinv_def groups_ok_def offered_def)

lemma qinv_rr_push:
  assumes "qinv c X (insert g Y) s" and "c_grouped c"
  shows "qinv c X Y (rr_push g s)"
proof -
  have gs: "mirror_ok s" "counts_ok s" "rr_ok s" "offered c (insert g Y) s" "capped c s"
    using assms by (simp_all add: qinv_def groups_ok_def)
  have "mirror_ok (rr_push g s)" using gs(1) mirror_cong [of "rr_push g s" s] group_of_jobs [of "rr_push g s" _ s] by simp
  moreover have "counts_ok (rr_push g s)" using gs(2) counts_frame [of "rr_push g s" s] by simp
  moreover have "rr_ok (rr_push g s)" using gs(3) by (rule rr_push_ok)
  moreover have "offered c Y (rr_push g s)" using gs(4) by (auto simp: offered_def)
  moreover have "capped c (rr_push g s)" using gs(5) by (simp add: capped_def)
  ultimately show ?thesis using assms places_cong [of "rr_push g s" s X] by (simp add: qinv_def groups_ok_def)
qed

end
