(* ===== verification/Queue_Add.thy ===== *)
theory Queue_Add
  imports Queue_Moves
begin

text \<open>
  Adding jobs: \<open>ADD_JOB_FN\<close> and \<open>ADD\<close> of \<open>scripts/add.ts\<close>, with the deduplication by throttle and
  debounce. \<open>now\<close> is the server's clock in milliseconds, \<open>pz\<close> whether the queue is paused.
\<close>

section \<open>The script\<close>

datatype dedupe_mode = NoDedupe | Debounce | Throttle

record job_spec =
  a_id :: string
  a_data :: string
  a_priority :: nat
  a_attempts :: nat
  a_delay :: int
  a_at :: int
  a_timeout :: int
  a_mode :: dedupe_mode
  a_dkey :: string
  a_ttl :: int
  a_group :: string

datatype add_reply = Added | Existed | Held string

definition poke :: "bool \<Rightarrow> qstate \<Rightarrow> qstate" where
  "poke pz s = (if pz then s else wake s)"

text \<open>The hash of a new job: the seven fields, then a timeout and a named group where it has one.\<close>

definition write_job :: "qcfg \<Rightarrow> int \<Rightarrow> int \<Rightarrow> bool \<Rightarrow> job_spec \<Rightarrow> qstate \<Rightarrow> qstate" where
  "write_job c now runAt due j s = (let i = a_id j;
       s = h_set i [(FData, a_data j), (FPriority, show_nat (a_priority j)), (FAttempt, ''0''),
             (FAttempts, show_nat (a_attempts j)), (FState, if due then ''waiting'' else ''delayed''),
             (FAdded, show_int now), (FRunAt, show_int runAt)] s;
       s = (if a_timeout j \<ge> 0 then h_set i [(FTimeout, show_int (a_timeout j))] s else s)
     in if c_grouped c \<and> a_group j \<noteq> '''' then h_set i [(FGroup, a_group j)] s else s)"

definition add_job :: "qcfg \<Rightarrow> bool \<Rightarrow> int \<Rightarrow> job_spec \<Rightarrow> qstate \<Rightarrow> bool \<times> qstate" where
  "add_job c pz now j s =
     (if hexists (q_jobs s (a_id j)) then (False, s)
     else (let runAt = (if a_at j \<ge> 0 then a_at j else now + a_delay j);
               due = (runAt \<le> now);
               runAt = (if due then now else runAt);
               s = write_job c now runAt due j s
       in if due
          then (let (sc, s) = ready_score (a_priority j) s;
                    (claimable, s) = ready_add c (a_id j) sc (if c_grouped c then a_group j else '''') s
                in (True, if claimable then poke pz s else s))
          else (True, z_add Delayed runAt (a_id j) (if is_head runAt s then poke pz s else s))))"

text \<open>What Lua's \<open>tonumber\<close> makes a number of: spaces around, a sign, then digits with a point and an
  exponent, hexadecimal digits, or the C library's infinity and NaN.\<close>

definition is_space :: "char \<Rightarrow> bool" where
  "is_space ch = (ch \<in> {CHR 0x20, CHR 0x09, CHR 0x0A, CHR 0x0B, CHR 0x0C, CHR 0x0D})"

definition lower :: "string \<Rightarrow> string" where
  "lower = map (\<lambda>ch. if 65 \<le> (of_char ch :: nat) \<and> (of_char ch :: nat) \<le> 90 then char_of (of_char ch + 32 :: nat) else ch)"

definition drop_sign :: "string \<Rightarrow> string" where
  "drop_sign v = (case v of ch # r \<Rightarrow> if ch \<in> set ''+-'' then r else v | [] \<Rightarrow> v)"

definition exponent_ok :: "string \<Rightarrow> bool" where
  "exponent_ok v = (case v of [] \<Rightarrow> True | ch # r \<Rightarrow> ch = CHR ''e'' \<and> whole (drop_sign r))"

definition lua_numeric :: "string \<Rightarrow> bool" where
  "lua_numeric v = (let t = lower (drop_sign (dropWhile is_space (rev (dropWhile is_space (rev v)))));
       ds = takeWhile is_digit t; r = dropWhile is_digit t;
       fr = (case r of ch # f \<Rightarrow> if ch = CHR ''.'' then takeWhile is_digit f else [] | [] \<Rightarrow> []);
       rest = (case r of ch # f \<Rightarrow> if ch = CHR ''.'' then dropWhile is_digit f else r | [] \<Rightarrow> [])
     in t \<in> {''inf'', ''infinity'', ''nan''}
        \<or> (take 2 t = ''0x'' \<and> drop 2 t \<noteq> [] \<and> list_all (\<lambda>ch. is_digit ch \<or> ch \<in> set ''abcdef'') (drop 2 t))
        \<or> ((ds \<noteq> [] \<or> fr \<noteq> []) \<and> exponent_ok rest))"

definition is_id :: "string \<Rightarrow> bool" where
  "is_id held = (length held \<ge> 1 \<and> length held \<le> 256 \<and> \<not> list_ex (\<lambda>ch. ch \<in> set ''{}'') held)"

definition waiting_job :: "qstate \<Rightarrow> string \<Rightarrow> string option" where
  "waiting_job s held =
     (if (case h_get s held FPriority of None \<Rightarrow> True | Some p \<Rightarrow> \<not> lua_numeric p) then None
      else if h_get s held FAttempt \<noteq> Some ''0'' then None
      else if h_get s held FRetried \<noteq> None then None
      else if h_get s held FState = Some ''waiting'' \<and> z_has Ready held s then Some held
      else if h_get s held FState = Some ''delayed'' \<and> z_has Delayed held s then Some held
      else None)"

definition debounce_move :: "qcfg \<Rightarrow> bool \<Rightarrow> int \<Rightarrow> job_spec \<Rightarrow> string \<Rightarrow> qstate \<Rightarrow> qstate" where
  "debounce_move c pz now j hit s = (let runAt = now + a_delay j;
       s = h_set hit [(FData, a_data j), (FState, ''delayed''), (FRunAt, show_int runAt)] s;
       s = ready_rem c hit (group_of s hit) s;
       s = z_add Delayed runAt hit (if is_head runAt s then poke pz s else s)
     in s\<lparr>q_dedupe := (q_dedupe s)(a_dkey j := eset now hit (a_ttl j))\<rparr>)"

definition add_one :: "qcfg \<Rightarrow> bool \<Rightarrow> int \<Rightarrow> job_spec \<Rightarrow> qstate \<Rightarrow> add_reply \<times> qstate" where
  "add_one c pz now j s =
     (let held = (if a_mode j = NoDedupe then None else eget now (q_dedupe s (a_dkey j)));
          held = (case held of None \<Rightarrow> None | Some h \<Rightarrow> if is_id h then Some h else None);
          hit = (case held of None \<Rightarrow> None
                 | Some h \<Rightarrow> if a_mode j = Throttle then Some h else waiting_job s h)
      in case hit of
           Some h \<Rightarrow> if a_mode j = Debounce then (Held h, debounce_move c pz now j h s) else (Held h, s)
         | None \<Rightarrow> (case add_job c pz now j s of
             (True, s) \<Rightarrow> (Added, if a_mode j \<noteq> NoDedupe
                 then s\<lparr>q_dedupe := (q_dedupe s)(a_dkey j := eset now (a_id j) (a_ttl j))\<rparr> else s)
           | (False, s) \<Rightarrow> (Existed, s)))"

fun add_each :: "qcfg \<Rightarrow> bool \<Rightarrow> int \<Rightarrow> job_spec list \<Rightarrow> qstate \<Rightarrow> add_reply list \<times> qstate" where
  "add_each c pz now [] s = ([], s)"
| "add_each c pz now (j # js) s = (let (r, s) = add_one c pz now j s; (rs, s) = add_each c pz now js s in (r # rs, s))"

definition add_script :: "qcfg \<Rightarrow> int \<Rightarrow> job_spec list \<Rightarrow> qstate \<Rightarrow> add_reply list result \<times> qstate" where
  "add_script c now js = guarded c (\<lambda>s. add_each c (q_paused s) now js s)"

section \<open>Every job added is one this package could have written\<close>

text \<open>What the client has checked of a job before it sends it (theory Queue_Client).\<close>

definition spec_ok :: "job_spec \<Rightarrow> bool" where
  "spec_ok j = (a_priority j \<le> 1000 \<and> a_attempts j \<ge> 1 \<and>
     (a_timeout j = -1 \<or> (1 \<le> a_timeout j \<and> a_timeout j < 10 ^ 15)) \<and> group_sound (Some (a_group j)))"

lemma poke_frame [simp]:
  "q_zs (poke pz s) = q_zs s" "q_jobs (poke pz s) = q_jobs s" "qinv c X Y (poke pz s) = qinv c X Y s"
  by (simp_all add: poke_def)

lemma ready_score_frame [simp]:
  "q_zs (snd (ready_score p s)) = q_zs s" "q_jobs (snd (ready_score p s)) = q_jobs s"
  "qinv c X Y (snd (ready_score p s)) = qinv c X Y s"
  "group_of (snd (ready_score p s)) i = group_of s i" "h_get (snd (ready_score p s)) i f = h_get s i f"
  by (simp_all add: ready_score_def incr_seq_def group_of_def h_get_def)

lemma show_timeout: "1 \<le> t \<Longrightarrow> t < 10 ^ 15 \<Longrightarrow>
    whole (show_int t) \<and> length (show_int t) \<le> 15 \<and> parse_nat (show_int t) \<ge> 1"
  using show_nat_length [of "nat t" 15] by (simp add: show_int_def)

lemma whole_opt_show [simp]: "whole_opt (Some (show_nat n))" "num_opt (Some (show_nat n)) = n"
  by (simp_all add: whole_opt_def num_opt_def)

lemma whole_opt_zero [simp]: "whole_opt (Some ''0'')" "num_opt (Some ''0'') = 0"
  by (simp_all add: whole_opt_def num_opt_def whole_def is_digit_def parse_nat_def char_val_def)

lemma write_job_hash:
  assumes "q_jobs s (a_id j) = []"
  shows "h_get (write_job c now r due j s) (a_id j) f = (case f of
      FData \<Rightarrow> Some (a_data j) | FPriority \<Rightarrow> Some (show_nat (a_priority j)) | FAttempt \<Rightarrow> Some ''0''
    | FAttempts \<Rightarrow> Some (show_nat (a_attempts j)) | FState \<Rightarrow> Some (place_text (if due then Ready else Delayed))
    | FAdded \<Rightarrow> Some (show_int now) | FRunAt \<Rightarrow> Some (show_int r)
    | FTimeout \<Rightarrow> if a_timeout j \<ge> 0 then Some (show_int (a_timeout j)) else None
    | FGroup \<Rightarrow> if c_grouped c \<and> a_group j \<noteq> '''' then Some (a_group j) else None
    | _ \<Rightarrow> None)"
  using assms by (cases f) (simp_all add: write_job_def h_get_def Let_def)

lemma write_job_ok:
  assumes "q_jobs s (a_id j) = []" and j: "spec_ok j"
  shows "job_ok (if due then Ready else Delayed) (q_jobs (write_job c now r due j s) (a_id j))"
    and "group_of (write_job c now r due j s) (a_id j) = (if c_grouped c then a_group j else '''')"
proof -
  note h = write_job_hash [OF assms(1), unfolded h_get_def]
  have t: "whole (show_int (a_timeout j)) \<and> length (show_int (a_timeout j)) \<le> 15 \<and> parse_nat (show_int (a_timeout j)) \<ge> 1"
    if "0 \<le> a_timeout j" using j that show_timeout [of "a_timeout j"] by (auto simp: spec_ok_def)
  have "sound (q_jobs (write_job c now r due j s) (a_id j))"
    using j t by (auto simp: sound_def h spec_ok_def group_sound_def)
  then show "job_ok (if due then Ready else Delayed) (q_jobs (write_job c now r due j s) (a_id j))"
    using j by (simp add: job_ok_def h attempt_of_def attempts_of_def spec_ok_def)
  show "group_of (write_job c now r due j s) (a_id j) = (if c_grouped c then a_group j else '''')"
    using j by (simp add: group_of_def h_get_def h spec_ok_def)
qed

lemma write_job_flight: "qinv c X Y s \<Longrightarrow> a_id j \<in> X \<Longrightarrow> qinv c X Y (write_job c' now r due j s)"
  by (simp add: write_job_def Let_def)

lemma add_job_inv:
  assumes q: "qinv c {} {} s" and j: "spec_ok j"
  shows "qinv c {} {} (snd (add_job c pz now j s))"
proof (cases "hexists (q_jobs s (a_id j))")
  case True
  then show ?thesis using q by (simp add: add_job_def)
next
  case False
  then have none: "q_jobs s (a_id j) = []" by (simp add: hexists_def)
  have run: ?thesis if due: "due = (runAt \<le> now)" "runAt = (if a_at j \<ge> 0 then a_at j else now + a_delay j)" for runAt due
  proof -
    define r where "r = (if due then now else runAt)"
    define s3 where "s3 = write_job c now r due j s"
    have q3: "qinv c {a_id j} {} s3" using qinv_new [OF q none] by (simp add: s3_def write_job_flight)
    note ok = write_job_ok [OF none j, where due = due and c = c and now = now and r = r, folded s3_def]
    have st: "h_get s3 (a_id j) FState = Some (place_text (if due then Ready else Delayed))"
      by (simp add: s3_def write_job_hash none)
    show ?thesis
    proof (cases due)
      case True
      obtain sc s4 where r4: "ready_score (a_priority j) s3 = (sc, s4)" by fastforce
      obtain cl s5 where r5: "ready_add c (a_id j) sc (if c_grouped c then a_group j else '''') s4 = (cl, s5)" by fastforce
      have f4: "qinv c {a_id j} {} s4" "q_jobs s4 = q_jobs s3" "group_of s4 = group_of s3" "h_get s4 = h_get s3"
        using q3 ready_score_frame [where s = s3 and p = "a_priority j"] r4 by (auto simp: fun_eq_iff)
      have "qinv c ({a_id j} - {a_id j}) {} (snd (ready_add c (a_id j) sc (if c_grouped c then a_group j else '''') s4))"
        by (rule qinv_put_ready) (use True ok st f4 in simp_all)
      moreover have "add_job c pz now j s = (True, if cl then poke pz s5 else s5)"
        using False True due r4 r5 by (simp add: add_job_def Let_def s3_def r_def)
      ultimately show ?thesis using r5 by simp
    next
      case False2: False
      have "qinv c ({a_id j} - {a_id j}) {} (z_add Delayed r (a_id j) (if is_head r s3 then poke pz s3 else s3))"
        by (rule qinv_put) (use q3 ok st False2 in \<open>simp_all add: h_get_def\<close>)
      moreover have "add_job c pz now j s = (True, z_add Delayed r (a_id j) (if is_head r s3 then poke pz s3 else s3))"
        using False False2 due by (simp add: add_job_def Let_def s3_def r_def)
      ultimately show ?thesis by simp
    qed
  qed
  show ?thesis by (rule run) simp_all
qed

section \<open>A debounce moves the waiting job\<close>

lemma waiting_job_Some:
  assumes "waiting_job s held = Some h"
  shows "h = held" and "h_get s h FAttempt = Some ''0''" and "h_get s h FRetried = None"
    and "(h_get s h FState = Some ''waiting'' \<and> h \<in> zids (q_zs s Ready)) \<or>
         (h_get s h FState = Some ''delayed'' \<and> h \<in> zids (q_zs s Delayed))"
  using assms by (auto simp: waiting_job_def z_has_iff split: if_splits)

lemma zadd_zrem [simp]: "zadd sc i (zrem i z) = zadd sc i z"
  by (simp add: zadd_def zrem_def filter_filter)

lemma ready_rem_absent:
  assumes "qinv c X Y s" and "i \<notin> zids (q_zs s Ready)"
  shows "ready_rem c i g s = s"
proof -
  have "i \<notin> zids (q_gready s g)" if "c_grouped c"
    using that assms mirror_empty_out [of s i g] by (auto simp: qinv_def groups_ok_def)
  then show ?thesis using assms(2)
    by (auto simp: ready_rem_def z_rem_def gready_rem_def zrem_absent Let_def fun_upd_idem)
qed

lemma debounce_move_keys:
  "q_zs (debounce_move c pz now j hit s) p = (if p = Delayed then zadd (now + a_delay j) hit (q_zs s Delayed)
     else if p = Ready then zrem hit (q_zs s Ready) else q_zs s p)"
  "q_jobs (debounce_move c pz now j hit s) =
     q_jobs (h_set hit [(FData, a_data j), (FState, ''delayed''), (FRunAt, show_int (now + a_delay j))] s)"
  "q_gready (debounce_move c pz now j hit s) = q_gready (ready_rem c hit (group_of s hit) s)"
  "q_gactive (debounce_move c pz now j hit s) = q_gactive s"
  "q_glist (debounce_move c pz now j hit s) = q_glist s"
  "q_gqueued (debounce_move c pz now j hit s) = q_gqueued s"
proof -
  have "group_of (h_set hit [(FData, a_data j), (FState, v), (FRunAt, w)] s) hit = group_of s hit" for v w
    by (simp add: group_of_def h_get_def)
  then show
    "q_gready (debounce_move c pz now j hit s) = q_gready (ready_rem c hit (group_of s hit) s)"
    by (simp add: debounce_move_def Let_def ready_rem_def gready_rem_def poke_def)
qed (simp_all add: debounce_move_def Let_def poke_def ready_rem_def)

lemma job_ok_delayed:
  assumes "job_ok p h" and "p = Ready \<or> p = Delayed"
  shows "job_ok Delayed (hsets [(FData, d), (FState, v), (FRunAt, w)] h)"
  using assms by (auto simp: job_ok_def sound_def attempt_of_def attempts_of_def)

lemma debounce_move_inv:
  assumes q: "qinv c {} {} s" and w: "waiting_job s held = Some h"
  shows "qinv c {} {} (debounce_move c pz now j h s)"
proof -
  note w = waiting_job_Some [OF w]
  let ?w = "h_set h [(FData, a_data j), (FState, ''delayed''), (FRunAt, show_int (now + a_delay j))]"
  let ?put = "\<lambda>t. z_add Delayed (now + a_delay j) h (?w t)"
  have put: "qinv c {} {} (?put t)"
    if "qinv c {h} {} t" "q_jobs t = q_jobs s" "job_ok p (q_jobs s h)" "p = Ready \<or> p = Delayed" for t p
  proof -
    have "qinv c ({h} - {h}) {} (?put t)"
      by (rule qinv_put) (use that job_ok_delayed [OF that(3,4)] in \<open>simp_all add: h_get_def\<close>)
    then show ?thesis by simp
  qed
  from w(4) show ?thesis
  proof
    assume r: "h_get s h FState = Some ''waiting'' \<and> h \<in> zids (q_zs s Ready)"
    let ?t = "ready_rem c h (group_of s h) s"
    have "qinv c {} {} (?put ?t)"
      using put [of ?t Ready] qinv_take_ready [OF q, of h] places_job(3) [OF qinv_places [OF q], of h Ready] r by simp
    moreover have "qinv c {} {} (debounce_move c pz now j h s) = qinv c {} {} (?put ?t)"
      by (rule qinv_cong) (simp_all add: debounce_move_keys fun_eq_iff, simp_all add: ready_rem_def Let_def)
    ultimately show ?thesis by simp
  next
    assume r: "h_get s h FState = Some ''delayed'' \<and> h \<in> zids (q_zs s Delayed)"
    let ?t = "z_rem Delayed h s"
    have no: "h \<notin> zids (q_zs s Ready)"
      using places_in [OF qinv_places [OF q], of h Ready] r by simp
    then have rr: "ready_rem c h (group_of s h) s = s" using ready_rem_absent [OF q] by simp
    have "qinv c {} {} (?put ?t)"
      using put [of ?t Delayed] qinv_take [OF q, of h Delayed] places_job(3) [OF qinv_places [OF q], of h Delayed] r by simp
    moreover have "qinv c {} {} (debounce_move c pz now j h s) = qinv c {} {} (?put ?t)"
      by (rule qinv_cong) (simp_all add: debounce_move_keys fun_eq_iff rr zrem_absent [OF no])
    ultimately show ?thesis by simp
  qed
qed

section \<open>The script keeps the invariant\<close>

lemma add_one_inv:
  assumes "qinv c {} {} s" and "spec_ok j"
  shows "qinv c {} {} (snd (add_one c pz now j s))"
  using assms add_job_inv [OF assms, of pz now] debounce_move_inv [OF assms(1), where pz = pz and now = now and j = j]
  by (auto simp: add_one_def Let_def split: option.splits prod.splits bool.splits if_splits)

lemma add_each_inv:
  "qinv c {} {} s \<Longrightarrow> list_all spec_ok js \<Longrightarrow> qinv c {} {} (snd (add_each c pz now js s))"
proof (induction js arbitrary: s)
  case (Cons j js)
  then show ?case using add_one_inv [of c s j pz now] by (simp add: split_beta)
qed simp

lemma outer_poke [frame_simps]: "outer (poke pz s) = outer s"
  by (simp add: poke_def frame_simps)

lemma outer_write_job [frame_simps]: "outer (write_job c now r due j s) = outer s"
  by (simp add: write_job_def Let_def frame_simps)

lemma outer_add_job [frame_simps]: "outer (snd (add_job c pz now j s)) = outer s"
  by (simp add: add_job_def Let_def split_beta frame_simps)

lemma outer_dedupe [frame_simps]: "outer (s\<lparr>q_dedupe := d\<rparr>) = outer s"
  by (simp add: outer_def)

lemma outer_add_one [frame_simps]: "outer (snd (add_one c pz now j s)) = outer s"
proof -
  obtain b t where t: "add_job c pz now j s = (b, t)" by fastforce
  then have "outer t = outer s" using outer_add_job [of c pz now j s] by simp
  moreover have "outer (debounce_move c pz now j h s) = outer s" for h
    by (simp add: debounce_move_def Let_def frame_simps)
  ultimately show ?thesis
    by (simp add: add_one_def t Let_def frame_simps split: option.splits bool.splits)
qed

lemma outer_add_each [frame_simps]: "outer (snd (add_each c pz now js s)) = outer s"
  by (induction js arbitrary: s) (simp_all add: split_beta frame_simps)

end
