(* ===== verification/Queue_Claim.thy ===== *)
theory Queue_Claim
  imports Queue_Add
begin

text \<open>
  The claim: \<open>CLAIM_FN\<close> of \<open>scripts/claim/body.ts\<close> with its steps (\<open>scripts/claim/steps.ts\<close>) and the
  \<open>CLAIM\<close> script (\<open>claim.ts\<close>). It reclaims lapsed leases, promotes due jobs, pops what the pause, the
  rate and the groups admit, and leaves the wake token. \<open>us\<close> is the server's clock in microseconds,
  which the rate limit reads; \<open>now\<close> is it in milliseconds.
\<close>

section \<open>Replies\<close>

record claimed =
  j_id :: string
  j_data :: string
  j_attempt :: nat
  j_attempts :: nat
  j_token :: string
  j_timeout :: int

record due_sched =
  ds_id :: string
  ds_kind :: string
  ds_spec :: string
  ds_zone :: string
  ds_due :: int

record claim_reply =
  cr_jobs :: "claimed list"
  cr_stalled :: "string list"
  cr_invalid :: "string list"
  cr_next :: int
  cr_due :: "due_sched list"

definition INVALID_ERROR :: string where
  \<open>INVALID_ERROR = ''{"name":"QueueError","message":"INVALID: a stored job this package could not have written"}''\<close>

definition LAPSED_ERROR :: string where
  \<open>LAPSED_ERROR = ''{"name":"LeaseLapsed","message":"lease lapsed"}''\<close>

section \<open>The steps\<close>

text \<open>An unsound job leaves its sets; one with a hash is failed for good and reported.\<close>

definition refuse :: "qcfg \<Rightarrow> int \<Rightarrow> string \<Rightarrow> string list \<times> qstate \<Rightarrow> string list \<times> qstate" where
  "refuse c now i acc = (let (invalid, s) = acc;
       g = group_of s i;
       s = ready_rem c i g (z_rem Delayed i s);
       s = snd (leave_active c i g s)
     in if \<not> hexists (q_jobs s i) then (invalid, s)
        else (invalid @ [i],
          publish ''failed'' i ''error'' INVALID_ERROR
            (z_add Failed now i
              (h_del i [FToken]
                (h_set i [(FState, ''failed''), (FError, INVALID_ERROR), (FFinished, show_int now)] s)))))"

text \<open>The arguments of a queue's rate, three zeros for none, and the rate a script reads from them.\<close>

definition rateArgs :: "rate option \<Rightarrow> int \<times> int \<times> int" where
  "rateArgs r = (case r of None \<Rightarrow> (0, 0, 0) | Some r \<Rightarrow> (per r, limit r, burst r))"

definition rate_of :: "int \<times> int \<times> int \<Rightarrow> rate option" where
  "rate_of a = (case a of (p, l, b) \<Rightarrow> if p = 0 then None else Some \<lparr>limit = l, per = p, burst = b\<rparr>)"

definition peek_rate :: "int \<Rightarrow> rate \<Rightarrow> qstate \<Rightarrow> gcra_reply" where
  "peek_rate us r s = fst (gcra us r 1 False (q_rate s))"

definition admitted :: "nat \<Rightarrow> bool \<Rightarrow> int \<Rightarrow> rate option \<Rightarrow> qstate \<Rightarrow> nat" where
  "admitted n pz us rt s = (if pz then 0
     else (case rt of None \<Rightarrow> n
       | Some r \<Rightarrow> (let one = peek_rate us r s in
           if rp_allowed one = 0 then 0 else min n (nat (rp_remaining one + 1)))))"

definition schedule_sound :: "sfield hash \<Rightarrow> bool" where
  "schedule_sound h =
     (if hget h SKind = None \<or> hget h SSpec = None \<or> hget h SData = None \<or> hget h SOrigin = None then False
      else if hget h SOrigin \<noteq> Some ''definition'' \<and> hget h SOrigin \<noteq> Some ''runtime'' then False
      else if hget h SKind = Some ''cron'' then True
      else hget h SKind = Some ''every'' \<and> hget h SZone = None \<and> whole_opt (hget h SSpec)
        \<and> (case hget h SSpec of None \<Rightarrow> False | Some v \<Rightarrow> length v \<le> 15) \<and> num_opt (hget h SSpec) \<ge> 1000)"

definition or_empty :: "string option \<Rightarrow> string" where
  "or_empty v = (case v of None \<Rightarrow> '''' | Some t \<Rightarrow> t)"

definition due_schedules :: "int \<Rightarrow> qstate \<Rightarrow> due_sched list" where
  "due_schedules now s = take 20 (map (\<lambda>(sc, i). let h = q_shash s i in
       \<lparr>ds_id = i, ds_kind = or_empty (hget h SKind), ds_spec = or_empty (hget h SSpec),
        ds_zone = or_empty (hget h SZone), ds_due = sc\<rparr>)
     (filter (\<lambda>(sc, i). schedule_sound (q_shash s i)) (zupto now 100 (q_scheds s))))"

definition next_wait :: "int \<Rightarrow> bool \<Rightarrow> int \<Rightarrow> qstate \<Rightarrow> int" where
  "next_wait now backlog retry s = (if backlog then 0 else
     (let w = (case q_zs s Delayed of [] \<Rightarrow> -1 | (sc, i) # z \<Rightarrow> max 0 (sc - now));
          w = (case zabove now 1 (q_scheds s) of [] \<Rightarrow> w
               | (sc, i) # z \<Rightarrow> if w < 0 \<or> sc - now < w then sc - now else w)
      in if retry \<ge> 0 \<and> (w < 0 \<or> retry < w) then retry else w))"

definition reclaim_one :: "qcfg \<Rightarrow> int \<Rightarrow> string \<Rightarrow> string list \<times> string list \<times> qstate \<Rightarrow> string list \<times> string list \<times> qstate" where
  "reclaim_one c now i acc = (let (stalled, invalid, s) = acc; f = q_jobs s i in
     if \<not> sound f then (stalled, refuse c now i (invalid, s))
     else (let g = or_empty (hget f FGroup);
               s = snd (leave_active c i g s);
               s = h_del i [FToken] s
       in (stalled @ [i], invalid,
           if attempt_of f < attempts_of f
           then (let s = h_set i [(FState, ''waiting'')] s;
                     (sc, s) = ready_score (num_opt (hget f FPriority)) s
                 in snd (ready_add c i sc g s))
           else publish ''failed'' i ''error'' LAPSED_ERROR
                  (z_add Failed now i
                    (h_set i [(FState, ''failed''), (FError, LAPSED_ERROR), (FFinished, show_int now)] s)))))"

definition reclaim :: "qcfg \<Rightarrow> int \<Rightarrow> string list \<Rightarrow> qstate \<Rightarrow> string list \<times> string list \<times> qstate" where
  "reclaim c now invalid s =
     foldl (\<lambda>acc p. reclaim_one c now (snd p) acc) ([], invalid, s) (zbelow now 100 (q_zs s Active))"

definition promote_one :: "qcfg \<Rightarrow> int \<Rightarrow> string \<Rightarrow> string list \<times> qstate \<Rightarrow> string list \<times> qstate" where
  "promote_one c now i acc = (let (invalid, s) = acc; f = q_jobs s i in
     if \<not> sound f then refuse c now i (invalid, s)
     else (let s = h_set i [(FState, ''waiting'')] (z_rem Delayed i s);
               (sc, s) = ready_score (num_opt (hget f FPriority)) s
       in (invalid, snd (ready_add c i sc (or_empty (hget f FGroup)) s))))"

definition promote :: "qcfg \<Rightarrow> int \<Rightarrow> string list \<Rightarrow> qstate \<Rightarrow> string list \<times> qstate" where
  "promote c now invalid s =
     foldl (\<lambda>acc p. promote_one c now (snd p) acc) (invalid, s) (zupto now 1000 (q_zs s Delayed))"

section \<open>The claim\<close>

type_synonym claim_acc = "claimed list \<times> string list \<times> qstate"

definition begin_job :: "qcfg \<Rightarrow> int \<Rightarrow> int \<Rightarrow> string list \<Rightarrow> string \<Rightarrow> string \<Rightarrow> claim_acc \<Rightarrow> claim_acc" where
  "begin_job c now lease tokens i g acc = (let (jobs, invalid, s) = acc; f = q_jobs s i in
     if \<not> sound f then (jobs, refuse c now i (invalid, s))
     else (let token = tokens ! length jobs;
               attempt = attempt_of f + 1;
               s = h_set i [(FState, ''active''), (FToken, token), (FAttempt, show_nat attempt)] s;
               s = slot_taken c g (z_add Active (now + lease) i s)
       in (jobs @ [\<lparr>j_id = i, j_data = or_empty (hget f FData), j_attempt = attempt,
                    j_attempts = attempts_of f, j_token = token,
                    j_timeout = (case hget f FTimeout of None \<Rightarrow> -1 | Some t \<Rightarrow> int (parse_nat t))\<rparr>],
           invalid, s)))"

text \<open>The round-robin pop; the first argument is the number of takes left, \<open>2n + 10\<close> at the start.\<close>

fun pop_groups :: "nat \<Rightarrow> nat \<Rightarrow> qcfg \<Rightarrow> int \<Rightarrow> int \<Rightarrow> string list \<Rightarrow> nat \<Rightarrow> claim_acc \<Rightarrow> claim_acc" where
  "pop_groups 0 n c now lease tokens got acc = acc"
| "pop_groups (Suc takes) n c now lease tokens got (jobs, invalid, s) =
     (if got \<ge> n then (jobs, invalid, s)
      else (case rr_take s of
          (None, s') \<Rightarrow> (jobs, invalid, s')
        | (Some g, s1) \<Rightarrow>
            (let (popped, rest) = (if has_slot c s1 g then zpopmin 1 (q_gready s1 g) else ([], q_gready s1 g)) in
             (case popped of
                [] \<Rightarrow> pop_groups takes n c now lease tokens got (jobs, invalid, s1)
              | (sc, i) # z \<Rightarrow>
                  (let s2 = z_rem Ready i (s1\<lparr>q_gready := (q_gready s1)(g := rest)\<rparr>);
                       (jobs3, invalid3, s3) = begin_job c now lease tokens i g (jobs, invalid, s2);
                       s4 = (if has_slot c s3 g \<and> q_gready s3 g \<noteq> [] then rr_push g s3 else s3)
                   in pop_groups takes n c now lease tokens (got + 1) (jobs3, invalid3, s4))))))"

definition pop_ready :: "nat \<Rightarrow> qcfg \<Rightarrow> int \<Rightarrow> int \<Rightarrow> string list \<Rightarrow> claim_acc \<Rightarrow> claim_acc" where
  "pop_ready admit c now lease tokens acc = (let (jobs, invalid, s) = acc;
       (popped, rest) = zpopmin admit (q_zs s Ready);
       s = s\<lparr>q_zs := (q_zs s)(Ready := rest)\<rparr>
     in foldl (\<lambda>acc p. begin_job c now lease tokens (snd p) '''' acc) (jobs, invalid, s) popped)"

definition claimable :: "qcfg \<Rightarrow> qstate \<Rightarrow> bool" where
  "claimable c s = (if c_grouped c then q_glist s \<noteq> [] else q_zs s Ready \<noteq> [])"

definition retry_wait :: "qcfg \<Rightarrow> int \<Rightarrow> rate option \<Rightarrow> bool \<Rightarrow> qstate \<Rightarrow> int" where
  "retry_wait c us rt pz s = (case rt of None \<Rightarrow> -1
     | Some r \<Rightarrow> if claimable c s \<and> \<not> pz
         then (let one = peek_rate us r s in if rp_allowed one = 0 then rp_retry one else -1) else -1)"

text \<open>The three parts of \<open>claim\<close> after the admission: the pop, the charge, and the wake token.\<close>

definition pop_jobs :: "nat \<Rightarrow> qcfg \<Rightarrow> int \<Rightarrow> int \<Rightarrow> string list \<Rightarrow> string list \<Rightarrow> qstate \<Rightarrow> claim_acc" where
  "pop_jobs admit c now lease tokens invalid s =
     (if admit > 0 \<and> c_grouped c then pop_groups (2 * admit + 10) admit c now lease tokens 0 ([], invalid, s)
      else if admit > 0 then pop_ready admit c now lease tokens ([], invalid, s)
      else ([], invalid, s))"

definition charge :: "int \<Rightarrow> rate option \<Rightarrow> nat \<Rightarrow> qstate \<Rightarrow> qstate" where
  "charge us rt k s = (case rt of Some r \<Rightarrow>
       if k > 0 then s\<lparr>q_rate := snd (gcra us r (int k) True (q_rate s))\<rparr> else s
     | None \<Rightarrow> s)"

definition leave_token :: "qcfg \<Rightarrow> bool \<Rightarrow> int \<Rightarrow> qstate \<Rightarrow> qstate" where
  "leave_token c pz retry s = (if \<not> pz \<and> claimable c s \<and> retry < 0 then wake s else s\<lparr>q_wake := 0\<rparr>)"

definition claim :: "qcfg \<Rightarrow> int \<Rightarrow> nat \<Rightarrow> int \<Rightarrow> string list \<Rightarrow> rate option \<Rightarrow> qstate \<Rightarrow> claim_reply \<times> qstate" where
  "claim c us n lease tokens rt s0 = (let now = us div 1000;
       scheduled = due_schedules now s0;
       (stalled, invalid, s) = reclaim c now [] s0;
       (invalid, s) = promote c now invalid s;
       pz = q_paused s;
       (jobs, invalid, s) = pop_jobs (admitted n pz us rt s) c now lease tokens invalid s;
       s = charge us rt (length jobs) s;
       retry = retry_wait c us rt pz s;
       s = leave_token c pz retry s
     in (\<lparr>cr_jobs = jobs, cr_stalled = stalled, cr_invalid = invalid,
          cr_next = (if pz then 5000 else next_wait now (length scheduled \<ge> 20) retry s),
          cr_due = scheduled\<rparr>, s))"

text \<open>\<open>CLAIM\<close>: a token per slot asked for.\<close>

definition claim_script :: "qcfg \<Rightarrow> int \<Rightarrow> int \<Rightarrow> string list \<Rightarrow> rate option \<Rightarrow> qstate \<Rightarrow> claim_reply result \<times> qstate" where
  "claim_script c us lease tokens rt =
     guarded c (claim c us (length tokens) lease tokens (rate_of (rateArgs rt)))"

end
