(* ===== verification/Queue_Claim_Inv.thy ===== *)
theory Queue_Claim_Inv
  imports Queue_Claim
begin

text \<open>
  The claim keeps the queue's invariant, refuses no job this package wrote, and every job it hands
  out is held: active under the token handed out with it, with a lease from now and its attempt
  counted.
\<close>

text \<open>The jobs that are active keep their hash and their lease.\<close>

definition held_same :: "qstate \<Rightarrow> qstate \<Rightarrow> bool" where
  "held_same s s' = (\<forall>k \<in> zids (q_zs s Active). q_jobs s' k = q_jobs s k \<and> zscore (q_zs s' Active) k = zscore (q_zs s Active) k)"

lemma held_same_refl [simp]: "held_same s s"
  by (simp add: held_same_def)

lemma held_same_trans: "held_same s t \<Longrightarrow> held_same t u \<Longrightarrow> held_same s u"
  unfolding held_same_def using zscore_None_iff by metis

lemma held_same_cong: "held_same s t \<Longrightarrow> q_jobs t' = q_jobs t \<Longrightarrow> q_zs t' Active = q_zs t Active \<Longrightarrow> held_same s t'"
  by (simp add: held_same_def)

section \<open>Reclaim and promote\<close>

lemma or_empty_group: "sound (q_jobs s i) \<Longrightarrow> or_empty (hget (q_jobs s i) FGroup) = group_of s i"
  using sound_group [of s i] by (simp add: or_empty_def h_get_def)

lemma group_of_h_set [simp]:
  assumes "FGroup \<notin> fst ` set fvs"
  shows "group_of (h_set i fvs s) j = group_of s j"
proof -
  have "map_of (rev fvs) FGroup = None" using assms by (simp add: map_of_eq_None_iff)
  then show ?thesis by (simp add: group_of_def h_get_def hget_hsets)
qed

lemma group_of_h_del [simp]: "FGroup \<notin> set fs \<Longrightarrow> group_of (h_del i fs s) j = group_of s j"
  by (simp add: group_of_def h_get_def hget_hdels)

lemma group_of_frame [simp]:
  "group_of (z_add p sc i s) j = group_of s j" "group_of (z_rem p i s) j = group_of s j"
  "group_of (snd (leave_active c i g s)) j = group_of s j"
  by (simp_all add: group_of_def h_get_def)

lemma h_get_frame [simp]:
  "h_get (z_add p sc i s) j f = h_get s j f" "h_get (z_rem p i s) j f = h_get s j f"
  "h_get (snd (leave_active c i g s)) j f = h_get s j f"
  by (simp_all add: h_get_def)

text \<open>A job taken out of flight as waiting: a fresh score from its priority, and \<open>ready_add\<close>.\<close>

lemma back_to_ready:
  assumes q: "qinv c {i} {} t" and st: "h_get t i FState = Some (place_text Ready)"
    and ok: "job_ok Ready (q_jobs t i)" and g: "g = group_of t i"
  shows "qinv c {} {} (snd (ready_add c i (fst (ready_score p t)) g (snd (ready_score p t))))"
proof -
  have "qinv c ({i} - {i}) {} (snd (ready_add c i (fst (ready_score p t)) g (snd (ready_score p t))))"
    by (rule qinv_put_ready) (use assms in simp_all)
  then show ?thesis by simp
qed

lemma reclaim_one_inv:
  assumes q: "qinv c {} {} s" and i: "i \<in> zids (q_zs s Active)"
  obtains s' where "reclaim_one c now i (stalled, invalid, s) = (stalled @ [i], invalid, s')"
    and "qinv c {} {} s'" and "zids (q_zs s' Active) = zids (q_zs s Active) - {i}"
    and "\<And>k. k \<noteq> i \<Longrightarrow> q_jobs s' k = q_jobs s k \<and> zscore (q_zs s' Active) k = zscore (q_zs s Active) k"
proof -
  note j = places_job [OF qinv_places [OF q] i]
  define f where "f = q_jobs s i"
  define g where "g = group_of s i"
  have snd: "sound f" using j(3) by (simp add: job_ok_def f_def)
  have ge: "or_empty (hget f FGroup) = g" using snd or_empty_group by (simp add: f_def g_def)
  define t where "t = h_del i [FToken] (snd (leave_active c i g s))"
  have "qinv c {i} {} (snd (leave_active c i g s))" using qinv_take_active [OF q i g_def] by simp
  then have qt: "qinv c {i} {} t" by (simp add: t_def)
  have jt: "q_jobs t i = hdel FToken f" by (simp add: t_def f_def)
  have zt: "zids (q_zs t Active) = zids (q_zs s Active) - {i}" by (simp add: t_def leave_active_zs)
  have kt: "q_jobs t k = q_jobs s k \<and> zscore (q_zs t Active) k = zscore (q_zs s Active) k" if "k \<noteq> i" for k
    using that by (simp add: t_def leave_active_zs)
  have gt: "group_of t i = g" by (simp add: t_def g_def)
  have att: "attempt_of f \<le> attempts_of f" and dat: "job_ok Active f" using j(3) by (simp_all add: job_ok_def f_def)
  show thesis
  proof (cases "attempt_of f < attempts_of f")
    case True
    define u where "u = h_set i [(FState, ''waiting'')] t"
    have ok: "job_ok Ready (q_jobs u i)"
      using True snd by (simp add: u_def jt job_ok_def sound_def attempt_of_def attempts_of_def)
    have "qinv c {} {} (snd (ready_add c i (fst (ready_score p u)) g (snd (ready_score p u))))" for p
      by (rule back_to_ready) (use qt ok in \<open>simp_all add: u_def h_get_def gt\<close>)
    moreover have "reclaim_one c now i (stalled, invalid, s) = (stalled @ [i], invalid,
        snd (ready_add c i (fst (ready_score (num_opt (hget f FPriority)) u)) g (snd (ready_score (num_opt (hget f FPriority)) u))))"
      using snd True by (simp add: reclaim_one_def Let_def f_def [symmetric] ge split_beta) (simp add: u_def t_def)
    ultimately show ?thesis using that zt kt by (simp add: ready_add_zs u_def)
  next
    case False
    define u where "u = h_set i [(FState, ''failed''), (FError, LAPSED_ERROR), (FFinished, show_int now)] t"
    have ok: "job_ok Failed (q_jobs u i)"
      using snd att by (simp add: u_def jt job_ok_def sound_def attempt_of_def attempts_of_def)
    have "qinv c ({i} - {i}) {} (z_add Failed now i u)"
      by (rule qinv_put) (use qt ok in \<open>simp_all add: u_def h_get_def\<close>)
    moreover have "reclaim_one c now i (stalled, invalid, s) =
        (stalled @ [i], invalid, publish ''failed'' i ''error'' LAPSED_ERROR (z_add Failed now i u))"
      using snd False by (simp add: reclaim_one_def Let_def f_def [symmetric] ge) (simp add: u_def t_def)
    ultimately show ?thesis using that [of "publish ''failed'' i ''error'' LAPSED_ERROR (z_add Failed now i u)"] zt kt
      by (simp add: u_def)
  qed
qed

lemma distinct_zupto: "zwf z \<Longrightarrow> distinct (map snd (zupto b n z))"
  by (simp add: zwf_def zupto_def take_map [symmetric] distinct_map_filter)

lemma distinct_zbelow: "zwf z \<Longrightarrow> distinct (map snd (zbelow b n z))"
  by (simp add: zwf_def zbelow_def take_map [symmetric] distinct_map_filter)

lemma zids_zupto: "set (map snd (zupto b n z)) \<subseteq> zids z"
  using zupto_set [of b n z] by (auto simp: zids_def)

lemma zids_zbelow: "set (map snd (zbelow b n z)) \<subseteq> zids z"
  using zbelow_set [of b n z] by (auto simp: zids_def)

lemma reclaim_inv:
  assumes q: "qinv c {} {} s" and r: "reclaim c now [] s = (stalled, invalid, s')"
  shows "qinv c {} {} s'" and "invalid = []"
    and "zscore (q_zs s Active) k = Some d \<Longrightarrow> now \<le> d \<Longrightarrow> q_jobs s' k = q_jobs s k \<and> zscore (q_zs s' Active) k = Some d"
proof -
  let ?L = "set (map snd (zbelow now 100 (q_zs s Active)))"
  let ?K = "\<lambda>u. \<forall>k. k \<notin> ?L \<longrightarrow> q_jobs u k = q_jobs s k \<and> zscore (q_zs u Active) k = zscore (q_zs s Active) k"
  let ?I = "\<lambda>acc :: string list \<times> string list \<times> qstate. case acc of (stalled, invalid, u) \<Rightarrow> invalid = [] \<and> qinv c {} {} u \<and> ?K u"
  have wf: "zwf (q_zs s Active)" using qinv_places [OF q] by (simp add: places_def)
  have "?I (foldl (\<lambda>acc i. reclaim_one c now i acc) ([], [], s) (map snd (zbelow now 100 (q_zs s Active))))"
  proof (rule foldl_taking [where S = "\<lambda>acc. zids (q_zs (snd (snd acc)) Active) \<inter> ?L"])
    show "distinct (map snd (zbelow now 100 (q_zs s Active)))" by (rule distinct_zbelow [OF wf])
    show "?L \<subseteq> zids (q_zs (snd (snd ([], [], s))) Active) \<inter> ?L" using zids_zbelow by simp
    show "?I ([], [], s)" using q by simp
  next
    fix acc i assume a: "?I acc" and i: "i \<in> zids (q_zs (snd (snd acc)) Active) \<inter> ?L"
    obtain st u where acc: "acc = (st, [], u)" "qinv c {} {} u" "?K u" using a by (cases acc) auto
    from i acc(1) have i': "i \<in> zids (q_zs u Active)" "i \<in> ?L" by simp_all
    obtain u' where u': "reclaim_one c now i (st, [], u) = (st @ [i], [], u')" "qinv c {} {} u'"
        "zids (q_zs u' Active) = zids (q_zs u Active) - {i}"
        "\<And>k. k \<noteq> i \<Longrightarrow> q_jobs u' k = q_jobs u k \<and> zscore (q_zs u' Active) k = zscore (q_zs u Active) k"
      by (rule reclaim_one_inv [OF acc(2) i'(1), of now st "[]"]) (rule that)
    have "?K u'"
    proof (intro allI impI)
      fix k assume k: "k \<notin> ?L"
      then have "k \<noteq> i" using i'(2) by auto
      with u'(4) acc(3) k show "q_jobs u' k = q_jobs s k \<and> zscore (q_zs u' Active) k = zscore (q_zs s Active) k" by simp
    qed
    then show "?I (reclaim_one c now i acc) \<and>
        zids (q_zs (snd (snd acc)) Active) \<inter> ?L - {i} \<subseteq> zids (q_zs (snd (snd (reclaim_one c now i acc))) Active) \<inter> ?L"
      using u' by (auto simp: acc(1))
  qed
  then have all: "qinv c {} {} s'" "invalid = []" "?K s'"
    using r by (simp_all add: reclaim_def foldl_map)
  then show "qinv c {} {} s'" "invalid = []" by simp_all
  assume k: "zscore (q_zs s Active) k = Some d" "now \<le> d"
  have "k \<notin> ?L"
  proof
    assume "k \<in> ?L"
    then obtain sc where "(sc, k) \<in> set (zbelow now 100 (q_zs s Active))" by auto
    then have "(sc, k) \<in> set (q_zs s Active)" "sc < now" using zbelow_set [of now 100 "q_zs s Active"] by auto
    then show False using zscore_of_in [OF wf] k by fastforce
  qed
  then show "q_jobs s' k = q_jobs s k \<and> zscore (q_zs s' Active) k = Some d" using all(3) k by simp
qed

lemma promote_one_inv:
  assumes q: "qinv c {} {} s" and i: "i \<in> zids (q_zs s Delayed)"
  obtains s' where "promote_one c now i (invalid, s) = (invalid, s')"
    and "qinv c {} {} s'" and "zids (q_zs s' Delayed) = zids (q_zs s Delayed) - {i}" and "held_same s s'"
proof -
  note j = places_job [OF qinv_places [OF q] i]
  define f where "f = q_jobs s i"
  have snd: "sound f" using j(3) by (simp add: job_ok_def f_def)
  have ge: "or_empty (hget f FGroup) = group_of s i" using snd or_empty_group by (simp add: f_def)
  define u where "u = h_set i [(FState, ''waiting'')] (z_rem Delayed i s)"
  have qu: "qinv c {i} {} u" using qinv_take [OF q i] by (simp add: u_def)
  have ok: "job_ok Ready (q_jobs u i)"
    using j(3) by (simp add: u_def job_ok_def sound_def attempt_of_def attempts_of_def)
  have "qinv c {} {} (snd (ready_add c i (fst (ready_score p u)) (group_of s i) (snd (ready_score p u))))" for p
    by (rule back_to_ready) (use qu ok in \<open>simp_all add: u_def h_get_def\<close>)
  moreover have "i \<notin> zids (q_zs s Active)"
    using places_in [OF qinv_places [OF q], of i Active] j(2) by simp
  then have "held_same s (snd (ready_add c i (fst (ready_score p u)) (group_of s i) (snd (ready_score p u))))" for p
    by (auto simp: held_same_def u_def ready_add_zs)
  ultimately show thesis
    using that snd by (simp add: promote_one_def Let_def f_def [symmetric] ge u_def [symmetric] split_beta ready_add_zs)
      (simp add: u_def)
qed

lemma promote_inv:
  assumes q: "qinv c {} {} s" and r: "promote c now [] s = (invalid, s')"
  shows "qinv c {} {} s'" and "invalid = []" and "held_same s s'"
proof -
  let ?I = "\<lambda>acc :: string list \<times> qstate. case acc of (invalid, u) \<Rightarrow> invalid = [] \<and> qinv c {} {} u \<and> held_same s u"
  have "?I (foldl (\<lambda>acc i. promote_one c now i acc) ([], s) (map snd (zupto now 1000 (q_zs s Delayed))))"
  proof (rule foldl_taking [where S = "\<lambda>acc. zids (q_zs (snd acc) Delayed)"])
    show "distinct (map snd (zupto now 1000 (q_zs s Delayed)))"
      using qinv_places [OF q] by (simp add: distinct_zupto places_def)
    show "set (map snd (zupto now 1000 (q_zs s Delayed))) \<subseteq> zids (q_zs (snd ([], s)) Delayed)"
      using zids_zupto by simp
    show "?I ([], s)" using q by simp
  next
    fix acc i assume a: "?I acc" and i: "i \<in> zids (q_zs (snd acc) Delayed)"
    obtain u where acc: "acc = ([], u)" "qinv c {} {} u" "held_same s u" using a by (cases acc) auto
    from i acc(1) have i': "i \<in> zids (q_zs u Delayed)" by simp
    show "?I (promote_one c now i acc) \<and>
        zids (q_zs (snd acc) Delayed) - {i} \<subseteq> zids (q_zs (snd (promote_one c now i acc)) Delayed)"
      by (rule promote_one_inv [OF acc(2) i', of now "[]"]) (use held_same_trans [OF acc(3)] in \<open>simp add: acc(1)\<close>)
  qed
  then show "qinv c {} {} s'" "invalid = []" "held_same s s'"
    using r by (simp_all add: promote_def foldl_map)
qed

section \<open>Starting a job\<close>

text \<open>A job handed out is held: its hash has the token handed out with it, the set has its lease.\<close>

definition holds :: "int \<Rightarrow> int \<Rightarrow> claimed \<Rightarrow> qstate \<Rightarrow> bool" where
  "holds now lease r s = (h_get s (j_id r) FToken = Some (j_token r)
     \<and> h_get s (j_id r) FState = Some ''active'' \<and> zscore (q_zs s Active) (j_id r) = Some (now + lease)
     \<and> h_get s (j_id r) FData = Some (j_data r) \<and> attempt_of (q_jobs s (j_id r)) = j_attempt r
     \<and> 1 \<le> j_attempt r \<and> j_attempt r \<le> j_attempts r)"

definition handed :: "int \<Rightarrow> int \<Rightarrow> string list \<Rightarrow> claimed list \<Rightarrow> qstate \<Rightarrow> bool" where
  "handed now lease tokens jobs s = (distinct (map j_id jobs) \<and> (\<forall>r \<in> set jobs. holds now lease r s)
     \<and> map j_token jobs = take (length jobs) tokens)"

lemma holds_active: "holds now lease r s \<Longrightarrow> j_id r \<in> zids (q_zs s Active)"
  using zscore_None_iff [of "q_zs s Active" "j_id r"] by (auto simp: holds_def)

lemma handed_frame:
  assumes "handed now lease tokens jobs s" and "q_jobs s' = q_jobs s" and "q_zs s' Active = q_zs s Active"
  shows "handed now lease tokens jobs s'"
  using assms by (simp add: handed_def holds_def h_get_def)

lemma begin_job_inv:
  assumes q: "qinv c X Y s" and i: "i \<in> X" and st: "h_get s i FState = Some (place_text Ready)"
    and ok: "job_ok Ready (q_jobs s i)" and g: "c_grouped c \<Longrightarrow> g = group_of s i"
    and slot: "c_grouped c \<Longrightarrow> has_slot c s g"
    and hd: "handed now lease tokens jobs s" and len: "length jobs < length tokens"
  obtains r s' where "begin_job c now lease tokens i g (jobs, invalid, s) = (jobs @ [r], invalid, s')"
    and "qinv c (X - {i}) Y s'" and "handed now lease tokens (jobs @ [r]) s'"
    and "\<And>j. j \<noteq> i \<Longrightarrow> q_jobs s' j = q_jobs s j" and "q_gready s' = q_gready s" and "held_same s s'"
proof -
  define f where "f = q_jobs s i"
  have snd: "sound f" using ok by (simp add: job_ok_def f_def)
  define token where "token = tokens ! length jobs"
  define u where "u = h_set i [(FState, ''active''), (FToken, token), (FAttempt, show_nat (attempt_of f + 1))] s"
  define s' where "s' = slot_taken c g (z_add Active (now + lease) i u)"
  define r where "r = \<lparr>j_id = i, j_data = or_empty (hget f FData), j_attempt = attempt_of f + 1,
                    j_attempts = attempts_of f, j_token = token,
                    j_timeout = (case hget f FTimeout of None \<Rightarrow> -1 | Some t \<Rightarrow> int (parse_nat t))\<rparr>"
  have hu: "has_slot c u g = has_slot c s g" by (rule has_slot_frame) (simp add: u_def)
  have oku: "job_ok Active (q_jobs u i)"
    using ok by (simp add: u_def f_def job_ok_def sound_def attempt_of_def attempts_of_def)
  have gu: "group_of u i = group_of s i" by (simp add: u_def)
  have e: "begin_job c now lease tokens i g (jobs, invalid, s) = (jobs @ [r], invalid, s')"
    using snd by (simp add: begin_job_def Let_def f_def [symmetric]) (simp add: r_def s'_def u_def token_def)
  have q': "qinv c (X - {i}) Y s'" unfolding s'_def
    by (rule qinv_put_active) (use q i oku g slot hu gu in \<open>simp_all add: u_def h_get_def\<close>)
  have fr: "q_jobs s' j = q_jobs s j" if "j \<noteq> i" for j using that by (simp add: s'_def u_def)
  have out: "i \<notin> zids (q_zs s Active)" using places_flight_out [OF qinv_places [OF q] i] .
  have old: "holds now lease x s'" if "x \<in> set jobs" for x
  proof -
    have "holds now lease x s" using that hd by (simp add: handed_def)
    moreover from this out have "j_id x \<noteq> i" using holds_active by blast
    ultimately show ?thesis by (simp add: holds_def h_get_def s'_def u_def)
  qed
  have new: "holds now lease r s'"
    using ok snd
    by (auto simp: holds_def r_def s'_def u_def h_get_def attempt_of_def attempts_of_def job_ok_def f_def or_empty_def sound_def
        split: option.splits)
  have "i \<notin> j_id ` set jobs" using hd holds_active out by (force simp: handed_def)
  then have "handed now lease tokens (jobs @ [r]) s'"
    using hd old new len by (auto simp: handed_def r_def token_def take_Suc_conv_app_nth)
  moreover have "held_same s s'" using out by (auto simp: held_same_def s'_def u_def)
  ultimately show thesis using that [OF e q' _ fr] by (simp add: s'_def u_def)
qed

lemma begin_fold:
  assumes "distinct xs" and "qinv c (set xs) {} s" and "\<not> c_grouped c"
    and "\<And>i. i \<in> set xs \<Longrightarrow> h_get s i FState = Some (place_text Ready) \<and> job_ok Ready (q_jobs s i)"
    and "handed now lease tokens jobs s" and "length jobs + length xs \<le> length tokens"
    and "foldl (\<lambda>acc i. begin_job c now lease tokens i g acc) (jobs, invalid, s) xs = (jobs', invalid', s')"
  shows "qinv c {} {} s' \<and> handed now lease tokens jobs' s' \<and> invalid' = invalid \<and> length jobs' = length jobs + length xs
    \<and> held_same s s'"
  using assms
proof (induction xs arbitrary: jobs s)
  case (Cons i xs)
  obtain r s1 where b: "begin_job c now lease tokens i g (jobs, invalid, s) = (jobs @ [r], invalid, s1)"
      "qinv c (set (i # xs) - {i}) {} s1" "handed now lease tokens (jobs @ [r]) s1"
      and fr: "\<And>j. j \<noteq> i \<Longrightarrow> q_jobs s1 j = q_jobs s j" and hs: "held_same s s1"
    by (rule begin_job_inv [of c "set (i # xs)" "{}" s i g now lease tokens jobs invalid])
      (use Cons.prems in auto)
  have "set (i # xs) - {i} = set xs" using Cons.prems(1) by auto
  moreover have "h_get s1 j FState = Some (place_text Ready) \<and> job_ok Ready (q_jobs s1 j)" if "j \<in> set xs" for j
    using that Cons.prems(1,4) fr [of j] by (fastforce simp: h_get_def)
  ultimately show ?case
    using Cons.IH [of s1 "jobs @ [r]"] Cons.prems b held_same_trans [OF hs] by simp
qed auto

section \<open>The pops\<close>

lemma pop_ready_flight:
  assumes q: "qinv c {} {} s" and "\<not> c_grouped c"
    and t: "t = s\<lparr>q_zs := (q_zs s)(Ready := drop k (q_zs s Ready))\<rparr>"
  shows "qinv c (set (map snd (take k (q_zs s Ready)))) {} t"
proof -
  note p = qinv_places [OF q]
  let ?X = "set (map snd (take k (q_zs s Ready)))"
  have wf: "zwf (q_zs s Ready)" using p by (simp add: places_def)
  have "set (map snd (q_zs s Ready)) = ?X \<union> zids (drop k (q_zs s Ready))"
    using set_append [of "take k (q_zs s Ready)" "drop k (q_zs s Ready)"] by (auto simp: zids_def)
  moreover have "?X \<inter> zids (drop k (q_zs s Ready)) = {}"
    using wf set_take_disj_set_drop_if_distinct [of "map snd (q_zs s Ready)" k k]
    by (simp add: zwf_def zids_def take_map drop_map)
  ultimately have z: "zids (drop k (q_zs s Ready)) = zids (q_zs s Ready) - ?X" "?X \<subseteq> zids (q_zs s Ready)"
    by (auto simp: zids_def)
  have wf': "zwf (drop k (q_zs s Ready))"
    using wf by (simp add: zwf_def drop_map [symmetric] sorted_wrt_drop)
  have h: "h_get t = h_get s" "q_jobs t = q_jobs s" by (simp_all add: t h_get_def fun_eq_iff)
  have "places ?X t"
  proof (rule placesI)
    show "j \<in> zids (q_zs t q) \<longleftrightarrow> j \<notin> ?X \<and> h_get t j FState = Some (place_text q)" for q j
      using places_in [OF p, of j q] places_in [OF p, of j Ready] z by (cases "q = Ready") (auto simp: t h_get_def)
    show "\<exists>q. h_get t j FState = Some (place_text q) \<and> job_ok q (q_jobs t j)" if "j \<notin> ?X" "q_jobs t j \<noteq> []" for j
      using that p by (simp add: h places_def)
    show "zwf (q_zs t q)" for q using p wf' by (simp add: t places_def)
  qed
  then show ?thesis using q assms(2) by (simp add: qinv_def groups_ok_def ungrouped_def t)
qed

lemma pop_ready_inv:
  assumes q: "qinv c {} {} s" and g: "\<not> c_grouped c" and n: "admit \<le> length tokens"
    and r: "pop_ready admit c now lease tokens ([], [], s) = (jobs, invalid, s')"
  shows "qinv c {} {} s'" and "handed now lease tokens jobs s'" and "invalid = []" and "length jobs \<le> admit"
    and "held_same s s'"
proof -
  let ?z = "q_zs s Ready"
  let ?t = "s\<lparr>q_zs := (q_zs s)(Ready := drop admit ?z)\<rparr>"
  let ?xs = "map snd (take admit ?z)"
  have p: "places {} s" using q by (simp add: qinv_def)
  have d: "distinct ?xs" using p by (simp add: places_def zwf_def take_map [symmetric])
  have f: "foldl (\<lambda>acc i. begin_job c now lease tokens i '''' acc) ([], [], ?t) ?xs = (jobs, invalid, s')"
    using r by (simp add: pop_ready_def zpopmin_def foldl_map)
  have j: "h_get ?t i FState = Some (place_text Ready) \<and> job_ok Ready (q_jobs ?t i)" if "i \<in> set ?xs" for i
  proof -
    have "i \<in> zids ?z" using that in_set_takeD [of _ admit ?z] by (auto simp: zids_def)
    then show ?thesis using places_job [OF p, of i Ready] by (simp add: h_get_def)
  qed
  have b: "qinv c {} {} s' \<and> handed now lease tokens jobs s' \<and> invalid = [] \<and> length jobs = 0 + length ?xs \<and> held_same ?t s'"
    using begin_fold [of ?xs c ?t now lease tokens "[]" "''''" "[]" jobs invalid s'] d
      pop_ready_flight [OF q g, of ?t admit] g j n f by (simp add: handed_def)
  then show "qinv c {} {} s'" "handed now lease tokens jobs s'" "invalid = []" "length jobs \<le> admit" by simp_all
  show "held_same s s'" using b by (simp add: held_same_def)
qed

lemma pop_groups_inv:
  assumes "qinv c {} {} s" and "c_grouped c" and "handed now lease tokens jobs s"
    and "length jobs + (n - got) \<le> length tokens"
    and "pop_groups takes n c now lease tokens got (jobs, invalid, s) = (jobs', invalid', s')"
  shows "qinv c {} {} s' \<and> handed now lease tokens jobs' s' \<and> invalid' = invalid \<and> length jobs' \<le> length jobs + (n - got)
    \<and> held_same s s'"
  using assms
proof (induction takes arbitrary: got jobs s)
  case 0
  then show ?case by auto
next
  case (Suc k)
  note q = Suc.prems(1) and gr = Suc.prems(2) and hd = Suc.prems(3) and len = Suc.prems(4) and run = Suc.prems(5)
  show ?case
  proof (cases "got \<ge> n")
    case True
    then show ?thesis using q hd run by auto
  next
    case False
    show ?thesis
    proof (cases "rr_take s")
      case (Pair go s1)
      show ?thesis
      proof (cases go)
        case None
        then have "s1 = s" using Pair by (simp add: rr_take_def split: list.splits)
        then show ?thesis using q hd run False None Pair by auto
      next
        case (Some g)
        note t = qinv_rr_take [OF q Pair [unfolded Some] gr]
        have hs1: "held_same s s1" by (simp add: held_same_def t)
        have hd1: "handed now lease tokens jobs s1" by (rule handed_frame [OF hd]) (simp_all add: t)
        show ?thesis
        proof (cases "has_slot c s1 g \<and> q_gready s1 g \<noteq> []")
          case False2: False
          then have "qinv c {} {} s1" using qinv_rr_served [OF t(1) gr] by auto
          moreover have "pop_groups k n c now lease tokens got (jobs, invalid, s1) = (jobs', invalid', s')"
            using run False False2 Pair Some by (auto simp: zpopmin_def split: if_splits)
          ultimately show ?thesis using Suc.IH [OF _ gr hd1 len] held_same_trans [OF hs1] by simp
        next
          case True
          then obtain sc i rest where z: "q_gready s1 g = (sc, i) # rest" by (cases "q_gready s1 g") auto
          have m: "mirror_ok s1" using t(1) gr by (simp add: qinv_def groups_ok_def)
          then have "zwf (q_gready s1 g)" by (simp add: mirror_ok_def)
          then have rest: "rest = zrem i (q_gready s1 g)" using zpop_head z by blast
          have "i \<in> zids (q_gready s1 g)" using z by (simp add: zids_def)
          then have i: "i \<in> zids (q_zs s1 Ready)" and gi: "group_of s1 i = g" using mirror_empty_out [OF m] by blast+
          define s2 where "s2 = z_rem Ready i (s1\<lparr>q_gready := (q_gready s1)(g := rest)\<rparr>)"
          have s2: "s2 = ready_rem c i g s1"
            using gr by (simp add: s2_def rest ready_rem_def gready_rem_def z_rem_def Let_def)
          have q2: "qinv c {i} {g} s2" using qinv_take_ready [OF t(1) i] gi by (simp add: s2)
          have j: "h_get s2 i FState = Some (place_text Ready)" "job_ok Ready (q_jobs s2 i)"
            using places_job [OF qinv_places [OF t(1)] i] by (simp_all add: s2 h_get_def)
          have g2: "g = group_of s2 i" using gi by (simp add: group_of_def h_get_def s2)
          have slot2: "has_slot c s2 g" using True has_slot_frame [of s2 s1 c g] by (simp add: s2_def)
          have hd2: "handed now lease tokens jobs s2" by (rule handed_frame [OF hd1]) (simp_all add: s2)
          have lt: "length jobs < length tokens" using len False by simp
          obtain r s3 where b: "begin_job c now lease tokens i g (jobs, invalid, s2) = (jobs @ [r], invalid, s3)"
              "qinv c ({i} - {i}) {g} s3" "handed now lease tokens (jobs @ [r]) s3" and hs3: "held_same s2 s3"
            by (rule begin_job_inv [OF q2 singletonI j g2 slot2 hd2 lt, of invalid])
          define s4 where "s4 = (if has_slot c s3 g \<and> q_gready s3 g \<noteq> [] then rr_push g s3 else s3)"
          have q4: "qinv c {} {} s4"
            using b(2) qinv_rr_push [of c "{}" g "{}" s3] qinv_rr_served [of c "{}" g "{}" s3] gr by (auto simp: s4_def)
          have hd4: "handed now lease tokens (jobs @ [r]) s4" by (rule handed_frame [OF b(3)]) (simp_all add: s4_def)
          have "pop_groups k n c now lease tokens (got + 1) (jobs @ [r], invalid, s4) = (jobs', invalid', s')"
            using run False True Pair Some z b(1) by (simp add: zpopmin_def s2_def s4_def Let_def)
          moreover have "length (jobs @ [r]) + (n - (got + 1)) \<le> length tokens" using len False by simp
          moreover have "held_same s s2" using hs1 by (rule held_same_cong) (simp_all add: s2)
          then have "held_same s s4" by (rule held_same_trans) (use hs3 in \<open>simp add: held_same_def s4_def\<close>)
          ultimately show ?thesis using Suc.IH [OF q4 gr hd4] held_same_trans False by force
        qed
      qed
    qed
  qed
qed

section \<open>The whole claim\<close>

lemma admitted_le: "admitted n pz us rt s \<le> n"
  by (simp add: admitted_def Let_def split: option.splits)

lemma pop_jobs_inv:
  assumes "qinv c {} {} s" and "admit \<le> length tokens"
    and "pop_jobs admit c now lease tokens [] s = (jobs, invalid, s')"
  shows "qinv c {} {} s' \<and> handed now lease tokens jobs s' \<and> invalid = [] \<and> length jobs \<le> admit \<and> held_same s s'"
proof (cases "admit > 0")
  case True
  show ?thesis
  proof (cases "c_grouped c")
    case gr: True
    have "pop_groups (2 * admit + 10) admit c now lease tokens 0 ([], [], s) = (jobs, invalid, s')"
      using assms(3) True gr by (simp add: pop_jobs_def)
    from pop_groups_inv [OF assms(1) gr _ _ this] show ?thesis using assms(2) by (simp add: handed_def)
  next
    case gr: False
    have "pop_ready admit c now lease tokens ([], [], s) = (jobs, invalid, s')"
      using assms(3) True gr by (simp add: pop_jobs_def)
    from pop_ready_inv [OF assms(1) gr assms(2) this] show ?thesis by simp
  qed
next
  case False
  then show ?thesis using assms by (auto simp: pop_jobs_def handed_def)
qed

lemma charge_frame [simp]:
  "q_zs (charge us rt k s) = q_zs s" "q_jobs (charge us rt k s) = q_jobs s"
  "qinv c X Y (charge us rt k s) = qinv c X Y s" "q_wake (charge us rt k s) = q_wake s"
  "q_glist (charge us rt k s) = q_glist s"
  by (simp_all add: charge_def split: option.splits)

lemma leave_token_frame [simp]:
  "q_zs (leave_token c pz retry s) = q_zs s" "q_jobs (leave_token c pz retry s) = q_jobs s"
  "qinv c' X Y (leave_token c pz retry s) = qinv c' X Y s"
  by (simp_all add: leave_token_def)

text \<open>The claim as its six parts in a row.\<close>

lemma claim_parts:
  assumes "claim c us n lease tokens rt s = (rep, s')"
  obtains inv1 s1 inv2 s2 s3 where
    "reclaim c (us div 1000) [] s = (cr_stalled rep, inv1, s1)"
    and "promote c (us div 1000) inv1 s1 = (inv2, s2)"
    and "pop_jobs (admitted n (q_paused s2) us rt s2) c (us div 1000) lease tokens inv2 s2 = (cr_jobs rep, cr_invalid rep, s3)"
    and "s' = leave_token c (q_paused s2) (retry_wait c us rt (q_paused s2) (charge us rt (length (cr_jobs rep)) s3))
           (charge us rt (length (cr_jobs rep)) s3)"
    and "cr_due rep = due_schedules (us div 1000) s"
proof -
  obtain st inv1 s1 where r1: "reclaim c (us div 1000) [] s = (st, inv1, s1)" by (metis prod_cases3)
  obtain inv2 s2 where r2: "promote c (us div 1000) inv1 s1 = (inv2, s2)" by (metis prod.exhaust)
  obtain jobs inv3 s3 where r3: "pop_jobs (admitted n (q_paused s2) us rt s2) c (us div 1000) lease tokens inv2 s2 = (jobs, inv3, s3)"
    by (metis prod_cases3)
  have "s' = leave_token c (q_paused s2) (retry_wait c us rt (q_paused s2) (charge us rt (length jobs) s3)) (charge us rt (length jobs) s3)"
    and "cr_jobs rep = jobs" "cr_invalid rep = inv3" "cr_stalled rep = st" "cr_due rep = due_schedules (us div 1000) s"
    using assms by (auto simp: claim_def r1 r2 r3 Let_def)
  with that r1 r2 r3 show thesis by simp
qed

lemma claim_inv:
  assumes q: "qinv c {} {} s" and n: "n \<le> length tokens"
    and r: "claim c us n lease tokens rt s = (rep, s')"
  shows "qinv c {} {} s'" and "handed (us div 1000) lease tokens (cr_jobs rep) s'" and "cr_invalid rep = []"
    and "length (cr_jobs rep) \<le> n"
    and "zscore (q_zs s Active) k = Some d \<Longrightarrow> us div 1000 \<le> d \<Longrightarrow> q_jobs s' k = q_jobs s k \<and> zscore (q_zs s' Active) k = Some d"
proof -
  from r obtain inv1 s1 inv2 s2 s3 where p:
    "reclaim c (us div 1000) [] s = (cr_stalled rep, inv1, s1)"
    "promote c (us div 1000) inv1 s1 = (inv2, s2)"
    "pop_jobs (admitted n (q_paused s2) us rt s2) c (us div 1000) lease tokens inv2 s2 = (cr_jobs rep, cr_invalid rep, s3)"
    "s' = leave_token c (q_paused s2) (retry_wait c us rt (q_paused s2) (charge us rt (length (cr_jobs rep)) s3))
           (charge us rt (length (cr_jobs rep)) s3)"
    by (rule claim_parts)
  note i1 = reclaim_inv [OF q p(1)]
  note i2 = promote_inv [OF i1(1) p(2) [unfolded i1(2)]]
  have ad: "admitted n (q_paused s2) us rt s2 \<le> n" by (rule admitted_le)
  with n have "admitted n (q_paused s2) us rt s2 \<le> length tokens" by simp
  from pop_jobs_inv [OF i2(1) this p(3) [unfolded i2(2)]] have i3: "qinv c {} {} s3"
    "handed (us div 1000) lease tokens (cr_jobs rep) s3" "cr_invalid rep = []"
    "length (cr_jobs rep) \<le> admitted n (q_paused s2) us rt s2" "held_same s2 s3" by simp_all
  show "qinv c {} {} s'" using i3(1) by (simp add: p(4))
  show "handed (us div 1000) lease tokens (cr_jobs rep) s'" by (rule handed_frame [OF i3(2)]) (simp_all add: p(4))
  show "cr_invalid rep = []" "length (cr_jobs rep) \<le> n" using i3 ad by simp_all
  assume k: "zscore (q_zs s Active) k = Some d" "us div 1000 \<le> d"
  note k1 = i1(3) [OF k]
  then have "k \<in> zids (q_zs s1 Active)" using zscore_None_iff [of "q_zs s1 Active" k] by simp
  then have "q_jobs s3 k = q_jobs s1 k" "zscore (q_zs s3 Active) k = zscore (q_zs s1 Active) k"
    using held_same_trans [OF i2(3) i3(5)] by (auto simp: held_same_def)
  then show "q_jobs s' k = q_jobs s k \<and> zscore (q_zs s' Active) k = Some d" using k1 by (simp add: p(4))
qed

section \<open>The keys a claim leaves alone\<close>

lemma outer_refuse [frame_simps]: "outer (snd (refuse c now i (bad, s))) = outer s"
  by (simp add: refuse_def Let_def frame_simps)

lemma outer_reclaim_one [frame_simps]: "outer (snd (snd (reclaim_one c now i acc))) = outer (snd (snd acc))"
  by (cases acc) (simp add: reclaim_one_def Let_def split_beta frame_simps)

lemma outer_reclaim [frame_simps]: "outer (snd (snd (reclaim c now bad s))) = outer s"
  unfolding reclaim_def
  by (rule foldl_invariant [where P = "\<lambda>acc. outer (snd (snd acc)) = outer s"]) (simp_all add: frame_simps)

lemma outer_promote_one [frame_simps]: "outer (snd (promote_one c now i acc)) = outer (snd acc)"
  by (cases acc) (simp add: promote_one_def Let_def split_beta frame_simps)

lemma outer_promote [frame_simps]: "outer (snd (promote c now bad s)) = outer s"
  unfolding promote_def
  by (rule foldl_invariant [where P = "\<lambda>acc. outer (snd acc) = outer s"]) (simp_all add: frame_simps)

lemma outer_begin_job [frame_simps]: "outer (snd (snd (begin_job c now lease tokens i g acc))) = outer (snd (snd acc))"
  by (cases acc) (simp add: begin_job_def Let_def split_beta frame_simps)

lemma outer_rr_take: "rr_take s = (x, s') \<Longrightarrow> outer s' = outer s"
  by (auto simp: rr_take_def outer_def split: list.splits)

lemma outer_raw [frame_simps]: "outer (s\<lparr>q_gready := r\<rparr>) = outer s" "outer (s\<lparr>q_zs := z\<rparr>) = outer s"
  by (simp_all add: outer_def)

lemma outer_pop_groups [frame_simps]:
  "outer (snd (snd (pop_groups takes n c now lease tokens got acc))) = outer (snd (snd acc))"
proof (induction takes arbitrary: got acc)
  case (Suc k)
  obtain jobs bad s where acc: "acc = (jobs, bad, s)" by (metis prod_cases3)
  obtain go s1 where t: "rr_take s = (go, s1)" by fastforce
  note o1 = outer_rr_take [OF t]
  show ?case
  proof (cases go)
    case (Some g)
    obtain popped rest where p: "(if has_slot c s1 g then zpopmin 1 (q_gready s1 g) else ([], q_gready s1 g)) = (popped, rest)"
      by (metis prod.exhaust)
    show ?thesis
    proof (cases popped)
      case (Cons x xs)
      obtain sc i where x: "x = (sc, i)" by fastforce
      obtain j3 i3 s3 where b: "begin_job c now lease tokens i g (jobs, bad, z_rem Ready i (s1\<lparr>q_gready := (q_gready s1)(g := rest)\<rparr>)) = (j3, i3, s3)"
        by (metis prod_cases3)
      have "outer s3 = outer s"
        using outer_begin_job [of c now lease tokens i g "(jobs, bad, z_rem Ready i (s1\<lparr>q_gready := (q_gready s1)(g := rest)\<rparr>))"] b o1
        by (simp add: frame_simps)
      then show ?thesis using Suc.IH by (simp add: acc t Some p Cons x b Let_def frame_simps)
    qed (use Suc.IH o1 in \<open>simp add: acc t Some p\<close>)
  qed (use o1 in \<open>simp add: acc t\<close>)
qed simp

lemma outer_pop_ready [frame_simps]: "outer (snd (snd (pop_ready admit c now lease tokens acc))) = outer (snd (snd acc))"
proof -
  obtain jobs bad s where acc: "acc = (jobs, bad, s)" by (metis prod_cases3)
  have "outer (snd (snd (foldl (\<lambda>acc p. begin_job c now lease tokens (snd p) '''' acc) a ps))) = outer (snd (snd a))" for a and ps :: zset
    by (rule foldl_invariant [where P = "\<lambda>acc. outer (snd (snd acc)) = outer (snd (snd a))"]) (simp_all add: frame_simps)
  then show ?thesis by (simp add: acc pop_ready_def zpopmin_def Let_def frame_simps)
qed

lemma outer_pop_jobs [frame_simps]: "outer (snd (snd (pop_jobs admit c now lease tokens bad s))) = outer s"
  by (simp add: pop_jobs_def frame_simps)

lemma claim_keys:
  assumes "claim c us n lease tokens rt s = (rep, s')"
  shows "q_scheds s' = q_scheds s" and "q_shash s' = q_shash s" and "q_sdef s' = q_sdef s"
    and "q_mode s' = q_mode s" and "q_paused s' = q_paused s" and "q_wake s \<le> 1 \<Longrightarrow> q_wake s' \<le> 1"
proof -
  from assms obtain inv1 s1 inv2 s2 s3 where p:
    "reclaim c (us div 1000) [] s = (cr_stalled rep, inv1, s1)"
    "promote c (us div 1000) inv1 s1 = (inv2, s2)"
    "pop_jobs (admitted n (q_paused s2) us rt s2) c (us div 1000) lease tokens inv2 s2 = (cr_jobs rep, cr_invalid rep, s3)"
    "s' = leave_token c (q_paused s2) (retry_wait c us rt (q_paused s2) (charge us rt (length (cr_jobs rep)) s3))
           (charge us rt (length (cr_jobs rep)) s3)"
    by (rule claim_parts)
  have o: "outer s1 = outer s" "outer s2 = outer s1" "outer s3 = outer s2"
    using outer_reclaim [of c "us div 1000" "[]" s] outer_promote [of c "us div 1000" inv1 s1]
      outer_pop_jobs [of "admitted n (q_paused s2) us rt s2" c "us div 1000" lease tokens inv2 s2]
    unfolding p(1-3) by simp_all
  then have "outer s3 = outer s" by simp
  note o = outerD [OF this]
  show "q_scheds s' = q_scheds s" "q_shash s' = q_shash s" "q_sdef s' = q_sdef s"
    "q_mode s' = q_mode s" "q_paused s' = q_paused s"
    using o by (simp_all add: p(4) leave_token_def wake_def charge_def split: option.splits)
  show "q_wake s' \<le> 1" if "q_wake s \<le> 1"
    using that o(6) by (simp add: p(4) leave_token_def wake_def)
qed

end
