(* ===== verification/Queue_Settle.thy ===== *)
theory Queue_Settle
  imports Queue_Claim_Inv
begin

text \<open>
  What a worker does with a job it holds: \<open>scripts/settle.ts\<close> (\<open>COMPLETE\<close> and \<open>FAIL\<close> with the
  retention \<open>TRIM_FN\<close>), \<open>release.ts\<close>, \<open>renew.ts\<close>, \<open>step.ts\<close> and \<open>progress.ts\<close>. Each is fenced by the
  token the claim handed out; with a stale token nothing of the job changes.
\<close>

section \<open>Retention\<close>

definition drop_ids :: "place \<Rightarrow> string list \<Rightarrow> qstate \<Rightarrow> qstate" where
  "drop_ids p ids s = foldl (\<lambda>s i. z_rem p i (del_key i s)) s ids"

definition trim :: "place \<Rightarrow> int \<Rightarrow> int \<Rightarrow> int \<Rightarrow> qstate \<Rightarrow> qstate" where
  "trim p now age count s = (let old = map snd (zbelow (now - age) 100 (q_zs s p));
       s = drop_ids p old s;
       left = 100 - length old;
       excess = int (length (q_zs s p)) - count
     in if count \<ge> 0 \<and> left > 0 \<and> excess > 0
        then drop_ids p (map snd (take (min (nat excess) left) (q_zs s p))) s else s)"

section \<open>Complete and fail\<close>

record settle_reply =
  sr_settled :: bool
  sr_final :: bool
  sr_claim :: claim_reply

definition no_claim :: claim_reply where
  "no_claim = \<lparr>cr_jobs = [], cr_stalled = [], cr_invalid = [], cr_next = -1, cr_due = []\<rparr>"

text \<open>The end both scripts share: claim one more job, or leave a token for the slot that was freed.\<close>

definition claim_or_wake :: "qcfg \<Rightarrow> int \<Rightarrow> int \<Rightarrow> string \<Rightarrow> rate option \<Rightarrow> bool \<Rightarrow> qstate \<Rightarrow> claim_reply \<times> qstate" where
  "claim_or_wake c us lease ctoken rt freed s =
     (if ctoken \<noteq> '''' then claim c us 1 lease [ctoken] rt s
      else (no_claim, if freed \<and> \<not> q_paused s then wake s else s))"

definition complete_job :: "qcfg \<Rightarrow> int \<Rightarrow> string \<Rightarrow> string \<Rightarrow> int \<Rightarrow> int \<Rightarrow> string \<Rightarrow> qstate \<Rightarrow> bool \<times> bool \<times> qstate" where
  "complete_job c now i token keepAge keepCount res s =
     (if h_get s i FToken \<noteq> Some token then (False, False, s)
      else (let g = group_of s i;
                (freed, s) = leave_active c i g s;
                s = (if keepAge < 0 then trim Completed now 0 0 (del_key i s)
                     else (let s = h_set i [(FState, ''completed''), (FFinished, show_int now)] s;
                               s = (if res \<noteq> '''' then h_set i [(FResult, res)] s else s);
                               s = z_add Completed now i (h_del i [FToken] s)
                           in trim Completed now keepAge keepCount s))
            in (True, freed, publish ''completed'' i ''result'' res s)))"

definition complete_script :: "qcfg \<Rightarrow> int \<Rightarrow> string \<Rightarrow> string \<Rightarrow> int \<Rightarrow> int \<Rightarrow> int \<Rightarrow> string \<Rightarrow> string \<Rightarrow> rate option
    \<Rightarrow> qstate \<Rightarrow> settle_reply result \<times> qstate" where
  "complete_script c us i token keepAge keepCount lease ctoken res rt = guarded c (\<lambda>s.
     let (settled, freed, s) = complete_job c (us div 1000) i token keepAge keepCount res s;
         (cl, s) = claim_or_wake c us lease ctoken (rate_of (rateArgs rt)) freed s
     in (\<lparr>sr_settled = settled, sr_final = settled, sr_claim = cl\<rparr>, s))"

text \<open>\<open>HMGET\<close> of some fields: \<open>FAIL\<close> reads four, so its \<open>sound\<close> sees no timeout and no group.\<close>

definition hmget :: "field list \<Rightarrow> field hash \<Rightarrow> field hash" where
  "hmget fs h = filter (\<lambda>fv. fst fv \<in> set fs) h"

definition fail_job :: "qcfg \<Rightarrow> int \<Rightarrow> string \<Rightarrow> string \<Rightarrow> string \<Rightarrow> int \<Rightarrow> int \<Rightarrow> qstate \<Rightarrow> bool \<times> bool \<times> bool \<times> bool \<times> qstate" where
  "fail_job c now i token err retryIn keepFailed s =
     (if h_get s i FToken \<noteq> Some token then (False, False, False, False, s)
      else (let f = hmget [FData, FAttempt, FAttempts, FPriority] (q_jobs s i);
                (freed, s) = leave_active c i (group_of s i) s;
                s = h_del i [FToken] s
            in if retryIn \<ge> 0 \<and> sound f \<and> attempt_of f < attempts_of f
               then (let headWake = is_head (now + retryIn) s;
                         s = h_set i [(FState, ''delayed''), (FError, err), (FRunAt, show_int (now + retryIn))] s
                     in (True, False, freed, headWake, z_add Delayed (now + retryIn) i s))
               else (let s = h_set i [(FState, ''failed''), (FError, err), (FFinished, show_int now)] s;
                         s = trim Failed now keepFailed (-1) (z_add Failed now i s)
                     in (True, True, freed, False, publish ''failed'' i ''error'' err s))))"

definition fail_script :: "qcfg \<Rightarrow> int \<Rightarrow> string \<Rightarrow> string \<Rightarrow> string \<Rightarrow> int \<Rightarrow> int \<Rightarrow> int \<Rightarrow> string \<Rightarrow> rate option
    \<Rightarrow> qstate \<Rightarrow> settle_reply result \<times> qstate" where
  "fail_script c us i token err retryIn keepFailed lease ctoken rt = guarded c (\<lambda>s.
     let (settled, final, freed, headWake, s) = fail_job c (us div 1000) i token err retryIn keepFailed s;
         (cl, s) = claim_or_wake c us lease ctoken (rate_of (rateArgs rt)) freed s;
         s = (if headWake \<and> z_has Delayed i s then wake s else s)
     in (\<lparr>sr_settled = settled, sr_final = final, sr_claim = cl\<rparr>, s))"

section \<open>Giving jobs back\<close>

definition release_one :: "qcfg \<Rightarrow> string \<times> string \<Rightarrow> string list \<times> bool \<times> qstate \<Rightarrow> string list \<times> bool \<times> qstate" where
  "release_one c it acc = (let (i, token) = it; (released, claimable, s) = acc; f = q_jobs s i in
     if hget f FToken = Some token \<and> hget f FState = Some ''active'' \<and> sound f \<and> attempt_of f \<ge> 1
     then (let g = or_empty (hget f FGroup);
               (freed, s) = leave_active c i g s;
               s = h_set i [(FState, ''waiting''), (FAttempt, show_nat (attempt_of f - 1))] s;
               s = h_del i [FToken] s;
               (sc, s) = ready_score (num_opt (hget f FPriority)) s;
               (ready, s) = ready_add c i sc g s
           in (released @ [i], claimable \<or> freed \<or> ready, s))
     else acc)"

definition release_script :: "qcfg \<Rightarrow> (string \<times> string) list \<Rightarrow> qstate \<Rightarrow> string list result \<times> qstate" where
  "release_script c jobs = guarded c (\<lambda>s.
     let (released, claimable, s) = foldl (\<lambda>acc it. release_one c it acc) ([], False, s) jobs
     in (released, if claimable \<and> \<not> q_paused s then wake s else s))"

section \<open>Renewing leases, steps and progress\<close>

definition renew_one :: "int \<Rightarrow> string \<times> string \<Rightarrow> string list \<times> qstate \<Rightarrow> string list \<times> qstate" where
  "renew_one until it acc = (let (i, token) = it; (lost, s) = acc in
     if h_get s i FToken = Some token then (lost, if z_has Active i s then z_add Active until i s else s)
     else (lost @ [i], s))"

definition renew_script :: "int \<Rightarrow> int \<Rightarrow> (string \<times> string) list \<Rightarrow> qstate \<Rightarrow> string list \<times> qstate" where
  "renew_script now lease entries s = foldl (\<lambda>acc it. renew_one (now + lease) it acc) ([], s) entries"

definition held_step :: "int \<Rightarrow> string \<Rightarrow> string \<Rightarrow> qstate \<Rightarrow> bool" where
  "held_step now i token s = (if h_get s i FToken \<noteq> Some token then False
     else (case zscore (q_zs s Active) i of None \<Rightarrow> False | Some deadline \<Rightarrow> deadline > now))"

datatype step_reply = StepStored string | StepRun | StepLost

definition step_begin :: "int \<Rightarrow> string \<Rightarrow> string \<Rightarrow> int \<Rightarrow> string \<Rightarrow> qstate \<Rightarrow> step_reply \<times> qstate" where
  "step_begin now token nm lease i s =
     (if \<not> held_step now i token s then (StepLost, s)
      else (case h_get s i (FStep nm) of
          Some json \<Rightarrow> (StepStored json, s)
        | None \<Rightarrow> (StepRun, (case zscore (q_zs s Active) i of
              Some d \<Rightarrow> if now + lease > d then z_add Active (now + lease) i s else s
            | None \<Rightarrow> s))))"

definition step_commit :: "int \<Rightarrow> string \<Rightarrow> string \<Rightarrow> string \<Rightarrow> string \<Rightarrow> qstate \<Rightarrow> bool \<times> qstate" where
  "step_commit now token nm json i s =
     (if \<not> held_step now i token s then (False, s) else (True, h_set i [(FStep nm, json)] s))"

definition progress_script :: "string \<Rightarrow> string \<Rightarrow> string \<Rightarrow> qstate \<Rightarrow> bool \<times> qstate" where
  "progress_script i token v s =
     (if h_get s i FToken \<noteq> Some token then (False, s) else (True, h_set i [(FProgress, v)] s))"

section \<open>They keep the invariant\<close>

lemma drop_ids_inv:
  assumes "qinv c {} {} s" and "distinct ids" and "set ids \<subseteq> zids (q_zs s p)" and "p \<noteq> Ready" and "p \<noteq> Active"
  shows "qinv c {} {} (drop_ids p ids s)"
  unfolding drop_ids_def
proof (rule foldl_taking [where S = "\<lambda>s. zids (q_zs s p)"])
  fix s i assume q: "qinv c {} {} s" and i: "i \<in> zids (q_zs s p)"
  have "qinv c {i} {} (del_key i (z_rem p i s))" using qinv_take [OF q i assms(4,5)] by simp
  then have "qinv c {} {} (del_key i (z_rem p i s))" by (rule qinv_gone) simp
  moreover have "z_rem p i (del_key i s) = del_key i (z_rem p i s)" by (simp add: z_rem_def del_key_def)
  ultimately show "qinv c {} {} (z_rem p i (del_key i s)) \<and> zids (q_zs s p) - {i} \<subseteq> zids (q_zs (z_rem p i (del_key i s)) p)"
    by simp
qed (use assms in auto)

lemma trim_inv:
  assumes q: "qinv c {} {} s" and p: "p = Completed \<or> p = Failed"
  shows "qinv c {} {} (trim p now age count s)"
proof -
  have wf: "zwf (q_zs t p)" if "qinv c {} {} t" for t using that by (simp add: qinv_def places_def)
  define u where "u = drop_ids p (map snd (zbelow (now - age) 100 (q_zs s p))) s"
  have u: "qinv c {} {} u" unfolding u_def
    by (rule drop_ids_inv [OF q]) (use wf [OF q] p zids_zbelow [of "now - age" 100 "q_zs s p"] in \<open>auto simp: distinct_zbelow\<close>)
  have "qinv c {} {} (drop_ids p (map snd (take k (q_zs u p))) u)" for k
    by (rule drop_ids_inv [OF u])
      (use wf [OF u] p set_take_subset [of k "map snd (q_zs u p)"] in \<open>auto simp: zwf_def take_map [symmetric] zids_def\<close>)
  then show ?thesis using u by (simp add: trim_def Let_def u_def [symmetric])
qed

lemma token_active:
  assumes "qinv c {} {} s" and "h_get s i FToken = Some token"
  shows "i \<in> zids (q_zs s Active)" and "job_ok Active (q_jobs s i)"
  using places_token [of "{}" s i] assms by (simp_all add: qinv_def)

lemma job_ok_settled:
  assumes "job_ok Active h" and "p = Completed \<or> p = Failed"
    and "\<And>f. \<not> inert f \<Longrightarrow> f \<noteq> FState \<Longrightarrow> f \<noteq> FToken \<Longrightarrow> hget h' f = hget h f" and "hget h' FToken = None"
  shows "job_ok p h'"
  using assms(1,2,4) assms(3) [of FData] assms(3) [of FPriority] assms(3) [of FAttempt]
    assms(3) [of FAttempts] assms(3) [of FTimeout] assms(3) [of FGroup]
  by (auto simp: job_ok_def sound_def attempt_of_def attempts_of_def inert_def)

lemma complete_job_inv:
  assumes q: "qinv c {} {} s"
  shows "qinv c {} {} (snd (snd (complete_job c now i token keepAge keepCount res s)))"
proof (cases "h_get s i FToken = Some token")
  case True
  note a = token_active [OF q True]
  define u where "u = snd (leave_active c i (group_of s i) s)"
  have u: "qinv c {i} {} u" and ju: "q_jobs u i = q_jobs s i"
    using qinv_take_active [OF q a(1) refl] by (simp_all add: u_def)
  show ?thesis
  proof (cases "keepAge < 0")
    case neg: True
    have "qinv c {i} {} (del_key i u)" using u by simp
    then have "qinv c {} {} (del_key i u)" by (rule qinv_gone) simp
    then have "qinv c {} {} (trim Completed now 0 0 (del_key i u))" by (rule trim_inv) simp
    then show ?thesis using True neg by (simp add: complete_job_def Let_def split_beta u_def)
  next
    case pos: False
    define v where "v = h_set i [(FState, ''completed''), (FFinished, show_int now)] u"
    define w where "w = h_del i [FToken] (if res \<noteq> '''' then h_set i [(FResult, res)] v else v)"
    have qw: "qinv c {i} {} w" using u by (simp add: w_def v_def)
    have ok: "job_ok Completed (q_jobs w i)"
      by (rule job_ok_settled [OF a(2)]) (auto simp: w_def v_def ju inert_def)
    have "qinv c ({i} - {i}) {} (z_add Completed now i w)"
      by (rule qinv_put) (use qw ok in \<open>simp_all add: w_def v_def h_get_def\<close>)
    then have "qinv c {} {} (trim Completed now keepAge keepCount (z_add Completed now i w))"
      by (intro trim_inv) simp_all
    moreover have "snd (snd (complete_job c now i token keepAge keepCount res s)) =
        publish ''completed'' i ''result'' res (trim Completed now keepAge keepCount (z_add Completed now i w))"
      using True pos unfolding complete_job_def Let_def split_beta w_def v_def u_def by simp
    ultimately show ?thesis by simp
  qed
qed (simp add: complete_job_def q)

lemma claim_or_wake_inv:
  "qinv c {} {} s \<Longrightarrow> qinv c {} {} (snd (claim_or_wake c us lease ctoken rt freed s))"
  using claim_inv(1) [of c s 1 "[ctoken]" us lease rt] by (simp add: claim_or_wake_def) (metis prod.collapse)

lemma hget_hmget: "hget (hmget fs h) f = (if f \<in> set fs then hget h f else None)"
  unfolding hget_def hmget_def by (induction h) auto

lemma fail_job_inv:
  assumes q: "qinv c {} {} s"
  shows "qinv c {} {} (snd (snd (snd (snd (fail_job c now i token err retryIn keepFailed s)))))"
proof (cases "h_get s i FToken = Some token")
  case True
  note a = token_active [OF q True]
  define f where "f = hmget [FData, FAttempt, FAttempts, FPriority] (q_jobs s i)"
  have f: "attempt_of f = attempt_of (q_jobs s i)" "attempts_of f = attempts_of (q_jobs s i)"
    by (simp_all add: f_def attempt_of_def attempts_of_def hget_hmget)
  define u where "u = h_del i [FToken] (snd (leave_active c i (group_of s i) s))"
  have u: "qinv c {i} {} u" and ju: "q_jobs u i = hdel FToken (q_jobs s i)"
    using qinv_take_active [OF q a(1) refl] by (simp_all add: u_def)
  show ?thesis
  proof (cases "retryIn \<ge> 0 \<and> sound f \<and> attempt_of f < attempts_of f")
    case rt: True
    define v where "v = h_set i [(FState, ''delayed''), (FError, err), (FRunAt, show_int (now + retryIn))] u"
    have ok: "job_ok Delayed (q_jobs v i)"
      using a(2) rt f by (simp add: v_def ju job_ok_def sound_def attempt_of_def attempts_of_def)
    have "qinv c ({i} - {i}) {} (z_add Delayed (now + retryIn) i v)"
      by (rule qinv_put) (use u ok in \<open>simp_all add: v_def h_get_def\<close>)
    moreover have "snd (snd (snd (snd (fail_job c now i token err retryIn keepFailed s)))) = z_add Delayed (now + retryIn) i v"
      using True rt by (simp add: fail_job_def Let_def split_beta f_def [symmetric] u_def [symmetric] v_def)
    ultimately show ?thesis by simp
  next
    case no: False
    define v where "v = h_set i [(FState, ''failed''), (FError, err), (FFinished, show_int now)] u"
    have ok: "job_ok Failed (q_jobs v i)"
      by (rule job_ok_settled [OF a(2)]) (auto simp: v_def ju inert_def)
    have "qinv c ({i} - {i}) {} (z_add Failed now i v)"
      by (rule qinv_put) (use u ok in \<open>simp_all add: v_def h_get_def\<close>)
    then have "qinv c {} {} (trim Failed now keepFailed (-1) (z_add Failed now i v))"
      by (intro trim_inv) simp_all
    moreover have "snd (snd (snd (snd (fail_job c now i token err retryIn keepFailed s)))) =
        publish ''failed'' i ''error'' err (trim Failed now keepFailed (-1) (z_add Failed now i v))"
      using True no unfolding fail_job_def Let_def split_beta f_def v_def u_def by auto
    ultimately show ?thesis by simp
  qed
qed (simp add: fail_job_def q)

lemma release_one_inv:
  assumes q: "qinv c {} {} (snd (snd acc))"
  shows "qinv c {} {} (snd (snd (release_one c it acc)))"
proof -
  obtain i token where it: "it = (i, token)" by fastforce
  obtain rel cl s where acc: "acc = (rel, cl, s)" by (metis prod_cases3)
  define f where "f = q_jobs s i"
  show ?thesis
  proof (cases "hget f FToken = Some token \<and> hget f FState = Some ''active'' \<and> sound f \<and> attempt_of f \<ge> 1")
    case True
    have qs: "qinv c {} {} s" using q by (simp add: acc)
    have t: "h_get s i FToken = Some token" using True by (simp add: f_def h_get_def)
    note a = token_active [OF qs t]
    have g: "or_empty (hget f FGroup) = group_of s i" using True or_empty_group by (simp add: f_def)
    define u where "u = h_del i [FToken] (h_set i [(FState, ''waiting''), (FAttempt, show_nat (attempt_of f - 1))]
        (snd (leave_active c i (group_of s i) s)))"
    have u: "qinv c {i} {} u" using qinv_take_active [OF qs a(1) refl] by (simp add: u_def)
    have ok: "job_ok Ready (q_jobs u i)"
      using a(2) True by (auto simp: u_def f_def job_ok_def sound_def attempt_of_def attempts_of_def)
    have "qinv c {} {} (snd (ready_add c i (fst (ready_score p u)) (group_of s i) (snd (ready_score p u))))" for p
      by (rule back_to_ready) (use u ok in \<open>simp_all add: u_def h_get_def\<close>)
    then show ?thesis using True
      by (simp add: release_one_def it acc Let_def split_beta f_def [symmetric] g u_def)
  next
    case False
    then have "release_one c it acc = acc"
      unfolding release_one_def it acc f_def Let_def split_conv by (rule if_not_P)
    then show ?thesis using q by simp
  qed
qed

lemma release_all_inv:
  "qinv c {} {} (snd (snd acc)) \<Longrightarrow> qinv c {} {} (snd (snd (foldl (\<lambda>acc it. release_one c it acc) acc jobs)))"
  by (induction jobs arbitrary: acc) (simp_all add: release_one_inv)

text \<open>A new deadline for a job that is active already.\<close>

lemma qinv_renew:
  assumes q: "qinv c {} {} s" and i: "i \<in> zids (q_zs s Active)"
  shows "qinv c {} {} (z_add Active d i s)"
proof -
  have z: "zids (q_zs (z_add Active d i s) p) = zids (q_zs s p)" for p using i by auto
  have "places {} (z_add Active d i s)"
    using qinv_places [OF q] unfolding places_def z by simp
  moreover have "mirror_ok (z_add Active d i s) = mirror_ok s" by (rule mirror_cong) simp_all
  moreover have "active_of (z_add Active d i s) g = active_of s g" for g unfolding active_of_def z by simp
  then have "counts_ok (z_add Active d i s) = counts_ok s" by (simp add: counts_ok_def held_of_def)
  moreover have "held_of (z_add Active d i s) = held_of s" "has_slot c (z_add Active d i s) = has_slot c s"
    by (simp_all add: fun_eq_iff has_slot_def held_of_def)
  then have "offered c {} (z_add Active d i s) = offered c {} s" "capped c (z_add Active d i s) = capped c s"
    by (simp_all add: offered_def capped_def)
  moreover have "rr_ok (z_add Active d i s) = rr_ok s" "ungrouped (z_add Active d i s) = ungrouped s"
    by (simp_all add: rr_ok_def ungrouped_def)
  ultimately show ?thesis using q by (simp add: qinv_def groups_ok_def)
qed

lemma renew_inv: "qinv c {} {} s \<Longrightarrow> qinv c {} {} (snd (renew_script now lease entries s))"
proof -
  have "qinv c {} {} (snd acc) \<Longrightarrow> qinv c {} {} (snd (foldl (\<lambda>acc it. renew_one (now + lease) it acc) acc entries))" for acc
    by (induction entries arbitrary: acc) (auto simp: renew_one_def Let_def split_beta z_has_iff qinv_renew)
  then show "qinv c {} {} s \<Longrightarrow> qinv c {} {} (snd (renew_script now lease entries s))"
    by (simp add: renew_script_def)
qed

lemma held_step_active: "held_step now i token s \<Longrightarrow> i \<in> zids (q_zs s Active)"
  using zscore_None_iff [of "q_zs s Active" i] by (auto simp: held_step_def split: if_splits option.splits)

lemma step_begin_inv: "qinv c {} {} s \<Longrightarrow> qinv c {} {} (snd (step_begin now token nm lease i s))"
  using held_step_active [of now i token s] by (auto simp: step_begin_def qinv_renew split: option.splits)

lemma step_commit_inv: "qinv c {} {} s \<Longrightarrow> qinv c {} {} (snd (step_commit now token nm json i s))"
  using held_step_active [of now i token s] places_job(4) [of "{}" s i Active]
  by (auto simp: step_commit_def inert_def qinv_places intro!: qinv_inert)

lemma progress_inv: "qinv c {} {} s \<Longrightarrow> qinv c {} {} (snd (progress_script i token v s))"
  using token_active(1) [of c s i token] places_job(4) [of "{}" s i Active]
  by (auto simp: progress_script_def inert_def qinv_places intro!: qinv_inert)

end
