(* ===== verification/Queue_Admin.thy ===== *)
theory Queue_Admin
  imports Queue_Settle
begin

text \<open>
  Inspection and repair: \<open>scripts/admin.ts\<close> (\<open>COUNTS\<close>, \<open>PAUSE\<close>, \<open>RESUME\<close>, \<open>RETRY\<close>, \<open>REMOVE\<close>) and
  \<open>scripts/cancel.ts\<close>. The last three decide by a job's place and its stored state together.
\<close>

section \<open>The scripts\<close>

record queue_counts =
  n_waiting :: nat
  n_delayed :: nat
  n_active :: nat
  n_completed :: nat
  n_failed :: nat
  n_paused :: bool

definition counts_script :: "qstate \<Rightarrow> queue_counts" where
  "counts_script s = \<lparr>n_waiting = length (q_zs s Ready), n_delayed = length (q_zs s Delayed),
     n_active = length (q_zs s Active), n_completed = length (q_zs s Completed),
     n_failed = length (q_zs s Failed), n_paused = q_paused s\<rparr>"

definition pause_script :: "qstate \<Rightarrow> qstate" where
  "pause_script s = s\<lparr>q_paused := True\<rparr>"

definition resume_script :: "qcfg \<Rightarrow> qstate \<Rightarrow> unit result \<times> qstate" where
  "resume_script c = guarded c (\<lambda>s. let s = s\<lparr>q_paused := False\<rparr>;
       able = (if c_grouped c then q_glist s \<noteq> [] else q_zs s Ready \<noteq> [])
     in ((), if able \<or> q_zs s Delayed \<noteq> [] then wake s else s))"

definition is_step :: "field \<Rightarrow> bool" where
  "is_step f = (case f of FStep nm \<Rightarrow> True | _ \<Rightarrow> False)"

text \<open>The move of a retry certain to happen: out of \<open>failed\<close>, the fields, and back in \<open>ready\<close>.\<close>

definition retry_hash :: "int \<Rightarrow> string \<Rightarrow> qstate \<Rightarrow> qstate" where
  "retry_hash now i s = h_del i [FError, FFinished, FToken]
     (h_set i [(FState, ''waiting''), (FAttempt, ''0''), (FRetried, ''1''), (FRunAt, show_int now)] s)"

definition retry_move :: "qcfg \<Rightarrow> int \<Rightarrow> string \<Rightarrow> qstate \<Rightarrow> bool \<times> qstate" where
  "retry_move c now i s = (let p = num_opt (hget (q_jobs s i) FPriority);
       s = retry_hash now i (z_rem Failed i s);
       (sc, s) = ready_score p s
     in ready_add c i sc (group_of s i) s)"

definition retry_job :: "qcfg \<Rightarrow> int \<Rightarrow> string \<Rightarrow> bool \<Rightarrow> qstate \<Rightarrow> bool \<times> qstate" where
  "retry_job c now i fresh s =
     (if \<not> z_has Failed i s then (False, s)
      else if h_get s i FState \<noteq> Some ''failed'' then (False, s)
      else if \<not> sound (q_jobs s i) then (False, s)
      else (let (able, s) = retry_move c now i s;
                s = (if fresh then h_del i (filter is_step (map fst (q_jobs s i))) s else s)
            in (True, if able \<and> \<not> q_paused s then wake s else s)))"

definition retry_script :: "qcfg \<Rightarrow> int \<Rightarrow> string \<Rightarrow> bool \<Rightarrow> qstate \<Rightarrow> bool result \<times> qstate" where
  "retry_script c now i fresh = guarded c (retry_job c now i fresh)"

datatype remove_reply = Removed | NoSuchJob | IsActive

definition remove_job :: "qcfg \<Rightarrow> string \<Rightarrow> qstate \<Rightarrow> remove_reply \<times> qstate" where
  "remove_job c i s =
     (if z_has Active i s \<or> h_get s i FState = Some ''active'' then (IsActive, s)
      else (let existed = hexists (q_jobs s i);
                s = ready_rem c i (group_of s i) s;
                s = z_rem Failed i (z_rem Completed i (z_rem Active i (z_rem Delayed i s)));
                s = del_key i s
            in (if existed then Removed else NoSuchJob, s)))"

definition remove_script :: "qcfg \<Rightarrow> string \<Rightarrow> qstate \<Rightarrow> remove_reply result \<times> qstate" where
  "remove_script c i = guarded c (remove_job c i)"

definition cancel_from :: "qstate \<Rightarrow> string \<Rightarrow> place option" where
  "cancel_from s i = (if h_get s i FState = Some ''waiting'' then Some Ready
     else if h_get s i FState = Some ''delayed'' then Some Delayed
     else if h_get s i FState = Some ''active'' then Some Active else None)"

definition cancel_job :: "qcfg \<Rightarrow> string \<Rightarrow> qstate \<Rightarrow> bool \<times> qstate" where
  "cancel_job c i s = (case cancel_from s i of None \<Rightarrow> (False, s) | Some src \<Rightarrow>
     if \<not> z_has src i s then (False, s)
     else (let g = group_of s i;
               token = (if src = Active then h_get s i FToken else None);
               (freed, s) = (if src = Ready then (False, ready_rem c i g s)
                             else if src = Active then leave_active c i g s
                             else (False, z_rem src i s));
               s = del_key i s;
               s = (if freed \<and> \<not> q_paused s then wake s else s)
           in (True, s\<lparr>q_events := q_events s @ [Canceled i token]\<rparr>)))"

definition cancel_script :: "qcfg \<Rightarrow> string \<Rightarrow> qstate \<Rightarrow> bool result \<times> qstate" where
  "cancel_script c i = guarded c (cancel_job c i)"

section \<open>They keep the invariant\<close>

lemma qinv_inert_hash:
  assumes q: "qinv c X Y s" and h: "q_jobs s i \<noteq> []" and f: "\<And>g. \<not> inert g \<Longrightarrow> hget h' g = hget (q_jobs s i) g"
  shows "qinv c X Y (s\<lparr>q_jobs := (q_jobs s)(i := h')\<rparr>)"
proof -
  let ?t = "s\<lparr>q_jobs := (q_jobs s)(i := h')\<rparr>"
  have j: "job_ok p h' = job_ok p (q_jobs s i)" for p
    by (rule job_ok_cong) (use f in \<open>auto simp: inert_def\<close>)
  have g: "h_get ?t k FState = h_get s k FState" "group_of ?t k = group_of s k" for k
    using f [of FState] f [of FGroup] by (auto simp: h_get_def group_of_def inert_def)
  have "places X ?t" using qinv_places [OF q] h unfolding places_def g by (auto simp: j)
  moreover have "groups_ok c Y ?t = groups_ok c Y s" by (rule groups_cong) (simp_all add: g)
  ultimately show ?thesis using q by (simp add: qinv_def)
qed

lemma drop_steps_inv:
  assumes "qinv c X Y s" and "q_jobs s i \<noteq> []"
  shows "qinv c X Y (h_del i (filter is_step (map fst (q_jobs s i))) s)"
  unfolding h_del_def
  by (rule qinv_inert_hash [OF assms]) (auto simp: hget_hdels is_step_def inert_def split: field.splits)

lemma retry_move_inv:
  assumes q: "qinv c {} {} s" and i: "i \<in> zids (q_zs s Failed)"
  shows "qinv c {} {} (snd (retry_move c now i s))" and "q_jobs (snd (retry_move c now i s)) i \<noteq> []"
proof -
  note j = places_job [OF qinv_places [OF q] i]
  define u where "u = retry_hash now i (z_rem Failed i s)"
  have u: "qinv c {i} {} u" using qinv_take [OF q i] by (simp add: u_def retry_hash_def)
  have ok: "job_ok Ready (q_jobs u i)"
    using j(3) by (simp add: u_def retry_hash_def job_ok_def sound_def attempt_of_def attempts_of_def)
  have m: "retry_move c now i s = ready_add c i (fst (ready_score p u)) (group_of u i) (snd (ready_score p u))"
    if "p = num_opt (hget (q_jobs s i) FPriority)" for p
    using that by (simp add: retry_move_def Let_def split_beta u_def)
  show "qinv c {} {} (snd (retry_move c now i s))" unfolding m [OF refl]
    by (rule back_to_ready) (use u ok in \<open>simp_all add: u_def h_get_def retry_hash_def\<close>)
  show "q_jobs (snd (retry_move c now i s)) i \<noteq> []"
    unfolding m [OF refl] using ok by (auto simp: job_ok_def sound_def)
qed

lemma retry_job_inv:
  assumes q: "qinv c {} {} s"
  shows "qinv c {} {} (snd (retry_job c now i fresh s))"
proof (cases "z_has Failed i s \<and> h_get s i FState = Some ''failed'' \<and> sound (q_jobs s i)")
  case True
  then have i: "i \<in> zids (q_zs s Failed)" by (simp add: z_has_iff)
  note m = retry_move_inv [OF q i, of now]
  obtain able v where v: "retry_move c now i s = (able, v)" by fastforce
  then have "qinv c {} {} (h_del i (filter is_step (map fst (q_jobs v i))) v)" "qinv c {} {} v"
    using m drop_steps_inv [of c "{}" "{}" v i] by simp_all
  then show ?thesis using True by (simp add: retry_job_def v Let_def)
next
  case False
  then show ?thesis using q by (auto simp: retry_job_def)
qed

lemma z_rem_absent: "i \<notin> zids (q_zs s p) \<Longrightarrow> z_rem p i s = s"
  by (simp add: z_rem_def zrem_absent fun_upd_idem)

lemma z_rem_same [simp]: "z_rem p i (z_rem p i s) = z_rem p i s"
  by (simp add: z_rem_absent)

lemma z_rem_comm: "z_rem p i (z_rem q i s) = z_rem q i (z_rem p i s)"
  by (cases "p = q") (simp_all add: z_rem_def fun_upd_twist)

text \<open>A job taken out of its set with its hash deleted is gone.\<close>

lemma deleted_inv: "qinv c {i} {} s \<Longrightarrow> qinv c {} {} (del_key i s)"
  by (rule qinv_gone [where i = i]) simp_all

lemma remove_job_inv:
  assumes q: "qinv c {} {} s"
  shows "qinv c {} {} (snd (remove_job c i s))"
proof (cases "z_has Active i s \<or> h_get s i FState = Some ''active''")
  case False
  note p = qinv_places [OF q]
  define t where "t = ready_rem c i (group_of s i) s"
  define u where "u = z_rem Failed i (z_rem Completed i (z_rem Active i (z_rem Delayed i t)))"
  have run: "snd (remove_job c i s) = del_key i u"
    using False by (simp add: remove_job_def Let_def t_def u_def)
  have away: "i \<notin> zids (q_zs s q)" if "h_get s i FState \<noteq> Some (place_text q)" for q
    using places_in [OF p] that by simp
  show ?thesis
  proof (cases "i \<in> zids (q_zs s Ready)")
    case True
    then have "h_get s i FState = Some ''waiting''" using places_job(2) [OF p True] by simp
    then have "i \<notin> zids (q_zs t q)" if "q \<noteq> Ready" for q using that away [of q] by (simp add: t_def)
    then have "u = t" by (simp add: u_def z_rem_absent)
    then show ?thesis using deleted_inv qinv_take_ready [OF q True] by (simp add: run t_def)
  next
    case nr: False
    have ts: "t = s" unfolding t_def by (rule ready_rem_absent [OF q nr])
    show ?thesis
    proof (cases "\<exists>q. i \<in> zids (q_zs s q)")
      case True
      then obtain k where k: "i \<in> zids (q_zs s k)" by blast
      have st: "h_get s i FState = Some (place_text k)" using places_job(2) [OF p k] .
      have kk: "k \<noteq> Ready" "k \<noteq> Active" using nr k False by (auto simp: z_has_iff)
      have other: "i \<notin> zids (q_zs s q)" if "q \<noteq> k" for q using away [of q] st that by simp
      have "u = z_rem k i s"
        using kk other by (cases k) (simp_all add: u_def ts z_rem_absent)
      then show ?thesis using deleted_inv qinv_take [OF q k kk] by (simp add: run)
    next
      case none: False
      then have "u = s" by (simp add: u_def ts z_rem_absent)
      moreover have "q_jobs s i = []"
        using none p places_in [OF p, of i] by (auto simp: places_def)
      then have "qinv c {i} {} s" using qinv_new [OF q] by simp
      ultimately show ?thesis using deleted_inv by (simp add: run)
    qed
  qed
qed (simp add: remove_job_def q)

lemma cancel_job_inv:
  assumes q: "qinv c {} {} s"
  shows "qinv c {} {} (snd (cancel_job c i s))"
proof (cases "cancel_from s i")
  case (Some src)
  show ?thesis
  proof (cases "z_has src i s")
    case True
    then have i: "i \<in> zids (q_zs s src)" by (simp add: z_has_iff)
    have "src = Ready \<or> src = Active \<or> src = Delayed" using Some by (auto simp: cancel_from_def split: if_splits)
    then show ?thesis
    proof (elim disjE)
      assume r: "src = Ready"
      then have "qinv c {} {} (del_key i (ready_rem c i (group_of s i) s))" using deleted_inv qinv_take_ready [OF q] i by simp
      then show ?thesis using Some True r by (simp add: cancel_job_def Let_def)
    next
      assume r: "src = Active"
      then have "qinv c {} {} (del_key i (snd (leave_active c i (group_of s i) s)))"
        using deleted_inv qinv_take_active [OF q _ refl, of i] i by simp
      then show ?thesis using Some True r by (simp add: cancel_job_def Let_def split_beta)
    next
      assume r: "src = Delayed"
      then have "qinv c {} {} (del_key i (z_rem Delayed i s))" using deleted_inv qinv_take [OF q, of i Delayed] i by simp
      then show ?thesis using Some True r by (simp add: cancel_job_def Let_def)
    qed
  qed (simp add: cancel_job_def Some q)
qed (simp add: cancel_job_def q)

end
