(* ===== verification/Queue_Schedule.thy ===== *)
theory Queue_Schedule
  imports Queue_Admin
begin

text \<open>
  The schedules, \<open>scripts/schedule/schedule.ts\<close>: one sorted set of next occurrences and one hash per
  schedule, written by \<open>UPSERT\<close>, \<open>UNSCHEDULE\<close>, \<open>SYNC\<close>, \<open>FIRE\<close> and \<open>DEFER\<close>, read by \<open>SCHEDULES\<close>.
  The client computes every next occurrence and passes it in.
\<close>

section \<open>The scripts\<close>

record sched_arg =
  s_id :: string
  s_kind :: string
  s_spec :: string
  s_zone :: string
  s_data :: string
  s_next :: int

datatype sched_reply = Stored | NotFound | OwnedByDefinition

text \<open>\<open>WRITE_FN\<close>: the hash is replaced whole; only a cron has a zone.\<close>

definition sched_hash :: "sched_arg \<Rightarrow> string \<Rightarrow> sfield hash" where
  "sched_hash a origin = (let h = hsets [(SKind, s_kind a), (SSpec, s_spec a), (SData, s_data a), (SOrigin, origin)] []
     in if s_kind a = ''cron'' then hset SZone (s_zone a) h else h)"

definition write_sched :: "sched_arg \<Rightarrow> string \<Rightarrow> qstate \<Rightarrow> qstate" where
  "write_sched a origin s = s\<lparr>q_shash := (q_shash s)(s_id a := sched_hash a origin)\<rparr>"

definition upsert_script :: "sched_arg \<Rightarrow> qstate \<Rightarrow> sched_reply \<times> qstate" where
  "upsert_script a s =
     (if hget (q_shash s (s_id a)) SOrigin = Some ''definition'' then (OwnedByDefinition, s)
      else (let s = write_sched a ''runtime'' s in (Stored, s\<lparr>q_scheds := zadd (s_next a) (s_id a) (q_scheds s)\<rparr>)))"

definition unschedule_script :: "string \<Rightarrow> qstate \<Rightarrow> sched_reply \<times> qstate" where
  "unschedule_script i s =
     (if hget (q_shash s i) SOrigin = Some ''definition'' then (OwnedByDefinition, s)
      else (let had = hexists (q_shash s i) \<or> zmem (q_scheds s) i;
                s = s\<lparr>q_shash := (q_shash s)(i := []), q_scheds := zrem i (q_scheds s)\<rparr>
            in (if had then Stored else NotFound, s)))"

definition later :: "string \<Rightarrow> string \<Rightarrow> bool" where
  "later due nxt = (whole due \<and> whole nxt \<and> parse_nat nxt > parse_nat due)"

definition ERR_NEXT :: string where
  "ERR_NEXT = ''ERR next must be a whole number of ms after due''"

definition ERR_UNTIL :: string where
  "ERR_UNTIL = ''ERR until must be a whole number of ms after due''"

text \<open>Whether the schedule still waits at \<open>due\<close>: its score, in \<open>FIRE\<close> and in \<open>DEFER\<close>.\<close>

definition scored_at :: "string \<Rightarrow> string \<Rightarrow> qstate \<Rightarrow> bool" where
  "scored_at i due s = (case zscore (q_scheds s) i of None \<Rightarrow> False | Some sc \<Rightarrow> sc = int (parse_nat due))"

definition occurrence :: "string \<Rightarrow> string \<Rightarrow> string \<Rightarrow> nat \<Rightarrow> int \<Rightarrow> job_spec" where
  "occurrence i due data attempts timeout = \<lparr>a_id = ''schedule:'' @ i @ '':'' @ due, a_data = data, a_priority = 0,
     a_attempts = attempts, a_delay = 0, a_at = -1, a_timeout = timeout, a_mode = NoDedupe, a_dkey = '''',
     a_ttl = 0, a_group = ''''\<rparr>"

definition fire_script :: "qcfg \<Rightarrow> int \<Rightarrow> string \<Rightarrow> string \<Rightarrow> string \<Rightarrow> nat \<Rightarrow> int \<Rightarrow> qstate \<Rightarrow> bool result \<times> qstate" where
  "fire_script c now i due nxt attempts timeout s0 = (case mode_check c s0 of
     Inl e \<Rightarrow> (Inl e, s0)
   | Inr s \<Rightarrow>
      if \<not> later due nxt then (Inl ERR_NEXT, s)
      else if \<not> scored_at i due s then (Inr False, s)
      else if int (parse_nat due) > now then (Inr False, s)
      else if \<not> schedule_sound (q_shash s i) then (Inr False, s)
      else (let (added, s) = add_job c (q_paused s) now
                  (occurrence i due (or_empty (hget (q_shash s i) SData)) attempts timeout) s
            in (Inr added, s\<lparr>q_scheds := zadd (int (parse_nat nxt)) i (q_scheds s)\<rparr>)))"

definition defer_script :: "string \<Rightarrow> string \<Rightarrow> string \<Rightarrow> qstate \<Rightarrow> bool result \<times> qstate" where
  "defer_script i due until s =
     (if \<not> later due until then (Inl ERR_UNTIL, s)
      else if \<not> scored_at i due s then (Inr False, s)
      else if \<not> schedule_sound (q_shash s i) then (Inr False, s)
      else (Inr True, s\<lparr>q_scheds := zadd (int (parse_nat until)) i (q_scheds s)\<rparr>))"

definition sync_one :: "sched_arg \<Rightarrow> qstate \<Rightarrow> qstate" where
  "sync_one a s = (let i = s_id a; f = q_shash s i;
       same = (hget f SKind = Some (s_kind a) \<and> hget f SSpec = Some (s_spec a)
         \<and> or_empty (hget f SZone) = (if s_kind a = ''cron'' then s_zone a else '''') \<and> zmem (q_scheds s) i);
       s = s\<lparr>q_sdef := (if i \<in> set (q_sdef s) then q_sdef s else q_sdef s @ [i])\<rparr>;
       s = write_sched a ''definition'' s
     in if same then s else s\<lparr>q_scheds := zadd (s_next a) i (q_scheds s)\<rparr>)"

definition sweep_one :: "string set \<Rightarrow> string \<Rightarrow> nat \<times> qstate \<Rightarrow> nat \<times> qstate" where
  "sweep_one listed i acc = (let (removed, s) = acc in
     if i \<in> listed then acc
     else (let s = s\<lparr>q_sdef := removeAll i (q_sdef s)\<rparr> in
       if hget (q_shash s i) SOrigin = Some ''definition''
       then (removed + 1, s\<lparr>q_shash := (q_shash s)(i := []), q_scheds := zrem i (q_scheds s)\<rparr>)
       else (removed, s)))"

definition ERR_CALL :: string where
  "ERR_CALL = ''ERR at most 1000 schedules per call''"

definition ERR_SET :: string where
  "ERR_SET = ''ERR the definition set holds more than 2000 ids''"

definition sync_script :: "sched_arg list \<Rightarrow> qstate \<Rightarrow> (nat \<times> nat) result \<times> qstate" where
  "sync_script args s =
     (if length args > 1000 then (Inl ERR_CALL, s)
      else if length (q_sdef s) > 2000 then (Inl ERR_SET, s)
      else (let s = foldl (\<lambda>s a. sync_one a s) s args;
                listed = set (map s_id args);
                (removed, s) = foldl (\<lambda>acc i. sweep_one listed i acc) (0, s) (q_sdef s)
            in (Inr (length args, removed), s)))"

record sched_view =
  v_id :: string
  v_kind :: string
  v_spec :: string
  v_zone :: string
  v_data :: string
  v_origin :: string
  v_next :: int

definition schedules_page :: "nat \<Rightarrow> nat \<Rightarrow> qstate \<Rightarrow> nat \<times> sched_view list" where
  "schedules_page offset lim s = (let n = min lim 1000 in
     (length (q_scheds s),
      if n < 1 then []
      else map (\<lambda>(sc, i). let h = q_shash s i in
          \<lparr>v_id = i, v_kind = or_empty (hget h SKind), v_spec = or_empty (hget h SSpec),
           v_zone = or_empty (hget h SZone), v_data = or_empty (hget h SData),
           v_origin = or_empty (hget h SOrigin), v_next = sc\<rparr>)
        (filter (\<lambda>(sc, i). schedule_sound (q_shash s i)) (take n (drop offset (q_scheds s))))))"

section \<open>The jobs are left alone\<close>

lemma write_sched_frame [simp]:
  "qinv c X Y (write_sched a origin s) = qinv c X Y s" "q_mode (write_sched a origin s) = q_mode s"
  "q_jobs (write_sched a origin s) = q_jobs s" "q_zs (write_sched a origin s) = q_zs s"
  by (simp_all add: write_sched_def)

lemma upsert_inv: "qinv c X Y s \<Longrightarrow> qinv c X Y (snd (upsert_script a s))"
  by (simp add: upsert_script_def Let_def)

lemma unschedule_inv: "qinv c X Y s \<Longrightarrow> qinv c X Y (snd (unschedule_script i s))"
proof -
  have "qinv c X Y (s\<lparr>q_scheds := z, q_shash := h\<rparr>) = qinv c X Y s" for z h by simp
  then show "qinv c X Y s \<Longrightarrow> qinv c X Y (snd (unschedule_script i s))" by (simp add: unschedule_script_def Let_def)
qed

lemma defer_inv: "qinv c X Y s \<Longrightarrow> qinv c X Y (snd (defer_script i due until s))"
  by (simp add: defer_script_def)

lemma sync_one_inv: "qinv c X Y s \<Longrightarrow> qinv c X Y (sync_one a s)"
  by (simp add: sync_one_def Let_def)

lemma sweep_one_inv: "qinv c X Y (snd acc) \<Longrightarrow> qinv c X Y (snd (sweep_one l i acc))"
proof -
  have "qinv c X Y (s\<lparr>q_sdef := d, q_scheds := z, q_shash := h\<rparr>) = qinv c X Y s" for s d z h by simp
  then show "qinv c X Y (snd acc) \<Longrightarrow> qinv c X Y (snd (sweep_one l i acc))"
    by (cases acc) (simp add: sweep_one_def Let_def)
qed

lemma sync_inv: "qinv c X Y s \<Longrightarrow> qinv c X Y (snd (sync_script args s))"
proof -
  assume q: "qinv c X Y s"
  have "qinv c X Y (foldl (\<lambda>s a. sync_one a s) s args)"
    by (rule foldl_invariant) (use q in \<open>simp_all add: sync_one_inv\<close>)
  then have "qinv c X Y (snd (foldl (\<lambda>acc i. sweep_one l i acc) (0, foldl (\<lambda>s a. sync_one a s) s args) ids))" for l ids
    by (intro foldl_invariant [where P = "\<lambda>a. qinv c X Y (snd a)"]) (simp_all add: sweep_one_inv)
  with q show "qinv c X Y (snd (sync_script args s))" by (simp add: sync_script_def Let_def split_beta)
qed

lemma occurrence_ok: "attempts \<ge> 1 \<Longrightarrow> timeout = -1 \<or> (1 \<le> timeout \<and> timeout < 10 ^ 15) \<Longrightarrow> spec_ok (occurrence i due d attempts timeout)"
  by (simp add: spec_ok_def occurrence_def group_sound_def)

section \<open>An occurrence fires at most once, and never early\<close>

lemma mode_check_frame: "mode_check c s = Inr s' \<Longrightarrow> q_scheds s' = q_scheds s \<and> q_shash s' = q_shash s"
  by (auto simp: mode_check_def split: option.splits if_splits)

text \<open>\<open>FIRE\<close> past its checks: the job is added, the schedule moves on.\<close>

lemma fire_cases:
  obtains (refused) "fire_script c now i due nxt att to s = (Inl MISMATCH, s)"
  | (stays) r s1 where "mode_check c s = Inr s1" "fire_script c now i due nxt att to s = (r, s1)" "r = Inl ERR_NEXT \<or> r = Inr False"
  | (fires) s1 where "mode_check c s = Inr s1" "later due nxt" "scored_at i due s" "int (parse_nat due) \<le> now"
      "schedule_sound (q_shash s i)"
      "fire_script c now i due nxt att to s =
         (Inr (fst (add_job c (q_paused s1) now (occurrence i due (or_empty (hget (q_shash s i) SData)) att to) s1)),
          (snd (add_job c (q_paused s1) now (occurrence i due (or_empty (hget (q_shash s i) SData)) att to) s1))
            \<lparr>q_scheds := zadd (int (parse_nat nxt)) i (q_scheds s)\<rparr>)"
proof (cases "mode_check c s")
  case (Inl e)
  then have "e = MISMATCH" by (auto simp: mode_check_def split: option.splits if_splits)
  then show ?thesis using Inl refused by (simp add: fire_script_def)
next
  case (Inr s1)
  note f = mode_check_frame [OF Inr]
  show ?thesis
  proof (cases "later due nxt \<and> scored_at i due s1 \<and> int (parse_nat due) \<le> now \<and> schedule_sound (q_shash s1 i)")
    case True
    define j where "j = occurrence i due (or_empty (hget (q_shash s i) SData)) att to"
    obtain b t where t: "add_job c (q_paused s1) now j s1 = (b, t)" by fastforce
    have "q_scheds t = q_scheds s"
      using outerD(1) [OF outer_add_job, of c "q_paused s1" now j s1] f t by simp
    then have "fire_script c now i due nxt att to s = (Inr b, t\<lparr>q_scheds := zadd (int (parse_nat nxt)) i (q_scheds s)\<rparr>)"
      using True f t unfolding fire_script_def Inr j_def by simp
    moreover have "scored_at i due s" using True f by (simp add: scored_at_def)
    ultimately show ?thesis using fires [OF Inr] True f t unfolding j_def by simp
  next
    case False
    then have "fire_script c now i due nxt att to s = (if \<not> later due nxt then Inl ERR_NEXT else Inr False, s1)"
      using Inr by (auto simp: fire_script_def)
    then show ?thesis using stays [OF Inr] by simp
  qed
qed

lemma scored_at_iff: "scored_at i due s \<longleftrightarrow> zscore (q_scheds s) i = Some (int (parse_nat due))"
  by (auto simp: scored_at_def split: option.splits)

lemma fire_True:
  assumes "fire_script c now i due nxt att to s = (Inr True, s')"
  shows "zscore (q_scheds s) i = Some (int (parse_nat due)) \<and> int (parse_nat due) \<le> now
    \<and> zscore (q_scheds s') i = Some (int (parse_nat nxt)) \<and> parse_nat due < parse_nat nxt"
proof (cases rule: fire_cases [of c now i due nxt att to s])
  case (fires s1)
  define t where "t = snd (add_job c (q_paused s1) now (occurrence i due (or_empty (hget (q_shash s i) SData)) att to) s1)"
  have "s' = t\<lparr>q_scheds := zadd (int (parse_nat nxt)) i (q_scheds s)\<rparr>"
    using assms unfolding fires(6) t_def by simp
  then show ?thesis using fires(2-4) by (simp add: scored_at_iff later_def)
qed (use assms in auto)

lemma fire_scheds:
  "q_scheds (snd (fire_script c now i due nxt att to s)) = q_scheds s \<or>
   (zscore (q_scheds s) i = Some (int (parse_nat due)) \<and> parse_nat due < parse_nat nxt \<and>
    q_scheds (snd (fire_script c now i due nxt att to s)) = zadd (int (parse_nat nxt)) i (q_scheds s))"
proof (cases rule: fire_cases [of c now i due nxt att to s])
  case (fires s1)
  then show ?thesis unfolding fires(6) by (simp add: scored_at_iff later_def)
qed (auto dest: mode_check_frame)

lemma defer_scheds:
  "q_scheds (snd (defer_script i due nxt s)) = q_scheds s \<or>
   (zscore (q_scheds s) i = Some (int (parse_nat due)) \<and> parse_nat due < parse_nat nxt \<and>
    q_scheds (snd (defer_script i due nxt s)) = zadd (int (parse_nat nxt)) i (q_scheds s))"
  by (auto simp: defer_script_def later_def scored_at_def split: if_splits option.splits)

text \<open>A call a worker makes for a due schedule, on whatever clock and with whatever arguments.\<close>

datatype round_call = Fire qcfg int string string string nat int | Defer string string string

fun round_step :: "round_call \<Rightarrow> qstate \<Rightarrow> bool result \<times> qstate" where
  "round_step (Fire c now i due nxt att to) s = fire_script c now i due nxt att to s"
| "round_step (Defer i due until) s = defer_script i due until s"

text \<open>The calls in the order they reach the server, and how many of them fired \<open>due\<close> of \<open>i\<close>.\<close>

fun fired :: "string \<Rightarrow> nat \<Rightarrow> round_call list \<Rightarrow> qstate \<Rightarrow> nat" where
  "fired i d [] s = 0"
| "fired i d (k # ks) s = (case round_step k s of (r, s') \<Rightarrow>
     (case k of Fire c now j due nxt att to \<Rightarrow> if j = i \<and> parse_nat due = d \<and> r = Inr True then 1 else 0 | _ \<Rightarrow> 0)
     + fired i d ks s')"

lemma round_score:
  assumes "zscore (q_scheds s) i = Some sc"
  shows "\<exists>sc'. zscore (q_scheds (snd (round_step k s))) i = Some sc' \<and> sc \<le> sc'"
proof (cases k)
  case (Fire c now j due nxt att to)
  then show ?thesis using fire_scheds [of c now j due nxt att to s] assms by (cases "j = i") auto
next
  case (Defer j due until)
  then show ?thesis using defer_scheds [of j due until s] assms by (cases "j = i") auto
qed

lemma fired_past:
  "zscore (q_scheds s) i = Some sc \<Longrightarrow> int d < sc \<Longrightarrow> fired i d ks s = 0"
proof (induction ks arbitrary: s sc)
  case (Cons k ks)
  obtain r s' where k: "round_step k s = (r, s')" by fastforce
  obtain sc' where "zscore (q_scheds s') i = Some sc'" "sc \<le> sc'"
    using round_score [OF Cons.prems(1), of k] k by auto
  then have "fired i d ks s' = 0" using Cons by auto
  moreover have "\<not> (j = i \<and> parse_nat due = d \<and> r = Inr True)" if "k = Fire c now j due nxt att to" for c now j due nxt att to
    using that k Cons.prems fire_True [of c now j due nxt att to s s'] by auto
  ultimately show ?case using k by (auto split: round_call.splits)
qed simp

lemma fired_once: "fired i d ks s \<le> 1"
proof (induction ks arbitrary: s)
  case (Cons k ks)
  obtain r s' where k: "round_step k s = (r, s')" by fastforce
  show ?case
  proof (cases "\<exists>c now due nxt att to. k = Fire c now i due nxt att to \<and> parse_nat due = d \<and> r = Inr True")
    case True
    then obtain c now due nxt att to where f: "k = Fire c now i due nxt att to" "parse_nat due = d" "r = Inr True" by blast
    with k have "fire_script c now i due nxt att to s = (Inr True, s')" by simp
    from fire_True [OF this] f(2) have "fired i d ks s' = 0" using fired_past by fastforce
    then show ?thesis using k f by simp
  next
    case False
    then have "fired i d (k # ks) s = fired i d ks s'" using k by (auto split: round_call.splits)
    then show ?thesis using Cons.IH by simp
  qed
qed simp

section \<open>What a sync leaves\<close>

text \<open>Every schedule a definition owns is in the set of the definition's ids, which only \<open>SYNC\<close> writes.\<close>

definition defs_listed :: "qstate \<Rightarrow> bool" where
  "defs_listed s = (distinct (q_sdef s) \<and>
     (\<forall>i. hget (q_shash s i) SOrigin = Some ''definition'' \<longrightarrow> i \<in> set (q_sdef s)))"

lemma hget_sched_hash: "hget (sched_hash a origin) f = (case f of SKind \<Rightarrow> Some (s_kind a) | SSpec \<Rightarrow> Some (s_spec a)
    | SData \<Rightarrow> Some (s_data a) | SOrigin \<Rightarrow> Some origin
    | SZone \<Rightarrow> if s_kind a = ''cron'' then Some (s_zone a) else None)"
  by (cases f) (simp_all add: sched_hash_def Let_def)

lemma sync_one_keys:
  "q_shash (sync_one a s) = (q_shash s)(s_id a := sched_hash a ''definition'')"
  "set (q_sdef (sync_one a s)) = insert (s_id a) (set (q_sdef s))"
  "distinct (q_sdef s) \<Longrightarrow> distinct (q_sdef (sync_one a s))"
  by (auto simp: sync_one_def write_sched_def Let_def)

lemma sync_fold_keys:
  "set (q_sdef (foldl (\<lambda>s a. sync_one a s) s args)) = set (q_sdef s) \<union> set (map s_id args)"
  "distinct (q_sdef s) \<Longrightarrow> distinct (q_sdef (foldl (\<lambda>s a. sync_one a s) s args))"
  "i \<notin> set (map s_id args) \<Longrightarrow> q_shash (foldl (\<lambda>s a. sync_one a s) s args) i = q_shash s i"
  "i \<in> set (map s_id args) \<Longrightarrow> \<exists>a \<in> set args. s_id a = i \<and> q_shash (foldl (\<lambda>s a. sync_one a s) s args) i = sched_hash a ''definition''"
proof (induction args arbitrary: s rule: rev_induct)
  case (snoc a args)
  {
    case 1
    show ?case using snoc.IH(1) [of s] by (auto simp: sync_one_keys)
  next
    case 2
    then show ?case using snoc.IH(2) by (simp add: sync_one_keys)
  next
    case 3
    then show ?case using snoc.IH(3) by (simp add: sync_one_keys)
  next
    case 4
    then show ?case using snoc.IH(4) [of s] by (cases "i = s_id a") (auto simp: sync_one_keys)
  }
qed simp_all

text \<open>What the sweep of \<open>ids\<close> leaves: the ids of the list, and no hash the definition owns outside it.\<close>

definition swept :: "string set \<Rightarrow> string list \<Rightarrow> qstate \<Rightarrow> qstate \<Rightarrow> bool" where
  "swept l ids s s' = (set (q_sdef s') = set (q_sdef s) - (set ids - l)
     \<and> (\<forall>i. q_shash s' i = (if i \<in> set ids - l \<and> hget (q_shash s i) SOrigin = Some ''definition'' then [] else q_shash s i))
     \<and> (\<forall>i. zscore (q_scheds s') i = (if i \<in> set ids - l \<and> hget (q_shash s i) SOrigin = Some ''definition'' then None else zscore (q_scheds s) i))
     \<and> (distinct (q_sdef s) \<longrightarrow> distinct (q_sdef s')))"

lemma swept_one: "swept l [j] s (snd (sweep_one l j (n, s)))"
  by (auto simp: swept_def sweep_one_def Let_def distinct_removeAll)

lemma swept_Cons:
  assumes a: "swept l [j] s t" and b: "swept l ids t u"
  shows "swept l (j # ids) s u"
proof -
  note a = a [unfolded swept_def] and b = b [unfolded swept_def]
  have h: "q_shash t i = (if i = j \<and> j \<notin> l \<and> hget (q_shash s i) SOrigin = Some ''definition'' then [] else q_shash s i)" for i
    using a by auto
  have d: "hget (q_shash t i) SOrigin = Some ''definition'' \<longleftrightarrow>
      \<not> (i = j \<and> j \<notin> l) \<and> hget (q_shash s i) SOrigin = Some ''definition''" for i
    by (auto simp: h)
  show ?thesis unfolding swept_def
  proof (intro conjI allI)
    show "set (q_sdef u) = set (q_sdef s) - (set (j # ids) - l)" using a b by auto
    show "q_shash u i = (if i \<in> set (j # ids) - l \<and> hget (q_shash s i) SOrigin = Some ''definition'' then [] else q_shash s i)" for i
      using b by (simp add: d) (auto simp: h)
    show "zscore (q_scheds u) i = (if i \<in> set (j # ids) - l \<and> hget (q_shash s i) SOrigin = Some ''definition'' then None else zscore (q_scheds s) i)" for i
    proof -
      have "zscore (q_scheds t) i = (if i = j \<and> j \<notin> l \<and> hget (q_shash s i) SOrigin = Some ''definition'' then None else zscore (q_scheds s) i)"
        by (cases "i = j") (use a in auto)
      then show ?thesis using b by (simp add: d) auto
    qed
    show "distinct (q_sdef s) \<longrightarrow> distinct (q_sdef u)" using a b by simp
  qed
qed

lemma swept_Nil: "swept l [] s s"
  by (simp add: swept_def)

lemma sweep_fold: "swept l ids s (snd (foldl (\<lambda>acc i. sweep_one l i acc) (n, s) ids))"
proof (induction ids arbitrary: n s)
  case (Cons j ids)
  obtain n1 s1 where j: "sweep_one l j (n, s) = (n1, s1)" by fastforce
  then have "swept l [j] s s1" using swept_one [of l j s n] by simp
  from swept_Cons [OF this Cons.IH [of s1 n1]] show ?case by (simp add: j)
qed (simp add: swept_Nil)

end
