(* ===== verification/Queue_System.thy ===== *)
theory Queue_System
  imports Queue_Schedule
begin

text \<open>
  The queue as a state machine: any process may run any script at any time, each under its own
  configuration and clock (Redis runs one script at a time), and a blocked worker may take the wake
  token. Whatever the order, the invariant holds: every reachable state has each job in exactly the
  set its state names, the groups' four invariants and the cap, and at most one wake token.
\<close>

section \<open>The calls\<close>

datatype qcall =
    CAdd qcfg int "job_spec list"
  | CClaim qcfg int int "string list" "rate option"
  | CComplete qcfg int string string int int int string string "rate option"
  | CFail qcfg int string string string int int int string "rate option"
  | CRelease qcfg "(string \<times> string) list"
  | CRenew int int "(string \<times> string) list"
  | CStepBegin int string string int string
  | CStepCommit int string string string string
  | CProgress string string string
  | CPause
  | CResume qcfg
  | CRetry qcfg int string bool
  | CRemove qcfg string
  | CCancel qcfg string
  | CUpsert sched_arg
  | CUnschedule string
  | CFire qcfg int string string string nat int
  | CDefer string string string
  | CSync "sched_arg list"
  | CTakeWake

fun exec :: "qcall \<Rightarrow> qstate \<Rightarrow> qstate" where
  "exec (CAdd c now js) s = snd (add_script c now js s)"
| "exec (CClaim c us lease tokens rt) s = snd (claim_script c us lease tokens rt s)"
| "exec (CComplete c us i t keepAge keepCount lease ct res rt) s = snd (complete_script c us i t keepAge keepCount lease ct res rt s)"
| "exec (CFail c us i t err retryIn keepFailed lease ct rt) s = snd (fail_script c us i t err retryIn keepFailed lease ct rt s)"
| "exec (CRelease c jobs) s = snd (release_script c jobs s)"
| "exec (CRenew now lease es) s = snd (renew_script now lease es s)"
| "exec (CStepBegin now t nm lease i) s = snd (step_begin now t nm lease i s)"
| "exec (CStepCommit now t nm json i) s = snd (step_commit now t nm json i s)"
| "exec (CProgress i t v) s = snd (progress_script i t v s)"
| "exec CPause s = pause_script s"
| "exec (CResume c) s = snd (resume_script c s)"
| "exec (CRetry c now i fresh) s = snd (retry_script c now i fresh s)"
| "exec (CRemove c i) s = snd (remove_script c i s)"
| "exec (CCancel c i) s = snd (cancel_script c i s)"
| "exec (CUpsert a) s = snd (upsert_script a s)"
| "exec (CUnschedule i) s = snd (unschedule_script i s)"
| "exec (CFire c now i due nxt att to) s = snd (fire_script c now i due nxt att to s)"
| "exec (CDefer i due until) s = snd (defer_script i due until s)"
| "exec (CSync args) s = snd (sync_script args s)"
| "exec CTakeWake s = s\<lparr>q_wake := q_wake s - 1\<rparr>"

text \<open>What the clients check before a call: the jobs they add, the attempts and timeout they fire with.\<close>

fun call_ok :: "qcall \<Rightarrow> bool" where
  "call_ok (CAdd c now js) = list_all spec_ok js"
| "call_ok (CFire c now i due nxt att to) = (att \<ge> 1 \<and> (to = -1 \<or> (1 \<le> to \<and> to < 10 ^ 15)))"
| "call_ok k = True"

inductive reachable :: "qstate \<Rightarrow> bool" where
  reach_start: "reachable empty_queue"
| reach_call: "reachable s \<Longrightarrow> call_ok k \<Longrightarrow> reachable (exec k s)"

section \<open>The invariant of the whole queue\<close>

text \<open>The marker names the configuration the keys are kept under; without one the queue is empty of jobs.\<close>

definition modal :: "qstate \<Rightarrow> bool" where
  "modal s = (case q_mode s of None \<Rightarrow> (\<forall>c. qinv c {} {} s)
     | Some m \<Rightarrow> (\<exists>c. m = mode_text c \<and> qinv c {} {} s))"

definition queue_inv :: "qstate \<Rightarrow> bool" where
  "queue_inv s = (modal s \<and> defs_listed s \<and> q_wake s \<le> 1)"

text \<open>What a job's script keeps of the schedules, the marker and the wake list.\<close>

definition kept :: "qstate \<Rightarrow> qstate \<Rightarrow> bool" where
  "kept s s' = (q_shash s' = q_shash s \<and> q_sdef s' = q_sdef s \<and> q_mode s' = q_mode s \<and> (q_wake s \<le> 1 \<longrightarrow> q_wake s' \<le> 1))"

lemma kept_outer: "outer s' = outer s \<Longrightarrow> kept s s'"
  by (auto simp: kept_def dest: outerD)

lemma kept_trans: "kept s t \<Longrightarrow> kept t u \<Longrightarrow> kept s u"
  by (simp add: kept_def)

lemma kept_refl [simp]: "kept s s"
  by (simp add: kept_def)

lemma kept_wake: "kept s t \<Longrightarrow> kept s (wake t)"
  using kept_trans kept_outer outer_state(7) by blast

lemma queue_inv_step:
  assumes "queue_inv s" and "kept s s'" and "\<And>c. qinv c {} {} s \<Longrightarrow> qinv c {} {} s'"
  shows "queue_inv s'"
  using assms by (auto simp: queue_inv_def kept_def modal_def defs_listed_def split: option.splits)

lemma queue_inv_guarded:
  assumes "queue_inv s" and "\<And>t. kept t (snd (body t))" and "\<And>t. qinv c {} {} t \<Longrightarrow> qinv c {} {} (snd (body t))"
  shows "queue_inv (snd (guarded c body s))"
proof (cases "mode_check c s")
  case (Inl e)
  then show ?thesis using assms(1) by (simp add: guarded_def)
next
  case (Inr t)
  have t: "qinv c {} {} t \<and> q_mode t = Some (mode_text c) \<and> q_shash t = q_shash s \<and> q_sdef t = q_sdef s \<and> q_wake t = q_wake s"
  proof (cases "q_mode s")
    case None
    then show ?thesis using Inr assms(1) by (auto simp: mode_check_def queue_inv_def modal_def)
  next
    case (Some m)
    then have "t = s" and m: "m = mode_text c" using Inr by (auto simp: mode_check_def split: if_splits)
    moreover obtain d where "m = mode_text d" "qinv d {} {} s" using Some assms(1) by (auto simp: queue_inv_def modal_def)
    ultimately show ?thesis using Some qinv_same_mode [of d c "{}" "{}" s] by (auto simp: mode_text_inj)
  qed
  obtain r u where u: "body t = (r, u)" by fastforce
  with t assms(2,3) [of t] have "qinv c {} {} u" "kept t u" by auto
  then have "queue_inv u" using t assms(1) by (auto simp: queue_inv_def kept_def modal_def defs_listed_def)
  then show ?thesis using Inr u by (simp add: guarded_def)
qed

section \<open>Every call keeps it\<close>

lemma outer_drop_ids [frame_simps]: "outer (drop_ids p ids s) = outer s"
  unfolding drop_ids_def
  by (rule foldl_invariant [where P = "\<lambda>t. outer t = outer s"]) (simp_all add: frame_simps)

lemma outer_trim [frame_simps]: "outer (trim p now age count s) = outer s"
  by (simp add: trim_def Let_def frame_simps)

lemma outer_complete_job: "outer (snd (snd (complete_job c now i t keepAge keepCount res s))) = outer s"
  by (simp add: complete_job_def Let_def split_beta frame_simps)

lemma outer_fail_job: "outer (snd (snd (snd (snd (fail_job c now i t err retryIn keepFailed s))))) = outer s"
  by (simp add: fail_job_def Let_def split_beta frame_simps)

lemma kept_claim_or_wake: "kept s (snd (claim_or_wake c us lease ct rt freed s))"
proof -
  obtain rep s' where cl: "claim c us 1 lease [ct] rt s = (rep, s')" by fastforce
  then have "kept s s'" using claim_keys [OF cl] by (simp add: kept_def)
  then show ?thesis using cl kept_wake [OF kept_refl, of s] by (simp add: claim_or_wake_def)
qed

lemma complete_body:
  fixes c us i t keepAge keepCount lease ct res rt
  defines "body \<equiv> \<lambda>s. let (settled, freed, s) = complete_job c (us div 1000) i t keepAge keepCount res s;
         (cl, s) = claim_or_wake c us lease ct rt freed s
     in (\<lparr>sr_settled = settled, sr_final = settled, sr_claim = cl\<rparr>, s)"
  shows "kept s (snd (body s))" and "qinv c {} {} s \<Longrightarrow> qinv c {} {} (snd (body s))"
proof -
  obtain st fr u where u: "complete_job c (us div 1000) i t keepAge keepCount res s = (st, fr, u)" by (metis prod_cases3)
  have e: "snd (body s) = snd (claim_or_wake c us lease ct rt fr u)" by (simp add: body_def u split_beta)
  have "kept s u" using outer_complete_job [of c "us div 1000" i t keepAge keepCount res s] u by (simp add: kept_outer)
  then show "kept s (snd (body s))" unfolding e using kept_trans kept_claim_or_wake by blast
  show "qinv c {} {} (snd (body s))" if "qinv c {} {} s"
    unfolding e using complete_job_inv [OF that, of "us div 1000" i t keepAge keepCount res] u by (simp add: claim_or_wake_inv)
qed

lemma fail_body:
  fixes c us i t err retryIn keepFailed lease ct rt
  defines "body \<equiv> \<lambda>s. let (settled, final, freed, headWake, s) = fail_job c (us div 1000) i t err retryIn keepFailed s;
         (cl, s) = claim_or_wake c us lease ct rt freed s;
         s = (if headWake \<and> z_has Delayed i s then wake s else s)
     in (\<lparr>sr_settled = settled, sr_final = final, sr_claim = cl\<rparr>, s)"
  shows "kept s (snd (body s))" and "qinv c {} {} s \<Longrightarrow> qinv c {} {} (snd (body s))"
proof -
  obtain st fi fr hw u where u: "fail_job c (us div 1000) i t err retryIn keepFailed s = (st, fi, fr, hw, u)" by (metis prod_cases5)
  define v where "v = snd (claim_or_wake c us lease ct rt fr u)"
  have e: "snd (body s) = (if hw \<and> z_has Delayed i v then wake v else v)" by (simp add: body_def u split_beta v_def)
  have "kept s u" using outer_fail_job [of c "us div 1000" i t err retryIn keepFailed s] u by (simp add: kept_outer)
  then have "kept s v" unfolding v_def using kept_trans kept_claim_or_wake by blast
  then show "kept s (snd (body s))" unfolding e using kept_wake by simp
  show "qinv c {} {} (snd (body s))" if "qinv c {} {} s"
    unfolding e v_def using fail_job_inv [OF that, of "us div 1000" i t err retryIn keepFailed] u by (simp add: claim_or_wake_inv)
qed

lemma kept_release_all: "outer (snd (snd (foldl (\<lambda>acc it. release_one c it acc) acc jobs))) = outer (snd (snd acc))"
proof (rule foldl_invariant [where P = "\<lambda>a. outer (snd (snd a)) = outer (snd (snd acc))"])
  fix a :: "string list \<times> bool \<times> qstate" and it assume "outer (snd (snd a)) = outer (snd (snd acc))"
  moreover obtain x y s where "a = (x, y, s)" by (metis prod_cases3)
  ultimately show "outer (snd (snd (release_one c it a))) = outer (snd (snd acc))"
    by (cases it) (simp add: release_one_def Let_def split_beta frame_simps)
qed simp

lemma outer_retry_job: "outer (snd (retry_job c now i fresh s)) = outer s"
  by (simp add: retry_job_def retry_move_def retry_hash_def Let_def split_beta frame_simps)

lemma outer_remove_job: "outer (snd (remove_job c i s)) = outer s"
  by (simp add: remove_job_def Let_def frame_simps)

lemma outer_events: "outer (s\<lparr>q_events := e\<rparr>) = outer s"
  by (simp add: outer_def)

lemma outer_cancel_job: "outer (snd (cancel_job c i s)) = outer s"
  by (simp add: cancel_job_def Let_def split_beta frame_simps outer_events split: option.splits)

lemma renew_all_outer: "outer (snd (renew_script now lease es s)) = outer s"
  unfolding renew_script_def
  by (rule foldl_invariant [where P = "\<lambda>a. outer (snd a) = outer s"]) (auto simp: renew_one_def Let_def split_beta frame_simps)

lemma outer_step_begin: "outer (snd (step_begin now t nm lease i s)) = outer s"
  by (simp add: step_begin_def frame_simps split: option.splits)

lemma queue_inv_scheds: "queue_inv (s\<lparr>q_scheds := z\<rparr>) = queue_inv s"
  by (simp add: queue_inv_def modal_def defs_listed_def split: option.splits)

lemma queue_inv_fire:
  assumes "queue_inv s" and "att \<ge> 1" and "to = -1 \<or> (1 \<le> to \<and> to < 10 ^ 15)"
  shows "queue_inv (snd (fire_script c now i due nxt att to s))"
proof (cases rule: fire_cases [of c now i due nxt att to s])
  case (stays r s1)
  have "queue_inv (snd (guarded c (\<lambda>s. ((), s)) s))" by (rule queue_inv_guarded [OF assms(1)]) simp_all
  then show ?thesis using stays by (simp add: guarded_def)
next
  case (fires s1)
  define j where "j = occurrence i due (or_empty (hget (q_shash s i) SData)) att to"
  have "queue_inv (snd (guarded c (add_job c (q_paused s1) now j) s))"
    by (rule queue_inv_guarded [OF assms(1)])
      (use assms(2,3) in \<open>simp_all add: kept_outer frame_simps add_job_inv j_def occurrence_ok\<close>)
  then have "queue_inv (snd (add_job c (q_paused s1) now j s1))" using fires(1) by (simp add: guarded_def split_beta)
  then show ?thesis unfolding fires(6) j_def by (simp add: queue_inv_scheds)
qed (use assms in simp)

lemma queue_inv_sync:
  assumes q: "queue_inv s"
  shows "queue_inv (snd (sync_script args s))"
proof (cases "length args > 1000 \<or> length (q_sdef s) > 2000")
  case False
  define t where "t = foldl (\<lambda>s a. sync_one a s) s args"
  obtain n u where u: "foldl (\<lambda>acc i. sweep_one (set (map s_id args)) i acc) (0, t) (q_sdef t) = (n, u)" by fastforce
  have e: "snd (sync_script args s) = u" using False u by (simp add: sync_script_def t_def)
  have sw: "swept (set (map s_id args)) (q_sdef t) t u" using sweep_fold [of "set (map s_id args)" "q_sdef t" t 0] u by simp
  have mw: "q_mode u = q_mode s \<and> q_wake u = q_wake s"
  proof -
    have "q_mode t = q_mode s \<and> q_wake t = q_wake s" unfolding t_def
      by (rule foldl_invariant [where P = "\<lambda>a. q_mode a = q_mode s \<and> q_wake a = q_wake s"])
        (simp_all add: sync_one_def write_sched_def Let_def)
    moreover have "q_mode (snd (n, u)) = q_mode t \<and> q_wake (snd (n, u)) = q_wake t" unfolding u [symmetric]
      by (rule foldl_invariant [where P = "\<lambda>a. q_mode (snd a) = q_mode t \<and> q_wake (snd a) = q_wake t"])
        (simp_all add: sweep_one_def Let_def split_beta)
    ultimately show ?thesis by simp
  qed
  have "distinct (q_sdef t)" using q sync_fold_keys(2) by (simp add: t_def queue_inv_def defs_listed_def)
  moreover have "i \<in> set (q_sdef u)" if "hget (q_shash u i) SOrigin = Some ''definition''" for i
  proof -
    have nd: "\<not> (i \<in> set (q_sdef t) - set (map s_id args) \<and> hget (q_shash t i) SOrigin = Some ''definition'')"
      and same: "q_shash u i = q_shash t i" using that sw by (auto simp: swept_def split: if_splits)
    have "i \<in> set (q_sdef t)"
    proof (cases "i \<in> set (map s_id args)")
      case True
      then show ?thesis using sync_fold_keys(1) [of s args] by (simp add: t_def)
    next
      case False
      then have "q_shash t i = q_shash s i" using sync_fold_keys(3) by (simp add: t_def)
      then have "i \<in> set (q_sdef s)" using that same q by (simp add: queue_inv_def defs_listed_def)
      then show ?thesis using sync_fold_keys(1) [of s args] by (simp add: t_def)
    qed
    then show ?thesis using nd that same sw by (auto simp: swept_def)
  qed
  moreover have "distinct (q_sdef t) \<Longrightarrow> distinct (q_sdef u)" using sw unfolding swept_def by blast
  ultimately have "defs_listed u" unfolding defs_listed_def by blast
  moreover have "qinv c {} {} s \<Longrightarrow> qinv c {} {} u" for c using sync_inv [of c "{}" "{}" s args] e by simp
  ultimately show ?thesis using q mw unfolding e
    by (auto simp: queue_inv_def modal_def split: option.splits)
qed (use q in \<open>auto simp: sync_script_def\<close>)

theorem exec_keeps:
  assumes q: "queue_inv s" and ok: "call_ok k"
  shows "queue_inv (exec k s)"
proof (cases k)
  case (CAdd c now js)
  then show ?thesis using ok unfolding CAdd exec.simps add_script_def
    by (intro queue_inv_guarded [OF q]) (simp_all add: kept_outer frame_simps add_each_inv)
next
  case (CClaim c us lease tokens rt)
  show ?thesis unfolding CClaim exec.simps claim_script_def
  proof (rule queue_inv_guarded [OF q])
    fix t
    obtain rep t' where cl: "claim c us (length tokens) lease tokens (rate_of (rateArgs rt)) t = (rep, t')" by fastforce
    show "kept t (snd (claim c us (length tokens) lease tokens (rate_of (rateArgs rt)) t))"
      using claim_keys [OF cl] by (simp add: cl kept_def)
    show "qinv c {} {} (snd (claim c us (length tokens) lease tokens (rate_of (rateArgs rt)) t))" if "qinv c {} {} t"
      using claim_inv(1) [OF that le_refl cl] by (simp add: cl)
  qed
next
  case (CComplete c us i t keepAge keepCount lease ct res rt)
  show ?thesis unfolding CComplete exec.simps complete_script_def
    by (rule queue_inv_guarded [OF q]) (rule complete_body; assumption?)+
next
  case (CFail c us i t err retryIn keepFailed lease ct rt)
  show ?thesis unfolding CFail exec.simps fail_script_def
    by (rule queue_inv_guarded [OF q]) (rule fail_body; assumption?)+
next
  case (CRelease c jobs)
  show ?thesis unfolding CRelease exec.simps release_script_def
  proof (rule queue_inv_guarded [OF q])
    fix t
    obtain rel able u where u: "foldl (\<lambda>acc it. release_one c it acc) ([], False, t) jobs = (rel, able, u)" by (metis prod_cases3)
    let ?r = "let (released, claimable, s) = foldl (\<lambda>acc it. release_one c it acc) ([], False, t) jobs
      in (released, if claimable \<and> \<not> q_paused s then wake s else s)"
    have "outer u = outer t" using kept_release_all [of c "([], False, t)" jobs] u by simp
    then show "kept t (snd ?r)" using kept_outer kept_wake by (simp add: u)
    show "qinv c {} {} (snd ?r)" if "qinv c {} {} t"
      using release_all_inv [of c "([], False, t)" jobs] that u by simp
  qed
next
  case (CRenew now lease es)
  then show ?thesis using queue_inv_step [OF q, of "exec k s"] by (simp add: kept_outer renew_all_outer renew_inv)
next
  case (CStepBegin now t nm lease i)
  then show ?thesis using queue_inv_step [OF q, of "exec k s"] by (simp add: kept_outer outer_step_begin step_begin_inv)
next
  case (CStepCommit now t nm json i)
  have "outer (exec k s) = outer s" by (simp add: CStepCommit step_commit_def frame_simps)
  then show ?thesis using queue_inv_step [OF q, of "exec k s"] by (simp add: CStepCommit kept_outer step_commit_inv)
next
  case (CProgress i t v)
  have "outer (exec k s) = outer s" by (simp add: CProgress progress_script_def frame_simps)
  then show ?thesis using queue_inv_step [OF q, of "exec k s"] by (simp add: CProgress kept_outer progress_inv)
next
  case CPause
  then show ?thesis using queue_inv_step [OF q, of "exec k s"] by (simp add: pause_script_def kept_def)
next
  case (CResume c)
  show ?thesis unfolding CResume exec.simps resume_script_def
    by (rule queue_inv_guarded [OF q]) (simp_all add: Let_def kept_def wake_def)
next
  case (CRetry c now i fresh)
  show ?thesis unfolding CRetry exec.simps retry_script_def
    by (rule queue_inv_guarded [OF q]) (simp_all add: kept_outer outer_retry_job retry_job_inv)
next
  case (CRemove c i)
  show ?thesis unfolding CRemove exec.simps remove_script_def
    by (rule queue_inv_guarded [OF q]) (simp_all add: kept_outer outer_remove_job remove_job_inv)
next
  case (CCancel c i)
  show ?thesis unfolding CCancel exec.simps cancel_script_def
    by (rule queue_inv_guarded [OF q]) (simp_all add: kept_outer outer_cancel_job cancel_job_inv)
next
  case (CUpsert a)
  have "qinv c {} {} s \<Longrightarrow> qinv c {} {} (exec k s)" for c by (simp add: CUpsert upsert_inv)
  then show ?thesis using q
    by (auto simp: CUpsert upsert_script_def write_sched_def Let_def queue_inv_def modal_def defs_listed_def hget_sched_hash split: option.splits if_splits)
next
  case (CUnschedule i)
  have "qinv c {} {} s \<Longrightarrow> qinv c {} {} (exec k s)" for c by (simp add: CUnschedule unschedule_inv)
  then show ?thesis using q
    by (auto simp: CUnschedule unschedule_script_def Let_def queue_inv_def modal_def defs_listed_def split: option.splits if_splits)
next
  case (CFire c now i due nxt att to)
  then show ?thesis using ok queue_inv_fire [OF q] by simp
next
  case (CDefer i due until)
  have "qinv c {} {} s \<Longrightarrow> qinv c {} {} (exec k s)" for c by (simp add: CDefer defer_inv)
  then show ?thesis using q
    by (auto simp: CDefer defer_script_def queue_inv_def modal_def defs_listed_def split: option.splits if_splits)
next
  case (CSync args)
  then show ?thesis using queue_inv_sync [OF q] by simp
next
  case CTakeWake
  then show ?thesis using queue_inv_step [OF q, of "exec k s"] by (simp add: kept_def)
qed

lemma queue_inv_start: "queue_inv empty_queue"
proof -
  have "qinv c {} {} empty_queue" for c
    by (auto simp: qinv_def places_def h_get_def empty_queue_def groups_ok_def mirror_ok_def counts_ok_def rr_ok_def
        offered_def capped_def ungrouped_def held_of_def active_of_def)
  then show ?thesis by (auto simp: queue_inv_def modal_def defs_listed_def empty_queue_def)
qed

lemma reachable_inv: "reachable s \<Longrightarrow> queue_inv s"
  by (induction rule: reachable.induct) (simp_all add: queue_inv_start exec_keeps)

end
