(* ===== verification/Queue_Props.thy ===== *)
theory Queue_Props
  imports Queue_System
begin

text \<open>
  What the queue promises, over every order of calls from every process: where a job is, the
  groups' invariants and cap, what a claim hands out, the fence, the deduplication, the schedules
  and the rate. Each property has a small queue on which its hypotheses hold.
\<close>

section \<open>A small queue for the examples\<close>

definition ex_job :: "string \<Rightarrow> string \<Rightarrow> job_spec" where
  "ex_job i g = \<lparr>a_id = i, a_data = ''1'', a_priority = 0, a_attempts = 2, a_delay = 0, a_at = -1, a_timeout = -1,
     a_mode = NoDedupe, a_dkey = '''', a_ttl = 0, a_group = g\<rparr>"

abbreviation plain :: qcfg where
  "plain \<equiv> \<lparr>c_grouped = False, c_conc = 0\<rparr>"

abbreviation single :: qcfg where
  "single \<equiv> \<lparr>c_grouped = True, c_conc = 1\<rparr>"

definition ex_added :: qstate where
  "ex_added = exec (CAdd single 5 [ex_job ''a'' ''g'', ex_job ''b'' ''g'']) empty_queue"

definition ex_claimed :: qstate where
  "ex_claimed = exec (CClaim single 6000 100 [''t'', ''u''] None) ex_added"

lemma ex_added_reachable: "reachable ex_added"
  unfolding ex_added_def by (rule reach_call [OF reach_start]) code_simp

lemma ex_claimed_reachable: "reachable ex_claimed"
  unfolding ex_claimed_def by (rule reach_call [OF ex_added_reachable]) simp

lemma reachable_qinv:
  assumes "reachable s" and "q_mode s = Some (mode_text c)"
  shows "qinv c {} {} s"
proof -
  obtain d where d: "mode_text c = mode_text d" "qinv d {} {} s"
    using reachable_inv [OF assms(1)] assms(2) by (auto simp: queue_inv_def modal_def)
  then have "same_mode d c" by (metis mode_text_inj)
  then show ?thesis using qinv_same_mode d(2) by blast
qed

lemma reachable_places: "reachable s \<Longrightarrow> places {} s"
  using reachable_inv [of s] by (auto simp: queue_inv_def modal_def qinv_def split: option.splits)

lemma guarded_Inr:
  assumes "guarded c body s = (Inr r, s')"
  obtains t where "mode_check c s = Inr t" and "body t = (r, s')" and "q_zs t = q_zs s" and "q_jobs t = q_jobs s"
    and "q_rate t = q_rate s" and "q_paused t = q_paused s"
proof (cases "mode_check c s")
  case (Inr t)
  then have "body t = (r, s')" using assms by (simp add: guarded_def split_beta) (metis prod.collapse)
  moreover have "q_zs t = q_zs s \<and> q_jobs t = q_jobs s \<and> q_rate t = q_rate s \<and> q_paused t = q_paused s"
    using Inr by (auto simp: mode_check_def split: option.splits if_splits)
  ultimately show thesis using that Inr by simp
qed (use assms in \<open>simp add: guarded_def\<close>)

lemma reachable_checked:
  assumes "reachable s" and "mode_check c s = Inr t"
  shows "qinv c {} {} t"
proof -
  have "queue_inv (snd (guarded c (\<lambda>s. ((), s)) s))"
    by (rule queue_inv_guarded [OF reachable_inv [OF assms(1)]]) simp_all
  then have "queue_inv t" using assms(2) by (simp add: guarded_def)
  moreover have "q_mode t = Some (mode_text c)" using assms(2) by (auto simp: mode_check_def split: option.splits if_splits)
  ultimately obtain d where "mode_text c = mode_text d" "qinv d {} {} t" by (auto simp: queue_inv_def modal_def)
  then show ?thesis using qinv_same_mode [of d c] by (metis mode_text_inj)
qed

section \<open>Every job is in one place\<close>

text \<open>C1. No order of calls loses or duplicates a job: in every reachable state a job whose hash exists is
  in exactly one of the five sets, the one its state names, and a set holds no id without a hash.
  Such a job always passes the trust rule, holds a token exactly while it is active, and has
  attempts left exactly as its set says.\<close>

theorem job_in_one_place:
  assumes "reachable s"
  shows "(q_jobs s i \<noteq> [] \<longleftrightarrow> (\<exists>p. i \<in> zids (q_zs s p))) \<and>
    (\<forall>p. i \<in> zids (q_zs s p) \<longrightarrow> h_get s i FState = Some (place_text p) \<and> job_ok p (q_jobs s i) \<and>
        (\<forall>q. i \<in> zids (q_zs s q) \<longrightarrow> q = p))"
proof (intro conjI allI impI)
  note p = reachable_places [OF assms]
  show "q_jobs s i \<noteq> [] \<longleftrightarrow> (\<exists>p. i \<in> zids (q_zs s p))"
    using p places_in [OF p, of i] places_job(4) [OF p, of i] by (auto simp: places_def)
  fix k assume i: "i \<in> zids (q_zs s k)"
  show "h_get s i FState = Some (place_text k)" "job_ok k (q_jobs s i)" using places_job [OF p i] by simp_all
  show "q = k" if "i \<in> zids (q_zs s q)" for q using places_job(2) [OF p i] places_job(2) [OF p that] by simp
qed

theorem job_in_one_place_witness:
  "q_jobs ex_claimed ''a'' \<noteq> [] \<and> (\<exists>p. ''a'' \<in> zids (q_zs ex_claimed p)) \<and>
   h_get ex_claimed ''a'' FState = Some ''active'' \<and> job_ok Active (q_jobs ex_claimed ''a'')"
proof -
  have "''a'' \<in> zids (q_zs ex_claimed Active)" by code_simp
  then show ?thesis using job_in_one_place [OF ex_claimed_reachable, of "''a''"] by auto
qed

section \<open>Groups\<close>

text \<open>C8. The four invariants \<open>groups.ts\<close> states of a grouped queue hold in every reachable state,
  whatever processes with whatever configurations ran: the mirror, the counters, the round-robin
  list against its set, and every group with a ready job and a free slot is queued to be served.\<close>

theorem group_invariants:
  assumes "reachable s" and "q_mode s = Some (mode_text c)" and "c_grouped c"
  shows "(\<forall>g i. zscore (q_gready s g) i = (if group_of s i = g then zscore (q_zs s Ready) i else None))
    \<and> (\<forall>g. g \<noteq> '''' \<longrightarrow> held_of s g = card (active_of s g))
    \<and> distinct (q_glist s) \<and> set (q_glist s) = q_gqueued s
    \<and> (\<forall>g. q_gready s g \<noteq> [] \<longrightarrow> has_slot c s g \<longrightarrow> g \<in> q_gqueued s)"
proof -
  have g: "groups_ok c {} s" using reachable_qinv [OF assms(1,2)] by (simp add: qinv_def)
  then have "mirror_ok s" "counts_ok s" "rr_ok s" "offered c {} s" using assms(3) by (simp_all add: groups_ok_def)
  then show ?thesis unfolding mirror_ok_def counts_ok_def rr_ok_def offered_def by simp
qed

theorem group_invariants_witness:
  "held_of ex_claimed ''g'' = card (active_of ex_claimed ''g'') \<and> zscore (q_gready ex_claimed ''g'') ''b'' = Some 2"
proof -
  have m: "q_mode ex_claimed = Some (mode_text single)" by code_simp
  have "group_of ex_claimed ''b'' = ''g''" "zscore (q_zs ex_claimed Ready) ''b'' = Some 2" by code_simp+
  then show ?thesis using group_invariants [OF ex_claimed_reachable m] by simp
qed

text \<open>C3. The cap is never exceeded: in every reachable state of a queue with \<open>concurrency\<close> set, at most
  that many jobs of one named group are active.\<close>

theorem group_cap:
  assumes "reachable s" and "q_mode s = Some (mode_text c)" and "c_grouped c" and "c_conc c > 0" and "g \<noteq> ''''"
  shows "card {i. i \<in> zids (q_zs s Active) \<and> group_of s i = g} \<le> c_conc c"
proof -
  have "groups_ok c {} s" using reachable_qinv [OF assms(1,2)] by (simp add: qinv_def)
  then have "counts_ok s" "capped c s" using assms(3) by (simp_all add: groups_ok_def)
  then have "held_of s g = card (active_of s g)" "held_of s g \<le> c_conc c"
    using assms(4,5) unfolding counts_ok_def capped_def by presburger+
  then show ?thesis by (simp add: active_of_def)
qed

theorem group_cap_witness:
  "card {i. i \<in> zids (q_zs ex_claimed Active) \<and> group_of ex_claimed i = ''g''} \<le> 1"
proof -
  have m: "q_mode ex_claimed = Some (mode_text single)" by code_simp
  show ?thesis using group_cap [OF ex_claimed_reachable m, of "''g''"] by simp
qed

section \<open>Claims\<close>

text \<open>What a claim hands out of a job, by the hash the job had: its data, one more attempt, its limits.\<close>

definition given_of :: "field hash \<Rightarrow> string \<Rightarrow> string \<Rightarrow> claimed" where
  "given_of h i token = \<lparr>j_id = i, j_data = or_empty (hget h FData), j_attempt = attempt_of h + 1, j_attempts = attempts_of h,
     j_token = token, j_timeout = (case hget h FTimeout of None \<Rightarrow> -1 | Some t \<Rightarrow> int (parse_nat t))\<rparr>"

definition same_offer :: "field hash \<Rightarrow> field hash \<Rightarrow> bool" where
  "same_offer h h' = list_all (\<lambda>f. hget h f = hget h' f) [FData, FAttempt, FAttempts, FTimeout]"

lemma same_offer_refl [simp]: "same_offer h h"
  by (simp add: same_offer_def)

lemma same_offer_trans: "same_offer h h' \<Longrightarrow> same_offer h' h'' \<Longrightarrow> same_offer h h''"
  by (simp add: same_offer_def)

lemma given_fields [simp]: "j_id (given_of h i token) = i" "j_token (given_of h i token) = token"
  by (simp_all add: given_of_def)

lemma given_same: "same_offer h h' \<Longrightarrow> given_of h i token = given_of h' i token"
  by (simp add: same_offer_def given_of_def attempt_of_def attempts_of_def)

lemma offer_refuse: "same_offer (q_jobs (snd (refuse c now i (bad, s))) j) (q_jobs s j)"
  by (simp add: refuse_def Let_def same_offer_def)

lemma offer_reclaim: "same_offer (q_jobs (snd (snd (reclaim c now bad s))) j) (q_jobs s j)"
  unfolding reclaim_def
proof (rule foldl_invariant [where P = "\<lambda>acc. same_offer (q_jobs (snd (snd acc)) j) (q_jobs s j)"])
  fix acc :: "string list \<times> string list \<times> qstate" and p :: "int \<times> string"
  assume a: "same_offer (q_jobs (snd (snd acc)) j) (q_jobs s j)"
  have "same_offer (q_jobs (snd (snd (reclaim_one c now (snd p) acc))) j) (q_jobs (snd (snd acc)) j)"
    by (cases acc; cases "sound (q_jobs (snd (snd acc)) (snd p))")
      (simp_all add: reclaim_one_def Let_def split_beta offer_refuse, simp_all add: same_offer_def)
  then show "same_offer (q_jobs (snd (snd (reclaim_one c now (snd p) acc))) j) (q_jobs s j)" using a by (rule same_offer_trans)
qed simp

lemma offer_promote: "same_offer (q_jobs (snd (promote c now bad s)) j) (q_jobs s j)"
  unfolding promote_def
proof (rule foldl_invariant [where P = "\<lambda>acc. same_offer (q_jobs (snd acc) j) (q_jobs s j)"])
  fix acc :: "string list \<times> qstate" and p :: "int \<times> string"
  assume a: "same_offer (q_jobs (snd acc) j) (q_jobs s j)"
  have "same_offer (q_jobs (snd (promote_one c now (snd p) acc)) j) (q_jobs (snd acc) j)"
    by (cases acc; cases "sound (q_jobs (snd acc) (snd p))")
      (simp_all add: promote_one_def Let_def split_beta offer_refuse, simp_all add: same_offer_def)
  then show "same_offer (q_jobs (snd (promote_one c now (snd p) acc)) j) (q_jobs s j)" using a by (rule same_offer_trans)
qed simp

text \<open>While the jobs are popped, each of those begun is as its hash was, and the hash of every other still is.\<close>

definition begun_ok :: "(string \<Rightarrow> field hash) \<Rightarrow> claim_acc \<Rightarrow> bool" where
  "begun_ok before acc = (distinct (map j_id (fst acc)) \<longrightarrow>
     (\<forall>r \<in> set (fst acc). r = given_of (before (j_id r)) (j_id r) (j_token r))
     \<and> (\<forall>i. i \<notin> j_id ` set (fst acc) \<longrightarrow> same_offer (q_jobs (snd (snd acc)) i) (before i)))"

lemma begun_frame: "begun_ok before (jobs, bad, s) \<Longrightarrow> q_jobs t = q_jobs s \<Longrightarrow> begun_ok before (jobs, bad', t)"
  by (simp add: begun_ok_def)

lemma begun_begin:
  assumes "begun_ok before acc"
  shows "begun_ok before (begin_job c now lease tokens i g acc)"
proof -
  obtain jobs bad s where acc: "acc = (jobs, bad, s)" by (metis prod_cases3)
  show ?thesis
  proof (cases "sound (q_jobs s i)")
    case False
    then show ?thesis using assms offer_refuse [of c now i bad s]
      by (auto simp: acc begin_job_def Let_def begun_ok_def intro: same_offer_trans)
  next
    case True
    define r where "r = given_of (q_jobs s i) i (tokens ! length jobs)"
    obtain t where t: "begin_job c now lease tokens i g (jobs, bad, s) = (jobs @ [r], bad, t)"
      and jt: "\<And>j. j \<noteq> i \<Longrightarrow> q_jobs t j = q_jobs s j"
      using True by (simp add: begin_job_def Let_def r_def given_of_def)
    have r: "j_id r = i" "\<And>h. same_offer (q_jobs s i) h \<Longrightarrow> r = given_of h i (j_token r)"
      using given_same [of "q_jobs s i"] by (simp_all add: r_def)
    show ?thesis unfolding acc t begun_ok_def fst_conv snd_conv
    proof (intro impI conjI ballI allI)
      assume "distinct (map j_id (jobs @ [r]))"
      then have d: "distinct (map j_id jobs)" "i \<notin> j_id ` set jobs" using r(1) by auto
      then have old: "\<forall>x \<in> set jobs. x = given_of (before (j_id x)) (j_id x) (j_token x)"
        "\<forall>k. k \<notin> j_id ` set jobs \<longrightarrow> same_offer (q_jobs s k) (before k)"
        using assms by (simp_all add: acc begun_ok_def)
      then have "r = given_of (before i) i (j_token r)" using r(2) d(2) by blast
      then show "x = given_of (before (j_id x)) (j_id x) (j_token x)" if "x \<in> set (jobs @ [r])" for x
        using old(1) r(1) that by auto
      show "same_offer (q_jobs t k) (before k)" if "k \<notin> j_id ` set (jobs @ [r])" for k
        using old(2) jt [of k] r(1) that by auto
    qed
  qed
qed

lemma begun_groups: "begun_ok before acc \<Longrightarrow> begun_ok before (pop_groups takes n c now lease tokens got acc)"
proof (induction takes arbitrary: got acc)
  case (Suc k)
  obtain jobs bad s where acc: "acc = (jobs, bad, s)" by (metis prod_cases3)
  obtain go s1 where t: "rr_take s = (go, s1)" by fastforce
  have j1: "q_jobs s1 = q_jobs s" using t by (auto simp: rr_take_def split: list.splits)
  have same: "begun_ok before (jobs, bad, u)" if "q_jobs u = q_jobs s" for u
    using begun_frame [OF Suc.prems [unfolded acc] that] .
  show ?case
  proof (cases go)
    case None
    then show ?thesis using same [of s] same [OF j1] by (simp add: acc t)
  next
    case (Some g)
    obtain popped rest where p: "(if has_slot c s1 g then zpopmin 1 (q_gready s1 g) else ([], q_gready s1 g)) = (popped, rest)"
      by (metis prod.exhaust)
    show ?thesis
    proof (cases popped)
      case Nil
      then show ?thesis using Suc.IH [OF same [OF j1]] same [of s] by (simp add: acc t Some p)
    next
      case (Cons x xs)
      obtain sc i where x: "x = (sc, i)" by fastforce
      define u where "u = z_rem Ready i (s1\<lparr>q_gready := (q_gready s1)(g := rest)\<rparr>)"
      obtain j3 i3 s3 where b: "begin_job c now lease tokens i g (jobs, bad, u) = (j3, i3, s3)" by (metis prod_cases3)
      have "begun_ok before (jobs, bad, u)" by (rule same) (simp add: u_def j1)
      then have b3: "begun_ok before (j3, i3, s3)" using begun_begin b by metis
      then have "begun_ok before (j3, i3, if has_slot c s3 g \<and> q_gready s3 g \<noteq> [] then rr_push g s3 else s3)"
        using begun_frame by (simp add: rr_push_def)
      then show ?thesis using Suc.IH same [of s] by (simp add: acc t Some p Cons x b [unfolded u_def] Let_def)
    qed
  qed
qed simp

lemma begun_pop:
  assumes "begun_ok before ([], bad, s)"
  shows "begun_ok before (pop_jobs admit c now lease tokens bad s)"
proof -
  have "begun_ok before (pop_ready admit c now lease tokens ([], bad, s))"
    unfolding pop_ready_def Let_def split_conv zpopmin_def
    by (rule foldl_invariant [where P = "begun_ok before"])
      (use begun_frame [OF assms] in \<open>simp_all add: begun_begin\<close>)
  then show ?thesis using assms by (simp add: pop_jobs_def begun_groups)
qed

lemma claim_counts:
  assumes "claim c us n lease tokens rt s = (rep, s')" and "distinct (map j_id (cr_jobs rep))" and "r \<in> set (cr_jobs rep)"
  shows "r = given_of (q_jobs s (j_id r)) (j_id r) (j_token r)"
proof -
  from assms(1) obtain inv1 s1 inv2 s2 s3 where p:
    "reclaim c (us div 1000) [] s = (cr_stalled rep, inv1, s1)"
    "promote c (us div 1000) inv1 s1 = (inv2, s2)"
    "pop_jobs (admitted n (q_paused s2) us rt s2) c (us div 1000) lease tokens inv2 s2 = (cr_jobs rep, cr_invalid rep, s3)"
    by (rule claim_parts)
  have "same_offer (q_jobs s2 i) (q_jobs s i)" for i
    using same_offer_trans [OF offer_promote [of c "us div 1000" inv1 s1 i, unfolded p snd_conv]
      offer_reclaim [of c "us div 1000" "[]" s i, unfolded p snd_conv]] .
  then have "begun_ok (q_jobs s) ([], inv2, s2)" by (simp add: begun_ok_def)
  from begun_pop [OF this] have "begun_ok (q_jobs s) (cr_jobs rep, cr_invalid rep, s3)" unfolding p(3) [symmetric] .
  then show ?thesis using assms(2,3) by (simp add: begun_ok_def)
qed

text \<open>C9. A claim hands out at most a job per token, each under its own token: the job is then active with
  that token, its lease runs from now, and the data and the limits are those its hash had. The attempt handed
  out and stored is one more than the one its hash had, whatever brought the job to ready (a retry that came due
  or a lapsed lease as well), and within the job's attempts. No job the package wrote is ever refused as invalid.\<close>

theorem claim_hands_out:
  assumes "reachable s" and "claim_script c us lease tokens rt s = (Inr rep, s')"
  shows "cr_invalid rep = [] \<and> length (cr_jobs rep) \<le> length tokens
    \<and> map j_token (cr_jobs rep) = take (length (cr_jobs rep)) tokens \<and> distinct (map j_id (cr_jobs rep))
    \<and> (\<forall>r \<in> set (cr_jobs rep). holds (us div 1000) lease r s' \<and> r = given_of (q_jobs s (j_id r)) (j_id r) (j_token r)
          \<and> attempt_of (q_jobs s' (j_id r)) = attempt_of (q_jobs s (j_id r)) + 1)"
proof -
  obtain t where t: "mode_check c s = Inr t" "claim c us (length tokens) lease tokens (rate_of (rateArgs rt)) t = (rep, s')"
    and jobs: "q_jobs t = q_jobs s"
    by (rule guarded_Inr [OF assms(2) [unfolded claim_script_def]])
  note i = claim_inv [OF reachable_checked [OF assms(1) t(1)] le_refl t(2)]
  have d: "distinct (map j_id (cr_jobs rep))" using i unfolding handed_def by blast
  have "r = given_of (q_jobs s (j_id r)) (j_id r) (j_token r)" "holds (us div 1000) lease r s'" if "r \<in> set (cr_jobs rep)" for r
    using claim_counts [OF t(2) d that] i that unfolding jobs handed_def by blast+
  moreover from this have "attempt_of (q_jobs s' (j_id r)) = attempt_of (q_jobs s (j_id r)) + 1" if "r \<in> set (cr_jobs rep)" for r
    using that unfolding holds_def given_of_def by (metis claimed.select_convs(3))
  ultimately show ?thesis using i unfolding handed_def by blast
qed

theorem claim_hands_out_witness:
  "map j_token (cr_jobs (projr (fst (claim_script single 6000 100 [''t'', ''u''] None ex_added)))) = [''t''] \<and>
   cr_invalid (projr (fst (claim_script single 6000 100 [''t'', ''u''] None ex_added))) = []"
proof -
  have l: "length (cr_jobs (projr (fst (claim_script single 6000 100 [''t'', ''u''] None ex_added)))) = 1"
    "isl (fst (claim_script single 6000 100 [''t'', ''u''] None ex_added)) = False" by code_simp+
  have "claim_script single 6000 100 [''t'', ''u''] None ex_added =
     (Inr (projr (fst (claim_script single 6000 100 [''t'', ''u''] None ex_added))), snd (claim_script single 6000 100 [''t'', ''u''] None ex_added))"
    using l(2) by (simp add: prod_eq_iff)
  from claim_hands_out [OF ex_added_reachable this] show ?thesis using l(1) by simp
qed

text \<open>C5. An unexpired lease is never taken away: a job whose lease ends at or after now keeps its hash,
  its token and its deadline through any claim by any worker.\<close>

theorem lease_not_reclaimed:
  assumes "reachable s" and "zscore (q_zs s Active) i = Some deadline" and "us div 1000 \<le> deadline"
  shows "q_jobs (snd (claim_script c us lease tokens rt s)) i = q_jobs s i
    \<and> zscore (q_zs (snd (claim_script c us lease tokens rt s)) Active) i = Some deadline"
proof (cases "fst (claim_script c us lease tokens rt s)")
  case (Inl e)
  then show ?thesis using assms(2) guarded_refused unfolding claim_script_def by metis
next
  case (Inr rep)
  then have "guarded c (claim c us (length tokens) lease tokens (rate_of (rateArgs rt))) s = (Inr rep, snd (claim_script c us lease tokens rt s))"
    by (simp add: claim_script_def prod_eq_iff)
  from guarded_Inr [OF this] obtain t where t: "mode_check c s = Inr t"
    "claim c us (length tokens) lease tokens (rate_of (rateArgs rt)) t = (rep, snd (claim_script c us lease tokens rt s))"
    "q_zs t = q_zs s" "q_jobs t = q_jobs s" by metis
  show ?thesis
    using claim_inv(5) [OF reachable_checked [OF assms(1) t(1)] le_refl t(2), of i deadline] assms(2,3) t(3,4) by simp
qed

theorem lease_not_reclaimed_witness:
  "h_get ex_claimed ''a'' FToken = Some ''t'' \<and>
   q_jobs (snd (claim_script single 106000 100 [''v''] None ex_claimed)) ''a'' = q_jobs ex_claimed ''a''"
proof -
  have "zscore (q_zs ex_claimed Active) ''a'' = Some 106" "h_get ex_claimed ''a'' FToken = Some ''t''" by code_simp+
  then show ?thesis using lease_not_reclaimed [OF ex_claimed_reachable, of "''a''" 106 106000 single 100 "[''v'']" None] by simp
qed

section \<open>The fence\<close>

text \<open>An entry of a \<open>RELEASE\<close> or a \<open>RENEW\<close> whose token the job's hash holds.\<close>

definition entry_held :: "qstate \<Rightarrow> string \<times> string \<Rightarrow> bool" where
  "entry_held s it = (h_get s (fst it) FToken = Some (snd it))"

lemma release_one_stale: "\<not> entry_held (snd (snd acc)) it \<Longrightarrow> release_one c it acc = acc"
  by (auto simp: release_one_def entry_held_def h_get_def Let_def split_beta)

lemma release_one_tokens:
  "entry_held (snd (snd (release_one c it acc))) e \<Longrightarrow> entry_held (snd (snd acc)) e"
proof (rule ccontr)
  assume e: "entry_held (snd (snd (release_one c it acc))) e" "\<not> entry_held (snd (snd acc)) e"
  obtain i token rel cl s where it: "it = (i, token)" "acc = (rel, cl, s)" by (metis prod_cases3 surj_pair)
  define f where "f = q_jobs s i"
  show False
  proof (cases "hget f FToken = Some token \<and> hget f FState = Some ''active'' \<and> sound f \<and> attempt_of f \<ge> 1")
    case False
    then have "release_one c it acc = acc" unfolding release_one_def it f_def Let_def split_conv by (rule if_not_P)
    then show False using e by simp
  next
    case True
    then have "q_jobs (snd (snd (release_one c it acc))) =
        (q_jobs s)(i := hdels [FToken] (hsets [(FState, ''waiting''), (FAttempt, show_nat (attempt_of f - 1))] f))"
      unfolding release_one_def it f_def Let_def split_conv split_beta by (auto simp: fun_eq_iff)
    then show False using e unfolding it entry_held_def h_get_def by (simp split: if_splits)
  qed
qed

lemma release_held_only:
  assumes "\<And>e. entry_held (snd (snd acc)) e \<Longrightarrow> entry_held s e"
  shows "foldl (\<lambda>acc it. release_one c it acc) acc jobs = foldl (\<lambda>acc it. release_one c it acc) acc (filter (entry_held s) jobs)"
  using assms
proof (induction jobs arbitrary: acc)
  case (Cons it jobs)
  have later: "\<And>e. entry_held (snd (snd (release_one c it acc))) e \<Longrightarrow> entry_held s e"
    using Cons.prems release_one_tokens by blast
  show ?case
  proof (cases "entry_held s it")
    case True
    then show ?thesis using Cons.IH [OF later] by simp
  next
    case False
    then have "release_one c it acc = acc" using Cons.prems release_one_stale by blast
    then show ?thesis using False Cons.IH [OF Cons.prems] by simp
  qed
qed simp

lemma renew_one_tokens: "entry_held (snd (renew_one until it acc)) = entry_held (snd acc)"
  by (auto simp: fun_eq_iff entry_held_def h_get_def renew_one_def Let_def split_beta)

lemma renew_one_cases:
  "renew_one until it (lost, s) = (if entry_held s it then (lost, snd (renew_one until it ([], s))) else (lost @ [fst it], s))"
  by (auto simp: renew_one_def entry_held_def Let_def split_beta)

lemma renew_held_only:
  assumes "entry_held s = entry_held s0"
  shows "foldl (\<lambda>acc it. renew_one until it acc) (lost, s) entries =
    (lost @ map fst (filter (\<lambda>e. \<not> entry_held s0 e) entries),
     snd (foldl (\<lambda>acc it. renew_one until it acc) ([], s) (filter (entry_held s0) entries)))"
  using assms
proof (induction entries arbitrary: lost s)
  case (Cons it entries)
  show ?case
  proof (cases "entry_held s0 it")
    case True
    define t where "t = snd (renew_one until it ([], s))"
    have "renew_one until it (l, s) = (l, t)" for l
      using True Cons.prems renew_one_cases [of until it l s] by (simp add: t_def)
    moreover have "entry_held t = entry_held s0" using renew_one_tokens [of until it "([], s)"] Cons.prems by (simp add: t_def)
    ultimately show ?thesis using True Cons.IH [of t] by simp
  next
    case False
    then have "renew_one until it (lost, s) = (lost @ [fst it], s)" using Cons.prems renew_one_cases [of until it lost s] by simp
    then show ?thesis using False Cons.IH [OF Cons.prems] by simp
  qed
qed simp

text \<open>The reply of a settle that took nothing, with the claim its free slot made: none without a claim token.\<close>

definition lost_settle :: "qcfg \<Rightarrow> int \<Rightarrow> int \<Rightarrow> string \<Rightarrow> rate option \<Rightarrow> qstate \<Rightarrow> settle_reply result \<times> qstate" where
  "lost_settle c us lease ctoken rt s =
     (if ctoken = '''' then (Inr \<lparr>sr_settled = False, sr_final = False, sr_claim = no_claim\<rparr>, s)
      else (case claim_script c us lease [ctoken] rt s of
          (Inr rep, t) \<Rightarrow> (Inr \<lparr>sr_settled = False, sr_final = False, sr_claim = rep\<rparr>, t)
        | (Inl e, t) \<Rightarrow> (Inl e, t)))"

text \<open>C4. A worker whose token no longer holds settles nothing: \<open>COMPLETE\<close> and \<open>FAIL\<close> say so and do exactly what a
  \<open>CLAIM\<close> of their claim token would have done to the queue, nothing at all without one; beginning or committing a
  step and reporting progress write nothing. In a \<open>RELEASE\<close> or a \<open>RENEW\<close> of any length, the entries whose token
  does not hold count for nothing: the queue is left as by the others alone, and a renewal reports exactly them lost.\<close>

theorem stale_token_changes_nothing:
  assumes "h_get s i FToken \<noteq> Some token" and "q_mode s = Some (mode_text c)"
  shows "complete_script c us i token keepAge keepCount lease ctoken res rt s = lost_settle c us lease ctoken rt s
    \<and> fail_script c us i token err retryIn keepFailed lease ctoken rt s = lost_settle c us lease ctoken rt s
    \<and> step_begin now token nm lease i s = (StepLost, s)
    \<and> step_commit now token nm json i s = (False, s)
    \<and> progress_script i token v s = (False, s)
    \<and> release_script c entries s = release_script c (filter (entry_held s) entries) s
    \<and> release_script c [(i, token)] s = (Inr [], s)
    \<and> renew_script now lease entries s =
        (map fst (filter (\<lambda>e. \<not> entry_held s e) entries), snd (renew_script now lease (filter (entry_held s) entries) s))
    \<and> renew_script now lease [(i, token)] s = ([i], s)"
proof (intro conjI)
  have m: "mode_check c s = Inr s" using assms(2) by (simp add: mode_check_def)
  show "complete_script c us i token keepAge keepCount lease ctoken res rt s = lost_settle c us lease ctoken rt s"
    using assms(1) by (simp add: complete_script_def claim_script_def lost_settle_def guarded_def m complete_job_def
        claim_or_wake_def Let_def split_beta)
  show "fail_script c us i token err retryIn keepFailed lease ctoken rt s = lost_settle c us lease ctoken rt s"
    using assms(1) by (simp add: fail_script_def claim_script_def lost_settle_def guarded_def m fail_job_def
        claim_or_wake_def Let_def split_beta)
  show "release_script c entries s = release_script c (filter (entry_held s) entries) s"
    using release_held_only [of "([], False, s)" s c entries] by (simp add: release_script_def guarded_def m)
  show "renew_script now lease entries s =
      (map fst (filter (\<lambda>e. \<not> entry_held s e) entries), snd (renew_script now lease (filter (entry_held s) entries) s))"
    using renew_held_only [of s s "now + lease" "[]" entries] by (simp add: renew_script_def)
qed (use assms in \<open>simp_all add: release_script_def guarded_def mode_check_def release_one_def renew_script_def renew_one_def
      step_begin_def step_commit_def held_step_def progress_script_def h_get_def Let_def\<close>)

theorem stale_token_changes_nothing_witness:
  "step_commit 7 ''stale'' ''s'' ''1'' ''a'' ex_claimed = (False, ex_claimed) \<and>
   complete_script single 7000 ''a'' ''stale'' 0 0 100 '''' '''' None ex_claimed =
      (Inr \<lparr>sr_settled = False, sr_final = False, sr_claim = no_claim\<rparr>, ex_claimed) \<and>
   snd (complete_script single 7000 ''a'' ''stale'' 0 0 100 ''u'' '''' None ex_claimed) =
      snd (claim_script single 7000 100 [''u''] None ex_claimed) \<and>
   fst (renew_script 7 100 [(''a'', ''t''), (''a'', ''stale'')] ex_claimed) = [''a'']"
proof -
  have h: "h_get ex_claimed ''a'' FToken \<noteq> Some ''stale''" "q_mode ex_claimed = Some (mode_text single)"
    and f: "filter (\<lambda>e. \<not> entry_held ex_claimed e) [(''a'', ''t''), (''a'', ''stale'')] = [(''a'', ''stale'')]" by code_simp+
  note st = stale_token_changes_nothing [OF h]
  have settle: "complete_script single 7000 ''a'' ''stale'' 0 0 100 ct '''' None ex_claimed = lost_settle single 7000 100 ct None ex_claimed" for ct
    by (rule st [THEN conjunct1])
  have step: "step_commit 7 ''stale'' ''s'' ''1'' ''a'' ex_claimed = (False, ex_claimed)"
    by (rule st [THEN conjunct2, THEN conjunct2, THEN conjunct2, THEN conjunct1])
  have renew: "renew_script 7 100 entries ex_claimed = (map fst (filter (\<lambda>e. \<not> entry_held ex_claimed e) entries),
      snd (renew_script 7 100 (filter (entry_held ex_claimed) entries) ex_claimed))" for entries
    by (rule st [THEN conjunct2, THEN conjunct2, THEN conjunct2, THEN conjunct2, THEN conjunct2, THEN conjunct2, THEN conjunct2, THEN conjunct1])
  have "lost_settle single 7000 100 '''' None ex_claimed =
      (Inr \<lparr>sr_settled = False, sr_final = False, sr_claim = no_claim\<rparr>, ex_claimed)"
    "snd (lost_settle single 7000 100 ''u'' None ex_claimed) = snd (claim_script single 7000 100 [''u''] None ex_claimed)"
    by (simp_all add: lost_settle_def split: prod.splits sum.splits)
  moreover have "fst (renew_script 7 100 [(''a'', ''t''), (''a'', ''stale'')] ex_claimed) = [''a'']"
    unfolding renew [of "[(''a'', ''t''), (''a'', ''stale'')]"] f by simp
  ultimately show ?thesis unfolding settle using step by simp
qed

section \<open>The rate\<close>

lemma claim_admitted:
  assumes q: "qinv c {} {} s" and n: "n \<le> length tokens" and r: "claim c us n lease tokens rt s = (rep, s')"
  shows "length (cr_jobs rep) \<le> admitted n (q_paused s) us rt s"
    and "q_rate s' = q_rate (charge us rt (length (cr_jobs rep)) s)"
proof -
  from r obtain inv1 s1 inv2 s2 s3 where p:
    "reclaim c (us div 1000) [] s = (cr_stalled rep, inv1, s1)"
    "promote c (us div 1000) inv1 s1 = (inv2, s2)"
    "pop_jobs (admitted n (q_paused s2) us rt s2) c (us div 1000) lease tokens inv2 s2 = (cr_jobs rep, cr_invalid rep, s3)"
    "s' = leave_token c (q_paused s2) (retry_wait c us rt (q_paused s2) (charge us rt (length (cr_jobs rep)) s3))
           (charge us rt (length (cr_jobs rep)) s3)"
    by (rule claim_parts)
  have "outer s1 = outer s" "outer s2 = outer s1" "outer s3 = outer s2"
    using outer_reclaim [of c "us div 1000" "[]" s] outer_promote [of c "us div 1000" inv1 s1]
      outer_pop_jobs [of "admitted n (q_paused s2) us rt s2" c "us div 1000" lease tokens inv2 s2]
    unfolding p(1-3) by simp_all
  then have "outer s2 = outer s" "outer s3 = outer s" by simp_all
  note o = outerD [OF this(1)] outerD [OF this(2)]
  have ad: "admitted n (q_paused s2) us rt s2 = admitted n (q_paused s) us rt s"
    using o by (simp add: admitted_def peek_rate_def split: option.splits)
  note i1 = reclaim_inv [OF q p(1)]
  note i2 = promote_inv [OF i1(1) p(2) [unfolded i1(2)]]
  have "admitted n (q_paused s2) us rt s2 \<le> length tokens" using admitted_le [of n "q_paused s2" us rt s2] n by simp
  from pop_jobs_inv [OF i2(1) this p(3) [unfolded i2(2)]]
  show "length (cr_jobs rep) \<le> admitted n (q_paused s) us rt s" by (simp add: ad)
  show "q_rate s' = q_rate (charge us rt (length (cr_jobs rep)) s)"
    using o by (simp add: p(4) leave_token_def wake_def charge_def split: option.splits)
qed

lemma peek_fits:
  assumes r: "rate_ok r" and us: "0 \<le> us" "us \<le> SAFE" and k: "0 < k" "k \<le> admitted n pz us (Some r) s"
  shows "int k \<le> burst r" and "int k * unit_of r \<le> tol_of r - klevel r us (q_rate s)"
proof -
  define free where "free = tol_of r - klevel r us (q_rate s)"
  have b: "1 \<le> burst r" using r by (simp add: rate_ok_def)
  have u: "0 < unit_of r" using rate_ok_unit [OF r] by simp
  have lvl: "0 \<le> klevel r us (q_rate s)" using klevel_bounds [OF r us] by simp
  have one: "rp_allowed (fst (gcra us r 1 False (q_rate s))) \<noteq> 0"
    "k \<le> nat (rp_remaining (fst (gcra us r 1 False (q_rate s))) + 1)"
    using k by (auto simp: admitted_def peek_rate_def Let_def split: if_splits)
  have e: "gcra us r 1 False (q_rate s) = (fst (gcra_exact us r 1 False (stored_state us (tol_of r) (limit r) (eget (us div 1000) (q_rate s)))), q_rate s)"
    using gcra_equals_exact [OF r us, of 1 False "q_rate s"] b by (simp add: split_beta Let_def)
  have "rp_remaining (fst (gcra us r 1 False (q_rate s))) \<le> (free - unit_of r) div unit_of r \<and> unit_of r \<le> free"
    using one(1) unfolding e by (auto simp: gcra_exact_def klevel_def free_def Let_def split_beta split: if_splits)
  then have "int k \<le> (free - unit_of r) div unit_of r + 1" using one(2) k(1) by linarith
  also have "\<dots> = free div unit_of r" using u div_add_self2 [of "unit_of r" "free - unit_of r"] by simp
  finally have kf: "int k \<le> free div unit_of r" .
  then have "int k * unit_of r \<le> free div unit_of r * unit_of r" using u by (intro mult_right_mono) simp_all
  also have "\<dots> \<le> free" using u by (metis le_add_same_cancel1 div_mult_mod_eq pos_mod_sign)
  finally show "int k * unit_of r \<le> tol_of r - klevel r us (q_rate s)" by (simp add: free_def)
  have "free div unit_of r \<le> tol_of r div unit_of r" using lvl u by (intro zdiv_mono1) (simp_all add: free_def)
  with kf u show "int k \<le> burst r" by (simp add: tol_of_def)
qed

text \<open>C10. The rate limit bounds the starts: whatever the size of the claim, the jobs it starts under the
  queue's rate fit in what the bucket holds (their charge, one write for all of them, is allowed), and
  the state left is the one of that charge. With the limiter's own bound, a queue never starts more jobs
  over a stretch of time, its clock not going back, than its burst and rate allow.\<close>

theorem claim_charges_what_fits:
  assumes "reachable s" and "q_mode s = Some (mode_text c)" and "bound_rate nm lim pr bst = Inr r"
    and "0 \<le> us" and "us \<le> SAFE"
    and "claim_script c us lease tokens (Some r) s = (Inr rep, s')"
  shows "(cr_jobs rep = [] \<and> q_rate s' = q_rate s) \<or>
    (rp_allowed (fst (gcra us r (int (length (cr_jobs rep))) True (q_rate s))) = 1
     \<and> q_rate s' = snd (gcra us r (int (length (cr_jobs rep))) True (q_rate s)))"
proof (cases "cr_jobs rep = []")
  case False
  note r = checked_rate_ok [OF assms(3)]
  have rt: "rate_of (rateArgs (Some r)) = Some r" using r by (simp add: rate_of_def rateArgs_def rate_ok_def)
  have cl: "claim c us (length tokens) lease tokens (Some r) s = (rep, s')"
    by (rule guarded_Inr [OF assms(6) [unfolded claim_script_def rt]]) (use assms(2) in \<open>simp add: mode_check_def\<close>)
  note a = claim_admitted [OF reachable_qinv [OF assms(1,2)] le_refl cl]
  have k: "0 < length (cr_jobs rep)" using False by simp
  note f = peek_fits [OF r assms(4,5) k a(1)]
  have "rp_allowed (fst (gcra us r (int (length (cr_jobs rep))) True (q_rate s))) = 1"
    using gcra_allowed_iff [OF r assms(4,5), of "int (length (cr_jobs rep))" True "q_rate s"] f by simp
  then show ?thesis using a(2) k by (simp add: charge_def)
next
  case True
  have rt: "rate_of (rateArgs (Some r)) = Some r" using checked_rate_ok [OF assms(3)] by (simp add: rate_of_def rateArgs_def rate_ok_def)
  have cl: "claim c us (length tokens) lease tokens (Some r) s = (rep, s')"
    by (rule guarded_Inr [OF assms(6) [unfolded claim_script_def rt]]) (use assms(2) in \<open>simp add: mode_check_def\<close>)
  show ?thesis using claim_admitted(2) [OF reachable_qinv [OF assms(1,2)] le_refl cl] True by (simp add: charge_def)
qed

theorem claim_charges_what_fits_witness:
  "\<exists>rep s'. claim_script single 6000 100 [''t'', ''u''] (Some \<lparr>limit = 1, per = 1000, burst = 1\<rparr>) ex_added = (Inr rep, s') \<and>
     (cr_jobs rep = [] \<or> rp_allowed (fst (gcra 6000 \<lparr>limit = 1, per = 1000, burst = 1\<rparr> (int (length (cr_jobs rep))) True (q_rate ex_added))) = 1)"
proof -
  let ?r = "\<lparr>limit = 1, per = 1000, burst = 1\<rparr>"
  let ?c = "claim_script single 6000 100 [''t'', ''u''] (Some ?r) ex_added"
  have h: "bound_rate ''api'' (Whole 1) (Whole 1000) None = Inr ?r"
    by (simp add: bound_rate_def checkRateValues_def MAX_BURST_PER_value fmul_exact SAFE_def MAX_REFILL_def
        fquot_gt_def fmant_def fscale.simps rhe_def Let_def)
  have m: "q_mode ex_added = Some (mode_text single)" by code_simp
  have c: "?c = (Inr (fst (claim single 6000 2 100 [''t'', ''u''] (Some ?r) ex_added)), snd (claim single 6000 2 100 [''t'', ''u''] (Some ?r) ex_added))"
    using m by (simp add: claim_script_def guarded_def mode_check_def split_beta rate_of_def rateArgs_def numeral_2_eq_2)
  show ?thesis using claim_charges_what_fits [OF ex_added_reachable m h _ _ c] c by (auto simp: SAFE_def)
qed

section \<open>Adding\<close>

text \<open>An id is added once: adding a job whose id has a hash, in the same call or any later one, answers
  that it existed and changes nothing.\<close>

theorem add_twice_is_once:
  assumes "a_mode j = NoDedupe" and "q_jobs s (a_id j) \<noteq> []" and "q_mode s = Some (mode_text c)"
  shows "add_script c now [j] s = (Inr [Existed], s)"
  using assms by (simp add: add_script_def guarded_def mode_check_def add_one_def add_job_def hexists_def)

theorem add_twice_is_once_witness:
  "add_script single 9 [ex_job ''a'' ''h''] ex_claimed = (Inr [Existed], ex_claimed)"
proof -
  have "q_jobs ex_claimed (a_id (ex_job ''a'' ''h'')) \<noteq> []" "q_mode ex_claimed = Some (mode_text single)"
    "a_mode (ex_job ''a'' ''h'') = NoDedupe" by code_simp+
  then show ?thesis using add_twice_is_once by blast
qed

lemma dedupe_after:
  assumes "add_one c pz now j s = (Added, s')" and "a_mode j \<noteq> NoDedupe"
  shows "q_dedupe s' (a_dkey j) = eset now (a_id j) (a_ttl j)"
  using assms by (auto simp: add_one_def Let_def split: option.splits prod.splits bool.splits if_splits)

text \<open>Throttling: once a job is added under a throttle key, every add under that key within the window
  answers that job's id and adds nothing, even when the job is long gone.\<close>

theorem throttle_window:
  assumes "add_one c pz now j s = (Added, s1)" and "a_mode j = Throttle" and "is_id (a_id j)"
    and "q_dedupe s2 (a_dkey j) = q_dedupe s1 (a_dkey j)"
    and "a_mode k = Throttle" and "a_dkey k = a_dkey j" and "now' \<le> now + a_ttl j"
  shows "add_one c pz' now' k s2 = (Held (a_id j), s2)"
proof -
  have "q_dedupe s2 (a_dkey k) = eset now (a_id j) (a_ttl j)"
    using dedupe_after [OF assms(1)] assms(2,4,6) by simp
  then show ?thesis using assms(3,5,7) by (simp add: add_one_def eget_eset)
qed

definition ex_throttled :: job_spec where
  "ex_throttled = (ex_job ''a'' '''')\<lparr>a_mode := Throttle, a_dkey := ''k'', a_ttl := 10\<rparr>"

theorem throttle_window_witness:
  "add_one plain False 12 (ex_throttled\<lparr>a_id := ''b''\<rparr>) (snd (add_one plain False 5 ex_throttled empty_queue)) =
     (Held ''a'', snd (add_one plain False 5 ex_throttled empty_queue))"
proof -
  have h: "fst (add_one plain False 5 ex_throttled empty_queue) = Added" "is_id (a_id ex_throttled)"
    "a_mode ex_throttled = Throttle" "a_mode (ex_throttled\<lparr>a_id := ''b''\<rparr>) = Throttle" "a_dkey ex_throttled = ''k''"
    "a_ttl ex_throttled = 10" "a_id ex_throttled = ''a''" by code_simp+
  then have "add_one plain False 5 ex_throttled empty_queue = (Added, snd (add_one plain False 5 ex_throttled empty_queue))"
    by (simp add: prod_eq_iff)
  from throttle_window [OF this h(3,2) refl h(4)] show ?thesis using h by simp
qed

text \<open>Debouncing: an add under the key of a job that still waits moves that one job, whatever set it
  waits in, to the new time with the new data, keeping its priority, attempts, timeout and group; no
  other job changes and none is added.\<close>

theorem debounce_moves_one:
  assumes "q_dedupe s (a_dkey j) = eset t h ttl" and "now \<le> t + ttl" and "is_id h" and "a_mode j = Debounce"
    and "waiting_job s h = Some h" and "reachable s" and "q_mode s = Some (mode_text c)"
  shows "fst (add_one c pz now j s) = Held h
    \<and> h_get (snd (add_one c pz now j s)) h FData = Some (a_data j)
    \<and> zscore (q_zs (snd (add_one c pz now j s)) Delayed) h = Some (now + a_delay j)
    \<and> h \<notin> zids (q_zs (snd (add_one c pz now j s)) Ready)
    \<and> (\<forall>f. f \<notin> {FData, FState, FRunAt} \<longrightarrow> h_get (snd (add_one c pz now j s)) h f = h_get s h f)
    \<and> (\<forall>i. i \<noteq> h \<longrightarrow> q_jobs (snd (add_one c pz now j s)) i = q_jobs s i)
    \<and> qinv c {} {} (snd (add_one c pz now j s))"
proof -
  have e: "add_one c pz now j s = (Held h, debounce_move c pz now j h s)"
    using assms(1-5) by (simp add: add_one_def eget_eset)
  have "qinv c {} {} (debounce_move c pz now j h s)"
    by (rule debounce_move_inv [OF reachable_qinv [OF assms(6,7)] assms(5)])
  then show ?thesis by (simp add: e debounce_move_keys h_get_def)
qed

definition ex_debounced :: job_spec where
  "ex_debounced = (ex_job ''a'' '''')\<lparr>a_mode := Debounce, a_dkey := ''k'', a_ttl := 86400010, a_delay := 10\<rparr>"

definition ex_waiting :: qstate where
  "ex_waiting = exec (CAdd plain 5 [ex_debounced]) empty_queue"

theorem debounce_moves_one_witness:
  "fst (add_one plain False 12 (ex_debounced\<lparr>a_id := ''b'', a_data := ''2''\<rparr>) ex_waiting) = Held ''a'' \<and>
   zscore (q_zs (snd (add_one plain False 12 (ex_debounced\<lparr>a_id := ''b'', a_data := ''2''\<rparr>) ex_waiting)) Delayed) ''a'' = Some 22"
proof -
  have r: "reachable ex_waiting" unfolding ex_waiting_def by (rule reach_call [OF reach_start]) code_simp
  have h: "q_dedupe ex_waiting (a_dkey (ex_debounced\<lparr>a_id := ''b'', a_data := ''2''\<rparr>)) = eset 5 ''a'' 86400010"
    "is_id ''a''" "a_mode (ex_debounced\<lparr>a_id := ''b'', a_data := ''2''\<rparr>) = Debounce"
    "waiting_job ex_waiting ''a'' = Some ''a''" "q_mode ex_waiting = Some (mode_text plain)"
    "a_delay (ex_debounced\<lparr>a_id := ''b'', a_data := ''2''\<rparr>) = 10" by code_simp+
  show ?thesis using debounce_moves_one [OF h(1) _ h(2-4) r h(5), of 12 False] h(6) by simp
qed

section \<open>Schedules\<close>

text \<open>C6. An occurrence of a schedule fires at most once, and never early: over any sequence of \<open>FIRE\<close> and
  \<open>DEFER\<close> calls, from any workers with any clocks, configurations and arguments, one occurrence is
  answered as fired at most once, and each one fired was due by the server's clock.\<close>

theorem occurrence_fires_once:
  shows "fired i d calls s \<le> 1 \<and>
    (\<forall>c now due nxt att to s s'. fire_script c now i due nxt att to s = (Inr True, s') \<longrightarrow> int (parse_nat due) \<le> now)"
  using fired_once fire_True by blast

theorem occurrence_fires_once_witness:
  "fired ''s'' 5 [Fire plain 9 ''s'' ''5'' ''15'' 1 (-1), Fire plain 9 ''s'' ''5'' ''15'' 1 (-1)] ex_waiting \<le> 1"
  using occurrence_fires_once by blast

text \<open>The schedule is stored with the timing a listed one has: its next occurrence is then the stored one.\<close>

definition same_timing :: "sched_arg \<Rightarrow> sfield hash \<Rightarrow> bool" where
  "same_timing a h = (hget h SKind = Some (s_kind a) \<and> hget h SSpec = Some (s_spec a)
     \<and> or_empty (hget h SZone) = (if s_kind a = ''cron'' then s_zone a else ''''))"

definition next_kept :: "qstate \<Rightarrow> sched_arg \<Rightarrow> int option" where
  "next_kept s a = (case zscore (q_scheds s) (s_id a) of
     Some due \<Rightarrow> Some (if same_timing a (q_shash s (s_id a)) then due else s_next a) | None \<Rightarrow> Some (s_next a))"

lemma sync_one_score:
  "zscore (q_scheds (sync_one a s)) i = (if i = s_id a then next_kept s a else zscore (q_scheds s) i)"
  by (simp add: sync_one_def write_sched_def next_kept_def same_timing_def zmem_def Let_def split: option.splits)

lemma next_kept_cong: "zscore (q_scheds s) (s_id a) = zscore (q_scheds t) (s_id a) \<Longrightarrow> q_shash s (s_id a) = q_shash t (s_id a)
  \<Longrightarrow> next_kept s a = next_kept t a"
  by (simp only: next_kept_def)

lemma sync_fold_other:
  "i \<notin> set (map s_id args) \<Longrightarrow> zscore (q_scheds (foldl (\<lambda>s a. sync_one a s) s args)) i = zscore (q_scheds s) i"
  by (induction args arbitrary: s) (simp_all add: sync_one_score)

lemma sync_fold_scored:
  "i \<in> set (map s_id args) \<Longrightarrow> zscore (q_scheds (foldl (\<lambda>s a. sync_one a s) s args)) i \<noteq> None"
proof (induction args arbitrary: s)
  case (Cons a args)
  show ?case
  proof (cases "i \<in> set (map s_id args)")
    case True
    then show ?thesis using Cons.IH by simp
  next
    case False
    then show ?thesis using Cons.prems sync_fold_other [OF False, of "sync_one a s"]
      by (auto simp: sync_one_score next_kept_def split: option.splits)
  qed
qed simp

lemma sync_fold_score:
  assumes "distinct (map s_id args)" and "a \<in> set args"
  shows "zscore (q_scheds (foldl (\<lambda>s a. sync_one a s) s args)) (s_id a) = next_kept s a"
  using assms
proof (induction args arbitrary: s)
  case (Cons b args)
  show ?case
  proof (cases "a = b")
    case True
    then have "s_id a \<notin> set (map s_id args)" using Cons.prems by simp
    then show ?thesis using sync_fold_other [of "s_id a" args "sync_one b s"] True by (simp add: sync_one_score)
  next
    case False
    then have m: "a \<in> set args" using Cons.prems by simp
    then have "s_id a \<noteq> s_id b" using Cons.prems(1) by (force simp: image_iff)
    then have "zscore (q_scheds (foldl (\<lambda>s a. sync_one a s) (sync_one b s) args)) (s_id a) = next_kept (sync_one b s) a"
      "next_kept (sync_one b s) a = next_kept s a"
      using Cons.IH [OF _ m, of "sync_one b s"] Cons.prems(1) by (simp, intro next_kept_cong) (simp_all add: sync_one_score sync_one_keys)
    then show ?thesis by simp
  qed
qed simp

text \<open>C13. A sync makes the stored definition schedules match its list: in every reachable state, a call within the
  caps leaves the schedules a definition owns to be exactly the listed ids, each with a listed schedule's fields (a
  listed runtime schedule is taken over), and leaves every runtime schedule that is not listed as it was. Each listed
  one waits in the set of next occurrences: at the occurrence it had when its timing is the stored one, at the listed
  one otherwise. A definition schedule that is no longer listed is out of the set, the others there are as they were.\<close>

theorem sync_matches_list:
  assumes "reachable s" and "length args \<le> 1000" and "length (q_sdef s) \<le> 2000"
  shows "(\<forall>i. hget (q_shash (snd (sync_script args s)) i) SOrigin = Some ''definition'' \<longleftrightarrow> i \<in> set (map s_id args))
    \<and> (\<forall>i \<in> set (map s_id args). \<exists>a \<in> set args. s_id a = i \<and> q_shash (snd (sync_script args s)) i = sched_hash a ''definition'')
    \<and> (\<forall>i. i \<notin> set (map s_id args) \<longrightarrow> hget (q_shash s i) SOrigin \<noteq> Some ''definition'' \<longrightarrow>
          q_shash (snd (sync_script args s)) i = q_shash s i)
    \<and> (\<forall>i \<in> set (map s_id args). zmem (q_scheds (snd (sync_script args s))) i)
    \<and> (distinct (map s_id args) \<longrightarrow> (\<forall>a \<in> set args. zscore (q_scheds (snd (sync_script args s))) (s_id a) = next_kept s a))
    \<and> (\<forall>i. i \<notin> set (map s_id args) \<longrightarrow> zscore (q_scheds (snd (sync_script args s))) i =
          (if hget (q_shash s i) SOrigin = Some ''definition'' then None else zscore (q_scheds s) i))
    \<and> set (q_sdef (snd (sync_script args s))) = set (map s_id args)"
proof -
  define t where "t = foldl (\<lambda>s a. sync_one a s) s args"
  obtain n u where u: "foldl (\<lambda>acc i. sweep_one (set (map s_id args)) i acc) (0, t) (q_sdef t) = (n, u)" by fastforce
  have e: "snd (sync_script args s) = u" using assms(2,3) u by (simp add: sync_script_def t_def)
  have sw: "swept (set (map s_id args)) (q_sdef t) t u"
    using sweep_fold [of "set (map s_id args)" "q_sdef t" t 0] u by simp
  have hash: "q_shash u i = (if i \<in> set (q_sdef t) - set (map s_id args) \<and> hget (q_shash t i) SOrigin = Some ''definition'' then [] else q_shash t i)"
    and score: "zscore (q_scheds u) i = (if i \<in> set (q_sdef t) - set (map s_id args) \<and> hget (q_shash t i) SOrigin = Some ''definition''
      then None else zscore (q_scheds t) i)" for i
    using sw unfolding swept_def by simp_all
  have listed: "\<exists>a \<in> set args. s_id a = i \<and> q_shash u i = sched_hash a ''definition''" if "i \<in> set (map s_id args)" for i
    using sync_fold_keys(4) [OF that, of s] that by (auto simp: hash t_def)
  have kept: "zscore (q_scheds u) i = zscore (q_scheds t) i" if "i \<in> set (map s_id args)" for i
    using that by (simp add: score)
  have same: "q_shash t i = q_shash s i" and old: "zscore (q_scheds t) i = zscore (q_scheds s) i"
    and swd: "hget (q_shash s i) SOrigin = Some ''definition'' \<Longrightarrow> i \<in> set (q_sdef t)" if "i \<notin> set (map s_id args)" for i
    using sync_fold_keys(3) [OF that] sync_fold_other [OF that] reachable_inv [OF assms(1)] sync_fold_keys(1) [of s args]
    by (simp_all add: t_def queue_inv_def defs_listed_def)
  have unlisted: "q_shash u i = (if hget (q_shash s i) SOrigin = Some ''definition'' then [] else q_shash s i)"
    "zscore (q_scheds u) i = (if hget (q_shash s i) SOrigin = Some ''definition'' then None else zscore (q_scheds s) i)"
    if "i \<notin> set (map s_id args)" for i
    using swd [OF that] that by (simp_all add: hash score same [OF that] old [OF that])
  have owned: "hget (q_shash u i) SOrigin = Some ''definition'' \<longleftrightarrow> i \<in> set (map s_id args)" for i
  proof (cases "i \<in> set (map s_id args)")
    case True
    then show ?thesis using listed [OF True] by (auto simp: hget_sched_hash)
  next
    case False
    then show ?thesis using unlisted [OF False] by simp
  qed
  have member: "zmem (q_scheds u) i" if "i \<in> set (map s_id args)" for i
    using sync_fold_scored [OF that, of s] kept [OF that] by (simp add: zmem_def t_def)
  have due: "zscore (q_scheds u) (s_id a) = next_kept s a" if "distinct (map s_id args)" "a \<in> set args" for a
    using sync_fold_score [OF that, of s] kept [of "s_id a"] that by (simp add: t_def)
  have sdef: "set (q_sdef u) = set (map s_id args)"
    using sw sync_fold_keys(1) [of s args] unfolding swept_def t_def by auto
  show ?thesis unfolding e using owned listed unlisted member due sdef by simp
qed

definition ex_sched :: sched_arg where
  "ex_sched = \<lparr>s_id = ''d'', s_kind = ''every'', s_spec = ''1000'', s_zone = '''', s_data = ''1'', s_next = 5\<rparr>"

theorem sync_matches_list_witness:
  "hget (q_shash (snd (sync_script [ex_sched] ex_added)) ''d'') SOrigin = Some ''definition'' \<and>
   zscore (q_scheds (snd (sync_script [ex_sched] ex_added))) ''d'' = Some 5"
proof -
  have "length (q_sdef ex_added) \<le> 2000" "s_id ex_sched = ''d''" "next_kept ex_added ex_sched = Some 5" by code_simp+
  then show ?thesis using sync_matches_list [OF ex_added_reachable, of "[ex_sched]"] by (simp add: hget_sched_hash)
qed

end
