(* ===== verification/Queue_Replies.thy ===== *)
theory Queue_Replies
  imports Queue_System
begin

text \<open>
  The client's side of a script call: the tables the scripts return, the parsers of
  \<open>scripts/claim/replies.ts\<close> that refuse anything else, the mode of \<open>scripts/groups/mode.ts\<close> with
  the error it becomes, and the calls (\<open>claim\<close>, \<open>complete\<close>, \<open>fail\<close>, \<open>release\<close>, \<open>renew\<close>, \<open>stepBegin\<close>,
  \<open>stepCommit\<close>, \<open>progress\<close>, \<open>cancel\<close>). Every reply a script can give is shown to parse.
\<close>

section \<open>Replies as Redis hands them over\<close>

datatype lua = LNum int | LText string | LArr "lua list"

definition job_out :: "claimed \<Rightarrow> lua" where
  "job_out r = LArr [LText (j_id r), LText (j_data r), LNum (int (j_attempt r)), LNum (int (j_attempts r)),
     LText (j_token r), LNum (j_timeout r)]"

definition due_out :: "due_sched \<Rightarrow> lua" where
  "due_out d = LArr [LText (ds_id d), LText (ds_kind d), LText (ds_spec d), LText (ds_zone d), LNum (ds_due d)]"

definition claim_out :: "claim_reply \<Rightarrow> lua list" where
  "claim_out r = [LArr (map job_out (cr_jobs r)), LArr (map LText (cr_stalled r)), LArr (map LText (cr_invalid r)),
     LNum (cr_next r), LArr (map due_out (cr_due r))]"

definition bit_out :: "bool \<Rightarrow> lua" where
  "bit_out b = LNum (if b then 1 else 0)"

definition complete_out :: "settle_reply \<Rightarrow> lua" where
  "complete_out r = LArr (bit_out (sr_settled r) # claim_out (sr_claim r))"

definition fail_out :: "settle_reply \<Rightarrow> lua" where
  "fail_out r = LArr (bit_out (sr_settled r) # bit_out (sr_final r) # claim_out (sr_claim r))"

definition step_out :: "step_reply \<Rightarrow> lua" where
  "step_out r = (case r of StepStored json \<Rightarrow> LArr [LNum 1, LText json] | StepRun \<Rightarrow> LArr [LNum 0] | StepLost \<Rightarrow> LArr [LNum (-1)])"

definition add_out :: "add_reply \<Rightarrow> lua" where
  "add_out r = (case r of Added \<Rightarrow> LNum 0 | Existed \<Rightarrow> LNum 1 | Held i \<Rightarrow> LText i)"

section \<open>The parsers\<close>

text \<open>\<open>refuse\<close>: the error thrown for a shape the script does not document.\<close>

definition refused :: "string \<Rightarrow> 'a result" where
  "refused what = Inl (''queue script reply not recognised: '' @ what)"

text \<open>JavaScript's \<open>typeof\<close> of a reply, for the messages.\<close>

fun type_of :: "lua \<Rightarrow> string" where
  "type_of (LNum n) = ''number''"
| "type_of (LText t) = ''string''"
| "type_of (LArr xs) = ''object''"

definition bind_result :: "'a result \<Rightarrow> ('a \<Rightarrow> 'b result) \<Rightarrow> 'b result" where
  "bind_result r f = (case r of Inl e \<Rightarrow> Inl e | Inr v \<Rightarrow> f v)"

definition at :: "lua list \<Rightarrow> nat \<Rightarrow> lua option" where
  "at xs n = (if n < length xs then Some (xs ! n) else None)"

definition p_array :: "lua option \<Rightarrow> string \<Rightarrow> lua list result" where
  "p_array v what = (case v of Some (LArr xs) \<Rightarrow> Inr xs | _ \<Rightarrow> refused (what @ '' is not an array''))"

definition p_text :: "lua option \<Rightarrow> string \<Rightarrow> string result" where
  "p_text v what = (case v of Some (LText t) \<Rightarrow> Inr t | _ \<Rightarrow> refused (what @ '' is not a string''))"

definition p_whole :: "lua option \<Rightarrow> string \<Rightarrow> int result" where
  "p_whole v what = (case v of Some (LNum n) \<Rightarrow> Inr n | _ \<Rightarrow> refused (what @ '' is not a number''))"

fun p_each :: "(lua \<Rightarrow> 'a result) \<Rightarrow> lua list \<Rightarrow> 'a list result" where
  "p_each f [] = Inr []"
| "p_each f (x # xs) = bind_result (f x) (\<lambda>y. bind_result (p_each f xs) (\<lambda>ys. Inr (y # ys)))"

definition p_texts :: "lua option \<Rightarrow> string \<Rightarrow> string list result" where
  "p_texts v what = bind_result (p_array v what) (p_each (\<lambda>x. p_text (Some x) what))"

definition timeoutOf :: "int \<Rightarrow> int option" where
  "timeoutOf ms = (if ms = -1 then None else Some ms)"

record claimed_job =
  cj_id :: string
  cj_data :: string
  cj_attempt :: int
  cj_attempts :: int
  cj_token :: string
  cj_timeout :: "int option"

record claim_view =
  cv_jobs :: "claimed_job list"
  cv_stalled :: "string list"
  cv_invalid :: "string list"
  cv_next :: int
  cv_due :: "due_sched list"

definition p_job :: "lua \<Rightarrow> claimed_job result" where
  "p_job entry = bind_result (p_array (Some entry) ''job'') (\<lambda>job.
     bind_result (p_text (at job 0) ''job id'') (\<lambda>i.
     bind_result (p_text (at job 1) ''job data'') (\<lambda>d.
     bind_result (p_whole (at job 2) ''job attempt'') (\<lambda>a.
     bind_result (p_whole (at job 3) ''job attempts'') (\<lambda>m.
     bind_result (p_text (at job 4) ''job token'') (\<lambda>t.
     bind_result (p_whole (at job 5) ''job timeout'') (\<lambda>ms.
       Inr \<lparr>cj_id = i, cj_data = d, cj_attempt = a, cj_attempts = m, cj_token = t, cj_timeout = timeoutOf ms\<rparr>)))))))"

definition p_due :: "lua \<Rightarrow> due_sched result" where
  "p_due entry = bind_result (p_array (Some entry) ''due schedule'') (\<lambda>row.
     bind_result (p_text (at row 1) ''schedule kind'') (\<lambda>kind.
     if kind \<noteq> ''cron'' \<and> kind \<noteq> ''every'' then refused ''schedule kind is unknown''
     else bind_result (p_text (at row 0) ''schedule id'') (\<lambda>i.
     bind_result (p_text (at row 2) ''schedule spec'') (\<lambda>sp.
     bind_result (p_text (at row 3) ''schedule timezone'') (\<lambda>z.
     bind_result (p_whole (at row 4) ''schedule due'') (\<lambda>d.
       Inr \<lparr>ds_id = i, ds_kind = kind, ds_spec = sp, ds_zone = z, ds_due = d\<rparr>))))))"

definition parseClaim :: "lua list \<Rightarrow> nat \<Rightarrow> claim_view result" where
  "parseClaim raw k = bind_result (bind_result (p_array (at raw k) ''jobs'') (p_each p_job)) (\<lambda>jobs.
     bind_result (bind_result (p_array (at raw (k + 4)) ''due'') (p_each p_due)) (\<lambda>due.
     bind_result (p_texts (at raw (k + 1)) ''stalled'') (\<lambda>st.
     bind_result (p_texts (at raw (k + 2)) ''invalid'') (\<lambda>bad.
     bind_result (p_whole (at raw (k + 3)) ''next'') (\<lambda>nxt.
       Inr \<lparr>cv_jobs = jobs, cv_stalled = st, cv_invalid = bad, cv_next = nxt, cv_due = due\<rparr>)))))"

definition parseClaimReply :: "lua \<Rightarrow> claim_view result" where
  "parseClaimReply raw = bind_result (p_array (Some raw) ''reply'') (\<lambda>parts. parseClaim parts 0)"

definition parseComplete :: "lua \<Rightarrow> (bool \<times> claim_view) result" where
  "parseComplete raw = bind_result (p_array (Some raw) ''reply'') (\<lambda>parts.
     bind_result (p_whole (at parts 0) ''settled'') (\<lambda>st.
     bind_result (parseClaim parts 1) (\<lambda>cv. Inr (st = 1, cv))))"

definition parseFail :: "lua \<Rightarrow> (bool \<times> bool \<times> claim_view) result" where
  "parseFail raw = bind_result (p_array (Some raw) ''reply'') (\<lambda>parts.
     bind_result (p_whole (at parts 0) ''settled'') (\<lambda>st.
     bind_result (p_whole (at parts 1) ''final'') (\<lambda>fi.
     bind_result (parseClaim parts 2) (\<lambda>cv. Inr (st = 1, fi = 1, cv)))))"

definition parseLost :: "lua \<Rightarrow> string list result" where
  "parseLost raw = p_texts (Some raw) ''lost ids''"

definition parseReleased :: "lua \<Rightarrow> string list result" where
  "parseReleased raw = p_texts (Some raw) ''released ids''"

definition parseStepBegin :: "lua \<Rightarrow> step_reply result" where
  "parseStepBegin raw = bind_result (p_array (Some raw) ''reply'') (\<lambda>parts.
     bind_result (p_whole (at parts 0) ''step code'') (\<lambda>code.
       if code = -1 \<and> length parts = 1 then Inr StepLost
       else if code = 0 \<and> length parts = 1 then Inr StepRun
       else if code = 1 \<and> length parts = 2 then bind_result (p_text (at parts 1) ''step json'') (\<lambda>j. Inr (StepStored j))
       else refused (''step reply of '' @ show_nat (length parts) @ '' parts with code '' @ show_int code)))"

definition parseStepCommit :: "lua \<Rightarrow> bool result" where
  "parseStepCommit raw = (if raw = LNum 1 then Inr True else if raw = LNum 0 then Inr False else refused (''step commit reply '' @ type_of raw))"

record add_view =
  av_deduplicated :: bool
  av_held :: "string option"

definition p_add :: "lua \<Rightarrow> add_view result" where
  "p_add part = (if part = LNum 0 then Inr \<lparr>av_deduplicated = False, av_held = None\<rparr>
     else if part = LNum 1 then Inr \<lparr>av_deduplicated = True, av_held = None\<rparr>
     else (case part of LText t \<Rightarrow> if t \<noteq> '''' then Inr \<lparr>av_deduplicated = True, av_held = Some t\<rparr> else refused (''add reply part is '' @ type_of part)
           | _ \<Rightarrow> refused (''add reply part is '' @ type_of part)))"

definition parseAddReply :: "lua \<Rightarrow> nat \<Rightarrow> add_view list result" where
  "parseAddReply raw jobs = bind_result (p_array (Some raw) ''reply'') (\<lambda>parts.
     if length parts \<noteq> jobs then refused (''add reply of '' @ show_nat (length parts) @ '' parts for '' @ show_nat jobs @ '' jobs'')
     else p_each p_add parts)"

section \<open>The mode and its error\<close>

definition modeOf :: "nat option \<Rightarrow> string" where
  "modeOf groups = (case groups of None \<Rightarrow> ''0'' | Some conc \<Rightarrow> ''1:'' @ show_nat conc)"

definition describeMode :: "string option \<Rightarrow> string" where
  "describeMode m = (case m of None \<Rightarrow> ''no marker (deleted meanwhile)''
     | Some v \<Rightarrow> if v = ''0'' then ''no groups''
         else if take 2 v = ''1:'' \<and> whole (drop 2 v)
           then (if drop 2 v = ''0'' then ''groups {}'' else ''groups { concurrency: '' @ drop 2 v @ '' }'')
         else ''an unknown mode'')"

datatype call_error = GroupsMismatch string string | Failed_call string

text \<open>\<open>guardMode\<close>: the script's refusal becomes an error naming both modes, any other failure stays.\<close>

definition guardMode :: "nat option \<Rightarrow> 'a result \<times> qstate \<Rightarrow> (call_error + 'a) \<times> qstate" where
  "guardMode groups r = (case r of (Inr v, s) \<Rightarrow> (Inr v, s)
     | (Inl e, s) \<Rightarrow> if e = MISMATCH then (Inl (GroupsMismatch (describeMode (q_mode s)) (describeMode (Some (modeOf groups)))), s)
         else (Inl (Failed_call e), s))"

text \<open>\<open>groupArgs\<close>: the configuration the scripts take.\<close>

definition cfg_of :: "nat option \<Rightarrow> qcfg" where
  "cfg_of groups = (case groups of None \<Rightarrow> \<lparr>c_grouped = False, c_conc = 0\<rparr> | Some n \<Rightarrow> \<lparr>c_grouped = True, c_conc = n\<rparr>)"

lemma modeOf_text: "mode_text (cfg_of groups) = modeOf groups"
  by (simp add: modeOf_def mode_text_def cfg_of_def split: option.splits)

section \<open>The calls\<close>

text \<open>What a settle needs of a definition: \<open>keepCompleted\<close> is \<open>None\<close> for \<open>false\<close>, or the age and count.\<close>

record retention =
  d_lease :: int
  d_keep_completed :: "(int \<times> int) option"
  d_keep_failed :: int
  d_rate :: "rate option"
  d_groups :: "nat option"

definition parsed :: "('a \<Rightarrow> 'b result) \<Rightarrow> (call_error + 'a) \<times> qstate \<Rightarrow> (call_error + 'b) \<times> qstate" where
  "parsed p r = (case r of (Inl e, s) \<Rightarrow> (Inl e, s)
     | (Inr v, s) \<Rightarrow> (case p v of Inl e \<Rightarrow> (Inl (Failed_call e), s) | Inr w \<Rightarrow> (Inr w, s)))"

definition claim_call :: "nat option \<Rightarrow> int \<Rightarrow> int \<Rightarrow> string list \<Rightarrow> rate option \<Rightarrow> qstate \<Rightarrow> (call_error + claim_view) \<times> qstate" where
  "claim_call groups us lease tokens rt s =
     parsed (\<lambda>r. parseClaimReply (LArr (claim_out r))) (guardMode groups (claim_script (cfg_of groups) us lease tokens rt s))"

definition complete_call :: "retention \<Rightarrow> int \<Rightarrow> string \<Rightarrow> string \<Rightarrow> string option \<Rightarrow> string option \<Rightarrow> qstate
    \<Rightarrow> (call_error + bool \<times> claim_view) \<times> qstate" where
  "complete_call d us i token res fresh s = (let keep = d_keep_completed d in
     parsed (\<lambda>r. parseComplete (complete_out r)) (guardMode (d_groups d)
       (complete_script (cfg_of (d_groups d)) us i token (case keep of None \<Rightarrow> -1 | Some (age, count) \<Rightarrow> age)
          (case keep of None \<Rightarrow> -1 | Some (age, count) \<Rightarrow> count) (d_lease d) (or_empty fresh) (or_empty res) (d_rate d) s)))"

definition fail_call :: "retention \<Rightarrow> int \<Rightarrow> string \<Rightarrow> string \<Rightarrow> string \<Rightarrow> int option \<Rightarrow> string option \<Rightarrow> qstate
    \<Rightarrow> (call_error + bool \<times> bool \<times> claim_view) \<times> qstate" where
  "fail_call d us i token err retryIn fresh s =
     parsed (\<lambda>r. parseFail (fail_out r)) (guardMode (d_groups d)
       (fail_script (cfg_of (d_groups d)) us i token err (case retryIn of None \<Rightarrow> -1 | Some ms \<Rightarrow> ms) (d_keep_failed d)
          (d_lease d) (or_empty fresh) (d_rate d) s))"

definition release_call :: "retention \<Rightarrow> (string \<times> string) list \<Rightarrow> qstate \<Rightarrow> (call_error + string list) \<times> qstate" where
  "release_call d jobs s = (if jobs = [] then (Inr [], s)
     else parsed (\<lambda>r. parseReleased (LArr (map LText r))) (guardMode (d_groups d) (release_script (cfg_of (d_groups d)) jobs s)))"

definition renew_call :: "int \<Rightarrow> int \<Rightarrow> (string \<times> string) list \<Rightarrow> qstate \<Rightarrow> string list result \<times> qstate" where
  "renew_call now lease es s = (let (lost, s') = renew_script now lease es s in (parseLost (LArr (map LText lost)), s'))"

definition stepBegin_call :: "int \<Rightarrow> string \<Rightarrow> string \<Rightarrow> string \<Rightarrow> int \<Rightarrow> qstate \<Rightarrow> step_reply result \<times> qstate" where
  "stepBegin_call now i token nm lease s = (let (r, s') = step_begin now token nm lease i s in (parseStepBegin (step_out r), s'))"

definition stepCommit_call :: "int \<Rightarrow> string \<Rightarrow> string \<Rightarrow> string \<Rightarrow> string \<Rightarrow> qstate \<Rightarrow> bool result \<times> qstate" where
  "stepCommit_call now i token nm json s = (let (r, s') = step_commit now token nm json i s in (parseStepCommit (bit_out r), s'))"

definition progress_call :: "string \<Rightarrow> string \<Rightarrow> int \<Rightarrow> qstate \<Rightarrow> bool \<times> qstate" where
  "progress_call i token v s = (let (r, s') = progress_script i token (show_int v) s in (bit_out r = LNum 1, s'))"

definition cancel_call :: "nat option \<Rightarrow> string \<Rightarrow> qstate \<Rightarrow> (call_error + bool) \<times> qstate" where
  "cancel_call groups i s = parsed (\<lambda>r. Inr (bit_out r = LNum 1)) (guardMode groups (cancel_script (cfg_of groups) i s))"

section \<open>Every reply parses\<close>

definition job_view :: "claimed \<Rightarrow> claimed_job" where
  "job_view r = \<lparr>cj_id = j_id r, cj_data = j_data r, cj_attempt = int (j_attempt r), cj_attempts = int (j_attempts r),
     cj_token = j_token r, cj_timeout = timeoutOf (j_timeout r)\<rparr>"

definition view_of :: "claim_reply \<Rightarrow> claim_view" where
  "view_of r = \<lparr>cv_jobs = map job_view (cr_jobs r), cv_stalled = cr_stalled r, cv_invalid = cr_invalid r,
     cv_next = cr_next r, cv_due = cr_due r\<rparr>"

lemma bind_Inr [simp]: "bind_result (Inr v) f = f v"
  by (simp add: bind_result_def)

lemma p_each_map: "(\<And>x. x \<in> set xs \<Longrightarrow> f (g x) = Inr (h x)) \<Longrightarrow> p_each f (map g xs) = Inr (map h xs)"
  by (induction xs) simp_all

lemma p_texts_map [simp]: "p_texts (Some (LArr (map LText xs))) what = Inr xs"
  using p_each_map [of xs "\<lambda>x. p_text (Some x) what" LText "\<lambda>x. x"] by (simp add: p_texts_def p_array_def p_text_def)

lemma p_job_out: "p_job (job_out r) = Inr (job_view r)"
  by (simp add: p_job_def job_out_def p_array_def p_text_def p_whole_def at_def job_view_def)

lemma p_due_out: "ds_kind d = ''cron'' \<or> ds_kind d = ''every'' \<Longrightarrow> p_due (due_out d) = Inr d"
  by (auto simp: p_due_def due_out_def p_array_def p_text_def p_whole_def at_def)

lemma due_schedules_kind:
  assumes "d \<in> set (due_schedules now s)"
  shows "ds_kind d = ''cron'' \<or> ds_kind d = ''every''"
proof -
  obtain sc i where d: "schedule_sound (q_shash s i)" "ds_kind d = or_empty (hget (q_shash s i) SKind)"
    using assms unfolding due_schedules_def Let_def by (auto dest!: in_set_takeD)
  then show ?thesis by (auto simp: schedule_sound_def or_empty_def split: option.splits if_splits)
qed

lemma parse_claim_out:
  assumes "\<forall>d \<in> set (cr_due r). ds_kind d = ''cron'' \<or> ds_kind d = ''every''"
  shows "parseClaim (pre @ claim_out r) (length pre) = Inr (view_of r)"
proof -
  have "p_each p_job (map job_out (cr_jobs r)) = Inr (map job_view (cr_jobs r))" by (rule p_each_map) (rule p_job_out)
  moreover have "p_each p_due (map due_out (cr_due r)) = Inr (map (\<lambda>d. d) (cr_due r))"
    by (rule p_each_map) (use assms p_due_out in blast)
  ultimately show ?thesis
    by (simp add: parseClaim_def claim_out_def at_def nth_append p_array_def p_whole_def view_of_def)
qed

lemma claim_due_kinds:
  "claim c us n lease tokens rt s = (rep, s') \<Longrightarrow> \<forall>d \<in> set (cr_due rep). ds_kind d = ''cron'' \<or> ds_kind d = ''every''"
  using due_schedules_kind claim_parts by metis

lemma settle_due_kinds:
  "\<forall>d \<in> set (cr_due (fst (claim_or_wake c us lease ct rt freed s))). ds_kind d = ''cron'' \<or> ds_kind d = ''every''"
proof (cases "ct = ''''")
  case False
  obtain rep s' where "claim c us 1 lease [ct] rt s = (rep, s')" by fastforce
  then show ?thesis using claim_due_kinds False by (simp add: claim_or_wake_def)
qed (simp add: claim_or_wake_def no_claim_def)

text \<open>What an add answers, as \<open>parseAddReply\<close> reads it.\<close>

fun add_seen :: "add_reply \<Rightarrow> add_view" where
  "add_seen Added = \<lparr>av_deduplicated = False, av_held = None\<rparr>"
| "add_seen Existed = \<lparr>av_deduplicated = True, av_held = None\<rparr>"
| "add_seen (Held i) = \<lparr>av_deduplicated = True, av_held = Some i\<rparr>"

lemma add_one_held: "add_one c pz now j s = (Held i, s') \<Longrightarrow> i \<noteq> ''''"
  by (auto simp: add_one_def is_id_def Let_def waiting_job_def split: option.splits if_splits prod.splits bool.splits)

lemma p_add_out: "r \<noteq> Held '''' \<Longrightarrow> p_add (add_out r) = Inr (add_seen r)"
  by (cases r) (simp_all add: p_add_def add_out_def)

lemma add_each_held: "add_each c pz now js s = (rs, s') \<Longrightarrow> length rs = length js \<and> Held '''' \<notin> set rs"
proof (induction js arbitrary: s rs)
  case (Cons j js)
  then show ?case using add_one_held by (fastforce split: prod.splits)
qed simp

lemma parse_adds: "add_each c pz now js s = (rs, s') \<Longrightarrow> parseAddReply (LArr (map add_out rs)) (length js) = Inr (map add_seen rs)"
proof -
  assume a: "add_each c pz now js s = (rs, s')"
  have "p_each p_add (map add_out rs) = Inr (map add_seen rs)"
    by (rule p_each_map) (use add_each_held [OF a] p_add_out in metis)
  then show ?thesis using add_each_held [OF a] by (simp add: parseAddReply_def p_array_def)
qed

lemma parse_complete:
  "\<forall>d \<in> set (cr_due (sr_claim r)). ds_kind d = ''cron'' \<or> ds_kind d = ''every'' \<Longrightarrow>
    parseComplete (complete_out r) = Inr (sr_settled r, view_of (sr_claim r))"
  using parse_claim_out [of "sr_claim r" "[bit_out (sr_settled r)]"]
  by (simp add: parseComplete_def complete_out_def p_array_def p_whole_def at_def bit_out_def)

lemma parse_fail:
  "\<forall>d \<in> set (cr_due (sr_claim r)). ds_kind d = ''cron'' \<or> ds_kind d = ''every'' \<Longrightarrow>
    parseFail (fail_out r) = Inr (sr_settled r, sr_final r, view_of (sr_claim r))"
  using parse_claim_out [of "sr_claim r" "[bit_out (sr_settled r), bit_out (sr_final r)]"]
  by (simp add: parseFail_def fail_out_def p_array_def p_whole_def at_def bit_out_def numeral_2_eq_2)

lemma parse_step: "parseStepBegin (step_out r) = Inr r"
  by (cases r) (simp_all add: parseStepBegin_def step_out_def p_array_def p_whole_def p_text_def at_def)

lemma guarded_reply:
  assumes "guarded c body s = (Inr r, s')"
  obtains t where "body t = (r, s')"
  using assms by (auto simp: guarded_def split: sum.splits prod.splits)

lemma settled_kinds:
  "complete_script c us i token ka kc lease ct res rt s = (Inr r, s') \<Longrightarrow>
    \<forall>d \<in> set (cr_due (sr_claim r)). ds_kind d = ''cron'' \<or> ds_kind d = ''every''"
  "fail_script c us i token err ret kf lease ct rt s = (Inr r, s') \<Longrightarrow>
    \<forall>d \<in> set (cr_due (sr_claim r)). ds_kind d = ''cron'' \<or> ds_kind d = ''every''"
proof -
  assume "complete_script c us i token ka kc lease ct res rt s = (Inr r, s')"
  then obtain t where "(let (settled, freed, s) = complete_job c (us div 1000) i token ka kc res t;
         (cl, s) = claim_or_wake c us lease ct (rate_of (rateArgs rt)) freed s
     in (\<lparr>sr_settled = settled, sr_final = settled, sr_claim = cl\<rparr>, s)) = (r, s')"
    unfolding complete_script_def by (rule guarded_reply)
  then show "\<forall>d \<in> set (cr_due (sr_claim r)). ds_kind d = ''cron'' \<or> ds_kind d = ''every''"
    using settle_due_kinds by (auto split: prod.splits simp: Let_def) (metis fst_conv)+
next
  assume "fail_script c us i token err ret kf lease ct rt s = (Inr r, s')"
  then obtain t where "(let (settled, final, freed, headWake, s) = fail_job c (us div 1000) i token err ret kf t;
         (cl, s) = claim_or_wake c us lease ct (rate_of (rateArgs rt)) freed s;
         s = (if headWake \<and> z_has Delayed i s then wake s else s)
     in (\<lparr>sr_settled = settled, sr_final = final, sr_claim = cl\<rparr>, s)) = (r, s')"
    unfolding fail_script_def by (rule guarded_reply)
  then show "\<forall>d \<in> set (cr_due (sr_claim r)). ds_kind d = ''cron'' \<or> ds_kind d = ''every''"
    using settle_due_kinds by (auto split: prod.splits simp: Let_def) (metis fst_conv)+
qed

section \<open>The property\<close>

text \<open>C14. The parsers accept every reply the scripts can give, in whatever state they ran, and read from
  it exactly what the script answered: for a claim, for the two settles that claim as they end, for an
  add of any jobs, for the ids given back or lost, for a step.\<close>

theorem replies_parse:
  "(\<forall>rep s'. claim_script c us lease tokens rt s = (Inr rep, s') \<longrightarrow>
      parseClaimReply (LArr (claim_out rep)) = Inr (view_of rep))
   \<and> (\<forall>r s'. complete_script c us i token ka kc lease ct res rt s = (Inr r, s') \<longrightarrow>
      parseComplete (complete_out r) = Inr (sr_settled r, view_of (sr_claim r)))
   \<and> (\<forall>r s'. fail_script c us i token err ret kf lease ct rt s = (Inr r, s') \<longrightarrow>
      parseFail (fail_out r) = Inr (sr_settled r, sr_final r, view_of (sr_claim r)))
   \<and> (\<forall>rs s'. add_script c now js s = (Inr rs, s') \<longrightarrow>
      parseAddReply (LArr (map add_out rs)) (length js) = Inr (map add_seen rs))
   \<and> parseReleased (LArr (map LText ids)) = Inr ids \<and> parseLost (LArr (map LText ids)) = Inr ids
   \<and> parseStepBegin (step_out st) = Inr st \<and> parseStepCommit (bit_out b) = Inr b"
proof (intro conjI allI impI)
  fix rep s'
  assume "claim_script c us lease tokens rt s = (Inr rep, s')"
  then obtain t where "claim c us (length tokens) lease tokens (rate_of (rateArgs rt)) t = (rep, s')"
    unfolding claim_script_def by (rule guarded_reply)
  from claim_due_kinds [OF this] show "parseClaimReply (LArr (claim_out rep)) = Inr (view_of rep)"
    using parse_claim_out [of rep "[]"] by (simp add: parseClaimReply_def p_array_def)
next
  fix rs s'
  assume "add_script c now js s = (Inr rs, s')"
  then obtain t where "add_each c (q_paused t) now js t = (rs, s')" unfolding add_script_def by (rule guarded_reply)
  then show "parseAddReply (LArr (map add_out rs)) (length js) = Inr (map add_seen rs)" by (rule parse_adds)
qed (use settled_kinds parse_complete parse_fail parse_step in
     \<open>auto simp: parseReleased_def parseLost_def parseStepCommit_def bit_out_def\<close>)

theorem replies_parse_witness:
  "parseClaimReply (LArr (claim_out (projr (fst (claim_script \<lparr>c_grouped = False, c_conc = 0\<rparr> 6000 100 [''t''] None empty_queue)))))
     = Inr (view_of (projr (fst (claim_script \<lparr>c_grouped = False, c_conc = 0\<rparr> 6000 100 [''t''] None empty_queue))))"
proof -
  let ?r = "claim_script \<lparr>c_grouped = False, c_conc = 0\<rparr> 6000 100 [''t''] None empty_queue"
  have "isl (fst ?r) = False" by code_simp
  then have "?r = (Inr (projr (fst ?r)), snd ?r)" by (simp add: prod_eq_iff)
  from conjunct1 [OF replies_parse, rule_format, OF this] show ?thesis .
qed

end
