(* ===== verification/Calendar.thy ===== *)
theory Calendar
  imports Prelude
begin

text \<open>
  JavaScript's dates in UTC, as ECMAScript defines them: a moment is a number of milliseconds, a
  day is 86 400 000 of them, and a day number is a year, a month and a day of the proleptic
  Gregorian calendar. The backup ids, the rotation's periods and the cron schedules read dates
  through these functions. \<open>Date.UTC\<close> and the getters are shown to be inverse.
\<close>

named_theorems calendar_defs \<open>unfolding rules of the calendar\<close>

section \<open>Years\<close>

definition leap :: "int \<Rightarrow> bool" where
  "leap y = (y mod 4 = 0 \<and> (y mod 100 \<noteq> 0 \<or> y mod 400 = 0))"

text \<open>The day number of the first of January.\<close>

definition year_start :: "int \<Rightarrow> int" where
  "year_start y = 365 * (y - 1970) + ((y - 1) div 4 - (y - 1) div 100 + (y - 1) div 400) - 477"

definition year_len :: "int \<Rightarrow> int" where
  "year_len y = (if leap y then 366 else 365)"

text \<open>The year of a day number: an estimate from the mean length, put right by at most one.\<close>

definition year_of :: "int \<Rightarrow> int" where
  "year_of n = (let e = 1970 + (400 * n) div 146097 in
     if n < year_start e then e - 1 else if year_start (e + 1) \<le> n then e + 1 else e)"

lemma div_bracket: "0 < k \<Longrightarrow> k * ((x :: int) div k) \<le> x \<and> x < k * (x div k) + k"
  using pos_mod_bound [of k x] pos_mod_sign [of k x] mult_div_mod_eq [of k x] by linarith

lemma div_eqI: "0 < k \<Longrightarrow> k * q \<le> (x :: int) \<Longrightarrow> x < k * q + k \<Longrightarrow> x div k = q"
  by (metis add.commute add_diff_cancel_left' div_pos_geq diff_ge_0_iff_ge int_div_pos_eq le_add_diff_inverse less_diff_eq)

lemma div_step: "(x :: int) div k = (if x mod k = 0 then (x - 1) div k + 1 else (x - 1) div k)" if "0 < k"
proof -
  have m: "0 \<le> x mod k" "x mod k < k" using that by simp_all
  have x: "k * (x div k) + x mod k = x" by simp
  have "x mod k = 0 \<Longrightarrow> (x - 1) div k = x div k - 1"
    by (rule div_eqI [OF that]) (use that x in \<open>simp_all add: right_diff_distrib\<close>)
  moreover have "x mod k \<noteq> 0 \<Longrightarrow> (x - 1) div k = x div k"
    by (rule div_eqI [OF that]) (use m x in linarith)+
  ultimately show ?thesis by auto
qed

lemma mod_parts: "(y :: int) mod 400 = 0 \<Longrightarrow> y mod 100 = 0" "(y :: int) mod 100 = 0 \<Longrightarrow> y mod 4 = 0"
  using dvd_trans [of 100 400 y] dvd_trans [of 4 100 y] by (simp_all add: mod_eq_0_iff_dvd)

lemma year_start_Suc: "year_start (y + 1) = year_start y + year_len y"
proof -
  define a b c where "a = (y - 1) div 4" and "b = (y - 1) div 100" and "c = (y - 1) div 400"
  define p q r where "p = (y mod 4 = 0)" and "q = (y mod 100 = 0)" and "r = (y mod 400 = 0)"
  have d: "y div 4 = (if p then a + 1 else a)" "y div 100 = (if q then b + 1 else b)" "y div 400 = (if r then c + 1 else c)"
    unfolding a_def b_def c_def p_def q_def r_def by (rule div_step, simp)+
  have e: "year_start (y + 1) = 365 * (y + 1 - 1970) + ((if p then a + 1 else a) - (if q then b + 1 else b) + (if r then c + 1 else c)) - 477"
    unfolding d [symmetric] by (simp add: year_start_def)
  have f: "year_start y = 365 * (y - 1970) + (a - b + c) - 477" by (simp add: year_start_def a_def b_def c_def)
  have l: "leap y = (p \<and> (\<not> q \<or> r))" by (simp add: leap_def p_def q_def r_def)
  have "r \<Longrightarrow> q" "q \<Longrightarrow> p" using mod_parts by (simp_all add: p_def q_def r_def)
  then show ?thesis unfolding e f year_len_def l by (cases p; cases q; cases r) simp_all
qed

lemma year_start_approx:
  "400 * year_start y \<le> 146097 * (y - 1970) + 593" "146097 * (y - 1970) - 607 \<le> 400 * year_start y"
proof -
  define a b c where "a = (y - 1) div 4" and "b = (y - 1) div 100" and "c = (y - 1) div 400"
  have d: "4 * a \<le> y - 1" "y - 1 < 4 * a + 4" "100 * b \<le> y - 1" "y - 1 < 100 * b + 100"
    "400 * c \<le> y - 1" "y - 1 < 400 * c + 400"
    using div_bracket [of 4 "y - 1"] div_bracket [of 100 "y - 1"] div_bracket [of 400 "y - 1"]
    by (simp_all add: a_def b_def c_def)
  have y: "year_start y = 365 * (y - 1970) + (a - b + c) - 477" by (simp add: year_start_def a_def b_def c_def)
  show "400 * year_start y \<le> 146097 * (y - 1970) + 593" unfolding y using d by (simp add: algebra_simps)
  show "146097 * (y - 1970) - 607 \<le> 400 * year_start y" unfolding y using d by (simp add: algebra_simps)
qed

lemma year_of_bounds: "year_start (year_of n) \<le> n \<and> n < year_start (year_of n + 1)"
proof -
  define q where "q = (400 * n) div 146097"
  have q: "146097 * q \<le> 400 * n" "400 * n < 146097 * q + 146097"
    using div_bracket [of 146097 "400 * n"] by (simp_all add: q_def)
  have a: "year_start y \<le> n" if "y = 1970 + q - 1" for y
    using year_start_approx(1) [of y] q that by (simp add: algebra_simps)
  have b: "n < year_start y" if "y = 1970 + q + 2" for y
    using year_start_approx(2) [of y] q that by (simp add: algebra_simps)
  show ?thesis unfolding year_of_def q_def [symmetric] using a b by (auto simp: Let_def algebra_simps)
qed

lemma year_start_mono: "a \<le> b \<Longrightarrow> year_start a \<le> year_start b"
proof (induction "nat (b - a)" arbitrary: b)
  case (Suc k)
  then have "year_start a \<le> year_start (b - 1)" by (cases "a = b") auto
  also have "\<dots> \<le> year_start b" using year_start_Suc [of "b - 1"] by (simp add: year_len_def split: if_splits)
  finally show ?case .
qed simp

lemma year_of_unique: "year_start y \<le> n \<Longrightarrow> n < year_start (y + 1) \<Longrightarrow> year_of n = y"
  using year_of_bounds [of n] year_start_mono [of "y + 1" "year_of n"] year_start_mono [of "year_of n + 1" y]
  by linarith

section \<open>Months and days\<close>

text \<open>The days of a year before a month, counted from 1.\<close>

definition month_start :: "bool \<Rightarrow> int \<Rightarrow> int" where
  "month_start l m = (if m \<le> 1 then 0 else if m = 2 then 31
     else (if l then 1 else 0) + (if m = 3 then 59 else if m = 4 then 90 else if m = 5 then 120 else if m = 6 then 151
       else if m = 7 then 181 else if m = 8 then 212 else if m = 9 then 243 else if m = 10 then 273
       else if m = 11 then 304 else if m = 12 then 334 else 365))"

definition month_at :: "bool \<Rightarrow> int \<Rightarrow> int" where
  "month_at l d = (let k = (if l then 1 else 0) in
     if d < 31 then 1 else if d < 59 + k then 2 else if d < 90 + k then 3 else if d < 120 + k then 4
     else if d < 151 + k then 5 else if d < 181 + k then 6 else if d < 212 + k then 7 else if d < 243 + k then 8
     else if d < 273 + k then 9 else if d < 304 + k then 10 else if d < 334 + k then 11 else 12)"

lemma month_at_bounds:
  "0 \<le> d \<Longrightarrow> d < (if l then 366 else 365) \<Longrightarrow>
    1 \<le> month_at l d \<and> month_at l d \<le> 12 \<and> month_start l (month_at l d) \<le> d \<and> d < month_start l (month_at l d + 1)"
  by (simp add: month_at_def month_start_def Let_def split: if_splits)

lemma int_upto_12: "1 \<le> (m :: int) \<Longrightarrow> m \<le> 12 \<Longrightarrow> m \<in> {1, 2, 3, 4, 5, 6, 7, 8, 9, 10, 11, 12}"
  using zle_add1_eq_le by (simp add: numeral_eq_iff) presburger

lemma month_at_unique:
  "1 \<le> m \<Longrightarrow> m \<le> 12 \<Longrightarrow> month_start l m \<le> d \<Longrightarrow> d < month_start l (m + 1) \<Longrightarrow> month_at l d = m"
  by (drule (1) int_upto_12) (auto simp: month_at_def month_start_def Let_def split: if_splits)

section \<open>Dates\<close>

definition DAY :: int where
  "DAY = 86400000"

text \<open>\<open>getUTCFullYear\<close>, \<open>getUTCMonth() + 1\<close>, \<open>getUTCDate\<close>, \<open>getUTCHours\<close> and the rest.\<close>

definition utc_year :: "int \<Rightarrow> int" where
  "utc_year t = year_of (t div DAY)"

definition day_of_year :: "int \<Rightarrow> int" where
  "day_of_year t = t div DAY - year_start (utc_year t)"

definition utc_month :: "int \<Rightarrow> int" where
  "utc_month t = month_at (leap (utc_year t)) (day_of_year t)"

definition utc_date :: "int \<Rightarrow> int" where
  "utc_date t = day_of_year t - month_start (leap (utc_year t)) (utc_month t) + 1"

definition utc_hours :: "int \<Rightarrow> int" where
  "utc_hours t = t mod DAY div 3600000"

definition utc_minutes :: "int \<Rightarrow> int" where
  "utc_minutes t = t mod 3600000 div 60000"

definition utc_seconds :: "int \<Rightarrow> int" where
  "utc_seconds t = t mod 60000 div 1000"

definition utc_millis :: "int \<Rightarrow> int" where
  "utc_millis t = t mod 1000"

text \<open>\<open>getUTCDay\<close>: 1970-01-01 was a Thursday, and Sunday is 0.\<close>

definition utc_day :: "int \<Rightarrow> int" where
  "utc_day t = (t div DAY + 4) mod 7"

text \<open>The day number of a date in a month 1 to 12, and \<open>Date.UTC\<close> of it; a day past the month's end runs on.\<close>

definition day_number :: "int \<Rightarrow> int \<Rightarrow> int \<Rightarrow> int" where
  "day_number y m d = year_start y + month_start (leap y) m + d - 1"

definition date_utc :: "int \<Rightarrow> int \<Rightarrow> int \<Rightarrow> int \<Rightarrow> int \<Rightarrow> int \<Rightarrow> int \<Rightarrow> int" where
  "date_utc y m d h mi s ms = day_number y m d * DAY + h * 3600000 + mi * 60000 + s * 1000 + ms"

definition month_len :: "int \<Rightarrow> int \<Rightarrow> int" where
  "month_len y m = month_start (leap y) (m + 1) - month_start (leap y) m"

lemma day_of_year_bounds: "0 \<le> day_of_year t \<and> day_of_year t < year_len (utc_year t)"
  using year_of_bounds [of "t div DAY"] year_start_Suc [of "utc_year t"] by (simp add: day_of_year_def utc_year_def)

lemma utc_date_number: "day_number (utc_year t) (utc_month t) (utc_date t) = t div DAY"
  by (simp add: day_number_def utc_date_def day_of_year_def)

lemma utc_month_bounds: "1 \<le> utc_month t \<and> utc_month t \<le> 12 \<and> 1 \<le> utc_date t \<and> utc_date t \<le> month_len (utc_year t) (utc_month t)"
proof -
  note month_at_bounds [of "day_of_year t" "leap (utc_year t)"]
  then have "1 \<le> utc_month t \<and> utc_month t \<le> 12 \<and> month_start (leap (utc_year t)) (utc_month t) \<le> day_of_year t
    \<and> day_of_year t < month_start (leap (utc_year t)) (utc_month t + 1)"
    using day_of_year_bounds [of t] by (simp add: utc_month_def year_len_def)
  then show ?thesis by (simp add: utc_date_def month_len_def)
qed

lemma month_len_31: "1 \<le> m \<Longrightarrow> m \<le> 12 \<Longrightarrow> 28 \<le> month_len y m \<and> month_len y m \<le> 31"
  by (drule (1) int_upto_12) (auto simp: month_len_def month_start_def)

lemma date_of_number:
  assumes "1 \<le> m" "m \<le> 12" "1 \<le> d" "d \<le> month_len y m" and t: "t div DAY = day_number y m d"
  shows "utc_year t = y" "utc_month t = m" "utc_date t = d"
proof -
  define k where "k = month_start (leap y) m + d - 1"
  have n: "t div DAY = year_start y + k" using t by (simp add: day_number_def k_def)
  have "0 \<le> month_start (leap y) m" by (simp add: month_start_def)
  then have k0: "0 \<le> k" using assms by (simp add: k_def)
  have kd: "month_start (leap y) m \<le> k" "k < month_start (leap y) (m + 1)" using assms by (simp_all add: k_def month_len_def)
  have "month_start (leap y) (m + 1) \<le> (if leap y then 366 else 365)"
    using int_upto_12 [OF assms(1,2)] by (auto simp: month_start_def)
  then have "k < year_len y" using kd by (simp add: year_len_def)
  then show y: "utc_year t = y" using year_of_unique [of y "t div DAY"] k0 n year_start_Suc [of y] by (simp add: utc_year_def)
  have dy: "day_of_year t = k" using n y by (simp add: day_of_year_def)
  show m: "utc_month t = m" using month_at_unique [OF assms(1,2) kd] by (simp add: utc_month_def y dy)
  show "utc_date t = d" by (simp add: utc_date_def y m dy k_def)
qed

lemma clock_split:
  "t mod DAY = utc_hours t * 3600000 + t mod 3600000"
  "t mod 3600000 = utc_minutes t * 60000 + t mod 60000"
  "t mod 60000 = utc_seconds t * 1000 + utc_millis t"
proof -
  have m: "t mod DAY mod 3600000 = t mod 3600000" "t mod 3600000 mod 60000 = t mod 60000" "t mod 60000 mod 1000 = t mod 1000"
    by (rule mod_mod_cancel, simp add: DAY_def)+
  show "t mod DAY = utc_hours t * 3600000 + t mod 3600000"
    unfolding utc_hours_def m(1) [symmetric] by simp
  show "t mod 3600000 = utc_minutes t * 60000 + t mod 60000"
    unfolding utc_minutes_def m(2) [symmetric] by simp
  show "t mod 60000 = utc_seconds t * 1000 + utc_millis t"
    unfolding utc_seconds_def utc_millis_def m(3) [symmetric] by simp
qed

lemma clock_parts:
  "t = t div DAY * DAY + utc_hours t * 3600000 + utc_minutes t * 60000 + utc_seconds t * 1000 + utc_millis t"
  using clock_split [of t] div_mult_mod_eq [of t DAY] by linarith

lemma clock_bounds:
  "0 \<le> utc_hours t \<and> utc_hours t < 24" "0 \<le> utc_minutes t \<and> utc_minutes t < 60"
  "0 \<le> utc_seconds t \<and> utc_seconds t < 60" "0 \<le> utc_millis t \<and> utc_millis t < 1000"
proof -
  have "0 \<le> t mod DAY" "t mod DAY < 86400000" by (simp_all add: DAY_def)
  then show "0 \<le> utc_hours t \<and> utc_hours t < 24"
    unfolding utc_hours_def using div_bracket [of 3600000 "t mod DAY"] by linarith
  have "0 \<le> t mod 3600000" "t mod 3600000 < 3600000" by simp_all
  then show "0 \<le> utc_minutes t \<and> utc_minutes t < 60"
    unfolding utc_minutes_def using div_bracket [of 60000 "t mod 3600000"] by linarith
  have "0 \<le> t mod 60000" "t mod 60000 < 60000" by simp_all
  then show "0 \<le> utc_seconds t \<and> utc_seconds t < 60"
    unfolding utc_seconds_def using div_bracket [of 1000 "t mod 60000"] by linarith
  show "0 \<le> utc_millis t \<and> utc_millis t < 1000" by (simp add: utc_millis_def)
qed

lemma date_utc_parts:
  "date_utc (utc_year t) (utc_month t) (utc_date t) (utc_hours t) (utc_minutes t) (utc_seconds t) (utc_millis t) = t"
  using clock_parts [of t] by (simp add: date_utc_def utc_date_number)

lemma digits_unique:
  "(k :: int) * a + b = k * c + d \<Longrightarrow> 0 \<le> b \<Longrightarrow> b < k \<Longrightarrow> 0 \<le> d \<Longrightarrow> d < k \<Longrightarrow> a = c \<and> b = d"
  using div_eqI [of k a "k * a + b"] div_eqI [of k c "k * a + b"] by force

lemma clock_of:
  assumes "0 \<le> h" "h < 24" "0 \<le> mi" "mi < 60" "0 \<le> s" "s < 60" "0 \<le> ms" "ms < 1000"
    and t: "t = n * DAY + h * 3600000 + mi * 60000 + s * 1000 + ms"
  shows "t div DAY = n \<and> utc_hours t = h \<and> utc_minutes t = mi \<and> utc_seconds t = s \<and> utc_millis t = ms"
proof -
  note b = clock_bounds [of t] clock_parts [of t]
  have "DAY * (t div DAY) + (utc_hours t * 3600000 + utc_minutes t * 60000 + utc_seconds t * 1000 + utc_millis t)
      = DAY * n + (h * 3600000 + mi * 60000 + s * 1000 + ms)" using b(5) t by (simp add: algebra_simps)
  from digits_unique [OF this] have 1: "t div DAY = n"
    "utc_hours t * 3600000 + utc_minutes t * 60000 + utc_seconds t * 1000 + utc_millis t = h * 3600000 + mi * 60000 + s * 1000 + ms"
    using assms(1-8) b(1-4) by (auto simp: DAY_def)
  have "3600000 * utc_hours t + (utc_minutes t * 60000 + utc_seconds t * 1000 + utc_millis t)
      = 3600000 * h + (mi * 60000 + s * 1000 + ms)" using 1(2) by (simp add: algebra_simps)
  from digits_unique [OF this] have 2: "utc_hours t = h"
    "utc_minutes t * 60000 + utc_seconds t * 1000 + utc_millis t = mi * 60000 + s * 1000 + ms"
    using assms(3-8) b(2-4) by auto
  have "60000 * utc_minutes t + (utc_seconds t * 1000 + utc_millis t) = 60000 * mi + (s * 1000 + ms)"
    using 2(2) by (simp add: algebra_simps)
  from digits_unique [OF this] have 3: "utc_minutes t = mi" "utc_seconds t * 1000 + utc_millis t = s * 1000 + ms"
    using assms(5-8) b(3,4) by auto
  have "1000 * utc_seconds t + utc_millis t = 1000 * s + ms" using 3(2) by (simp add: algebra_simps)
  from digits_unique [OF this] show ?thesis using 1 2 3 assms(7,8) b(4) by auto
qed

end
