(* ===== verification/Json.thy ===== *)
theory Json
  imports Prelude "HOL-Library.AList"
begin

text \<open>
  The JavaScript values \<open>JSON.parse\<close> gives, as the readers of stored files look at them: a
  property that is not there is \<open>undefined\<close> (\<open>None\<close>), a number is a whole one or another
  (a fraction, or one past the doubles' whole numbers). The text of a file is not modelled: a
  reader takes what \<open>JSON.parse\<close> made of it, or \<open>None\<close> where it threw.
\<close>

datatype jv = JNull | JBool bool | JNum int | JOther | JText string | JList "jv list" | JRec "(string \<times> jv) list"

fun is_record :: "jv \<Rightarrow> bool" where
  "is_record (JRec kvs) = True"
| "is_record v = False"

text \<open>\<open>value['k']\<close> of a record.\<close>

fun jget :: "jv \<Rightarrow> string \<Rightarrow> jv option" where
  "jget (JRec kvs) k = map_of kvs k"
| "jget v k = None"

fun text_of :: "jv option \<Rightarrow> string option" where
  "text_of (Some (JText t)) = Some t"
| "text_of v = None"

text \<open>\<open>Number.isSafeInteger(v)\<close> and at least \<open>lo\<close>.\<close>

fun whole_from :: "int \<Rightarrow> jv option \<Rightarrow> bool" where
  "whole_from lo (Some (JNum n)) = (lo \<le> n \<and> n \<le> 9007199254740991)"
| "whole_from lo v = False"

fun num_of :: "jv option \<Rightarrow> int" where
  "num_of (Some (JNum n)) = n"
| "num_of v = 0"

fun list_of :: "jv option \<Rightarrow> jv list option" where
  "list_of (Some (JList xs)) = Some xs"
| "list_of v = None"

text \<open>A property a writer leaves out when it has no value.\<close>

definition opt_prop :: "string \<Rightarrow> string option \<Rightarrow> (string \<times> jv) list" where
  "opt_prop k v = (case v of None \<Rightarrow> [] | Some t \<Rightarrow> [(k, JText t)])"

lemma map_of_opt_prop [simp]: "map_of (opt_prop k v) j = (if j = k then map_option JText v else None)"
  by (simp add: opt_prop_def split: option.split)

lemma text_of_eq [simp]: "text_of v = Some t \<longleftrightarrow> v = Some (JText t)"
  by (cases "(v)" rule: text_of.cases) auto

lemma list_of_eq [simp]: "list_of v = Some xs \<longleftrightarrow> v = Some (JList xs)"
  by (cases "(v)" rule: list_of.cases) auto

text \<open>\<open>text.every(c => ...)\<close>, and the classes of characters the formats use.\<close>

definition is_hex :: "char \<Rightarrow> bool" where
  "is_hex c = (is_digit c \<or> (97 \<le> (of_char c :: nat) \<and> (of_char c :: nat) \<le> 102))"

definition is_lower :: "char \<Rightarrow> bool" where
  "is_lower c = (97 \<le> (of_char c :: nat) \<and> (of_char c :: nat) \<le> 122)"

text \<open>\<open>/^[0-9a-f]{n}$/\<close>.\<close>

definition hex_text :: "nat \<Rightarrow> string \<Rightarrow> bool" where
  "hex_text n s = (length s = n \<and> list_all is_hex s)"

definition ends_with :: "string \<Rightarrow> string \<Rightarrow> bool" where
  "ends_with suf s = (length suf \<le> length s \<and> drop (length s - length suf) s = suf)"

definition starts_with :: "string \<Rightarrow> string \<Rightarrow> bool" where
  "starts_with pre s = (take (length pre) s = pre)"

fun holds_text :: "string \<Rightarrow> string \<Rightarrow> bool" where
  "holds_text pat [] = (pat = [])"
| "holds_text pat (c # s) = (starts_with pat (c # s) \<or> holds_text pat s)"

lemma ends_with_append [simp]: "ends_with suf (pre @ suf)"
  by (simp add: ends_with_def)

section \<open>Numbers padded with zeros\<close>

text \<open>\<open>String(n).padStart(k, '0')\<close>, and the last \<open>k\<close> digits of a number, the same below \<open>10 ^ k\<close>.\<close>

definition pad :: "nat \<Rightarrow> nat \<Rightarrow> string" where
  "pad k n = replicate (k - length (show_nat n)) (CHR ''0'') @ show_nat n"

fun digits :: "nat \<Rightarrow> nat \<Rightarrow> string" where
  "digits 0 n = []"
| "digits (Suc k) n = digits k (n div 10) @ [digit_char (n mod 10)]"

lemma length_digits [simp]: "length (digits k n) = k"
  by (induction k arbitrary: n) simp_all

lemma digit_zero: "digit_char 0 = CHR ''0''"
  by code_simp

lemma digits_zero: "digits k 0 = replicate k (CHR ''0'')"
  by (induction k) (simp_all add: digit_zero replicate_append_same [symmetric])

lemma pad_digits: "0 < k \<Longrightarrow> n < 10 ^ k \<Longrightarrow> pad k n = digits k n"
proof (induction k arbitrary: n)
  case (Suc k)
  show ?case
  proof (cases "n < 10")
    case True
    then show ?thesis by (simp add: pad_def show_nat.simps [of n] digits_zero)
  next
    case False
    then have k: "0 < k" using Suc.prems by (cases k) auto
    have "n div 10 < 10 ^ k" using Suc.prems by (simp add: less_mult_imp_div_less mult.commute)
    then have "pad k (n div 10) = digits k (n div 10)" using Suc.IH k by simp
    moreover have "length (show_nat (n div 10)) \<le> k" using show_nat_length [OF \<open>n div 10 < 10 ^ k\<close> k] .
    ultimately show ?thesis using False by (simp add: pad_def show_nat.simps [of n] Suc_diff_le)
  qed
qed simp

lemma digits_list: "list_all is_digit (digits k n)"
  by (induction k arbitrary: n) simp_all

lemma parse_digits: "parse_nat (digits k n) = n mod 10 ^ k"
proof (induction k arbitrary: n)
  case (Suc k)
  have "n mod 10 ^ Suc k = 10 * (n div 10 mod 10 ^ k) + n mod 10"
    by (simp add: mod_mult2_eq)
  then show ?case by (simp add: parse_nat_snoc Suc)
qed (simp add: parse_nat_def)

lemma digits_inj: "m < 10 ^ k \<Longrightarrow> n < 10 ^ k \<Longrightarrow> digits k m = digits k n \<longleftrightarrow> m = n"
  by (metis parse_digits mod_less)

end
