(* ===== verification/Backup_Ids.thy ===== *)
theory Backup_Ids
  imports Calendar Json "HOL-Library.Char_ord" "HOL-Library.List_Lexorder"
begin

text \<open>
  \<open>packages/backup/src/format/ids.ts\<close> and \<open>definition/define-backup.ts\<close>: the names and the ids of
  backups. An id is its start time and random digits, and the order of ids as texts is the order
  of their times, which the listing, the chain and the rotation rely on. The four random bytes of
  an id are an argument.
\<close>

section \<open>Dates as texts\<close>

text \<open>\<open>toISOString\<close>, and what \<open>new Date\<close> reads of such a text (\<open>None\<close>: an invalid date).\<close>

definition iso_string :: "int \<Rightarrow> string" where
  "iso_string t = (let y = utc_year t in
     (if 0 \<le> y \<and> y \<le> 9999 then pad 4 (nat y) else (if y < 0 then CHR ''-'' else CHR ''+'') # pad 6 (nat \<bar>y\<bar>))
     @ ''-'' @ pad 2 (nat (utc_month t)) @ ''-'' @ pad 2 (nat (utc_date t)) @ ''T'' @ pad 2 (nat (utc_hours t))
     @ '':'' @ pad 2 (nat (utc_minutes t)) @ '':'' @ pad 2 (nat (utc_seconds t)) @ ''.'' @ pad 3 (nat (utc_millis t)) @ ''Z'')"

definition sub :: "nat \<Rightarrow> nat \<Rightarrow> string \<Rightarrow> string" where
  "sub i n s = take n (drop i s)"

definition num_at :: "nat \<Rightarrow> nat \<Rightarrow> string \<Rightarrow> int" where
  "num_at i n s = int (parse_nat (sub i n s))"

definition iso_rest :: "int \<Rightarrow> string \<Rightarrow> int option" where
  "iso_rest y r = (let mo = num_at 1 2 r; d = num_at 4 2 r; h = num_at 7 2 r; mi = num_at 10 2 r; s = num_at 13 2 r; ms = num_at 16 3 r in
     if length r = 20 \<and> map (\<lambda>i. r ! i) [0, 3, 6, 9, 12, 15, 19] = ''--T::.Z''
        \<and> list_all is_digit (sub 1 2 r @ sub 4 2 r @ sub 7 2 r @ sub 10 2 r @ sub 13 2 r @ sub 16 3 r)
        \<and> 1 \<le> mo \<and> mo \<le> 12 \<and> 1 \<le> d \<and> d \<le> month_len y mo \<and> mi < 60 \<and> s < 60
        \<and> (h < 24 \<or> h = 24 \<and> mi = 0 \<and> s = 0 \<and> ms = 0)
     then Some (date_utc y mo d h mi s ms) else None)"

definition iso_time :: "string \<Rightarrow> int option" where
  "iso_time s = (if s \<noteq> '''' \<and> hd s \<in> {CHR ''+'', CHR ''-''}
     then (if list_all is_digit (sub 1 6 s) then iso_rest ((if hd s = CHR ''-'' then -1 else 1) * num_at 1 6 s) (drop 7 s) else None)
     else if list_all is_digit (take 4 s) then iso_rest (num_at 0 4 s) (drop 4 s) else None)"

section \<open>Names and ids\<close>

definition name_char :: "char \<Rightarrow> bool" where
  "name_char c = (is_lower c \<or> is_digit c \<or> c \<in> {CHR ''.'', CHR ''_'', CHR ''-''})"

fun isBackupName :: "jv option \<Rightarrow> bool" where
  "isBackupName (Some (JText n)) = (n \<noteq> '''' \<and> length n \<le> 100 \<and> (is_lower (hd n) \<or> is_digit (hd n)) \<and> list_all name_char n
     \<and> \<not> holds_text ''.partial-'' n)"
| "isBackupName v = False"

definition NAME_ERROR :: string where
  "NAME_ERROR = ''defineBackup: the name must be 1 to 100 characters, lowercase letters, digits, \".\", \"_\" and \"-\", starting with a letter or a digit, without \".partial-\"''"

definition defineBackup :: "jv option \<Rightarrow> string result" where
  "defineBackup n = (if \<not> isBackupName n then Inl NAME_ERROR else (case text_of n of Some t \<Rightarrow> Inr t | None \<Rightarrow> Inl NAME_ERROR))"

definition hex_digit :: "nat \<Rightarrow> char" where
  "hex_digit n = (if n < 10 then digit_char n else char_of (87 + n))"

text \<open>\<open>Buffer.from(random).toString('hex')\<close>.\<close>

definition hex_of :: "nat list \<Rightarrow> string" where
  "hex_of bs = concat (map (\<lambda>b. [hex_digit (b div 16), hex_digit (b mod 16)]) bs)"

definition newBackupId :: "int \<Rightarrow> nat list \<Rightarrow> string" where
  "newBackupId t random = remove1 (CHR ''.'') (filter (\<lambda>c. c \<notin> {CHR ''-'', CHR '':''}) (iso_string t)) @ ''-'' @ hex_of random"

definition id_text :: "string \<Rightarrow> bool" where
  "id_text s = (length s = 28 \<and> list_all is_digit (sub 0 8 s @ sub 9 9 s) \<and> map (\<lambda>i. s ! i) [8, 18, 19] = ''TZ-''
     \<and> list_all is_hex (drop 20 s))"

fun isBackupId :: "jv option \<Rightarrow> bool" where
  "isBackupId (Some (JText s)) = id_text s"
| "isBackupId v = False"

definition timeOfId :: "string \<Rightarrow> int option" where
  "timeOfId s = iso_time (sub 0 4 s @ ''-'' @ sub 4 2 s @ ''-'' @ sub 6 2 s @ ''T'' @ sub 9 2 s @ '':'' @ sub 11 2 s
     @ '':'' @ sub 13 2 s @ ''.'' @ sub 15 3 s @ ''Z'')"

section \<open>An id holds its time\<close>

text \<open>The seven numbers of a date, as fixed runs of digits.\<close>

definition year_4 :: "int \<Rightarrow> bool" where
  "year_4 t = (0 \<le> utc_year t \<and> utc_year t \<le> 9999)"

abbreviation fld :: "nat \<Rightarrow> int \<Rightarrow> string" where
  "fld k x \<equiv> digits k (nat x)"

lemma utc_ranges:
  "nat (utc_month t) < 100" "nat (utc_date t) < 100" "nat (utc_hours t) < 100" "nat (utc_minutes t) < 100"
  "nat (utc_seconds t) < 100" "nat (utc_millis t) < 1000"
  using utc_month_bounds [of t] month_len_31 [of "utc_month t" "utc_year t"] clock_bounds [of t] by auto

lemma iso_string_digits:
  assumes "year_4 t"
  shows "iso_string t = fld 4 (utc_year t) @ ''-'' @ fld 2 (utc_month t) @ ''-'' @ fld 2 (utc_date t) @ ''T'' @ fld 2 (utc_hours t)
     @ '':'' @ fld 2 (utc_minutes t) @ '':'' @ fld 2 (utc_seconds t) @ ''.'' @ fld 3 (utc_millis t) @ ''Z''"
proof -
  have "nat (utc_year t) < 10000" using assms by (auto simp: year_4_def)
  then show ?thesis using assms utc_ranges [of t] by (simp add: iso_string_def year_4_def Let_def pad_digits)
qed

lemma digit_not: "is_digit c \<Longrightarrow> c \<notin> {CHR ''-'', CHR '':'', CHR ''.'', CHR ''+''}"
  by (auto simp: is_digit_def)

lemma digits_clean:
  "filter (\<lambda>c. c \<noteq> CHR ''-'' \<and> c \<noteq> CHR '':'') (digits k n) = digits k n" "CHR ''.'' \<notin> set (digits k n)"
  using digits_list [of k n] digit_not by (auto simp: list_all_iff intro!: filter_True)

lemma newBackupId_digits:
  assumes "year_4 t"
  shows "newBackupId t bs = fld 4 (utc_year t) @ fld 2 (utc_month t) @ fld 2 (utc_date t) @ ''T'' @ fld 2 (utc_hours t)
     @ fld 2 (utc_minutes t) @ fld 2 (utc_seconds t) @ fld 3 (utc_millis t) @ ''Z-'' @ hex_of bs"
  by (simp add: newBackupId_def iso_string_digits [OF assms] digits_clean remove1_append)

lemma digits_Nil [simp]: "digits k n = [] \<longleftrightarrow> k = 0"
  by (cases k) simp_all

lemma iso_rest_fields:
  assumes "mo < 100" "d < 100" "h < 100" "mi < 100" "s < 100" "ms < 1000"
  shows "iso_rest y (''-'' @ digits 2 mo @ ''-'' @ digits 2 d @ ''T'' @ digits 2 h @ '':'' @ digits 2 mi @ '':'' @ digits 2 s
      @ ''.'' @ digits 3 ms @ ''Z'') =
    (if 1 \<le> mo \<and> mo \<le> 12 \<and> 1 \<le> d \<and> int d \<le> month_len y (int mo) \<and> mi < 60 \<and> s < 60 \<and> (h < 24 \<or> h = 24 \<and> mi = 0 \<and> s = 0 \<and> ms = 0)
     then Some (date_utc y (int mo) (int d) (int h) (int mi) (int s) (int ms)) else None)" (is "iso_rest y ?r = _")
proof -
  have f: "sub 1 2 ?r = digits 2 mo" "sub 4 2 ?r = digits 2 d" "sub 7 2 ?r = digits 2 h" "sub 10 2 ?r = digits 2 mi"
    "sub 13 2 ?r = digits 2 s" "sub 16 3 ?r = digits 3 ms"
    by (simp_all add: sub_def)
  have c: "length ?r = 20" "map (\<lambda>i. ?r ! i) [0, 3, 6, 9, 12, 15, 19] = ''--T::.Z''"
    by (simp_all add: nth_append)
  have n: "parse_nat (digits 2 k) = k" if "k < 100" for k using that by (simp add: parse_digits)
  have "parse_nat (digits 3 ms) = ms" using assms by (simp add: parse_digits)
  then show ?thesis
    unfolding iso_rest_def Let_def num_at_def f c using n assms by (simp add: digits_list)
qed

lemma iso_time_digits:
  assumes "year_4 t"
  shows "iso_time (iso_string t) = Some t"
proof -
  have h: "hd (digits 4 n) \<noteq> CHR ''+'' \<and> hd (digits 4 n) \<noteq> CHR ''-''" for n
    using digits_list [of 4 n] digit_not [of "hd (digits 4 n)"] list.set_sel(1) [of "digits 4 n"] by (simp add: list_all_iff)
  have y: "nat (utc_year t) < 10000" "0 \<le> utc_year t" using assms by (auto simp: year_4_def)
  note b = clock_bounds [of t] utc_month_bounds [of t]
  have r: "iso_rest (utc_year t) (''-'' @ fld 2 (utc_month t) @ ''-'' @ fld 2 (utc_date t) @ ''T'' @ fld 2 (utc_hours t)
     @ '':'' @ fld 2 (utc_minutes t) @ '':'' @ fld 2 (utc_seconds t) @ ''.'' @ fld 3 (utc_millis t) @ ''Z'') = Some t"
    unfolding iso_rest_fields [OF utc_ranges] using b date_utc_parts [of t] by (auto simp: nat_less_iff le_nat_iff nat_le_iff)
  show ?thesis unfolding iso_string_digits [OF assms] iso_time_def
    using h y r by (simp add: num_at_def sub_def parse_digits digits_list)
qed

lemma hex_of_hex: "\<forall>b \<in> set bs. b < 256 \<Longrightarrow> list_all is_hex (hex_of bs) \<and> length (hex_of bs) = 2 * length bs"
proof (induction bs)
  case (Cons b bs)
  have "n < 16 \<Longrightarrow> is_hex (hex_digit n)" for n
    by (simp add: hex_digit_def is_hex_def)
  moreover have "b div 16 < 16" using Cons.prems by (simp add: less_mult_imp_div_less)
  ultimately show ?case using Cons by (simp add: hex_of_def)
qed (simp add: hex_of_def)

lemma id_text_new:
  assumes "year_4 t" and "length bs = 4" and "\<forall>b \<in> set bs. b < 256"
  shows "id_text (newBackupId t bs)" and "timeOfId (newBackupId t bs) = Some t"
proof -
  show "id_text (newBackupId t bs)"
    using hex_of_hex [OF assms(3)] assms(2)
    by (simp add: newBackupId_digits [OF assms(1)] id_text_def sub_def nth_append digits_list)
  have "timeOfId (newBackupId t bs) = iso_time (iso_string t)"
    by (simp add: timeOfId_def newBackupId_digits [OF assms(1)] iso_string_digits [OF assms(1)] sub_def)
  then show "timeOfId (newBackupId t bs) = Some t" by (simp add: iso_time_digits [OF assms(1)])
qed

section \<open>The order of ids is the order of their times\<close>

lemma less_append: "length xs = length ys \<Longrightarrow> (xs @ as < ys @ bs) = (xs < ys \<or> xs = ys \<and> as < (bs :: string))"
proof (induction xs arbitrary: ys)
  case (Cons x xs)
  then show ?case by (cases ys) auto
qed simp

lemma digit_less: "m < 10 \<Longrightarrow> n < 10 \<Longrightarrow> digit_char m < digit_char n \<longleftrightarrow> m < n"
  by (simp add: less_char_def of_char_digit)

lemma digits_less: "m < 10 ^ k \<Longrightarrow> n < 10 ^ k \<Longrightarrow> digits k m < digits k n \<longleftrightarrow> m < n"
proof (induction k arbitrary: m n)
  case (Suc k)
  have b: "m div 10 < 10 ^ k" "n div 10 < 10 ^ k" using Suc.prems by (simp_all add: less_mult_imp_div_less mult.commute)
  have "b < 10 \<Longrightarrow> d < 10 \<Longrightarrow> (10 * a + b < 10 * c + d \<longleftrightarrow> a < c \<or> a = c \<and> b < d)" for a b c d :: nat
    by (cases a c rule: linorder_cases) auto
  from this [of "m mod 10" "n mod 10" "m div 10" "n div 10"]
  have "m < n \<longleftrightarrow> m div 10 < n div 10 \<or> m div 10 = n div 10 \<and> m mod 10 < n mod 10" by simp
  then show ?case using Suc.IH [OF b] digits_inj [OF b] by (simp add: less_append digit_less)
qed simp

lemma fld_less: "0 \<le> a \<Longrightarrow> 0 \<le> b \<Longrightarrow> nat a < 10 ^ k \<Longrightarrow> nat b < 10 ^ k \<Longrightarrow>
    (fld k a @ as < fld k b @ bs) = (a < b \<or> a = b \<and> as < bs)"
  using digits_less [of "nat a" k "nat b"] digits_inj [of "nat a" k "nat b"] by (auto simp: less_append)

text \<open>Dates compare as their numbers do, the year first.\<close>

lemma digit_step: "0 < k \<Longrightarrow> 0 \<le> b \<Longrightarrow> b < k \<Longrightarrow> 0 \<le> d \<Longrightarrow> d < (k :: int) \<Longrightarrow>
    k * a + b < k * c + d \<longleftrightarrow> a < c \<or> a = c \<and> b < d"
proof -
  assume k: "0 < k" "0 \<le> b" "b < k" "0 \<le> d" "d < k"
  have "a + 1 \<le> c \<Longrightarrow> k * a + k \<le> k * c" for a c :: int using mult_left_mono [of "a + 1" c k] k(1) by (simp add: algebra_simps)
  then show ?thesis using k by (smt (verit))
qed

lemma number_less:
  "t div DAY < u div DAY \<longleftrightarrow> utc_year t < utc_year u \<or> utc_year t = utc_year u \<and>
    (utc_month t < utc_month u \<or> utc_month t = utc_month u \<and> utc_date t < utc_date u)"
proof -
  have y: "utc_year a < utc_year b \<Longrightarrow> a div DAY < b div DAY" for a b
    using year_of_bounds [of "a div DAY"] year_of_bounds [of "b div DAY"] year_start_mono [of "utc_year a + 1" "utc_year b"]
    by (simp add: utc_year_def)
  have m: "utc_year a = utc_year b \<Longrightarrow> utc_month a < utc_month b \<Longrightarrow> a div DAY < b div DAY" for a b
  proof -
    assume "utc_year a = utc_year b" "utc_month a < utc_month b"
    moreover have "month_start l i \<le> month_start l j" if "1 \<le> i" "i \<le> j" "j \<le> 12" for i j l
      using that int_upto_12 [of i] int_upto_12 [of j] by (auto simp: month_start_def)
    moreover note utc_month_bounds [of a] utc_month_bounds [of b] utc_date_number [of a] utc_date_number [of b]
    ultimately show ?thesis
      unfolding day_number_def month_len_def by (smt (verit))
  qed
  have d: "utc_year a = utc_year b \<Longrightarrow> utc_month a = utc_month b \<Longrightarrow> (a div DAY < b div DAY \<longleftrightarrow> utc_date a < utc_date b)" for a b
    using utc_date_number [of a] utc_date_number [of b] unfolding day_number_def by force
  show ?thesis using y [of t u] y [of u t] m [of t u] m [of u t] d [of t u] by (smt (verit))
qed

lemma time_less:
  "t < u \<longleftrightarrow> t div DAY < u div DAY \<or> t div DAY = u div DAY \<and> (utc_hours t < utc_hours u \<or> utc_hours t = utc_hours u \<and>
    (utc_minutes t < utc_minutes u \<or> utc_minutes t = utc_minutes u \<and>
    (utc_seconds t < utc_seconds u \<or> utc_seconds t = utc_seconds u \<and> utc_millis t < utc_millis u)))"
proof -
  note b = clock_bounds [of t] clock_bounds [of u] clock_split [of t] clock_split [of u]
  have D: "t = DAY * (t div DAY) + t mod DAY" "u = DAY * (u div DAY) + u mod DAY" by simp_all
  have m: "0 \<le> x mod k \<and> x mod k < k" if "0 < k" for x k :: int using that by simp
  have "t < u \<longleftrightarrow> t div DAY < u div DAY \<or> t div DAY = u div DAY \<and> t mod DAY < u mod DAY"
    using digit_step [of DAY "t mod DAY" "u mod DAY" "t div DAY" "u div DAY"] m [of DAY t] m [of DAY u] D by (simp add: DAY_def)
  moreover have "t mod DAY < u mod DAY \<longleftrightarrow> utc_hours t < utc_hours u \<or> utc_hours t = utc_hours u \<and> t mod 3600000 < u mod 3600000"
    using digit_step [of 3600000 "t mod 3600000" "u mod 3600000" "utc_hours t" "utc_hours u"] m [of 3600000 t] m [of 3600000 u] b
    by (simp add: mult.commute)
  moreover have "t mod 3600000 < u mod 3600000 \<longleftrightarrow>
      utc_minutes t < utc_minutes u \<or> utc_minutes t = utc_minutes u \<and> t mod 60000 < u mod 60000"
    using digit_step [of 60000 "t mod 60000" "u mod 60000" "utc_minutes t" "utc_minutes u"] m [of 60000 t] m [of 60000 u] b
    by (simp add: mult.commute)
  moreover have "t mod 60000 < u mod 60000 \<longleftrightarrow>
      utc_seconds t < utc_seconds u \<or> utc_seconds t = utc_seconds u \<and> utc_millis t < utc_millis u"
    using digit_step [of 1000 "utc_millis t" "utc_millis u" "utc_seconds t" "utc_seconds u"] b by (simp add: mult.commute)
  ultimately show ?thesis by simp
qed

lemma id_less:
  assumes "year_4 t" and "year_4 u"
  shows "newBackupId t bs < newBackupId u cs \<longleftrightarrow> t < u \<or> t = u \<and> hex_of bs < hex_of cs"
proof -
  have y: "nat (utc_year t) < 10000" "0 \<le> utc_year t" "nat (utc_year u) < 10000" "0 \<le> utc_year u"
    using assms by (auto simp: year_4_def)
  note r = utc_ranges [of t] utc_ranges [of u]
  have z: "0 \<le> utc_month x" "0 \<le> utc_date x" "0 \<le> utc_hours x" "0 \<le> utc_minutes x" "0 \<le> utc_seconds x" "0 \<le> utc_millis x" for x
    using clock_bounds [of x] utc_month_bounds [of x] by auto
  have eq: "t div DAY = u div DAY \<longleftrightarrow> utc_year t = utc_year u \<and> utc_month t = utc_month u \<and> utc_date t = utc_date u"
    using utc_date_number [of t] utc_date_number [of u] by (auto simp: utc_year_def utc_month_def utc_date_def day_of_year_def)
  have teq: "t = u \<longleftrightarrow> t div DAY = u div DAY \<and> utc_hours t = utc_hours u \<and> utc_minutes t = utc_minutes u
      \<and> utc_seconds t = utc_seconds u \<and> utc_millis t = utc_millis u"
    using clock_parts [of t] clock_parts [of u] by metis
  show ?thesis
  proof -
    have "newBackupId t bs < newBackupId u cs \<longleftrightarrow> utc_year t < utc_year u \<or> utc_year t = utc_year u \<and> (utc_month t < utc_month u \<or>
      utc_month t = utc_month u \<and> (utc_date t < utc_date u \<or> utc_date t = utc_date u \<and> (utc_hours t < utc_hours u \<or>
      utc_hours t = utc_hours u \<and> (utc_minutes t < utc_minutes u \<or> utc_minutes t = utc_minutes u \<and> (utc_seconds t < utc_seconds u \<or>
      utc_seconds t = utc_seconds u \<and> (utc_millis t < utc_millis u \<or> utc_millis t = utc_millis u \<and> hex_of bs < hex_of cs))))))"
      unfolding newBackupId_digits [OF assms(1)] newBackupId_digits [OF assms(2)] by (simp add: fld_less y r z)
    then show ?thesis unfolding time_less [of t u] number_less [of t u] teq eq by blast
  qed
qed

text \<open>Ids sort as the times their backups started at: an id is one \<open>isBackupId\<close> accepts, \<open>timeOfId\<close>
  reads back exactly the millisecond it was made at, and for two ids the order of the texts is the order
  of the times, and of the random digits within one millisecond.\<close>

theorem ids_hold_their_time:
  assumes "year_4 t" and "year_4 u" and "length bs = 4" and "\<forall>b \<in> set bs. b < 256"
  shows "isBackupId (Some (JText (newBackupId t bs))) \<and> timeOfId (newBackupId t bs) = Some t
    \<and> (newBackupId t bs < newBackupId u cs \<longleftrightarrow> t < u \<or> t = u \<and> hex_of bs < hex_of cs)"
  using id_text_new [OF assms(1,3,4)] id_less [OF assms(1,2)] by simp

theorem ids_hold_their_time_witness:
  "timeOfId (newBackupId 1791065700123 [159, 58, 97, 192]) = Some 1791065700123 \<and>
   newBackupId 1791065700123 [159, 58, 97, 192] < newBackupId 1791065700124 [0, 0, 0, 0]"
proof -
  have "year_4 1791065700123" "year_4 1791065700124" by code_simp+
  from ids_hold_their_time [OF this, of "[159, 58, 97, 192]" "[0, 0, 0, 0]"] show ?thesis by simp
qed

end
