(* ===== verification/Backup_Format.thy ===== *)
theory Backup_Format
  imports Backup_Ids
begin

text \<open>
  \<open>packages/backup/src/format/manifest.ts\<close> and \<open>format/catalog.ts\<close>: the two files a backup is read
  from, and the checks a reader makes of them. A repository is not trusted: what is read back is a
  manifest or a catalog this package could have written, or the reason it is not. A fingerprint and
  a position count UTF-8 bytes; a text of the model is its bytes.
\<close>

section \<open>The manifest\<close>

datatype backup_kind = Full | Incremental | Differential

fun kind_text :: "backup_kind \<Rightarrow> string" where
  "kind_text Full = ''full''"
| "kind_text Incremental = ''incremental''"
| "kind_text Differential = ''differential''"

fun kind_of_text :: "string \<Rightarrow> backup_kind option" where
  "kind_of_text t = (if t = ''full'' then Some Full else if t = ''incremental'' then Some Incremental
     else if t = ''differential'' then Some Differential else None)"

record stored_object =
  so_key :: string
  so_size :: int
  so_sha256 :: string

record manifest =
  m_backup :: string
  m_id :: string
  m_createdAt :: string
  m_kind :: backup_kind
  m_parent :: "string option"
  m_recipients :: "string list"
  m_catalog :: stored_object
  m_objects :: "stored_object list"

definition MANIFEST_FORMAT :: string where
  "MANIFEST_FORMAT = ''nxgt-backup/1''"

text \<open>\<open>/^\d{1,9}\.age$/\<close> and \<open>/^(?:\d{1,9}|catalog)\.age$/\<close>.\<close>

definition object_key :: "string \<Rightarrow> bool" where
  "object_key k = (ends_with ''.age'' k \<and> (let n = take (length k - 4) k in n \<noteq> '''' \<and> length n \<le> 9 \<and> list_all is_digit n))"

definition object_name :: "nat \<Rightarrow> string" where
  "object_name i = show_nat i @ ''.age''"

fun objectProblem :: "jv option \<Rightarrow> string option" where
  "objectProblem (Some v) = (if \<not> is_record v then Some ''an object is not a record''
     else if (case text_of (jget v ''key'') of None \<Rightarrow> True | Some k \<Rightarrow> \<not> (object_key k \<or> k = ''catalog.age''))
       then Some ''an object key is not one this format writes''
     else if \<not> whole_from 0 (jget v ''size'') then Some ''an object size is not a whole number of bytes''
     else if (case text_of (jget v ''sha256'') of None \<Rightarrow> True | Some h \<Rightarrow> \<not> hex_text 64 h)
       then Some ''an object sha256 is not 64 hex digits''
     else None)"
| "objectProblem None = Some ''an object is not a record''"

definition or_text :: "string option \<Rightarrow> string" where
  "or_text t = (case t of None \<Rightarrow> '''' | Some s \<Rightarrow> s)"

definition keep_object :: "jv option \<Rightarrow> stored_object" where
  "keep_object v = (case v of None \<Rightarrow> \<lparr>so_key = '''', so_size = 0, so_sha256 = ''''\<rparr>
     | Some r \<Rightarrow> \<lparr>so_key = or_text (text_of (jget r ''key'')), so_size = num_of (jget r ''size''),
         so_sha256 = or_text (text_of (jget r ''sha256''))\<rparr>)"

text \<open>\<open>new Date(createdAt).toISOString() === createdAt\<close>, a valid date.\<close>

definition iso_date :: "jv option \<Rightarrow> bool" where
  "iso_date v = (case text_of v of None \<Rightarrow> False
     | Some s \<Rightarrow> (case iso_time s of None \<Rightarrow> False | Some t \<Rightarrow> iso_string t = s))"

definition age_key :: "jv \<Rightarrow> bool" where
  "age_key v = (case text_of (Some v) of None \<Rightarrow> False | Some s \<Rightarrow> starts_with ''age1'' s)"

definition shapeProblem :: "jv \<Rightarrow> string option" where
  "shapeProblem v =
     (if jget v ''format'' \<noteq> Some (JText MANIFEST_FORMAT)
      then Some (case text_of (jget v ''format'') of
          Some f \<Rightarrow> if starts_with ''nxgt-backup/'' f then ''its format is one this version does not read'' else ''it is not an nxgt-backup manifest''
        | None \<Rightarrow> ''it is not an nxgt-backup manifest'')
      else if \<not> isBackupName (jget v ''backup'') then Some ''its backup name is not one''
      else if \<not> isBackupId (jget v ''id'') then Some ''its id is not a backup id''
      else if \<not> iso_date (jget v ''createdAt'') then Some ''its createdAt is not an ISO date''
      else (case text_of (jget v ''kind'') of None \<Rightarrow> Some ''its kind is not one this version reads''
        | Some kt \<Rightarrow> (case kind_of_text kt of None \<Rightarrow> Some ''its kind is not one this version reads''
          | Some kind \<Rightarrow>
              if (if kind = Full then jget v ''parent'' \<noteq> Some JNull
                  else \<not> isBackupId (jget v ''parent'') \<or> or_text (text_of (jget v ''parent'')) \<ge> or_text (text_of (jget v ''id'')))
              then Some ''its parent does not fit its kind''
              else if jget v ''compression'' \<noteq> Some (JText ''zstd'') then Some ''its compression is not zstd''
              else (case list_of (jget v ''recipients'') of None \<Rightarrow> Some ''its recipients are not age public keys''
                | Some rs \<Rightarrow> if rs = [] \<or> \<not> list_all age_key rs then Some ''its recipients are not age public keys'' else None))))"

fun numbered :: "nat \<Rightarrow> jv list \<Rightarrow> string option" where
  "numbered i [] = None"
| "numbered i (v # vs) = (case objectProblem (Some v) of Some p \<Rightarrow> Some p
     | None \<Rightarrow> if or_text (text_of (jget v ''key'')) \<noteq> object_name i then Some ''its objects are not numbered in order''
       else numbered (Suc i) vs)"

definition objectsProblem :: "jv \<Rightarrow> string option" where
  "objectsProblem v = (case objectProblem (jget v ''catalog'') of Some p \<Rightarrow> Some p
     | None \<Rightarrow> if so_key (keep_object (jget v ''catalog'')) \<noteq> ''catalog.age'' then Some ''its catalog key is not catalog.age''
       else (case list_of (jget v ''objects'') of None \<Rightarrow> Some ''its objects are not a list'' | Some os \<Rightarrow> numbered 0 os))"

text \<open>\<open>readManifest\<close>: of what \<open>JSON.parse\<close> gave, \<open>None\<close> where it threw.\<close>

definition readManifest :: "jv option \<Rightarrow> manifest result" where
  "readManifest parsed = (case parsed of None \<Rightarrow> Inl ''it is not JSON''
     | Some v \<Rightarrow> if \<not> is_record v then Inl ''it is not a JSON object''
       else (case shapeProblem v of Some p \<Rightarrow> Inl p
         | None \<Rightarrow> (case objectsProblem v of Some p \<Rightarrow> Inl p
           | None \<Rightarrow> Inr \<lparr>m_backup = or_text (text_of (jget v ''backup'')), m_id = or_text (text_of (jget v ''id'')),
               m_createdAt = or_text (text_of (jget v ''createdAt'')),
               m_kind = (case kind_of_text (or_text (text_of (jget v ''kind''))) of Some k \<Rightarrow> k | None \<Rightarrow> Full),
               m_parent = text_of (jget v ''parent''),
               m_recipients = map (\<lambda>r. or_text (text_of (Some r))) (case list_of (jget v ''recipients'') of Some rs \<Rightarrow> rs | None \<Rightarrow> []),
               m_catalog = keep_object (jget v ''catalog''),
               m_objects = map (\<lambda>ob. keep_object (Some ob)) (case list_of (jget v ''objects'') of Some os \<Rightarrow> os | None \<Rightarrow> [])\<rparr>)))"

text \<open>The file \<open>create\<close> writes for a manifest.\<close>

definition object_json :: "stored_object \<Rightarrow> jv" where
  "object_json ob = JRec [(''key'', JText (so_key ob)), (''size'', JNum (so_size ob)), (''sha256'', JText (so_sha256 ob))]"

definition manifest_json :: "manifest \<Rightarrow> jv" where
  "manifest_json m = JRec [(''format'', JText MANIFEST_FORMAT), (''backup'', JText (m_backup m)), (''id'', JText (m_id m)),
     (''createdAt'', JText (m_createdAt m)), (''kind'', JText (kind_text (m_kind m))),
     (''parent'', (case m_parent m of None \<Rightarrow> JNull | Some p \<Rightarrow> JText p)),
     (''recipients'', JList (map JText (m_recipients m))), (''compression'', JText ''zstd''),
     (''catalog'', object_json (m_catalog m)), (''objects'', JList (map object_json (m_objects m)))]"

section \<open>What a manifest promises\<close>

definition object_ok :: "stored_object \<Rightarrow> bool" where
  "object_ok ob = (0 \<le> so_size ob \<and> so_size ob \<le> 9007199254740991 \<and> hex_text 64 (so_sha256 ob))"

definition manifest_ok :: "manifest \<Rightarrow> bool" where
  "manifest_ok m = (isBackupName (Some (JText (m_backup m))) \<and> id_text (m_id m) \<and> iso_date (Some (JText (m_createdAt m)))
     \<and> (case m_parent m of None \<Rightarrow> m_kind m = Full | Some p \<Rightarrow> m_kind m \<noteq> Full \<and> id_text p \<and> p < m_id m)
     \<and> m_recipients m \<noteq> [] \<and> list_all (starts_with ''age1'') (m_recipients m)
     \<and> so_key (m_catalog m) = ''catalog.age'' \<and> object_ok (m_catalog m)
     \<and> map so_key (m_objects m) = map object_name [0..<length (m_objects m)]
     \<and> list_all object_ok (m_objects m) \<and> list_all (\<lambda>ob. object_key (so_key ob)) (m_objects m))"

lemma kind_texts [simp]: "kind_of_text (kind_text k) = Some k"
  by (cases k) simp_all

lemma kind_of_text_eq: "kind_of_text t = Some k \<Longrightarrow> t = kind_text k"
  by (simp split: if_splits)

declare kind_of_text.simps [simp del]

lemma keep_object_json [simp]: "keep_object (Some (object_json ob)) = ob"
  by (simp add: keep_object_def object_json_def or_text_def)

lemma object_key_name: "i < 10 ^ 9 \<Longrightarrow> object_key (object_name i)"
  using show_nat_length [of i 9] by (simp add: object_key_def object_name_def ends_with_def Let_def show_nat_digits)

lemma objectProblem_json: "object_ok ob \<Longrightarrow> object_key (so_key ob) \<or> so_key ob = ''catalog.age'' \<Longrightarrow> objectProblem (Some (object_json ob)) = None"
  by (simp add: object_json_def object_ok_def)

lemma numbered_json:
  "map so_key os = map object_name [i..<i + length os] \<Longrightarrow> list_all object_ok os \<Longrightarrow> list_all (\<lambda>ob. object_key (so_key ob)) os \<Longrightarrow>
    numbered i (map object_json os) = None"
proof (induction os arbitrary: i)
  case (Cons ob os)
  have "[i..<i + length (ob # os)] = i # [Suc i..<Suc i + length os]" by (simp add: upt_rec [of i] Suc_le_eq)
  then have k: "so_key ob = object_name i" "map so_key os = map object_name [Suc i..<Suc i + length os]" using Cons.prems(1) by simp_all
  have "objectProblem (Some (object_json ob)) = None"
    using objectProblem_json [of ob] Cons.prems(2,3) by simp
  moreover have "text_of (jget (object_json ob) ''key'') = Some (object_name i)" by (simp add: object_json_def k(1))
  ultimately show ?case using Cons.IH [OF k(2)] Cons.prems(2,3) by (simp add: or_text_def del: text_of_eq objectProblem.simps)
qed simp

lemma read_written:
  assumes "manifest_ok m"
  shows "readManifest (Some (manifest_json m)) = Inr m"
proof -
  let ?v = "manifest_json m"
  note ok = assms [unfolded manifest_ok_def]
  have p: "jget ?v ''format'' = Some (JText MANIFEST_FORMAT)" "jget ?v ''backup'' = Some (JText (m_backup m))"
    "jget ?v ''id'' = Some (JText (m_id m))" "jget ?v ''createdAt'' = Some (JText (m_createdAt m))"
    "jget ?v ''kind'' = Some (JText (kind_text (m_kind m)))" "jget ?v ''parent'' = Some (case m_parent m of None \<Rightarrow> JNull | Some p \<Rightarrow> JText p)"
    "jget ?v ''recipients'' = Some (JList (map JText (m_recipients m)))" "jget ?v ''compression'' = Some (JText ''zstd'')"
    "jget ?v ''catalog'' = Some (object_json (m_catalog m))" "jget ?v ''objects'' = Some (JList (map object_json (m_objects m)))"
    by (simp_all add: manifest_json_def)
  have r: "list_all age_key (map JText (m_recipients m))"
    using ok by (simp add: list_all_iff age_key_def)
  have "shapeProblem ?v = None"
    using ok r unfolding shapeProblem_def p by (auto simp: or_text_def split: option.splits)
  moreover have "objectsProblem ?v = None"
    using ok numbered_json [of "m_objects m" 0] objectProblem_json [of "m_catalog m"]
    unfolding objectsProblem_def p by (simp del: objectProblem.simps)
  moreover have "is_record ?v" by (simp add: manifest_json_def)
  moreover have "map (\<lambda>r. or_text (text_of (Some (JText r)))) (m_recipients m) = m_recipients m"
    by (simp add: or_text_def)
  moreover have "text_of (Some (case m_parent m of None \<Rightarrow> JNull | Some p \<Rightarrow> JText p)) = m_parent m"
    by (cases "m_parent m") simp_all
  ultimately show ?thesis by (simp add: readManifest_def p or_text_def comp_def)
qed

lemma object_name_catalog: "object_name i \<noteq> ''catalog.age''"
proof
  assume a: "object_name i = ''catalog.age''"
  have "hd (show_nat i) = hd (object_name i)" by (simp add: object_name_def hd_append)
  then have "hd (show_nat i) = CHR ''c''" unfolding a by simp
  moreover have "is_digit (hd (show_nat i))" using show_nat_digits [of i] show_nat_nonempty [of i] by (cases "show_nat i") auto
  ultimately show False by (simp add: is_digit_def)
qed

lemma object_read: "objectProblem v = None \<Longrightarrow> object_ok (keep_object v) \<and> v \<noteq> None \<and> (object_key (so_key (keep_object v)) \<or> so_key (keep_object v) = ''catalog.age'')"
proof (cases v)
  case (Some r)
  assume n: "objectProblem v = None"
  obtain k where "whole_from 0 (jget r ''size'')" and "text_of (jget r ''sha256'') = Some k" and "hex_text 64 k"
    using n Some by (auto split: if_splits option.splits)
  moreover obtain kk where "text_of (jget r ''key'') = Some kk" and "object_key kk \<or> kk = ''catalog.age''"
    using n Some by (auto simp del: text_of_eq split: if_splits option.splits)
  ultimately show ?thesis using Some by (cases "jget r ''size''" rule: num_of.cases) (auto simp: keep_object_def object_ok_def or_text_def)
qed simp

lemma numbered_read:
  "numbered i vs = None \<Longrightarrow> map so_key (map (\<lambda>ob. keep_object (Some ob)) vs) = map object_name [i..<i + length vs]
    \<and> list_all object_ok (map (\<lambda>ob. keep_object (Some ob)) vs) \<and> list_all (\<lambda>ob. object_key (so_key ob)) (map (\<lambda>ob. keep_object (Some ob)) vs)"
proof (induction vs arbitrary: i)
  case (Cons v vs)
  have "[i..<i + length (v # vs)] = i # [Suc i..<Suc i + length vs]" by (simp add: upt_rec [of i] Suc_le_eq)
  moreover have "objectProblem (Some v) = None" "or_text (text_of (jget v ''key'')) = object_name i" "numbered (Suc i) vs = None"
    using Cons.prems by (auto split: option.splits if_splits simp del: objectProblem.simps)
  ultimately show ?case using Cons.IH [of "Suc i"] object_read [of "Some v"] object_name_catalog [of i] by (simp add: keep_object_def [of "Some v"])
qed simp

lemma isBackupId_text: "isBackupId v \<longleftrightarrow> (\<exists>t. v = Some (JText t) \<and> id_text t)"
  by (cases "(v)" rule: isBackupId.cases) auto

lemma isBackupName_text: "isBackupName v \<Longrightarrow> \<exists>t. v = Some (JText t)"
  by (cases "(v)" rule: isBackupName.cases) auto

lemma shape_read:
  assumes "shapeProblem v = None"
  obtains b i c k rs where "jget v ''backup'' = Some (JText b)" "isBackupName (Some (JText b))" "jget v ''id'' = Some (JText i)" "id_text i"
    "jget v ''createdAt'' = Some (JText c)" "iso_date (Some (JText c))" "jget v ''kind'' = Some (JText (kind_text k))"
    "k = Full \<Longrightarrow> jget v ''parent'' = Some JNull"
    "k \<noteq> Full \<Longrightarrow> \<exists>p. jget v ''parent'' = Some (JText p) \<and> id_text p \<and> p < i"
    "jget v ''recipients'' = Some (JList rs)" "rs \<noteq> []" "list_all age_key rs"
proof -
  have n: "isBackupName (jget v ''backup'')" "isBackupId (jget v ''id'')" "iso_date (jget v ''createdAt'')"
    using assms by (auto simp: shapeProblem_def split: if_splits)
  obtain kt k where k: "jget v ''kind'' = Some (JText kt)" "kind_of_text kt = Some k"
    and par: "\<not> (if k = Full then jget v ''parent'' \<noteq> Some JNull
        else \<not> isBackupId (jget v ''parent'') \<or> or_text (text_of (jget v ''parent'')) \<ge> or_text (text_of (jget v ''id'')))"
    using assms n by (auto simp: shapeProblem_def split: if_splits option.splits)
  obtain rs where rs: "jget v ''recipients'' = Some (JList rs)" "rs \<noteq> []" "list_all age_key rs"
    using assms n by (auto simp: shapeProblem_def split: if_splits option.splits)
  obtain b where b: "jget v ''backup'' = Some (JText b)" using isBackupName_text [OF n(1)] by blast
  obtain i where i: "jget v ''id'' = Some (JText i)" "id_text i" using n(2) by (auto simp: isBackupId_text)
  obtain c where c: "jget v ''createdAt'' = Some (JText c)" using n(3) by (auto simp: iso_date_def split: option.splits)
  show thesis
    by (rule that [OF b _ i c _ _ _ _ rs]) (use n b c k kind_of_text_eq par i in \<open>auto simp: isBackupId_text or_text_def\<close>)
qed

lemma written_read:
  assumes "readManifest v = Inr m"
  shows "manifest_ok m"
proof -
  obtain r where v: "v = Some r" "is_record r" "shapeProblem r = None" "objectsProblem r = None"
    using assms by (auto simp: readManifest_def split: option.splits if_splits)
  from shape_read [OF v(3)] obtain b i c k rs where s: "jget r ''backup'' = Some (JText b)" "isBackupName (Some (JText b))"
    "jget r ''id'' = Some (JText i)" "id_text i" "jget r ''createdAt'' = Some (JText c)" "iso_date (Some (JText c))"
    "jget r ''kind'' = Some (JText (kind_text k))" "k = Full \<Longrightarrow> jget r ''parent'' = Some JNull"
    "k \<noteq> Full \<Longrightarrow> \<exists>p. jget r ''parent'' = Some (JText p) \<and> id_text p \<and> p < i"
    "jget r ''recipients'' = Some (JList rs)" "rs \<noteq> []" "list_all age_key rs" by metis
  obtain os where os: "jget r ''objects'' = Some (JList os)" "numbered 0 os = None" "objectProblem (jget r ''catalog'') = None"
    "so_key (keep_object (jget r ''catalog'')) = ''catalog.age''"
    using v(4) by (auto simp: objectsProblem_def split: option.splits if_splits)
  have m: "m = \<lparr>m_backup = b, m_id = i, m_createdAt = c, m_kind = k, m_parent = text_of (jget r ''parent''),
      m_recipients = map (\<lambda>r. or_text (text_of (Some r))) rs, m_catalog = keep_object (jget r ''catalog''),
      m_objects = map (\<lambda>ob. keep_object (Some ob)) os\<rparr>"
    using assms v s(1,3,5,7,10) os(1) by (simp add: readManifest_def or_text_def)
  have "list_all (starts_with ''age1'') (map (\<lambda>r. or_text (text_of (Some r))) rs)"
    using s(12) by (auto simp: list_all_iff age_key_def or_text_def split: option.splits)
  moreover have "case text_of (jget r ''parent'') of None \<Rightarrow> k = Full | Some p \<Rightarrow> k \<noteq> Full \<and> id_text p \<and> p < i"
    using s(8,9) by (cases "k = Full") auto
  ultimately show ?thesis
    using s(2,4,6,11) numbered_read [OF os(2)] object_read [OF os(3)] os(4)
    by (cases "text_of (jget r ''parent'')") (simp_all add: manifest_ok_def m)
qed

text \<open>C25. A manifest \<open>create\<close> writes is read back as it was, and whatever file a repository returns, one
  that reads is well-formed: its name and id are ones, its parent fits its kind and is an older id, its
  objects are numbered in order, and its sizes and digests are ones.\<close>

theorem manifest_roundtrip:
  assumes "manifest_ok m"
  shows "readManifest (Some (manifest_json m)) = Inr m \<and> (\<forall>v n. readManifest v = Inr n \<longrightarrow> manifest_ok n)"
  using read_written [OF assms] written_read by blast

section \<open>The catalog\<close>

record catalog_entry =
  ce_name :: string
  ce_object :: string
  ce_in :: "string option"
  ce_size :: int
  ce_sha256 :: string
  ce_fingerprint :: "string option"

record catalog =
  ca_kind :: string
  ca_entries :: "catalog_entry list"
  ca_position :: "string option"

definition CATALOG_FORMAT :: string where
  "CATALOG_FORMAT = ''nxgt-backup-catalog/1''"

definition FINGERPRINT_MAX :: nat where
  "FINGERPRINT_MAX = 1024"

definition POSITION_MAX :: nat where
  "POSITION_MAX = 64 * 1024"

fun isEntryName :: "jv option \<Rightarrow> bool" where
  "isEntryName (Some (JText n)) = (n \<noteq> '''' \<and> length n \<le> 4096 \<and> CHR 0x00 \<notin> set n)"
| "isEntryName v = False"

fun isOptionalText :: "jv option \<Rightarrow> nat \<Rightarrow> bool" where
  "isOptionalText None k = True"
| "isOptionalText (Some (JText t)) k = (length t \<le> k)"
| "isOptionalText (Some v) k = False"

definition entryProblem :: "jv \<Rightarrow> nat \<Rightarrow> string option" where
  "entryProblem v own = (if \<not> is_record v then Some ''an entry is not a record''
     else if \<not> isEntryName (jget v ''name'') then Some ''an entry name is not one''
     else if jget v ''in'' = None \<and> jget v ''object'' \<noteq> Some (JText (object_name own)) then Some ''its entries do not follow the objects''
     else if jget v ''in'' \<noteq> None \<and> (\<not> isBackupId (jget v ''in'')
         \<or> (case text_of (jget v ''object'') of None \<Rightarrow> True | Some ob \<Rightarrow> \<not> object_key ob)) then Some ''an entry stored elsewhere does not say where''
     else if \<not> whole_from 0 (jget v ''size'') then Some ''an entry size is not a whole number of bytes''
     else if (case text_of (jget v ''sha256'') of None \<Rightarrow> True | Some h \<Rightarrow> \<not> hex_text 64 h) then Some ''an entry sha256 is not 64 hex digits''
     else if \<not> isOptionalText (jget v ''fingerprint'') FINGERPRINT_MAX then Some ''an entry fingerprint is not one''
     else None)"

fun entries_from :: "string set \<Rightarrow> nat \<Rightarrow> nat \<Rightarrow> jv list \<Rightarrow> string option" where
  "entries_from names own objects [] = (if own = objects then None else Some ''its entries do not match the manifest'')"
| "entries_from names own objects (v # vs) = (case entryProblem v own of Some p \<Rightarrow> Some p
     | None \<Rightarrow> let n = or_text (text_of (jget v ''name'')) in
         if n \<in> names then Some ''two entries have the same name''
         else entries_from (insert n names) (if jget v ''in'' = None then Suc own else own) objects vs)"

definition entriesProblem :: "jv list \<Rightarrow> nat \<Rightarrow> string option" where
  "entriesProblem vs objects = entries_from {} 0 objects vs"

definition keep_entry :: "jv \<Rightarrow> catalog_entry" where
  "keep_entry v = \<lparr>ce_name = or_text (text_of (jget v ''name'')), ce_object = or_text (text_of (jget v ''object'')),
     ce_in = text_of (jget v ''in''), ce_size = num_of (jget v ''size''), ce_sha256 = or_text (text_of (jget v ''sha256'')),
     ce_fingerprint = text_of (jget v ''fingerprint'')\<rparr>"

definition readCatalog :: "jv option \<Rightarrow> nat \<Rightarrow> catalog result" where
  "readCatalog parsed objects = (case parsed of None \<Rightarrow> Inl ''it is not JSON''
     | Some v \<Rightarrow> if \<not> is_record v \<or> jget v ''format'' \<noteq> Some (JText CATALOG_FORMAT) then Inl ''it is not an nxgt-backup catalog''
       else (case text_of (case jget v ''source'' of None \<Rightarrow> None | Some src \<Rightarrow> jget src ''kind'') of
           None \<Rightarrow> Inl ''its source has no kind''
         | Some kind \<Rightarrow> if \<not> isOptionalText (jget v ''position'') POSITION_MAX then Inl ''its position is not one''
           else (case list_of (jget v ''entries'') of None \<Rightarrow> Inl ''its entries do not match the manifest''
             | Some es \<Rightarrow> (case entriesProblem es objects of Some p \<Rightarrow> Inl p
               | None \<Rightarrow> Inr \<lparr>ca_kind = kind, ca_entries = map keep_entry es, ca_position = text_of (jget v ''position'')\<rparr>))))"

definition entry_json :: "catalog_entry \<Rightarrow> jv" where
  "entry_json e = JRec ([(''name'', JText (ce_name e)), (''object'', JText (ce_object e))] @ opt_prop ''in'' (ce_in e)
     @ [(''size'', JNum (ce_size e)), (''sha256'', JText (ce_sha256 e))] @ opt_prop ''fingerprint'' (ce_fingerprint e))"

definition catalog_json :: "catalog \<Rightarrow> jv" where
  "catalog_json c = JRec ([(''format'', JText CATALOG_FORMAT), (''source'', JRec [(''kind'', JText (ca_kind c))]),
     (''entries'', JList (map entry_json (ca_entries c)))] @ opt_prop ''position'' (ca_position c))"

section \<open>What a catalog promises\<close>

definition entry_ok :: "catalog_entry \<Rightarrow> bool" where
  "entry_ok e = (isEntryName (Some (JText (ce_name e))) \<and> 0 \<le> ce_size e \<and> ce_size e \<le> 9007199254740991 \<and> hex_text 64 (ce_sha256 e)
     \<and> isOptionalText (map_option JText (ce_fingerprint e)) FINGERPRINT_MAX
     \<and> (case ce_in e of None \<Rightarrow> True | Some i \<Rightarrow> id_text i \<and> object_key (ce_object e)))"

text \<open>The entries a backup stores itself, in order, follow its objects.\<close>

definition own_entries :: "catalog_entry list \<Rightarrow> catalog_entry list" where
  "own_entries es = filter (\<lambda>e. ce_in e = None) es"

definition entries_ok :: "nat \<Rightarrow> catalog_entry list \<Rightarrow> bool" where
  "entries_ok n es = (list_all entry_ok es \<and> distinct (map ce_name es) \<and> map ce_object (own_entries es) = map object_name [0..<n])"

definition catalog_ok :: "nat \<Rightarrow> catalog \<Rightarrow> bool" where
  "catalog_ok n c = (entries_ok n (ca_entries c) \<and> isOptionalText (map_option JText (ca_position c)) POSITION_MAX)"

lemma entry_props [simp]:
  "jget (entry_json e) ''name'' = Some (JText (ce_name e))" "jget (entry_json e) ''object'' = Some (JText (ce_object e))"
  "jget (entry_json e) ''in'' = map_option JText (ce_in e)" "jget (entry_json e) ''size'' = Some (JNum (ce_size e))"
  "jget (entry_json e) ''sha256'' = Some (JText (ce_sha256 e))" "jget (entry_json e) ''fingerprint'' = map_option JText (ce_fingerprint e)"
  "is_record (entry_json e)"
  by (simp_all add: entry_json_def map_add_def split: option.split)

lemma text_of_map [simp]: "text_of (map_option JText t) = t"
  by (cases t) simp_all

lemma keep_entry_json [simp]: "keep_entry (entry_json e) = e"
  by (simp add: keep_entry_def or_text_def)

lemma entryProblem_json:
  "entryProblem (entry_json e) own = None \<longleftrightarrow> entry_ok e \<and> (ce_in e = None \<longrightarrow> ce_object e = object_name own)"
  by (cases "ce_in e") (auto simp: entryProblem_def entry_ok_def)

text \<open>An entry that reads is one a writer could have written: it is read as its written form is.\<close>

lemma entry_read:
  assumes "entryProblem v own = None"
  shows "entryProblem (entry_json (keep_entry v)) own = None" and "jget v ''in'' = map_option JText (ce_in (keep_entry v))"
proof -
  obtain n where n: "jget v ''name'' = Some (JText n)" "isEntryName (Some (JText n))"
    using assms by (cases "jget v ''name''" rule: isEntryName.cases) (auto simp: entryProblem_def split: if_splits)
  have w: "whole_from 0 (jget v ''size'')" using assms by (auto simp: entryProblem_def split: if_splits)
  obtain h where h: "jget v ''sha256'' = Some (JText h)" "hex_text 64 h"
    using assms by (auto simp: entryProblem_def split: if_splits option.splits)
  have f: "isOptionalText (jget v ''fingerprint'') FINGERPRINT_MAX" using assms by (auto simp: entryProblem_def split: if_splits)
  then have fp: "jget v ''fingerprint'' = map_option JText (text_of (jget v ''fingerprint''))"
    by (cases "(jget v ''fingerprint'', FINGERPRINT_MAX)" rule: isOptionalText.cases) auto
  have i: "jget v ''in'' = map_option JText (text_of (jget v ''in''))
      \<and> (case text_of (jget v ''in'') of None \<Rightarrow> jget v ''object'' = Some (JText (object_name own))
         | Some j \<Rightarrow> id_text j \<and> (\<exists>ob. jget v ''object'' = Some (JText ob) \<and> object_key ob))"
  proof (cases "jget v ''in''")
    case None
    then show ?thesis using assms by (auto simp: entryProblem_def split: if_splits)
  next
    case (Some x)
    then have "isBackupId (Some x)" "\<exists>ob. text_of (jget v ''object'') = Some ob \<and> object_key ob"
      using assms by (auto simp: entryProblem_def simp del: text_of_eq split: if_splits option.splits)
    then show ?thesis using Some by (auto simp: isBackupId_text)
  qed
  then show "jget v ''in'' = map_option JText (ce_in (keep_entry v))" by (simp add: keep_entry_def)
  have s: "0 \<le> num_of (jget v ''size'') \<and> num_of (jget v ''size'') \<le> 9007199254740991"
    using w by (cases "jget v ''size''" rule: num_of.cases) auto
  show "entryProblem (entry_json (keep_entry v)) own = None"
    using i n h s f fp by (auto simp: entryProblem_json entry_ok_def keep_entry_def or_text_def split: option.splits)
qed

lemma entries_json:
  "list_all entry_ok es \<Longrightarrow> distinct (map ce_name es) \<Longrightarrow> N \<inter> ce_name ` set es = {} \<Longrightarrow>
    map ce_object (own_entries es) = map object_name [own..<n] \<Longrightarrow> own \<le> n \<Longrightarrow>
    entries_from N own n (map entry_json es) = None"
proof (induction es arbitrary: N own)
  case (Cons e es)
  show ?case
  proof (cases "ce_in e")
    case None
    have own: "own < n" "ce_object e = object_name own" "map ce_object (own_entries es) = map object_name [Suc own..<n]"
      using Cons.prems(4,5) None by (auto simp: own_entries_def upt_rec [of own] split: if_splits)
    have "entryProblem (entry_json e) own = None" using Cons.prems(1) own(2) by (simp add: entryProblem_json)
    then show ?thesis using Cons.IH [OF _ _ _ own(3)] Cons.prems own(1) None by (auto simp: or_text_def)
  next
    case (Some i)
    have "entryProblem (entry_json e) own = None" using Cons.prems(1) Some by (simp add: entryProblem_json)
    moreover have "map ce_object (own_entries es) = map object_name [own..<n]" using Cons.prems(4) Some by (simp add: own_entries_def)
    ultimately show ?thesis using Cons.IH [of "insert (ce_name e) N" own] Cons.prems Some by (auto simp: or_text_def)
  qed
qed (simp add: own_entries_def, linarith)

lemma entries_read:
  "entries_from N own n vs = None \<Longrightarrow> list_all entry_ok (map keep_entry vs) \<and> distinct (map ce_name (map keep_entry vs))
    \<and> N \<inter> ce_name ` set (map keep_entry vs) = {} \<and> map ce_object (own_entries (map keep_entry vs)) = map object_name [own..<n] \<and> own \<le> n"
proof (induction vs arbitrary: N own)
  case (Cons v vs)
  let ?e = "keep_entry v"
  have p: "entryProblem v own = None" using Cons.prems by (auto split: option.splits)
  note e = entry_read [OF p]
  have nm: "ce_name ?e \<notin> N" and rest: "entries_from (insert (ce_name ?e) N) (if ce_in ?e = None then Suc own else own) n vs = None"
    using Cons.prems p e(2) by (auto simp: Let_def keep_entry_def split: if_splits)
  note ih = Cons.IH [OF rest]
  have ok: "entry_ok ?e" "ce_in ?e = None \<Longrightarrow> ce_object ?e = object_name own" using e(1) by (simp_all add: entryProblem_json)
  show ?case
  proof (cases "ce_in ?e = None")
    case True
    then have "[own..<n] = own # [Suc own..<n]" using ih by (simp add: upt_rec [of own])
    then show ?thesis using True ih ok nm by (auto simp: own_entries_def)
  next
    case False
    then show ?thesis using ih ok nm by (auto simp: own_entries_def)
  qed
qed (auto simp: own_entries_def split: if_splits)

lemma catalog_written:
  assumes "catalog_ok n c"
  shows "readCatalog (Some (catalog_json c)) n = Inr c"
proof -
  have p: "jget (catalog_json c) ''format'' = Some (JText CATALOG_FORMAT)" "is_record (catalog_json c)"
    "jget (catalog_json c) ''source'' = Some (JRec [(''kind'', JText (ca_kind c))])"
    "jget (catalog_json c) ''entries'' = Some (JList (map entry_json (ca_entries c)))"
    "jget (catalog_json c) ''position'' = map_option JText (ca_position c)"
    by (simp_all add: catalog_json_def map_add_def split: option.split)
  have "entriesProblem (map entry_json (ca_entries c)) n = None"
    using assms entries_json [of "ca_entries c" "{}" 0 n] by (simp add: entriesProblem_def catalog_ok_def entries_ok_def)
  then show ?thesis using assms by (simp add: readCatalog_def p catalog_ok_def comp_def)
qed

lemma readCatalog_ok: "readCatalog v k = Inr d \<Longrightarrow> entries_ok k (ca_entries d)"
proof -
  assume "readCatalog v k = Inr d"
  then obtain es where "entriesProblem es k = None" "ca_entries d = map keep_entry es"
    by (auto simp: readCatalog_def split: option.splits if_splits)
  then show "entries_ok k (ca_entries d)" using entries_read [of "{}" 0 k es] by (simp add: entriesProblem_def entries_ok_def)
qed

text \<open>A catalog \<open>create\<close> writes is read back as it was, beside a manifest of as many objects as it has
  entries of its own; and whatever a repository returns, a catalog that reads names every entry once and
  lists its own entries in the order of the manifest's objects.\<close>

theorem catalog_roundtrip:
  assumes "catalog_ok n c"
  shows "readCatalog (Some (catalog_json c)) n = Inr c \<and>
    (\<forall>v d k. readCatalog v k = Inr d \<longrightarrow> entries_ok k (ca_entries d))"
  using catalog_written [OF assms] readCatalog_ok by blast

definition ex_manifest :: manifest where
  "ex_manifest = \<lparr>m_backup = ''app'', m_id = ''20261003T221500123Z-9f3a61c0'', m_createdAt = iso_string 1791065700123,
     m_kind = Full, m_parent = None, m_recipients = [''age1x''],
     m_catalog = \<lparr>so_key = ''catalog.age'', so_size = 10, so_sha256 = replicate 64 (CHR ''a'')\<rparr>,
     m_objects = [\<lparr>so_key = ''0.age'', so_size = 7, so_sha256 = replicate 64 (CHR ''0'')\<rparr>]\<rparr>"

lemma ex_manifest_ok: "manifest_ok ex_manifest" "length (m_objects ex_manifest) = 1"
proof -
  have "id_text ''20261003T221500123Z-9f3a61c0''"
    "object_name 0 = ''0.age''" "object_key ''0.age''" "starts_with ''age1'' ''age1x''" "\<not> holds_text ''.partial-'' ''app''" by code_simp+
  moreover have "year_4 1791065700123" by code_simp
  then have "iso_date (Some (JText (iso_string 1791065700123)))" by (simp add: iso_date_def iso_time_digits)
  ultimately show "manifest_ok ex_manifest"
    by (simp add: manifest_ok_def ex_manifest_def object_ok_def hex_text_def list_all_iff is_hex_def is_digit_def is_lower_def name_char_def
        del: holds_text.simps)
qed (simp add: ex_manifest_def)

theorem manifest_roundtrip_witness: "readManifest (Some (manifest_json ex_manifest)) = Inr ex_manifest"
  using manifest_roundtrip [of ex_manifest] ex_manifest_ok by simp

definition ex_catalog :: catalog where
  "ex_catalog = \<lparr>ca_kind = ''files'', ca_entries =
     [\<lparr>ce_name = ''a'', ce_object = ''0.age'', ce_in = None, ce_size = 7, ce_sha256 = replicate 64 (CHR ''1''), ce_fingerprint = Some ''f''\<rparr>,
      \<lparr>ce_name = ''b'', ce_object = ''3.age'', ce_in = Some ''20261001T221500123Z-9f3a61c0'', ce_size = 7,
        ce_sha256 = replicate 64 (CHR ''2''), ce_fingerprint = None\<rparr>], ca_position = None\<rparr>"

theorem catalog_roundtrip_witness: "readCatalog (Some (catalog_json ex_catalog)) 1 = Inr ex_catalog"
proof -
  have "object_key ''3.age''" "object_name 0 = ''0.age''" "id_text ''20261001T221500123Z-9f3a61c0''" by code_simp+
  then have "catalog_ok 1 ex_catalog"
    by (simp add: catalog_ok_def entries_ok_def entry_ok_def ex_catalog_def own_entries_def hex_text_def list_all_iff is_hex_def is_digit_def
        FINGERPRINT_MAX_def)
  then show ?thesis using catalog_roundtrip by blast
qed

end
