(* ===== verification/Backup_Repo.thy ===== *)
theory Backup_Repo
  imports Backup_Format
begin

text \<open>
  A repository and what is read from it: \<open>packages/backup/src/backups/context.ts\<close> (the context, the
  repository a call names, a key), \<open>backups/read.ts\<close> (a manifest, a staged object, a catalog, an
  entry's bytes), \<open>crypto/measure.ts\<close> and \<open>crypto/seal.ts\<close>. A repository is its keys with the bytes under
  each. What the package takes from elsewhere is the record \<open>outside\<close>: \<open>JSON.parse\<close> and \<open>JSON.stringify\<close>,
  SHA-256, Ed25519, age with zstd. Every function takes it as an argument.
\<close>

section \<open>What the package relies on\<close>

datatype opened = NoKey | Damaged | Plain string

record outside =
  o_json :: "string \<Rightarrow> jv option"
  o_text :: "jv \<Rightarrow> string"
  o_pretty :: "jv \<Rightarrow> string"
  o_sha :: "string \<Rightarrow> string"
  o_seal :: "string list \<Rightarrow> string \<Rightarrow> string"
  o_open :: "string list \<Rightarrow> string \<Rightarrow> opened"
  o_sign :: "string \<Rightarrow> string"
  o_verify :: "string \<Rightarrow> string \<Rightarrow> bool"

section \<open>Errors\<close>

datatype bcode = NOT_FOUND | INTEGRITY | DECRYPT | SIGNATURE | PARTIAL | NOT_STORED | LOCKED | LEASE_LOST

text \<open>A \<open>BackupError\<close> with its code, the id and the repository it names and what it says; a
  \<open>TypeError\<close>; any other error, of a repository, a source or a target.\<close>

datatype berr = BErr bcode "string option" "string option" string | BType string | BOther string

type_synonym 'a bres = "berr + 'a"

fun bbind :: "'a bres \<Rightarrow> ('a \<Rightarrow> 'b bres) \<Rightarrow> 'b bres" where
  "bbind (Inl e) f = Inl e"
| "bbind (Inr x) f = f x"

definition bguard :: "bool \<Rightarrow> berr \<Rightarrow> unit bres" where
  "bguard ok e = (if ok then Inr () else Inl e)"

lemma bguard_ok [simp]: "bguard ok e = Inr u \<longleftrightarrow> ok"
  by (simp add: bguard_def)

lemma bbind_Inr [simp]: "bbind r f = Inr y \<longleftrightarrow> (\<exists>x. r = Inr x \<and> f x = Inr y)"
  by (cases r) simp_all

section \<open>The context\<close>

record bctx =
  x_backup :: string
  x_repositories :: "string list"
  x_recipients :: "string list"
  x_signer :: bool
  x_trusted :: bool
  x_lease :: int

definition DEFAULT_LEASE :: int where
  "DEFAULT_LEASE = 5 * 60 * 1000"

definition leaseOf :: "jv option \<Rightarrow> int bres" where
  "leaseOf given = (case given of None \<Rightarrow> Inr DEFAULT_LEASE
     | Some (JNum n) \<Rightarrow> if n < 1000 \<or> n > 86400000
         then Inl (BType ''bindBackup: lock.lease must be a whole number of milliseconds, from 1 second to 1 day'') else Inr n
     | Some v \<Rightarrow> Inl (BType ''bindBackup: lock.lease must be a whole number of milliseconds, from 1 second to 1 day''))"

text \<open>The keys of \<open>signing\<close> and \<open>trusted\<close> are the names of their public halves.\<close>

definition signingOf :: "string option \<Rightarrow> string list option \<Rightarrow> (bool \<times> bool) bres" where
  "signingOf signing trusted = (case trusted of None \<Rightarrow> Inr (signing \<noteq> None, signing \<noteq> None)
     | Some [] \<Rightarrow> Inl (BType ''bindBackup: trusted must list at least one public key'')
     | Some ks \<Rightarrow> (case signing of None \<Rightarrow> Inr (False, True)
         | Some own \<Rightarrow> if own \<notin> set ks
             then Inl (BType ''bindBackup: trusted does not hold the public key of signing.key, so this backup could not read what it writes'')
             else Inr (True, True)))"

text \<open>\<open>checkRecipients\<close>: the first that age refuses, by its position.\<close>

fun checkRecipients :: "(string \<Rightarrow> bool) \<Rightarrow> nat \<Rightarrow> string list \<Rightarrow> unit bres" where
  "checkRecipients age_ok i [] = (if i = 0 then Inl (BType ''bindBackup: recipients must list at least one age public key'') else Inr ())"
| "checkRecipients age_ok i (r # rs) = (if age_ok r then (if rs = [] then Inr () else checkRecipients age_ok (Suc i) rs)
     else Inl (BType (''bindBackup: recipient '' @ show_nat i @ '' is not an age public key (age1... or age1pq1...)'')))"

definition createContext :: "(string \<Rightarrow> bool) \<Rightarrow> jv option \<Rightarrow> string list \<Rightarrow> string list \<Rightarrow> bool \<Rightarrow> string option \<Rightarrow> string list option \<Rightarrow> jv option \<Rightarrow> bctx bres" where
  "createContext age_ok nm repositories recipients absolute signing trusted lease =
     bbind (bguard (isBackupName nm) (BType ''bindBackup: the definition did not come from defineBackup'')) (\<lambda>_.
     bbind (bguard (repositories \<noteq> []) (BType ''bindBackup: repositories must list at least one repository'')) (\<lambda>_.
     bbind (bguard (distinct repositories) (BType ''bindBackup: two repositories have the same name'')) (\<lambda>_.
     bbind (bguard absolute (BType ''bindBackup: tmpDir must be an absolute path'')) (\<lambda>_.
     bbind (checkRecipients age_ok 0 recipients) (\<lambda>_.
     bbind (signingOf signing trusted) (\<lambda>(signer, trust).
     bbind (leaseOf lease) (\<lambda>l.
       Inr \<lparr>x_backup = or_text (text_of nm), x_repositories = repositories, x_recipients = recipients,
         x_signer = signer, x_trusted = trust, x_lease = l\<rparr>)))))))"

section \<open>A repository\<close>

text \<open>The bytes under each key, each key once, in the order a listing gives them.\<close>

type_synonym repo = "(string \<times> string) list"

definition repo_put :: "string \<Rightarrow> string \<Rightarrow> repo \<Rightarrow> repo" where
  "repo_put k bytes r = AList.update k bytes r"

definition repo_get :: "repo \<Rightarrow> string \<Rightarrow> string option" where
  "repo_get r k = map_of r k"

definition repo_list :: "repo \<Rightarrow> string \<Rightarrow> string list" where
  "repo_list r prefix = filter (starts_with prefix) (map fst r)"

definition repo_delete :: "string \<Rightarrow> repo \<Rightarrow> repo" where
  "repo_delete k r = AList.delete k r"

lemma repo_get_put [simp]: "repo_get (repo_put k v r) j = (if j = k then Some v else repo_get r j)"
  by (simp add: repo_get_def repo_put_def update_conv')

lemma repo_get_delete [simp]: "repo_get (repo_delete k r) j = (if j = k then None else repo_get r j)"
  by (simp add: repo_get_def repo_delete_def delete_conv')

lemma repo_list_get: "k \<in> set (repo_list r p) \<longleftrightarrow> repo_get r k \<noteq> None \<and> starts_with p k"
  by (auto simp: repo_list_def repo_get_def map_of_eq_None_iff)

text \<open>\<open>key.split('/')\<close>.\<close>

fun split_slash :: "string \<Rightarrow> string list" where
  "split_slash [] = [[]]"
| "split_slash (c # cs) = (if c = CHR ''/'' then [] # split_slash cs
     else (case split_slash cs of [] \<Rightarrow> [[c]] | s # ss \<Rightarrow> (c # s) # ss))"

definition keyOf :: "bctx \<Rightarrow> string \<Rightarrow> string \<Rightarrow> string" where
  "keyOf ctx i k = x_backup ctx @ ''/'' @ i @ ''/'' @ k"

definition MANIFEST :: string where "MANIFEST = ''manifest.json''"
definition SIGNATURE_KEY :: string where "SIGNATURE_KEY = ''manifest.sig''"
definition MANIFEST_MAX_BYTES :: nat where "MANIFEST_MAX_BYTES = 64 * 1024 * 1024"

text \<open>The repository a read uses: the one named, or the first.\<close>

definition repositoryOf :: "bctx \<Rightarrow> string option \<Rightarrow> string \<Rightarrow> string bres" where
  "repositoryOf ctx frm whr = (case frm of None \<Rightarrow> Inr (hd (x_repositories ctx))
     | Some n \<Rightarrow> if n \<in> set (x_repositories ctx) then Inr n
         else Inl (BType (whr @ '' on \"'' @ x_backup ctx @ ''\": no repository has that name'')))"

section \<open>Reading a manifest\<close>

text \<open>Where a read happens: the call, the backup, the repository's name and what it holds.\<close>

record site =
  t_call :: string
  t_id :: string
  t_name :: string
  t_repo :: repo

definition failure :: "bctx \<Rightarrow> site \<Rightarrow> bcode \<Rightarrow> string \<Rightarrow> berr" where
  "failure ctx t code what = BErr code (Some (t_id t)) (Some (t_name t))
     (t_call t @ '' on \"'' @ x_backup ctx @ ''\": '' @ what @ '' (repository \"'' @ t_name t @ ''\")'')"

text \<open>\<open>upTo\<close>: at most so many bytes.\<close>

definition upTo :: "nat \<Rightarrow> string \<Rightarrow> string" where
  "upTo n bytes = take n bytes"

definition signedByAny :: "outside \<Rightarrow> string \<Rightarrow> string \<Rightarrow> bool" where
  "signedByAny w bytes sig = (length sig = 64 \<and> o_verify w bytes sig)"

definition checkSignature :: "outside \<Rightarrow> bctx \<Rightarrow> site \<Rightarrow> string \<Rightarrow> unit bres" where
  "checkSignature w ctx t bytes = (case repo_get (t_repo t) (keyOf ctx (t_id t) SIGNATURE_KEY) of
       None \<Rightarrow> Inl (failure ctx t SIGNATURE ''the manifest is not signed'')
     | Some sig \<Rightarrow> bguard (signedByAny w bytes (upTo 65 sig)) (failure ctx t SIGNATURE ''no trusted key signed the manifest''))"

definition fetchManifest :: "outside \<Rightarrow> bctx \<Rightarrow> site \<Rightarrow> manifest bres" where
  "fetchManifest w ctx t =
     (if \<not> id_text (t_id t) then Inl (BType (t_call t @ '' on \"'' @ x_backup ctx @ ''\": the id is not a backup id''))
      else (case repo_get (t_repo t) (keyOf ctx (t_id t) MANIFEST) of
          None \<Rightarrow> Inl (failure ctx t NOT_FOUND ''no backup with that id'')
        | Some file \<Rightarrow> (let bytes = upTo (MANIFEST_MAX_BYTES + 1) file in
            if length bytes > MANIFEST_MAX_BYTES then Inl (failure ctx t INTEGRITY ''the manifest is larger than 64 MiB'')
            else bbind (if x_trusted ctx then checkSignature w ctx t bytes else Inr ()) (\<lambda>_.
              (case readManifest (o_json w bytes) of
                 Inl p \<Rightarrow> Inl (failure ctx t INTEGRITY (''the manifest is unreadable: '' @ p))
               | Inr m \<Rightarrow> if m_backup m \<noteq> x_backup ctx \<or> m_id m \<noteq> t_id t
                   then Inl (failure ctx t INTEGRITY ''the manifest is another backup's'') else Inr m)))))"

section \<open>Objects\<close>

text \<open>\<open>measure()\<close> of the bytes that go through, and \<open>expect\<close>: cut past the size, refused at the end.\<close>

definition measured :: "outside \<Rightarrow> string \<Rightarrow> int \<times> string" where
  "measured w bytes = (int (length bytes), o_sha w bytes)"

definition expect :: "outside \<Rightarrow> int \<times> string \<Rightarrow> string \<Rightarrow> bool" where
  "expect w e bytes = (int (length bytes) = fst e \<and> o_sha w bytes = snd e)"

text \<open>\<open>stage\<close>: the bytes of one object, as the manifest says them.\<close>

definition stage :: "outside \<Rightarrow> bctx \<Rightarrow> site \<Rightarrow> stored_object \<Rightarrow> string bres" where
  "stage w ctx t ob = (case repo_get (t_repo t) (keyOf ctx (t_id t) (so_key ob)) of
       None \<Rightarrow> Inl (failure ctx t INTEGRITY ''an object is missing'')
     | Some bytes \<Rightarrow> if expect w (so_size ob, so_sha256 ob) bytes then Inr bytes
         else Inl (failure ctx t INTEGRITY ''an object differs from its manifest''))"

definition decrypterFor :: "(string \<Rightarrow> bool) \<Rightarrow> string list \<Rightarrow> string \<Rightarrow> unit bres" where
  "decrypterFor key_ok identities whr = (if identities = [] then Inl (BType (whr @ '': identities must list at least one age secret key''))
     else (case find (\<lambda>i. \<not> key_ok (identities ! i)) [0..<length identities] of
         Some i \<Rightarrow> Inl (BType (whr @ '': identity '' @ show_nat i @ '' is not an age secret key (AGE-SECRET-KEY-...)''))
       | None \<Rightarrow> Inr ()))"

definition fetchCatalog :: "outside \<Rightarrow> bctx \<Rightarrow> site \<Rightarrow> manifest \<Rightarrow> string list \<Rightarrow> catalog bres" where
  "fetchCatalog w ctx t m ids = bbind (stage w ctx t (m_catalog m)) (\<lambda>bytes.
     (case o_open w ids bytes of
        NoKey \<Rightarrow> Inl (failure ctx t DECRYPT ''no identity given opens it'')
      | Damaged \<Rightarrow> Inl (failure ctx t INTEGRITY ''the catalog does not decrypt'')
      | Plain text' \<Rightarrow> (case readCatalog (o_json w text') (length (m_objects m)) of
          Inl p \<Rightarrow> Inl (failure ctx t INTEGRITY (''the catalog is unreadable: '' @ p))
        | Inr c \<Rightarrow> Inr c)))"

text \<open>A stream of checked bytes ends cleanly, or fails at its end: \<open>openFile\<close> under \<open>guarded\<close>.\<close>

datatype stream = Ends string | Fails berr

definition openFile :: "outside \<Rightarrow> bctx \<Rightarrow> site \<Rightarrow> string list \<Rightarrow> catalog_entry \<Rightarrow> string \<Rightarrow> stream bres" where
  "openFile w ctx t ids e bytes = (case o_open w ids bytes of
       NoKey \<Rightarrow> Inl (failure ctx t DECRYPT ''no identity given opens it'')
     | Damaged \<Rightarrow> Inr (Fails (failure ctx t INTEGRITY ''an entry does not decrypt''))
     | Plain plain \<Rightarrow> if expect w (ce_size e, ce_sha256 e) plain then Inr (Ends plain)
         else Inr (Fails (failure ctx t INTEGRITY ''an entry differs from what its source gave'')))"

section \<open>What was read holds\<close>

lemma fetchManifest_ok:
  assumes "fetchManifest w ctx t = Inr m"
  shows "manifest_ok m \<and> m_id m = t_id t \<and> m_backup m = x_backup ctx \<and> id_text (t_id t) \<and>
    repo_get (t_repo t) (keyOf ctx (t_id t) MANIFEST) \<noteq> None"
  using assms written_read by (auto simp: fetchManifest_def Let_def split: if_splits option.splits sum.splits)

lemma fetchManifest_parent: "fetchManifest w ctx t = Inr m \<Longrightarrow> m_parent m = Some p \<Longrightarrow> id_text p \<and> p < t_id t"
  using fetchManifest_ok [of w ctx t m] by (auto simp: manifest_ok_def)

text \<open>Reads see only the keys of their backup.\<close>

lemma fetchManifest_cong:
  assumes "repo_get (t_repo t) (keyOf ctx (t_id t) MANIFEST) = repo_get r (keyOf ctx (t_id t) MANIFEST)"
    and "repo_get (t_repo t) (keyOf ctx (t_id t) SIGNATURE_KEY) = repo_get r (keyOf ctx (t_id t) SIGNATURE_KEY)"
  shows "fetchManifest w ctx (t\<lparr>t_repo := r\<rparr>) = fetchManifest w ctx t"
proof -
  have f: "failure ctx (t\<lparr>t_repo := r\<rparr>) = failure ctx t" by (simp add: failure_def fun_eq_iff)
  have t: "t_id (t\<lparr>t_repo := r\<rparr>) = t_id t" "t_call (t\<lparr>t_repo := r\<rparr>) = t_call t" "t_repo (t\<lparr>t_repo := r\<rparr>) = r" by simp_all
  show ?thesis unfolding fetchManifest_def checkSignature_def f t assms ..
qed

lemma keyOf_inj [simp]: "keyOf ctx i k = keyOf ctx i k' \<longleftrightarrow> k = k'"
  by (simp add: keyOf_def)

lemma id_text_no_slash: "id_text i \<Longrightarrow> CHR ''/'' \<notin> set i"
proof
  assume a: "id_text i" "CHR ''/'' \<in> set i"
  then obtain n where n: "n < 28" "i ! n = CHR ''/''" by (auto simp: id_text_def in_set_conv_nth)
  have p: "i ! (8 :: nat) = CHR ''T''" "i ! (18 :: nat) = CHR ''Z''" "i ! (19 :: nat) = CHR ''-''" using a(1) by (simp_all add: id_text_def)
  have d: "is_digit (i ! n)" if r: "n < 8 \<or> 9 \<le> n \<and> n < 18"
  proof -
    have "i ! n \<in> set (sub 0 8 i) \<or> i ! n \<in> set (sub 9 9 i)"
    proof (cases "n < 8")
      case True
      then have "sub 0 8 i ! n = i ! n" "n < length (sub 0 8 i)" using a(1) by (simp_all add: sub_def id_text_def)
      then show ?thesis by (metis nth_mem)
    next
      case False
      then have "9 \<le> n" "n < 18" using r by auto
      then have "sub 9 9 i ! (n - 9) = i ! n" "n - 9 < length (sub 9 9 i)" using a(1) by (auto simp: sub_def id_text_def)
      then show ?thesis by (metis nth_mem)
    qed
    then show ?thesis using a(1) by (auto simp: id_text_def list_all_iff)
  qed
  have h: "is_hex (i ! n)" if "20 \<le> n"
  proof -
    have "drop 20 i ! (n - 20) = i ! n" "n - 20 < length (drop 20 i)" using a(1) n(1) that by (simp_all add: id_text_def)
    then have "i ! n \<in> set (drop 20 i)" by (metis nth_mem)
    then show ?thesis using a(1) by (auto simp: id_text_def list_all_iff)
  qed
  have "n = 8 \<or> n = 18 \<or> n = 19 \<or> (n < 8 \<or> 9 \<le> n \<and> n < 18) \<or> 20 \<le> n" using n(1) by presburger
  then show False using n(2) p d h by (elim disjE) (auto simp: is_hex_def is_digit_def)
qed

lemma no_slash_split: "CHR ''/'' \<notin> set a \<Longrightarrow> CHR ''/'' \<notin> set b \<Longrightarrow> a @ ''/'' @ k = b @ ''/'' @ k' \<longleftrightarrow> a = b \<and> k = k'"
proof (induction a arbitrary: b)
  case Nil
  then show ?case by (cases b) auto
next
  case (Cons c a)
  then show ?case by (cases b) auto
qed

lemma keyOf_eq: "id_text i \<Longrightarrow> id_text j \<Longrightarrow> keyOf ctx i k = keyOf ctx j k' \<longleftrightarrow> i = j \<and> k = k'"
  using no_slash_split [OF id_text_no_slash id_text_no_slash, of i j k k'] by (simp add: keyOf_def)

end
