(* ===== verification/Backup_Chain.thy ===== *)
theory Backup_Chain
  imports Backup_Repo
begin

text \<open>
  A backup and what it builds on: \<open>packages/backup/src/chain/view.ts\<close> (the chain, where an entry's object
  is, an entry's bytes), and the calls that read a whole backup: \<open>backups/restore.ts\<close>, \<open>backups/verify.ts\<close>
  and \<open>backups/list.ts\<close>. The walk along the parents ends because each parent read is an older id with a
  manifest in the repository.
\<close>

section \<open>The chain\<close>

fun is_not_found :: "berr \<Rightarrow> bool" where
  "is_not_found (BErr c i r m) = (c = NOT_FOUND)"
| "is_not_found e = False"

type_synonym chain = "(string \<times> manifest) list"

definition manifests_of :: "bctx \<Rightarrow> repo \<Rightarrow> string set" where
  "manifests_of ctx r = {i. repo_get r (keyOf ctx i MANIFEST) \<noteq> None}"

lemma finite_manifests [simp]: "finite (manifests_of ctx r)"
proof -
  have "inj_on (\<lambda>i. keyOf ctx i MANIFEST) (manifests_of ctx r)" by (simp add: inj_on_def keyOf_def)
  moreover have "(\<lambda>i. keyOf ctx i MANIFEST) ` manifests_of ctx r \<subseteq> dom (map_of r)" by (auto simp: manifests_of_def repo_get_def)
  ultimately show ?thesis using finite_subset [OF _ finite_dom_map_of] finite_imageD by blast
qed

function chain_walk :: "outside \<Rightarrow> bctx \<Rightarrow> site \<Rightarrow> manifest \<Rightarrow> chain \<Rightarrow> chain bres" where
  "chain_walk w ctx t child chain = (case m_parent child of None \<Rightarrow> Inr chain
     | Some p \<Rightarrow> (case fetchManifest w ctx (t\<lparr>t_id := p\<rparr>) of
         Inl e \<Rightarrow> Inl (if is_not_found e then failure ctx t INTEGRITY ''a backup it builds on is missing'' else e)
       | Inr parent \<Rightarrow> chain_walk w ctx t parent (AList.update (m_id parent) parent chain)))"
  by pat_completeness auto

definition older :: "bctx \<Rightarrow> repo \<Rightarrow> manifest \<Rightarrow> nat" where
  "older ctx r m = (case m_parent m of None \<Rightarrow> 0 | Some p \<Rightarrow> Suc (card {i \<in> manifests_of ctx r. i \<le> p}))"

lemma older_step:
  assumes "m_parent child = Some p" "fetchManifest w ctx (t\<lparr>t_id := p\<rparr>) = Inr parent"
  shows "older ctx (t_repo t) parent < older ctx (t_repo t) child"
proof (cases "m_parent parent")
  case (Some q)
  have q: "q < p" using fetchManifest_parent [OF assms(2) Some] by simp
  have "p \<in> manifests_of ctx (t_repo t)" using fetchManifest_ok [OF assms(2)] by (simp add: manifests_of_def)
  then have "p \<in> {i \<in> manifests_of ctx (t_repo t). i \<le> p} - {i \<in> manifests_of ctx (t_repo t). i \<le> q}" using q by auto
  moreover have "{i \<in> manifests_of ctx (t_repo t). i \<le> q} \<subseteq> {i \<in> manifests_of ctx (t_repo t). i \<le> p}" using q by auto
  ultimately have "card {i \<in> manifests_of ctx (t_repo t). i \<le> q} < card {i \<in> manifests_of ctx (t_repo t). i \<le> p}"
    by (intro psubset_card_mono) auto
  then show ?thesis using Some assms(1) by (simp add: older_def)
qed (simp add: older_def assms(1))

termination chain_walk
  by (relation "measure (\<lambda>(w, ctx, t, child, chain). older ctx (t_repo t) child)") (auto intro: older_step)

declare chain_walk.simps [simp del]

definition chainOf :: "outside \<Rightarrow> bctx \<Rightarrow> site \<Rightarrow> manifest \<Rightarrow> chain bres" where
  "chainOf w ctx t m = chain_walk w ctx t m [(m_id m, m)]"

section \<open>Where an entry's object is\<close>

text \<open>\<open>Number.parseInt(entry.object, 10)\<close>: the digits it starts with; none is \<open>NaN\<close>.\<close>

definition parse_index :: "string \<Rightarrow> nat option" where
  "parse_index s = (let ds = takeWhile is_digit s in if ds = [] then None else Some (parse_nat ds))"

definition object_at :: "manifest \<Rightarrow> string \<Rightarrow> stored_object option" where
  "object_at m k = (case parse_index k of None \<Rightarrow> None
     | Some n \<Rightarrow> if n < length (m_objects m) \<and> so_key (m_objects m ! n) = k then Some (m_objects m ! n) else None)"

definition holder_of :: "site \<Rightarrow> catalog_entry \<Rightarrow> string" where
  "holder_of t e = (case ce_in e of None \<Rightarrow> t_id t | Some i \<Rightarrow> i)"

definition locate :: "bctx \<Rightarrow> site \<Rightarrow> chain \<Rightarrow> catalog_entry \<Rightarrow> (site \<times> stored_object) bres" where
  "locate ctx t chain e = (case map_of chain (holder_of t e) of
       None \<Rightarrow> Inl (failure ctx t INTEGRITY ''the catalog names a backup outside its chain'')
     | Some m \<Rightarrow> (case object_at m (ce_object e) of
         None \<Rightarrow> Inl (failure ctx t INTEGRITY ''the catalog names an object the manifest lacks'')
       | Some ob \<Rightarrow> Inr (t\<lparr>t_id := holder_of t e\<rparr>, ob)))"

definition openEntry :: "outside \<Rightarrow> bctx \<Rightarrow> site \<Rightarrow> chain \<Rightarrow> catalog_entry \<Rightarrow> string list \<Rightarrow> (stream \<times> stored_object) bres" where
  "openEntry w ctx t chain e ids = bbind (locate ctx t chain e) (\<lambda>(h, ob).
     bbind (stage w ctx h ob) (\<lambda>bytes.
     bbind (openFile w ctx h ids e bytes) (\<lambda>s. Inr (s, ob))))"

section \<open>Restore\<close>

datatype only = Every | Names "string list" | Passing "string \<Rightarrow> bool"

definition selected :: "bctx \<Rightarrow> site \<Rightarrow> catalog_entry list \<Rightarrow> only \<Rightarrow> catalog_entry list bres" where
  "selected ctx t es sel = (case sel of Every \<Rightarrow> Inr es
     | Passing f \<Rightarrow> Inr (filter (\<lambda>e. f (ce_name e)) es)
     | Names ns \<Rightarrow> if \<not> list_all (\<lambda>n. n \<in> ce_name ` set es) ns then Inl (failure ctx t NOT_FOUND ''an entry asked for is not in the backup'')
         else Inr (filter (\<lambda>e. ce_name e \<in> set ns) es))"

text \<open>What a target's \<open>write\<close> does: reject, or resolve having read the stream to its end or not.\<close>

datatype written = Rejects berr | Resolves bool

type_synonym target = "string \<Rightarrow> stream \<Rightarrow> written"

fun restore_entries :: "outside \<Rightarrow> bctx \<Rightarrow> site \<Rightarrow> chain \<Rightarrow> string list \<Rightarrow> target \<Rightarrow> catalog_entry list \<Rightarrow> (string \<times> string) list bres" where
  "restore_entries w ctx t chain ids target [] = Inr []"
| "restore_entries w ctx t chain ids target (e # es) = (case openEntry w ctx t chain e ids of Inl er \<Rightarrow> Inl er
     | Inr (s, ob) \<Rightarrow> (case target (ce_name e) s of Rejects er \<Rightarrow> Inl er
       | Resolves ended \<Rightarrow> (case s of
           Fails er \<Rightarrow> Inl (BType (''restore on \"'' @ x_backup ctx @ ''\": the target resolved write before reading its stream to the end, so nothing it was given was checked''))
         | Ends bytes \<Rightarrow> if \<not> ended then Inl (BType (''restore on \"'' @ x_backup ctx @ ''\": the target resolved write before reading its stream to the end, so nothing it was given was checked''))
             else bbind (restore_entries w ctx t chain ids target es) (\<lambda>rest. Inr ((ce_name e, bytes) # rest)))))"

record restored =
  rd_id :: string
  rd_repository :: string
  rd_entries :: "string list"
  rd_size :: int
  rd_written :: "(string \<times> string) list"

definition restoreBackup :: "outside \<Rightarrow> bctx \<Rightarrow> (string \<Rightarrow> repo) \<Rightarrow> (string \<Rightarrow> bool) \<Rightarrow> string \<Rightarrow> target \<Rightarrow> string list \<Rightarrow> string option \<Rightarrow> only \<Rightarrow> restored bres" where
  "restoreBackup w ctx repos key_ok i target ids frm sel =
     bbind (repositoryOf ctx frm ''restore'') (\<lambda>n. let t = \<lparr>t_call = ''restore'', t_id = i, t_name = n, t_repo = repos n\<rparr> in
     bbind (decrypterFor key_ok ids ''restore'') (\<lambda>_.
     bbind (fetchManifest w ctx t) (\<lambda>m.
     bbind (fetchCatalog w ctx t m ids) (\<lambda>c.
     bbind (selected ctx t (ca_entries c) sel) (\<lambda>es.
     bbind (chainOf w ctx t m) (\<lambda>chain.
     bbind (restore_entries w ctx t chain ids target es) (\<lambda>written.
       Inr \<lparr>rd_id = i, rd_repository = n, rd_entries = map ce_name es, rd_size = sum_list (map ce_size es), rd_written = written\<rparr>)))))))"

section \<open>Verify\<close>

fun stage_list :: "outside \<Rightarrow> bctx \<Rightarrow> site \<Rightarrow> stored_object list \<Rightarrow> stored_object list bres" where
  "stage_list w ctx t [] = Inr []"
| "stage_list w ctx t (ob # obs) = bbind (stage w ctx t ob) (\<lambda>_. bbind (stage_list w ctx t obs) (\<lambda>rest. Inr (ob # rest)))"

fun stageAll :: "outside \<Rightarrow> bctx \<Rightarrow> site \<Rightarrow> chain \<Rightarrow> stored_object list bres" where
  "stageAll w ctx t [] = Inr []"
| "stageAll w ctx t ((i, m) # chain) = bbind (stage_list w ctx (t\<lparr>t_id := m_id m\<rparr>) (m_catalog m # m_objects m)) (\<lambda>obs.
     bbind (stageAll w ctx t chain) (\<lambda>rest. Inr (obs @ rest)))"

fun open_list :: "outside \<Rightarrow> bctx \<Rightarrow> site \<Rightarrow> chain \<Rightarrow> string list \<Rightarrow> catalog_entry list \<Rightarrow> stored_object list bres" where
  "open_list w ctx t chain ids [] = Inr []"
| "open_list w ctx t chain ids (e # es) = (case openEntry w ctx t chain e ids of Inl er \<Rightarrow> Inl er
     | Inr (s, ob) \<Rightarrow> (case s of Fails er \<Rightarrow> Inl er
       | Ends bytes \<Rightarrow> bbind (open_list w ctx t chain ids es) (\<lambda>rest. Inr (ob # rest))))"

definition openAll :: "outside \<Rightarrow> bctx \<Rightarrow> site \<Rightarrow> manifest \<Rightarrow> chain \<Rightarrow> string list \<Rightarrow> stored_object list bres" where
  "openAll w ctx t m chain ids = bbind (fetchCatalog w ctx t m ids) (\<lambda>c.
     bbind (open_list w ctx t chain ids (ca_entries c)) (\<lambda>rest. Inr (m_catalog m # rest)))"

record verified =
  vf_id :: string
  vf_repository :: string
  vf_chain :: "string list"
  vf_objects :: nat
  vf_storedSize :: int
  vf_decrypted :: bool
  vf_signatureChecked :: bool

definition verifyBackup :: "outside \<Rightarrow> bctx \<Rightarrow> (string \<Rightarrow> repo) \<Rightarrow> (string \<Rightarrow> bool) \<Rightarrow> string \<Rightarrow> string list option \<Rightarrow> string option \<Rightarrow> verified bres" where
  "verifyBackup w ctx repos key_ok i identities frm =
     bbind (repositoryOf ctx frm ''verify'') (\<lambda>n. let t = \<lparr>t_call = ''verify'', t_id = i, t_name = n, t_repo = repos n\<rparr> in
     bbind (case identities of None \<Rightarrow> Inr () | Some ids \<Rightarrow> decrypterFor key_ok ids ''verify'') (\<lambda>_.
     bbind (fetchManifest w ctx t) (\<lambda>m.
     bbind (chainOf w ctx t m) (\<lambda>chain.
     bbind (case identities of Some ids \<Rightarrow> openAll w ctx t m chain ids | None \<Rightarrow> stageAll w ctx t chain) (\<lambda>checked.
       Inr \<lparr>vf_id = i, vf_repository = n, vf_chain = map fst chain, vf_objects = length checked,
         vf_storedSize = sum_list (map so_size checked), vf_decrypted = (identities \<noteq> None), vf_signatureChecked = x_trusted ctx\<rparr>)))))"

section \<open>List\<close>

text \<open>\<open>[id, file, ...rest]\<close> of a key after the backup's prefix.\<close>

definition manifest_id :: "bctx \<Rightarrow> string \<Rightarrow> string option" where
  "manifest_id ctx key = (case split_slash (drop (length (x_backup ctx) + 1) key) of
       [i, file] \<Rightarrow> if file = MANIFEST \<and> id_text i then Some i else None
     | _ \<Rightarrow> None)"

definition manifestIds :: "bctx \<Rightarrow> repo \<Rightarrow> string list" where
  "manifestIds ctx r = sort (List.map_filter (manifest_id ctx) (repo_list r (x_backup ctx @ ''/'')))"

record backup_info =
  bi_id :: string
  bi_createdAt :: int
  bi_kind :: backup_kind
  bi_parent :: "string option"
  bi_entries :: nat
  bi_storedSize :: int
  bi_held :: bool

fun listed :: "outside \<Rightarrow> bctx \<Rightarrow> site \<Rightarrow> string set \<Rightarrow> string list \<Rightarrow> (backup_info list \<times> string list) bres" where
  "listed w ctx t held [] = Inr ([], [])"
| "listed w ctx t held (i # is) = (case fetchManifest w ctx (t\<lparr>t_id := i\<rparr>) of
     Inr m \<Rightarrow> bbind (listed w ctx t held is) (\<lambda>(infos, bad). Inr (\<lparr>bi_id = i,
         bi_createdAt = (case iso_time (m_createdAt m) of Some c \<Rightarrow> c | None \<Rightarrow> 0), bi_kind = m_kind m, bi_parent = m_parent m,
         bi_entries = length (m_objects m), bi_storedSize = sum_list (map so_size (m_catalog m # m_objects m)), bi_held = (i \<in> held)\<rparr> # infos, bad))
   | Inl (BErr code x y z) \<Rightarrow> if code = NOT_FOUND then listed w ctx t held is
       else if code \<noteq> INTEGRITY \<and> code \<noteq> SIGNATURE then Inl (BErr code x y z)
       else bbind (listed w ctx t held is) (\<lambda>(infos, bad). Inr (infos, i # bad))
   | Inl e \<Rightarrow> Inl e)"

section \<open>The walk ends\<close>

text \<open>The same walk with at most \<open>n\<close> reads of a parent: \<open>None\<close> when they do not suffice.\<close>

fun chain_fuel :: "nat \<Rightarrow> outside \<Rightarrow> bctx \<Rightarrow> site \<Rightarrow> manifest \<Rightarrow> chain \<Rightarrow> chain bres option" where
  "chain_fuel n w ctx t child chain = (case m_parent child of None \<Rightarrow> Some (Inr chain)
     | Some p \<Rightarrow> (case n of 0 \<Rightarrow> None
       | Suc k \<Rightarrow> (case fetchManifest w ctx (t\<lparr>t_id := p\<rparr>) of
           Inl e \<Rightarrow> Some (Inl (if is_not_found e then failure ctx t INTEGRITY ''a backup it builds on is missing'' else e))
         | Inr parent \<Rightarrow> chain_fuel k w ctx t parent (AList.update (m_id parent) parent chain))))"

declare chain_fuel.simps [simp del]

lemma chain_fuel_walk: "older ctx (t_repo t) child \<le> n \<Longrightarrow> chain_fuel n w ctx t child chain = Some (chain_walk w ctx t child chain)"
proof (induction n arbitrary: child chain)
  case 0
  then have "m_parent child = None" by (simp add: older_def split: option.splits)
  then show ?case by (simp add: chain_fuel.simps chain_walk.simps)
next
  case (Suc n)
  show ?case
  proof (cases "m_parent child")
    case None
    then show ?thesis by (simp add: chain_fuel.simps chain_walk.simps)
  next
    case (Some p)
    show ?thesis
    proof (cases "fetchManifest w ctx (t\<lparr>t_id := p\<rparr>)")
      case (Inr parent)
      then have "older ctx (t_repo t) parent \<le> n" using older_step [OF Some Inr] Suc.prems by simp
      from Suc.IH [OF this] show ?thesis using Some Inr by (subst chain_fuel.simps, subst chain_walk.simps) simp
    qed (use Some in \<open>simp add: chain_fuel.simps chain_walk.simps\<close>)
  qed
qed

lemma older_bound: "older ctx r m \<le> Suc (card (manifests_of ctx r))"
  by (auto simp: older_def intro!: card_mono split: option.splits)

text \<open>What a walk that succeeds gives: the manifests read along the parents, newest first.\<close>

definition chain_ok :: "outside \<Rightarrow> bctx \<Rightarrow> site \<Rightarrow> chain \<Rightarrow> bool" where
  "chain_ok w ctx t chain = (sorted_wrt (\<lambda>a b. fst b < fst a) chain \<and>
     (\<forall>(i, m) \<in> set chain. fetchManifest w ctx (t\<lparr>t_id := i\<rparr>) = Inr m))"

lemma in_butlast: "x \<in> set xs \<Longrightarrow> x \<noteq> last xs \<Longrightarrow> x \<in> set (butlast xs)"
  by (induction xs) (auto split: if_splits)

lemma chain_walk_ok:
  assumes "chain_walk w ctx t child chain = Inr c" "chain_ok w ctx t chain" "chain \<noteq> []" "last chain = (m_id child, child)"
    "\<forall>(i, m) \<in> set (butlast chain). \<exists>p. m_parent m = Some p \<and> p \<in> fst ` set chain"
  shows "chain_ok w ctx t c \<and> (\<exists>rest. c = chain @ rest) \<and>
    (\<forall>(i, m) \<in> set c. case m_parent m of None \<Rightarrow> (i, m) = last c | Some p \<Rightarrow> p \<in> fst ` set c)"
  using assms
proof (induction w ctx t child chain rule: chain_walk.induct)
  case (1 w ctx t child chain)
  show ?case
  proof (cases "m_parent child")
    case None
    then have c: "c = chain" using "1.prems"(1) by (simp add: chain_walk.simps)
    have "case m_parent m of None \<Rightarrow> (i, m) = last c | Some p \<Rightarrow> p \<in> fst ` set c" if "(i, m) \<in> set c" for i m
    proof (cases "(i, m) = last chain")
      case True
      then show ?thesis using "1.prems"(4) None c by simp
    next
      case False
      then have "(i, m) \<in> set (butlast chain)" using in_butlast [of "(i, m)" chain] that c by simp
      then obtain p where "m_parent m = Some p" "p \<in> fst ` set chain" using "1.prems"(5) by blast
      then show ?thesis using c by simp
    qed
    then show ?thesis using "1.prems"(2) c by auto
  next
    case (Some p)
    obtain parent where par: "fetchManifest w ctx (t\<lparr>t_id := p\<rparr>) = Inr parent"
      and walk: "chain_walk w ctx t parent (AList.update (m_id parent) parent chain) = Inr c"
      using "1.prems"(1) Some by (auto simp: chain_walk.simps [of w ctx t child] split: sum.splits)
    have pid: "m_id parent = p" using fetchManifest_ok [OF par] by simp
    have child: "fetchManifest w ctx (t\<lparr>t_id := m_id child\<rparr>) = Inr child"
      using "1.prems"(2,3,4) last_in_set [of chain] by (auto simp: chain_ok_def)
    have less: "p < m_id child" using fetchManifest_parent [OF child Some] by simp
    have below: "p < fst x" if "x \<in> set chain" for x
    proof (cases "x = last chain")
      case False
      have "sorted_wrt (\<lambda>a b. fst b < fst a) (butlast chain @ [last chain])" using "1.prems"(2,3) by (simp add: chain_ok_def)
      moreover have "x \<in> set (butlast chain)" using that False in_butlast by metis
      ultimately show ?thesis using less "1.prems"(4) by (auto simp: sorted_wrt_append)
    qed (use less "1.prems"(4) in simp)
    then have new: "AList.update p parent chain = chain @ [(p, parent)]"
      by (induction chain) auto
    have "chain_ok w ctx t (chain @ [(p, parent)])"
      using "1.prems"(2) below par by (auto simp: chain_ok_def sorted_wrt_append)
    moreover have "\<forall>(i, m) \<in> set (butlast (chain @ [(p, parent)])). \<exists>q. m_parent m = Some q \<and> q \<in> fst ` set (chain @ [(p, parent)])"
    proof -
      have "\<exists>q. m_parent m = Some q \<and> q \<in> fst ` set (chain @ [(p, parent)])" if "(i, m) \<in> set chain" for i m
      proof (cases "(i, m) = last chain")
        case False
        then have "(i, m) \<in> set (butlast chain)" using that False in_butlast by metis
        then show ?thesis using "1.prems"(5) by fastforce
      qed (use "1.prems"(4) Some in auto)
      then show ?thesis by auto
    qed
    ultimately show ?thesis
      using "1.IH" [OF Some par] walk unfolding pid new by auto
  qed
qed

lemma chainOf_ok:
  assumes "fetchManifest w ctx t = Inr m" "chainOf w ctx t m = Inr c"
  shows "c \<noteq> []" "hd c = (t_id t, m)" "sorted_wrt (\<lambda>a b. fst b < fst a) c"
    "\<forall>(i, k) \<in> set c. fetchManifest w ctx (t\<lparr>t_id := i\<rparr>) = Inr k \<and> (case m_parent k of None \<Rightarrow> (i, k) = last c | Some p \<Rightarrow> p \<in> fst ` set c)"
proof -
  have i: "m_id m = t_id t" using fetchManifest_ok [OF assms(1)] by simp
  have "chain_ok w ctx t c \<and> (\<exists>rest. c = [(m_id m, m)] @ rest) \<and>
      (\<forall>(i, k) \<in> set c. case m_parent k of None \<Rightarrow> (i, k) = last c | Some p \<Rightarrow> p \<in> fst ` set c)"
    by (rule chain_walk_ok [OF assms(2) [unfolded chainOf_def]]) (use assms(1) i in \<open>simp_all add: chain_ok_def\<close>)
  then show "c \<noteq> []" "hd c = (t_id t, m)" "sorted_wrt (\<lambda>a b. fst b < fst a) c"
    "\<forall>(i, k) \<in> set c. fetchManifest w ctx (t\<lparr>t_id := i\<rparr>) = Inr k \<and> (case m_parent k of None \<Rightarrow> (i, k) = last c | Some p \<Rightarrow> p \<in> fst ` set c)"
    using i by (auto simp: chain_ok_def)
qed

text \<open>C24. Reading the chain of a backup ends, whatever the repository holds: it reads at most one
  manifest more than there are, and when it succeeds it gives the manifests read along the parents,
  each id older than the one before it, down to the one that builds on nothing.\<close>

theorem chainOf_ends:
  assumes "fetchManifest w ctx t = Inr m"
  shows "chain_fuel (Suc (card (manifests_of ctx (t_repo t)))) w ctx t m [(m_id m, m)] = Some (chainOf w ctx t m) \<and>
    (\<forall>c. chainOf w ctx t m = Inr c \<longrightarrow> c \<noteq> [] \<and> hd c = (t_id t, m) \<and> sorted_wrt (\<lambda>a b. fst b < fst a) c \<and>
      (\<forall>(i, k) \<in> set c. fetchManifest w ctx (t\<lparr>t_id := i\<rparr>) = Inr k \<and>
        (case m_parent k of None \<Rightarrow> (i, k) = last c | Some p \<Rightarrow> p \<in> fst ` set c)))"
  using chainOf_ok [OF assms] chain_fuel_walk [OF older_bound] unfolding chainOf_def by blast

definition ex_entry :: catalog_entry where
  "ex_entry = \<lparr>ce_name = ''a'', ce_object = ''0.age'', ce_in = None, ce_size = 7, ce_sha256 = replicate 64 (CHR ''0''), ce_fingerprint = None\<rparr>"

definition ex_cat :: catalog where
  "ex_cat = \<lparr>ca_kind = ''files'', ca_entries = [ex_entry], ca_position = None\<rparr>"

definition ex_outside :: outside where
  "ex_outside = \<lparr>o_json = (\<lambda>b. if b = ''M'' then Some (manifest_json ex_manifest) else if b = ''catalogue!'' then Some (catalog_json ex_cat) else None),
     o_text = (\<lambda>v. []), o_pretty = (\<lambda>v. ''M''), o_sha = (\<lambda>b. replicate 64 (if length b = 10 then CHR ''a'' else CHR ''0'')),
     o_seal = (\<lambda>rs b. b), o_open = (\<lambda>is b. Plain b), o_sign = (\<lambda>b. b), o_verify = (\<lambda>b s. True)\<rparr>"

definition ex_ctx :: bctx where
  "ex_ctx = \<lparr>x_backup = ''app'', x_repositories = [''local''], x_recipients = [''age1x''], x_signer = False, x_trusted = False, x_lease = 1000\<rparr>"

definition ex_site :: site where
  "ex_site = \<lparr>t_call = ''restore'', t_id = m_id ex_manifest, t_name = ''local'', t_repo = [(keyOf ex_ctx (m_id ex_manifest) MANIFEST, ''M''),
     (keyOf ex_ctx (m_id ex_manifest) ''catalog.age'', ''catalogue!''), (keyOf ex_ctx (m_id ex_manifest) ''0.age'', ''payload'')]\<rparr>"

lemma ex_fetch: "fetchManifest ex_outside ex_ctx ex_site = Inr ex_manifest"
proof -
  have "readManifest (Some (manifest_json ex_manifest)) = Inr ex_manifest" using read_written [OF ex_manifest_ok(1)] by simp
  moreover have "id_text (m_id ex_manifest)" using ex_manifest_ok(1) by (simp add: manifest_ok_def)
  moreover have "m_backup ex_manifest = ''app''" by (simp add: ex_manifest_def)
  ultimately show ?thesis
    by (simp add: fetchManifest_def ex_site_def ex_ctx_def ex_outside_def repo_get_def upTo_def MANIFEST_MAX_BYTES_def Let_def)
qed

theorem chainOf_ends_witness:
  "chain_fuel (Suc (card (manifests_of ex_ctx (t_repo ex_site)))) ex_outside ex_ctx ex_site ex_manifest [(m_id ex_manifest, ex_manifest)]
     = Some (chainOf ex_outside ex_ctx ex_site ex_manifest)"
  using chainOf_ends [OF ex_fetch] by simp

section \<open>Where an error happened does not decide whether there is one\<close>

definition value_of :: "'a bres \<Rightarrow> 'a option" where
  "value_of r = (case r of Inl e \<Rightarrow> None | Inr x \<Rightarrow> Some x)"

lemma value_of_simps [simp]: "value_of (Inl e) = None" "value_of (Inr x) = Some x"
  by (simp_all add: value_of_def)

lemma value_of_Some: "value_of r = Some x \<longleftrightarrow> r = Inr x"
  by (cases r) simp_all

lemma value_of_bbind: "value_of (bbind r f) = (case value_of r of None \<Rightarrow> None | Some x \<Rightarrow> value_of (f x))"
  by (cases r) simp_all

lemma value_of_bguard [simp]: "value_of (bguard ok e) = (if ok then Some () else None)"
  by (simp add: bguard_def)

abbreviation called :: "string \<Rightarrow> site \<Rightarrow> site" where
  "called c t \<equiv> t\<lparr>t_call := c\<rparr>"

lemma fetchManifest_called: "value_of (fetchManifest w ctx (called c t)) = value_of (fetchManifest w ctx t)"
  by (auto simp: fetchManifest_def checkSignature_def Let_def value_of_bbind split: option.splits sum.splits)

lemma stage_called: "value_of (stage w ctx (called c t) ob) = value_of (stage w ctx t ob)"
  by (simp add: stage_def split: option.splits)

lemma fetchCatalog_called: "value_of (fetchCatalog w ctx (called c t) m ids) = value_of (fetchCatalog w ctx t m ids)"
  by (auto simp: fetchCatalog_def value_of_bbind stage_called split: option.splits opened.splits sum.splits)

lemma called_id: "(called c t)\<lparr>t_id := i\<rparr> = called c (t\<lparr>t_id := i\<rparr>)"
  by simp

lemma chain_walk_called: "value_of (chain_walk w ctx (called c t) child chain) = value_of (chain_walk w ctx t child chain)"
proof (induction w ctx t child chain rule: chain_walk.induct)
  case (1 w ctx t child chain)
  show ?case
  proof (cases "m_parent child")
    case None
    then show ?thesis by (simp add: chain_walk.simps)
  next
    case (Some p)
    have e: "value_of (fetchManifest w ctx ((called c t)\<lparr>t_id := p\<rparr>)) = value_of (fetchManifest w ctx (t\<lparr>t_id := p\<rparr>))"
      unfolding called_id by (rule fetchManifest_called)
    show ?thesis
    proof (cases "fetchManifest w ctx (t\<lparr>t_id := p\<rparr>)")
      case (Inr parent)
      then have "fetchManifest w ctx ((called c t)\<lparr>t_id := p\<rparr>) = Inr parent" using e by (simp add: value_of_Some)
      then show ?thesis using 1 [OF Some Inr] Some Inr by (simp add: chain_walk.simps [of w ctx _ child])
    next
      case (Inl er)
      then obtain er' where "fetchManifest w ctx ((called c t)\<lparr>t_id := p\<rparr>) = Inl er'" using e by (cases "fetchManifest w ctx ((called c t)\<lparr>t_id := p\<rparr>)") simp_all
      then show ?thesis using Some Inl by (simp add: chain_walk.simps [of w ctx _ child])
    qed
  qed
qed

lemma chainOf_called: "value_of (chainOf w ctx (called c t) m) = value_of (chainOf w ctx t m)"
  unfolding chainOf_def by (rule chain_walk_called)

lemma succeeds_called:
  "fetchManifest w ctx (called c t) = Inr m \<longleftrightarrow> fetchManifest w ctx t = Inr m"
  "fetchCatalog w ctx (called c t) m ids = Inr cat \<longleftrightarrow> fetchCatalog w ctx t m ids = Inr cat"
  "chainOf w ctx (called c t) m = Inr ch \<longleftrightarrow> chainOf w ctx t m = Inr ch"
  using fetchManifest_called [of w ctx c t] fetchCatalog_called [of w ctx c t m ids] chainOf_called [of w ctx c t m]
  by (simp_all flip: value_of_Some)

text \<open>The bytes an entry's stream ends with, if it ends, and the object they come from.\<close>

definition entry_bytes :: "outside \<Rightarrow> bctx \<Rightarrow> site \<Rightarrow> chain \<Rightarrow> string list \<Rightarrow> catalog_entry \<Rightarrow> (string \<times> stored_object) option" where
  "entry_bytes w ctx t chain ids e = (case map_of chain (holder_of t e) of None \<Rightarrow> None
     | Some m \<Rightarrow> (case object_at m (ce_object e) of None \<Rightarrow> None
     | Some ob \<Rightarrow> (case repo_get (t_repo t) (keyOf ctx (holder_of t e) (so_key ob)) of None \<Rightarrow> None
     | Some b \<Rightarrow> if \<not> expect w (so_size ob, so_sha256 ob) b then None
         else (case o_open w ids b of Plain p \<Rightarrow> if expect w (ce_size e, ce_sha256 e) p then Some (p, ob) else None
           | _ \<Rightarrow> None))))"

lemma openEntry_bytes: "openEntry w ctx t chain e ids = Inr (Ends b, ob) \<longleftrightarrow> entry_bytes w ctx t chain ids e = Some (b, ob)"
  by (auto simp: openEntry_def entry_bytes_def locate_def stage_def openFile_def split: option.splits opened.splits)

lemma entry_bytes_called: "entry_bytes w ctx (called c t) chain ids e = entry_bytes w ctx t chain ids e"
proof -
  have h: "holder_of (called c t) e = holder_of t e" "t_repo (called c t) = t_repo t" by (simp_all add: holder_of_def split: option.split)
  show ?thesis unfolding entry_bytes_def h ..
qed

lemma entry_bytes_None: "entry_bytes w ctx t chain ids e = None \<Longrightarrow> openEntry w ctx t chain e ids \<noteq> Inr (Ends b, ob)"
  using openEntry_bytes [of w ctx t chain e ids b ob] by simp

lemma open_list_value:
  "value_of (open_list w ctx t chain ids es) = those (map (\<lambda>e. map_option snd (entry_bytes w ctx t chain ids e)) es)"
proof (induction es)
  case (Cons e es)
  show ?case
  proof (cases "entry_bytes w ctx t chain ids e")
    case None
    then show ?thesis using entry_bytes_None [OF None] by (auto simp: value_of_bbind split: sum.splits stream.splits)
  next
    case (Some bo)
    obtain b ob where bo: "bo = (b, ob)" by (cases bo)
    have "openEntry w ctx t chain e ids = Inr (Ends b, ob)" using Some openEntry_bytes unfolding bo by metis
    then show ?thesis using Cons Some bo by (simp add: value_of_bbind split: option.splits)
  qed
qed simp

definition reading :: "target \<Rightarrow> bool" where
  "reading target = (\<forall>n b. target n (Ends b) = Resolves True)"

lemma restore_entries_value:
  assumes "reading target"
  shows "value_of (restore_entries w ctx t chain ids target es) =
    those (map (\<lambda>e. map_option (\<lambda>(b, ob). (ce_name e, b)) (entry_bytes w ctx t chain ids e)) es)"
proof (induction es)
  case (Cons e es)
  show ?case
  proof (cases "entry_bytes w ctx t chain ids e")
    case None
    then show ?thesis using entry_bytes_None [OF None] by (auto simp: value_of_bbind split: sum.splits stream.splits written.splits)
  next
    case (Some bo)
    obtain b ob where bo: "bo = (b, ob)" by (cases bo)
    have "openEntry w ctx t chain e ids = Inr (Ends b, ob)" using Some openEntry_bytes unfolding bo by metis
    then show ?thesis using Cons Some bo assms by (simp add: value_of_bbind reading_def split: option.splits)
  qed
qed simp

lemma those_map_option: "(those (map (\<lambda>x. map_option (f x) (g x)) xs) \<noteq> None) = (\<forall>x \<in> set xs. g x \<noteq> None)"
  by (induction xs) (auto split: option.splits)

text \<open>C23. Verifying a backup with a key is a restore without a target: it succeeds exactly when a
  restore of every entry from the same repository, with the same keys, would.\<close>

theorem verify_is_restore:
  assumes "reading target"
  shows "(\<exists>v. verifyBackup w ctx repos key_ok i (Some ids) frm = Inr v) \<longleftrightarrow>
    (\<exists>r. restoreBackup w ctx repos key_ok i target ids frm Every = Inr r)"
proof -
  let ?t = "\<lambda>n. \<lparr>t_call = ''restore'', t_id = i, t_name = n, t_repo = repos n\<rparr>"
  have repo: "repositoryOf ctx frm ''verify'' = Inr n \<longleftrightarrow> repositoryOf ctx frm ''restore'' = Inr n" for n
    by (simp add: repositoryOf_def split: option.split)
  have keys: "decrypterFor key_ok ids ''verify'' = Inr u \<longleftrightarrow> decrypterFor key_ok ids ''restore'' = Inr u" for u
    by (simp add: decrypterFor_def split: option.split)
  have o: "(\<exists>rest. open_list w ctx (called c t) chain ids es = Inr rest) \<longleftrightarrow> (\<exists>ws. restore_entries w ctx t chain ids target es = Inr ws)" for c t chain es
    using those_map_option [of "\<lambda>e. snd" "entry_bytes w ctx t chain ids" es]
      those_map_option [of "\<lambda>e (b, ob). (ce_name e, b)" "entry_bytes w ctx t chain ids" es]
    unfolding value_of_Some [symmetric] not_None_eq [symmetric] open_list_value restore_entries_value [OF assms] entry_bytes_called by simp
  let ?v = "\<lambda>n. \<lparr>t_call = ''verify'', t_id = i, t_name = n, t_repo = repos n\<rparr>"
  have f: "fetchManifest w ctx (?v n) = Inr m \<longleftrightarrow> fetchManifest w ctx (?t n) = Inr m"
    "fetchCatalog w ctx (?v n) m ids = Inr cat \<longleftrightarrow> fetchCatalog w ctx (?t n) m ids = Inr cat"
    "chainOf w ctx (?v n) m = Inr ch \<longleftrightarrow> chainOf w ctx (?t n) m = Inr ch" for n m cat ch
    using succeeds_called [of w ctx "''verify''" "?t n"] by simp_all
  have o1: "(\<exists>rest. open_list w ctx (?v n) chain ids es = Inr rest) \<longleftrightarrow> (\<exists>ws. restore_entries w ctx (?t n) chain ids target es = Inr ws)" for n chain es
    using o [of "''verify''" "?t n" chain es] by simp
  have verify: "(\<exists>v. verifyBackup w ctx repos key_ok i (Some ids) frm = Inr v) \<longleftrightarrow>
      (\<exists>n u m chain c. repositoryOf ctx frm ''restore'' = Inr n \<and> decrypterFor key_ok ids ''restore'' = Inr u \<and>
        fetchManifest w ctx (?t n) = Inr m \<and> chainOf w ctx (?t n) m = Inr chain \<and> fetchCatalog w ctx (?t n) m ids = Inr c \<and>
        (\<exists>ws. restore_entries w ctx (?t n) chain ids target (ca_entries c) = Inr ws))"
    unfolding verifyBackup_def openAll_def Let_def by (simp add: repo keys f o1 [symmetric]) blast
  have restore: "(\<exists>r. restoreBackup w ctx repos key_ok i target ids frm Every = Inr r) \<longleftrightarrow>
      (\<exists>n u m chain c. repositoryOf ctx frm ''restore'' = Inr n \<and> decrypterFor key_ok ids ''restore'' = Inr u \<and>
        fetchManifest w ctx (?t n) = Inr m \<and> chainOf w ctx (?t n) m = Inr chain \<and> fetchCatalog w ctx (?t n) m ids = Inr c \<and>
        (\<exists>ws. restore_entries w ctx (?t n) chain ids target (ca_entries c) = Inr ws))"
    unfolding restoreBackup_def Let_def selected_def by simp blast
  show ?thesis unfolding verify restore ..
qed

lemma bbind_ex: "(\<exists>v. bbind r f = Inr v) \<longleftrightarrow> (\<exists>x. r = Inr x \<and> (\<exists>v. f x = Inr v))"
  by (cases r) simp_all

lemma fetchCatalog_local:
  "fetchCatalog w ctx t m ids = Inr c \<longleftrightarrow> (\<exists>bytes plain. repo_get (t_repo t) (keyOf ctx (t_id t) (so_key (m_catalog m))) = Some bytes \<and>
    expect w (so_size (m_catalog m), so_sha256 (m_catalog m)) bytes \<and> o_open w ids bytes = Plain plain \<and>
    readCatalog (o_json w plain) (length (m_objects m)) = Inr c)"
  by (auto simp: fetchCatalog_def stage_def split: option.splits opened.splits sum.splits if_splits)

theorem verify_is_restore_witness:
  "(\<exists>v. verifyBackup ex_outside ex_ctx (\<lambda>n. t_repo ex_site) (\<lambda>k. True) (m_id ex_manifest) (Some [''k'']) None = Inr v) \<longleftrightarrow>
    (\<exists>r. restoreBackup ex_outside ex_ctx (\<lambda>n. t_repo ex_site) (\<lambda>k. True) (m_id ex_manifest) (\<lambda>n s. Resolves True) [''k''] None Every = Inr r)"
  by (rule verify_is_restore) (simp add: reading_def)

section \<open>A restore writes what was recorded\<close>

lemma restore_entries_recorded:
  "restore_entries w ctx t chain ids target es = Inr ws \<Longrightarrow>
    list_all2 (\<lambda>e (n, b). n = ce_name e \<and> int (length b) = ce_size e \<and> o_sha w b = ce_sha256 e) es ws"
proof (induction es arbitrary: ws)
  case (Cons e es)
  from Cons.prems obtain b ob rest where o: "openEntry w ctx t chain e ids = Inr (Ends b, ob)" and ws: "ws = (ce_name e, b) # rest"
    and r: "restore_entries w ctx t chain ids target es = Inr rest"
    by (auto split: sum.splits prod.splits written.splits stream.splits if_splits)
  have "int (length b) = ce_size e \<and> o_sha w b = ce_sha256 e"
    using o unfolding openEntry_bytes by (auto simp: entry_bytes_def expect_def split: option.splits if_splits opened.splits)
  then show ?case using Cons.IH [OF r] ws by simp
qed simp

text \<open>C22. Whatever a repository returns, a restore that succeeds wrote only what the backup recorded:
  a manifest that is well-formed, of this backup and this id, and signed when keys are trusted; a catalog
  whose digest is the manifest's; and under each entry's name, bytes of the size and the digest the
  catalog gives that entry, once per entry asked for, in the catalog's order.\<close>

theorem restore_only_recorded:
  assumes "restoreBackup w ctx repos key_ok i target ids frm sel = Inr r"
  shows "\<exists>n m c bytes mf. repositoryOf ctx frm ''restore'' = Inr n \<and> manifest_ok m \<and> m_id m = i \<and> m_backup m = x_backup ctx \<and>
    repo_get (repos n) (keyOf ctx i MANIFEST) = Some mf \<and> readManifest (o_json w mf) = Inr m \<and>
    (x_trusted ctx \<longrightarrow> (\<exists>sig. repo_get (repos n) (keyOf ctx i SIGNATURE_KEY) = Some sig \<and> o_verify w mf (take 65 sig))) \<and>
    repo_get (repos n) (keyOf ctx i ''catalog.age'') = Some bytes \<and> o_sha w bytes = so_sha256 (m_catalog m) \<and>
    (\<exists>plain. o_open w ids bytes = Plain plain \<and> readCatalog (o_json w plain) (length (m_objects m)) = Inr c) \<and>
    (\<exists>es. list_all2 (\<lambda>e (k, b). k = ce_name e \<and> int (length b) = ce_size e \<and> o_sha w b = ce_sha256 e) es (rd_written r) \<and>
      es = filter (\<lambda>e. case sel of Every \<Rightarrow> True | Names ns \<Rightarrow> ce_name e \<in> set ns | Passing f \<Rightarrow> f (ce_name e)) (ca_entries c) \<and>
      rd_entries r = map ce_name es)"
proof -
  let ?t = "\<lambda>n. \<lparr>t_call = ''restore'', t_id = i, t_name = n, t_repo = repos n\<rparr>"
  obtain n m c es chain ws where n: "repositoryOf ctx frm ''restore'' = Inr n" and m: "fetchManifest w ctx (?t n) = Inr m"
    and c: "fetchCatalog w ctx (?t n) m ids = Inr c" and es: "selected ctx (?t n) (ca_entries c) sel = Inr es"
    and ws: "restore_entries w ctx (?t n) chain ids target es = Inr ws" and r: "rd_written r = ws" "rd_entries r = map ce_name es"
    using assms by (auto simp: restoreBackup_def Let_def)
  have ok: "manifest_ok m" "m_id m = i" "m_backup m = x_backup ctx" using fetchManifest_ok [OF m] by simp_all
  obtain mf where mf: "repo_get (repos n) (keyOf ctx i MANIFEST) = Some mf" "readManifest (o_json w mf) = Inr m"
    "x_trusted ctx \<longrightarrow> (\<exists>sig. repo_get (repos n) (keyOf ctx i SIGNATURE_KEY) = Some sig \<and> o_verify w mf (take 65 sig))"
    using m by (auto simp: fetchManifest_def checkSignature_def signedByAny_def upTo_def Let_def split: option.splits if_splits sum.splits)
  have "so_key (m_catalog m) = ''catalog.age''" using ok(1) by (simp add: manifest_ok_def)
  then obtain bytes plain where b: "repo_get (repos n) (keyOf ctx i ''catalog.age'') = Some bytes" "o_sha w bytes = so_sha256 (m_catalog m)"
    "o_open w ids bytes = Plain plain" "readCatalog (o_json w plain) (length (m_objects m)) = Inr c"
    using c by (auto simp: fetchCatalog_local expect_def)
  have "es = filter (\<lambda>e. case sel of Every \<Rightarrow> True | Names ns \<Rightarrow> ce_name e \<in> set ns | Passing f \<Rightarrow> f (ce_name e)) (ca_entries c)"
    using es by (auto simp: selected_def split: only.splits if_splits)
  with n ok mf b restore_entries_recorded [OF ws] r show ?thesis by blast
qed

lemma ex_restore:
  "restoreBackup ex_outside ex_ctx (\<lambda>n. t_repo ex_site) (\<lambda>k. True) (m_id ex_manifest) (\<lambda>n s. Resolves True) [''k''] None Every =
    Inr \<lparr>rd_id = m_id ex_manifest, rd_repository = ''local'', rd_entries = [''a''], rd_size = 7, rd_written = [(''a'', ''payload'')]\<rparr>"
proof -
  have t: "\<lparr>t_call = ''restore'', t_id = m_id ex_manifest, t_name = ''local'', t_repo = t_repo ex_site\<rparr> = ex_site" by (simp add: ex_site_def)
  have n: "object_name 0 = ''0.age''" "parse_index ''0.age'' = Some 0" by code_simp+
  have "catalog_ok 1 ex_cat"
    using n by (simp add: catalog_ok_def entries_ok_def entry_ok_def ex_cat_def own_entries_def ex_entry_def hex_text_def list_all_iff is_hex_def is_digit_def)
  then have cat: "readCatalog (Some (catalog_json ex_cat)) 1 = Inr ex_cat" by (rule catalog_written)
  have m: "m_catalog ex_manifest = \<lparr>so_key = ''catalog.age'', so_size = 10, so_sha256 = replicate 64 (CHR ''a'')\<rparr>"
    "m_objects ex_manifest = [\<lparr>so_key = ''0.age'', so_size = 7, so_sha256 = replicate 64 (CHR ''0'')\<rparr>]" "m_parent ex_manifest = None"
    by (simp_all add: ex_manifest_def)
  have k: "MANIFEST \<noteq> ''catalog.age''" "MANIFEST \<noteq> ''0.age''" by (simp_all add: MANIFEST_def)
  have c: "fetchCatalog ex_outside ex_ctx ex_site ex_manifest [''k''] = Inr ex_cat"
    using cat k by (simp add: fetchCatalog_local m ex_site_def ex_outside_def repo_get_def expect_def)
  have e: "entry_bytes ex_outside ex_ctx ex_site [(m_id ex_manifest, ex_manifest)] [''k''] ex_entry =
      Some (''payload'', \<lparr>so_key = ''0.age'', so_size = 7, so_sha256 = replicate 64 (CHR ''0'')\<rparr>)"
    using k by (simp add: entry_bytes_def holder_of_def ex_entry_def ex_site_def object_at_def n m repo_get_def ex_outside_def expect_def)
  have "value_of (restore_entries ex_outside ex_ctx ex_site [(m_id ex_manifest, ex_manifest)] [''k''] (\<lambda>n s. Resolves True) [ex_entry])
      = Some [(ce_name ex_entry, ''payload'')]"
    unfolding restore_entries_value [of "\<lambda>n s. Resolves True", unfolded reading_def, simplified] by (simp add: e)
  then have r: "restore_entries ex_outside ex_ctx ex_site [(m_id ex_manifest, ex_manifest)] [''k''] (\<lambda>n s. Resolves True) (ca_entries ex_cat) = Inr [(''a'', ''payload'')]"
    by (simp add: value_of_Some ex_cat_def ex_entry_def del: restore_entries.simps)
  have "repositoryOf ex_ctx None ''restore'' = Inr ''local''" by (simp add: repositoryOf_def ex_ctx_def)
  then show ?thesis
    by (simp add: restoreBackup_def t decrypterFor_def ex_fetch c selected_def chainOf_def chain_walk.simps m r) (simp add: ex_cat_def ex_entry_def)
qed

theorem restore_only_recorded_witness:
  "\<exists>m. manifest_ok m \<and> m_id m = m_id ex_manifest \<and>
    repo_get (t_repo ex_site) (keyOf ex_ctx (m_id ex_manifest) ''catalog.age'') \<noteq> None"
  using restore_only_recorded [OF ex_restore] by auto

end
