(* ===== verification/Backup_Create.thy ===== *)
theory Backup_Create
  imports Backup_Chain
begin

text \<open>
  Making a backup: \<open>packages/backup/src/backups/run.ts\<close> (a put into every repository still in the run),
  \<open>backups/entries.ts\<close> (an entry sealed and stored, or pointed to), \<open>chain/base.ts\<close> (the backup a new one
  builds on) and \<open>backups/create.ts\<close>. The state is the run: each repository with what it holds, the error
  that left it out, and what its next puts will do: land, find the lease out, or be rejected, leaving
  part of an object or nothing.
\<close>

section \<open>A run\<close>

datatype put_event = Lands | LeaseOut | PutRejects "string option"

record rstate =
  rs_name :: string
  rs_repo :: repo
  rs_failed :: "berr option"
  rs_events :: "put_event list"

record run =
  ru_id :: string
  ru_kind :: backup_kind
  ru_repos :: "rstate list"

definition leaseLost :: "bctx \<Rightarrow> string \<Rightarrow> string \<Rightarrow> string \<Rightarrow> berr" where
  "leaseLost ctx call i n = BErr LEASE_LOST (Some i) (Some n)
     (call @ '' on \"'' @ x_backup ctx @ ''\": the lock's lease ran out before it was done (repository \"'' @ n @ ''\")'')"

definition put_one :: "bctx \<Rightarrow> string \<Rightarrow> string \<Rightarrow> string \<Rightarrow> rstate \<Rightarrow> rstate" where
  "put_one ctx i key bytes s = (if rs_failed s \<noteq> None then s
     else (let ev = (case rs_events s of [] \<Rightarrow> Lands | x # xs \<Rightarrow> x); s = s\<lparr>rs_events := drop 1 (rs_events s)\<rparr> in
       (case ev of LeaseOut \<Rightarrow> s\<lparr>rs_failed := Some (leaseLost ctx ''create'' i (rs_name s))\<rparr>
         | PutRejects part \<Rightarrow> s\<lparr>rs_failed := Some (BOther ''put''),
             rs_repo := (case part of None \<Rightarrow> rs_repo s | Some p \<Rightarrow> repo_put (keyOf ctx i key) p (rs_repo s))\<rparr>
         | Lands \<Rightarrow> s\<lparr>rs_repo := repo_put (keyOf ctx i key) bytes (rs_repo s)\<rparr>)))"

definition putAll :: "bctx \<Rightarrow> string \<Rightarrow> string \<Rightarrow> run \<Rightarrow> run" where
  "putAll ctx key bytes ru = ru\<lparr>ru_repos := map (put_one ctx (ru_id ru) key bytes) (ru_repos ru)\<rparr>"

definition nowhereLeft :: "run \<Rightarrow> bool" where
  "nowhereLeft ru = list_all (\<lambda>s. rs_failed s \<noteq> None) (ru_repos ru)"

text \<open>\<open>sealToFile\<close>, then the put: the object as the manifest will say it.\<close>

definition sealed :: "outside \<Rightarrow> bctx \<Rightarrow> string \<Rightarrow> string" where
  "sealed w ctx plain = o_seal w (x_recipients ctx) plain"

definition object_of :: "outside \<Rightarrow> string \<Rightarrow> string \<Rightarrow> stored_object" where
  "object_of w key bytes = \<lparr>so_key = key, so_size = fst (measured w bytes), so_sha256 = snd (measured w bytes)\<rparr>"

definition store_plain :: "outside \<Rightarrow> bctx \<Rightarrow> string \<Rightarrow> string \<Rightarrow> run \<Rightarrow> stored_object \<times> run" where
  "store_plain w ctx key plain ru = (let bytes = sealed w ctx plain in (object_of w key bytes, putAll ctx key bytes ru))"

section \<open>The backup built on\<close>

record known =
  k_size :: int
  k_sha256 :: string
  k_fingerprint :: "string option"
  k_in :: string
  k_object :: string

record since =
  n_id :: string
  n_position :: "string option"
  n_entries :: "(string \<times> int \<times> string \<times> string option) list"

record base =
  b_manifest :: manifest
  b_since :: since
  b_known :: "(string \<times> known) list"

fun newest_of :: "outside \<Rightarrow> bctx \<Rightarrow> site \<Rightarrow> backup_kind \<Rightarrow> string list \<Rightarrow> manifest option bres" where
  "newest_of w ctx t kind [] = Inr None"
| "newest_of w ctx t kind (i # is) = (case fetchManifest w ctx (t\<lparr>t_id := i\<rparr>) of
     Inr m \<Rightarrow> if kind = Incremental \<or> m_kind m = Full then Inr (Some m) else newest_of w ctx t kind is
   | Inl (BErr a b c d) \<Rightarrow> newest_of w ctx t kind is
   | Inl e \<Rightarrow> Inl e)"

definition newestFor :: "outside \<Rightarrow> bctx \<Rightarrow> run \<Rightarrow> rstate \<Rightarrow> backup_kind \<Rightarrow> manifest bres" where
  "newestFor w ctx ru s kind =
     bbind (newest_of w ctx \<lparr>t_call = ''create'', t_id = ru_id ru, t_name = rs_name s, t_repo = rs_repo s\<rparr> kind
       (rev (filter (\<lambda>i. i < ru_id ru) (manifestIds ctx (rs_repo s))))) (\<lambda>found.
     (case found of Some m \<Rightarrow> Inr m | None \<Rightarrow> Inl (BErr NOT_FOUND (Some (ru_id ru)) (Some (rs_name s))
       (''create on \"'' @ x_backup ctx @ ''\": no '' @ (if kind = Differential then ''full '' else '''') @ ''backup to build on (repository \"'' @ rs_name s @ ''\")''))))"

text \<open>Leaves out every other repository that does not hold the whole chain of the base.\<close>

definition require_one :: "outside \<Rightarrow> bctx \<Rightarrow> string \<Rightarrow> string \<Rightarrow> string \<Rightarrow> rstate \<Rightarrow> rstate" where
  "require_one w ctx i b n s = (if rs_name s = n \<or> rs_failed s \<noteq> None then s
     else (let t = \<lparr>t_call = ''create'', t_id = b, t_name = rs_name s, t_repo = rs_repo s\<rparr> in
       (case bbind (fetchManifest w ctx t) (chainOf w ctx t) of Inr ch \<Rightarrow> s
         | Inl e \<Rightarrow> s\<lparr>rs_failed := Some (if is_not_found e
             then failure ctx (t\<lparr>t_id := i\<rparr>) NOT_FOUND ''the backup it builds on is not in this repository'' else e)\<rparr>)))"

definition requireEverywhere :: "outside \<Rightarrow> bctx \<Rightarrow> string \<Rightarrow> string \<Rightarrow> run \<Rightarrow> run" where
  "requireEverywhere w ctx b n ru = ru\<lparr>ru_repos := map (require_one w ctx (ru_id ru) b n) (ru_repos ru)\<rparr>"

definition sourceRepository :: "bctx \<Rightarrow> run \<Rightarrow> string option \<Rightarrow> rstate bres" where
  "sourceRepository ctx ru frm = (case (case frm of None \<Rightarrow> find (\<lambda>s. rs_failed s = None) (ru_repos ru)
       | Some n \<Rightarrow> find (\<lambda>s. rs_name s = n) (ru_repos ru)) of
     None \<Rightarrow> Inl (BType (''create on \"'' @ x_backup ctx @ ''\": no repository has that name''))
   | Some s \<Rightarrow> (case rs_failed s of Some e \<Rightarrow> Inl e | None \<Rightarrow> Inr s))"

definition sameRecipients :: "string list \<Rightarrow> string list \<Rightarrow> bool" where
  "sameRecipients a b = (card (set a) = card (set b) \<and> list_all (\<lambda>r. r \<in> set a) b)"

definition known_of :: "manifest \<Rightarrow> catalog_entry \<Rightarrow> known" where
  "known_of m e = \<lparr>k_size = ce_size e, k_sha256 = ce_sha256 e, k_fingerprint = ce_fingerprint e,
     k_in = (case ce_in e of None \<Rightarrow> m_id m | Some i \<Rightarrow> i), k_object = ce_object e\<rparr>"

definition baseOf :: "outside \<Rightarrow> bctx \<Rightarrow> backup_kind \<Rightarrow> string option \<Rightarrow> string list \<Rightarrow> string \<Rightarrow> run \<Rightarrow> base bres \<times> run" where
  "baseOf w ctx kind frm ids skind ru = (case (
     bbind (sourceRepository ctx ru frm) (\<lambda>s.
     bbind (newestFor w ctx ru s kind) (\<lambda>m. let t = \<lparr>t_call = ''create'', t_id = m_id m, t_name = rs_name s, t_repo = rs_repo s\<rparr> in
     bbind (chainOf w ctx t m) (\<lambda>ch.
     bbind (bguard (sameRecipients (m_recipients m) (x_recipients ctx))
       (BType (''create on \"'' @ x_backup ctx @ ''\": the backup it builds on is encrypted to other recipients; make a full backup first''))) (\<lambda>_.
     bbind (fetchCatalog w ctx t m ids) (\<lambda>c.
     bbind (bguard (ca_kind c = skind)
       (BType (''create on \"'' @ x_backup ctx @ ''\": the source is not of the kind the backup it builds on was made from''))) (\<lambda>_.
       Inr (s, m, c)))))))) of
     Inl e \<Rightarrow> (Inl e, ru)
   | Inr (s, m, c) \<Rightarrow>
       (Inr \<lparr>b_manifest = m,
          b_since = \<lparr>n_id = m_id m, n_position = ca_position c,
            n_entries = map (\<lambda>e. (ce_name e, ce_size e, ce_sha256 e, ce_fingerprint e)) (ca_entries c)\<rparr>,
          b_known = map (\<lambda>e. (ce_name e, known_of m e)) (ca_entries c)\<rparr>,
        requireEverywhere w ctx (m_id m) (rs_name s) ru))"

section \<open>The entries\<close>

record source_entry =
  se_name :: string
  se_fingerprint :: "string option"
  se_open :: "string bres"

record source =
  sr_kind :: string
  sr_entries :: "since option \<Rightarrow> source_entry list"
  sr_position :: "string option"

definition checkEntry :: "bctx \<Rightarrow> source_entry \<Rightarrow> string set \<Rightarrow> unit bres" where
  "checkEntry ctx e names =
     bbind (bguard (isEntryName (Some (JText (se_name e))) \<and> se_name e \<notin> names)
       (BType (''create on \"'' @ x_backup ctx @ ''\": the source gave an entry name that is empty, over 4096 characters, holds a NUL, or was given twice''))) (\<lambda>_.
     bguard (isOptionalText (map_option JText (se_fingerprint e)) FINGERPRINT_MAX)
       (BType (''create on \"'' @ x_backup ctx @ ''\": the source gave a fingerprint that is not a string of at most 1024 bytes'')))"

definition pointer :: "source_entry \<Rightarrow> known \<Rightarrow> catalog_entry" where
  "pointer e k = \<lparr>ce_name = se_name e, ce_object = k_object k, ce_in = Some (k_in k), ce_size = k_size k, ce_sha256 = k_sha256 k,
     ce_fingerprint = se_fingerprint e\<rparr>"

definition known_in :: "base option \<Rightarrow> string \<Rightarrow> known option" where
  "known_in b n = (case b of None \<Rightarrow> None | Some bs \<Rightarrow> map_of (b_known bs) n)"

definition own_entry :: "outside \<Rightarrow> source_entry \<Rightarrow> string \<Rightarrow> string \<Rightarrow> catalog_entry" where
  "own_entry w e key plain = \<lparr>ce_name = se_name e, ce_object = key, ce_in = None, ce_size = fst (measured w plain),
     ce_sha256 = snd (measured w plain), ce_fingerprint = se_fingerprint e\<rparr>"

definition same_bytes :: "outside \<Rightarrow> string \<Rightarrow> known option \<Rightarrow> bool" where
  "same_bytes w plain k = (case k of None \<Rightarrow> False | Some kn \<Rightarrow> k_sha256 kn = o_sha w plain)"

definition storeOne :: "outside \<Rightarrow> bctx \<Rightarrow> source_entry \<Rightarrow> string \<Rightarrow> base option \<Rightarrow> run \<Rightarrow> (catalog_entry \<times> stored_object option) bres \<times> run" where
  "storeOne w ctx e key b ru = (case se_open e of Inl er \<Rightarrow> (Inl er, ru)
     | Inr plain \<Rightarrow> (let bytes = sealed w ctx plain; k = known_in b (se_name e) in
         if same_bytes w plain k then (Inr (pointer e (the k), None), ru)
         else (Inr (own_entry w e key plain, Some (object_of w key bytes)), putAll ctx key bytes ru)))"

record stored =
  st_entries :: "catalog_entry list"
  st_objects :: "stored_object list"
  st_reused :: nat

definition unchanged :: "source_entry \<Rightarrow> known option \<Rightarrow> bool" where
  "unchanged e k = (case k of None \<Rightarrow> False | Some kn \<Rightarrow> se_fingerprint e \<noteq> None \<and> se_fingerprint e = k_fingerprint kn)"

fun store_loop :: "outside \<Rightarrow> bctx \<Rightarrow> base option \<Rightarrow> source_entry list \<Rightarrow> string set \<Rightarrow> stored \<Rightarrow> run \<Rightarrow> stored bres \<times> run" where
  "store_loop w ctx b [] names st ru = (Inr st, ru)"
| "store_loop w ctx b (e # es) names st ru = (case checkEntry ctx e names of Inl er \<Rightarrow> (Inl er, ru)
     | Inr u \<Rightarrow> (let names = insert (se_name e) names; k = known_in b (se_name e) in
         if unchanged e k then store_loop w ctx b es names (st\<lparr>st_entries := st_entries st @ [pointer e (the k)], st_reused := Suc (st_reused st)\<rparr>) ru
         else (case storeOne w ctx e (object_name (length (st_objects st))) b ru of (Inl er, ru') \<Rightarrow> (Inl er, ru')
           | (Inr (ent, ob), ru') \<Rightarrow> (let st = (case ob of
                 Some x \<Rightarrow> st\<lparr>st_entries := st_entries st @ [ent], st_objects := st_objects st @ [x]\<rparr>
               | None \<Rightarrow> st\<lparr>st_entries := st_entries st @ [ent], st_reused := Suc (st_reused st)\<rparr>)
             in if nowhereLeft ru' then (Inr st, ru') else store_loop w ctx b es names st ru'))))"

definition storeEntries :: "outside \<Rightarrow> bctx \<Rightarrow> source \<Rightarrow> base option \<Rightarrow> run \<Rightarrow> stored bres \<times> run" where
  "storeEntries w ctx src b ru = (case store_loop w ctx b (sr_entries src (map_option b_since b)) {} \<lparr>st_entries = [], st_objects = [], st_reused = 0\<rparr> ru of
     (r, ru') \<Rightarrow> (bbind r (\<lambda>st. bbind (bguard (isOptionalText (map_option JText (sr_position src)) POSITION_MAX)
         (BType (''create on \"'' @ x_backup ctx @ ''\": the source gave a position that is not a string of at most 64 KiB''))) (\<lambda>_. Inr st)), ru'))"

section \<open>Create\<close>

record created =
  cr_id :: string
  cr_createdAt :: int
  cr_kind :: backup_kind
  cr_parent :: "string option"
  cr_entries :: nat
  cr_reused :: nat
  cr_size :: int
  cr_storedSize :: int
  cr_signed :: bool
  cr_outcomes :: "(string \<times> berr option) list"

definition outcomesOf :: "run \<Rightarrow> (string \<times> berr option) list" where
  "outcomesOf ru = map (\<lambda>s. (rs_name s, rs_failed s)) (ru_repos ru)"

definition settle :: "bctx \<Rightarrow> run \<Rightarrow> created \<Rightarrow> created bres" where
  "settle ctx ru c = (let n = length (filter (\<lambda>(r, e). e = None) (cr_outcomes c)) in
     if n = length (cr_outcomes c) then Inr c
     else Inl (BErr (if n = 0 then NOT_STORED else PARTIAL) (Some (ru_id ru)) None
       (''create on \"'' @ x_backup ctx @ ''\": stored in '' @ show_nat n @ '' of '' @ show_nat (length (cr_outcomes c)) @ '' repositories'')))"

definition putManifest :: "outside \<Rightarrow> bctx \<Rightarrow> manifest \<Rightarrow> run \<Rightarrow> unit bres \<times> run" where
  "putManifest w ctx m ru = (let bytes = o_pretty w (manifest_json m) in
     if length bytes > MANIFEST_MAX_BYTES
     then (Inl (BType (''create on \"'' @ x_backup ctx @ ''\": the manifest would be larger than 64 MiB; split the source into several backups'')), ru)
     else (let ru = (if x_signer ctx then putAll ctx SIGNATURE_KEY (o_sign w bytes) ru else ru) in (Inr (), putAll ctx MANIFEST bytes ru)))"

definition kindOf :: "bctx \<Rightarrow> string option \<Rightarrow> backup_kind bres" where
  "kindOf ctx given = (case given of None \<Rightarrow> Inr Full
     | Some k \<Rightarrow> (case kind_of_text k of Some kind \<Rightarrow> Inr kind
       | None \<Rightarrow> Inl (BType (''create on \"'' @ x_backup ctx @ ''\": kind must be full, incremental or differential''))))"

definition catalog_of :: "source \<Rightarrow> stored \<Rightarrow> catalog" where
  "catalog_of src st = \<lparr>ca_kind = sr_kind src, ca_entries = st_entries st, ca_position = sr_position src\<rparr>"

definition manifest_of :: "bctx \<Rightarrow> run \<Rightarrow> int \<Rightarrow> base option \<Rightarrow> stored_object \<Rightarrow> stored_object list \<Rightarrow> manifest" where
  "manifest_of ctx ru now b cat obs = \<lparr>m_backup = x_backup ctx, m_id = ru_id ru, m_createdAt = iso_string now, m_kind = ru_kind ru,
     m_parent = map_option (\<lambda>bs. m_id (b_manifest bs)) b, m_recipients = x_recipients ctx, m_catalog = cat, m_objects = obs\<rparr>"

definition finish :: "outside \<Rightarrow> bctx \<Rightarrow> source \<Rightarrow> int \<Rightarrow> stored \<Rightarrow> base option \<Rightarrow> run \<Rightarrow> created bres \<times> run" where
  "finish w ctx src now st b ru = (case store_plain w ctx ''catalog.age'' (o_text w (catalog_json (catalog_of src st))) ru of
     (cat, ru) \<Rightarrow> (let m = manifest_of ctx ru now b cat (st_objects st) in
       (case putManifest w ctx m ru of (Inl e, ru) \<Rightarrow> (Inl e, ru)
         | (Inr u, ru) \<Rightarrow> (settle ctx ru \<lparr>cr_id = ru_id ru, cr_createdAt = now, cr_kind = ru_kind ru, cr_parent = m_parent m,
             cr_entries = length (st_entries st), cr_reused = st_reused st, cr_size = sum_list (map ce_size (st_entries st)),
             cr_storedSize = sum_list (map so_size (st_objects st @ [cat])), cr_signed = x_signer ctx, cr_outcomes = outcomesOf ru\<rparr>, ru))))"

text \<open>\<open>lockAll\<close> left each repository locked or with the error that refused it.\<close>

definition createBackup :: "outside \<Rightarrow> bctx \<Rightarrow> (string \<Rightarrow> bool) \<Rightarrow> source \<Rightarrow> string option \<Rightarrow> string list \<Rightarrow> string option \<Rightarrow> int \<Rightarrow> nat list \<Rightarrow> rstate list \<Rightarrow> created bres \<times> run" where
  "createBackup w ctx key_ok src given ids frm now random repos =
     (let ru = \<lparr>ru_id = newBackupId now random, ru_kind = Full, ru_repos = repos\<rparr> in
      if x_trusted ctx \<and> \<not> x_signer ctx
      then (Inl (BType (''create on \"'' @ x_backup ctx @ ''\": trusted keys are set but no signing key, so this backup could not read what it writes'')), ru)
      else (case bbind (kindOf ctx given) (\<lambda>kind. if kind = Full then Inr kind
          else bbind (decrypterFor key_ok ids (''create on \"'' @ x_backup ctx @ ''\"'')) (\<lambda>_. Inr kind)) of
        Inl e \<Rightarrow> (Inl e, ru)
      | Inr kind \<Rightarrow> (let ru = ru\<lparr>ru_kind := kind\<rparr> in
         (case (if kind \<noteq> Full \<and> \<not> nowhereLeft ru then (case baseOf w ctx kind frm ids (sr_kind src) ru of (r, ru) \<Rightarrow> (bbind r (\<lambda>b. Inr (Some b)), ru))
             else (Inr None, ru)) of
           (Inl e, ru) \<Rightarrow> (Inl e, ru)
         | (Inr b, ru) \<Rightarrow>
            (case (if nowhereLeft ru then (Inr \<lparr>st_entries = [], st_objects = [], st_reused = 0\<rparr>, ru) else storeEntries w ctx src b ru) of
              (Inl e, ru) \<Rightarrow> (Inl e, ru)
            | (Inr st, ru) \<Rightarrow> if nowhereLeft ru
                then (settle ctx ru \<lparr>cr_id = ru_id ru, cr_createdAt = now, cr_kind = kind, cr_parent = map_option (\<lambda>bs. m_id (b_manifest bs)) b,
                  cr_entries = length (st_entries st), cr_reused = 0, cr_size = 0, cr_storedSize = 0, cr_signed = False, cr_outcomes = outcomesOf ru\<rparr>, ru)
                else finish w ctx src now st b ru)))))"

end
