(* ===== verification/Backup_Create_Inv.thy ===== *)
theory Backup_Create_Inv
  imports Backup_Create
begin

text \<open>
  What a run leaves in a repository that stayed in it to the end: every object in place under its
  number, the catalog, the signature and the manifest, and every other key as it was. Then what it
  reads back as.
\<close>

section \<open>One repository of a run\<close>

definition alive :: "nat \<Rightarrow> run \<Rightarrow> bool" where
  "alive k ru = (k < length (ru_repos ru) \<and> rs_failed (ru_repos ru ! k) = None)"

definition repo_at :: "nat \<Rightarrow> run \<Rightarrow> repo" where
  "repo_at k ru = rs_repo (ru_repos ru ! k)"

lemma put_one_failed: "rs_failed (put_one ctx i key b s) = None \<Longrightarrow>
    rs_failed s = None \<and> rs_repo (put_one ctx i key b s) = repo_put (keyOf ctx i key) b (rs_repo s)"
  by (auto simp: put_one_def Let_def split: if_splits put_event.splits)

lemma put_one_name [simp]: "rs_name (put_one ctx i key b s) = rs_name s"
  by (simp add: put_one_def Let_def split: put_event.splits)

lemma putAll_run [simp]:
  "ru_id (putAll ctx key b ru) = ru_id ru" "ru_kind (putAll ctx key b ru) = ru_kind ru"
  "length (ru_repos (putAll ctx key b ru)) = length (ru_repos ru)"
  by (simp_all add: putAll_def)

lemma putAll_alive:
  assumes "alive k (putAll ctx key b ru)"
  shows "alive k ru \<and> repo_at k (putAll ctx key b ru) = repo_put (keyOf ctx (ru_id ru) key) b (repo_at k ru)"
  using assms put_one_failed [of ctx "ru_id ru" key b "ru_repos ru ! k"] by (auto simp: alive_def repo_at_def putAll_def)

lemma alive_left: "alive k ru \<Longrightarrow> \<not> nowhereLeft ru"
  by (auto simp: alive_def nowhereLeft_def list_all_iff intro!: bexI [of _ "ru_repos ru ! k"])

lemma object_name_inj [simp]: "object_name i = object_name j \<longleftrightarrow> i = j"
  by (simp add: object_name_def show_nat_inj)

section \<open>The entries of a run\<close>

text \<open>How a catalog entry comes from a source's: the repository and the objects are those at the end.\<close>

definition entry_from :: "outside \<Rightarrow> bctx \<Rightarrow> base option \<Rightarrow> string \<Rightarrow> repo \<Rightarrow> stored_object list \<Rightarrow> source_entry \<Rightarrow> catalog_entry \<Rightarrow> bool" where
  "entry_from w ctx b i r obs e ent =
     ((\<exists>kn. known_in b (se_name e) = Some kn \<and> ent = pointer e kn \<and>
        (unchanged e (Some kn) \<or> (\<exists>plain. se_open e = Inr plain \<and> k_sha256 kn = o_sha w plain))) \<or>
      (\<exists>plain j. se_open e = Inr plain \<and> j < length obs \<and> ent = own_entry w e (object_name j) plain \<and>
        obs ! j = object_of w (object_name j) (sealed w ctx plain) \<and>
        repo_get r (keyOf ctx i (object_name j)) = Some (sealed w ctx plain)))"

definition stores :: "outside \<Rightarrow> bctx \<Rightarrow> base option \<Rightarrow> nat \<Rightarrow> source_entry list \<Rightarrow> string set \<Rightarrow> stored \<Rightarrow> run \<Rightarrow> stored \<Rightarrow> run \<Rightarrow> bool" where
  "stores w ctx b k es names st ru st' ru' = (\<exists>ents obs.
     st_entries st' = st_entries st @ ents \<and> st_objects st' = st_objects st @ obs \<and> alive k ru \<and>
     ru_id ru' = ru_id ru \<and> ru_kind ru' = ru_kind ru \<and>
     list_all2 (entry_from w ctx b (ru_id ru) (repo_at k ru') (st_objects st')) es ents \<and>
     map ce_object (own_entries ents) = map object_name [length (st_objects st)..<length (st_objects st')] \<and>
     map so_key obs = map object_name [length (st_objects st)..<length (st_objects st')] \<and>
     (\<forall>x \<in> set obs. \<exists>e \<in> set es. \<exists>plain. se_open e = Inr plain \<and> x = object_of w (so_key x) (sealed w ctx plain)) \<and>
     (\<forall>e \<in> set es. isEntryName (Some (JText (se_name e))) \<and> se_name e \<notin> names \<and> isOptionalText (map_option JText (se_fingerprint e)) FINGERPRINT_MAX) \<and>
     distinct (map se_name es) \<and>
     (\<forall>key. (\<forall>j \<ge> length (st_objects st). key \<noteq> keyOf ctx (ru_id ru) (object_name j)) \<longrightarrow> repo_get (repo_at k ru') key = repo_get (repo_at k ru) key))"

lemma checkEntry_ok: "checkEntry ctx e names = Inr u \<longleftrightarrow> isEntryName (Some (JText (se_name e))) \<and> se_name e \<notin> names \<and>
    isOptionalText (map_option JText (se_fingerprint e)) FINGERPRINT_MAX"
  by (auto simp: checkEntry_def)

lemma own_entries_Cons [simp]: "own_entries (e # es) = (if ce_in e = None then e # own_entries es else own_entries es)"
  by (simp add: own_entries_def)

lemma pointer_simps [simp]: "ce_in (pointer e k) = Some (k_in k)" "ce_in (own_entry w e key p) = None" "ce_object (own_entry w e key p) = key"
  by (simp_all add: pointer_def own_entry_def)

text \<open>A pointer changes nothing but the list of entries.\<close>

lemma stores_pointer:
  assumes "stores w ctx b k es (insert (se_name e) names) (st\<lparr>st_entries := st_entries st @ [pointer e kn], st_reused := n\<rparr>) ru st' ru'"
    and "known_in b (se_name e) = Some kn" "unchanged e (Some kn) \<or> (\<exists>plain. se_open e = Inr plain \<and> k_sha256 kn = o_sha w plain)"
    and "isEntryName (Some (JText (se_name e))) \<and> se_name e \<notin> names \<and> isOptionalText (map_option JText (se_fingerprint e)) FINGERPRINT_MAX"
  shows "stores w ctx b k (e # es) names st ru st' ru'"
proof -
  obtain ents obs where h: "st_entries st' = st_entries st @ pointer e kn # ents" "st_objects st' = st_objects st @ obs"
    "list_all2 (entry_from w ctx b (ru_id ru) (repo_at k ru') (st_objects st')) es ents"
    and r: "alive k ru" "ru_id ru' = ru_id ru" "ru_kind ru' = ru_kind ru"
     "map ce_object (own_entries ents) = map object_name [length (st_objects st)..<length (st_objects st')]"
     "map so_key obs = map object_name [length (st_objects st)..<length (st_objects st')]"
     "\<forall>x \<in> set obs. \<exists>e \<in> set es. \<exists>plain. se_open e = Inr plain \<and> x = object_of w (so_key x) (sealed w ctx plain)"
     "\<forall>x \<in> set es. isEntryName (Some (JText (se_name x))) \<and> se_name x \<notin> insert (se_name e) names \<and> isOptionalText (map_option JText (se_fingerprint x)) FINGERPRINT_MAX"
     "distinct (map se_name es)"
     "\<forall>key. (\<forall>j \<ge> length (st_objects st). key \<noteq> keyOf ctx (ru_id ru) (object_name j)) \<longrightarrow> repo_get (repo_at k ru') key = repo_get (repo_at k ru) key"
    using assms(1) unfolding stores_def by auto
  have e: "entry_from w ctx b (ru_id ru) (repo_at k ru') (st_objects st') e (pointer e kn)" using assms(2,3) unfolding entry_from_def by blast
  show ?thesis unfolding stores_def
    by (rule exI [of _ "pointer e kn # ents"], rule exI [of _ obs]) (use h r e assms(4) in auto)
qed

lemma stores_own:
  assumes "stores w ctx b k es (insert (se_name e) names)
      (st\<lparr>st_entries := st_entries st @ [own_entry w e (object_name (length (st_objects st))) plain],
          st_objects := st_objects st @ [object_of w (object_name (length (st_objects st))) (sealed w ctx plain)]\<rparr>)
      (putAll ctx (object_name (length (st_objects st))) (sealed w ctx plain) ru) st' ru'"
    and "se_open e = Inr plain"
    and "isEntryName (Some (JText (se_name e))) \<and> se_name e \<notin> names \<and> isOptionalText (map_option JText (se_fingerprint e)) FINGERPRINT_MAX"
  shows "stores w ctx b k (e # es) names st ru st' ru'"
proof -
  let ?n = "length (st_objects st)" and ?x = "object_of w (object_name (length (st_objects st))) (sealed w ctx plain)"
  let ?put = "putAll ctx (object_name ?n) (sealed w ctx plain) ru" and ?own = "own_entry w e (object_name ?n) plain"
  obtain ents obs where h: "st_entries st' = st_entries st @ ?own # ents" "st_objects st' = st_objects st @ ?x # obs"
    "list_all2 (entry_from w ctx b (ru_id ru) (repo_at k ru') (st_objects st')) es ents"
    and put: "alive k ?put" and r: "ru_id ru' = ru_id ru" "ru_kind ru' = ru_kind ru"
     "map ce_object (own_entries ents) = map object_name [Suc ?n..<length (st_objects st')]"
     "map so_key obs = map object_name [Suc ?n..<length (st_objects st')]"
     "\<forall>x \<in> set obs. \<exists>e \<in> set es. \<exists>plain. se_open e = Inr plain \<and> x = object_of w (so_key x) (sealed w ctx plain)"
     "\<forall>x \<in> set es. isEntryName (Some (JText (se_name x))) \<and> se_name x \<notin> insert (se_name e) names \<and> isOptionalText (map_option JText (se_fingerprint x)) FINGERPRINT_MAX"
     "distinct (map se_name es)"
     "\<forall>key. (\<forall>j \<ge> Suc ?n. key \<noteq> keyOf ctx (ru_id ru) (object_name j)) \<longrightarrow> repo_get (repo_at k ru') key = repo_get (repo_at k ?put) key"
    using assms(1) unfolding stores_def by auto
  note a = putAll_alive [OF put]
  have n: "[?n..<length (st_objects st')] = ?n # [Suc ?n..<length (st_objects st')]" using h(2) by (subst upt_conv_Cons) simp_all
  have here: "repo_get (repo_at k ru') (keyOf ctx (ru_id ru) (object_name ?n)) = Some (sealed w ctx plain)"
    using r(8) a by simp
  have e: "entry_from w ctx b (ru_id ru) (repo_at k ru') (st_objects st') e ?own"
    unfolding entry_from_def using assms(2) h(2) here by (intro disjI2 exI [of _ plain] exI [of _ ?n]) (auto simp: nth_append)
  have fr: "repo_get (repo_at k ru') key = repo_get (repo_at k ru) key" if "\<forall>j \<ge> ?n. key \<noteq> keyOf ctx (ru_id ru) (object_name j)" for key
    using r(8) a that by simp
  have obj: "\<exists>plain'. se_open e = Inr plain' \<and> ?x = object_of w (so_key ?x) (sealed w ctx plain')"
    using assms(2) by (simp add: object_of_def)
  have x: "\<forall>x \<in> set (?x # obs). \<exists>e \<in> set (e # es). \<exists>plain. se_open e = Inr plain \<and> x = object_of w (so_key x) (sealed w ctx plain)"
    using r(5) obj by auto
  have k: "so_key ?x = object_name ?n" by (simp add: object_of_def)
  show ?thesis unfolding stores_def
    by (rule exI [of _ "?own # ents"], rule exI [of _ "?x # obs"]) (use h r e assms(3) a n fr x k in auto)
qed

lemma store_loop_stores:
  assumes "store_loop w ctx b es names st ru = (Inr st', ru')" "alive k ru'"
  shows "stores w ctx b k es names st ru st' ru'"
  using assms
proof (induction es arbitrary: names st ru)
  case Nil
  then show ?case by (simp add: stores_def own_entries_def)
next
  case (Cons e es)
  let ?k = "known_in b (se_name e)" and ?names = "insert (se_name e) names" and ?key = "object_name (length (st_objects st))"
  obtain u where "checkEntry ctx e names = Inr u" using Cons.prems(1) by (auto split: sum.splits)
  then have ok: "isEntryName (Some (JText (se_name e))) \<and> se_name e \<notin> names \<and> isOptionalText (map_option JText (se_fingerprint e)) FINGERPRINT_MAX"
    and ck: "checkEntry ctx e names = Inr u" using checkEntry_ok by auto
  show ?case
  proof (cases "unchanged e ?k")
    case True
    then obtain kn where kn: "?k = Some kn" by (auto simp: unchanged_def split: option.splits)
    have "store_loop w ctx b es ?names (st\<lparr>st_entries := st_entries st @ [pointer e kn], st_reused := Suc (st_reused st)\<rparr>) ru = (Inr st', ru')"
      using Cons.prems(1) ck True kn by simp
    from stores_pointer [OF Cons.IH [OF this Cons.prems(2)] kn _ ok] show ?thesis using True kn by simp
  next
    case False
    obtain plain where plain: "se_open e = Inr plain"
      using Cons.prems(1) ck False by (auto simp: storeOne_def Let_def split: sum.splits)
    show ?thesis
    proof (cases "same_bytes w plain ?k")
      case True
      then obtain kn where kn: "?k = Some kn" "k_sha256 kn = o_sha w plain" by (auto simp: same_bytes_def split: option.splits)
      let ?st = "st\<lparr>st_entries := st_entries st @ [pointer e kn], st_reused := Suc (st_reused st)\<rparr>"
      have l: "(if nowhereLeft ru then (Inr ?st, ru) else store_loop w ctx b es ?names ?st ru) = (Inr st', ru')"
        using Cons.prems(1) ck False True plain kn by (cases "nowhereLeft ru") (simp_all add: storeOne_def Let_def)
      then have "\<not> nowhereLeft ru" using Cons.prems(2) alive_left by (auto split: if_splits)
      with l have "store_loop w ctx b es ?names ?st ru = (Inr st', ru')" by simp
      from stores_pointer [OF Cons.IH [OF this Cons.prems(2)] kn(1) _ ok] show ?thesis using plain kn(2) by blast
    next
      case no: False
      let ?ru = "putAll ctx ?key (sealed w ctx plain) ru"
      let ?st = "st\<lparr>st_entries := st_entries st @ [own_entry w e ?key plain], st_objects := st_objects st @ [object_of w ?key (sealed w ctx plain)]\<rparr>"
      have l: "(if nowhereLeft ?ru then (Inr ?st, ?ru) else store_loop w ctx b es ?names ?st ?ru) = (Inr st', ru')"
        using Cons.prems(1) ck False no plain by (cases "nowhereLeft ?ru") (simp_all add: storeOne_def Let_def)
      then have "\<not> nowhereLeft ?ru" using Cons.prems(2) alive_left by (auto split: if_splits)
      with l have "store_loop w ctx b es ?names ?st ?ru = (Inr st', ru')" by simp
      from stores_own [OF Cons.IH [OF this Cons.prems(2)] plain ok] show ?thesis .
    qed
  qed
qed

end
