(* ===== verification/Backup_Roundtrip.thy ===== *)
theory Backup_Roundtrip
  imports Backup_Create_Inv "HOL-Library.Countable"
begin

text \<open>
  From a source through a backup and back: a repository that stayed in the run of a \<open>create\<close> to its end
  gives back, on a restore of the new id, every entry of the source under its name, full backup or one
  that builds on another. What is assumed of the outside (JSON, SHA-256, Ed25519, age) is \<open>lawful\<close>.
\<close>

section \<open>What a run touches\<close>

text \<open>A run writes keys of its own backup only, of the set \<open>K\<close>, and a repository left out stays out.\<close>

definition frames :: "bctx \<Rightarrow> string set \<Rightarrow> run \<Rightarrow> run \<Rightarrow> bool" where
  "frames ctx K ru ru' = (ru_id ru' = ru_id ru \<and> length (ru_repos ru') = length (ru_repos ru) \<and>
     (\<forall>k < length (ru_repos ru). rs_name (ru_repos ru' ! k) = rs_name (ru_repos ru ! k) \<and>
        (rs_failed (ru_repos ru ! k) \<noteq> None \<longrightarrow> rs_failed (ru_repos ru' ! k) \<noteq> None \<and> repo_at k ru' = repo_at k ru) \<and>
        (\<forall>key. (\<forall>x \<in> K. key \<noteq> keyOf ctx (ru_id ru) x) \<longrightarrow> repo_get (repo_at k ru') key = repo_get (repo_at k ru) key)))"

lemma frames_refl [simp]: "frames ctx K ru ru"
  by (simp add: frames_def)

lemma frames_trans: "frames ctx K ru ru' \<Longrightarrow> frames ctx K ru' ru'' \<Longrightarrow> frames ctx K ru ru''"
  unfolding frames_def by (metis (no_types, lifting))

lemma frames_mono: "frames ctx K ru ru' \<Longrightarrow> K \<subseteq> L \<Longrightarrow> frames ctx L ru ru'"
  unfolding frames_def by (metis (no_types, lifting) subsetD)

lemma put_one_frame:
  "rs_failed s \<noteq> None \<Longrightarrow> put_one ctx i key b s = s"
  "j \<noteq> keyOf ctx i key \<Longrightarrow> repo_get (rs_repo (put_one ctx i key b s)) j = repo_get (rs_repo s) j"
  by (auto simp: put_one_def Let_def split: put_event.splits option.splits)

lemma frames_putAll: "key \<in> K \<Longrightarrow> frames ctx K ru (putAll ctx key b ru)"
  using put_one_frame [of _ ctx "ru_id ru" key b] by (auto simp: frames_def repo_at_def putAll_def)

lemma frames_storeOne: "storeOne w ctx e key b ru = (r, ru') \<Longrightarrow> key \<in> K \<Longrightarrow> frames ctx K ru ru'"
  by (auto simp: storeOne_def Let_def frames_putAll split: sum.splits if_splits)

lemma frames_store_loop: "store_loop w ctx b es names st ru = (r, ru') \<Longrightarrow> frames ctx (range object_name) ru ru'"
proof (induction es arbitrary: names st ru)
  case (Cons e es)
  obtain r1 ru1 where one: "storeOne w ctx e (object_name (length (st_objects st))) b ru = (r1, ru1)" by (cases "storeOne w ctx e (object_name (length (st_objects st))) b ru")
  have f: "frames ctx (range object_name) ru ru1" by (rule frames_storeOne [OF one]) simp
  show ?case
    using Cons.prems one Cons.IH f frames_trans [OF f]
    by (auto simp: Let_def split: sum.splits if_splits option.splits)
qed simp

lemma frames_storeEntries: "storeEntries w ctx src b ru = (r, ru') \<Longrightarrow> frames ctx (range object_name) ru ru'"
  by (auto simp: storeEntries_def dest: frames_store_loop split: prod.splits)

lemma require_one_frame: "rs_name (require_one w ctx i b n s) = rs_name s" "rs_repo (require_one w ctx i b n s) = rs_repo s"
  "rs_failed s \<noteq> None \<Longrightarrow> rs_failed (require_one w ctx i b n s) \<noteq> None"
  by (simp_all add: require_one_def Let_def split: sum.splits)

lemma frames_require: "frames ctx K ru (requireEverywhere w ctx b n ru)"
  using require_one_frame by (simp add: frames_def requireEverywhere_def repo_at_def)

lemma frames_baseOf: "baseOf w ctx kind frm ids skind ru = (r, ru') \<Longrightarrow> frames ctx K ru ru'"
  using frames_require by (auto simp: baseOf_def split: sum.splits)

lemma frames_alive: "frames ctx K ru ru' \<Longrightarrow> alive k ru' \<Longrightarrow> alive k ru"
  by (auto simp: frames_def alive_def)

section \<open>A chain depends on the manifests it reads\<close>

lemma fetchManifest_value:
  assumes "t_id t = t_id u"
    and "repo_get (t_repo t) (keyOf ctx (t_id t) MANIFEST) = repo_get (t_repo u) (keyOf ctx (t_id t) MANIFEST)"
    and "repo_get (t_repo t) (keyOf ctx (t_id t) SIGNATURE_KEY) = repo_get (t_repo u) (keyOf ctx (t_id t) SIGNATURE_KEY)"
  shows "fetchManifest w ctx t = Inr m \<longleftrightarrow> fetchManifest w ctx u = Inr m"
  using assms by (auto simp: fetchManifest_def checkSignature_def Let_def split: option.splits sum.splits if_splits)

text \<open>The repositories hold the same manifests and signatures for every id before \<open>i\<close>.\<close>

definition agree :: "bctx \<Rightarrow> string \<Rightarrow> repo \<Rightarrow> repo \<Rightarrow> bool" where
  "agree ctx i r s = (\<forall>j k. id_text j \<longrightarrow> j < i \<longrightarrow> repo_get r (keyOf ctx j k) = repo_get s (keyOf ctx j k))"

lemma chain_walk_agree:
  assumes "chain_walk w ctx t child chain = Inr c" "agree ctx i (t_repo t) (t_repo u)"
    "\<forall>p. m_parent child = Some p \<longrightarrow> p < i" "\<forall>p. m_parent child = Some p \<longrightarrow> p < fst x"
  shows "chain_walk w ctx u child (x # chain) = Inr (x # c)"
  using assms
proof (induction w ctx t child chain rule: chain_walk.induct)
  case (1 w ctx t child chain)
  show ?case
  proof (cases "m_parent child")
    case None
    then show ?thesis using "1.prems"(1) by (simp add: chain_walk.simps)
  next
    case (Some p)
    obtain parent where par: "fetchManifest w ctx (t\<lparr>t_id := p\<rparr>) = Inr parent"
      and walk: "chain_walk w ctx t parent (AList.update (m_id parent) parent chain) = Inr c"
      using "1.prems"(1) Some by (auto simp: chain_walk.simps [of w ctx t child] split: sum.splits)
    have pid: "m_id parent = p" "id_text p" using fetchManifest_ok [OF par] by simp_all
    have pi: "p < i" "p < fst x" using "1.prems"(3,4) Some by simp_all
    have "fetchManifest w ctx (u\<lparr>t_id := p\<rparr>) = Inr parent"
      using par fetchManifest_value [of "t\<lparr>t_id := p\<rparr>" "u\<lparr>t_id := p\<rparr>" ctx w parent] "1.prems"(2) pi(1) pid(2) by (simp add: agree_def)
    moreover have "\<forall>q. m_parent parent = Some q \<longrightarrow> q < i" "\<forall>q. m_parent parent = Some q \<longrightarrow> q < fst x"
      using fetchManifest_parent [OF par] pi by (auto intro: less_trans)
    moreover have "AList.update p parent (x # chain) = x # AList.update p parent chain" using pi(2) by (cases x) auto
    ultimately show ?thesis using "1.IH" [OF Some par walk "1.prems"(2)] Some pid by (simp add: chain_walk.simps [of w ctx u child])
  qed
qed

section \<open>Objects by their number\<close>

lemma takeWhile_digits: "list_all is_digit ds \<Longrightarrow> \<not> is_digit c \<Longrightarrow> takeWhile is_digit (ds @ c # cs) = ds"
  by (induction ds) auto

lemma parse_object_name [simp]: "parse_index (object_name n) = Some n"
proof -
  have "takeWhile is_digit (object_name n) = show_nat n"
    using takeWhile_digits [OF show_nat_digits, of "CHR ''.''" n "''age''"] by (simp add: object_name_def is_digit_def)
  then show ?thesis by (simp add: parse_index_def)
qed

lemma object_at_number: "n < length (m_objects m) \<Longrightarrow> so_key (m_objects m ! n) = object_name n \<Longrightarrow> object_at m (object_name n) = Some (m_objects m ! n)"
  by (simp add: object_at_def)

lemma restore_of:
  assumes "fetchManifest w ctx \<lparr>t_call = ''restore'', t_id = i, t_name = hd (x_repositories ctx), t_repo = r\<rparr> = Inr m"
    "fetchCatalog w ctx \<lparr>t_call = ''restore'', t_id = i, t_name = hd (x_repositories ctx), t_repo = r\<rparr> m ids = Inr c"
    "chainOf w ctx \<lparr>t_call = ''restore'', t_id = i, t_name = hd (x_repositories ctx), t_repo = r\<rparr> m = Inr ch"
    "list_all2 (\<lambda>e b. \<exists>ob. entry_bytes w ctx \<lparr>t_call = ''restore'', t_id = i, t_name = hd (x_repositories ctx), t_repo = r\<rparr> ch ids e = Some (b, ob)) (ca_entries c) bs"
    "reading target" "decrypterFor key_ok ids ''restore'' = Inr ()"
  shows "restoreBackup w ctx (\<lambda>n. r) key_ok i target ids None Every = Inr \<lparr>rd_id = i, rd_repository = hd (x_repositories ctx),
    rd_entries = map ce_name (ca_entries c), rd_size = sum_list (map ce_size (ca_entries c)), rd_written = zip (map ce_name (ca_entries c)) bs\<rparr>"
proof -
  let ?t = "\<lparr>t_call = ''restore'', t_id = i, t_name = hd (x_repositories ctx), t_repo = r\<rparr>"
  have "those (map (\<lambda>e. map_option (\<lambda>(b, ob). (ce_name e, b)) (entry_bytes w ctx ?t ch ids e)) es) = Some (zip (map ce_name es) bs)"
    if "list_all2 (\<lambda>e b. \<exists>ob. entry_bytes w ctx ?t ch ids e = Some (b, ob)) es bs" for es bs
    using that by (induction rule: list_all2_induct) auto
  then have "restore_entries w ctx ?t ch ids target (ca_entries c) = Inr (zip (map ce_name (ca_entries c)) bs)"
    using assms(4) restore_entries_value [OF assms(5)] by (simp flip: value_of_Some)
  then show ?thesis using assms by (simp add: restoreBackup_def repositoryOf_def selected_def)
qed

section \<open>The last writes of a run\<close>

definition the_catalog :: "outside \<Rightarrow> bctx \<Rightarrow> source \<Rightarrow> stored \<Rightarrow> string" where
  "the_catalog w ctx src st = sealed w ctx (o_text w (catalog_json (catalog_of src st)))"

definition the_manifest :: "outside \<Rightarrow> bctx \<Rightarrow> source \<Rightarrow> int \<Rightarrow> stored \<Rightarrow> base option \<Rightarrow> run \<Rightarrow> manifest" where
  "the_manifest w ctx src now st b ru = manifest_of ctx ru now b (object_of w ''catalog.age'' (the_catalog w ctx src st)) (st_objects st)"

lemma manifest_of_put [simp]: "manifest_of ctx (putAll ctx' key x ru) now b cat obs = manifest_of ctx ru now b cat obs"
  by (simp add: manifest_of_def)

definition after_catalog :: "outside \<Rightarrow> bctx \<Rightarrow> source \<Rightarrow> stored \<Rightarrow> run \<Rightarrow> run" where
  "after_catalog w ctx src st ru = putAll ctx ''catalog.age'' (the_catalog w ctx src st) ru"

definition after_signature :: "outside \<Rightarrow> bctx \<Rightarrow> string \<Rightarrow> run \<Rightarrow> run" where
  "after_signature w ctx mb ru = (if x_signer ctx then putAll ctx SIGNATURE_KEY (o_sign w mb) ru else ru)"

lemma finish_run:
  assumes "finish w ctx src now st b ru = (r, ru')"
  defines "mb \<equiv> o_pretty w (manifest_json (the_manifest w ctx src now st b ru))"
  shows "ru' = (if length mb > MANIFEST_MAX_BYTES then after_catalog w ctx src st ru
    else putAll ctx MANIFEST mb (after_signature w ctx mb (after_catalog w ctx src st ru)))"
proof -
  let ?cat = "sealed w ctx (o_text w (catalog_json (catalog_of src st)))"
  let ?big = "MANIFEST_MAX_BYTES < length (o_pretty w (manifest_json (manifest_of ctx ru now b (object_of w ''catalog.age'' ?cat) (st_objects st))))"
  show ?thesis
    using assms(1) unfolding finish_def store_plain_def Let_def prod.case putManifest_def manifest_of_put mb_def the_manifest_def the_catalog_def
      after_catalog_def after_signature_def
    by (cases ?big) simp_all
qed

lemma frames_finish: "finish w ctx src now st b ru = (r, ru') \<Longrightarrow> frames ctx {''catalog.age'', SIGNATURE_KEY, MANIFEST} ru ru'"
proof -
  assume f: "finish w ctx src now st b ru = (r, ru')"
  let ?K = "{''catalog.age'', SIGNATURE_KEY, MANIFEST}" and ?cat = "after_catalog w ctx src st ru"
  have c: "frames ctx ?K ru ?cat" by (simp add: after_catalog_def frames_putAll)
  moreover have "frames ctx ?K ?cat (after_signature w ctx mb ?cat)" for mb by (simp add: after_signature_def frames_putAll)
  moreover have "frames ctx ?K ru1 (putAll ctx MANIFEST mb ru1)" for mb ru1 by (simp add: frames_putAll)
  ultimately have "frames ctx ?K ru (putAll ctx MANIFEST mb (after_signature w ctx mb ?cat))" for mb by (meson frames_trans)
  with c show ?thesis unfolding finish_run [OF f] by simp
qed

lemma finish_final:
  assumes "finish w ctx src now st b ru = (r, ru')" "alive k ru'"
    and "repo_get (repo_at k ru) (keyOf ctx (ru_id ru) MANIFEST) = None" "repo_get (repo_at k ru') (keyOf ctx (ru_id ru) MANIFEST) \<noteq> None"
  defines "mb \<equiv> o_pretty w (manifest_json (the_manifest w ctx src now st b ru))"
  shows "alive k ru \<and> length mb \<le> MANIFEST_MAX_BYTES \<and>
    (\<forall>key. repo_get (repo_at k ru') key = (if key = keyOf ctx (ru_id ru) MANIFEST then Some mb
       else if x_signer ctx \<and> key = keyOf ctx (ru_id ru) SIGNATURE_KEY then Some (o_sign w mb)
       else if key = keyOf ctx (ru_id ru) ''catalog.age'' then Some (the_catalog w ctx src st) else repo_get (repo_at k ru) key))"
proof -
  let ?cat = "putAll ctx ''catalog.age'' (the_catalog w ctx src st) ru"
  let ?sig = "if x_signer ctx then putAll ctx SIGNATURE_KEY (o_sign w mb) ?cat else ?cat"
  have names: "MANIFEST \<noteq> ''catalog.age''" "MANIFEST \<noteq> SIGNATURE_KEY" "SIGNATURE_KEY \<noteq> ''catalog.age''"
    by (simp_all add: MANIFEST_def SIGNATURE_KEY_def)
  have f: "ru' = (if length mb > MANIFEST_MAX_BYTES then ?cat else putAll ctx MANIFEST mb ?sig)"
    unfolding finish_run [OF assms(1)] mb_def by (simp add: after_catalog_def after_signature_def)
  show ?thesis
  proof (cases "length mb > MANIFEST_MAX_BYTES")
    case True
    then have "ru' = ?cat" using f by simp
    then show ?thesis using putAll_alive [of k ctx "''catalog.age''" "the_catalog w ctx src st" ru] assms(2-4) names by simp
  next
    case False
    then have ru': "ru' = putAll ctx MANIFEST mb ?sig" using f by simp
    note m = putAll_alive [of k ctx MANIFEST mb ?sig, folded ru', OF assms(2)]
    then have sig: "alive k ?sig" by simp
    have id: "ru_id ?sig = ru_id ru" by simp
    show ?thesis
    proof (cases "x_signer ctx")
      case True
      note s = putAll_alive [of k ctx SIGNATURE_KEY "o_sign w mb" ?cat]
      have sa: "alive k (putAll ctx SIGNATURE_KEY (o_sign w mb) ?cat)" using sig True by simp
      note c = putAll_alive [OF conjunct1 [OF s [OF sa]]]
      show ?thesis using m s [OF sa] c False True names by simp
    next
      case no: False
      have ca: "alive k ?cat" using sig no by simp
      show ?thesis using m putAll_alive [OF ca] False no names by simp
    qed
  qed
qed

section \<open>What the theorem assumes of the outside\<close>

definition lawful :: "outside \<Rightarrow> bctx \<Rightarrow> string list \<Rightarrow> bool" where
  "lawful w ctx ids = ((\<forall>m. o_json w (o_pretty w (manifest_json m)) = Some (manifest_json m)) \<and>
     (\<forall>c. o_json w (o_text w (catalog_json c)) = Some (catalog_json c)) \<and>
     (\<forall>b. hex_text 64 (o_sha w b)) \<and>
     (\<forall>b. o_open w ids (o_seal w (x_recipients ctx) b) = Plain b) \<and>
     (\<forall>b. length (o_sign w b) = 64 \<and> o_verify w b (o_sign w b)))"

definition ctx_ok :: "bctx \<Rightarrow> bool" where
  "ctx_ok ctx = (isBackupName (Some (JText (x_backup ctx))) \<and> x_recipients ctx \<noteq> [] \<and> list_all (starts_with ''age1'') (x_recipients ctx))"

text \<open>Sizes are whole numbers a double holds.\<close>

definition fits :: "outside \<Rightarrow> bctx \<Rightarrow> string \<Rightarrow> bool" where
  "fits w ctx plain = (int (length plain) \<le> 9007199254740991 \<and> int (length (sealed w ctx plain)) \<le> 9007199254740991)"

text \<open>The base of a run, if it has one, reads back from the repository as what the run took it for, and a
  source's fingerprint, or the digest of its bytes, is the recorded one only for the recorded bytes.\<close>

definition site_of :: "bctx \<Rightarrow> repo \<Rightarrow> string \<Rightarrow> site" where
  "site_of ctx r i = \<lparr>t_call = ''restore'', t_id = i, t_name = hd (x_repositories ctx), t_repo = r\<rparr>"

definition base_reads :: "outside \<Rightarrow> bctx \<Rightarrow> string list \<Rightarrow> repo \<Rightarrow> (source_entry \<Rightarrow> string) \<Rightarrow> source_entry list \<Rightarrow> base \<Rightarrow> bool" where
  "base_reads w ctx ids r content es bs = (\<exists>ch c. fetchManifest w ctx (site_of ctx r (m_id (b_manifest bs))) = Inr (b_manifest bs) \<and>
     fetchCatalog w ctx (site_of ctx r (m_id (b_manifest bs))) (b_manifest bs) ids = Inr c \<and>
     chainOf w ctx (site_of ctx r (m_id (b_manifest bs))) (b_manifest bs) = Inr ch \<and>
     b_known bs = map (\<lambda>e. (ce_name e, known_of (b_manifest bs) e)) (ca_entries c) \<and>
     (\<forall>e \<in> set (ca_entries c). \<exists>bytes ob. entry_bytes w ctx (site_of ctx r (m_id (b_manifest bs))) ch ids e = Some (bytes, ob) \<and>
       (\<forall>se \<in> set es. se_name se = ce_name e \<and> (unchanged se (Some (known_of (b_manifest bs) e)) \<or> ce_sha256 e = o_sha w (content se)) \<longrightarrow>
         bytes = content se)))"

section \<open>A pointer reads what the base recorded\<close>

lemma map_of_known: "map_of (map (\<lambda>e. (ce_name e, f e)) es) n = Some kn \<Longrightarrow> \<exists>e \<in> set es. ce_name e = n \<and> kn = f e"
  by (induction es) (auto split: if_splits)

lemma pointer_reads:
  assumes "base_reads w ctx ids r content es bs" "m_id (b_manifest bs) < i" "id_text i" "agree ctx i r r'"
    "known_in (Some bs) (se_name e) = Some kn" "e \<in> set es" "unchanged e (Some kn) \<or> k_sha256 kn = o_sha w (content e)"
  shows "\<exists>ch ob. chainOf w ctx (site_of ctx r (m_id (b_manifest bs))) (b_manifest bs) = Inr ch \<and>
    entry_bytes w ctx (site_of ctx r' i) ((i, m) # ch) ids (pointer e kn) = Some (content e, ob) \<and>
    id_text (k_in kn) \<and> object_key (k_object kn) \<and> 0 \<le> k_size kn \<and> k_size kn \<le> 9007199254740991 \<and> hex_text 64 (k_sha256 kn)"
proof -
  let ?bm = "b_manifest bs"
  let ?t = "site_of ctx r (m_id ?bm)"
  obtain ch c where bm: "fetchManifest w ctx ?t = Inr ?bm" and c: "fetchCatalog w ctx ?t ?bm ids = Inr c" and ch: "chainOf w ctx ?t ?bm = Inr ch"
    and known: "b_known bs = map (\<lambda>e. (ce_name e, known_of ?bm e)) (ca_entries c)"
    and opens: "\<forall>e \<in> set (ca_entries c). \<exists>bytes ob. entry_bytes w ctx ?t ch ids e = Some (bytes, ob) \<and>
       (\<forall>se \<in> set es. se_name se = ce_name e \<and> (unchanged se (Some (known_of ?bm e)) \<or> ce_sha256 e = o_sha w (content se)) \<longrightarrow> bytes = content se)"
    using assms(1) unfolding base_reads_def by blast
  obtain be where be: "be \<in> set (ca_entries c)" "ce_name be = se_name e" "kn = known_of ?bm be"
    using map_of_known [of "known_of ?bm" "ca_entries c" "se_name e" kn] assms(5) known by (auto simp: known_in_def)
  obtain bytes ob where eb: "entry_bytes w ctx ?t ch ids be = Some (bytes, ob)" and bytes: "bytes = content e"
    using opens be assms(6,7) by (metis known.select_convs(2) known_of_def)
  have h: "holder_of ?t be = k_in kn" "holder_of (site_of ctx r' i) (pointer e kn) = k_in kn"
    using be(3) fetchManifest_ok [OF bm] by (simp_all add: holder_of_def known_of_def pointer_def site_of_def split: option.split)
  obtain hm where hm: "map_of ch (k_in kn) = Some hm" using eb h(1) by (auto simp: entry_bytes_def split: option.splits)
  note chok = chainOf_ok [OF bm ch]
  have "(k_in kn, hm) \<in> set ch" using hm by (rule map_of_SomeD)
  then have "id_text (k_in kn)" and le: "k_in kn \<le> m_id ?bm"
    using chok fetchManifest_ok by (fastforce simp: site_of_def) (use \<open>(k_in kn, hm) \<in> set ch\<close> chok(1-3) in \<open>cases ch; auto simp: site_of_def\<close>)
  then have lt: "k_in kn < i" using assms(2) by (rule_tac le_less_trans)
  have "entry_ok be" using readCatalog_ok c be(1) by (auto simp: fetchCatalog_local entries_ok_def list_all_iff)
  have ok: "object_key (k_object kn)"
  proof (cases "ce_in be")
    case None
    have ek: "entries_ok (length (m_objects ?bm)) (ca_entries c)" using readCatalog_ok c by (auto simp: fetchCatalog_local)
    then have o: "ce_object be \<in> object_name ` {0..<length (m_objects ?bm)}"
      using be(1) None by (auto simp: entries_ok_def own_entries_def dest!: arg_cong [where f = set])
    have "so_key ` set (m_objects ?bm) = object_name ` {0..<length (m_objects ?bm)}"
      using fetchManifest_ok [OF bm] by (auto simp: manifest_ok_def dest!: arg_cong [where f = set])
    then obtain x where "x \<in> set (m_objects ?bm)" "so_key x = ce_object be" using o by (metis imageE)
    then show ?thesis using fetchManifest_ok [OF bm] be(3) by (auto simp: manifest_ok_def list_all_iff known_of_def)
  next
    case (Some h)
    then show ?thesis using \<open>entry_ok be\<close> be(3) by (simp add: entry_ok_def known_of_def)
  qed
  have a1: "map_of ((i, m) # ch) (k_in kn) = Some hm" using hm lt by auto
  have a2: "repo_get r' (keyOf ctx (k_in kn) k) = repo_get r (keyOf ctx (k_in kn) k)" for k
    using assms(4) \<open>id_text (k_in kn)\<close> lt by (simp add: agree_def)
  have a3: "ce_object (pointer e kn) = ce_object be" "ce_size (pointer e kn) = ce_size be" "ce_sha256 (pointer e kn) = ce_sha256 be"
    "t_repo (site_of ctx r' i) = r'" "t_repo ?t = r"
    using be(3) by (simp_all add: pointer_def known_of_def site_of_def)
  have "entry_bytes w ctx (site_of ctx r' i) ((i, m) # ch) ids (pointer e kn) = entry_bytes w ctx ?t ch ids be"
    unfolding entry_bytes_def h hm a1 a2 a3 ..
  then have "entry_bytes w ctx (site_of ctx r' i) ((i, m) # ch) ids (pointer e kn) = Some (bytes, ob)" using eb by simp
  then show ?thesis using ch bytes \<open>id_text (k_in kn)\<close> ok \<open>entry_ok be\<close> be(3)
    by (auto simp: entry_ok_def known_of_def)
qed

section \<open>The catalog and the manifest of a run are ones\<close>

lemma object_name_manifest: "object_name j \<noteq> MANIFEST" "object_name j \<noteq> SIGNATURE_KEY"
proof -
  have "hd (object_name j) = hd (show_nat j)" by (simp add: object_name_def hd_append)
  moreover have "is_digit (hd (show_nat j))" using show_nat_digits [of j] show_nat_nonempty [of j] by (cases "show_nat j") auto
  moreover have "\<not> is_digit (hd MANIFEST)" "\<not> is_digit (hd SIGNATURE_KEY)" by (simp_all add: MANIFEST_def SIGNATURE_KEY_def is_digit_def)
  ultimately show "object_name j \<noteq> MANIFEST" "object_name j \<noteq> SIGNATURE_KEY" by metis+
qed

lemma measured_simps [simp]: "fst (measured w b) = int (length b)" "snd (measured w b) = o_sha w b"
  by (simp_all add: measured_def)

lemma own_entry_simps [simp]: "ce_name (own_entry w e k p) = se_name e" "ce_size (own_entry w e k p) = int (length p)"
  "ce_sha256 (own_entry w e k p) = o_sha w p" "ce_fingerprint (own_entry w e k p) = se_fingerprint e"
  by (simp_all add: own_entry_def)

lemma object_of_simps [simp]: "so_key (object_of w k b) = k" "so_size (object_of w k b) = int (length b)" "so_sha256 (object_of w k b) = o_sha w b"
  by (simp_all add: object_of_def)

text \<open>What is known of one run: its entries read as \<open>content\<close> says, its base reads back.\<close>

definition run_ok :: "outside \<Rightarrow> bctx \<Rightarrow> string list \<Rightarrow> repo \<Rightarrow> (source_entry \<Rightarrow> string) \<Rightarrow> source_entry list \<Rightarrow> string \<Rightarrow> base option \<Rightarrow> bool" where
  "run_ok w ctx ids r content es i b = (lawful w ctx ids \<and> ctx_ok ctx \<and> id_text i \<and> length es \<le> 10 ^ 9 \<and>
     (\<forall>e \<in> set es. se_open e = Inr (content e) \<and> fits w ctx (content e)) \<and>
     (\<forall>bs. b = Some bs \<longrightarrow> m_id (b_manifest bs) < i \<and> base_reads w ctx ids r content es bs))"

lemma entry_from_ok:
  assumes "entry_from w ctx b i r' obs e ent" "run_ok w ctx ids r content es i b" "agree ctx i r r'" "e \<in> set es"
    "isEntryName (Some (JText (se_name e)))" "isOptionalText (map_option JText (se_fingerprint e)) FINGERPRINT_MAX"
  shows "entry_ok ent \<and> ce_name ent = se_name e"
proof -
  consider (ptr) kn where "known_in b (se_name e) = Some kn" "ent = pointer e kn"
      "unchanged e (Some kn) \<or> (\<exists>plain. se_open e = Inr plain \<and> k_sha256 kn = o_sha w plain)"
    | (own) plain j where "se_open e = Inr plain" "ent = own_entry w e (object_name j) plain"
    using assms(1) unfolding entry_from_def by blast
  then show ?thesis
  proof cases
  case k: (ptr kn)
  then obtain bs where b: "b = Some bs" by (cases b) (simp_all add: known_in_def)
  have u: "unchanged e (Some kn) \<or> k_sha256 kn = o_sha w (content e)" using k(3) assms(2,4) by (auto simp: run_ok_def)
  have bs: "base_reads w ctx ids r content es bs" "m_id (b_manifest bs) < i" "id_text i" "known_in (Some bs) (se_name e) = Some kn"
    using assms(2) k(1) b by (auto simp: run_ok_def)
  from pointer_reads [OF bs(1-3) assms(3) bs(4) assms(4) u] show ?thesis using k(2) assms(5,6) by (auto simp: entry_ok_def pointer_def)
next
  case o: (own plain j)
  then have "fits w ctx plain" "hex_text 64 (o_sha w plain)" using assms(2,4) by (auto simp: run_ok_def lawful_def)
  then show ?thesis using o(2) assms(5,6) by (simp add: entry_ok_def fits_def)
  qed
qed

abbreviation nothing :: stored where
  "nothing \<equiv> \<lparr>st_entries = [], st_objects = [], st_reused = 0\<rparr>"

lemma stores_entries_ok:
  assumes "stores w ctx b k es {} nothing ru st ru'" "run_ok w ctx ids r content es (ru_id ru) b" "agree ctx (ru_id ru) r (repo_at k ru')"
  shows "entries_ok (length (st_objects st)) (st_entries st) \<and> map ce_name (st_entries st) = map se_name es"
proof -
  have f: "list_all2 (entry_from w ctx b (ru_id ru) (repo_at k ru') (st_objects st)) es (st_entries st)"
    and own: "map ce_object (own_entries (st_entries st)) = map object_name [0..<length (st_objects st)]"
    and ok: "\<forall>e \<in> set es. isEntryName (Some (JText (se_name e))) \<and> isOptionalText (map_option JText (se_fingerprint e)) FINGERPRINT_MAX"
    and dist: "distinct (map se_name es)" using assms(1) by (auto simp: stores_def)
  have "list_all2 (\<lambda>e ent. entry_ok ent \<and> ce_name ent = se_name e) es (st_entries st)"
    by (rule list.rel_mono_strong [OF f]) (use entry_from_ok [OF _ assms(2,3)] ok in blast)
  then have "list_all entry_ok (st_entries st) \<and> map ce_name (st_entries st) = map se_name es"
    by (induction rule: list_all2_induct) simp_all
  then show ?thesis using own dist by (simp add: entries_ok_def)
qed

lemma stores_objects_ok:
  assumes "stores w ctx b k es {} nothing ru st ru'" "run_ok w ctx ids r content es (ru_id ru) b"
  shows "map so_key (st_objects st) = map object_name [0..<length (st_objects st)]" "list_all object_ok (st_objects st)"
    "list_all (\<lambda>ob. object_key (so_key ob)) (st_objects st)"
proof -
  have key: "map so_key (st_objects st) = map object_name [0..<length (st_objects st)]"
    and obs: "\<forall>x \<in> set (st_objects st). \<exists>e \<in> set es. \<exists>plain. se_open e = Inr plain \<and> x = object_of w (so_key x) (sealed w ctx plain)"
    and own: "map ce_object (own_entries (st_entries st)) = map object_name [0..<length (st_objects st)]"
    and len: "length es = length (st_entries st)" using assms(1) by (auto simp: stores_def dest: list_all2_lengthD)
  have "length (st_objects st) = length (own_entries (st_entries st))" using own by (metis length_map length_upt minus_nat.diff_0)
  also have "\<dots> \<le> length (st_entries st)" by (simp add: own_entries_def)
  finally have n: "length (st_objects st) \<le> 10 ^ 9" using len assms(2) by (simp add: run_ok_def)
  show "map so_key (st_objects st) = map object_name [0..<length (st_objects st)]" by (rule key)
  have "object_ok x" if x: "x \<in> set (st_objects st)" for x
  proof -
    obtain e plain where e: "e \<in> set es" "se_open e = Inr plain" "x = object_of w (so_key x) (sealed w ctx plain)" using obs x by blast
    then have "fits w ctx plain" "hex_text 64 (o_sha w (sealed w ctx plain))" using assms(2) by (auto simp: run_ok_def lawful_def)
    then show ?thesis using e(3) by (metis object_ok_def object_of_simps(2,3) fits_def of_nat_0_le_iff)
  qed
  then show "list_all object_ok (st_objects st)" by (simp add: list_all_iff)
  have "so_key x \<in> object_name ` {0..<length (st_objects st)}" if "x \<in> set (st_objects st)" for x
    using key that by (metis image_eqI list.set_map set_upt)
  then show "list_all (\<lambda>ob. object_key (so_key ob)) (st_objects st)" using n object_key_name by (fastforce simp: list_all_iff)
qed

lemma the_manifest_ok:
  assumes "stores w ctx b k es {} nothing ru st ru'" "run_ok w ctx ids r content es (ru_id ru) b" "year_4 now"
    "fits w ctx (o_text w (catalog_json (catalog_of src st)))" "b = None \<longleftrightarrow> ru_kind ru = Full" "ru_id ru' = ru_id ru" "ru_kind ru' = ru_kind ru"
    "\<forall>bs. b = Some bs \<longrightarrow> id_text (m_id (b_manifest bs))"
  shows "manifest_ok (the_manifest w ctx src now st b ru')"
proof -
  have "iso_date (Some (JText (iso_string now)))" using assms(3) by (simp add: iso_date_def iso_time_digits)
  moreover have "object_ok (object_of w ''catalog.age'' (the_catalog w ctx src st))"
    using assms(2,4) by (simp add: object_ok_def the_catalog_def fits_def run_ok_def lawful_def)
  ultimately show ?thesis
    using assms(2,5-8) stores_objects_ok [OF assms(1,2)]
    by (cases b) (auto simp: manifest_ok_def the_manifest_def manifest_of_def run_ok_def ctx_ok_def)
qed

section \<open>A repository that stayed in the run\<close>

text \<open>The chain of the new backup: itself, then the base's.\<close>

definition chain_of :: "outside \<Rightarrow> bctx \<Rightarrow> repo \<Rightarrow> string \<Rightarrow> manifest \<Rightarrow> base option \<Rightarrow> chain" where
  "chain_of w ctx r i m b = (i, m) # (case b of None \<Rightarrow> []
     | Some bs \<Rightarrow> (case chainOf w ctx (site_of ctx r (m_id (b_manifest bs))) (b_manifest bs) of Inr ch \<Rightarrow> ch | Inl e \<Rightarrow> []))"

lemma chain_of_run:
  assumes "run_ok w ctx ids r content es i b" "agree ctx i r r'" "m_id m = i" "m_parent m = map_option (\<lambda>bs. m_id (b_manifest bs)) b"
  shows "chainOf w ctx (site_of ctx r' i) m = Inr (chain_of w ctx r i m b)"
proof (cases b)
  case None
  then show ?thesis using assms(3,4) by (simp add: chainOf_def chain_walk.simps chain_of_def)
next
  case (Some bs)
  let ?bm = "b_manifest bs"
  let ?t = "site_of ctx r (m_id ?bm)" and ?u = "site_of ctx r' i"
  obtain ch where bm: "fetchManifest w ctx ?t = Inr ?bm" and ch: "chainOf w ctx ?t ?bm = Inr ch" and lt: "m_id ?bm < i"
    using assms(1) Some by (auto simp: run_ok_def base_reads_def)
  have p: "p < m_id ?bm" if "m_parent ?bm = Some p" for p using fetchManifest_parent [OF bm that] by (simp add: site_of_def)
  then have "chain_walk w ctx ?u ?bm ((i, m) # [(m_id ?bm, ?bm)]) = Inr ((i, m) # ch)"
    using lt assms(2) by (intro chain_walk_agree [OF ch [unfolded chainOf_def], where i = i]) (auto simp: site_of_def intro: less_trans)
  moreover have "fetchManifest w ctx (?u\<lparr>t_id := m_id ?bm\<rparr>) = Inr ?bm"
    using bm fetchManifest_value [of ?t "?u\<lparr>t_id := m_id ?bm\<rparr>" ctx w ?bm] assms(2) lt fetchManifest_ok [OF bm]
    by (simp add: site_of_def agree_def)
  ultimately show ?thesis
    using assms(3,4) Some lt ch by (auto simp: chainOf_def chain_walk.simps [of w ctx ?u m] chain_of_def)
qed

lemma entry_from_reads:
  assumes "entry_from w ctx b i r' (m_objects m) e ent" "run_ok w ctx ids r content es i b" "agree ctx i r r'" "e \<in> set es"
    "map so_key (m_objects m) = map object_name [0..<length (m_objects m)]"
  shows "\<exists>ob. entry_bytes w ctx (site_of ctx r' i) (chain_of w ctx r i m b) ids ent = Some (content e, ob)"
proof -
  have c: "se_open e = Inr (content e)" using assms(2,4) by (simp add: run_ok_def)
  consider (ptr) kn where "known_in b (se_name e) = Some kn" "ent = pointer e kn" "unchanged e (Some kn) \<or> k_sha256 kn = o_sha w (content e)"
    | (own) j where "ent = own_entry w e (object_name j) (content e)" "j < length (m_objects m)"
      "m_objects m ! j = object_of w (object_name j) (sealed w ctx (content e))" "repo_get r' (keyOf ctx i (object_name j)) = Some (sealed w ctx (content e))"
    using assms(1) c unfolding entry_from_def by auto
  then show ?thesis
  proof cases
    case ptr
    then obtain bs where b: "b = Some bs" by (cases b) (simp_all add: known_in_def)
    have bs: "base_reads w ctx ids r content es bs" "m_id (b_manifest bs) < i" "id_text i" "known_in (Some bs) (se_name e) = Some kn"
      using assms(2) ptr(1) b by (auto simp: run_ok_def)
    from pointer_reads [OF bs(1-3) assms(3) bs(4) assms(4) ptr(3), of m] show ?thesis using ptr(2) b by (auto simp: chain_of_def)
  next
    case own
    have "object_at m (object_name j) = Some (m_objects m ! j)" using own(2,3) by (simp add: object_at_number)
    moreover have "holder_of (site_of ctx r' i) ent = i" using own(1) by (simp add: holder_of_def site_of_def)
    moreover have "o_open w ids (sealed w ctx (content e)) = Plain (content e)" using assms(2) by (simp add: run_ok_def lawful_def sealed_def)
    ultimately show ?thesis using own by (simp add: entry_bytes_def chain_of_def site_of_def expect_def)
  qed
qed

lemma fetch_written:
  assumes "manifest_ok m" "lawful w ctx ids" "m_backup m = x_backup ctx" "m_id m = i" "x_trusted ctx \<longrightarrow> x_signer ctx"
    "length (o_pretty w (manifest_json m)) \<le> MANIFEST_MAX_BYTES" "repo_get r (keyOf ctx i MANIFEST) = Some (o_pretty w (manifest_json m))"
    "x_signer ctx \<longrightarrow> repo_get r (keyOf ctx i SIGNATURE_KEY) = Some (o_sign w (o_pretty w (manifest_json m)))"
  shows "fetchManifest w ctx (site_of ctx r i) = Inr m"
proof -
  have "id_text i" using assms(1,4) by (auto simp: manifest_ok_def)
  moreover have "readManifest (o_json w (o_pretty w (manifest_json m))) = Inr m" using assms(2) read_written [OF assms(1)] by (simp add: lawful_def)
  moreover have "x_trusted ctx \<longrightarrow> checkSignature w ctx (site_of ctx r i) (o_pretty w (manifest_json m)) = Inr ()"
    using assms(2,5,8) by (simp add: checkSignature_def site_of_def signedByAny_def upTo_def lawful_def)
  ultimately show ?thesis
    using assms(3,4,6,7) by (simp add: fetchManifest_def site_of_def upTo_def Let_def)
qed

lemma catalog_written_reads:
  assumes "catalog_ok (length (m_objects m)) c" "lawful w ctx ids" "m_catalog m = object_of w ''catalog.age'' (sealed w ctx (o_text w (catalog_json c)))"
    "repo_get r (keyOf ctx i ''catalog.age'') = Some (sealed w ctx (o_text w (catalog_json c)))"
  shows "fetchCatalog w ctx (site_of ctx r i) m ids = Inr c"
  using assms catalog_written [OF assms(1)]
  by (simp add: fetchCatalog_local site_of_def expect_def lawful_def sealed_def)

lemma finished_restores:
  assumes "storeEntries w ctx src b ru1 = (Inr st, ru2)" "finish w ctx src now st b ru2 = (res, ru')" "alive k ru'"
    and "repo_get (repo_at k ru1) (keyOf ctx i MANIFEST) = None" "repo_get (repo_at k ru') (keyOf ctx i MANIFEST) \<noteq> None" "ru_id ru1 = i"
    and "es = sr_entries src (map_option b_since b)" "run_ok w ctx ids r content es i b" "agree ctx i r (repo_at k ru')" "year_4 now"
    and "b = None \<longleftrightarrow> ru_kind ru1 = Full" "x_trusted ctx \<longrightarrow> x_signer ctx"
    and "fits w ctx (o_text w (catalog_json (catalog_of src st)))"
    and "reading target" "decrypterFor key_ok ids ''restore'' = Inr ()"
  shows "\<exists>rd. restoreBackup w ctx (\<lambda>n. repo_at k ru') key_ok i target ids None Every = Inr rd \<and>
    rd_written rd = map (\<lambda>e. (se_name e, content e)) es"
proof -
  let ?R = "repo_at k ru'" and ?m = "the_manifest w ctx src now st b ru2" and ?c = "catalog_of src st"
  have loop: "store_loop w ctx b es {} nothing ru1 = (Inr st, ru2)" and pos: "isOptionalText (map_option JText (sr_position src)) POSITION_MAX"
    using assms(1) unfolding assms(7) by (auto simp: storeEntries_def split: prod.splits)
  have id2: "ru_id ru2 = i" using frames_store_loop [OF loop] assms(6) by (simp add: frames_def)
  have none: "repo_get (repo_at k ru2) (keyOf ctx i MANIFEST) = None"
  proof -
    have "k < length (ru_repos ru1)" using assms(3) frames_finish [OF assms(2)] frames_store_loop [OF loop] by (auto simp: alive_def frames_def)
    moreover have "MANIFEST \<noteq> object_name j" for j using object_name_manifest by metis
    ultimately show ?thesis using frames_store_loop [OF loop] assms(4,6) by (simp add: frames_def)
  qed
  note fin = finish_final [OF assms(2,3), unfolded id2, OF none assms(5)]
  have st: "stores w ctx b k es {} nothing ru1 st ru2" by (rule store_loop_stores [OF loop]) (use fin in simp)
  have agree2: "agree ctx i r (repo_at k ru2)"
    using assms(8,9) fin by (auto simp: agree_def run_ok_def keyOf_eq)
  have names: "MANIFEST \<noteq> ''catalog.age''" "SIGNATURE_KEY \<noteq> ''catalog.age''" "MANIFEST \<noteq> SIGNATURE_KEY" by (simp_all add: MANIFEST_def SIGNATURE_KEY_def)
  note ents = stores_entries_ok [OF st _ _, unfolded assms(6), OF assms(8) agree2]
  then have cok: "catalog_ok (length (st_objects st)) ?c" using pos by (simp add: catalog_ok_def catalog_of_def)
  note fit = assms(13)
  have objs: "m_objects ?m = st_objects st" "m_id ?m = i" "m_parent ?m = map_option (\<lambda>bs. m_id (b_manifest bs)) b" "m_backup ?m = x_backup ctx"
    "m_catalog ?m = object_of w ''catalog.age'' (sealed w ctx (o_text w (catalog_json ?c)))"
    using id2 by (simp_all add: the_manifest_def manifest_of_def the_catalog_def)
  have law: "lawful w ctx ids" using assms(8) by (simp add: run_ok_def)
  have kind2: "ru_kind ru2 = ru_kind ru1" "ru_id ru2 = ru_id ru1" using st by (auto simp: stores_def)
  have "id_text (m_id (b_manifest bs))" if "b = Some bs" for bs
  proof -
    have "fetchManifest w ctx (site_of ctx r (m_id (b_manifest bs))) = Inr (b_manifest bs)"
      using assms(8) that by (auto simp: run_ok_def base_reads_def)
    from fetchManifest_ok [OF this] show ?thesis by (simp add: site_of_def)
  qed
  then have mok: "manifest_ok ?m"
    using the_manifest_ok [OF st _ assms(10) fit] assms(6,8,11) kind2 by simp
  have m: "fetchManifest w ctx (site_of ctx ?R i) = Inr ?m"
    by (rule fetch_written [OF mok law objs(4,2) assms(12)]) (use fin names in auto)
  have c: "fetchCatalog w ctx (site_of ctx ?R i) ?m ids = Inr ?c"
    by (rule catalog_written_reads [OF _ law objs(5)]) (use cok objs(1) fin names in \<open>auto simp: the_catalog_def\<close>)
  have ch: "chainOf w ctx (site_of ctx ?R i) ?m = Inr (chain_of w ctx r i ?m b)"
    by (rule chain_of_run [OF assms(8,9) objs(2,3)])
  have "list_all2 (entry_from w ctx b i ?R (m_objects ?m)) es (st_entries st)"
  proof -
    have "list_all2 (entry_from w ctx b i (repo_at k ru2) (st_objects st)) es (st_entries st)" using st assms(6) by (simp add: stores_def)
    moreover have "repo_get ?R (keyOf ctx i (object_name j)) = repo_get (repo_at k ru2) (keyOf ctx i (object_name j))" for j
      using fin object_name_catalog [of j] object_name_manifest [of j] by auto
    ultimately show ?thesis unfolding objs(1) by (elim list.rel_mono_strong) (auto simp: entry_from_def)
  qed
  then have "list_all2 (\<lambda>e b'. \<exists>ob. entry_bytes w ctx (site_of ctx ?R i) (chain_of w ctx r i ?m b) ids e = Some (b', ob)) (st_entries st) (map content es)"
    using entry_from_reads [OF _ assms(8,9)] stores_objects_ok(1) [OF st, unfolded assms(6), OF assms(8)] objs(1)
    by (fastforce simp: list_all2_conv_all_nth)
  from restore_of [of w ctx i ?R ?m ids ?c, folded site_of_def, OF m c ch _ assms(14,15)] this
  have "restoreBackup w ctx (\<lambda>n. ?R) key_ok i target ids None Every = Inr \<lparr>rd_id = i, rd_repository = hd (x_repositories ctx),
    rd_entries = map ce_name (ca_entries ?c), rd_size = sum_list (map ce_size (ca_entries ?c)),
    rd_written = zip (map ce_name (ca_entries ?c)) (map content es)\<rparr>" by (simp add: catalog_of_def)
  moreover have "zip (map ce_name (ca_entries ?c)) (map content es) = map (\<lambda>e. (se_name e, content e)) es"
    using ents by (simp add: catalog_of_def zip_map_map zip_same_conv_map)
  ultimately show ?thesis by simp
qed

section \<open>The whole of create\<close>

definition run_of :: "backup_kind \<Rightarrow> int \<Rightarrow> nat list \<Rightarrow> rstate list \<Rightarrow> run" where
  "run_of kind now random repos = \<lparr>ru_id = newBackupId now random, ru_kind = kind, ru_repos = repos\<rparr>"

text \<open>The backup a \<open>create\<close> builds on, if it does.\<close>

definition the_base :: "outside \<Rightarrow> bctx \<Rightarrow> source \<Rightarrow> string option \<Rightarrow> string list \<Rightarrow> string option \<Rightarrow> int \<Rightarrow> nat list \<Rightarrow> rstate list \<Rightarrow> base option" where
  "the_base w ctx src given ids frm now random repos = (case kindOf ctx given of Inl e \<Rightarrow> None
     | Inr kind \<Rightarrow> if kind = Full then None
         else (case fst (baseOf w ctx kind frm ids (sr_kind src) (run_of kind now random repos)) of Inl e \<Rightarrow> None | Inr bs \<Rightarrow> Some bs))"

lemma newest_of_in: "newest_of w ctx t kind is = Inr (Some m) \<Longrightarrow> m_id m \<in> set is"
proof (induction "is")
  case (Cons i "is")
  show ?case
  proof (cases "fetchManifest w ctx (t\<lparr>t_id := i\<rparr>)")
    case (Inl e)
    with Cons show ?thesis by (cases e) simp_all
  next
    case (Inr k)
    then have "m_id k = i" using fetchManifest_ok by fastforce
    with Inr Cons show ?thesis by (auto split: if_splits)
  qed
qed simp

lemma newestFor_older: "newestFor w ctx ru s kind = Inr m \<Longrightarrow> m_id m < ru_id ru"
proof -
  assume "newestFor w ctx ru s kind = Inr m"
  then obtain found t where f: "newest_of w ctx t kind (rev (filter (\<lambda>i. i < ru_id ru) (manifestIds ctx (rs_repo s)))) = Inr found"
    and m: "found = Some m" unfolding newestFor_def bbind_Inr by (cases "x_backup ctx") (auto split: option.splits)
  from newest_of_in [OF f [unfolded m]] show ?thesis by simp
qed

lemma baseOf_older: "baseOf w ctx kind frm ids skind ru = (Inr bs, ru') \<Longrightarrow> m_id (b_manifest bs) < ru_id ru"
proof -
  assume "baseOf w ctx kind frm ids skind ru = (Inr bs, ru')"
  then obtain s m where "newestFor w ctx ru s kind = Inr m" "b_manifest bs = m"
    unfolding baseOf_def Let_def by (auto split: sum.splits)
  then show ?thesis using newestFor_older by blast
qed

lemma baseOf_run: "baseOf w ctx kind frm ids skind ru = (r, ru') \<Longrightarrow> ru_id ru' = ru_id ru \<and> ru_kind ru' = ru_kind ru"
  by (auto simp: baseOf_def requireEverywhere_def split: sum.splits)

lemma frames_get: "frames ctx K ru ru' \<Longrightarrow> k < length (ru_repos ru) \<Longrightarrow> x \<notin> K \<Longrightarrow>
    repo_get (repo_at k ru') (keyOf ctx (ru_id ru) x) = repo_get (repo_at k ru) (keyOf ctx (ru_id ru) x)"
  unfolding frames_def by (metis keyOf_inj)

lemma createBackup_cases:
  assumes "createBackup w ctx key_ok src given ids frm now random repos = (res, ru')" "alive k ru'"
  defines "i \<equiv> newBackupId now random" and "b \<equiv> the_base w ctx src given ids frm now random repos"
  shows "k < length repos \<and> (repo_get (repo_at k ru') (keyOf ctx i MANIFEST) = repo_get (rs_repo (repos ! k)) (keyOf ctx i MANIFEST) \<or>
    (\<exists>kind ru1 st ru2. (x_trusted ctx \<longrightarrow> x_signer ctx) \<and> frames ctx {} (run_of kind now random repos) ru1 \<and>
      ru_id ru1 = i \<and> ru_kind ru1 = kind \<and> (b = None \<longleftrightarrow> kind = Full) \<and> (\<forall>bs. b = Some bs \<longrightarrow> m_id (b_manifest bs) < i) \<and>
      storeEntries w ctx src b ru1 = (Inr st, ru2) \<and> finish w ctx src now st b ru2 = (res, ru')))"
proof (cases "(x_trusted ctx \<and> \<not> x_signer ctx) \<or>
    (\<exists>e. bbind (kindOf ctx given) (\<lambda>kind. if kind = Full then Inr kind else bbind (decrypterFor key_ok ids (''create on \"'' @ x_backup ctx @ ''\"'')) (\<lambda>_. Inr kind)) = Inl e)")
  case True
  then have "ru_repos ru' = repos" using assms(1) by (auto simp: createBackup_def Let_def split: if_splits)
  then show ?thesis using assms(2) by (simp add: repo_at_def alive_def)
next
  case False
  then obtain kind where kind: "bbind (kindOf ctx given) (\<lambda>kind. if kind = Full then Inr kind
      else bbind (decrypterFor key_ok ids (''create on \"'' @ x_backup ctx @ ''\"'')) (\<lambda>_. Inr kind)) = Inr kind" and signs: "x_trusted ctx \<longrightarrow> x_signer ctx"
    by (meson sum.exhaust)
  then have given: "kindOf ctx given = Inr kind" by (auto split: if_splits)
  let ?ru = "run_of kind now random repos"
  have ru: "\<lparr>ru_id = newBackupId now random, ru_kind = Full, ru_repos = repos\<rparr>\<lparr>ru_kind := kind\<rparr> = ?ru" by (simp add: run_of_def)
  have runs: "ru_id ?ru = i" "ru_repos ?ru = repos" "repo_at k ?ru = rs_repo (repos ! k)" by (simp_all add: run_of_def i_def repo_at_def)
  define base where "base = (if kind \<noteq> Full \<and> \<not> nowhereLeft ?ru then (case baseOf w ctx kind frm ids (sr_kind src) ?ru of (r, ru) \<Rightarrow> (bbind r (\<lambda>b. Inr (Some b)), ru))
    else (Inr None, ?ru))"
  obtain rb ru1 where rb: "base = (rb, ru1)" by (cases base)
  have f1: "frames ctx {} ?ru ru1" and id1: "ru_id ru1 = i" "ru_kind ru1 = kind"
    using rb frames_baseOf baseOf_run by (auto simp: base_def run_of_def i_def split: if_splits prod.splits)
  define entries where "entries = (\<lambda>b1. if nowhereLeft ru1 then (Inr nothing, ru1) else storeEntries w ctx src b1 ru1)"
  have res: "(case rb of Inl e \<Rightarrow> (Inl e, ru1) | Inr b1 \<Rightarrow> (case entries b1 of (Inl e, ru) \<Rightarrow> (Inl e, ru)
      | (Inr st, ru) \<Rightarrow> if nowhereLeft ru
          then (settle ctx ru \<lparr>cr_id = ru_id ru, cr_createdAt = now, cr_kind = kind, cr_parent = map_option (\<lambda>bs. m_id (b_manifest bs)) b1,
            cr_entries = length (st_entries st), cr_reused = 0, cr_size = 0, cr_storedSize = 0, cr_signed = False, cr_outcomes = outcomesOf ru\<rparr>, ru)
          else finish w ctx src now st b1 ru)) = (res, ru')"
    using assms(1) signs unfolding createBackup_def Let_def kind sum.case ru base_def [symmetric] rb prod.case entries_def by (auto split: if_splits)
  show ?thesis
  proof (cases rb)
    case (Inl e)
    then have "ru' = ru1" using res by simp
    then show ?thesis using f1 runs assms(2) frames_get [OF f1, of k MANIFEST] by (auto simp: frames_def alive_def)
  next
    case (Inr b1)
    obtain r2 ru2 where r2: "entries b1 = (r2, ru2)" by (cases "entries b1")
    have f2: "frames ctx (range object_name) ru1 ru2" using r2 frames_storeEntries by (auto simp: entries_def split: if_splits)
    have man: "MANIFEST \<notin> range object_name" using object_name_manifest by (metis imageE)
    show ?thesis
    proof (cases "(\<exists>e. r2 = Inl e) \<or> nowhereLeft ru2")
      case True
      then have "ru' = ru2" using res Inr r2 by (auto split: sum.splits)
      then have "k < length repos" "repo_get (repo_at k ru') (keyOf ctx i MANIFEST) = repo_get (rs_repo (repos ! k)) (keyOf ctx i MANIFEST)"
        using f1 f2 runs assms(2) man id1 frames_get [OF f1, of k MANIFEST] frames_get [OF f2, of k MANIFEST] by (auto simp: frames_def alive_def)
      then show ?thesis by simp
    next
      case no: False
      then obtain st where st: "r2 = Inr st" by (meson sum.exhaust)
      have fin: "finish w ctx src now st b1 ru2 = (res, ru')" using res Inr r2 st no by simp
      have alive1: "alive k ru1" using frames_alive [OF f2] frames_alive [OF frames_finish [OF fin] assms(2)] by simp
      then have left1: "\<not> nowhereLeft ru1" by (rule alive_left)
      have left0: "\<not> nowhereLeft ?ru" using alive_left [OF frames_alive [OF f1 alive1]] .
      have "b1 = b \<and> (b = None \<longleftrightarrow> kind = Full) \<and> (\<forall>bs. b = Some bs \<longrightarrow> m_id (b_manifest bs) < i)"
      proof (cases "kind = Full")
        case True
        then show ?thesis using rb Inr given by (simp add: base_def b_def the_base_def)
      next
        case chained: False
        obtain rr where "baseOf w ctx kind frm ids (sr_kind src) ?ru = (rr, ru1)" "bbind rr (\<lambda>b. Inr (Some b)) = Inr b1"
          using rb Inr chained left0 by (auto simp: base_def split: prod.splits)
        then obtain bs where "baseOf w ctx kind frm ids (sr_kind src) ?ru = (Inr bs, ru1)" "b1 = Some bs" by auto
        then show ?thesis using baseOf_older runs(1) given chained by (auto simp: b_def the_base_def)
      qed
      moreover have "storeEntries w ctx src b1 ru1 = (Inr st, ru2)" using r2 st left1 by (simp add: entries_def)
      moreover have "k < length repos" using frames_alive [OF f1 alive1] runs by (simp add: alive_def)
      ultimately show ?thesis using signs f1 id1 fin by blast
    qed
  qed
qed

text \<open>C17. A backup that was made can be restored: a repository that stayed in a \<open>create\<close> to its end, and
  holds the new manifest, gives back on a restore of the new id exactly the entries the source gave, each
  with its bytes, in their order, whether they were stored or point into the chain of the backup built
  on. A repository that failed is left out; the source's names are unique, its fingerprints tell its bytes
  apart, and the base reads back.\<close>

theorem create_restores:
  assumes "createBackup w ctx key_ok src given ids frm now random repos = (res, ru)" "alive k ru"
    and "repo_get (rs_repo (repos ! k)) (keyOf ctx (newBackupId now random) MANIFEST) = None"
    and "repo_get (repo_at k ru) (keyOf ctx (newBackupId now random) MANIFEST) \<noteq> None"
    and "year_4 now" "length random = 4" "\<forall>x \<in> set random. x < 256" "lawful w ctx ids" "ctx_ok ctx"
    and "es = sr_entries src (map_option b_since (the_base w ctx src given ids frm now random repos))" "length es \<le> 10 ^ 9"
    and "\<forall>e \<in> set es. se_open e = Inr (content e) \<and> fits w ctx (content e)"
    and "\<forall>ru st ru'. storeEntries w ctx src (the_base w ctx src given ids frm now random repos) ru = (Inr st, ru') \<longrightarrow>
      fits w ctx (o_text w (catalog_json (catalog_of src st)))"
    and "\<forall>bs. the_base w ctx src given ids frm now random repos = Some bs \<longrightarrow> base_reads w ctx ids (rs_repo (repos ! k)) content es bs"
    and "reading target" "decrypterFor key_ok ids ''restore'' = Inr ()"
  shows "\<exists>rd. restoreBackup w ctx (\<lambda>n. repo_at k ru) key_ok (newBackupId now random) target ids None Every = Inr rd \<and>
    rd_written rd = map (\<lambda>e. (se_name e, content e)) es"
proof -
  let ?i = "newBackupId now random" and ?b = "the_base w ctx src given ids frm now random repos"
  obtain kind ru1 st ru2 where c: "x_trusted ctx \<longrightarrow> x_signer ctx" "frames ctx {} (run_of kind now random repos) ru1" "ru_id ru1 = ?i" "ru_kind ru1 = kind"
      "?b = None \<longleftrightarrow> kind = Full" "\<forall>bs. ?b = Some bs \<longrightarrow> m_id (b_manifest bs) < ?i"
      "storeEntries w ctx src ?b ru1 = (Inr st, ru2)" "finish w ctx src now st ?b ru2 = (res, ru)" and k: "k < length repos"
    using createBackup_cases [OF assms(1,2)] assms(3,4) by auto
  have i: "id_text ?i" using id_text_new(1) assms(5-7) by blast
  have same: "repo_get (repo_at k ru1) key = repo_get (rs_repo (repos ! k)) key" for key
    using c(2) k by (simp add: frames_def run_of_def repo_at_def)
  have "repo_get (repo_at k ru) key = repo_get (repo_at k ru1) key" if "\<forall>x. key \<noteq> keyOf ctx ?i x" for key
    using frames_storeEntries [OF c(7)] frames_finish [OF c(8)] c(2,3) k that by (auto simp: frames_def run_of_def)
  then have agree: "agree ctx ?i (rs_repo (repos ! k)) (repo_at k ru)"
    using i same by (auto simp: agree_def keyOf_eq)
  have fit: "fits w ctx (o_text w (catalog_json (catalog_of src st)))" using assms(13) c(7) by blast
  show ?thesis
    by (rule finished_restores [OF c(7,8) assms(2) _ assms(4) c(3) assms(10) _ agree assms(5) _ c(1) fit assms(15,16)])
      (use assms i same c in \<open>auto simp: run_ok_def\<close>)
qed

section \<open>One run, to its end\<close>

instance jv :: countable
  by countable_datatype

definition ex_now :: int where "ex_now = 1791065700123"
definition ex_random :: "nat list" where "ex_random = [159, 58, 97, 192]"
definition zeros :: string where "zeros = replicate 64 (CHR ''0'')"

definition made_entry :: catalog_entry where
  "made_entry = \<lparr>ce_name = ''a'', ce_object = ''0.age'', ce_in = None, ce_size = 1, ce_sha256 = zeros, ce_fingerprint = None\<rparr>"

definition made_catalog :: catalog where
  "made_catalog = \<lparr>ca_kind = ''files'', ca_entries = [made_entry], ca_position = None\<rparr>"

definition made_manifest :: manifest where
  "made_manifest = \<lparr>m_backup = ''app'', m_id = newBackupId ex_now ex_random, m_createdAt = iso_string ex_now, m_kind = Full, m_parent = None,
     m_recipients = [''age1x''], m_catalog = \<lparr>so_key = ''catalog.age'', so_size = 1, so_sha256 = zeros\<rparr>,
     m_objects = [\<lparr>so_key = ''0.age'', so_size = 1, so_sha256 = zeros\<rparr>]\<rparr>"

text \<open>A concrete outside: values are written as their number, but for the two files of the run.\<close>

definition a_world :: outside where
  "a_world = \<lparr>o_json = (\<lambda>s. Some (if s = ''C'' then catalog_json made_catalog else if s = ''M'' then manifest_json made_manifest else from_nat (parse_nat s))),
     o_text = (\<lambda>v. if v = catalog_json made_catalog then ''C'' else show_nat (to_nat v)),
     o_pretty = (\<lambda>v. if v = manifest_json made_manifest then ''M'' else show_nat (to_nat v)),
     o_sha = (\<lambda>b. zeros), o_seal = (\<lambda>rs b. b), o_open = (\<lambda>is b. Plain b),
     o_sign = (\<lambda>b. zeros), o_verify = (\<lambda>b s. True)\<rparr>"

definition a_source :: source where
  "a_source = \<lparr>sr_kind = ''files'', sr_entries = (\<lambda>since. [\<lparr>se_name = ''a'', se_fingerprint = None, se_open = Inr ''x''\<rparr>]), sr_position = None\<rparr>"

definition a_repo :: rstate where
  "a_repo = \<lparr>rs_name = ''local'', rs_repo = [], rs_failed = None, rs_events = []\<rparr>"

lemma show_nat_not: "show_nat n \<noteq> ''C''" "show_nat n \<noteq> ''M''"
  using show_nat_digits [of n] by (auto simp: is_digit_def)

lemma a_world_lawful: "lawful a_world ex_ctx [''k'']"
  using show_nat_not by (auto simp: lawful_def a_world_def zeros_def hex_text_def is_hex_def is_digit_def list_all_iff)

lemma a_object_name: "object_name 0 = ''0.age''"
  by code_simp

lemma a_stored:
  assumes "storeEntries a_world ex_ctx a_source None ru = (Inr st, ru')"
  shows "catalog_of a_source st = made_catalog"
  using assms
  by (auto simp: storeEntries_def a_source_def checkEntry_def unchanged_def known_in_def storeOne_def same_bytes_def Let_def a_object_name own_entry_def
      a_world_def catalog_of_def made_catalog_def made_entry_def bguard_def split: if_splits)

definition a_run :: run where
  "a_run = run_of Full ex_now ex_random [a_repo]"

definition a_stored_run :: run where
  "a_stored_run = putAll ex_ctx ''0.age'' ''x'' a_run"

definition a_final_run :: run where
  "a_final_run = putAll ex_ctx MANIFEST ''M'' (putAll ex_ctx ''catalog.age'' ''C'' a_stored_run)"

lemma a_stores:
  "storeEntries a_world ex_ctx a_source None a_run =
    (Inr \<lparr>st_entries = [made_entry], st_objects = [object_of a_world ''0.age'' ''x''], st_reused = 0\<rparr>, a_stored_run)"
  by (simp add: storeEntries_def a_source_def checkEntry_def unchanged_def known_in_def storeOne_def same_bytes_def Let_def a_object_name own_entry_def
      a_world_def made_entry_def bguard_def measured_def sealed_def a_stored_run_def)

lemma a_left: "\<not> nowhereLeft a_run" "\<not> nowhereLeft a_stored_run" "map rs_failed (ru_repos a_final_run) = [None]" "alive 0 a_final_run"
  "repo_get (repo_at 0 a_final_run) (keyOf ex_ctx (newBackupId ex_now ex_random) MANIFEST) = Some ''M''"
  by (simp_all add: nowhereLeft_def a_run_def run_of_def a_repo_def a_stored_run_def a_final_run_def putAll_def put_one_def Let_def alive_def repo_at_def)

lemma a_created: "fst (createBackup a_world ex_ctx (\<lambda>k. True) a_source None [''k''] None ex_now ex_random [a_repo]) = r \<Longrightarrow>
    createBackup a_world ex_ctx (\<lambda>k. True) a_source None [''k''] None ex_now ex_random [a_repo] = (r, a_final_run)"
proof -
  have x: "\<not> x_trusted ex_ctx" "\<not> x_signer ex_ctx" by (simp_all add: ex_ctx_def)
  have m: "manifest_of ex_ctx a_stored_run ex_now None (object_of a_world ''catalog.age'' ''C'') [object_of a_world ''0.age'' ''x''] = made_manifest"
    by (simp add: manifest_of_def object_of_def measured_def a_world_def made_manifest_def ex_ctx_def a_stored_run_def a_run_def run_of_def)
  have c: "catalog_of a_source \<lparr>st_entries = [made_entry], st_objects = [object_of a_world ''0.age'' ''x''], st_reused = 0\<rparr> = made_catalog"
    by (simp add: catalog_of_def a_source_def made_catalog_def)
  have w: "sealed a_world ex_ctx (o_text a_world (catalog_json made_catalog)) = ''C''" "o_pretty a_world (manifest_json made_manifest) = ''M''"
    by (simp_all add: sealed_def a_world_def)
  have k: "a_run\<lparr>ru_kind := Full\<rparr> = a_run" by (simp add: a_run_def run_of_def)
  have "snd (finish a_world ex_ctx a_source ex_now \<lparr>st_entries = [made_entry], st_objects = [object_of a_world ''0.age'' ''x''], st_reused = 0\<rparr> None a_stored_run) = a_final_run"
    by (simp add: finish_def store_plain_def putManifest_def c w m x a_final_run_def MANIFEST_MAX_BYTES_def Let_def)
  then have "snd (createBackup a_world ex_ctx (\<lambda>k. True) a_source None [''k''] None ex_now ex_random [a_repo]) = a_final_run"
    using a_left(1,2) by (simp add: createBackup_def kindOf_def x a_stores Let_def a_run_def [unfolded run_of_def, symmetric] k)
  then show "fst (createBackup a_world ex_ctx (\<lambda>k. True) a_source None [''k''] None ex_now ex_random [a_repo]) = r \<Longrightarrow>
      createBackup a_world ex_ctx (\<lambda>k. True) a_source None [''k''] None ex_now ex_random [a_repo] = (r, a_final_run)"
    by (simp add: prod_eq_iff)
qed

theorem create_restores_witness:
  "\<exists>rd. restoreBackup a_world ex_ctx (\<lambda>n. repo_at 0 a_final_run) (\<lambda>k. True) (newBackupId ex_now ex_random) (\<lambda>n s. Resolves True) [''k''] None Every = Inr rd \<and>
    rd_written rd = [(''a'', ''x'')]"
proof -
  have y: "year_4 ex_now" by code_simp
  have b: "the_base a_world ex_ctx a_source None [''k''] None ex_now ex_random [a_repo] = None" by (simp add: the_base_def kindOf_def)
  have fit: "fits a_world ex_ctx (o_text a_world (catalog_json (catalog_of a_source st)))"
    if "storeEntries a_world ex_ctx a_source None ru = (Inr st, ru')" for ru st ru'
    using a_stored [OF that] by (simp add: fits_def a_world_def sealed_def)
  have ctx: "ctx_ok ex_ctx" using ex_manifest_ok(1) by (auto simp: ctx_ok_def ex_ctx_def manifest_ok_def ex_manifest_def)
  have "\<exists>rd. restoreBackup a_world ex_ctx (\<lambda>n. repo_at 0 a_final_run) (\<lambda>k. True) (newBackupId ex_now ex_random) (\<lambda>n s. Resolves True) [''k''] None Every = Inr rd \<and>
      rd_written rd = map (\<lambda>e. (se_name e, ''x'')) [\<lparr>se_name = ''a'', se_fingerprint = None, se_open = Inr ''x''\<rparr>]"
    by (rule create_restores [OF a_created [OF refl] a_left(4) _ _ y _ _ a_world_lawful ctx])
      (use b fit a_left(5) in \<open>auto simp: a_repo_def repo_get_def a_source_def ex_random_def fits_def sealed_def a_world_def reading_def decrypterFor_def\<close>)
  then show ?thesis by simp
qed

end
