(* ===== verification/Backup_Rotation.thy ===== *)
theory Backup_Rotation
  imports Calendar Json "HOL-Library.Char_ord" "HOL-Library.List_Lexorder" "HOL-Library.Multiset"
begin

text \<open>
  \<open>packages/backup/src/rotation/periods.ts\<close> and \<open>policy.ts\<close>: the periods of the calendar rules,
  why each backup is kept, the parents that are kept with their children, and the size rule, which
  drops the oldest droppable backup until the rest fit. A \<open>Date\<close> is its milliseconds; a policy's
  numbers are the whole numbers \<open>checkPolicy\<close> lets through.
\<close>

section \<open>Periods\<close>

datatype cal_rule = Hourly | Daily | Weekly | Monthly | Yearly

definition CALENDAR :: "cal_rule list" where
  "CALENDAR = [Hourly, Daily, Weekly, Monthly, Yearly]"

fun rule_text :: "cal_rule \<Rightarrow> string" where
  "rule_text Hourly = ''hourly''"
| "rule_text Daily = ''daily''"
| "rule_text Weekly = ''weekly''"
| "rule_text Monthly = ''monthly''"
| "rule_text Yearly = ''yearly''"

definition pad2 :: "int \<Rightarrow> string" where
  "pad2 n = pad 2 (nat n)"

text \<open>The Thursday of the ISO week of a date is the day that names its year and its week.\<close>

definition week_thursday :: "int \<Rightarrow> int" where
  "week_thursday t = (let weekday = (if utc_day t = 0 then 7 else utc_day t) in (t div DAY + 4 - weekday) * DAY)"

text \<open>Years are counted as they are; \<open>Date.UTC\<close> reads one from 0 to 99 as of the 1900s, before any backup.\<close>

definition isoWeek :: "int \<Rightarrow> string" where
  "isoWeek t = (let day = week_thursday t; week = - ((- (day_of_year day + 1)) div 7) in
     show_int (utc_year day) @ ''-W'' @ pad2 week)"

fun periodOf :: "cal_rule \<Rightarrow> int \<Rightarrow> string" where
  "periodOf Hourly t = show_int (utc_year t) @ ''-'' @ pad2 (utc_month t) @ ''-'' @ pad2 (utc_date t) @ ''T'' @ pad2 (utc_hours t)"
| "periodOf Daily t = show_int (utc_year t) @ ''-'' @ pad2 (utc_month t) @ ''-'' @ pad2 (utc_date t)"
| "periodOf Weekly t = isoWeek t"
| "periodOf Monthly t = show_int (utc_year t) @ ''-'' @ pad2 (utc_month t)"
| "periodOf Yearly t = show_int (utc_year t)"

text \<open>The same periods, as numbers: hours, days, weeks from Monday, months and years.\<close>

fun bucket :: "cal_rule \<Rightarrow> int \<Rightarrow> int" where
  "bucket Hourly t = t div 3600000"
| "bucket Daily t = t div DAY"
| "bucket Weekly t = (t div DAY + 3) div 7"
| "bucket Monthly t = 12 * utc_year t + utc_month t"
| "bucket Yearly t = utc_year t"

lemma show_int_inj: "show_int a = show_int b \<longleftrightarrow> a = b"
proof -
  have d: "hd (show_nat n) \<noteq> CHR 0x2D" for n
    using show_nat_digits [of n] show_nat_nonempty [of n] by (cases "show_nat n") (auto simp: is_digit_def)
  have s: "(CHR 0x2D # show_nat m = show_nat n) = False" for m n using d [of n] by (metis list.sel(1))
  have "show_nat m = CHR 0x2D # show_nat n \<longleftrightarrow> False" for m n using s by metis
  with s show ?thesis by (auto simp: show_int_def show_nat_inj)
qed

lemma pad2_digits: "0 \<le> n \<Longrightarrow> n < 100 \<Longrightarrow> pad2 n = digits 2 (nat n)"
  by (simp add: pad2_def pad_digits)

lemma pad2_inj: "0 \<le> a \<Longrightarrow> a < 100 \<Longrightarrow> 0 \<le> b \<Longrightarrow> b < 100 \<Longrightarrow> pad2 a = pad2 b \<longleftrightarrow> a = b"
  by (simp add: pad2_digits digits_inj eq_nat_nat_iff)

lemma append_tail: "length as = length bs \<Longrightarrow> xs @ c # as = ys @ d # bs \<longleftrightarrow> xs = ys \<and> c = d \<and> as = (bs :: string)"
  by auto

lemma pad2_len: "0 \<le> n \<Longrightarrow> n < 100 \<Longrightarrow> length (pad2 n) = 2"
  by (simp add: pad2_digits)

lemma two_digits:
  "0 \<le> utc_month t" "utc_month t < 100" "0 \<le> utc_date t" "utc_date t < 100" "0 \<le> utc_hours t" "utc_hours t < 100"
  using utc_month_bounds [of t] month_len_31 [of "utc_month t" "utc_year t"] clock_bounds [of t] by auto

lemma date_parts_inj:
  "utc_year t = utc_year u \<and> utc_month t = utc_month u \<and> utc_date t = utc_date u \<longleftrightarrow> t div DAY = u div DAY"
  using utc_date_number [of t] utc_date_number [of u] by (auto simp: utc_year_def utc_month_def utc_date_def day_of_year_def)

lemma same_digit: "0 < (k :: int) \<Longrightarrow> 0 \<le> b \<Longrightarrow> b < k \<Longrightarrow> 0 \<le> d \<Longrightarrow> d < k \<Longrightarrow> k * a + b = k * c + d \<longleftrightarrow> a = c \<and> b = d"
  using digits_unique [of k a b c d] by auto

lemma hour_number: "t div 3600000 = 24 * (t div DAY) + utc_hours t"
proof -
  have "t = 3600000 * (24 * (t div DAY) + utc_hours t) + t mod 3600000"
    using clock_split(1) [of t] div_mult_mod_eq [of t DAY] by (simp add: DAY_def)
  then show ?thesis using div_eqI [of 3600000 "24 * (t div DAY) + utc_hours t" t] pos_mod_sign [of 3600000 t] pos_mod_bound [of 3600000 t]
    by simp
qed

lemma year_day: "t = n * DAY \<Longrightarrow> utc_year t = year_of n \<and> day_of_year t = n - year_start (year_of n)"
  by (simp add: utc_year_def day_of_year_def DAY_def)

lemma thursday_number: "week_thursday t = (7 * ((t div DAY + 3) div 7) + 0) * DAY"
proof -
  define n where "n = t div DAY"
  have "(n + 4) mod 7 = ((n + 3) mod 7 + 1) mod 7" using mod_add_left_eq [of "n + 3" 7 1] by (simp add: add.assoc)
  moreover have "(if (m + 1) mod 7 = 0 then 7 else (m + 1) mod 7) = m + 1" if "0 \<le> m" "m < 7" for m :: int
    using that mod_pos_pos_trivial [of "m + 1" 7] by (cases "m = 6") (simp_all del: mod_eq_0_iff_dvd)
  from this [of "(n + 3) mod 7"]
  have "(if ((n + 3) mod 7 + 1) mod 7 = 0 then 7 else ((n + 3) mod 7 + 1) mod 7) = (n + 3) mod 7 + 1" by simp
  ultimately have "(if (n + 4) mod 7 = 0 then 7 else (n + 4) mod 7) = (n + 3) mod 7 + 1" by metis
  then have "n + 4 - (if (n + 4) mod 7 = 0 then 7 else (n + 4) mod 7) = 7 * ((n + 3) div 7)"
    using mult_div_mod_eq [of 7 "n + 3"] by linarith
  then show ?thesis unfolding week_thursday_def utc_day_def Let_def n_def [symmetric] by simp
qed

text \<open>Two Thursdays of one year are of one week when their days of the year share the quotient by seven.\<close>

lemma iso_week_same:
  "isoWeek t = isoWeek u \<longleftrightarrow> (t div DAY + 3) div 7 = (u div DAY + 3) div 7"
proof -
  define p q where "p = 7 * ((t div DAY + 3) div 7)" and "q = 7 * ((u div DAY + 3) div 7)"
  define dp dq where "dp = p - year_start (year_of p)" and "dq = q - year_start (year_of q)"
  have y: "utc_year (week_thursday t) = year_of p" "day_of_year (week_thursday t) = dp"
    "utc_year (week_thursday u) = year_of q" "day_of_year (week_thursday u) = dq"
    using year_day [of "week_thursday t" p] year_day [of "week_thursday u" q] by (simp_all add: thursday_number p_def q_def dp_def dq_def)
  have r: "0 \<le> dp" "dp < 366" "0 \<le> dq" "dq < 366"
    using year_of_bounds [of p] year_of_bounds [of q] year_start_Suc [of "year_of p"] year_start_Suc [of "year_of q"]
    by (auto simp: dp_def dq_def year_len_def split: if_splits)
  have c: "- ((- d - 1) div 7) = d div 7 + 1" for d :: int by presburger
  have w: "0 \<le> d div 7 + 1 \<and> d div 7 + 1 < 100" if "0 \<le> d" "d < 366" for d :: int using that by presburger
  have "isoWeek t = isoWeek u \<longleftrightarrow> year_of p = year_of q \<and> dp div 7 = dq div 7"
    using w [OF r(1,2)] w [OF r(3,4)] pad2_len pad2_inj
    by (simp add: isoWeek_def y Let_def c append_tail show_int_inj)
  also have "\<dots> \<longleftrightarrow> p = q"
  proof
    assume a: "year_of p = year_of q \<and> dp div 7 = dq div 7"
    have "7 * (dp div 7) \<le> dp \<and> dp < 7 * (dp div 7) + 7" "7 * (dq div 7) \<le> dq \<and> dq < 7 * (dq div 7) + 7"
      by (rule div_bracket, simp)+
    then have "\<bar>p - q\<bar> < 7" using a by (auto simp: dp_def dq_def)
    moreover have "7 dvd p - q" by (simp add: p_def q_def)
    ultimately show "p = q" using dvd_imp_le_int [of "p - q" 7] by force
  qed (simp add: dp_def dq_def)
  finally show ?thesis by (simp add: p_def q_def)
qed

lemma same_period: "periodOf r t = periodOf r u \<longleftrightarrow> bucket r t = bucket r u"
proof (cases r)
  case Hourly
  have "periodOf Hourly t = periodOf Hourly u \<longleftrightarrow> t div DAY = u div DAY \<and> utc_hours t = utc_hours u"
    using two_digits [of t] two_digits [of u] pad2_len pad2_inj by (simp add: append_tail show_int_inj date_parts_inj [symmetric])
  also have "\<dots> \<longleftrightarrow> t div 3600000 = u div 3600000"
    using same_digit [of 24 "utc_hours t" "utc_hours u" "t div DAY" "u div DAY"] clock_bounds [of t] clock_bounds [of u]
    by (simp add: hour_number)
  finally show ?thesis using Hourly by simp
next
  case Daily
  then show ?thesis
    using two_digits [of t] two_digits [of u] pad2_len pad2_inj by (simp add: append_tail show_int_inj date_parts_inj [symmetric])
next
  case Monthly
  have "12 * utc_year t + utc_month t = 12 * utc_year u + utc_month u \<longleftrightarrow> utc_year t = utc_year u \<and> utc_month t = utc_month u"
    using same_digit [of 12 "utc_month t - 1" "utc_month u - 1" "utc_year t" "utc_year u"] utc_month_bounds [of t] utc_month_bounds [of u] by simp
  then show ?thesis using Monthly two_digits [of t] two_digits [of u] pad2_len pad2_inj by (simp add: append_tail show_int_inj)
qed (simp_all add: iso_week_same show_int_inj)

lemma year_mono: "t \<le> u \<Longrightarrow> utc_year t \<le> utc_year u"
proof -
  assume "t \<le> u"
  then have "t div DAY \<le> u div DAY" by (intro zdiv_mono1) (simp_all add: DAY_def)
  then show ?thesis
    using year_of_bounds [of "t div DAY"] year_of_bounds [of "u div DAY"] year_start_mono [of "utc_year u + 1" "utc_year t"]
    unfolding utc_year_def by linarith
qed

lemma bucket_mono: "t \<le> u \<Longrightarrow> bucket r t \<le> bucket r u"
proof (cases r)
  case Monthly
  assume tu: "t \<le> u"
  have "utc_month t \<le> utc_month u" if y: "utc_year t = utc_year u"
  proof -
    have "day_of_year t \<le> day_of_year u" using zdiv_mono1 [OF tu, of DAY] y by (simp add: day_of_year_def DAY_def)
    moreover have "month_start l i \<le> month_start l j" if "1 \<le> i" "i \<le> j" "j \<le> 12" for i j l
      using that int_upto_12 [of i] int_upto_12 [of j] by (auto simp: month_start_def)
    moreover note month_at_bounds [of "day_of_year t" "leap (utc_year t)"] month_at_bounds [of "day_of_year u" "leap (utc_year u)"]
      day_of_year_bounds [of t] day_of_year_bounds [of u]
    ultimately show ?thesis unfolding utc_month_def year_len_def y by (smt (verit))
  qed
  then show ?thesis using Monthly year_mono [OF tu] utc_month_bounds [of t] utc_month_bounds [of u]
    by (cases "utc_year t = utc_year u") auto
qed (auto simp: DAY_def intro!: zdiv_mono1 year_mono)

end
