(* ===== verification/Backup_Policy.thy ===== *)
theory Backup_Policy
  imports Backup_Rotation
begin

text \<open>
  \<open>packages/backup/src/rotation/policy.ts\<close>: the check of a policy and the plan of a prune. The
  newest-first order is the library's linear order on a moment, the reasons are a function of the
  ids, and the two loops (the parents kept with their children, the size rule) are shown to end.
\<close>

section \<open>A policy and its check\<close>

record keep_policy =
  kp_last :: "nat option"
  kp_hourly :: "nat option"
  kp_daily :: "nat option"
  kp_weekly :: "nat option"
  kp_monthly :: "nat option"
  kp_yearly :: "nat option"
  kp_within :: "int option"
  kp_maxTotalSize :: "int option"

fun rule_count :: "keep_policy \<Rightarrow> cal_rule \<Rightarrow> nat option" where
  "rule_count p Hourly = kp_hourly p"
| "rule_count p Daily = kp_daily p"
| "rule_count p Weekly = kp_weekly p"
| "rule_count p Monthly = kp_monthly p"
| "rule_count p Yearly = kp_yearly p"

definition RULES :: "string list" where
  "RULES = ''last'' # map rule_text CALENDAR @ [''within'', ''maxTotalSize'']"

definition rule_value :: "jv \<Rightarrow> string \<Rightarrow> int option" where
  "rule_value v r = (if jget v r = None then None else Some (num_of (jget v r)))"

definition checkPolicy :: "jv option \<Rightarrow> string \<Rightarrow> keep_policy result" where
  "checkPolicy v whr = (case v of None \<Rightarrow> Inl (whr @ '': keep must name at least one rule'')
     | Some p \<Rightarrow> if \<not> is_record p then Inl (whr @ '': keep must name at least one rule'')
       else (case find (\<lambda>r. jget p r \<noteq> None \<and> \<not> whole_from 1 (jget p r)) RULES of
           Some r \<Rightarrow> Inl (whr @ '': keep.'' @ r @ '' must be a whole number, 1 or more'')
         | None \<Rightarrow> if list_all (\<lambda>r. jget p r = None) RULES then Inl (whr @ '': keep must name at least one rule'')
           else (let n = (\<lambda>r. map_option nat (rule_value p r)) in
             Inr \<lparr>kp_last = n ''last'', kp_hourly = n ''hourly'', kp_daily = n ''daily'', kp_weekly = n ''weekly'',
               kp_monthly = n ''monthly'', kp_yearly = n ''yearly'', kp_within = rule_value p ''within'',
               kp_maxTotalSize = rule_value p ''maxTotalSize''\<rparr>)))"

section \<open>The candidates, newest first\<close>

record candidate =
  c_id :: string
  c_at :: int
  c_size :: int
  c_parent :: "string option"
  c_held :: bool
  c_standIn :: bool

datatype moment = Moment int string

text \<open>The sort's comparison: a later time first, then the greater id.\<close>

instantiation moment :: linorder
begin

definition less_eq_moment :: "moment \<Rightarrow> moment \<Rightarrow> bool" where
  "less_eq_moment a b = (case a of Moment t i \<Rightarrow> (case b of Moment u j \<Rightarrow> u < t \<or> t = u \<and> j \<le> i))"

definition less_moment :: "moment \<Rightarrow> moment \<Rightarrow> bool" where
  "less_moment a b = (case a of Moment t i \<Rightarrow> (case b of Moment u j \<Rightarrow> u < t \<or> t = u \<and> j < i))"

instance
  by standard (auto simp: less_eq_moment_def less_moment_def split: moment.splits)

end

definition moment_of :: "candidate \<Rightarrow> moment" where
  "moment_of c = Moment (c_at c) (c_id c)"

definition newest_first :: "candidate list \<Rightarrow> candidate list" where
  "newest_first cs = sort_key moment_of cs"

definition past_of :: "candidate list \<Rightarrow> int \<Rightarrow> candidate list" where
  "past_of newest now = filter (\<lambda>c. \<not> c_standIn c \<and> c_at c \<le> now) newest"

section \<open>The rules\<close>

type_synonym reasons = "string \<Rightarrow> string list"

definition add_why :: "string \<Rightarrow> string \<Rightarrow> reasons \<Rightarrow> reasons" where
  "add_why i why m = m(i := m i @ [why])"

definition count_of :: "nat option \<Rightarrow> nat" where
  "count_of n = (case n of None \<Rightarrow> 0 | Some k \<Rightarrow> k)"

definition last_rule :: "candidate list \<Rightarrow> keep_policy \<Rightarrow> reasons \<Rightarrow> reasons" where
  "last_rule past p m = foldl (\<lambda>m (i, c). add_why (c_id c) (''last '' @ show_nat (Suc i) @ '' of '' @ show_nat (count_of (kp_last p))) m)
     m (enumerate 0 (take (count_of (kp_last p)) past))"

definition floor_rule :: "candidate list \<Rightarrow> keep_policy \<Rightarrow> reasons \<Rightarrow> reasons" where
  "floor_rule past p m = (if kp_maxTotalSize p \<noteq> None \<and> kp_last p = None
     then (case past of [] \<Rightarrow> m | c # cs \<Rightarrow> add_why (c_id c) ''the newest, under maxTotalSize'' m) else m)"

fun calendar_loop :: "cal_rule \<Rightarrow> nat \<Rightarrow> string option \<Rightarrow> candidate list \<Rightarrow> reasons \<Rightarrow> reasons" where
  "calendar_loop r left previous [] m = m"
| "calendar_loop r left previous (c # cs) m = (if left = 0 then m
     else (let period = periodOf r (c_at c) in
       if Some period = previous then calendar_loop r left previous cs m
       else calendar_loop r (left - 1) (Some period) cs (add_why (c_id c) (rule_text r @ '' '' @ period) m)))"

definition calendar_rule :: "candidate list \<Rightarrow> keep_policy \<Rightarrow> reasons \<Rightarrow> cal_rule \<Rightarrow> reasons" where
  "calendar_rule past p m r = calendar_loop r (count_of (rule_count p r)) None past m"

definition age_rules :: "keep_policy \<Rightarrow> int \<Rightarrow> reasons \<Rightarrow> candidate \<Rightarrow> reasons" where
  "age_rules p now m c = (let age = now - c_at c;
       m = (case kp_within p of None \<Rightarrow> m | Some w \<Rightarrow> if age \<ge> 0 \<and> age \<le> w then add_why (c_id c) ''within'' m else m);
       m = (if age < 0 then add_why (c_id c) ''newer than now'' m else m)
     in if c_held c then add_why (c_id c) ''held'' m else m)"

definition byRules :: "candidate list \<Rightarrow> keep_policy \<Rightarrow> int \<Rightarrow> reasons" where
  "byRules newest p now = (let past = past_of newest now;
       m = floor_rule past p (last_rule past p (\<lambda>i. []));
       m = foldl (calendar_rule past p) m CALENDAR
     in foldl (age_rules p now) m newest)"

section \<open>Parents\<close>

definition by_id :: "candidate list \<Rightarrow> string \<Rightarrow> candidate option" where
  "by_id newest i = find (\<lambda>c. c_id c = i) (rev newest)"

lemma by_id_Some: "by_id newest i = Some c \<Longrightarrow> c \<in> set newest \<and> c_id c = i"
  using find_Some_in [of "\<lambda>c. c_id c = i" "rev newest" c] by (simp add: by_id_def)

text \<open>The worklist, its top first: \<open>pending.pop()\<close> and \<open>pending.push(parent)\<close>.\<close>

function parents_loop :: "candidate list \<Rightarrow> reasons \<Rightarrow> candidate list \<Rightarrow> reasons" where
  "parents_loop newest m [] = m"
| "parents_loop newest m (child # pending) =
     (case (case c_parent child of None \<Rightarrow> None | Some p \<Rightarrow> by_id newest p) of
        None \<Rightarrow> parents_loop newest m pending
      | Some parent \<Rightarrow> parents_loop newest (add_why (c_id parent) (''parent of '' @ c_id child) m)
          (if m (c_id parent) = [] then parent # pending else pending))"
  by pat_completeness auto

definition unkept :: "candidate list \<Rightarrow> reasons \<Rightarrow> candidate set" where
  "unkept newest m = {c \<in> set newest. m (c_id c) = []}"

lemma unkept_add:
  assumes "c \<in> set newest"
  shows "card (unkept newest (add_why (c_id c) why m)) \<le> card (unkept newest m)"
    and "m (c_id c) = [] \<Longrightarrow> card (unkept newest (add_why (c_id c) why m)) < card (unkept newest m)"
proof -
  have f: "finite (unkept newest m)" by (simp add: unkept_def)
  have s: "unkept newest (add_why (c_id c) why m) \<subseteq> unkept newest m" by (auto simp: unkept_def add_why_def)
  show "card (unkept newest (add_why (c_id c) why m)) \<le> card (unkept newest m)" by (rule card_mono [OF f s])
  assume "m (c_id c) = []"
  then have "c \<in> unkept newest m" "c \<notin> unkept newest (add_why (c_id c) why m)" using assms by (auto simp: unkept_def add_why_def)
  then show "card (unkept newest (add_why (c_id c) why m)) < card (unkept newest m)" using s by (intro psubset_card_mono [OF f]) blast
qed

termination parents_loop
proof (relation "measures [\<lambda>(newest, m, pending). card (unkept newest m), \<lambda>(newest, m, pending). length pending]")
  fix newest pending :: "candidate list" and child parent :: candidate and m :: reasons
  assume "(case c_parent child of None \<Rightarrow> None | Some p \<Rightarrow> by_id newest p) = Some parent"
  then have "parent \<in> set newest" using by_id_Some by (auto split: option.splits)
  from unkept_add [OF this, where why = "''parent of '' @ c_id child" and m = m]
  show "((newest, add_why (c_id parent) (''parent of '' @ c_id child) m, if m (c_id parent) = [] then parent # pending else pending),
      newest, m, child # pending) \<in> measures [\<lambda>(newest, m, pending). card (unkept newest m), \<lambda>(newest, m, pending). length pending]"
    by (auto simp: le_less)
qed auto

definition withParents :: "candidate list \<Rightarrow> reasons \<Rightarrow> string set \<Rightarrow> reasons" where
  "withParents newest byRule dropped = (let m = (\<lambda>i. if i \<in> dropped then [] else byRule i)
     in parents_loop newest m (rev (filter (\<lambda>c. m (c_id c) \<noteq> []) newest)))"

section \<open>What is kept: the ids the rules keep, and what they build on\<close>

inductive needed :: "candidate list \<Rightarrow> (string \<Rightarrow> bool) \<Rightarrow> string \<Rightarrow> bool" for newest base where
  needed_base: "base i \<Longrightarrow> needed newest base i"
| needed_parent: "needed newest base (c_id k) \<Longrightarrow> k \<in> set newest \<Longrightarrow> c_parent k = Some i \<Longrightarrow> i \<in> c_id ` set newest \<Longrightarrow> needed newest base i"

lemma by_id_in: "distinct (map c_id newest) \<Longrightarrow> c \<in> set newest \<Longrightarrow> by_id newest (c_id c) = Some c"
proof -
  assume a: "distinct (map c_id newest)" "c \<in> set newest"
  then obtain d where "by_id newest (c_id c) = Some d"
    using find_None_all [of "\<lambda>d. c_id d = c_id c" "rev newest"] by (cases "by_id newest (c_id c)") (auto simp: by_id_def)
  then show ?thesis using by_id_Some [of newest "c_id c" d] a by (simp add: distinct_map inj_on_def)
qed

lemma parents_loop_needed:
  assumes "\<And>i. m i \<noteq> [] \<Longrightarrow> needed newest base i" and "\<And>i. base i \<Longrightarrow> m i \<noteq> []"
    and "\<forall>k \<in> set pending. k \<in> set newest \<and> m (c_id k) \<noteq> []"
    and "\<And>k p. k \<in> set newest \<Longrightarrow> m (c_id k) \<noteq> [] \<Longrightarrow> k \<notin> set pending \<Longrightarrow> c_parent k = Some p \<Longrightarrow> p \<in> c_id ` set newest \<Longrightarrow> m p \<noteq> []"
    and "distinct (map c_id newest)"
  shows "parents_loop newest m pending i \<noteq> [] \<longleftrightarrow> needed newest base i"
  using assms
proof (induction newest m pending rule: parents_loop.induct)
  case (1 newest m)
  have "needed newest base i \<Longrightarrow> m i \<noteq> []" for i by (induction rule: needed.induct) (use 1 in auto)
  then show ?case using 1 by auto
next
  case (2 newest m child pending)
  show ?case
  proof (cases "case c_parent child of None \<Rightarrow> None | Some p \<Rightarrow> by_id newest p")
    case None
    have np: "p \<notin> c_id ` set newest" if "c_parent child = Some p" for p
      using None that by_id_in [OF "2.prems"(5)] by auto
    have "parents_loop newest m pending i \<noteq> [] \<longleftrightarrow> needed newest base i"
    proof (rule "2.IH"(1) [OF None])
      fix k p
      assume k: "k \<in> set newest" "m (c_id k) \<noteq> []" "k \<notin> set pending" "c_parent k = Some p" "p \<in> c_id ` set newest"
      then show "m p \<noteq> []" using np "2.prems"(4) [of k p] by (cases "k = child") auto
    qed (use "2.prems" in auto)
    then show ?thesis using None by simp
  next
    case (Some parent)
    let ?m = "add_why (c_id parent) (''parent of '' @ c_id child) m"
    have par: "parent \<in> set newest" "c_parent child = Some (c_id parent)" using Some by_id_Some by (auto split: option.splits)
    have grow: "m j \<noteq> [] \<Longrightarrow> ?m j \<noteq> []" "?m (c_id parent) \<noteq> []" "?m j \<noteq> [] \<Longrightarrow> j = c_id parent \<or> m j \<noteq> []" for j
      by (auto simp: add_why_def split: if_splits)
    have child: "child \<in> set newest" "m (c_id child) \<noteq> []" using "2.prems"(3) by auto
    have "parents_loop newest ?m (if m (c_id parent) = [] then parent # pending else pending) i \<noteq> [] \<longleftrightarrow> needed newest base i"
    proof (rule "2.IH"(2) [OF Some])
      show "needed newest base j" if "?m j \<noteq> []" for j
        using grow(3) [OF that] "2.prems"(1) needed_parent [OF "2.prems"(1) [OF child(2)] child(1) par(2)] par(1) by auto
      show "\<forall>k \<in> set (if m (c_id parent) = [] then parent # pending else pending). k \<in> set newest \<and> ?m (c_id k) \<noteq> []"
        using "2.prems"(3) grow par(1) by auto
      fix k p
      assume k: "k \<in> set newest" "?m (c_id k) \<noteq> []" "k \<notin> set (if m (c_id parent) = [] then parent # pending else pending)"
        "c_parent k = Some p" "p \<in> c_id ` set newest"
      show "?m p \<noteq> []"
      proof (cases "k = child")
        case True
        then show ?thesis using k(4) par(2) grow(2) by simp
      next
        case False
        have "m (c_id k) \<noteq> []"
        proof (cases "c_id k = c_id parent")
          case True
          then have "k = parent" using k(1) par(1) "2.prems"(5) by (simp add: distinct_map inj_on_def)
          then show ?thesis using k(3) by (auto split: if_splits)
        qed (use grow(3) [OF k(2)] in auto)
        then show ?thesis using grow(1) "2.prems"(4) [OF k(1) _ _ k(4,5)] False k(3) by (auto split: if_splits)
      qed
    qed (use "2.prems" grow in auto)
    then show ?thesis using Some by simp
  qed
qed

text \<open>The loop keeps exactly what is needed: what a rule keeps, and every parent of what is kept.\<close>

lemma withParents_needed:
  assumes "distinct (map c_id newest)"
  shows "withParents newest byRule dropped i \<noteq> [] \<longleftrightarrow> needed newest (\<lambda>i. i \<notin> dropped \<and> byRule i \<noteq> []) i"
  unfolding withParents_def Let_def
  by (rule parents_loop_needed) (use assms in \<open>auto intro: needed_base split: if_splits\<close>)

lemma needed_mono: "needed newest base i \<Longrightarrow> (\<And>i. base i \<Longrightarrow> base' i) \<Longrightarrow> needed newest base' i"
  by (induction rule: needed.induct) (auto intro: needed.intros)

section \<open>The size rule\<close>

definition kept_of :: "candidate list \<Rightarrow> reasons \<Rightarrow> candidate list" where
  "kept_of newest m = filter (\<lambda>c. m (c_id c) \<noteq> []) newest"

definition floor_ids :: "candidate list \<Rightarrow> keep_policy \<Rightarrow> int \<Rightarrow> string list" where
  "floor_ids newest p now = map c_id (take (case kp_last p of None \<Rightarrow> 1 | Some n \<Rightarrow> n) (past_of newest now))"

definition droppable :: "candidate list \<Rightarrow> reasons \<Rightarrow> keep_policy \<Rightarrow> int \<Rightarrow> candidate option" where
  "droppable newest m p now = (let flr = floor_ids newest p now; kept = kept_of newest m in
     find (\<lambda>c. c_id c \<notin> set flr \<and> \<not> c_held c \<and> c_at c \<le> now \<and> \<not> list_ex (\<lambda>k. c_parent k = Some (c_id c)) kept) (rev kept))"

definition total_of :: "candidate list \<Rightarrow> reasons \<Rightarrow> int" where
  "total_of newest m = sum_list (map c_size (kept_of newest m))"

text \<open>What the loop drops is never one it dropped before: that one is kept for a child only.\<close>

lemma droppable_kept: "droppable newest m p now = Some c \<Longrightarrow> c \<in> set newest \<and> m (c_id c) \<noteq> []"
  by (auto simp: droppable_def kept_of_def Let_def dest!: find_Some_in)

lemma droppable_not_parent:
  "droppable newest m p now = Some c \<Longrightarrow> k \<in> set newest \<Longrightarrow> m (c_id k) \<noteq> [] \<Longrightarrow> c_parent k \<noteq> Some (c_id c)"
  by (auto simp: droppable_def kept_of_def Let_def list_ex_iff dest!: find_Some_in)

text \<open>A reason a drop took away comes back only as the parent of a kept backup.\<close>

lemma parents_loop_grows: "m i \<noteq> [] \<Longrightarrow> parents_loop newest m pending i \<noteq> []"
proof (induction newest m pending rule: parents_loop.induct)
  case (2 newest m child pending)
  show ?case
  proof (cases "case c_parent child of None \<Rightarrow> None | Some p \<Rightarrow> by_id newest p")
    case None
    with "2.IH"(1) [OF None "2.prems"] show ?thesis by simp
  next
    case (Some parent)
    have "add_why (c_id parent) (''parent of '' @ c_id child) m i \<noteq> []" using "2.prems" by (simp add: add_why_def)
    from "2.IH"(2) [OF Some this] show ?thesis by (simp add: Some)
  qed
qed simp

lemma parents_loop_child:
  assumes "parents_loop newest m pending i \<noteq> []" "m i = []" "\<forall>k \<in> set pending. k \<in> set newest \<and> m (c_id k) \<noteq> []"
  shows "\<exists>k \<in> set newest. parents_loop newest m pending (c_id k) \<noteq> [] \<and> c_parent k = Some i"
  using assms
proof (induction newest m pending rule: parents_loop.induct)
  case (2 newest m child pending)
  show ?case
  proof (cases "case c_parent child of None \<Rightarrow> None | Some p \<Rightarrow> by_id newest p")
    case None
    with "2.IH"(1) [OF None] "2.prems" show ?thesis by simp
  next
    case (Some parent)
    let ?m = "add_why (c_id parent) (''parent of '' @ c_id child) m"
    let ?p = "if m (c_id parent) = [] then parent # pending else pending"
    have par: "parent \<in> set newest" "c_parent child = Some (c_id parent)" using Some by_id_Some by (auto split: option.splits)
    have eq: "parents_loop newest m (child # pending) = parents_loop newest ?m ?p" using Some by simp
    have grow: "m j \<noteq> [] \<Longrightarrow> ?m j \<noteq> []" for j by (simp add: add_why_def)
    show ?thesis
    proof (cases "i = c_id parent")
      case True
      then show ?thesis using par "2.prems"(3) parents_loop_grows [of ?m "c_id child" newest ?p] grow [of "c_id child"]
        unfolding eq by auto
    next
      case False
      have "\<exists>k \<in> set newest. parents_loop newest ?m ?p (c_id k) \<noteq> [] \<and> c_parent k = Some i"
      proof (rule "2.IH"(2) [OF Some])
        show "parents_loop newest ?m ?p i \<noteq> []" using "2.prems"(1) unfolding eq .
        show "?m i = []" using "2.prems"(2) False by (simp add: add_why_def)
        show "\<forall>k \<in> set ?p. k \<in> set newest \<and> ?m (c_id k) \<noteq> []"
          using "2.prems"(3) par(1) grow by (auto simp: add_why_def)
      qed
      then show ?thesis unfolding eq .
    qed
  qed
qed simp

lemma withParents_child:
  "withParents newest byRule dropped i \<noteq> [] \<Longrightarrow> i \<in> dropped \<Longrightarrow>
    \<exists>k \<in> set newest. withParents newest byRule dropped (c_id k) \<noteq> [] \<and> c_parent k = Some i"
  unfolding withParents_def Let_def by (rule parents_loop_child) auto

lemma droppable_fresh: "droppable newest (withParents newest byRule dropped) p now = Some c \<Longrightarrow> c_id c \<notin> dropped"
  using withParents_child [of newest byRule dropped "c_id c"] droppable_kept [of newest _ p now c] droppable_not_parent [of newest _ p now c]
  by blast

function size_loop :: "candidate list \<Rightarrow> reasons \<Rightarrow> keep_policy \<Rightarrow> int \<Rightarrow> int \<Rightarrow> string set \<Rightarrow> string set \<times> bool" where
  "size_loop newest byRule p now limt dropped = (let m = withParents newest byRule dropped in
     if total_of newest m \<le> limt then (dropped, False)
     else (case droppable newest m p now of None \<Rightarrow> (dropped, True)
       | Some c \<Rightarrow> size_loop newest byRule p now limt (insert (c_id c) dropped)))"
  by pat_completeness auto

termination size_loop
proof (relation "measure (\<lambda>(newest, byRule, p, now, limt, dropped). card (c_id ` set newest - dropped))")
  fix newest :: "candidate list" and byRule :: reasons and p :: keep_policy and now limt :: int and dropped :: "string set" and m c
  assume m: "m = withParents newest byRule dropped" and d: "droppable newest m p now = Some c"
  have "c_id c \<notin> dropped" using droppable_fresh d unfolding m .
  moreover have "c \<in> set newest" using droppable_kept [OF d] by simp
  ultimately have "c_id ` set newest - insert (c_id c) dropped \<subset> c_id ` set newest - dropped" by blast
  then have "card (c_id ` set newest - insert (c_id c) dropped) < card (c_id ` set newest - dropped)" by (intro psubset_card_mono) auto
  then show "((newest, byRule, p, now, limt, insert (c_id c) dropped), newest, byRule, p, now, limt, dropped) \<in>
      measure (\<lambda>(newest, byRule, p, now, limt, dropped). card (c_id ` set newest - dropped))" by simp
qed simp

declare size_loop.simps [simp del]

section \<open>The plan\<close>

record decision =
  d_id :: string
  d_at :: int
  d_size :: int
  d_reasons :: "string list"

record plan_result =
  kept :: "decision list"
  removed :: "decision list"
  overSize :: bool

definition decide :: "candidate \<Rightarrow> string list \<Rightarrow> decision" where
  "decide c why = \<lparr>d_id = c_id c, d_at = c_at c, d_size = c_size c, d_reasons = why\<rparr>"

definition plan_backups :: "candidate list \<Rightarrow> keep_policy \<Rightarrow> int \<Rightarrow> plan_result" where
  "plan_backups cs p now = (let newest = newest_first cs; byRule = byRules newest p now;
       (dropped, over) = (case kp_maxTotalSize p of None \<Rightarrow> ({}, False) | Some limt \<Rightarrow> size_loop newest byRule p now limt {});
       m = withParents newest byRule dropped
     in \<lparr>kept = map (\<lambda>c. decide c (m (c_id c))) (filter (\<lambda>c. m (c_id c) \<noteq> []) newest),
         removed = map (\<lambda>c. decide c [if c_id c \<in> dropped \<or> byRule (c_id c) \<noteq> [] then ''over maxTotalSize'' else ''no rule keeps it''])
           (filter (\<lambda>c. m (c_id c) = []) newest),
         overSize = over\<rparr>)"

end
