(* ===== verification/Backup_Plan.thy ===== *)
theory Backup_Plan
  imports Backup_Policy
begin

text \<open>
  What the plan of a prune keeps. The rules are given a declarative reading (\<open>wanted\<close>), the plan is
  shown to keep exactly what that reading and the parents ask for, the size rule to end under its
  bound or with nothing left to drop, and the backups that must never go (held, newer than now, the
  floor, the parents of what is kept) to stay under every policy.
\<close>

section \<open>The newest-first list\<close>

lemma newest_first_set [simp]: "set (newest_first cs) = set cs"
  by (simp add: newest_first_def)

lemma newest_first_mset [simp]: "mset (newest_first cs) = mset cs"
  by (simp add: newest_first_def)

lemma newest_first_distinct: "distinct (map c_id cs) \<Longrightarrow> distinct (map c_id (newest_first cs))"
  using mset_eq_imp_distinct_iff [of "map c_id cs" "map c_id (newest_first cs)"] by simp

definition in_order :: "candidate list \<Rightarrow> bool" where
  "in_order cs = (sorted (map moment_of cs) \<and> distinct (map moment_of cs))"

lemma in_order_newest: "distinct (map c_id cs) \<Longrightarrow> in_order (newest_first cs)"
proof -
  assume d: "distinct (map c_id cs)"
  have "map c_id cs = map (\<lambda>m. case m of Moment t i \<Rightarrow> i) (map moment_of cs)" by (simp add: moment_of_def)
  then have "distinct (map moment_of cs)" using d distinct_map by metis
  then have "distinct (map moment_of (newest_first cs))"
    using mset_eq_imp_distinct_iff [of "map moment_of cs" "map moment_of (newest_first cs)"] by simp
  then show ?thesis by (simp add: in_order_def newest_first_def)
qed

lemma in_order_filter: "in_order cs \<Longrightarrow> in_order (filter P cs)"
  by (simp add: in_order_def sorted_filter distinct_map_filter)

text \<open>What stands before a backup in the list is what is newer than it.\<close>

definition newer :: "candidate \<Rightarrow> candidate \<Rightarrow> bool" where
  "newer d c = (moment_of d < moment_of c)"

lemma before_newer: "in_order (xs @ c # ys) \<Longrightarrow> set xs = {d \<in> set (xs @ c # ys). newer d c}"
  by (auto simp: in_order_def newer_def sorted_append less_le image_iff)

lemma before_count: "in_order (xs @ c # ys) \<Longrightarrow> length xs = card {d \<in> set (xs @ c # ys). newer d c}"
proof -
  assume a: "in_order (xs @ c # ys)"
  then have "distinct xs" by (auto simp: in_order_def distinct_map)
  then show ?thesis using before_newer [OF a] by (metis distinct_card)
qed

lemma take_newer:
  assumes "in_order cs" "c \<in> set cs"
  shows "c \<in> set (take n cs) \<longleftrightarrow> card {d \<in> set cs. newer d c} < n"
proof -
  obtain xs ys where cs: "cs = xs @ c # ys" using assms(2) split_list by metis
  have "distinct cs" using assms(1) by (auto simp: in_order_def distinct_map)
  then have "c \<in> set (take n cs) \<longleftrightarrow> length xs < n" unfolding cs
    by (cases "n - length xs") (auto dest: in_set_takeD)
  then show ?thesis using before_count [of xs c ys] assms(1) cs by simp
qed

section \<open>What the rules want\<close>

definition is_past :: "int \<Rightarrow> candidate \<Rightarrow> bool" where
  "is_past now c = (\<not> c_standIn c \<and> c_at c \<le> now)"

text \<open>The past backups newer than one, the times they were made at.\<close>

definition newer_past :: "candidate list \<Rightarrow> int \<Rightarrow> candidate \<Rightarrow> candidate set" where
  "newer_past cs now c = {d \<in> set cs. is_past now d \<and> newer d c}"

definition wants_last :: "candidate list \<Rightarrow> keep_policy \<Rightarrow> int \<Rightarrow> candidate \<Rightarrow> bool" where
  "wants_last cs p now c = (is_past now c \<and> card (newer_past cs now c) < count_of (kp_last p))"

definition wants_floor :: "candidate list \<Rightarrow> keep_policy \<Rightarrow> int \<Rightarrow> candidate \<Rightarrow> bool" where
  "wants_floor cs p now c = (kp_maxTotalSize p \<noteq> None \<and> kp_last p = None \<and> is_past now c \<and> newer_past cs now c = {})"

text \<open>The newest of its period, and fewer than the rule's count of newer periods have a backup.\<close>

definition wants_calendar :: "candidate list \<Rightarrow> keep_policy \<Rightarrow> int \<Rightarrow> cal_rule \<Rightarrow> candidate \<Rightarrow> bool" where
  "wants_calendar cs p now r c = (is_past now c \<and>
     bucket r (c_at c) \<notin> (\<lambda>d. bucket r (c_at d)) ` newer_past cs now c \<and>
     card ((\<lambda>d. bucket r (c_at d)) ` newer_past cs now c) < count_of (rule_count p r))"

definition wants_age :: "keep_policy \<Rightarrow> int \<Rightarrow> candidate \<Rightarrow> bool" where
  "wants_age p now c = (c_at c > now \<or> c_held c \<or> (case kp_within p of None \<Rightarrow> False | Some w \<Rightarrow> c_at c \<le> now \<and> now - c_at c \<le> w))"

definition wanted :: "candidate list \<Rightarrow> keep_policy \<Rightarrow> int \<Rightarrow> candidate \<Rightarrow> bool" where
  "wanted cs p now c = (wants_last cs p now c \<or> wants_floor cs p now c \<or> (\<exists>r. wants_calendar cs p now r c) \<or> wants_age p now c)"

definition wanted_id :: "candidate list \<Rightarrow> keep_policy \<Rightarrow> int \<Rightarrow> string \<Rightarrow> bool" where
  "wanted_id cs p now i = (\<exists>c \<in> set cs. c_id c = i \<and> wanted cs p now c)"

section \<open>The rules say why exactly for what is wanted\<close>

lemma add_why_empty: "add_why j w m i = [] \<longleftrightarrow> i \<noteq> j \<and> m i = []"
  by (auto simp: add_why_def)

lemma past_of_order: "in_order newest \<Longrightarrow> in_order (past_of newest now)"
  by (simp add: past_of_def in_order_filter)

lemma past_of_set: "set (past_of newest now) = {c \<in> set newest. is_past now c}"
  by (auto simp: past_of_def is_past_def)

lemma past_newer: "{d \<in> set (past_of newest now). newer d c} = newer_past newest now c"
  by (auto simp: past_of_set newer_past_def)

lemma foldl_why:
  "foldl (\<lambda>m x. add_why (f x) (w x) m) m xs i = [] \<longleftrightarrow> m i = [] \<and> i \<notin> f ` set xs"
  by (induction xs arbitrary: m) (auto simp: add_why_empty)

lemma last_rule_why:
  "last_rule past p m i = [] \<longleftrightarrow> m i = [] \<and> i \<notin> c_id ` set (take (count_of (kp_last p)) past)"
proof -
  have "(\<lambda>x. c_id (snd x)) ` set (enumerate 0 xs) = c_id ` set xs" for xs :: "candidate list"
    by (metis image_image list.set_map map_snd_enumerate)
  then show ?thesis unfolding last_rule_def case_prod_unfold foldl_why by simp
qed

lemma floor_rule_why:
  "floor_rule past p m i = [] \<longleftrightarrow> m i = [] \<and> \<not> (kp_maxTotalSize p \<noteq> None \<and> kp_last p = None \<and> i \<in> c_id ` set (take 1 past))"
  by (cases past) (auto simp: floor_rule_def add_why_empty)

lemma age_rules_why: "age_rules p now m c i = [] \<longleftrightarrow> m i = [] \<and> \<not> (c_id c = i \<and> wants_age p now c)"
  by (auto simp: age_rules_def wants_age_def add_why_empty Let_def split: option.splits)

lemma foldl_age_why: "foldl (age_rules p now) m cs i = [] \<longleftrightarrow> m i = [] \<and> \<not> (\<exists>c \<in> set cs. c_id c = i \<and> wants_age p now c)"
  by (induction cs arbitrary: m) (auto simp: age_rules_why)

text \<open>One calendar rule's loop: \<open>seen\<close> holds the bucket of the period it saw last.\<close>

lemma calendar_loop_why:
  fixes r defines "b \<equiv> \<lambda>c. bucket r (c_at c)"
  assumes "sorted (map (\<lambda>c. - b c) cs)" "previous = map_option (periodOf r) u" "\<forall>t \<in> set_option u. \<forall>c \<in> set cs. b c \<le> bucket r t"
    "seen = bucket r ` set_option u"
  shows "calendar_loop r left previous cs m i = [] \<longleftrightarrow> m i = [] \<and>
    \<not> (\<exists>xs c ys. cs = xs @ c # ys \<and> c_id c = i \<and> b c \<notin> seen \<union> b ` set xs \<and> card (b ` set xs - seen) < left)"
    (is "_ \<longleftrightarrow> _ \<and> \<not> ?ex cs seen left")
  using assms(2-)
proof (induction cs arbitrary: left previous u seen m)
  case (Cons c cs)
  have split: "(\<exists>xs d ys. c # cs = xs @ d # ys \<and> P xs d) \<longleftrightarrow> P [] c \<or> (\<exists>xs d ys. cs = xs @ d # ys \<and> P (c # xs) d)" for P
    by (auto simp: Cons_eq_append_conv)
  have same: "Some (periodOf r (c_at c)) = previous \<longleftrightarrow> b c \<in> seen"
    using Cons.prems(2,4) by (cases u) (auto simp: b_def same_period)
  consider "left = 0" | "left \<noteq> 0" "b c \<in> seen" | "left \<noteq> 0" "b c \<notin> seen" by blast
  then show ?case
  proof cases
    case 2
    then have l: "calendar_loop r left previous (c # cs) m = calendar_loop r left previous cs m" using same by simp
    have "calendar_loop r left previous cs m i = [] \<longleftrightarrow> m i = [] \<and> \<not> ?ex cs seen left"
      by (rule Cons.IH [OF _ Cons.prems(2)]) (use Cons.prems in auto)
    also have "?ex cs seen left \<longleftrightarrow> (\<exists>xs d ys. cs = xs @ d # ys \<and> c_id d = i \<and> b d \<notin> seen \<union> b ` set (c # xs) \<and> card (b ` set (c # xs) - seen) < left)"
      using 2(2) by (intro ex_cong1 conj_cong refl) auto
    finally show ?thesis unfolding l using 2 by (subst split) simp
  next
    case 3
    let ?m = "add_why (c_id c) (rule_text r @ '' '' @ periodOf r (c_at c)) m"
    have l: "calendar_loop r left previous (c # cs) m = calendar_loop r (left - 1) (Some (periodOf r (c_at c))) cs ?m"
      using 3 same by (simp add: Let_def)
    have below: "b d \<le> b c" if "d \<in> set cs" for d using Cons.prems(1) that by simp
    have "calendar_loop r (left - 1) (Some (periodOf r (c_at c))) cs ?m i = [] \<longleftrightarrow> ?m i = [] \<and> \<not> ?ex cs {b c} (left - 1)"
      by (rule Cons.IH [where u = "Some (c_at c)"]) (use Cons.prems below in \<open>auto simp: b_def\<close>)
    also have "?ex cs {b c} (left - 1) \<longleftrightarrow> (\<exists>xs d ys. cs = xs @ d # ys \<and> c_id d = i \<and> b d \<notin> seen \<union> b ` set (c # xs) \<and> card (b ` set (c # xs) - seen) < left)"
    proof -
      have *: "b d \<notin> seen \<and> b ` set (c # xs) - seen = insert (b c) (b ` set xs - {b c})" if "cs = xs @ d # ys" for xs d ys
      proof -
        have "b e \<notin> seen" if "e \<in> set (c # cs)" for e
        proof -
          have "b e \<le> b c" using below [of e] that by auto
          then show ?thesis using Cons.prems(3,4) 3(2) by (cases u) fastforce+
        qed
        then show ?thesis using that by auto
      qed
      have "card (insert (b c) (b ` set xs - {b c})) = Suc (card (b ` set xs - {b c}))" for xs
        using card.insert_remove [of "b ` set xs" "b c"] by simp
      with * 3(1) show ?thesis by (intro ex_cong1 conj_cong refl) (auto simp del: card_insert_disjoint)
    qed
    finally show ?thesis unfolding l using 3 by (subst split) (auto simp: add_why_empty)
  qed simp
qed simp

lemma calendar_rule_why:
  assumes "in_order newest"
  shows "calendar_rule (past_of newest now) p m r i = [] \<longleftrightarrow> m i = [] \<and> \<not> (\<exists>c \<in> set newest. c_id c = i \<and> wants_calendar newest p now r c)"
proof -
  let ?past = "past_of newest now" and ?b = "\<lambda>c. bucket r (c_at c)"
  have ord: "in_order ?past" by (rule past_of_order [OF assms])
  have "sorted (map (\<lambda>c. - ?b c) ?past)"
  proof -
    have "moment_of c \<le> moment_of d \<Longrightarrow> - ?b c \<le> - ?b d" for c d
      by (auto simp: moment_of_def less_eq_moment_def intro: bucket_mono)
    moreover have "sorted_wrt (\<lambda>c d. moment_of c \<le> moment_of d) ?past" using ord unfolding in_order_def sorted_wrt_map by simp
    ultimately show ?thesis unfolding sorted_wrt_map by (rule sorted_wrt_mono_rel)
  qed
  from calendar_loop_why [OF this, of None None "{}"]
  have "calendar_rule ?past p m r i = [] \<longleftrightarrow> m i = [] \<and> \<not> (\<exists>xs c ys. ?past = xs @ c # ys \<and> c_id c = i \<and>
      ?b c \<notin> ?b ` set xs \<and> card (?b ` set xs) < count_of (rule_count p r))"
    by (simp add: calendar_rule_def)
  moreover have e: "(\<exists>xs c ys. ?past = xs @ c # ys \<and> c_id c = i \<and> Q c (set xs)) \<longleftrightarrow>
      (\<exists>c \<in> set newest. c_id c = i \<and> is_past now c \<and> Q c (newer_past newest now c))" for Q
  proof -
    have n: "set xs = newer_past newest now c" if "?past = xs @ c # ys" for xs c ys
      using before_newer [of xs c ys] ord past_newer [of newest now c] unfolding that [symmetric] by simp
    have m: "c \<in> set newest \<and> is_past now c \<longleftrightarrow> (\<exists>xs ys. ?past = xs @ c # ys)" for c
      using past_of_set [of newest now] in_set_conv_decomp [of c ?past] by simp
    show ?thesis
    proof
      assume "\<exists>xs c ys. ?past = xs @ c # ys \<and> c_id c = i \<and> Q c (set xs)"
      then obtain xs c ys where c: "?past = xs @ c # ys" "c_id c = i" "Q c (set xs)" by blast
      then show "\<exists>c \<in> set newest. c_id c = i \<and> is_past now c \<and> Q c (newer_past newest now c)" using n [OF c(1)] m [of c] by auto
    next
      assume "\<exists>c \<in> set newest. c_id c = i \<and> is_past now c \<and> Q c (newer_past newest now c)"
      then obtain c where c: "c \<in> set newest \<and> is_past now c" "c_id c = i" "Q c (newer_past newest now c)" by blast
      then obtain xs ys where p: "?past = xs @ c # ys" using m by blast
      show "\<exists>xs c ys. ?past = xs @ c # ys \<and> c_id c = i \<and> Q c (set xs)"
        using p c(2,3) unfolding n [OF p, symmetric] by blast
    qed
  qed
  moreover note e [of "\<lambda>c S. ?b c \<notin> ?b ` S \<and> card (?b ` S) < count_of (rule_count p r)"]
  ultimately show ?thesis unfolding wants_calendar_def by metis
qed

lemma foldl_calendar_why:
  assumes "in_order newest"
  shows "foldl (calendar_rule (past_of newest now) p) m rs i = [] \<longleftrightarrow>
    m i = [] \<and> \<not> (\<exists>r \<in> set rs. \<exists>c \<in> set newest. c_id c = i \<and> wants_calendar newest p now r c)"
  by (induction rs arbitrary: m) (auto simp: calendar_rule_why [OF assms])

lemma CALENDAR_all: "r \<in> set CALENDAR"
  by (cases r) (simp_all add: CALENDAR_def)

lemma take_past:
  assumes "in_order newest"
  shows "i \<in> c_id ` set (take n (past_of newest now)) \<longleftrightarrow>
    (\<exists>c \<in> set newest. c_id c = i \<and> is_past now c \<and> card (newer_past newest now c) < n)"
proof -
  have "c \<in> set (take n (past_of newest now)) \<longleftrightarrow> c \<in> set newest \<and> is_past now c \<and> card (newer_past newest now c) < n" for c
  proof -
    have "c \<in> set (take n (past_of newest now)) \<longleftrightarrow> c \<in> set (past_of newest now) \<and> card {d \<in> set (past_of newest now). newer d c} < n"
      using take_newer [OF past_of_order [OF assms]] in_set_takeD by fast
    then show ?thesis unfolding past_newer by (simp add: past_of_set)
  qed
  then show ?thesis by (auto simp: image_iff)
qed

lemma newer_past_empty: "newer_past newest now c = {} \<longleftrightarrow> card (newer_past newest now c) < 1"
  by (simp add: newer_past_def)

theorem byRules_why:
  assumes "in_order newest"
  shows "byRules newest p now i = [] \<longleftrightarrow> \<not> wanted_id newest p now i"
  unfolding byRules_def Let_def foldl_age_why foldl_calendar_why [OF assms] floor_rule_why last_rule_why take_past [OF assms]
    wanted_id_def wanted_def wants_last_def wants_floor_def newer_past_empty
  using CALENDAR_all by blast

lemma wanted_newest_first: "wanted (newest_first cs) = wanted cs"
  unfolding wanted_def wants_last_def wants_floor_def wants_calendar_def newer_past_def by simp

lemma wanted_id_newest_first: "wanted_id (newest_first cs) = wanted_id cs"
  unfolding wanted_id_def wanted_newest_first by simp

lemma needed_cong:
  assumes "set a = set b" "\<And>i. base i = base' i"
  shows "needed a base i = needed b base' i"
proof -
  have "needed a base i \<Longrightarrow> set a = set b \<Longrightarrow> (\<And>i. base i \<Longrightarrow> base' i) \<Longrightarrow> needed b base' i" for a b base base' i
    by (induction rule: needed.induct) (auto intro: needed.intros)
  then show ?thesis using assms by metis
qed

section \<open>What is kept\<close>

definition kept_ids :: "plan_result \<Rightarrow> string set" where
  "kept_ids pl = d_id ` set (kept pl)"

definition dropped_of :: "candidate list \<Rightarrow> keep_policy \<Rightarrow> int \<Rightarrow> string set \<times> bool" where
  "dropped_of newest p now = (case kp_maxTotalSize p of None \<Rightarrow> ({}, False)
     | Some limt \<Rightarrow> size_loop newest (byRules newest p now) p now limt {})"

lemma kept_ids_plan:
  "kept_ids (plan_backups cs p now) = {i \<in> c_id ` set cs. withParents (newest_first cs) (byRules (newest_first cs) p now) (fst (dropped_of (newest_first cs) p now)) i \<noteq> []}"
  by (auto simp: kept_ids_def plan_backups_def dropped_of_def decide_def Let_def image_image split: prod.splits option.splits)

lemma kept_needed:
  assumes "distinct (map c_id cs)"
  shows "i \<in> kept_ids (plan_backups cs p now) \<longleftrightarrow>
    i \<in> c_id ` set cs \<and> needed cs (\<lambda>i. i \<notin> fst (dropped_of (newest_first cs) p now) \<and> wanted_id cs p now i) i"
proof -
  note d = newest_first_distinct [OF assms]
  have "needed (newest_first cs) (\<lambda>j. j \<notin> D \<and> byRules (newest_first cs) p now j \<noteq> []) i =
      needed cs (\<lambda>j. j \<notin> D \<and> wanted_id cs p now j) i" for D
    by (rule needed_cong) (simp_all add: byRules_why [OF in_order_newest [OF assms]] wanted_id_newest_first)
  then show ?thesis unfolding kept_ids_plan withParents_needed [OF d] by simp
qed

text \<open>C20. Without a size limit the plan keeps exactly what the rules want, read declaratively, and
  what that builds on: the newest \<open>last\<close>, the newest of each of the first periods of a calendar rule,
  what is young enough, held or newer than now, and every ancestor of these.\<close>

theorem plan_keeps_exactly:
  assumes "distinct (map c_id cs)" "kp_maxTotalSize p = None"
  shows "i \<in> kept_ids (plan_backups cs p now) \<longleftrightarrow> i \<in> c_id ` set cs \<and> needed cs (wanted_id cs p now) i"
  using kept_needed [OF assms(1), of i p now] assms(2) by (simp add: dropped_of_def)

definition ex_candidates :: "candidate list" where
  "ex_candidates = [\<lparr>c_id = ''a'', c_at = 0, c_size = 5, c_parent = None, c_held = False, c_standIn = False\<rparr>,
     \<lparr>c_id = ''b'', c_at = 1000, c_size = 2, c_parent = Some ''a'', c_held = False, c_standIn = False\<rparr>,
     \<lparr>c_id = ''c'', c_at = 2000, c_size = 4, c_parent = None, c_held = False, c_standIn = False\<rparr>]"

definition ex_policy :: "nat option \<Rightarrow> int option \<Rightarrow> keep_policy" where
  "ex_policy n m = \<lparr>kp_last = n, kp_hourly = None, kp_daily = None, kp_weekly = None, kp_monthly = None, kp_yearly = Some 1,
     kp_within = None, kp_maxTotalSize = m\<rparr>"

theorem plan_keeps_exactly_witness:
  "''c'' \<in> kept_ids (plan_backups ex_candidates (ex_policy (Some 2) None) 3000) \<longleftrightarrow>
    needed ex_candidates (wanted_id ex_candidates (ex_policy (Some 2) None) 3000) ''c''"
  using plan_keeps_exactly [of ex_candidates "ex_policy (Some 2) None" "''c''" 3000] by (simp add: ex_candidates_def ex_policy_def)

section \<open>What never goes, and the size\<close>

definition stays :: "candidate list \<Rightarrow> keep_policy \<Rightarrow> int \<Rightarrow> candidate \<Rightarrow> bool" where
  "stays cs p now c = (c_held c \<or> c_at c > now \<or> wants_last cs p now c \<or> wants_floor cs p now c)"

lemma id_unique: "distinct (map c_id cs) \<Longrightarrow> c \<in> set cs \<Longrightarrow> d \<in> set cs \<Longrightarrow> c_id c = c_id d \<Longrightarrow> c = d"
  by (simp add: distinct_map inj_on_def)

lemma floor_stays:
  assumes "distinct (map c_id newest)" "in_order newest" "c \<in> set newest" "kp_maxTotalSize p \<noteq> None"
  shows "c_id c \<in> set (floor_ids newest p now) \<longleftrightarrow> wants_last newest p now c \<or> wants_floor newest p now c"
proof -
  have "c_id c \<in> set (floor_ids newest p now) \<longleftrightarrow>
      (\<exists>d \<in> set newest. c_id d = c_id c \<and> is_past now d \<and> card (newer_past newest now d) < (case kp_last p of None \<Rightarrow> 1 | Some n \<Rightarrow> n))"
    using take_past [OF assms(2)] by (auto simp: floor_ids_def)
  also have "\<dots> \<longleftrightarrow> is_past now c \<and> card (newer_past newest now c) < (case kp_last p of None \<Rightarrow> 1 | Some n \<Rightarrow> n)"
    using id_unique [OF assms(1)] assms(3) by blast
  also have "\<dots> \<longleftrightarrow> wants_last newest p now c \<or> wants_floor newest p now c"
    using assms(4) newer_past_empty [of newest now c] by (auto simp: wants_last_def wants_floor_def count_of_def split: option.splits)
  finally show ?thesis .
qed

lemma droppable_free:
  assumes "distinct (map c_id newest)" "in_order newest" "kp_maxTotalSize p \<noteq> None" "droppable newest m p now = Some c"
  shows "c \<in> set newest \<and> \<not> stays newest p now c"
  using assms(4) droppable_kept [OF assms(4)] floor_stays [OF assms(1,2) _ assms(3)]
  by (auto simp: droppable_def stays_def Let_def dest!: find_Some_in)

lemma droppable_None:
  assumes "distinct (map c_id newest)" "in_order newest" "kp_maxTotalSize p \<noteq> None" "droppable newest m p now = None"
    "c \<in> set newest" "m (c_id c) \<noteq> []"
  shows "stays newest p now c \<or> (\<exists>k \<in> set newest. m (c_id k) \<noteq> [] \<and> c_parent k = Some (c_id c))"
  using assms(4-6) floor_stays [OF assms(1,2,5,3)]
  by (auto simp: droppable_def stays_def Let_def find_None_all kept_of_def list_ex_iff)

definition size_goal :: "candidate list \<Rightarrow> reasons \<Rightarrow> keep_policy \<Rightarrow> int \<Rightarrow> int \<Rightarrow> string set \<times> bool \<Rightarrow> bool" where
  "size_goal newest byRule p now limt r = (let m = withParents newest byRule (fst r) in
     (\<forall>c \<in> set newest. c_id c \<in> fst r \<longrightarrow> \<not> stays newest p now c) \<and>
     (if snd r then droppable newest m p now = None \<and> limt < total_of newest m else total_of newest m \<le> limt))"

lemma size_loop_inv:
  assumes "distinct (map c_id newest)" "in_order newest" "kp_maxTotalSize p \<noteq> None"
    and "\<forall>c \<in> set newest. c_id c \<in> dropped \<longrightarrow> \<not> stays newest p now c"
  shows "size_goal newest byRule p now limt (size_loop newest byRule p now limt dropped)"
  using assms
proof (induction newest byRule p now limt dropped rule: size_loop.induct)
  case (1 newest byRule p now limt dropped)
  let ?m = "withParents newest byRule dropped"
  consider "total_of newest ?m \<le> limt" | "\<not> total_of newest ?m \<le> limt" "droppable newest ?m p now = None"
    | c where "\<not> total_of newest ?m \<le> limt" "droppable newest ?m p now = Some c" by (cases "droppable newest ?m p now") auto
  then show ?case
  proof cases
    case 1
    then show ?thesis using "1.prems"(4) by (simp add: size_loop.simps size_goal_def Let_def)
  next
    case 2
    then show ?thesis using "1.prems"(4) by (simp add: size_loop.simps size_goal_def Let_def)
  next
    case (3 c)
    have "c \<in> set newest \<and> \<not> stays newest p now c" by (rule droppable_free [OF "1.prems"(1-3) 3(2)])
    then have "\<forall>d \<in> set newest. c_id d \<in> insert (c_id c) dropped \<longrightarrow> \<not> stays newest p now d"
      using "1.prems"(1,4) id_unique by blast
    from "1.IH" [OF refl 3 "1.prems"(1-3) this] show ?thesis using 3 by (simp add: size_loop.simps [of newest byRule p now limt dropped])
  qed
qed

lemma dropped_goal:
  assumes "distinct (map c_id cs)" "kp_maxTotalSize p = Some limt"
  shows "size_goal (newest_first cs) (byRules (newest_first cs) p now) p now limt (dropped_of (newest_first cs) p now)"
  using size_loop_inv [OF newest_first_distinct [OF assms(1)] in_order_newest [OF assms(1)]] assms(2) by (simp add: dropped_of_def)

lemma stays_newest_first: "stays (newest_first cs) = stays cs"
  unfolding stays_def wants_last_def wants_floor_def newer_past_def by simp

lemma dropped_not_stays:
  assumes "distinct (map c_id cs)" "c \<in> set cs" "stays cs p now c"
  shows "c_id c \<notin> fst (dropped_of (newest_first cs) p now)"
proof (cases "kp_maxTotalSize p")
  case (Some limt)
  show ?thesis using dropped_goal [OF assms(1) Some, of now] assms(2,3) by (auto simp: size_goal_def Let_def stays_newest_first)
qed (simp add: dropped_of_def)

lemma stays_wanted: "stays cs p now c \<Longrightarrow> c \<in> set cs \<Longrightarrow> wanted_id cs p now (c_id c)"
  by (auto simp: stays_def wanted_id_def wanted_def wants_age_def)

definition total_kept :: "plan_result \<Rightarrow> int" where
  "total_kept pl = sum_list (map d_size (kept pl))"

lemma kept_stays:
  assumes "distinct (map c_id cs)" "c \<in> set cs" "stays cs p now c"
  shows "c_id c \<in> kept_ids (plan_backups cs p now)"
  unfolding kept_needed [OF assms(1)]
  using dropped_not_stays [OF assms] stays_wanted [OF assms(3,2)] assms(2) by (auto intro: needed_base)

lemma kept_parent:
  assumes "distinct (map c_id cs)" "c \<in> set cs" "c_id c \<in> kept_ids (plan_backups cs p now)" "c_parent c = Some i" "i \<in> c_id ` set cs"
  shows "i \<in> kept_ids (plan_backups cs p now)"
  using assms(2-5) unfolding kept_needed [OF assms(1)] by (auto intro: needed_parent)

lemma map_decide: "d_id \<circ> (\<lambda>c. decide c (w c)) = c_id"
  by (simp add: decide_def comp_def)

text \<open>C19. Under every policy, the size rule included, a plan decides each backup once, and keeps the
  held ones, the ones newer than now, the floor (the newest \<open>last\<close>, or the newest under a size limit)
  and every backup a kept one builds on.\<close>

theorem plan_keeps_safe:
  assumes "distinct (map c_id cs)"
  shows "mset (map d_id (kept (plan_backups cs p now) @ removed (plan_backups cs p now))) = mset (map c_id cs) \<and>
    (\<forall>c \<in> set cs. c_held c \<or> c_at c > now \<or> wants_last cs p now c \<or> wants_floor cs p now c \<longrightarrow> c_id c \<in> kept_ids (plan_backups cs p now)) \<and>
    (\<forall>c \<in> set cs. \<forall>i \<in> c_id ` set cs. c_id c \<in> kept_ids (plan_backups cs p now) \<and> c_parent c = Some i \<longrightarrow> i \<in> kept_ids (plan_backups cs p now))"
proof (intro conjI)
  have e: "mset (map c_id (filter (\<lambda>c. m (c_id c) \<noteq> []) xs)) + mset (map c_id (filter (\<lambda>c. m (c_id c) = []) xs)) = mset (map c_id xs)"
    for m :: reasons and xs by (induction xs) auto
  then show "mset (map d_id (kept (plan_backups cs p now) @ removed (plan_backups cs p now))) = mset (map c_id cs)"
    by (simp add: plan_backups_def Let_def map_decide e del: mset_map split: prod.splits) simp
  show "\<forall>c \<in> set cs. c_held c \<or> c_at c > now \<or> wants_last cs p now c \<or> wants_floor cs p now c \<longrightarrow> c_id c \<in> kept_ids (plan_backups cs p now)"
    using kept_stays [OF assms] unfolding stays_def by blast
qed (use kept_parent [OF assms] in blast)

theorem plan_keeps_safe_witness:
  "mset (map d_id (kept (plan_backups ex_candidates (ex_policy None (Some 3)) 3000) @ removed (plan_backups ex_candidates (ex_policy None (Some 3)) 3000)))
     = {#''a'', ''b'', ''c''#}"
  using plan_keeps_safe [of ex_candidates "ex_policy None (Some 3)" 3000] by (simp add: ex_candidates_def)

text \<open>C21. The size rule: when a plan does not say it is over, what it keeps fits the limit; when it
  does, what it keeps is over, and nothing of it could go: each kept backup is held, newer than now, of
  the floor, or the parent of a kept one.\<close>

theorem plan_size:
  assumes "distinct (map c_id cs)" "kp_maxTotalSize p = Some limt"
  shows "if overSize (plan_backups cs p now)
    then limt < total_kept (plan_backups cs p now) \<and>
      (\<forall>c \<in> set cs. c_id c \<in> kept_ids (plan_backups cs p now) \<longrightarrow> stays cs p now c \<or>
        (\<exists>k \<in> set cs. c_id k \<in> kept_ids (plan_backups cs p now) \<and> c_parent k = Some (c_id c)))
    else total_kept (plan_backups cs p now) \<le> limt"
proof -
  let ?n = "newest_first cs" and ?pl = "plan_backups cs p now"
  let ?m = "withParents ?n (byRules ?n p now) (fst (dropped_of ?n p now))"
  have t: "total_kept ?pl = total_of ?n ?m" "overSize ?pl = snd (dropped_of ?n p now)"
    by (simp_all add: total_kept_def total_of_def kept_of_def plan_backups_def dropped_of_def decide_def assms(2) Let_def comp_def split: prod.splits)
  have k: "c_id c \<in> kept_ids ?pl \<longleftrightarrow> ?m (c_id c) \<noteq> []" if "c \<in> set cs" for c using that by (simp add: kept_ids_plan)
  show ?thesis
  proof (cases "overSize ?pl")
    case True
    then have g: "droppable ?n ?m p now = None" "limt < total_of ?n ?m"
      using dropped_goal [OF assms, of now] t(2) by (simp_all add: size_goal_def Let_def)
    have "stays cs p now c \<or> (\<exists>k \<in> set cs. c_id k \<in> kept_ids ?pl \<and> c_parent k = Some (c_id c))"
      if "c \<in> set cs" "c_id c \<in> kept_ids ?pl" for c
      using droppable_None [OF newest_first_distinct [OF assms(1)] in_order_newest [OF assms(1)] _ g(1), of c] that k assms(2)
      by (auto simp: stays_newest_first)
    then show ?thesis using True g(2) t(1) by simp
  next
    case False
    then show ?thesis using dropped_goal [OF assms, of now] t by (simp add: size_goal_def Let_def)
  qed
qed

theorem plan_size_witness:
  "if overSize (plan_backups ex_candidates (ex_policy None (Some 3)) 3000)
    then 3 < total_kept (plan_backups ex_candidates (ex_policy None (Some 3)) 3000)
    else total_kept (plan_backups ex_candidates (ex_policy None (Some 3)) 3000) \<le> 3"
  using plan_size [of ex_candidates "ex_policy None (Some 3)" 3 3000] by (auto simp: ex_candidates_def ex_policy_def split: if_splits)

end
