(* ===== verification/Backup_Prune.thy ===== *)
theory Backup_Prune
  imports Backup_Plan Backup_Chain
begin

text \<open>
  Pruning and holds: \<open>packages/backup/src/rotation/prune.ts\<close> and \<open>rotation/holds.ts\<close>. The lease is the number
  of writes it still lasts for: each delete and each put checks it first, and one that ran out stops
  the call there. A prune that is stopped has done a prefix of its deletes.
\<close>

section \<open>What is under a backup's prefix\<close>

definition under :: "bctx \<Rightarrow> string \<Rightarrow> string" where
  "under ctx key = drop (length (x_backup ctx) + 1) key"

definition owner :: "bctx \<Rightarrow> string \<Rightarrow> string" where
  "owner ctx key = hd (split_slash (under ctx key))"

definition scan_key :: "bctx \<Rightarrow> (string \<times> string list) list \<Rightarrow> string \<Rightarrow> (string \<times> string list) list" where
  "scan_key ctx m key = (let i = owner ctx key in if \<not> id_text i then m
     else AList.update i ((case map_of m i of None \<Rightarrow> [] | Some ks \<Rightarrow> ks) @ [key]) m)"

definition scan :: "bctx \<Rightarrow> repo \<Rightarrow> (string \<times> string list) list" where
  "scan ctx r = foldl (scan_key ctx) [] (repo_list r (x_backup ctx @ ''/''))"

section \<open>Holds\<close>

definition HOLDS :: string where "HOLDS = ''holds''"
definition HOLD_FORMAT :: string where "HOLD_FORMAT = ''nxgt-backup-hold/1''"

definition holdKey :: "bctx \<Rightarrow> string \<Rightarrow> string" where
  "holdKey ctx i = x_backup ctx @ ''/'' @ HOLDS @ ''/'' @ i @ ''.json''"

definition held_name :: "bctx \<Rightarrow> string \<Rightarrow> string option" where
  "held_name ctx key = (let name = drop (length (x_backup ctx @ ''/'' @ HOLDS @ ''/'')) key in
     if ends_with ''.json'' name \<and> CHR ''/'' \<notin> set name then Some (take (length name - 5) name) else None)"

definition heldIds :: "bctx \<Rightarrow> repo \<Rightarrow> string set" where
  "heldIds ctx r = set (List.map_filter (held_name ctx) (repo_list r (x_backup ctx @ ''/'' @ HOLDS @ ''/'')))"

text \<open>One repository of a hold: what it holds, the error its lock would be refused with, and how many
  writes the lease lasts for.\<close>

record hrepo =
  hr_name :: string
  hr_repo :: repo
  hr_lock :: "berr option"
  hr_alive :: nat

definition lease_lost :: "bctx \<Rightarrow> string \<Rightarrow> string \<Rightarrow> string \<Rightarrow> berr" where
  "lease_lost ctx call i n = BErr LEASE_LOST (Some i) (Some n)
     (call @ '' on \"'' @ x_backup ctx @ ''\": the lock's lease ran out before it was done (repository \"'' @ n @ ''\")'')"

definition hold_text :: "string \<Rightarrow> int \<Rightarrow> string" where
  "hold_text i now = ''{\"format\":\"'' @ HOLD_FORMAT @ ''\",\"id\":\"'' @ i @ ''\",\"heldAt\":\"'' @ iso_string now @ ''\"}'' @ [CHR 0x0A]"

definition holdIn :: "outside \<Rightarrow> bctx \<Rightarrow> string \<Rightarrow> int \<Rightarrow> hrepo \<Rightarrow> bool bres \<times> hrepo" where
  "holdIn w ctx i now s = (case hr_lock s of Some e \<Rightarrow> (Inl e, s)
     | None \<Rightarrow> (case fetchManifest w ctx \<lparr>t_call = ''hold'', t_id = i, t_name = hr_name s, t_repo = hr_repo s\<rparr> of
         Inl e \<Rightarrow> (if is_not_found e then Inr False else Inl e, s)
       | Inr m \<Rightarrow> if hr_alive s = 0 then (Inl (lease_lost ctx ''hold'' i (hr_name s)), s)
           else (Inr True, s\<lparr>hr_repo := repo_put (holdKey ctx i) (hold_text i now) (hr_repo s)\<rparr>)))"

definition unholdIn :: "bctx \<Rightarrow> string \<Rightarrow> hrepo \<Rightarrow> bool bres \<times> hrepo" where
  "unholdIn ctx i s = (case hr_lock s of Some e \<Rightarrow> (Inl e, s)
     | None \<Rightarrow> if hr_alive s = 0 then (Inl (lease_lost ctx ''unhold'' i (hr_name s)), s)
         else (Inr True, s\<lparr>hr_repo := repo_delete (holdKey ctx i) (hr_repo s)\<rparr>))"

text \<open>Each target in turn; the first error stops the call, what was done stays.\<close>

fun in_turn :: "(hrepo \<Rightarrow> bool bres \<times> hrepo) \<Rightarrow> (string \<Rightarrow> bool) \<Rightarrow> hrepo list \<Rightarrow> string list bres \<times> hrepo list" where
  "in_turn f target [] = (Inr [], [])"
| "in_turn f target (s # ss) = (if \<not> target (hr_name s) then (case in_turn f target ss of (r, ss') \<Rightarrow> (r, s # ss'))
     else (case f s of (Inl e, s') \<Rightarrow> (Inl e, s' # ss)
       | (Inr did, s') \<Rightarrow> (case in_turn f target ss of (r, ss') \<Rightarrow> (bbind r (\<lambda>ns. Inr (if did then hr_name s # ns else ns)), s' # ss'))))"

definition targets :: "bctx \<Rightarrow> string \<Rightarrow> string option \<Rightarrow> string \<Rightarrow> (string \<Rightarrow> bool) bres" where
  "targets ctx i frm call = bbind (bguard (id_text i) (BType (call @ '' on \"'' @ x_backup ctx @ ''\": the id is not a backup id''))) (\<lambda>_.
     (case frm of None \<Rightarrow> Inr (\<lambda>n. n \<in> set (x_repositories ctx))
       | Some f \<Rightarrow> bbind (repositoryOf ctx (Some f) call) (\<lambda>n. Inr (\<lambda>m. m = n))))"

definition holdBackup :: "outside \<Rightarrow> bctx \<Rightarrow> string \<Rightarrow> string option \<Rightarrow> int \<Rightarrow> hrepo list \<Rightarrow> string list bres \<times> hrepo list" where
  "holdBackup w ctx i frm now ss = (case targets ctx i frm ''hold'' of Inl e \<Rightarrow> (Inl e, ss)
     | Inr target \<Rightarrow> (case in_turn (holdIn w ctx i now) target ss of (r, ss') \<Rightarrow>
         (bbind r (\<lambda>done. if done = [] then Inl (BErr NOT_FOUND (Some i) None (''hold on \"'' @ x_backup ctx @ ''\": no repository holds that backup'')) else Inr done), ss')))"

definition unholdBackup :: "bctx \<Rightarrow> string \<Rightarrow> string option \<Rightarrow> hrepo list \<Rightarrow> string list bres \<times> hrepo list" where
  "unholdBackup ctx i frm ss = (case targets ctx i frm ''unhold'' of Inl e \<Rightarrow> (Inl e, ss)
     | Inr target \<Rightarrow> in_turn (unholdIn ctx i) target ss)"

section \<open>The candidates of a prune\<close>

definition parentOfUnreadable :: "outside \<Rightarrow> bctx \<Rightarrow> site \<Rightarrow> string option" where
  "parentOfUnreadable w ctx t = (case repo_get (t_repo t) (keyOf ctx (t_id t) MANIFEST) of None \<Rightarrow> None
     | Some bytes \<Rightarrow> (case o_json w (upTo MANIFEST_MAX_BYTES bytes) of None \<Rightarrow> None
       | Some v \<Rightarrow> (case text_of (jget v ''parent'') of None \<Rightarrow> None
         | Some p \<Rightarrow> if id_text p \<and> p < t_id t then Some p else None)))"

definition candidate_of :: "string set \<Rightarrow> string \<Rightarrow> manifest \<Rightarrow> candidate" where
  "candidate_of held i m = \<lparr>c_id = i, c_at = (case iso_time (m_createdAt m) of Some c \<Rightarrow> c | None \<Rightarrow> 0),
     c_size = sum_list (map so_size (m_catalog m # m_objects m)), c_parent = m_parent m, c_held = (i \<in> held), c_standIn = False\<rparr>"

text \<open>The one that stands in for a backup that does not read. An id whose digits are not a date, which no
  create makes, is taken at the epoch: held and a stand-in, it is kept and counted by no rule either way.\<close>

definition stand_in :: "string \<Rightarrow> string option \<Rightarrow> candidate" where
  "stand_in i p = \<lparr>c_id = i, c_at = (case timeOfId i of Some c \<Rightarrow> c | None \<Rightarrow> 0), c_size = 0, c_parent = p, c_held = True, c_standIn = True\<rparr>"

fun candidatesOf :: "outside \<Rightarrow> bctx \<Rightarrow> site \<Rightarrow> string set \<Rightarrow> string list \<Rightarrow> (candidate list \<times> string list) bres" where
  "candidatesOf w ctx t held [] = Inr ([], [])"
| "candidatesOf w ctx t held (i # is) = (case fetchManifest w ctx (t\<lparr>t_id := i\<rparr>) of
     Inr m \<Rightarrow> bbind (candidatesOf w ctx t held is) (\<lambda>(cs, bad). Inr (candidate_of held i m # cs, bad))
   | Inl (BErr code x y z) \<Rightarrow> if code = NOT_FOUND then candidatesOf w ctx t held is
       else if code \<noteq> INTEGRITY \<and> code \<noteq> SIGNATURE then Inl (BErr code x y z)
       else bbind (candidatesOf w ctx t held is) (\<lambda>(cs, bad). Inr (stand_in i (parentOfUnreadable w ctx (t\<lparr>t_id := i\<rparr>)) # cs, i # bad))
   | Inl e \<Rightarrow> Inl e)"

section \<open>The options\<close>

datatype moment_given = NowGiven int | BadDate

definition checkOptions :: "bctx \<Rightarrow> jv option \<Rightarrow> moment_given option \<Rightarrow> jv option \<Rightarrow> (keep_policy \<times> int) bres" where
  "checkOptions ctx keep now after =
     bbind (case checkPolicy keep (''prune on \"'' @ x_backup ctx @ ''\"'') of Inl e \<Rightarrow> Inl (BType e) | Inr p \<Rightarrow> Inr p) (\<lambda>p.
     bbind (bguard (now \<noteq> Some BadDate) (BType (''prune on \"'' @ x_backup ctx @ ''\": now must be a valid Date''))) (\<lambda>_.
       let a = (case after of None \<Rightarrow> Some (JNum DAY) | Some v \<Rightarrow> Some v) in
       bbind (bguard (whole_from (2 * x_lease ctx) a)
         (BType (''prune on \"'' @ x_backup ctx @ ''\": incompleteAfter must be a whole number of milliseconds, two lock leases at least''))) (\<lambda>_.
       Inr (p, num_of a))))"

section \<open>The prune\<close>

record decided =
  de_byId :: "(string \<times> string list) list"
  de_unreadable :: "string list"
  de_incomplete :: "string list"
  de_kept :: "decision list"
  de_removed :: "decision list"
  de_over :: bool

definition complete_ids :: "bctx \<Rightarrow> (string \<times> string list) list \<Rightarrow> string list" where
  "complete_ids ctx byId = map fst (filter (\<lambda>(i, ks). keyOf ctx i MANIFEST \<in> set ks) byId)"

definition incomplete_ids :: "int \<Rightarrow> int \<Rightarrow> (string \<times> string list) list \<Rightarrow> string list \<Rightarrow> string list" where
  "incomplete_ids clock after byId complete = sort (filter (\<lambda>i. i \<notin> set complete \<and>
     (case timeOfId i of None \<Rightarrow> False | Some t \<Rightarrow> clock - t \<ge> after)) (map fst byId))"

definition decide_prune :: "outside \<Rightarrow> bctx \<Rightarrow> site \<Rightarrow> keep_policy \<Rightarrow> int \<Rightarrow> int \<Rightarrow> int \<Rightarrow> decided bres" where
  "decide_prune w ctx t p now clock after = (let byId = scan ctx (t_repo t); complete = complete_ids ctx byId in
     bbind (candidatesOf w ctx t (heldIds ctx (t_repo t)) (sort complete)) (\<lambda>(cs, bad).
       let pl = plan_backups cs p now; shown = (\<lambda>d. d_id d \<notin> set bad) in
       Inr \<lparr>de_byId = byId, de_unreadable = bad, de_incomplete = incomplete_ids clock after byId complete,
         de_kept = filter shown (kept pl), de_removed = filter shown (removed pl), de_over = overSize pl\<rparr>))"

definition ordered_keys :: "bctx \<Rightarrow> string \<Rightarrow> string list \<Rightarrow> string list" where
  "ordered_keys ctx i ks = filter (\<lambda>k. k = keyOf ctx i MANIFEST) ks @ filter (\<lambda>k. k \<noteq> keyOf ctx i MANIFEST) ks"

fun delete_keys :: "bctx \<Rightarrow> string \<Rightarrow> string \<Rightarrow> string list \<Rightarrow> nat \<Rightarrow> repo \<Rightarrow> unit bres \<times> nat \<times> repo" where
  "delete_keys ctx n i [] alive r = (Inr (), alive, r)"
| "delete_keys ctx n i (k # ks) alive r = (case alive of 0 \<Rightarrow> (Inl (lease_lost ctx ''prune'' i n), 0, r)
     | Suc a \<Rightarrow> delete_keys ctx n i ks a (repo_delete k r))"

definition removeBackup :: "bctx \<Rightarrow> string \<Rightarrow> string \<Rightarrow> string list \<Rightarrow> nat \<Rightarrow> repo \<Rightarrow> unit bres \<times> nat \<times> repo" where
  "removeBackup ctx n i ks alive r = delete_keys ctx n i (ordered_keys ctx i ks) alive r"

fun remove_each :: "bctx \<Rightarrow> string \<Rightarrow> (string \<times> string list) list \<Rightarrow> string list \<Rightarrow> nat \<Rightarrow> repo \<Rightarrow> unit bres \<times> nat \<times> repo" where
  "remove_each ctx n byId [] alive r = (Inr (), alive, r)"
| "remove_each ctx n byId (i # is) alive r = (case removeBackup ctx n i (case map_of byId i of None \<Rightarrow> [] | Some ks \<Rightarrow> ks) alive r of
     (Inl e, a, r') \<Rightarrow> (Inl e, a, r')
   | (Inr u, a, r') \<Rightarrow> remove_each ctx n byId is a r')"

record pruned =
  pr_repository :: string
  pr_dryRun :: bool
  pr_decided :: decided

text \<open>\<open>lock\<close> is the error the lock is refused with, if it is; \<open>clock\<close> is \<open>Date.now()\<close>.\<close>

definition pruneBackups :: "outside \<Rightarrow> bctx \<Rightarrow> jv option \<Rightarrow> moment_given option \<Rightarrow> jv option \<Rightarrow> string option \<Rightarrow> bool \<Rightarrow> int \<Rightarrow> berr option \<Rightarrow> nat \<Rightarrow> (string \<Rightarrow> repo) \<Rightarrow> pruned bres \<times> (string \<Rightarrow> repo)" where
  "pruneBackups w ctx keep given after frm dryRun clock lock alive repos =
     (case bbind (checkOptions ctx keep given after) (\<lambda>(p, incompleteAfter). bbind (repositoryOf ctx frm ''prune'') (\<lambda>n. Inr (p, incompleteAfter, n))) of
        Inl e \<Rightarrow> (Inl e, repos)
      | Inr (p, incompleteAfter, n) \<Rightarrow>
        (let t = \<lparr>t_call = ''prune'', t_id = [], t_name = n, t_repo = repos n\<rparr>;
             now = (case given of Some (NowGiven g) \<Rightarrow> g | _ \<Rightarrow> clock);
             decided = decide_prune w ctx t p now clock incompleteAfter in
         if dryRun then (bbind decided (\<lambda>d. Inr \<lparr>pr_repository = n, pr_dryRun = True, pr_decided = d\<rparr>), repos)
         else (case lock of Some e \<Rightarrow> (Inl e, repos)
           | None \<Rightarrow> (case decided of Inl e \<Rightarrow> (Inl e, repos)
             | Inr d \<Rightarrow> (case remove_each ctx n (de_byId d) (map d_id (de_removed d) @ de_incomplete d) alive (repos n) of
                 (res, a, r') \<Rightarrow> (bbind res (\<lambda>_. Inr \<lparr>pr_repository = n, pr_dryRun = False, pr_decided = d\<rparr>), repos(n := r')))))))"

section \<open>Listing\<close>

record listing =
  ls_repository :: string
  ls_backups :: "backup_info list"
  ls_unreadable :: "string list"

definition listBackups :: "outside \<Rightarrow> bctx \<Rightarrow> string option \<Rightarrow> (string \<Rightarrow> repo) \<Rightarrow> listing bres" where
  "listBackups w ctx frm repos = bbind (repositoryOf ctx frm ''list'') (\<lambda>n.
     bbind (listed w ctx \<lparr>t_call = ''list'', t_id = [], t_name = n, t_repo = repos n\<rparr> (heldIds ctx (repos n)) (manifestIds ctx (repos n))) (\<lambda>(infos, bad).
       Inr \<lparr>ls_repository = n, ls_backups = infos, ls_unreadable = bad\<rparr>))"

end
