(* ===== verification/Backup_Prune_Safe.thy ===== *)
theory Backup_Prune_Safe
  imports Backup_Prune
begin

text \<open>
  A prune stopped at any of its deletes leaves every backup that still has its manifest whole: its own
  keys and those of the backup it builds on are as they were. A held backup, one that does not read,
  and every key that is not a backup's are never touched.
\<close>

section \<open>The scan groups the keys by their backup\<close>

lemma split_slash_nonempty [simp]: "split_slash s \<noteq> []"
  by (induction s) (auto split: list.splits)

lemma split_slash_hd: "CHR ''/'' \<notin> set a \<Longrightarrow> hd (split_slash (a @ ''/'' @ k)) = a"
proof (induction a)
  case (Cons c a)
  then have "split_slash (a @ ''/'' @ k) \<noteq> []" "hd (split_slash (a @ ''/'' @ k)) = a" "c \<noteq> CHR ''/''" by auto
  then show ?case by (cases "split_slash (a @ ''/'' @ k)") simp_all
qed simp

lemma owner_keyOf [simp]: "id_text i \<Longrightarrow> owner ctx (keyOf ctx i k) = i"
  using split_slash_hd [OF id_text_no_slash, of i k] by (simp add: owner_def under_def keyOf_def)

lemma starts_with_keyOf [simp]: "starts_with (x_backup ctx @ ''/'') (keyOf ctx i k)"
  by (simp add: starts_with_def keyOf_def)

definition keys_of :: "bctx \<Rightarrow> repo \<Rightarrow> string \<Rightarrow> string list" where
  "keys_of ctx r i = filter (\<lambda>k. owner ctx k = i) (repo_list r (x_backup ctx @ ''/''))"

lemma scan_keys_gen:
  "map_of (foldl (scan_key ctx) m ks) i = (if \<not> id_text i \<or> filter (\<lambda>k. owner ctx k = i) ks = [] then map_of m i
     else Some ((case map_of m i of None \<Rightarrow> [] | Some xs \<Rightarrow> xs) @ filter (\<lambda>k. owner ctx k = i) ks)) \<and>
   (distinct (map fst m) \<longrightarrow> distinct (map fst (foldl (scan_key ctx) m ks)))"
proof (induction ks arbitrary: m)
  case (Cons k ks)
  show ?case
    using Cons [of "scan_key ctx m k"] by (auto simp: scan_key_def Let_def update_conv' distinct_update split: option.splits)
qed simp

lemma scan_keys: "map_of (scan ctx r) i = (if \<not> id_text i \<or> keys_of ctx r i = [] then None else Some (keys_of ctx r i))"
  and scan_distinct: "distinct (map fst (scan ctx r))"
  using scan_keys_gen [of ctx "[]" "repo_list r (x_backup ctx @ ''/'')" i] scan_keys_gen [of ctx "[]" "repo_list r (x_backup ctx @ ''/'')"]
  by (simp_all add: scan_def keys_of_def)

lemma keys_of_set: "k \<in> set (keys_of ctx r i) \<longleftrightarrow> repo_get r k \<noteq> None \<and> starts_with (x_backup ctx @ ''/'') k \<and> owner ctx k = i"
  by (auto simp: keys_of_def repo_list_get)

lemma complete_ids_set: "i \<in> set (complete_ids ctx (scan ctx r)) \<longleftrightarrow> id_text i \<and> repo_get r (keyOf ctx i MANIFEST) \<noteq> None"
proof
  assume "i \<in> set (complete_ids ctx (scan ctx r))"
  then obtain ks where "(i, ks) \<in> set (scan ctx r)" "keyOf ctx i MANIFEST \<in> set ks" by (auto simp: complete_ids_def)
  then have "map_of (scan ctx r) i = Some ks" "keyOf ctx i MANIFEST \<in> set ks" using scan_distinct by simp_all
  then show "id_text i \<and> repo_get r (keyOf ctx i MANIFEST) \<noteq> None" by (auto simp: scan_keys keys_of_set split: if_splits)
next
  assume a: "id_text i \<and> repo_get r (keyOf ctx i MANIFEST) \<noteq> None"
  then have k: "keyOf ctx i MANIFEST \<in> set (keys_of ctx r i)" by (simp add: keys_of_set)
  then have "map_of (scan ctx r) i = Some (keys_of ctx r i)" using a by (auto simp: scan_keys)
  then have "(i, keys_of ctx r i) \<in> set (scan ctx r)" by (rule map_of_SomeD)
  then show "i \<in> set (complete_ids ctx (scan ctx r))" using k by (force simp: complete_ids_def)
qed

lemma complete_distinct: "distinct (complete_ids ctx (scan ctx r))"
  by (simp add: complete_ids_def distinct_map_filter scan_distinct)

section \<open>The deletes are a prefix of one list\<close>

definition keys_in :: "(string \<times> string list) list \<Rightarrow> string \<Rightarrow> string list" where
  "keys_in byId i = (case map_of byId i of None \<Rightarrow> [] | Some ks \<Rightarrow> ks)"

definition all_keys :: "bctx \<Rightarrow> (string \<times> string list) list \<Rightarrow> string list \<Rightarrow> string list" where
  "all_keys ctx byId is = concat (map (\<lambda>i. ordered_keys ctx i (keys_in byId i)) is)"

definition delete_all :: "string list \<Rightarrow> repo \<Rightarrow> repo" where
  "delete_all ks r = foldl (\<lambda>r k. repo_delete k r) r ks"

lemma delete_all_get: "repo_get (delete_all ks r) k = (if k \<in> set ks then None else repo_get r k)"
  by (induction ks arbitrary: r) (auto simp: delete_all_def)

lemma delete_keys_prefix: "delete_keys ctx n i ks alive r = (res, a, r') \<Longrightarrow> r' = delete_all (take alive ks) r \<and>
    (case res of Inr u \<Rightarrow> length ks + a = alive | Inl e \<Rightarrow> alive < length ks)"
proof (induction ks arbitrary: alive r)
  case (Cons k ks)
  then show ?case by (cases alive) (auto simp: delete_all_def split: sum.splits)
qed (auto simp: delete_all_def)

lemma delete_all_append: "delete_all (ks @ ls) r = delete_all ls (delete_all ks r)"
  by (simp add: delete_all_def)

lemma remove_each_prefix: "remove_each ctx n byId is alive r = (res, a, r') \<Longrightarrow> \<exists>j. r' = delete_all (take j (all_keys ctx byId is)) r"
proof (induction "is" arbitrary: alive r)
  case Nil
  then show ?case by (auto simp: all_keys_def delete_all_def)
next
  case (Cons i "is")
  let ?ks = "ordered_keys ctx i (keys_in byId i)"
  obtain res1 a1 r1 where one: "delete_keys ctx n i ?ks alive r = (res1, a1, r1)" by (cases "delete_keys ctx n i ?ks alive r")
  note p = delete_keys_prefix [OF one]
  have all: "all_keys ctx byId (i # is) = ?ks @ all_keys ctx byId is" by (simp add: all_keys_def)
  show ?case
  proof (cases res1)
    case (Inl e)
    then have "r' = r1" using Cons.prems one by (simp add: removeBackup_def keys_in_def [symmetric])
    moreover have "alive < length ?ks" using p Inl by simp
    ultimately show ?thesis using p unfolding all by (intro exI [of _ alive]) simp
  next
    case (Inr u)
    then have "remove_each ctx n byId is a1 r1 = (res, a, r')" using Cons.prems one by (simp add: removeBackup_def keys_in_def [symmetric])
    then obtain j where "r' = delete_all (take j (all_keys ctx byId is)) r1" using Cons.IH by blast
    moreover have "r1 = delete_all ?ks r" using p Inr by simp
    ultimately show ?thesis unfolding all by (intro exI [of _ "length ?ks + j"]) (simp add: delete_all_append)
  qed
qed

text \<open>A key of a backup that is still there while its manifest goes first: nothing of it, nor of what
  comes after it, is gone.\<close>

lemma ordered_set [simp]: "set (ordered_keys ctx i ks) = set ks"
  by (auto simp: ordered_keys_def)

lemma manifest_first:
  assumes "distinct is" "\<forall>i \<in> set is. \<forall>k \<in> set (keys_in byId i). owner ctx k = i" "is = as @ i # bs" "id_text i"
    "keyOf ctx i MANIFEST \<in> set (keys_in byId i)" "keyOf ctx i MANIFEST \<notin> set (take j (all_keys ctx byId is))"
    "owner ctx k \<notin> set as"
  shows "k \<notin> set (take j (all_keys ctx byId is))"
proof -
  let ?man = "keyOf ctx i MANIFEST"
  have all: "all_keys ctx byId is = all_keys ctx byId as @ ordered_keys ctx i (keys_in byId i) @ all_keys ctx byId bs"
    using assms(3) by (simp add: all_keys_def)
  obtain rest where ord: "ordered_keys ctx i (keys_in byId i) = ?man # rest"
  proof -
    have "filter (\<lambda>k. k = ?man) (keys_in byId i) \<noteq> []" using assms(5) by (auto simp: filter_empty_conv)
    then obtain x xs where x: "filter (\<lambda>k. k = ?man) (keys_in byId i) = x # xs" by (cases "filter (\<lambda>k. k = ?man) (keys_in byId i)") auto
    then have "x \<in> set (filter (\<lambda>k. k = ?man) (keys_in byId i))" by (metis list.set_intros(1))
    then have "x = ?man" by simp
    then show ?thesis using that x by (simp add: ordered_keys_def)
  qed
  have "j \<le> length (all_keys ctx byId as)"
  proof (rule ccontr)
    assume "\<not> j \<le> length (all_keys ctx byId as)"
    then obtain d where "j - length (all_keys ctx byId as) = Suc d" by (cases "j - length (all_keys ctx byId as)") auto
    then have "?man \<in> set (take j (all_keys ctx byId is))" unfolding all ord by simp
    then show False using assms(6) by simp
  qed
  then have "take j (all_keys ctx byId is) = take j (all_keys ctx byId as)" unfolding all by simp
  moreover have "owner ctx x \<in> set as" if "x \<in> set (all_keys ctx byId as)" for x
    using that assms(2,3) by (auto simp: all_keys_def)
  ultimately show ?thesis using assms(7) by (metis in_set_takeD)
qed

section \<open>The candidates and the plan\<close>

definition here :: "site \<Rightarrow> string \<Rightarrow> site" where
  "here t i = t\<lparr>t_id := i\<rparr>"

lemma candidatesOf_spec:
  assumes "candidatesOf w ctx t held is = Inr (cs, bad)"
  shows "c_id ` set cs \<subseteq> set is" "distinct is \<Longrightarrow> distinct (map c_id cs)"
    "\<forall>c \<in> set cs. (\<exists>m. fetchManifest w ctx (here t (c_id c)) = Inr m \<and> c = candidate_of held (c_id c) m) \<or>
      (c_id c \<in> set bad \<and> c_held c \<and> (\<forall>m. fetchManifest w ctx (here t (c_id c)) \<noteq> Inr m))"
    "\<forall>i \<in> set is. \<forall>m. fetchManifest w ctx (here t i) = Inr m \<longrightarrow> candidate_of held i m \<in> set cs"
    "\<forall>i \<in> set bad. \<forall>m. fetchManifest w ctx (here t i) \<noteq> Inr m"
proof -
  have "c_id ` set cs \<subseteq> set is \<and> (distinct is \<longrightarrow> distinct (map c_id cs)) \<and>
    (\<forall>c \<in> set cs. (\<exists>m. fetchManifest w ctx (here t (c_id c)) = Inr m \<and> c = candidate_of held (c_id c) m) \<or>
      (c_id c \<in> set bad \<and> c_held c \<and> (\<forall>m. fetchManifest w ctx (here t (c_id c)) \<noteq> Inr m))) \<and>
    (\<forall>i \<in> set is. \<forall>m. fetchManifest w ctx (here t i) = Inr m \<longrightarrow> candidate_of held i m \<in> set cs) \<and>
    (\<forall>i \<in> set bad. \<forall>m. fetchManifest w ctx (here t i) \<noteq> Inr m)"
    using assms
  proof (induction "is" arbitrary: cs bad)
    case (Cons i "is")
    show ?case
    proof (cases "fetchManifest w ctx (here t i)")
      case (Inr m)
      then obtain cs' bad' where r: "candidatesOf w ctx t held is = Inr (cs', bad')" "cs = candidate_of held i m # cs'" "bad = bad'"
        using Cons.prems by (auto simp: here_def)
      have "c_id (candidate_of held i m) = i" by (simp add: candidate_of_def)
      then show ?thesis using Cons.IH [OF r(1)] r(2,3) Inr by auto
    next
      case (Inl e)
      then consider "candidatesOf w ctx t held is = Inr (cs, bad)"
        | p cs' bad' where "candidatesOf w ctx t held is = Inr (cs', bad')" "cs = stand_in i p # cs'" "bad = i # bad'"
        using Cons.prems by (cases e) (auto simp: here_def split: if_splits)
      then show ?thesis
      proof cases
        case 1
        show ?thesis using Cons.IH [OF 1] Inl by auto
      next
        case 2
        have s: "c_id (stand_in i p) = i" "c_held (stand_in i p)" by (simp_all add: stand_in_def)
        show ?thesis using Cons.IH [OF 2(1)] 2(2,3) s Inl by auto
      qed
    qed
  qed simp
  then show "c_id ` set cs \<subseteq> set is" "distinct is \<Longrightarrow> distinct (map c_id cs)"
    "\<forall>c \<in> set cs. (\<exists>m. fetchManifest w ctx (here t (c_id c)) = Inr m \<and> c = candidate_of held (c_id c) m) \<or>
      (c_id c \<in> set bad \<and> c_held c \<and> (\<forall>m. fetchManifest w ctx (here t (c_id c)) \<noteq> Inr m))"
    "\<forall>i \<in> set is. \<forall>m. fetchManifest w ctx (here t i) = Inr m \<longrightarrow> candidate_of held i m \<in> set cs"
    "\<forall>i \<in> set bad. \<forall>m. fetchManifest w ctx (here t i) \<noteq> Inr m" by blast+
qed

lemma removed_list: "\<exists>P. map d_id (removed (plan_backups cs p now)) = map c_id (filter P (newest_first cs)) \<and>
    (\<forall>c \<in> set cs. P c \<longleftrightarrow> c_id c \<notin> kept_ids (plan_backups cs p now))"
proof -
  let ?m = "withParents (newest_first cs) (byRules (newest_first cs) p now) (fst (dropped_of (newest_first cs) p now))"
  have "map d_id (removed (plan_backups cs p now)) = map c_id (filter (\<lambda>c. ?m (c_id c) = []) (newest_first cs))"
    by (simp add: plan_backups_def dropped_of_def Let_def map_decide split: prod.splits)
  then show ?thesis using kept_ids_plan [of cs p now] by (intro exI [of _ "\<lambda>c. ?m (c_id c) = []"]) auto
qed

text \<open>Newest first: what stands before a removed backup was made after it.\<close>

lemma removed_order:
  assumes "distinct (map c_id cs)" "map d_id (filter (\<lambda>d. Q (d_id d)) (removed (plan_backups cs p now))) = as @ i # bs" "j \<in> set as"
    "c \<in> set cs" "c_id c = i" "d \<in> set cs" "c_id d = j"
  shows "moment_of d < moment_of c"
proof -
  obtain P where P: "map d_id (removed (plan_backups cs p now)) = map c_id (filter P (newest_first cs))" using removed_list by blast
  define M where "M = filter (\<lambda>c. Q (c_id c)) (filter P (newest_first cs))"
  have ord: "in_order M" unfolding M_def by (intro in_order_filter in_order_newest assms(1))
  have d: "map d_id (filter (\<lambda>d. Q (d_id d)) ds) = filter Q (map d_id ds)" for ds by (induction ds) auto
  have c: "map c_id (filter (\<lambda>c. Q (c_id c)) xs) = filter Q (map c_id xs)" for xs by (induction xs) auto
  have "map c_id M = as @ i # bs" using assms(2) unfolding M_def c d P .
  then obtain M1 e M2 where m: "M = M1 @ e # M2" "map c_id M1 = as" "c_id e = i" by (auto simp: map_eq_append_conv Cons_eq_map_conv)
  obtain d' where d': "d' \<in> set M1" "c_id d' = j" using m(2) assms(3) by auto
  have "moment_of d' < moment_of e" using ord d'(1) unfolding m(1) by (auto simp: in_order_def sorted_append less_le intro: rev_image_eqI)
  moreover have "set M \<subseteq> set cs" by (auto simp: M_def)
  then have "e = c" "d' = d" using id_unique [OF assms(1)] assms(4-7) m d' by auto
  ultimately show ?thesis by simp
qed

section \<open>Nothing that stays loses a part\<close>

text \<open>The backups of a repository are ones \<open>create\<close> made: a manifest's date is the one in its id.\<close>

definition made :: "outside \<Rightarrow> bctx \<Rightarrow> site \<Rightarrow> bool" where
  "made w ctx t = (\<forall>i m. fetchManifest w ctx (here t i) = Inr m \<longrightarrow>
     (\<exists>u bs. year_4 u \<and> length bs = 4 \<and> (\<forall>b \<in> set bs. b < 256) \<and> i = newBackupId u bs \<and> m_createdAt m = iso_string u))"

lemma fetched_there: "fetchManifest w ctx (here t i) = Inr m \<Longrightarrow> id_text i \<and> repo_get (t_repo t) (keyOf ctx i MANIFEST) \<noteq> None"
  using fetchManifest_ok [of w ctx "here t i" m] by (simp add: here_def)

lemma made_order:
  assumes "made w ctx t" "fetchManifest w ctx (here t i) = Inr m" "fetchManifest w ctx (here t p) = Inr k" "p < i"
  shows "moment_of (candidate_of held i m) < moment_of (candidate_of held p k)"
proof -
  obtain u bs where u: "year_4 u" "i = newBackupId u bs" "m_createdAt m = iso_string u" using assms(1,2) unfolding made_def by blast
  obtain v cs where v: "year_4 v" "p = newBackupId v cs" "m_createdAt k = iso_string v" using assms(1,3) unfolding made_def by blast
  have at: "c_at (candidate_of held i m) = u" "c_at (candidate_of held p k) = v"
    using u v by (simp_all add: candidate_of_def iso_time_digits)
  have "v < u \<or> v = u \<and> hex_of cs < hex_of bs" using assms(4) id_less [OF v(1) u(1)] u(2) v(2) by simp
  then show ?thesis using at assms(4) by (auto simp: moment_of_def less_moment_def candidate_of_def)
qed

lemma decide_prune_spec:
  assumes "decide_prune w ctx t p now clock after = Inr d"
  obtains cs where "candidatesOf w ctx t (heldIds ctx (t_repo t)) (sort (complete_ids ctx (scan ctx (t_repo t)))) = Inr (cs, de_unreadable d)"
    "de_byId d = scan ctx (t_repo t)" "distinct (map c_id cs)"
    "de_removed d = filter (\<lambda>x. d_id x \<notin> set (de_unreadable d)) (removed (plan_backups cs p now))"
    "de_incomplete d = incomplete_ids clock after (scan ctx (t_repo t)) (complete_ids ctx (scan ctx (t_repo t)))"
proof -
  obtain cs bad where c: "candidatesOf w ctx t (heldIds ctx (t_repo t)) (sort (complete_ids ctx (scan ctx (t_repo t)))) = Inr (cs, bad)"
    and d: "d = \<lparr>de_byId = scan ctx (t_repo t), de_unreadable = bad,
      de_incomplete = incomplete_ids clock after (scan ctx (t_repo t)) (complete_ids ctx (scan ctx (t_repo t))),
      de_kept = filter (\<lambda>d. d_id d \<notin> set bad) (kept (plan_backups cs p now)), de_removed = filter (\<lambda>d. d_id d \<notin> set bad) (removed (plan_backups cs p now)),
      de_over = overSize (plan_backups cs p now)\<rparr>"
    using assms by (auto simp: decide_prune_def Let_def)
  have "distinct (map c_id cs)" by (rule candidatesOf_spec(2) [OF c]) (simp add: complete_distinct)
  with c d that show thesis by simp
qed

text \<open>One repository under its lock: the ids that go, in their order.\<close>

definition goes :: "decided \<Rightarrow> string list" where
  "goes d = map d_id (de_removed d) @ de_incomplete d"

lemma goes_spec:
  assumes "decide_prune w ctx t p now clock after = Inr d" "made w ctx t"
  defines "r \<equiv> t_repo t"
  shows "distinct (goes d)" "\<forall>i \<in> set (goes d). id_text i"
    "\<forall>i \<in> set (goes d). repo_get r (keyOf ctx i MANIFEST) \<noteq> None \<longrightarrow> (\<exists>m. fetchManifest w ctx (here t i) = Inr m) \<and> i \<notin> heldIds ctx r"
    "\<forall>i m q k. fetchManifest w ctx (here t i) = Inr m \<and> m_parent m = Some q \<and> fetchManifest w ctx (here t q) = Inr k \<and> q \<in> set (goes d) \<longrightarrow>
      (\<exists>as bs. goes d = as @ i # bs \<and> q \<notin> set as)"
proof -
  from decide_prune_spec [OF assms(1)] obtain cs where cs: "candidatesOf w ctx t (heldIds ctx r) (sort (complete_ids ctx (scan ctx r))) = Inr (cs, de_unreadable d)"
    "distinct (map c_id cs)" "de_removed d = filter (\<lambda>x. d_id x \<notin> set (de_unreadable d)) (removed (plan_backups cs p now))"
    "de_incomplete d = incomplete_ids clock after (scan ctx r) (complete_ids ctx (scan ctx r))"
    unfolding r_def by metis
  note spec = candidatesOf_spec [OF cs(1)]
  let ?pl = "plan_backups cs p now"
  have comp: "i \<in> set (sort (complete_ids ctx (scan ctx r))) \<longleftrightarrow> id_text i \<and> repo_get r (keyOf ctx i MANIFEST) \<noteq> None" for i
    using complete_ids_set by simp
  have inc: "i \<in> set (de_incomplete d) \<Longrightarrow> id_text i \<and> repo_get r (keyOf ctx i MANIFEST) = None" for i
  proof -
    assume "i \<in> set (de_incomplete d)"
    then have i: "i \<in> fst ` set (scan ctx r)" "i \<notin> set (complete_ids ctx (scan ctx r))" by (auto simp: cs(4) incomplete_ids_def)
    then have "map_of (scan ctx r) i \<noteq> None" by (simp add: map_of_eq_None_iff)
    then have "id_text i" by (auto simp: scan_keys split: if_splits)
    then show ?thesis using i(2) complete_ids_set by blast
  qed
  obtain P where P: "map d_id (removed ?pl) = map c_id (filter P (newest_first cs))" "\<forall>c \<in> set cs. P c \<longleftrightarrow> c_id c \<notin> kept_ids ?pl"
    using removed_list by blast
  have ids: "map d_id (de_removed d) = filter (\<lambda>i. i \<notin> set (de_unreadable d)) (map d_id (removed ?pl))"
    unfolding cs(3) by (simp add: filter_map comp_def)
  have rem: "\<exists>c \<in> set cs. c_id c = i \<and> i \<notin> kept_ids ?pl \<and> i \<notin> set (de_unreadable d)" if "i \<in> set (map d_id (de_removed d))" for i
    using that unfolding ids P(1) using P(2) by auto
  have remc: "i \<in> set (sort (complete_ids ctx (scan ctx r)))" if "i \<in> set (map d_id (de_removed d))" for i
    using rem [OF that] spec(1) by blast
  have "distinct (map d_id (removed ?pl))" unfolding P(1) using newest_first_distinct [OF cs(2)] by (rule distinct_map_filter)
  then show "distinct (goes d)"
    using remc comp inc scan_distinct unfolding goes_def ids by (fastforce simp: cs(4) incomplete_ids_def)
  show "\<forall>i \<in> set (goes d). id_text i" using remc comp inc by (auto simp: goes_def)
  show "\<forall>i \<in> set (goes d). repo_get r (keyOf ctx i MANIFEST) \<noteq> None \<longrightarrow> (\<exists>m. fetchManifest w ctx (here t i) = Inr m) \<and> i \<notin> heldIds ctx r"
  proof (intro ballI impI)
    fix i
    assume "i \<in> set (goes d)" "repo_get r (keyOf ctx i MANIFEST) \<noteq> None"
    then have "i \<in> set (map d_id (de_removed d))" using inc by (auto simp: goes_def)
    then obtain c where c: "c \<in> set cs" "c_id c = i" "i \<notin> kept_ids ?pl" "i \<notin> set (de_unreadable d)" using rem by blast
    then obtain m where m: "fetchManifest w ctx (here t i) = Inr m" "c = candidate_of (heldIds ctx r) i m" using spec(3) by blast
    have "\<not> c_held c" using kept_stays [OF cs(2) c(1)] c(2,3) by (auto simp: stays_def)
    then show "(\<exists>m. fetchManifest w ctx (here t i) = Inr m) \<and> i \<notin> heldIds ctx r" using m by (auto simp: candidate_of_def)
  qed
  show "\<forall>i m q k. fetchManifest w ctx (here t i) = Inr m \<and> m_parent m = Some q \<and> fetchManifest w ctx (here t q) = Inr k \<and> q \<in> set (goes d) \<longrightarrow>
      (\<exists>as bs. goes d = as @ i # bs \<and> q \<notin> set as)"
  proof (intro allI impI, elim conjE)
    fix i m q k
    assume a: "fetchManifest w ctx (here t i) = Inr m" "m_parent m = Some q" "fetchManifest w ctx (here t q) = Inr k" "q \<in> set (goes d)"
    have "q \<in> set (map d_id (de_removed d))" using a(3,4) inc fetched_there [OF a(3)] by (auto simp: goes_def r_def)
    then obtain c where c: "c \<in> set cs" "c_id c = q" "q \<notin> kept_ids ?pl" "q \<notin> set (de_unreadable d)" using rem by blast
    have cq: "c = candidate_of (heldIds ctx r) q k" using spec(3) c(1,2,4) a(3) by auto
    let ?e = "candidate_of (heldIds ctx r) i m"
    have e: "?e \<in> set cs" using spec(4) a(1) comp fetched_there [OF a(1)] by (simp add: r_def)
    have ei: "c_id ?e = i" "c_parent ?e = Some q" using a(2) by (simp_all add: candidate_of_def)
    have lt: "q < i" using fetchManifest_parent [OF a(1,2)] by (simp add: here_def)
    have "i \<notin> kept_ids ?pl" using kept_parent [OF cs(2) e] ei c by auto
    then have "i \<in> set (map d_id (removed ?pl))" unfolding P(1) using P(2) e ei(1) by force
    then have "i \<in> set (map d_id (de_removed d))" unfolding ids using spec(5) a(1) by auto
    then obtain as bs where sp: "map d_id (de_removed d) = as @ i # bs" by (meson split_list)
    have "q \<notin> set as"
    proof
      assume q: "q \<in> set as"
      have "moment_of c < moment_of ?e"
        by (rule removed_order [OF cs(2) sp [unfolded cs(3)] q e ei(1) c(1,2)])
      then show False using made_order [OF assms(2) a(1,3) lt] cq by (simp add: less_le_not_le)
    qed
    then show "\<exists>as bs. goes d = as @ i # bs \<and> q \<notin> set as" using sp by (auto simp: goes_def)
  qed
qed

lemma keys_in_scan: "keys_in (scan ctx r) i = (if id_text i then keys_of ctx r i else [])"
  by (simp add: keys_in_def scan_keys)

abbreviation prune_site :: "string \<Rightarrow> repo \<Rightarrow> site" where
  "prune_site n r \<equiv> \<lparr>t_call = ''prune'', t_id = [], t_name = n, t_repo = r\<rparr>"

lemma prune_deletes:
  assumes "pruneBackups w ctx keep given after frm dryRun clock lock alive repos = (res, repos')" "repositoryOf ctx frm ''prune'' = Inr n"
  shows "repos' = repos \<or> (\<exists>p now a d j. decide_prune w ctx (prune_site n (repos n)) p now clock a = Inr d \<and>
    repos' = repos(n := delete_all (take j (all_keys ctx (scan ctx (repos n)) (goes d))) (repos n)))"
proof (cases "checkOptions ctx keep given after")
  case (Inl e)
  then show ?thesis using assms by (simp add: pruneBackups_def)
next
  case (Inr x)
  obtain p a where x: "x = (p, a)" by (cases x)
  let ?now = "case given of Some (NowGiven g) \<Rightarrow> g | _ \<Rightarrow> clock"
  let ?dec = "decide_prune w ctx (prune_site n (repos n)) p ?now clock a"
  show ?thesis
  proof (cases "dryRun \<or> lock \<noteq> None \<or> (\<exists>e. ?dec = Inl e)")
    case True
    then have "repos' = repos" using assms Inr x by (cases dryRun; cases lock) (auto simp: pruneBackups_def Let_def)
    then show ?thesis ..
  next
    case False
    then obtain d where d: "?dec = Inr d" by (cases ?dec) auto
    obtain r e r' where re: "remove_each ctx n (de_byId d) (goes d) alive (repos n) = (r, e, r')" by (cases "remove_each ctx n (de_byId d) (goes d) alive (repos n)")
    have "repos' = repos(n := r')" using assms Inr x False d re by (simp add: pruneBackups_def Let_def goes_def)
    moreover have "de_byId d = scan ctx (repos n)" using decide_prune_spec [OF d] by auto
    then obtain j where "r' = delete_all (take j (all_keys ctx (scan ctx (repos n)) (goes d))) (repos n)"
      using remove_each_prefix [OF re] by auto
    ultimately show ?thesis using d by blast
  qed
qed

lemma deleted_key:
  assumes "k \<in> set (take j (all_keys ctx (scan ctx r) is))"
  shows "starts_with (x_backup ctx @ ''/'') k \<and> id_text (owner ctx k) \<and> owner ctx k \<in> set is"
  using in_set_takeD [OF assms] by (auto simp: all_keys_def keys_in_scan keys_of_set)

text \<open>C18. A prune stopped at any of its deletes, by a lost lease or by its end: no other repository
  changes; no key that is not a backup's; no backup that is held or does not read; and a backup whose
  manifest still stands has all its keys, and so has the backup it builds on.\<close>

theorem prune_safe:
  assumes "pruneBackups w ctx keep given after frm dryRun clock lock alive repos = (res, repos')"
    "repositoryOf ctx frm ''prune'' = Inr n" "made w ctx (prune_site n (repos n))"
  defines "fetched \<equiv> \<lambda>i. fetchManifest w ctx (here (prune_site n (repos n)) i)"
    and "same \<equiv> \<lambda>k. repo_get (repos' n) k = repo_get (repos n) k"
  shows "(\<forall>m. m \<noteq> n \<longrightarrow> repos' m = repos m) \<and>
    (\<forall>k. \<not> starts_with (x_backup ctx @ ''/'') k \<or> \<not> id_text (owner ctx k) \<longrightarrow> same k) \<and>
    (\<forall>i k. owner ctx k = i \<and> repo_get (repos n) (keyOf ctx i MANIFEST) \<noteq> None \<and> (i \<in> heldIds ctx (repos n) \<or> (\<forall>m. fetched i \<noteq> Inr m)) \<longrightarrow> same k) \<and>
    (\<forall>i m k. fetched i = Inr m \<and> repo_get (repos' n) (keyOf ctx i MANIFEST) \<noteq> None \<and>
       (owner ctx k = i \<or> m_parent m = Some (owner ctx k) \<and> (\<exists>m'. fetched (owner ctx k) = Inr m')) \<longrightarrow> same k)"
  using prune_deletes [OF assms(1,2)]
proof (elim disjE exE conjE)
  assume "repos' = repos"
  then show ?thesis by (simp add: same_def)
next
  fix p now a d j
  assume d: "decide_prune w ctx (prune_site n (repos n)) p now clock a = Inr d"
    and r': "repos' = repos(n := delete_all (take j (all_keys ctx (scan ctx (repos n)) (goes d))) (repos n))"
  let ?r = "repos n" and ?gone = "set (take j (all_keys ctx (scan ctx (repos n)) (goes d)))"
  note g = goes_spec [OF d assms(3), simplified]
  have same: "k \<notin> ?gone \<Longrightarrow> same k" for k by (simp add: same_def r' delete_all_get)
  have key: "\<forall>i \<in> set (goes d). \<forall>k \<in> set (keys_in (scan ctx ?r) i). owner ctx k = i" by (simp add: keys_in_scan keys_of_set)
  have whole: "same k" if a: "fetched i = Inr m" "repo_get (repos' n) (keyOf ctx i MANIFEST) \<noteq> None"
      "goes d = as @ i # bs" "owner ctx k \<notin> set as" for i m k as bs
  proof -
    have i: "id_text i" "repo_get ?r (keyOf ctx i MANIFEST) \<noteq> None" using fetched_there [OF a(1) [unfolded fetched_def]] by simp_all
    then have in_keys: "keyOf ctx i MANIFEST \<in> set (keys_in (scan ctx ?r) i)" by (simp add: keys_in_scan keys_of_set)
    have "keyOf ctx i MANIFEST \<notin> ?gone" using a(2) by (auto simp: r' delete_all_get)
    then show ?thesis by (intro same manifest_first [OF g(1) key a(3) i(1) in_keys _ a(4)])
  qed
  have own: "same k" if a: "fetched i = Inr m" "repo_get (repos' n) (keyOf ctx i MANIFEST) \<noteq> None" "owner ctx k = i" for i m k
  proof (cases "i \<in> set (goes d)")
    case True
    then obtain as bs where "goes d = as @ i # bs" "i \<notin> set as" by (meson split_list_first)
    then show ?thesis using whole [OF a(1,2)] a(3) by blast
  qed (use a(3) same deleted_key in blast)
  have parent: "same k" if a: "fetched i = Inr m" "repo_get (repos' n) (keyOf ctx i MANIFEST) \<noteq> None" "m_parent m = Some (owner ctx k)"
      "fetched (owner ctx k) = Inr m'" for i m k m'
  proof (cases "owner ctx k \<in> set (goes d)")
    case True
    then obtain as bs where "goes d = as @ i # bs" "owner ctx k \<notin> set as"
      using g(4) a(1,3,4) unfolding fetched_def by blast
    then show ?thesis by (rule whole [OF a(1,2)])
  qed (use same deleted_key in blast)
  have stay: "same k" if "repo_get ?r (keyOf ctx (owner ctx k) MANIFEST) \<noteq> None" "owner ctx k \<in> heldIds ctx ?r \<or> (\<forall>m. fetched (owner ctx k) \<noteq> Inr m)" for k
    using g(3) that same deleted_key unfolding fetched_def by blast
  have other: "\<forall>m. m \<noteq> n \<longrightarrow> repos' m = repos m" by (simp add: r')
  have foreign: "\<forall>k. \<not> starts_with (x_backup ctx @ ''/'') k \<or> \<not> id_text (owner ctx k) \<longrightarrow> same k" using same deleted_key by blast
  show ?thesis using other foreign stay own parent by blast
qed

definition ex_old :: string where
  "ex_old = ''20200101T000000000Z-00000001''"

definition ex_repos :: "string \<Rightarrow> repo" where
  "ex_repos n = (keyOf ex_ctx ex_old ''0.age'', ''left'') # t_repo ex_site"

lemma ex_ids: "id_text ex_old" "id_text (m_id ex_manifest)" "ex_old \<noteq> m_id ex_manifest" "timeOfId ex_old = Some 1577836800000"
    "m_id ex_manifest = newBackupId 1791065700123 [159, 58, 97, 192]"
proof -
  show "id_text ex_old" by code_simp
  show "id_text (m_id ex_manifest)" using ex_manifest_ok(1) by (simp add: manifest_ok_def)
  show "ex_old \<noteq> m_id ex_manifest" by (simp add: ex_old_def ex_manifest_def)
  have "newBackupId 1577836800000 [0, 0, 0, 1] = ex_old" by code_simp
  moreover have "year_4 1577836800000" by code_simp
  ultimately show "timeOfId ex_old = Some 1577836800000" using id_text_new [of 1577836800000 "[0, 0, 0, 1]"] by simp
  have "newBackupId 1791065700123 [159, 58, 97, 192] = ''20261003T221500123Z-9f3a61c0''" by code_simp
  then show "m_id ex_manifest = newBackupId 1791065700123 [159, 58, 97, 192]" by (simp add: ex_manifest_def)
qed

lemma ex_get: "repo_get (ex_repos n) k \<noteq> None \<longleftrightarrow> k = keyOf ex_ctx ex_old ''0.age'' \<or>
    k \<in> {keyOf ex_ctx (m_id ex_manifest) MANIFEST, keyOf ex_ctx (m_id ex_manifest) ''catalog.age'', keyOf ex_ctx (m_id ex_manifest) ''0.age''}"
  by (auto simp: ex_repos_def ex_site_def repo_get_def)

lemma ex_prune_fetch: "fetchManifest ex_outside ex_ctx (here (prune_site ''local'' (ex_repos ''local'')) i) = Inr m \<longleftrightarrow>
    i = m_id ex_manifest \<and> m = ex_manifest"
proof -
  have old: "fetchManifest ex_outside ex_ctx (here (prune_site ''local'' (ex_repos ''local'')) (m_id ex_manifest)) = Inr ex_manifest"
  proof -
    have "readManifest (Some (manifest_json ex_manifest)) = Inr ex_manifest" using read_written [OF ex_manifest_ok(1)] by simp
    moreover have "m_backup ex_manifest = ''app''" by (simp add: ex_manifest_def)
    moreover have "repo_get (ex_repos ''local'') (keyOf ex_ctx (m_id ex_manifest) MANIFEST) = Some ''M''"
      using ex_ids(1-3) by (simp add: ex_repos_def ex_site_def repo_get_def keyOf_eq)
    ultimately show ?thesis
      using ex_ids(2) by (simp add: here_def fetchManifest_def ex_ctx_def ex_outside_def upTo_def MANIFEST_MAX_BYTES_def Let_def)
  qed
  have "i = m_id ex_manifest" if "fetchManifest ex_outside ex_ctx (here (prune_site ''local'' (ex_repos ''local'')) i) = Inr m"
  proof -
    have there: "id_text i" "repo_get (ex_repos ''local'') (keyOf ex_ctx i MANIFEST) \<noteq> None"
      using fetched_there [OF that] by simp_all
    have "keyOf ex_ctx i MANIFEST \<noteq> keyOf ex_ctx ex_old ''0.age''"
    proof
      assume a: "keyOf ex_ctx i MANIFEST = keyOf ex_ctx ex_old ''0.age''"
      then have "i = ex_old" using there ex_ids(1) owner_keyOf by metis
      then show False using a by (simp add: MANIFEST_def)
    qed
    then show ?thesis using there ex_ids(2) unfolding ex_get by (auto simp: keyOf_eq)
  qed
  then show ?thesis using old by auto
qed

lemma ex_made: "made ex_outside ex_ctx (prune_site ''local'' (ex_repos ''local''))"
proof -
  have "year_4 1791065700123" by code_simp
  moreover have "m_createdAt ex_manifest = iso_string 1791065700123" by (simp add: ex_manifest_def)
  ultimately show ?thesis unfolding made_def ex_prune_fetch
    using ex_ids(5) by (intro allI impI exI [of _ 1791065700123] exI [of _ "[159, 58, 97, 192]"]) auto
qed

lemma ex_policy_read: "\<exists>p. (\<forall>whr. checkPolicy (Some (JRec [(''last'', JNum 1)])) whr = Inr p) \<and> kp_last p = Some 1"
proof -
  have j: "jget (JRec [(''last'', JNum 1)]) r = (if r = ''last'' then Some (JNum 1) else None)" for r by simp
  have f: "find (\<lambda>r. jget (JRec [(''last'', JNum 1)]) r \<noteq> None \<and> \<not> whole_from 1 (jget (JRec [(''last'', JNum 1)]) r)) RULES = None"
    unfolding find_None_iff j by simp
  have l: "\<not> list_all (\<lambda>r. jget (JRec [(''last'', JNum 1)]) r = None) RULES" unfolding j list_all_iff by (simp add: RULES_def)
  show ?thesis unfolding checkPolicy_def option.case f using l by (simp add: rule_value_def Let_def)
qed

lemma ex_prune: "\<exists>v. pruneBackups ex_outside ex_ctx (Some (JRec [(''last'', JNum 1)])) (Some (NowGiven 1791065700123)) None None False 1791065700123 None 9 ex_repos =
    (Inr v, ex_repos(''local'' := t_repo ex_site))"
proof -
  let ?r = "ex_repos ''local''" and ?c = "candidate_of {} (m_id ex_manifest) ex_manifest"
  let ?site = "prune_site ''local'' ?r"
  let ?man = "[keyOf ex_ctx (m_id ex_manifest) MANIFEST, keyOf ex_ctx (m_id ex_manifest) ''catalog.age'', keyOf ex_ctx (m_id ex_manifest) ''0.age'']"
  obtain p where p: "checkOptions ex_ctx (Some (JRec [(''last'', JNum 1)])) (Some (NowGiven 1791065700123)) None = Inr (p, DAY)" "kp_last p = Some 1"
  proof -
    obtain q where "\<And>whr. checkPolicy (Some (JRec [(''last'', JNum 1)])) whr = Inr q" "kp_last q = Some 1" using ex_policy_read by blast
    then show thesis using that [of q] by (simp add: checkOptions_def ex_ctx_def DAY_def)
  qed
  have keys: "map fst ?r = keyOf ex_ctx ex_old ''0.age'' # ?man" by (simp add: ex_repos_def ex_site_def)
  have scan: "scan ex_ctx ?r = [(ex_old, [keyOf ex_ctx ex_old ''0.age'']), (m_id ex_manifest, ?man)]"
    unfolding scan_def repo_list_def keys using ex_ids(1-3) by (simp add: scan_key_def Let_def)
  have held: "heldIds ex_ctx ?r = {}"
    unfolding heldIds_def repo_list_def keys
    by (simp add: keyOf_def ex_ctx_def HOLDS_def starts_with_def ex_old_def ex_manifest_def)
  have complete: "complete_ids ex_ctx (scan ex_ctx ?r) = [m_id ex_manifest]"
    using ex_ids(1-3) by (simp add: scan complete_ids_def keyOf_eq MANIFEST_def)
  have cands: "candidatesOf ex_outside ex_ctx ?site {} [m_id ex_manifest] = Inr ([?c], [])"
    using ex_prune_fetch [THEN iffD2] by (simp add: here_def)
  have at: "c_at ?c \<le> 1791065700123"
  proof -
    have "year_4 1791065700123" by code_simp
    then show ?thesis by (simp add: candidate_of_def ex_manifest_def iso_time_digits)
  qed
  have "c_id ?c \<in> kept_ids (plan_backups [?c] p 1791065700123)"
  proof (rule kept_stays)
    have "newer_past [?c] 1791065700123 ?c = {}" by (auto simp: newer_past_def newer_def)
    moreover have "is_past 1791065700123 ?c" using at by (simp add: is_past_def candidate_of_def)
    ultimately show "stays [?c] p 1791065700123 ?c" using p(2) by (simp add: stays_def wants_last_def count_of_def)
  qed simp_all
  then have rem: "removed (plan_backups [?c] p 1791065700123) = []"
    using removed_list [of "[?c]" p 1791065700123] by (auto simp: newest_first_def)
  define d where "d = \<lparr>de_byId = scan ex_ctx ?r, de_unreadable = [], de_incomplete = [ex_old],
    de_kept = kept (plan_backups [?c] p 1791065700123), de_removed = [], de_over = overSize (plan_backups [?c] p 1791065700123)\<rparr>"
  have "incomplete_ids 1791065700123 DAY (scan ex_ctx ?r) [m_id ex_manifest] = [ex_old]"
    using ex_ids(3,4) by (simp add: incomplete_ids_def scan DAY_def)
  then have dec: "decide_prune ex_outside ex_ctx ?site p 1791065700123 1791065700123 DAY = Inr d"
    using cands rem by (simp add: decide_prune_def complete held d_def Let_def del: candidatesOf.simps)
  have gone: "repo_delete (keyOf ex_ctx ex_old ''0.age'') ?r = t_repo ex_site"
    using ex_ids(1-3) by (simp add: repo_delete_def ex_repos_def ex_site_def keyOf_eq)
  have each: "remove_each ex_ctx ''local'' (scan ex_ctx ?r) [ex_old] 9 ?r = (Inr (), 8, t_repo ex_site)"
    by (simp add: removeBackup_def scan ordered_keys_def MANIFEST_def keyOf_inj gone eval_nat_numeral)
  have "repositoryOf ex_ctx None ''prune'' = Inr ''local''" by (simp add: repositoryOf_def ex_ctx_def)
  then show ?thesis
    unfolding pruneBackups_def p(1) using each by (simp add: Let_def dec d_def del: remove_each.simps)
qed

theorem prune_safe_witness:
  "repo_get (t_repo ex_site) (keyOf ex_ctx (m_id ex_manifest) ''0.age'') = repo_get (ex_repos ''local'') (keyOf ex_ctx (m_id ex_manifest) ''0.age'')"
proof -
  let ?id = "m_id ex_manifest"
  obtain v where run: "pruneBackups ex_outside ex_ctx (Some (JRec [(''last'', JNum 1)])) (Some (NowGiven 1791065700123)) None None False 1791065700123 None 9 ex_repos =
    (Inr v, ex_repos(''local'' := t_repo ex_site))" using ex_prune by blast
  have repo: "repositoryOf ex_ctx None ''prune'' = Inr ''local''" by (simp add: repositoryOf_def ex_ctx_def)
  have man: "repo_get (t_repo ex_site) (keyOf ex_ctx ?id MANIFEST) \<noteq> None" by (simp add: ex_site_def repo_get_def)
  have fetched: "fetchManifest ex_outside ex_ctx (here (prune_site ''local'' (ex_repos ''local'')) ?id) = Inr ex_manifest"
    by (simp add: ex_prune_fetch)
  have own: "owner ex_ctx (keyOf ex_ctx ?id ''0.age'') = ?id" using ex_ids(2) by simp
  note safe = prune_safe [OF run repo ex_made, THEN conjunct2, THEN conjunct2, THEN conjunct2, unfolded fun_upd_same]
  show ?thesis by (rule safe [rule_format, OF conjI, OF fetched conjI, OF man disjI1, OF own])
qed

end
