(* ===== verification/Leases.thy ===== *)
theory Leases
  imports Main
begin

text \<open>
  What the packages' leases share: one record on a server that a run takes under a token of its own, and
  that every later operation of that run checks the token of. Redis's idempotency record, its lock and
  MongoDB's migration lock are the three instances, each in its own theory. Time is the server's.
\<close>

section \<open>Operations one after the other\<close>

text \<open>Each operation runs alone, at the time it reaches the server, and answers whether it did something.\<close>

fun after :: "(int \<Rightarrow> 'op \<Rightarrow> 's \<Rightarrow> bool \<times> 's) \<Rightarrow> (int \<times> 'op) list \<Rightarrow> 's \<Rightarrow> 's" where
  "after exec [] s = s"
| "after exec ((t, op) # es) s = after exec es (snd (exec t op s))"

fun trace :: "(int \<Rightarrow> 'op \<Rightarrow> 's \<Rightarrow> bool \<times> 's) \<Rightarrow> (int \<times> 'op) list \<Rightarrow> 's \<Rightarrow> (int \<times> 'op \<times> bool) list" where
  "trace exec [] s = []"
| "trace exec ((t, op) # es) s = (t, op, fst (exec t op s)) # trace exec es (snd (exec t op s))"

lemma after_append [simp]: "after exec (es @ fs) s = after exec fs (after exec es s)"
  by (induction es arbitrary: s) auto

lemma trace_append: "trace exec (es @ fs) s = trace exec es s @ trace exec fs (after exec es s)"
  by (induction es arbitrary: s) auto

lemma trace_split:
  assumes "(t, op, ok) \<in> set (trace exec es s)"
  shows "\<exists>as bs. es = as @ (t, op) # bs \<and> ok = fst (exec t op (after exec as s))"
  using assms
proof (induction es arbitrary: s)
  case (Cons e es)
  obtain u p where e: "e = (u, p)" by (cases e)
  show ?case
  proof (cases "(t, op, ok) = (u, p, fst (exec u p s))")
    case True
    then have "e # es = [] @ (t, op) # es \<and> ok = fst (exec t op (after exec [] s))" using e by simp
    then show ?thesis by blast
  next
    case False
    then have "(t, op, ok) \<in> set (trace exec es (snd (exec u p s)))" using Cons.prems e by auto
    then obtain as bs where "es = as @ (t, op) # bs" "ok = fst (exec t op (after exec as (snd (exec u p s))))"
      using Cons.IH by blast
    then have "e # es = ((u, p) # as) @ (t, op) # bs \<and> ok = fst (exec t op (after exec ((u, p) # as) s))" using e by simp
    then show ?thesis by blast
  qed
qed simp

text \<open>The times of the operations, from one on.\<close>

definition timed :: "int \<Rightarrow> (int \<times> 'op) list \<Rightarrow> bool" where
  "timed t0 es = sorted (t0 # map fst es)"

lemma timed_Nil [simp]: "timed t []"
  by (simp add: timed_def)

lemma timed_Cons [simp]: "timed t ((u, op) # es) \<longleftrightarrow> t \<le> u \<and> timed u es"
  by (auto simp: timed_def)

lemma timed_mono: "timed t es \<Longrightarrow> u \<le> t \<Longrightarrow> timed u es"
  by (auto simp: timed_def)

definition last_time :: "int \<Rightarrow> (int \<times> 'op) list \<Rightarrow> int" where
  "last_time t0 es = (if es = [] then t0 else fst (last es))"

lemma last_time_Nil [simp]: "last_time t [] = t"
  by (simp add: last_time_def)

lemma last_time_Cons [simp]: "last_time t ((u, op) # es) = last_time u es"
  by (simp add: last_time_def)

lemma last_time_le: "timed t es \<Longrightarrow> t \<le> last_time t es"
  by (induction es arbitrary: t) (auto intro: order_trans)

lemma timed_append: "timed t (es @ fs) \<longleftrightarrow> timed t es \<and> timed (last_time t es) fs"
  by (induction es arbitrary: t) auto

lemma last_time_append: "last_time t (es @ fs) = last_time (last_time t es) fs"
  by (induction es arbitrary: t) auto

text \<open>Every operation, and \<open>v\<close> after them, comes before the lease of \<open>a\<close> ends: at \<open>e\<close>, or as its own renewals
  push it.\<close>

fun renewed :: "('op \<Rightarrow> string option) \<Rightarrow> int \<Rightarrow> string \<Rightarrow> int \<Rightarrow> int \<Rightarrow> (int \<times> 'op) list \<Rightarrow> bool" where
  "renewed fenced lease a e v [] = (v < e)"
| "renewed fenced lease a e v ((u, op) # es) =
     (u < e \<and> renewed fenced lease a (if fenced op = Some a then u + lease else e) v es)"

lemma renewed_mono: "renewed fenced lease a e v es \<Longrightarrow> e \<le> e' \<Longrightarrow> renewed fenced lease a e' v es"
proof (induction es arbitrary: e e')
  case (Cons x es)
  then show ?case by (cases x) (force split: if_splits)
qed simp

section \<open>The contract\<close>

text \<open>
  \<open>holder t s\<close> is the token the record is under at \<open>t\<close>; \<open>takes op\<close> the token an operation takes it with,
  \<open>fenced op\<close> the token one checks first, \<open>ends a op\<close> whether one may end the hold of \<open>a\<close>, and \<open>till s\<close>
  the millisecond the lease of the record ends after.
\<close>

locale fenced_lease =
  fixes exec :: "int \<Rightarrow> 'op \<Rightarrow> 's \<Rightarrow> bool \<times> 's"
    and holder :: "int \<Rightarrow> 's \<Rightarrow> string option"
    and takes :: "'op \<Rightarrow> string option"
    and fenced :: "'op \<Rightarrow> string option"
    and ends :: "string \<Rightarrow> 'op \<Rightarrow> bool"
    and till :: "'s \<Rightarrow> int option"
    and lease :: int
  assumes only_takes: "holder t (snd (exec t op s)) = Some a \<Longrightarrow> holder t s \<noteq> Some a \<Longrightarrow> takes op = Some a"
    and only_lapses: "holder u s = Some a \<Longrightarrow> t \<le> u \<Longrightarrow> holder t s = Some a"
    and taken: "takes op = Some a \<Longrightarrow> fst (exec t op s) \<Longrightarrow> 0 \<le> lease \<Longrightarrow> holder t (snd (exec t op s)) = Some a"
    and checks: "fenced op = Some a \<Longrightarrow> fst (exec t op s) \<Longrightarrow> holder t s = Some a"
    and stays: "holder t s = Some a \<Longrightarrow> till s = Some e \<Longrightarrow> t < e \<Longrightarrow> \<not> ends a op \<Longrightarrow> 0 \<le> lease \<Longrightarrow>
      holder t (snd (exec t op s)) = Some a \<and>
      (till (snd (exec t op s)) = Some e \<or> till (snd (exec t op s)) = Some (t + lease))"
    and renews: "fenced op = Some a \<Longrightarrow> \<not> ends a op \<Longrightarrow> holder t s = Some a \<Longrightarrow>
      fst (exec t op s) \<and> till (snd (exec t op s)) = Some (t + lease)"
    and lasts: "holder t s = Some a \<Longrightarrow> till s = Some e \<Longrightarrow> u < e \<Longrightarrow> holder u s = Some a"
begin

text \<open>Who does not hold it does not come to hold it but by a take.\<close>

lemma not_again:
  assumes "holder t s \<noteq> Some a" "timed t es" "\<forall>(u, op) \<in> set es. takes op \<noteq> Some a" "last_time t es \<le> v"
  shows "holder v (after exec es s) \<noteq> Some a"
  using assms
proof (induction es arbitrary: s t)
  case Nil
  then show ?case using only_lapses [of v s a t] by auto
next
  case (Cons e es)
  obtain u op where e: "e = (u, op)" by (cases e)
  have "holder u s \<noteq> Some a" using Cons.prems(1,2) only_lapses [of u s a t] e by auto
  then have "holder u (snd (exec u op s)) \<noteq> Some a" using only_takes [of u op s a] Cons.prems(3) e by auto
  then show ?case using Cons.IH [of u "snd (exec u op s)"] Cons.prems e by auto
qed

text \<open>A run whose fenced operation went through has had the record to itself since it took it.\<close>

lemma exclusive:
  assumes "takes op = Some a" "fst (exec t op s)" "timed t es" "\<forall>(u, op) \<in> set es. takes op \<noteq> Some a"
    "fenced op' = Some a" "last_time t es \<le> v" "fst (exec v op' (after exec es (snd (exec t op s))))" "0 \<le> lease"
  shows "\<forall>u op2. (u, op2, True) \<in> set (trace exec es (snd (exec t op s))) \<longrightarrow> takes op2 = None"
proof (intro allI impI, rule ccontr)
  fix u op2
  assume in_trace: "(u, op2, True) \<in> set (trace exec es (snd (exec t op s)))" and "takes op2 \<noteq> None"
  then obtain b where "takes op2 = Some b" by auto
  note in_trace
  with trace_split obtain as bs where es: "es = as @ (u, op2) # bs" and ok: "fst (exec u op2 (after exec as (snd (exec t op s))))"
    by metis
  have "b \<noteq> a" using assms(4) es \<open>takes op2 = Some b\<close> by auto
  have "holder u (snd (exec u op2 (after exec as (snd (exec t op s))))) = Some b" by (rule taken [OF \<open>takes op2 = Some b\<close> ok assms(8)])
  then have "holder u (snd (exec u op2 (after exec as (snd (exec t op s))))) \<noteq> Some a" using \<open>b \<noteq> a\<close> by simp
  then have "holder v (after exec bs (snd (exec u op2 (after exec as (snd (exec t op s)))))) \<noteq> Some a"
    using not_again [of u _ a bs v] assms(3,4,6) es by (simp add: timed_append last_time_append)
  then show False using checks [OF assms(5,7)] es by simp
qed

text \<open>A run that renews within each lease keeps the record, whatever the others do.\<close>

lemma kept:
  assumes "holder t s = Some a" "till s = Some e" "e \<le> t + lease" "0 < lease" "timed t es"
    "\<forall>(u, op) \<in> set es. \<not> ends a op" "renewed fenced lease a e v es"
  shows "holder v (after exec es s) = Some a"
  using assms
proof (induction es arbitrary: s t e)
  case Nil
  then show ?case using lasts [of t s a e v] by simp
next
  case (Cons x es)
  obtain u op where x: "x = (u, op)" by (cases x)
  have ue: "u < e" and rest: "renewed fenced lease a (if fenced op = Some a then u + lease else e) v es"
    using Cons.prems(7) x by simp_all
  have tu: "t \<le> u" using Cons.prems(5) x by simp
  have hu: "holder u s = Some a" by (rule lasts [OF Cons.prems(1,2) ue])
  have ne: "\<not> ends a op" using Cons.prems(6) x by auto
  let ?s = "snd (exec u op s)"
  have pos: "0 \<le> lease" using Cons.prems(4) by simp
  note st = stays [OF hu Cons.prems(2) ue ne pos]
  obtain e' where e': "till ?s = Some e'" "e' = e \<or> e' = u + lease" "fenced op = Some a \<longrightarrow> e' = u + lease"
  proof (cases "fenced op = Some a")
    case True
    then show thesis using that [of "u + lease"] renews [OF True ne hu] by simp
  next
    case False
    then show thesis using that [of e] that [of "u + lease"] st by blast
  qed
  have le: "(if fenced op = Some a then u + lease else e) \<le> e'" "e' \<le> u + lease" using e' Cons.prems(3) tu by auto
  have "holder v (after exec es ?s) = Some a"
    by (rule Cons.IH [OF conjunct1 [OF st] e'(1) le(2) Cons.prems(4) _ _ renewed_mono [OF rest le(1)]])
      (use Cons.prems(5,6) x in simp_all)
  then show ?case using x by simp
qed

end

end
