(* ===== verification/Idempotency.thy ===== *)
theory Idempotency
  imports Redis_Data Json Leases
begin

text \<open>
  Idempotent operations: \<open>packages/redis/src/idempotency\<close>. A key holds one hash, of a run that goes on or of
  the result it stored, with its expiry; the four scripts (\<open>scripts.ts\<close>) are functions of the server's
  clock and of the key. \<open>run\<close> (\<open>run.ts\<close>, \<open>result.ts\<close>, \<open>lease/wait.ts\<close>) is what a client makes of their
  answers. zod's schema and \<open>JSON.stringify\<close> are parameters.
\<close>

section \<open>A key\<close>

datatype rkey = RHash "string hash" "int option" | ROther

type_synonym ikey = "rkey option"

definition live :: "int \<Rightarrow> ikey \<Rightarrow> ikey" where
  "live now k = (case k of Some (RHash h (Some till)) \<Rightarrow> if now \<le> till then k else None | _ \<Rightarrow> k)"

definition WRONGTYPE :: string where
  "WRONGTYPE = ''WRONGTYPE Operation against a key holding the wrong kind of value''"

definition PTTL :: "int \<Rightarrow> int option \<Rightarrow> int" where
  "PTTL now till = (case till of None \<Rightarrow> -1 | Some e \<Rightarrow> e - now)"

section \<open>The scripts\<close>

datatype detail = DInt int | DText string | DNone

definition hex_chars :: "string \<Rightarrow> bool" where
  "hex_chars s = (s \<noteq> [] \<and> list_all is_hex s)"

definition begun_hash :: "string \<Rightarrow> string \<Rightarrow> string hash" where
  "begun_hash token fp = hsets [(''state'', ''running''), (''token'', token), (''fp'', fp)] []"

definition idem_begin :: "int \<Rightarrow> string \<Rightarrow> string \<Rightarrow> int \<Rightarrow> ikey \<Rightarrow> (string \<times> detail) result \<times> ikey" where
  "idem_begin now token fp lease k = (case live now k of
     Some ROther \<Rightarrow> (Inl WRONGTYPE, k)
   | None \<Rightarrow> (Inr (''started'', DNone),
       Some (RHash (begun_hash token fp) (Some (now + lease))))
   | Some (RHash h till) \<Rightarrow> (Inr (
       if length h \<noteq> 3 then (''corrupt'', DNone)
       else (let state = hget h ''state''; tok = hget h ''token''; f = hget h ''fp''; value = hget h ''value''; pttl = PTTL now till in
         if pttl \<le> 0 then (''corrupt'', DNone)
         else (case f of None \<Rightarrow> (''corrupt'', DNone)
           | Some f \<Rightarrow> if f \<noteq> [] \<and> \<not> (length f = 64 \<and> hex_chars f) then (''corrupt'', DNone)
             else (let running = (state = Some ''running'' \<and> value = None \<and> (case tok of None \<Rightarrow> False | Some t \<Rightarrow> length t = 32 \<and> hex_chars t));
                       done = (state = Some ''done'' \<and> tok = None \<and> value \<noteq> None) in
               if \<not> running \<and> \<not> done then (''corrupt'', DNone)
               else if f \<noteq> fp then (''mismatch'', DNone)
               else if running then (''running'', DInt pttl)
               else (''done'', (case value of None \<Rightarrow> DNone | Some v \<Rightarrow> DText v)))))), k))"

text \<open>\<open>f[1] == 'running'\<close> and \<open>f[2] == ARGV[1]\<close>, of a live hash.\<close>

definition running_as :: "string \<Rightarrow> string hash \<Rightarrow> bool" where
  "running_as token h = (hget h ''state'' = Some ''running'' \<and> hget h ''token'' = Some token)"

definition idem_complete :: "int \<Rightarrow> string \<Rightarrow> string \<Rightarrow> int \<Rightarrow> ikey \<Rightarrow> int result \<times> ikey" where
  "idem_complete now token json ttl k = (case live now k of
     Some ROther \<Rightarrow> (Inl WRONGTYPE, k)
   | None \<Rightarrow> (Inr 0, k)
   | Some (RHash h till) \<Rightarrow> if \<not> running_as token h then (Inr 0, k)
       else (Inr 1, Some (RHash (hdel ''token'' (hsets [(''state'', ''done''), (''value'', json)] h)) (Some (now + 1000 * ttl)))))"

definition idem_renew :: "int \<Rightarrow> string \<Rightarrow> int \<Rightarrow> ikey \<Rightarrow> int result \<times> ikey" where
  "idem_renew now token lease k = (case live now k of
     Some ROther \<Rightarrow> (Inl WRONGTYPE, k)
   | None \<Rightarrow> (Inr 0, k)
   | Some (RHash h till) \<Rightarrow> if \<not> running_as token h then (Inr 0, k) else (Inr 1, Some (RHash h (Some (now + lease)))))"

definition idem_release :: "int \<Rightarrow> string \<Rightarrow> ikey \<Rightarrow> int result \<times> ikey" where
  "idem_release now token k = (case live now k of
     Some ROther \<Rightarrow> (Inl WRONGTYPE, k)
   | None \<Rightarrow> (Inr 0, k)
   | Some (RHash h till) \<Rightarrow> if running_as token h then (Inr 1, None) else (Inr 0, k))"

text \<open>\<open>forget\<close> is a \<open>DEL\<close>.\<close>

definition forget :: "int \<Rightarrow> ikey \<Rightarrow> bool \<times> ikey" where
  "forget now k = (live now k \<noteq> None, None)"

section \<open>What the client reads\<close>

datatype begun = Started | Mismatch | Corrupt | Running int | Done string

definition plain_begun :: "string \<Rightarrow> begun" where
  "plain_begun state = (if state = ''started'' then Started else if state = ''mismatch'' then Mismatch else Corrupt)"

definition begun_of :: "string \<times> detail \<Rightarrow> begun" where
  "begun_of reply = (case reply of
     (state, DInt n) \<Rightarrow> if state = ''running'' then Running n else plain_begun state
   | (state, DText v) \<Rightarrow> if state = ''done'' then Done v else plain_begun state
   | (state, DNone) \<Rightarrow> plain_begun state)"

fun is_running :: "begun \<Rightarrow> bool" where
  "is_running (Running n) = True"
| "is_running b = False"

definition begin_call :: "int \<Rightarrow> string \<Rightarrow> string \<Rightarrow> int \<Rightarrow> ikey \<Rightarrow> begun result \<times> ikey" where
  "begin_call now token fp lease k = (case idem_begin now token fp lease k of (r, k') \<Rightarrow> (map_sum id begun_of r, k'))"

section \<open>The operations as one type\<close>

datatype iop = IBegin string string | IRenew string | IComplete string string | IRelease string | IForget

definition answered :: "int result \<times> ikey \<Rightarrow> bool \<times> ikey" where
  "answered r = (fst r = Inr 1, snd r)"

fun idem_exec :: "int \<Rightarrow> int \<Rightarrow> int \<Rightarrow> iop \<Rightarrow> ikey \<Rightarrow> bool \<times> ikey" where
  "idem_exec lease ttl now (IBegin token fp) k = (case begin_call now token fp lease k of (r, k') \<Rightarrow> (r = Inr Started, k'))"
| "idem_exec lease ttl now (IRenew token) k = answered (idem_renew now token lease k)"
| "idem_exec lease ttl now (IComplete token json) k = answered (idem_complete now token json ttl k)"
| "idem_exec lease ttl now (IRelease token) k = answered (idem_release now token k)"
| "idem_exec lease ttl now IForget k = forget now k"

fun idem_takes :: "iop \<Rightarrow> string option" where
  "idem_takes (IBegin token fp) = Some token"
| "idem_takes _ = None"

fun idem_fenced :: "iop \<Rightarrow> string option" where
  "idem_fenced (IRenew token) = Some token"
| "idem_fenced (IComplete token json) = Some token"
| "idem_fenced (IRelease token) = Some token"
| "idem_fenced _ = None"

fun idem_ends :: "string \<Rightarrow> iop \<Rightarrow> bool" where
  "idem_ends a (IComplete token json) = (token = a)"
| "idem_ends a (IRelease token) = (token = a)"
| "idem_ends a IForget = True"
| "idem_ends a _ = False"

definition idem_holder :: "int \<Rightarrow> ikey \<Rightarrow> string option" where
  "idem_holder now k = (case live now k of Some (RHash h till) \<Rightarrow> if hget h ''state'' = Some ''running'' then hget h ''token'' else None | _ \<Rightarrow> None)"

definition idem_till :: "ikey \<Rightarrow> int option" where
  "idem_till k = (case k of Some (RHash h till) \<Rightarrow> till | _ \<Rightarrow> None)"

lemma begun_of_simps [simp]:
  "begun_of (''started'', d) = Started" "begun_of (''mismatch'', d) = Mismatch" "begun_of (''corrupt'', d) = Corrupt"
  "begun_of (''running'', DInt n) = Running n" "begun_of (''done'', DText v) = Done v"
  by (simp_all add: begun_of_def plain_begun_def split: detail.splits)

lemma begin_started:
  "fst (begin_call now token fp lease k) = Inr Started \<longleftrightarrow> live now k = None"
  "live now k \<noteq> None \<Longrightarrow> snd (begin_call now token fp lease k) = k"
  by (auto simp: begin_call_def idem_begin_def Let_def begun_of_def plain_begun_def split: option.splits rkey.splits)

lemma begin_takes:
  "live now k = None \<Longrightarrow> begin_call now token fp lease k =
    (Inr Started, Some (RHash (begun_hash token fp) (Some (now + lease))))"
  by (simp add: begin_call_def idem_begin_def)

lemma live_None: "live now k = None \<longleftrightarrow> k = None \<or> (\<exists>h t. k = Some (RHash h (Some t)) \<and> t < now)"
  by (auto simp: live_def split: option.splits rkey.splits)

lemma live_Some: "live now k = Some x \<longleftrightarrow> k = Some x \<and> (\<forall>h t. x = RHash h (Some t) \<longrightarrow> now \<le> t)"
  by (auto simp: live_def split: option.splits rkey.splits)

lemma holder_eq: "idem_holder now k = Some a \<longleftrightarrow> (\<exists>h till. live now k = Some (RHash h till) \<and> running_as a h)"
  by (auto simp: idem_holder_def running_as_def split: option.splits rkey.splits)

lemma fenced_exec:
  "fst (answered (idem_renew now token lease k)) \<longleftrightarrow> idem_holder now k = Some token"
  "fst (answered (idem_complete now token json ttl k)) \<longleftrightarrow> idem_holder now k = Some token"
  "fst (answered (idem_release now token k)) \<longleftrightarrow> idem_holder now k = Some token"
  by (auto simp: answered_def idem_renew_def idem_complete_def idem_release_def holder_eq split: option.splits rkey.splits)

lemma fenced_same:
  "idem_holder now k \<noteq> Some token \<Longrightarrow> idem_renew now token lease k = (fst (idem_renew now token lease k), k)"
  "idem_holder now k \<noteq> Some token \<Longrightarrow> idem_complete now token json ttl k = (fst (idem_complete now token json ttl k), k)"
  "idem_holder now k \<noteq> Some token \<Longrightarrow> idem_release now token k = (fst (idem_release now token k), k)"
  by (auto simp: idem_renew_def idem_complete_def idem_release_def holder_eq split: option.splits rkey.splits)

lemma fenced_done:
  assumes "live now k = Some (RHash h till)" "running_as token h"
  shows "idem_renew now token lease k = (Inr 1, Some (RHash h (Some (now + lease))))"
    "idem_complete now token json ttl k = (Inr 1, Some (RHash (hdel ''token'' (hsets [(''state'', ''done''), (''value'', json)] h)) (Some (now + 1000 * ttl))))"
    "idem_release now token k = (Inr 1, None)"
  using assms by (simp_all add: idem_renew_def idem_complete_def idem_release_def)

lemma holder_live: "idem_holder now k = Some a \<Longrightarrow> live now k = k"
  by (auto simp: holder_eq live_Some)

lemma running_begun [simp]: "running_as a (begun_hash token fp) \<longleftrightarrow> a = token"
  by (auto simp: running_as_def begun_hash_def)

lemma exec_cases:
  obtains (same) "snd (idem_exec lease ttl now op k) = k"
    | (takes) token fp where "op = IBegin token fp" "live now k = None"
        "snd (idem_exec lease ttl now op k) = Some (RHash (begun_hash token fp) (Some (now + lease)))"
    | (renews) token h till where "op = IRenew token" "live now k = Some (RHash h till)" "running_as token h"
        "snd (idem_exec lease ttl now op k) = Some (RHash h (Some (now + lease)))"
    | (ends) token where "idem_ends token op" "\<And>b h till. snd (idem_exec lease ttl now op k) = Some (RHash h till) \<Longrightarrow> \<not> running_as b h"
        "op = IForget \<or> idem_holder now k = Some token"
proof (cases op)
  case (IBegin token fp)
  show thesis
  proof (cases "live now k = None")
    case True
    then show thesis using takes [OF IBegin True] IBegin by (simp add: begin_takes)
  next
    case False
    then show thesis using same begin_started(2) [OF False, of token fp lease] IBegin
      by (cases "begin_call now token fp lease k") auto
  qed
next
  case (IRenew token)
  show thesis
  proof (cases "idem_holder now k = Some token")
    case True
    then obtain h till where h: "live now k = Some (RHash h till)" "running_as token h" by (auto simp: holder_eq)
    then show thesis using renews [OF IRenew h] fenced_done(1) [OF h] IRenew by (simp add: answered_def)
  next
    case False
    then show thesis using same fenced_same(1) [OF False] IRenew by (metis answered_def idem_exec.simps(2) snd_conv)
  qed
next
  case (IComplete token json)
  show thesis
  proof (cases "idem_holder now k = Some token")
    case True
    then obtain h till where h: "live now k = Some (RHash h till)" "running_as token h" by (auto simp: holder_eq)
    have "snd (idem_exec lease ttl now op k) = Some (RHash h' till') \<Longrightarrow> \<not> running_as b h'" for b h' till'
      using fenced_done(2) [OF h, of json ttl] IComplete by (auto simp: answered_def running_as_def)
    then show thesis using ends [of token] True IComplete by simp
  next
    case False
    then show thesis using same fenced_same(2) [OF False] IComplete by (metis answered_def idem_exec.simps(3) snd_conv)
  qed
next
  case (IRelease token)
  show thesis
  proof (cases "idem_holder now k = Some token")
    case True
    then obtain h till where h: "live now k = Some (RHash h till)" "running_as token h" by (auto simp: holder_eq)
    then show thesis using ends [of token] True fenced_done(3) [OF h] IRelease by (simp add: answered_def)
  next
    case False
    then show thesis using same fenced_same(3) [OF False] IRelease by (metis answered_def idem_exec.simps(4) snd_conv)
  qed
next
  case IForget
  then show thesis using ends by (simp add: forget_def)
qed

lemma running_unique: "running_as a h \<Longrightarrow> running_as b h \<longleftrightarrow> a = b"
  by (auto simp: running_as_def)

text \<open>The record is a fenced lease, with any lease and any time a result is kept.\<close>

interpretation idem: fenced_lease "idem_exec lease ttl" idem_holder idem_takes idem_fenced idem_ends idem_till lease
  for lease ttl :: int
proof
  fix t op s a
  assume h: "idem_holder t (snd (idem_exec lease ttl t op s)) = Some a" "idem_holder t s \<noteq> Some a"
  show "idem_takes op = Some a"
    by (cases rule: exec_cases [of lease ttl t op s]) (use h in \<open>auto simp: holder_eq live_Some\<close>)
next
  fix u s a t
  assume "idem_holder u s = Some a" "(t::int) \<le> u"
  then show "idem_holder t s = Some a" by (auto simp: holder_eq live_Some)
next
  fix op a t s
  assume h: "idem_takes op = Some a" "fst (idem_exec lease ttl t op s)" "0 \<le> lease"
  obtain fp where op: "op = IBegin a fp" using h(1) by (cases op) auto
  have "live t s = None" using h(2) op begin_started(1) [of t a fp lease s] by (simp split: prod.splits)
  then show "idem_holder t (snd (idem_exec lease ttl t op s)) = Some a" using h(3) op by (simp add: begin_takes holder_eq live_def)
next
  fix op a t s
  assume "idem_fenced op = Some a" "fst (idem_exec lease ttl t op s)"
  then show "idem_holder t s = Some a" by (cases op) (auto simp: fenced_exec)
next
  fix t s a e op
  assume h: "idem_holder t s = Some a" "idem_till s = Some e" "t < e" "\<not> idem_ends a op" "0 \<le> lease"
  then obtain k where k: "live t s = Some (RHash k (Some e))" "running_as a k" "s = Some (RHash k (Some e))"
    by (auto simp: holder_eq idem_till_def live_Some)
  show "idem_holder t (snd (idem_exec lease ttl t op s)) = Some a \<and>
      (idem_till (snd (idem_exec lease ttl t op s)) = Some e \<or> idem_till (snd (idem_exec lease ttl t op s)) = Some (t + lease))"
  proof (cases rule: exec_cases [of lease ttl t op s])
    case (renews token h till)
    then show ?thesis using k \<open>0 \<le> lease\<close> by (simp add: idem_till_def holder_eq live_def)
  next
    case (ends token)
    then show ?thesis using h(1,4) by auto
  qed (use k h in auto)
next
  fix op a t s
  assume h: "idem_fenced op = Some a" "\<not> idem_ends a op" "idem_holder t s = Some a"
  then obtain k till where "live t s = Some (RHash k till)" "running_as a k" by (auto simp: holder_eq)
  moreover have "op = IRenew a" using h(1,2) by (cases op) auto
  ultimately show "fst (idem_exec lease ttl t op s) \<and> idem_till (snd (idem_exec lease ttl t op s)) = Some (t + lease)"
    by (simp add: fenced_done answered_def idem_till_def)
next
  fix t s a e u
  assume "idem_holder t s = Some a" "idem_till s = Some e" "(u::int) < e"
  then show "idem_holder u s = Some a" by (auto simp: holder_eq live_Some idem_till_def)
qed

section \<open>What the record is for\<close>

text \<open>A key, seen from outside: free, held by a run, or the result of one. A run that takes it, another
  fingerprint, a repeat: what each is told. In the one millisecond a record ends at, the script does not
  trust it.\<close>

datatype slot = Free | Held string string int | Stored string string int

fun slot_live :: "int \<Rightarrow> slot \<Rightarrow> slot" where
  "slot_live now Free = Free"
| "slot_live now (Held token fp till) = (if now \<le> till then Held token fp till else Free)"
| "slot_live now (Stored fp value till) = (if now \<le> till then Stored fp value till else Free)"

fun slot_begin :: "int \<Rightarrow> string \<Rightarrow> string \<Rightarrow> int \<Rightarrow> slot \<Rightarrow> begun \<times> slot" where
  "slot_begin now token fp lease Free = (Started, Held token fp (now + lease))"
| "slot_begin now token fp lease (Held a g till) =
     (if till = now then Corrupt else if g \<noteq> fp then Mismatch else Running (till - now), Held a g till)"
| "slot_begin now token fp lease (Stored g v till) =
     (if till = now then Corrupt else if g \<noteq> fp then Mismatch else Done v, Stored g v till)"

datatype answer = Begun begun | Did bool

fun slot_exec :: "int \<Rightarrow> int \<Rightarrow> int \<Rightarrow> iop \<Rightarrow> slot \<Rightarrow> answer \<times> slot" where
  "slot_exec lease ttl now (IBegin token fp) s = (case slot_live now s of Free \<Rightarrow> (Begun Started, Held token fp (now + lease))
     | _ \<Rightarrow> (Begun (fst (slot_begin now token fp lease s)), s))"
| "slot_exec lease ttl now (IRenew token) s = (case slot_live now s of
     Held a fp till \<Rightarrow> if a = token then (Did True, Held a fp (now + lease)) else (Did False, s) | _ \<Rightarrow> (Did False, s))"
| "slot_exec lease ttl now (IComplete token v) s = (case slot_live now s of
     Held a fp till \<Rightarrow> if a = token then (Did True, Stored fp v (now + 1000 * ttl)) else (Did False, s) | _ \<Rightarrow> (Did False, s))"
| "slot_exec lease ttl now (IRelease token) s = (case slot_live now s of
     Held a fp till \<Rightarrow> if a = token then (Did True, Free) else (Did False, s) | _ \<Rightarrow> (Did False, s))"
| "slot_exec lease ttl now IForget s = (Did (slot_live now s \<noteq> Free), Free)"

text \<open>The scripts' answers, and the key as a slot.\<close>

fun idem_answer :: "int \<Rightarrow> int \<Rightarrow> int \<Rightarrow> iop \<Rightarrow> ikey \<Rightarrow> answer result" where
  "idem_answer lease ttl now (IBegin token fp) k = map_sum id Begun (fst (begin_call now token fp lease k))"
| "idem_answer lease ttl now (IRenew token) k = map_sum id (\<lambda>n. Did (n = 1)) (fst (idem_renew now token lease k))"
| "idem_answer lease ttl now (IComplete token json) k = map_sum id (\<lambda>n. Did (n = 1)) (fst (idem_complete now token json ttl k))"
| "idem_answer lease ttl now (IRelease token) k = map_sum id (\<lambda>n. Did (n = 1)) (fst (idem_release now token k))"
| "idem_answer lease ttl now IForget k = Inr (Did (fst (forget now k)))"

definition slot_of :: "ikey \<Rightarrow> slot" where
  "slot_of k = (case k of Some (RHash h (Some till)) \<Rightarrow>
       (case (hget h ''token'', hget h ''fp'', hget h ''value'') of
          (Some a, Some fp, None) \<Rightarrow> Held a fp till | (None, Some fp, Some v) \<Rightarrow> Stored fp v till | _ \<Rightarrow> Free)
     | _ \<Rightarrow> Free)"

definition valid_fp :: "string \<Rightarrow> bool" where
  "valid_fp fp = (fp = [] \<or> length fp = 64 \<and> list_all is_hex fp)"

definition valid_token :: "string \<Rightarrow> bool" where
  "valid_token token = (length token = 32 \<and> list_all is_hex token)"

fun valid_op :: "iop \<Rightarrow> bool" where
  "valid_op (IBegin token fp) = (valid_token token \<and> valid_fp fp)"
| "valid_op _ = True"

text \<open>What the package writes.\<close>

definition done_hash :: "string \<Rightarrow> string \<Rightarrow> string hash" where
  "done_hash fp v = [(''state'', ''done''), (''fp'', fp), (''value'', v)]"

definition idem_wf :: "ikey \<Rightarrow> bool" where
  "idem_wf k = (k = None \<or> (\<exists>a fp till. valid_token a \<and> valid_fp fp \<and> k = Some (RHash (begun_hash a fp) (Some till))) \<or>
     (\<exists>fp v till. valid_fp fp \<and> k = Some (RHash (done_hash fp v) (Some till))))"

lemma begun_hash_eq: "begun_hash a fp = [(''state'', ''running''), (''token'', a), (''fp'', fp)]"
  by (simp add: begun_hash_def hset_def)

lemma done_hash_eq: "hdel ''token'' (hsets [(''state'', ''done''), (''value'', v)] (begun_hash a fp)) = done_hash fp v"
  by (simp add: begun_hash_eq done_hash_def hset_def hdel_def)

lemma running_done [simp]: "\<not> running_as a (done_hash fp v)"
  by (simp add: running_as_def done_hash_def hget_def)

lemma slot_of_simps [simp]:
  "slot_of None = Free" "slot_of (Some (RHash (begun_hash a fp) (Some till))) = Held a fp till"
  "slot_of (Some (RHash (done_hash fp v) (Some till))) = Stored fp v till"
  by (simp_all add: slot_of_def begun_hash_eq done_hash_def hget_def)

lemma idem_begin_begun:
  assumes "now \<le> till" "valid_token a" "valid_fp g"
  shows "begin_call now token fp lease (Some (RHash (begun_hash a g) (Some till))) =
    (Inr (if till = now then Corrupt else if g \<noteq> fp then Mismatch else Running (till - now)), Some (RHash (begun_hash a g) (Some till)))"
  using assms
  by (auto simp: begin_call_def idem_begin_def live_def begun_hash_eq hget_def PTTL_def valid_token_def valid_fp_def hex_chars_def Let_def)

lemma idem_begin_done:
  assumes "now \<le> till" "valid_fp g"
  shows "begin_call now token fp lease (Some (RHash (done_hash g v) (Some till))) =
    (Inr (if till = now then Corrupt else if g \<noteq> fp then Mismatch else Done v), Some (RHash (done_hash g v) (Some till)))"
  using assms
  by (auto simp: begin_call_def idem_begin_def live_def done_hash_def hget_def PTTL_def valid_fp_def hex_chars_def Let_def)

lemma live_till: "live now (Some (RHash h (Some till))) = (if now \<le> till then Some (RHash h (Some till)) else None)"
  by (simp add: live_def)

lemma idem_wf_simps [simp]:
  "idem_wf None" "valid_token a \<Longrightarrow> valid_fp fp \<Longrightarrow> idem_wf (Some (RHash (begun_hash a fp) (Some till)))"
  "valid_fp fp \<Longrightarrow> idem_wf (Some (RHash (done_hash fp v) (Some till)))"
  by (auto simp: idem_wf_def)

lemmas script_defs = idem_renew_def idem_complete_def idem_release_def forget_def answered_def live_till done_hash_eq [simplified]

definition simulated :: "int \<Rightarrow> int \<Rightarrow> int \<Rightarrow> iop \<Rightarrow> ikey \<Rightarrow> bool" where
  "simulated lease ttl now op k = (idem_answer lease ttl now op k = Inr (fst (slot_exec lease ttl now op (slot_of k))) \<and>
    slot_of (snd (idem_exec lease ttl now op k)) = snd (slot_exec lease ttl now op (slot_of k)) \<and>
    idem_wf (snd (idem_exec lease ttl now op k)))"

lemma simulated_dead:
  assumes "live now k = None" "slot_live now (slot_of k) = Free" "idem_wf k" "valid_op op"
  shows "simulated lease ttl now op k"
  using assms
  by (cases op) (simp_all add: simulated_def begin_takes idem_renew_def idem_complete_def idem_release_def forget_def answered_def)

lemma simulated_begun:
  assumes "now \<le> till" "valid_token a" "valid_fp g" "valid_op op"
  shows "simulated lease ttl now op (Some (RHash (begun_hash a g) (Some till)))"
  using assms
  by (cases op) (simp_all add: simulated_def idem_begin_begun script_defs)

lemma simulated_done:
  assumes "now \<le> till" "valid_fp g" "valid_op op"
  shows "simulated lease ttl now op (Some (RHash (done_hash g v) (Some till)))"
  using assms
  by (cases op) (simp_all add: simulated_def idem_begin_done script_defs)

lemma idem_simulated:
  assumes "idem_wf k" "valid_op op"
  shows "simulated lease ttl now op k"
proof (cases "live now k")
  case None
  then have "slot_live now (slot_of k) = Free" using assms(1) by (auto simp: idem_wf_def live_till split: if_splits)
  then show ?thesis using simulated_dead [OF None _ assms] by simp
next
  case (Some x)
  then have "k \<noteq> None" by (auto simp: live_Some)
  then show ?thesis using assms Some simulated_begun simulated_done by (fastforce simp: idem_wf_def live_till split: if_splits)
qed

lemma idem_after:
  assumes "idem_wf k" "\<forall>(t, op) \<in> set es. valid_op op"
  shows "idem_wf (after (idem_exec lease ttl) es k)"
  using assms
proof (induction es arbitrary: k)
  case (Cons e es)
  then show ?case using idem_simulated [of k "snd e" lease ttl "fst e"] by (cases e) (auto simp: simulated_def)
qed simp

section \<open>The client\<close>

text \<open>\<open>codes\<close> is what the schema refuses a value with; the text of \<open>JSON.stringify\<close> may be missing.\<close>

record schema =
  sc_parse :: "jv \<Rightarrow> string + jv"
  sc_text :: "jv \<Rightarrow> string option"
  sc_json :: "string \<Rightarrow> jv option"

datatype guard_code = RATE_LIMITED | COST | IN_PROGRESS | MISMATCH | INVALID | LEASE_LOST | TIMEOUT

datatype run_error = Guard guard_code string "int option" | Threw string | ServerError string

definition invalid :: "string \<Rightarrow> string \<Rightarrow> run_error" where
  "invalid name detail = Guard INVALID (''run on \"'' @ name @ ''\": '' @ detail) None"

definition corrupt_error :: "string \<Rightarrow> run_error" where
  "corrupt_error name = invalid name ''the stored record is not one this package wrote, and the work was not run again''"

definition toStored :: "string \<Rightarrow> schema \<Rightarrow> jv \<Rightarrow> run_error + string \<times> jv" where
  "toStored name sc result = (case sc_parse sc result of
     Inl codes \<Rightarrow> Inl (invalid name (''the result does not match the schema, so it was not stored '' @ codes))
   | Inr parsed \<Rightarrow> (case sc_text sc parsed of
       None \<Rightarrow> Inl (invalid name ''the result has no JSON form, so it was not stored'')
     | Some json \<Rightarrow> (case sc_json sc json of None \<Rightarrow> Inl (Threw ''JSON.parse'')
       | Some raw \<Rightarrow> (case sc_parse sc raw of
           Inl codes \<Rightarrow> Inl (invalid name (''the result does not match the schema once stored as JSON, so it was not stored '' @ codes))
         | Inr again \<Rightarrow> Inr (json, again)))))"

definition fromStored :: "string \<Rightarrow> schema \<Rightarrow> string \<Rightarrow> run_error + jv" where
  "fromStored name sc json = (case sc_json sc json of None \<Rightarrow> Inl (corrupt_error name)
     | Some raw \<Rightarrow> (case sc_parse sc raw of
         Inl codes \<Rightarrow> Inl (invalid name (''the stored result no longer matches the schema, and the work was not run again '' @ codes))
       | Inr v \<Rightarrow> Inr v))"

definition FIRST_POLL :: int where "FIRST_POLL = 25"
definition LAST_POLL :: int where "LAST_POLL = 250"

definition next_pause :: "int \<Rightarrow> int" where
  "next_pause pause = min (pause * 2) LAST_POLL"

definition poll_sleep :: "int \<Rightarrow> int \<Rightarrow> int \<Rightarrow> int" where
  "poll_sleep pttl pause left = max 1 (min pttl (min pause left))"

definition checkWait :: "string \<Rightarrow> jv option \<Rightarrow> string + int" where
  "checkWait name wait = (case wait of None \<Rightarrow> Inr 0
     | Some v \<Rightarrow> if whole_from 0 (Some v) then Inr (num_of (Some v))
         else Inl (''run on \"'' @ name @ ''\": wait is a whole number of milliseconds, 0 or more''))"

text \<open>
  The polls of one call: what else reached the key since the one before, the server's time of this
  \<open>BEGIN\<close>, and what the host's clock says is left of \<open>wait\<close> once it answered. \<open>None\<close>: still polling when the
  list ends.
\<close>

type_synonym round = "(int \<times> iop) list \<times> int \<times> int"

fun beginOrWait :: "int \<Rightarrow> int \<Rightarrow> string \<Rightarrow> string \<Rightarrow> round list \<Rightarrow> ikey \<Rightarrow> begun result option \<times> ikey" where
  "beginOrWait lease ttl token fp [] k = (None, k)"
| "beginOrWait lease ttl token fp ((es, t, left) # rounds) k =
     (case begin_call t token fp lease (after (idem_exec lease ttl) es k) of
        (Inl e, k') \<Rightarrow> (Some (Inl e), k')
      | (Inr found, k') \<Rightarrow> if \<not> is_running found \<or> left \<le> 0 then (Some (Inr found), k')
          else beginOrWait lease ttl token fp rounds k')"

definition notStarted :: "string \<Rightarrow> schema \<Rightarrow> begun \<Rightarrow> run_error + jv \<times> bool" where
  "notStarted name sc found = (case found of
     Done json \<Rightarrow> (case fromStored name sc json of Inl e \<Rightarrow> Inl e | Inr v \<Rightarrow> Inr (v, True))
   | Running pttl \<Rightarrow> Inl (Guard IN_PROGRESS (''run on \"'' @ name @ ''\": the same key is still running; retryAfter is when its lease lapses unless renewed'') (Some pttl))
   | Mismatch \<Rightarrow> Inl (Guard MISMATCH (''run on \"'' @ name @ ''\": this key was first used with a different fingerprint; a repeat must send the same request'') None)
   | _ \<Rightarrow> Inl (corrupt_error name))"

definition lease_lost_error :: "string \<Rightarrow> int \<Rightarrow> run_error" where
  "lease_lost_error name lease = Guard LEASE_LOST (''run on \"'' @ name @ ''\": the key was taken from this run before it finished (forgotten, or its lease of '' @ show_nat (nat lease) @
     ''ms went unrenewed), so a repeat may have run it too; its result was not stored'') None"

text \<open>
  One call that takes the key in its last round: what reaches it while \<open>work\<close> runs, its own renewals among
  them, what \<open>work\<close> gave, whether a renewal found the lease lost, and the time of the last command.
\<close>

record attempt =
  at_token :: string
  at_fp :: string
  at_rounds :: "round list"
  at_during :: "(int \<times> iop) list"
  at_work :: "string + jv"
  at_lost :: bool
  at_end :: int

definition run_call :: "string \<Rightarrow> schema \<Rightarrow> int \<Rightarrow> int \<Rightarrow> attempt \<Rightarrow> ikey \<Rightarrow> (run_error + jv \<times> bool) option \<times> ikey" where
  "run_call name sc lease ttl x k = (case beginOrWait lease ttl (at_token x) (at_fp x) (at_rounds x) k of
     (None, k') \<Rightarrow> (None, k')
   | (Some (Inl e), k') \<Rightarrow> (Some (Inl (ServerError e)), snd (idem_release (fst (snd (last (at_rounds x)))) (at_token x) k'))
   | (Some (Inr found), k') \<Rightarrow> if found \<noteq> Started then (Some (notStarted name sc found), k')
       else (let k'' = after (idem_exec lease ttl) (at_during x) k' in
         (case (case at_work x of Inl e \<Rightarrow> Inl (Threw e) | Inr r \<Rightarrow> toStored name sc r) of
            Inl e \<Rightarrow> (Some (Inl e), snd (idem_release (at_end x) (at_token x) k''))
          | Inr (json, v) \<Rightarrow> if at_lost x then (Some (Inl (lease_lost_error name lease)), k'')
              else (case idem_complete (at_end x) (at_token x) json ttl k'' of
                 (Inl e, k3) \<Rightarrow> (Some (Inl (ServerError e)), k3)
               | (Inr n, k3) \<Rightarrow> if n = 1 then (Some (Inr (v, False)), k3)
                   else (Some (Inl (lease_lost_error name lease)), k3)))))"

section \<open>One run at a time\<close>

text \<open>While nobody takes the key again under a token, a record of that token has the fingerprint it was
  taken with.\<close>

lemma record_kept:
  assumes "\<And>h till. k = Some (RHash h till) \<Longrightarrow> running_as a h \<Longrightarrow> h = begun_hash a fp"
    "\<forall>(u, op) \<in> set es. idem_takes op \<noteq> Some a" "after (idem_exec lease ttl) es k = Some (RHash h till)" "running_as a h"
  shows "h = begun_hash a fp"
  using assms
proof (induction es arbitrary: k)
  case (Cons e es)
  obtain u op where e: "e = (u, op)" by (cases e)
  have step: "h = begun_hash a fp" if "snd (idem_exec lease ttl u op k) = Some (RHash h till)" "running_as a h" for h till
  proof (cases rule: exec_cases [of lease ttl u op k])
    case same
    then have "k = Some (RHash h till)" using that by simp
    then show ?thesis using Cons.prems(1) that by blast
  next
    case (takes token g)
    then show ?thesis using that Cons.prems(2) e by auto
  next
    case (renews token h' till')
    then show ?thesis using that Cons.prems(1) by (auto simp: live_Some)
  next
    case (ends token)
    then show ?thesis using that by blast
  qed
  show ?case using Cons.IH [OF step] Cons.prems(2-4) e by simp
qed auto

lemma exec_taken:
  "idem_exec lease ttl t (IBegin a fp) k = (True, k1) \<Longrightarrow> k1 = Some (RHash (begun_hash a fp) (Some (t + lease)))"
  using begin_started [where now = t and token = a and fp = fp and lease = lease and k = k] begin_takes [of t k a fp lease]
  by (auto split: prod.splits)

text \<open>C27. A result is stored by a run that had the key to itself: from the \<open>BEGIN\<close> that took it to the
  \<open>COMPLETE\<close> that stored its result, no other call of that key started its work.\<close>

theorem stored_alone:
  assumes "idem_exec lease ttl t (IBegin a fp) k = (True, k1)" "timed t es" "\<forall>(u, op) \<in> set es. idem_takes op \<noteq> Some a"
    "last_time t es \<le> v" "fst (idem_exec lease ttl v (IComplete a json) (after (idem_exec lease ttl) es k1))" "0 \<le> lease"
  shows "\<forall>u b g. (u, IBegin b g, True) \<notin> set (trace (idem_exec lease ttl) es k1)"
proof -
  have "\<forall>u op. (u, op, True) \<in> set (trace (idem_exec lease ttl) es (snd (idem_exec lease ttl t (IBegin a fp) k))) \<longrightarrow> idem_takes op = None"
    by (rule idem.exclusive [where a = a and op' = "IComplete a json" and v = v]) (use assms in simp_all)
  then show ?thesis using assms(1) by fastforce
qed

theorem stored_alone_witness:
  "\<forall>u b g. (u, IBegin b g, True) \<notin> set (trace (idem_exec 1000 60) [(5, IBegin ''b'' []), (400, IRenew ''a'')] (snd (idem_exec 1000 60 0 (IBegin ''a'' []) None)))"
proof (rule stored_alone [where t = 0 and a = "''a''" and fp = "[]" and k = None and v = 1300 and json = "''1''"])
  show "fst (idem_exec 1000 60 1300 (IComplete ''a'' ''1'') (after (idem_exec 1000 60) [(5, IBegin ''b'' []), (400, IRenew ''a'')] (snd (idem_exec 1000 60 0 (IBegin ''a'' []) None))))"
    by code_simp
  show "idem_exec 1000 60 0 (IBegin ''a'' []) None = (True, snd (idem_exec 1000 60 0 (IBegin ''a'' []) None))" by code_simp
qed (auto simp: last_time_def)

text \<open>C28. A run whose renewals reach the server before its lease ends each time keeps the key, whatever
  other calls do short of a \<open>forget\<close>: its result is stored.\<close>

theorem renewed_is_stored:
  assumes "idem_exec lease ttl t (IBegin a fp) k = (True, k1)" "0 < lease" "timed t es"
    "\<forall>(u, op) \<in> set es. \<not> idem_ends a op" "renewed idem_fenced lease a (t + lease) v es"
  shows "fst (idem_exec lease ttl v (IComplete a json) (after (idem_exec lease ttl) es k1))"
proof -
  have k1: "k1 = Some (RHash (begun_hash a fp) (Some (t + lease)))" by (rule exec_taken [OF assms(1)])
  have "idem_holder v (after (idem_exec lease ttl) es k1) = Some a"
    by (rule idem.kept [where t = t and e = "t + lease"]) (use assms(2-5) in \<open>simp_all add: k1 holder_eq live_till idem_till_def\<close>)
  then show ?thesis by (simp add: fenced_exec)
qed

theorem renewed_is_stored_witness:
  "fst (idem_exec 900 60 1500 (IComplete ''a'' ''1'') (after (idem_exec 900 60) [(300, IRenew ''a''), (500, IBegin ''b'' []), (600, IRenew ''a''), (900, IRenew ''a'')]
    (snd (idem_exec 900 60 0 (IBegin ''a'' []) None))))"
proof (rule renewed_is_stored [where t = 0 and fp = "[]" and k = None])
  show "idem_exec 900 60 0 (IBegin ''a'' []) None = (True, snd (idem_exec 900 60 0 (IBegin ''a'' []) None))" by code_simp
qed auto

section \<open>The slot is what the scripts implement\<close>

text \<open>C29. On every record the package writes, each script answers and leaves what the slot's operation
  does, and leaves a record the package writes. A record is refused as corrupt only in the millisecond its
  expiry falls in.\<close>

theorem scripts_refine_slot:
  assumes "idem_wf k" "valid_op op"
  shows "idem_answer lease ttl now op k = Inr (fst (slot_exec lease ttl now op (slot_of k))) \<and>
    slot_of (snd (idem_exec lease ttl now op k)) = snd (slot_exec lease ttl now op (slot_of k)) \<and>
    idem_wf (snd (idem_exec lease ttl now op k)) \<and>
    (idem_answer lease ttl now op k = Inr (Begun Corrupt) \<longleftrightarrow>
       (\<exists>token fp. op = IBegin token fp) \<and> (\<exists>h. k = Some (RHash h (Some now))))"
proof -
  note sim = idem_simulated [OF assms, of lease ttl now, unfolded simulated_def]
  have "fst (slot_exec lease ttl now op (slot_of k)) = Begun Corrupt \<longleftrightarrow>
      (\<exists>token fp. op = IBegin token fp) \<and> (\<exists>h. k = Some (RHash h (Some now)))"
    using assms(1) by (cases op) (auto simp: idem_wf_def split: slot.splits if_splits)
  then show ?thesis using sim by simp
qed

theorem scripts_refine_slot_witness:
  "idem_answer 1000 60 1000 (IBegin (replicate 32 (CHR ''0'')) []) (Some (RHash (begun_hash (replicate 32 (CHR ''a'')) []) (Some 1000))) = Inr (Begun Corrupt)"
proof -
  have "valid_token (replicate 32 (CHR ''a''))" "valid_token (replicate 32 (CHR ''0''))" by code_simp+
  then show ?thesis
    using scripts_refine_slot [of "Some (RHash (begun_hash (replicate 32 (CHR ''a'')) []) (Some 1000))" "IBegin (replicate 32 (CHR ''0'')) []" 1000 60 1000]
    by (simp add: valid_fp_def)
qed

section \<open>A repeat gets the first result\<close>

lemma stored_stays:
  assumes "\<forall>(u, op) \<in> set es. u \<le> till \<and> op \<noteq> IForget"
  shows "after (idem_exec lease ttl) es (Some (RHash (done_hash fp v) (Some till))) = Some (RHash (done_hash fp v) (Some till))"
  using assms
proof (induction es)
  case (Cons e es)
  obtain u op where e: "e = (u, op)" by (cases e)
  have "snd (idem_exec lease ttl u op (Some (RHash (done_hash fp v) (Some till)))) = Some (RHash (done_hash fp v) (Some till))"
    by (cases rule: exec_cases [of lease ttl u op "Some (RHash (done_hash fp v) (Some till))"])
      (use Cons.prems e in \<open>auto simp: live_till holder_eq\<close>)
  then show ?case using Cons e by simp
qed simp

lemma begun_in_wait:
  assumes "beginOrWait lease ttl token fp rounds k = (Some (Inr Started), k')"
  shows "\<exists>t. k' = Some (RHash (begun_hash token fp) (Some (t + lease)))"
  using assms
proof (induction rounds arbitrary: k)
  case (Cons r rounds)
  obtain es t left where r: "r = (es, t, left)" by (cases r)
  let ?b = "begin_call t token fp lease (after (idem_exec lease ttl) es k)"
  obtain found k2 where b: "?b = (found, k2)" by (cases ?b)
  show ?case
  proof (cases "found = Inr Started")
    case True
    then have "k2 = Some (RHash (begun_hash token fp) (Some (t + lease)))"
      using begin_started(1) [of t token fp lease] begin_takes b by (metis fst_conv snd_conv)
    then show ?thesis using Cons.prems r b True by auto
  next
    case False
    then show ?thesis using Cons r b by (auto split: sum.splits if_splits)
  qed
qed simp

lemma toStored_fromStored: "toStored name sc r = Inr (json, v) \<Longrightarrow> fromStored name sc json = Inr v"
  by (auto simp: toStored_def fromStored_def split: sum.splits option.splits)

lemma begun_in_wait_wf:
  assumes "idem_wf k" "valid_op (IBegin token fp)" "\<forall>(es, t, left) \<in> set rounds. \<forall>(u, op) \<in> set es. valid_op op"
    "beginOrWait lease ttl token fp rounds k = (r, k')"
  shows "idem_wf k'"
  using assms
proof (induction rounds arbitrary: k)
  case (Cons x rounds)
  obtain es t left where x: "x = (es, t, left)" by (cases x)
  have wf: "idem_wf (after (idem_exec lease ttl) es k)" using idem_after Cons.prems(1,3) x by auto
  obtain found k2 where b: "begin_call t token fp lease (after (idem_exec lease ttl) es k) = (found, k2)"
    by (cases "begin_call t token fp lease (after (idem_exec lease ttl) es k)")
  have "idem_wf k2" using idem_simulated [OF wf Cons.prems(2), of lease ttl t] b by (simp add: simulated_def)
  then show ?case using Cons.IH [of k2] Cons.prems(2-4) x b by (auto split: sum.splits if_splits)
qed simp

text \<open>A call that gave its own result has stored it, whole.\<close>

lemma run_stored:
  assumes "run_call name sc lease ttl x k = (Some (Inr (v, False)), k1)" "idem_wf k" "valid_op (IBegin (at_token x) (at_fp x))"
    "\<forall>(es, t, left) \<in> set (at_rounds x). \<forall>(u, op) \<in> set es. valid_op op"
    "\<forall>(u, op) \<in> set (at_during x). valid_op op \<and> idem_takes op \<noteq> Some (at_token x)"
  obtains json where "k1 = Some (RHash (done_hash (at_fp x) json) (Some (at_end x + 1000 * ttl)))" "fromStored name sc json = Inr v"
proof -
  obtain found k' where bw: "beginOrWait lease ttl (at_token x) (at_fp x) (at_rounds x) k = (found, k')"
    by (cases "beginOrWait lease ttl (at_token x) (at_fp x) (at_rounds x) k")
  have found: "found = Some (Inr Started)"
    using assms(1) bw by (auto simp: run_call_def notStarted_def split: option.splits sum.splits if_splits begun.splits)
  let ?k = "after (idem_exec lease ttl) (at_during x) k'"
  obtain t where k': "k' = Some (RHash (begun_hash (at_token x) (at_fp x)) (Some (t + lease)))"
    using begun_in_wait bw found by blast
  have wf: "idem_wf ?k" by (rule idem_after [OF begun_in_wait_wf [OF assms(2-4) bw]]) (use assms(5) in auto)
  obtain r json where st: "toStored name sc r = Inr (json, v)" and c: "idem_complete (at_end x) (at_token x) json ttl ?k = (Inr 1, k1)"
    using assms(1) unfolding run_call_def bw found Let_def by (auto split: sum.splits if_splits prod.splits)
  have "idem_holder (at_end x) ?k = Some (at_token x)" using fenced_exec(2) c by (metis answered_def fst_conv)
  then obtain h till where h: "live (at_end x) ?k = Some (RHash h till)" "running_as (at_token x) h" by (auto simp: holder_eq)
  have "h = begun_hash (at_token x) (at_fp x)"
    by (rule record_kept [where k = k' and es = "at_during x"]) (use h assms(5) in \<open>auto simp: k' live_Some\<close>)
  then have "k1 = Some (RHash (done_hash (at_fp x) json) (Some (at_end x + 1000 * ttl)))"
    using fenced_done(2) [OF h, of json ttl] c done_hash_eq [simplified] by simp
  then show thesis using that toStored_fromStored [OF st] by blast
qed

text \<open>C26. Once a call gave a result of its own, a repeat with the same fingerprint within the \<open>ttl\<close> gets that
  very value, as a replay: its \<open>work\<close> does not run, and nothing of the key changes, whatever else reached
  it meanwhile short of a \<open>forget\<close>.\<close>

theorem run_replayed:
  assumes "run_call name sc lease ttl x k = (Some (Inr (v, False)), k1)" "idem_wf k" "valid_op (IBegin (at_token x) (at_fp x))"
    "\<forall>(es, t, left) \<in> set (at_rounds x). \<forall>(u, op) \<in> set es. valid_op op"
    "\<forall>(u, op) \<in> set (at_during x). valid_op op \<and> idem_takes op \<noteq> Some (at_token x)"
    and "at_fp y = at_fp x" "at_rounds y = (es, t, left) # rounds" "t < at_end x + 1000 * ttl"
    "\<forall>(u, op) \<in> set es. u \<le> t \<and> op \<noteq> IForget"
  shows "run_call name sc lease ttl y k1 = (Some (Inr (v, True)), k1)"
proof -
  obtain json where k1: "k1 = Some (RHash (done_hash (at_fp x) json) (Some (at_end x + 1000 * ttl)))" and v: "fromStored name sc json = Inr v"
    using run_stored [OF assms(1-5)] by blast
  have same: "after (idem_exec lease ttl) es k1 = k1" unfolding k1 by (rule stored_stays) (use assms(8,9) in force)
  have "valid_fp (at_fp x)" using assms(3) by simp
  then have "begin_call t (at_token y) (at_fp y) lease k1 = (Inr (Done json), k1)"
    using idem_begin_done [of t "at_end x + 1000 * ttl" "at_fp x" "at_token y" "at_fp x" lease json] assms(6,8) unfolding k1 by simp
  then show ?thesis using v by (simp add: run_call_def assms(7) same notStarted_def)
qed

definition ex_schema :: schema where
  "ex_schema = \<lparr>sc_parse = Inr, sc_text = (\<lambda>v. Some ''1''), sc_json = (\<lambda>j. Some (JNum 1))\<rparr>"

definition ex_attempt :: "char \<Rightarrow> int \<Rightarrow> attempt" where
  "ex_attempt c t = \<lparr>at_token = replicate 32 c, at_fp = [], at_rounds = [([], t, 0)], at_during = [(t + 300, IRenew (replicate 32 c))],
     at_work = Inr (JNum 1), at_lost = False, at_end = t + 500\<rparr>"

theorem run_replayed_witness:
  "fst (run_call ''orders'' ex_schema 1000 60 (ex_attempt (CHR ''b'') 20000) (snd (run_call ''orders'' ex_schema 1000 60 (ex_attempt (CHR ''a'') 0) None)))
     = Some (Inr (JNum 1, True))"
proof -
  have first: "run_call ''orders'' ex_schema 1000 60 (ex_attempt (CHR ''a'') 0) None =
      (Some (Inr (JNum 1, False)), snd (run_call ''orders'' ex_schema 1000 60 (ex_attempt (CHR ''a'') 0) None))"
    by code_simp
  have valid: "valid_op (IBegin (at_token (ex_attempt (CHR ''a'') 0)) (at_fp (ex_attempt (CHR ''a'') 0)))" by code_simp
  have "run_call ''orders'' ex_schema 1000 60 (ex_attempt (CHR ''b'') 20000) (snd (run_call ''orders'' ex_schema 1000 60 (ex_attempt (CHR ''a'') 0) None)) =
      (Some (Inr (JNum 1, True)), snd (run_call ''orders'' ex_schema 1000 60 (ex_attempt (CHR ''a'') 0) None))"
    by (rule run_replayed [OF first _ valid, where es = "[]" and t = 20000 and left = 0 and rounds = "[]"])
      (simp_all add: ex_attempt_def)
  then show ?thesis by simp
qed

end
