(* ===== verification/Redis_Lock.thy ===== *)
theory Redis_Lock
  imports Redis_Data Leases
begin

text \<open>
  The lock of \<open>packages/redis/src/lock/with-lock.ts\<close>: \<open>SET NX PX\<close> to take it, a compare-and-delete to give it
  back, and what \<open>withLock\<close> tells its caller. Other calls of the same key run between its commands.
\<close>

section \<open>The commands\<close>

definition set_nx :: "int \<Rightarrow> string \<Rightarrow> int \<Rightarrow> ekey \<Rightarrow> bool \<times> ekey" where
  "set_nx now token ttl k = (if eget now k = None then (True, eset now token ttl) else (False, k))"

definition lock_release :: "int \<Rightarrow> string \<Rightarrow> ekey \<Rightarrow> bool \<times> ekey" where
  "lock_release now token k = (if eget now k = Some token then (True, None) else (False, k))"

datatype lop = LTake string int | LRelease string

fun lock_exec :: "int \<Rightarrow> lop \<Rightarrow> ekey \<Rightarrow> bool \<times> ekey" where
  "lock_exec now (LTake token ttl) k = set_nx now token ttl k"
| "lock_exec now (LRelease token) k = lock_release now token k"

fun lock_takes :: "lop \<Rightarrow> string option" where
  "lock_takes (LTake token ttl) = (if 0 \<le> ttl then Some token else None)"
| "lock_takes _ = None"

fun lock_fenced :: "lop \<Rightarrow> string option" where
  "lock_fenced (LRelease token) = Some token"
| "lock_fenced _ = None"

fun lock_ends :: "string \<Rightarrow> lop \<Rightarrow> bool" where
  "lock_ends a (LRelease token) = (token = a)"
| "lock_ends a _ = False"

definition lock_till :: "ekey \<Rightarrow> int option" where
  "lock_till k = map_option snd k"

interpretation lk: fenced_lease lock_exec eget lock_takes lock_fenced lock_ends lock_till lease
  for lease :: int
proof
  fix t op s a
  assume "eget t (snd (lock_exec t op s)) = Some a" "eget t s \<noteq> Some a"
  then show "lock_takes op = Some a"
    by (cases op) (auto simp: set_nx_def lock_release_def eget_def eset_def split: if_splits option.splits)
next
  fix u s a t
  assume "eget u s = Some a" "(t::int) \<le> u"
  then show "eget t s = Some a" by (auto simp: eget_def split: option.splits if_splits)
next
  fix op a t s
  assume "lock_takes op = Some a" "fst (lock_exec t op s)"
  then show "eget t (snd (lock_exec t op s)) = Some a"
    by (cases op) (auto simp: set_nx_def eget_eset split: if_splits)
next
  fix op a t s
  assume "lock_fenced op = Some a" "fst (lock_exec t op s)"
  then show "eget t s = Some a" by (cases op) (auto simp: lock_release_def split: if_splits)
next
  fix t s a e op
  assume "eget t s = Some a" "lock_till s = Some e" "\<not> lock_ends a op"
  then show "eget t (snd (lock_exec t op s)) = Some a \<and> (lock_till (snd (lock_exec t op s)) = Some e \<or> lock_till (snd (lock_exec t op s)) = Some (t + lease))"
    by (cases op) (auto simp: set_nx_def lock_release_def)
next
  fix op a t s
  assume "lock_fenced op = Some a" "\<not> lock_ends a op"
  then show "fst (lock_exec t op s) \<and> lock_till (snd (lock_exec t op s)) = Some (t + lease)" by (cases op) auto
next
  fix t s a e u
  assume "eget t s = Some a" "lock_till s = Some e" "(u::int) < e"
  then show "eget u s = Some a" by (auto simp: eget_def lock_till_def split: option.splits if_splits)
qed

section \<open>The call\<close>

datatype lock_error = LockHeld string | LockLost string | WorkThrew string

text \<open>
  The tries: what else reached the lock since the one before, the server's time of this try, and whether
  the deadline had passed when it was refused. \<open>None\<close>: still trying when the list ends.
\<close>

fun take_lock :: "string \<Rightarrow> int \<Rightarrow> ((int \<times> lop) list \<times> int \<times> bool) list \<Rightarrow> ekey \<Rightarrow> (int option) option \<times> ekey" where
  "take_lock token ttl [] k = (None, k)"
| "take_lock token ttl ((es, t, spent) # tries) k = (case set_nx t token ttl (after lock_exec es k) of
     (True, k') \<Rightarrow> (Some (Some t), k')
   | (False, k') \<Rightarrow> if spent then (Some None, k') else take_lock token ttl tries k')"

text \<open>One call: its token, its time to live and its tries, what reaches the lock while \<open>work\<close> runs, what
  \<open>work\<close> gave, and the time of the release.\<close>

record 'a lock_call =
  lc_token :: string
  lc_ttl :: int
  lc_tries :: "((int \<times> lop) list \<times> int \<times> bool) list"
  lc_during :: "(int \<times> lop) list"
  lc_work :: "string + 'a"
  lc_end :: int

text \<open>A text is its UTF-8 bytes: the three between the sentences are the dash of the source.\<close>

definition held_text :: "string \<Rightarrow> int \<Rightarrow> string" where
  "held_text key wait = (if wait = 0
     then ''The lock \"'' @ key @ ''\" is held by somebody else, and this call did not wait for it '' @
       [CHR 0xE2, CHR 0x80, CHR 0x94] @ '' pass `wait` to keep trying''
     else ''The lock \"'' @ key @ ''\" is held by somebody else, and '' @ show_nat (nat wait) @ ''ms was not long enough to wait for it'')"

definition lost_text :: "string \<Rightarrow> int \<Rightarrow> string" where
  "lost_text key ttl = ''The lock \"'' @ key @ ''\" expired before its work finished: it ran longer than the '' @ show_nat (nat ttl) @
     ''ms ttl, so it may have run beside another holder''"

definition withLock :: "string \<Rightarrow> int \<Rightarrow> 'a lock_call \<Rightarrow> ekey \<Rightarrow> (lock_error + 'a) option \<times> ekey" where
  "withLock key wait x k = (case take_lock (lc_token x) (lc_ttl x) (lc_tries x) k of
     (None, k') \<Rightarrow> (None, k')
   | (Some None, k') \<Rightarrow> (Some (Inl (LockHeld (held_text key wait))), k')
   | (Some (Some t), k') \<Rightarrow>
       (let k'' = after lock_exec (lc_during x) k'; (released, k3) = lock_release (lc_end x) (lc_token x) k'' in
        (case lc_work x of Inl e \<Rightarrow> (Some (Inl (WorkThrew e)), k3)
         | Inr v \<Rightarrow> if released then (Some (Inr v), k3) else (Some (Inl (LockLost (lost_text key (lc_ttl x)))), k3))))"

lemma take_lock_taken:
  "take_lock token ttl tries k = (Some (Some t), k') \<Longrightarrow> k' = eset t token ttl"
  by (induction tries arbitrary: k) (auto simp: set_nx_def split: prod.splits if_splits bool.splits)

text \<open>C30. A \<open>withLock\<close> that hands back its work's value had the lock to itself from the take to the release:
  no other call took it in between. One whose lock was lost, or taken by another, says \<open>LOCK_LOST\<close>, and
  leaves the lock of the other as it is.\<close>

theorem lock_alone_or_told:
  assumes "take_lock (lc_token x) (lc_ttl x) (lc_tries x) k = (Some (Some t), k')" "lc_work x = Inr v" "0 \<le> lc_ttl x"
    "timed t (lc_during x)" "\<forall>(u, op) \<in> set (lc_during x). lock_takes op \<noteq> Some (lc_token x)" "last_time t (lc_during x) \<le> lc_end x"
  shows "(fst (withLock key wait x k) = Some (Inr v) \<longleftrightarrow> eget (lc_end x) (after lock_exec (lc_during x) k') = Some (lc_token x)) \<and>
    (fst (withLock key wait x k) = Some (Inr v) \<longrightarrow>
       (\<forall>u op. (u, op, True) \<in> set (trace lock_exec (lc_during x) k') \<longrightarrow> lock_takes op = None)) \<and>
    (fst (withLock key wait x k) \<noteq> Some (Inr v) \<longrightarrow>
       withLock key wait x k = (Some (Inl (LockLost (lost_text key (lc_ttl x)))), after lock_exec (lc_during x) k'))"
proof -
  have k0: "lock_exec t (LTake (lc_token x) (lc_ttl x)) None = (True, k')"
    using take_lock_taken [OF assms(1)] by (simp add: set_nx_def eget_def)
  have call: "withLock key wait x k = (if eget (lc_end x) (after lock_exec (lc_during x) k') = Some (lc_token x) then (Some (Inr v), None)
      else (Some (Inl (LockLost (lost_text key (lc_ttl x)))), after lock_exec (lc_during x) k'))"
    by (simp add: withLock_def assms(1,2) lock_release_def Let_def)
  have "\<forall>u op. (u, op, True) \<in> set (trace lock_exec (lc_during x) k') \<longrightarrow> lock_takes op = None"
    if "eget (lc_end x) (after lock_exec (lc_during x) k') = Some (lc_token x)"
  proof -
    have "\<forall>u op. (u, op, True) \<in> set (trace lock_exec (lc_during x) (snd (lock_exec t (LTake (lc_token x) (lc_ttl x)) None))) \<longrightarrow> lock_takes op = None"
      by (rule lk.exclusive [where a = "lc_token x" and op' = "LRelease (lc_token x)" and v = "lc_end x" and lease = 0])
        (use assms that k0 in \<open>simp_all add: lock_release_def\<close>)
    then show ?thesis using k0 by simp
  qed
  then show ?thesis unfolding call by (auto split: if_splits)
qed

definition ex_call :: "int lock_call" where
  "ex_call = \<lparr>lc_token = ''a'', lc_ttl = 1000, lc_tries = [([], 0, True)], lc_during = [(500, LTake ''b'' 1000), (1500, LTake ''b'' 1000)],
     lc_work = Inr 7, lc_end = 1600\<rparr>"

theorem lock_alone_or_told_witness:
  "withLock ''nightly'' 0 ex_call None = (Some (Inl (LockLost (lost_text ''nightly'' 1000))), Some (''b'', 2500))"
proof -
  have "take_lock (lc_token ex_call) (lc_ttl ex_call) (lc_tries ex_call) None = (Some (Some 0), eset 0 ''a'' 1000)" by code_simp
  moreover have e: "after lock_exec (lc_during ex_call) (eset 0 ''a'' 1000) = Some (''b'', 2500)" by code_simp
  moreover have "eget 1600 (Some (''b'', 2500)) \<noteq> Some ''a''" by code_simp
  ultimately show ?thesis
    using lock_alone_or_told [of ex_call None 0 "eset 0 ''a'' 1000" 7 "''nightly''" 0] by (simp add: ex_call_def)
qed

end
