(* ===== verification/Migrations.thy ===== *)
theory Migrations
  imports Backup_Ids Leases
begin

text \<open>
  Migrations: \<open>packages/mongo/src/migrations\<close>. A migration is its step and how to undo it, as functions of the
  database that may fail part-way; a transaction keeps what its step did only if it went through. The
  records are the documents of the records' collection, the lock the one document of its own.
\<close>

section \<open>A migration and its record\<close>

text \<open>What a step leaves, and the message it failed with.\<close>

type_synonym 'd mstep = "'d \<Rightarrow> 'd \<times> string option"

record 'd migration =
  mg_id :: string
  mg_up :: "'d mstep"
  mg_down :: "'d mstep option"
  mg_transaction :: bool

record mrecord =
  mr_id :: string
  mr_appliedAt :: int
  mr_durationMs :: int

datatype merr = MigrationError string "string option" | MigrationLocked string | MType string | MDriver string

type_synonym 'a mres = "merr + 'a"

fun mbind :: "'a mres \<Rightarrow> ('a \<Rightarrow> 'b mres) \<Rightarrow> 'b mres" where
  "mbind (Inl e) f = Inl e"
| "mbind (Inr x) f = f x"

lemma mbind_Inr [simp]: "mbind r f = Inr y \<longleftrightarrow> (\<exists>x. r = Inr x \<and> f x = Inr y)"
  by (cases r) simp_all

text \<open>\<open>/^[\w.:-]+$/\<close>.\<close>

definition id_char :: "char \<Rightarrow> bool" where
  "id_char c = (is_digit c \<or> is_lower c \<or> (65 \<le> (of_char c :: nat) \<and> (of_char c :: nat) \<le> 90) \<or> c \<in> set ''_.:-'')"

definition migration_id :: "string \<Rightarrow> bool" where
  "migration_id s = (s \<noteq> [] \<and> list_all id_char s)"

text \<open>A \<open>down\<close> is not given (\<open>None\<close>), a function, or something else (\<open>Some None\<close>).\<close>

definition defineMigration :: "string option \<Rightarrow> 'd mstep option \<Rightarrow> 'd mstep option option \<Rightarrow> bool option \<Rightarrow> 'd migration mres" where
  "defineMigration i up down transaction = (case i of
     None \<Rightarrow> Inl (MType ''defineMigration: this is not a migration id'')
   | Some i \<Rightarrow> if \<not> migration_id i
       then Inl (MType (''defineMigration: \"'' @ i @ ''\" is not a migration id. Use letters, digits, \"_\", \"-\", \".\" and \":\".''))
       else (case up of None \<Rightarrow> Inl (MType (''defineMigration: \"'' @ i @ ''\" has no up''))
         | Some u \<Rightarrow> (case down of
               Some None \<Rightarrow> Inl (MType (''defineMigration: \"'' @ i @ ''\" has a down that is not a function''))
             | _ \<Rightarrow> Inr \<lparr>mg_id = i, mg_up = u, mg_down = (case down of None \<Rightarrow> None | Some g \<Rightarrow> g),
                 mg_transaction = (case transaction of None \<Rightarrow> True | Some b \<Rightarrow> b)\<rparr>)))"

section \<open>The plan\<close>

datatype mstate = Applied | Pending | Missing

record mstatus =
  st_id :: string
  st_state :: mstate
  st_appliedAt :: "int option"

fun checkList :: "string set \<Rightarrow> 'd migration list \<Rightarrow> unit mres" where
  "checkList seen [] = Inr ()"
| "checkList seen (m # ms) = (if mg_id m \<in> seen
     then Inl (MigrationError (''Migration \"'' @ mg_id m @ ''\" is listed twice'') (Some (mg_id m)))
     else checkList (insert (mg_id m) seen) ms)"

definition recorded_as :: "mrecord list \<Rightarrow> string \<Rightarrow> mrecord option" where
  "recorded_as rs i = find (\<lambda>r. mr_id r = i) rs"

definition statusOf :: "'d migration list \<Rightarrow> mrecord list \<Rightarrow> mstatus list" where
  "statusOf ms rs =
     map (\<lambda>m. \<lparr>st_id = mg_id m, st_state = (if recorded_as rs (mg_id m) \<noteq> None then Applied else Pending),
       st_appliedAt = map_option mr_appliedAt (recorded_as rs (mg_id m))\<rparr>) ms @
     map (\<lambda>r. \<lparr>st_id = mr_id r, st_state = Missing, st_appliedAt = Some (mr_appliedAt r)\<rparr>)
       (filter (\<lambda>r. mr_id r \<notin> mg_id ` set ms) rs)"

definition checkApplied :: "'d migration list \<Rightarrow> mrecord list \<Rightarrow> nat mres" where
  "checkApplied ms rs = (let status = statusOf ms rs in
     (case find (\<lambda>s. st_state s = Missing) status of
        Some s \<Rightarrow> Inl (MigrationError (''Migration \"'' @ st_id s @ ''\" is recorded as applied and is no longer in the list. Put it back, or remove its record by hand.'') (Some (st_id s)))
      | None \<Rightarrow> (let applied = length (filter (\<lambda>s. st_state s = Applied) status) in
          (case find (\<lambda>s. st_state s = Pending) (take applied status) of
             Some s \<Rightarrow> Inl (MigrationError (''Migration \"'' @ st_id s @ ''\" is pending and listed before one that is already applied. A new migration goes at the end of the list.'') (Some (st_id s)))
           | None \<Rightarrow> Inr applied))))"

fun index_from :: "nat \<Rightarrow> 'd migration list \<Rightarrow> string \<Rightarrow> nat option" where
  "index_from n [] i = None"
| "index_from n (m # ms) i = (if mg_id m = i then Some n else index_from (Suc n) ms i)"

definition indexOf :: "'d migration list \<Rightarrow> string \<Rightarrow> string \<Rightarrow> nat mres" where
  "indexOf ms i call = (case index_from 0 ms i of
     None \<Rightarrow> Inl (MigrationError (call @ '': \"'' @ i @ ''\" is not in the list'') (Some i)) | Some n \<Rightarrow> Inr n)"

definition slice :: "nat \<Rightarrow> nat \<Rightarrow> 'a list \<Rightarrow> 'a list" where
  "slice a b xs = take (b - a) (drop a xs)"

definition toApply :: "'d migration list \<Rightarrow> mrecord list \<Rightarrow> string option \<Rightarrow> 'd migration list mres" where
  "toApply ms rs dest = mbind (checkApplied ms rs) (\<lambda>applied.
     mbind (case dest of None \<Rightarrow> Inr (length ms) | Some i \<Rightarrow> mbind (indexOf ms i ''migrate'') (\<lambda>n. Inr (n + 1))) (\<lambda>end.
       Inr (slice applied (max applied end) ms)))"

fun with_downs :: "'d migration list \<Rightarrow> ('d migration \<times> 'd mstep) list mres" where
  "with_downs [] = Inr []"
| "with_downs (m # ms) = (case mg_down m of
     None \<Rightarrow> Inl (MigrationError (''Migration \"'' @ mg_id m @ ''\" has no down, so it cannot be rolled back'') (Some (mg_id m)))
   | Some d \<Rightarrow> mbind (with_downs ms) (\<lambda>rest. Inr ((m, d) # rest)))"

definition toRevert :: "'d migration list \<Rightarrow> mrecord list \<Rightarrow> string option \<Rightarrow> ('d migration \<times> 'd mstep) list mres" where
  "toRevert ms rs dest = mbind (checkApplied ms rs) (\<lambda>applied.
     mbind (case dest of None \<Rightarrow> Inr (applied - 1) | Some i \<Rightarrow> mbind (indexOf ms i ''rollback'') (\<lambda>n. Inr (n + 1))) (\<lambda>start.
       with_downs (rev (slice start (max start applied) ms))))"

section \<open>The store and the lock\<close>

definition DEFAULT_COLLECTION :: string where "DEFAULT_COLLECTION = ''nxgt_migrations''"
definition DEFAULT_LOCK_TTL_MS :: int where "DEFAULT_LOCK_TTL_MS = 60000"

text \<open>\<open>sd_records\<close> in the order \<open>find()\<close> gives them; \<open>sd_data\<close> is everything else of the database.\<close>

record lock_doc =
  ld_holder :: string
  ld_acquiredAt :: int
  ld_expiresAt :: int

record 'd sdb =
  sd_data :: 'd
  sd_records :: "mrecord list"
  sd_lock :: "lock_doc option"

record mstore =
  so_records :: string
  so_lock :: string
  so_ttl :: int

definition storeOf :: "string option \<Rightarrow> jv option \<Rightarrow> mstore mres" where
  "storeOf collection lockTtlMs = (let name = (case collection of None \<Rightarrow> DEFAULT_COLLECTION | Some n \<Rightarrow> n) in
     (case lockTtlMs of None \<Rightarrow> Inr \<lparr>so_records = name, so_lock = name @ ''_lock'', so_ttl = DEFAULT_LOCK_TTL_MS\<rparr>
      | Some (JNum n) \<Rightarrow> if n < 1000
          then Inl (MType ''migrations: lockTtlMs must be a whole number of milliseconds, at least 1000'')
          else Inr \<lparr>so_records = name, so_lock = name @ ''_lock'', so_ttl = n\<rparr>
      | Some v \<Rightarrow> Inl (MType ''migrations: lockTtlMs must be a whole number of milliseconds, at least 1000'')))"

datatype mop = MInsert string | MTakeOver string | MRenew string | MRelease string

definition stamped :: "int \<Rightarrow> int \<Rightarrow> string \<Rightarrow> lock_doc" where
  "stamped ttl now holder = \<lparr>ld_holder = holder, ld_acquiredAt = now, ld_expiresAt = now + ttl\<rparr>"

fun mlock_exec :: "int \<Rightarrow> int \<Rightarrow> mop \<Rightarrow> lock_doc option \<Rightarrow> bool \<times> lock_doc option" where
  "mlock_exec ttl now (MInsert h) k = (if k = None then (True, Some (stamped ttl now h)) else (False, k))"
| "mlock_exec ttl now (MTakeOver h) k = (case k of None \<Rightarrow> (False, k)
     | Some d \<Rightarrow> if ld_expiresAt d \<le> now then (True, Some (stamped ttl now h)) else (False, k))"
| "mlock_exec ttl now (MRenew h) k = (case k of None \<Rightarrow> (False, k)
     | Some d \<Rightarrow> if ld_holder d = h then (True, Some (d\<lparr>ld_expiresAt := now + ttl\<rparr>)) else (False, k))"
| "mlock_exec ttl now (MRelease h) k = (case k of None \<Rightarrow> (False, k)
     | Some d \<Rightarrow> if ld_holder d = h then (True, None) else (False, k))"

fun mlock_takes :: "mop \<Rightarrow> string option" where
  "mlock_takes (MInsert h) = Some h"
| "mlock_takes (MTakeOver h) = Some h"
| "mlock_takes _ = None"

fun mlock_fenced :: "mop \<Rightarrow> string option" where
  "mlock_fenced (MRenew h) = Some h"
| "mlock_fenced (MRelease h) = Some h"
| "mlock_fenced _ = None"

fun mlock_ends :: "string \<Rightarrow> mop \<Rightarrow> bool" where
  "mlock_ends a (MRelease h) = (h = a)"
| "mlock_ends a _ = False"

definition mlock_holder :: "int \<Rightarrow> lock_doc option \<Rightarrow> string option" where
  "mlock_holder now k = map_option ld_holder k"

definition mlock_till :: "lock_doc option \<Rightarrow> int option" where
  "mlock_till k = map_option ld_expiresAt k"

interpretation ml: fenced_lease "mlock_exec ttl" mlock_holder mlock_takes mlock_fenced mlock_ends mlock_till ttl
  for ttl :: int
proof
  fix t op s a
  assume "mlock_holder t (snd (mlock_exec ttl t op s)) = Some a" "mlock_holder t s \<noteq> Some a"
  then show "mlock_takes op = Some a"
    by (cases op) (auto simp: mlock_holder_def stamped_def split: option.splits if_splits)
next
  fix op a t s
  assume "mlock_takes op = Some a" "fst (mlock_exec ttl t op s)"
  then show "mlock_holder t (snd (mlock_exec ttl t op s)) = Some a"
    by (cases op) (auto simp: mlock_holder_def stamped_def split: option.splits if_splits)
next
  fix op a t s
  assume "mlock_fenced op = Some a" "fst (mlock_exec ttl t op s)"
  then show "mlock_holder t s = Some a"
    by (cases op) (auto simp: mlock_holder_def split: option.splits if_splits)
next
  fix t s a e op
  assume "mlock_holder t s = Some a" "mlock_till s = Some e" "t < e" "\<not> mlock_ends a op"
  then show "mlock_holder t (snd (mlock_exec ttl t op s)) = Some a \<and>
      (mlock_till (snd (mlock_exec ttl t op s)) = Some e \<or> mlock_till (snd (mlock_exec ttl t op s)) = Some (t + ttl))"
    by (cases op) (auto simp: mlock_holder_def mlock_till_def split: option.splits if_splits)
next
  fix op a t s
  assume "mlock_fenced op = Some a" "\<not> mlock_ends a op" "mlock_holder t s = Some a"
  then show "fst (mlock_exec ttl t op s) \<and> mlock_till (snd (mlock_exec ttl t op s)) = Some (t + ttl)"
    by (cases op) (auto simp: mlock_holder_def mlock_till_def split: option.splits if_splits)
qed (simp_all add: mlock_holder_def)

text \<open>\<open>take\<close>, then the refusal that names who holds it.\<close>

definition take_mlock :: "int \<Rightarrow> int \<Rightarrow> string \<Rightarrow> lock_doc option \<Rightarrow> bool \<times> lock_doc option" where
  "take_mlock ttl now holder k = (case mlock_exec ttl now (MInsert holder) k of
     (True, k') \<Rightarrow> (True, k') | (False, k') \<Rightarrow> mlock_exec ttl now (MTakeOver holder) k')"

definition locked_text :: "lock_doc option \<Rightarrow> string" where
  "locked_text k = (case k of None \<Rightarrow> ''Migrations are locked by another run until it releases them''
     | Some d \<Rightarrow> ''Migrations are locked by '' @ ld_holder d @ '' until '' @ iso_string (ld_expiresAt d))"

definition acquire :: "int \<Rightarrow> int \<Rightarrow> string \<Rightarrow> lock_doc option \<Rightarrow> unit mres \<times> lock_doc option" where
  "acquire ttl now holder k = (case take_mlock ttl now holder k of
     (True, k') \<Rightarrow> (Inr (), k') | (False, k') \<Rightarrow> (Inl (MigrationLocked (locked_text k')), k'))"

definition LOST_TEXT :: string where
  "LOST_TEXT = ''This run lost its migration lock: it was not renewed in time, and another run may have taken it. Nothing more was run.''"

definition checkLock :: "bool \<Rightarrow> unit mres" where
  "checkLock lost = (if lost then Inl (MigrationLocked LOST_TEXT) else Inr ())"

section \<open>A run\<close>

text \<open>\<open>insertOne\<close> of a record collides on an id that is there.\<close>

definition writeRecord :: "mrecord \<Rightarrow> 'd sdb \<Rightarrow> 'd sdb \<times> string option" where
  "writeRecord r db = (if recorded_as (sd_records db) (mr_id r) \<noteq> None then (db, Some ''E11000 duplicate key error'')
     else (db\<lparr>sd_records := sd_records db @ [r]\<rparr>, None))"

definition removeRecord :: "string \<Rightarrow> 'd sdb \<Rightarrow> 'd sdb \<times> string option" where
  "removeRecord i db = (db\<lparr>sd_records := filter (\<lambda>r. mr_id r \<noteq> i) (sd_records db)\<rparr>, None)"

definition failed_text :: "'d migration \<Rightarrow> string \<Rightarrow> string \<Rightarrow> string" where
  "failed_text m direction reason = ''Migration \"'' @ mg_id m @ ''\" failed '' @ direction @ '', and '' @
     (if mg_transaction m then ''nothing it did was kept'' else ''it ran without a transaction, so what it did before failing stays'') @ '': '' @ reason"

text \<open>The step, then what it writes of itself; in a transaction, all of it or nothing.\<close>

definition once :: "'d mstep \<Rightarrow> ('d sdb \<Rightarrow> 'd sdb \<times> string option) \<Rightarrow> 'd sdb \<Rightarrow> 'd sdb \<times> string option" where
  "once step keep db = (case step (sd_data db) of
     (d, Some e) \<Rightarrow> (db\<lparr>sd_data := d\<rparr>, Some e) | (d, None) \<Rightarrow> keep (db\<lparr>sd_data := d\<rparr>))"

definition runStep :: "'d migration \<Rightarrow> string \<Rightarrow> 'd mstep \<Rightarrow> ('d sdb \<Rightarrow> 'd sdb \<times> string option) \<Rightarrow> 'd sdb \<Rightarrow> unit mres \<times> 'd sdb" where
  "runStep m direction step keep db = (case once step keep db of
     (db', None) \<Rightarrow> (Inr (), db')
   | (db', Some e) \<Rightarrow> (Inl (MigrationError (failed_text m direction e) (Some (mg_id m))), if mg_transaction m then db else db'))"

text \<open>\<open>lost\<close> says, before each step, whether a renewal had found the lock gone; \<open>clock\<close> when a migration is
  recorded and how long it took.\<close>

fun run_ups :: "(string \<Rightarrow> int \<times> int) \<Rightarrow> bool list \<Rightarrow> 'd migration list \<Rightarrow> 'd sdb \<Rightarrow> string list mres \<times> 'd sdb" where
  "run_ups clock lost [] db = (Inr [], db)"
| "run_ups clock lost (m # ms) db = (case checkLock (lost \<noteq> [] \<and> hd lost) of Inl e \<Rightarrow> (Inl e, db)
     | Inr u \<Rightarrow> (case runStep m ''up'' (mg_up m)
           (writeRecord \<lparr>mr_id = mg_id m, mr_appliedAt = fst (clock (mg_id m)), mr_durationMs = snd (clock (mg_id m))\<rparr>) db of
         (Inl e, db') \<Rightarrow> (Inl e, db')
       | (Inr u, db') \<Rightarrow> (case run_ups clock (tl lost) ms db' of (r, db'') \<Rightarrow> (mbind r (\<lambda>is. Inr (mg_id m # is)), db''))))"

fun run_downs :: "bool list \<Rightarrow> ('d migration \<times> 'd mstep) list \<Rightarrow> 'd sdb \<Rightarrow> string list mres \<times> 'd sdb" where
  "run_downs lost [] db = (Inr [], db)"
| "run_downs lost ((m, down) # ms) db = (case checkLock (lost \<noteq> [] \<and> hd lost) of Inl e \<Rightarrow> (Inl e, db)
     | Inr u \<Rightarrow> (case runStep m ''down'' down (removeRecord (mg_id m)) db of
         (Inl e, db') \<Rightarrow> (Inl e, db')
       | (Inr u, db') \<Rightarrow> (case run_downs (tl lost) ms db' of (r, db'') \<Rightarrow> (mbind r (\<lambda>is. Inr (mg_id m # is)), db''))))"

record moptions =
  mo_collection :: "string option"
  mo_lockTtlMs :: "jv option"
  mo_to :: "string option"
  mo_dryRun :: bool

text \<open>Where and when a call runs; \<open>me_during\<close> is what reaches the lock meanwhile, its renewals among it.\<close>

record menv =
  me_holder :: string
  me_now :: int
  me_lost :: "bool list"
  me_during :: "(int \<times> mop) list"
  me_clock :: "string \<Rightarrow> int \<times> int"

definition locked :: "mstore \<Rightarrow> menv \<Rightarrow> ('d sdb \<Rightarrow> 'a mres \<times> 'd sdb) \<Rightarrow> 'd sdb \<Rightarrow> 'a mres \<times> 'd sdb" where
  "locked st env f db = (case acquire (so_ttl st) (me_now env) (me_holder env) (sd_lock db) of
     (Inl e, k) \<Rightarrow> (Inl e, db\<lparr>sd_lock := k\<rparr>)
   | (Inr u, k) \<Rightarrow> (case f (db\<lparr>sd_lock := k\<rparr>) of (r, db') \<Rightarrow>
       (r, db'\<lparr>sd_lock := snd (mlock_exec (so_ttl st) (me_now env) (MRelease (me_holder env))
         (after (mlock_exec (so_ttl st)) (me_during env) (sd_lock db')))\<rparr>)))"

text \<open>What ran, and what a dry run would have run.\<close>

type_synonym migrated = "string list \<times> string list"

definition migrate :: "'d migration list \<Rightarrow> moptions \<Rightarrow> menv \<Rightarrow> 'd sdb \<Rightarrow> migrated mres \<times> 'd sdb" where
  "migrate ms opt env db = (case mbind (checkList {} ms) (\<lambda>_. storeOf (mo_collection opt) (mo_lockTtlMs opt)) of
     Inl e \<Rightarrow> (Inl e, db)
   | Inr st \<Rightarrow> if mo_dryRun opt then (mbind (toApply ms (sd_records db) (mo_to opt)) (\<lambda>plan. Inr ([], map mg_id plan)), db)
       else locked st env (\<lambda>db. case toApply ms (sd_records db) (mo_to opt) of Inl e \<Rightarrow> (Inl e, db)
         | Inr plan \<Rightarrow> (case run_ups (me_clock env) (me_lost env) plan db of (r, db') \<Rightarrow> (mbind r (\<lambda>applied. Inr (applied, [])), db'))) db)"

definition rollback :: "'d migration list \<Rightarrow> moptions \<Rightarrow> menv \<Rightarrow> 'd sdb \<Rightarrow> migrated mres \<times> 'd sdb" where
  "rollback ms opt env db = (case mbind (checkList {} ms) (\<lambda>_. storeOf (mo_collection opt) (mo_lockTtlMs opt)) of
     Inl e \<Rightarrow> (Inl e, db)
   | Inr st \<Rightarrow> if mo_dryRun opt then (mbind (toRevert ms (sd_records db) (mo_to opt)) (\<lambda>plan. Inr ([], map (mg_id \<circ> fst) plan)), db)
       else locked st env (\<lambda>db. case toRevert ms (sd_records db) (mo_to opt) of Inl e \<Rightarrow> (Inl e, db)
         | Inr plan \<Rightarrow> (case run_downs (me_lost env) plan db of (r, db') \<Rightarrow> (mbind r (\<lambda>reverted. Inr (reverted, [])), db'))) db)"

definition migrationStatus :: "'d migration list \<Rightarrow> moptions \<Rightarrow> 'd sdb \<Rightarrow> mstatus list mres" where
  "migrationStatus ms opt db = mbind (checkList {} ms) (\<lambda>_.
     mbind (storeOf (mo_collection opt) (mo_lockTtlMs opt)) (\<lambda>_. Inr (statusOf ms (sd_records db))))"

section \<open>What is recorded is a prefix of the list\<close>

definition follows :: "'d migration list \<Rightarrow> mrecord list \<Rightarrow> nat \<Rightarrow> bool" where
  "follows ms rs n = (n \<le> length ms \<and> mr_id ` set rs = mg_id ` set (take n ms))"

lemma recorded_as_iff: "recorded_as rs i = None \<longleftrightarrow> i \<notin> mr_id ` set rs"
  by (auto simp: recorded_as_def find_None_iff)

lemma filter_take:
  assumes "length (filter P xs) = n" "\<forall>x \<in> set (take n xs). P x"
  shows "filter P xs = take n xs"
proof -
  have n: "n \<le> length xs" using assms(1) by auto
  have "length (filter P (take n xs)) + length (filter P (drop n xs)) = n"
    using assms(1) by (metis append_take_drop_id filter_append length_append)
  moreover have "filter P (take n xs) = take n xs" using assms(2) by simp
  ultimately have "filter P (drop n xs) = []" using n by simp
  then show ?thesis using \<open>filter P (take n xs) = take n xs\<close> by (metis append_Nil2 append_take_drop_id filter_append)
qed

lemma find_in: "find P xs = Some x \<Longrightarrow> x \<in> set xs"
  by (metis find_Some_iff nth_mem)

lemma checkList_distinct: "checkList seen ms = Inr u \<longleftrightarrow> distinct (map mg_id ms) \<and> mg_id ` set ms \<inter> seen = {}"
  by (induction ms arbitrary: seen) auto

definition listed_status :: "'d migration list \<Rightarrow> mrecord list \<Rightarrow> mstatus list" where
  "listed_status ms rs = map (\<lambda>m. \<lparr>st_id = mg_id m, st_state = (if recorded_as rs (mg_id m) \<noteq> None then Applied else Pending),
       st_appliedAt = map_option mr_appliedAt (recorded_as rs (mg_id m))\<rparr>) ms"

lemma statusOf_listed: "mr_id ` set rs \<subseteq> mg_id ` set ms \<Longrightarrow> statusOf ms rs = listed_status ms rs"
  by (auto simp: statusOf_def listed_status_def filter_empty_conv)

lemma missing_found: "find (\<lambda>s. st_state s = Missing) (statusOf ms rs) = None \<longleftrightarrow> mr_id ` set rs \<subseteq> mg_id ` set ms"
  by (auto simp: find_None_iff statusOf_def split: if_splits)

lemma applied_count: "length (filter (\<lambda>s. st_state s = Applied) (listed_status ms rs)) = length (filter (\<lambda>m. mg_id m \<in> mr_id ` set rs) ms)"
  by (induction ms) (auto simp: listed_status_def recorded_as_iff simp del: not_None_eq)

lemma pending_found: "find (\<lambda>s. st_state s = Pending) (take n (listed_status ms rs)) = None \<longleftrightarrow> (\<forall>m \<in> set (take n ms). mg_id m \<in> mr_id ` set rs)"
  by (auto simp: find_None_iff listed_status_def take_map recorded_as_iff simp del: not_None_eq)

lemma checkApplied_follows:
  assumes "distinct (map mg_id ms)"
  shows "checkApplied ms rs = Inr n \<longleftrightarrow> follows ms rs n"
proof (cases "mr_id ` set rs \<subseteq> mg_id ` set ms")
  case False
  then obtain s where "find (\<lambda>s. st_state s = Missing) (statusOf ms rs) = Some s" using missing_found [of ms rs] by auto
  then have "checkApplied ms rs \<noteq> Inr n" by (simp add: checkApplied_def)
  moreover have "mg_id ` set (take n ms) \<subseteq> mg_id ` set ms" by (simp add: image_mono set_take_subset)
  then have "\<not> follows ms rs n" using False unfolding follows_def by metis
  ultimately show ?thesis by simp
next
  case True
  let ?P = "\<lambda>m. mg_id m \<in> mr_id ` set rs"
  let ?k = "length (filter ?P ms)"
  have "checkApplied ms rs = Inr n \<longleftrightarrow> n = ?k \<and> (\<forall>m \<in> set (take ?k ms). ?P m)"
  proof -
    have m: "find (\<lambda>s. st_state s = Missing) (listed_status ms rs) = None" using missing_found True statusOf_listed by metis
    note check = checkApplied_def [of ms rs, unfolded statusOf_listed [OF True] m applied_count Let_def option.case]
    show ?thesis
    proof (cases "\<forall>m \<in> set (take ?k ms). ?P m")
      case True
      then have "find (\<lambda>s. st_state s = Pending) (take ?k (listed_status ms rs)) = None" using pending_found by blast
      then show ?thesis unfolding check using True by (simp only: option.case sum.inject) blast
    next
      case False
      then obtain s where "find (\<lambda>s. st_state s = Pending) (take ?k (listed_status ms rs)) = Some s" using pending_found [of ?k ms rs] by blast
      then show ?thesis unfolding check using False by (simp only: option.case sum.distinct) blast
    qed
  qed
  also have "\<dots> \<longleftrightarrow> follows ms rs n"
  proof
    assume a: "n = ?k \<and> (\<forall>m \<in> set (take ?k ms). ?P m)"
    have "filter ?P ms = take n ms" by (rule filter_take) (use a in blast)+
    moreover have "mr_id ` set rs = mg_id ` set (filter ?P ms)"
    proof
      show "mr_id ` set rs \<subseteq> mg_id ` set (filter ?P ms)"
      proof
        fix i
        assume i: "i \<in> mr_id ` set rs"
        then obtain m where "m \<in> set ms" "i = mg_id m" using True by blast
        then show "i \<in> mg_id ` set (filter ?P ms)" using i by simp
      qed
    qed auto
    moreover have "n \<le> length ms" using a length_filter_le by blast
    ultimately show "follows ms rs n" unfolding follows_def by metis
  next
    assume fo: "follows ms rs n"
    have in_take: "?P m \<longleftrightarrow> m \<in> set (take n ms)" if "m \<in> set ms" for m
    proof -
      have "inj_on mg_id (set ms)" using assms by (simp add: distinct_map)
      moreover have "set (take n ms) \<subseteq> set ms" by (rule set_take_subset)
      ultimately have "mg_id m \<in> mg_id ` set (take n ms) \<longleftrightarrow> m \<in> set (take n ms)" using that by (metis inj_on_image_mem_iff)
      then show ?thesis using fo unfolding follows_def by metis
    qed
    have "distinct ms" using assms by (simp add: distinct_map)
    then have "set (take n ms) \<inter> set (drop n ms) = {}" by (rule set_take_disj_set_drop_if_distinct) simp
    then have "filter ?P (drop n ms) = []" using in_take by (auto simp: filter_empty_conv dest: in_set_dropD)
    moreover have "filter ?P (take n ms) = take n ms" using in_take by (auto simp: filter_id_conv dest: in_set_takeD)
    ultimately have "filter ?P ms = take n ms" by (metis append_Nil2 append_take_drop_id filter_append)
    moreover have "length (take n ms) = n" using fo by (simp add: follows_def)
    ultimately have "n = ?k" by metis
    moreover have "\<forall>m \<in> set (take n ms). ?P m" using in_take in_set_takeD by metis
    ultimately show "n = ?k \<and> (\<forall>m \<in> set (take ?k ms). ?P m)" by metis
  qed
  finally show ?thesis .
qed

section \<open>What a run does\<close>

text \<open>The steps in turn, each whole.\<close>

fun ups :: "'d migration list \<Rightarrow> 'd \<Rightarrow> 'd" where
  "ups [] d = d"
| "ups (m # ms) d = ups ms (fst (mg_up m d))"

lemma ups_append: "ups (xs @ ys) d = ups ys (ups xs d)"
  by (induction xs arbitrary: d) auto

definition stamp :: "(string \<Rightarrow> int \<times> int) \<Rightarrow> 'd migration \<Rightarrow> mrecord" where
  "stamp clock m = \<lparr>mr_id = mg_id m, mr_appliedAt = fst (clock (mg_id m)), mr_durationMs = snd (clock (mg_id m))\<rparr>"

lemma stamp_id [simp]: "mr_id (stamp clock m) = mg_id m"
  by (simp add: stamp_def)

text \<open>How a run of the steps ended after \<open>j\<close> of them: all of them, or an error, of the lock or of the next
  migration, that kept what went before it.\<close>

definition ran :: "'d migration list \<Rightarrow> 'd \<Rightarrow> nat \<Rightarrow> string list mres \<Rightarrow> 'd \<Rightarrow> bool" where
  "ran ms d j r d' = (case r of
     Inr is \<Rightarrow> is = map mg_id ms \<and> j = length ms \<and> d' = ups ms d
   | Inl e \<Rightarrow> j < length ms \<and> (e = MigrationLocked LOST_TEXT \<or> (\<exists>t. e = MigrationError t (Some (mg_id (ms ! j))))) \<and>
       (d' = ups (take j ms) d \<or> \<not> mg_transaction (ms ! j) \<and> d' = ups (take (Suc j) ms) d))"

lemma ran_Cons: "ran ms (fst (mg_up m d)) j r d' \<Longrightarrow> ran (m # ms) d (Suc j) (mbind r (\<lambda>is. Inr (mg_id m # is))) d'"
  by (cases r) (simp_all add: ran_def)

lemma ran_stops:
  "ran (m # ms) d 0 (Inl (MigrationLocked LOST_TEXT)) d"
  "ran (m # ms) d 0 (Inl (MigrationError t (Some (mg_id m)))) (if mg_transaction m then d else fst (mg_up m d))"
  by (simp_all add: ran_def)

lemma runStep_up:
  assumes "mg_up m (sd_data db) = (d, f)"
  shows "runStep m ''up'' (mg_up m) (writeRecord r) db =
    (if f = None \<and> recorded_as (sd_records db) (mr_id r) = None then (Inr (), db\<lparr>sd_data := d, sd_records := sd_records db @ [r]\<rparr>)
     else (Inl (MigrationError (failed_text m ''up'' (case f of Some e \<Rightarrow> e | None \<Rightarrow> ''E11000 duplicate key error'')) (Some (mg_id m))),
       if mg_transaction m then db else db\<lparr>sd_data := d\<rparr>))"
  using assms by (auto simp: runStep_def once_def writeRecord_def split: option.splits)

lemma run_ups_records:
  "run_ups clock lost ms db = (r, db') \<Longrightarrow> \<exists>j \<le> length ms.
     sd_records db' = sd_records db @ map (stamp clock) (take j ms) \<and> sd_lock db' = sd_lock db \<and> ran ms (sd_data db) j r (sd_data db')"
proof (induction ms arbitrary: lost db r)
  case Nil
  then show ?case by (auto simp: ran_def)
next
  case (Cons m ms)
  obtain d f where up: "mg_up m (sd_data db) = (d, f)" by (cases "mg_up m (sd_data db)")
  note step = runStep_up [OF up, of "stamp clock m"]
  show ?case
  proof (cases "lost \<noteq> [] \<and> hd lost")
    case True
    then have "r = Inl (MigrationLocked LOST_TEXT)" "db' = db" using Cons.prems by (auto simp: checkLock_def)
    then show ?thesis using ran_stops(1) by (intro exI [of _ 0]) simp
  next
    case False
    then have ok: "checkLock (lost \<noteq> [] \<and> hd lost) = Inr ()" by (simp add: checkLock_def)
    show ?thesis
    proof (cases "f = None \<and> recorded_as (sd_records db) (mg_id m) = None")
      case True
      let ?db = "db\<lparr>sd_data := d, sd_records := sd_records db @ [stamp clock m]\<rparr>"
      obtain r2 where r2: "run_ups clock (tl lost) ms ?db = (r2, db')" "r = mbind r2 (\<lambda>is. Inr (mg_id m # is))"
        using Cons.prems ok step True by (auto simp: stamp_def split: prod.splits)
      obtain j where j: "j \<le> length ms" "sd_records db' = sd_records ?db @ map (stamp clock) (take j ms)" "sd_lock db' = sd_lock db"
          "ran ms d j r2 (sd_data db')"
        using Cons.IH [OF r2(1)] by auto
      have "ran (m # ms) (sd_data db) (Suc j) r (sd_data db')" using ran_Cons [of ms m "sd_data db" j r2] j(4) r2(2) up by simp
      then show ?thesis using j(1-3) by (intro exI [of _ "Suc j"]) simp
    next
      case F: False
      then have "r = Inl (MigrationError (failed_text m ''up'' (case f of Some e \<Rightarrow> e | None \<Rightarrow> ''E11000 duplicate key error'')) (Some (mg_id m)))"
        "db' = (if mg_transaction m then db else db\<lparr>sd_data := d\<rparr>)"
        using Cons.prems ok step by (auto simp: stamp_def)
      then show ?thesis using ran_stops(2) [of m ms "sd_data db"] up by (intro exI [of _ 0]) (simp split: if_splits)
    qed
  qed
qed

lemma slice_split: "a \<le> b \<Longrightarrow> b \<le> length xs \<Longrightarrow> take b xs = take a xs @ slice a b xs"
  by (metis le_add_diff_inverse slice_def take_add)

lemma follows_more:
  assumes "follows ms rs n" "j \<le> length (slice n end ms)" "n \<le> end" "mr_id ` set rs' = mr_id ` set rs \<union> mg_id ` set (take j (slice n end ms))"
  shows "follows ms rs' (n + j)"
proof -
  have "j \<le> length (drop n ms)" "j \<le> end - n" using assms(2) by (simp_all add: slice_def)
  then have "take j (slice n end ms) = take j (drop n ms)" by (simp add: slice_def min_absorb1)
  moreover have "take (n + j) ms = take n ms @ take j (drop n ms)" by (rule take_add)
  ultimately show ?thesis using assms by (auto simp: follows_def slice_def)
qed

lemma indexOf_index: "indexOf ms i call = Inr n \<Longrightarrow> n < length ms \<and> mg_id (ms ! n) = i"
proof -
  have "index_from k ms i = Some n \<Longrightarrow> k \<le> n \<and> n < k + length ms \<and> mg_id (ms ! (n - k)) = i" for k n
    by (induction ms arbitrary: k) (force split: if_splits simp: nth_Cons')+
  from this [of 0 n] show "indexOf ms i call = Inr n \<Longrightarrow> n < length ms \<and> mg_id (ms ! n) = i"
    by (auto simp: indexOf_def split: option.splits)
qed

lemma toApply_slice:
  assumes "toApply ms rs dest = Inr plan" "distinct (map mg_id ms)"
  obtains n e where "follows ms rs n" "plan = slice n e ms" "n \<le> e" "e \<le> length ms" "dest = None \<longrightarrow> e = length ms"
    "\<forall>i. dest = Some i \<longrightarrow> i \<in> mg_id ` set (take e ms)"
proof -
  obtain n e where n: "checkApplied ms rs = Inr n" "plan = slice n (max n e) ms"
    and e: "(case dest of None \<Rightarrow> Inr (length ms) | Some i \<Rightarrow> mbind (indexOf ms i ''migrate'') (\<lambda>k. Inr (k + 1))) = Inr e"
    using assms(1) by (auto simp: toApply_def)
  have f: "follows ms rs n" using n(1) checkApplied_follows [OF assms(2)] by blast
  have "\<forall>i. dest = Some i \<longrightarrow> i \<in> mg_id ` set (take (max n e) ms)"
  proof (intro allI impI)
    fix i
    assume "dest = Some i"
    then obtain k where k: "indexOf ms i ''migrate'' = Inr k" "e = k + 1" using e by auto
    then have "k < length (take (max n e) ms)" "mg_id (take (max n e) ms ! k) = i" using indexOf_index [OF k(1)] by auto
    then show "i \<in> mg_id ` set (take (max n e) ms)" by (metis imageI nth_mem)
  qed
  moreover have "e \<le> length ms" using e indexOf_index by (fastforce split: option.splits)
  moreover have "n \<le> length ms" using f by (simp add: follows_def)
  moreover have "dest = None \<longrightarrow> e = length ms" using e by auto
  ultimately show thesis using that [OF f n(2)] by (simp add: max_def split: if_splits)
qed

lemma inl_error: "r = Inl e \<Longrightarrow> r = Inl (MigrationError t i) \<Longrightarrow> \<exists>t. e = MigrationError t i"
  by auto

text \<open>C33. The check of the list against the records accepts exactly a list whose first \<open>n\<close> migrations are
  what is recorded, and answers \<open>n\<close>; every other list is an error that names a migration of the list or
  of the records.\<close>

theorem checkApplied_exact:
  assumes "distinct (map mg_id ms)"
  shows "(checkApplied ms rs = Inr n \<longleftrightarrow> n \<le> length ms \<and> mr_id ` set rs = mg_id ` set (take n ms)) \<and>
    (\<forall>e. checkApplied ms rs = Inl e \<longrightarrow> (\<exists>t i. e = MigrationError t (Some i) \<and> i \<in> mg_id ` set ms \<union> mr_id ` set rs))"
proof -
  have ids: "st_id s \<in> mg_id ` set ms \<union> mr_id ` set rs" if "s \<in> set (statusOf ms rs)" for s
    using that by (auto simp: statusOf_def)
  have "\<exists>t i. e = MigrationError t (Some i) \<and> i \<in> mg_id ` set ms \<union> mr_id ` set rs" if err: "checkApplied ms rs = Inl e" for e
  proof -
    have "\<exists>s \<in> set (statusOf ms rs). \<exists>t. e = MigrationError t (Some (st_id s))"
    proof (cases "find (\<lambda>s. st_state s = Missing) (statusOf ms rs)")
      case (Some s)
      then obtain t where "checkApplied ms rs = Inl (MigrationError t (Some (st_id s)))" by (simp add: checkApplied_def)
      then have "\<exists>t. e = MigrationError t (Some (st_id s))" by (rule inl_error [OF err])
      then show ?thesis using find_in [OF Some] by blast
    next
      case None
      let ?st = "take (length (filter (\<lambda>s. st_state s = Applied) (statusOf ms rs))) (statusOf ms rs)"
      obtain s where s: "find (\<lambda>s. st_state s = Pending) ?st = Some s"
      proof (cases "find (\<lambda>s. st_state s = Pending) ?st")
        case n: None
        then show thesis using err None by (simp add: checkApplied_def Let_def)
      qed simp
      have "checkApplied ms rs = Inl (MigrationError (''Migration \"'' @ st_id s @ ''\" is pending and listed before one that is already applied. A new migration goes at the end of the list.'') (Some (st_id s)))"
        unfolding checkApplied_def Let_def None option.case s by (rule refl)
      then have "\<exists>t. e = MigrationError t (Some (st_id s))" by (rule inl_error [OF err])
      then show ?thesis using in_set_takeD [OF find_in [OF s]] by blast
    qed
    then obtain s t where "s \<in> set (statusOf ms rs)" "e = MigrationError t (Some (st_id s))" by blast
    then show ?thesis using ids [of s] by blast
  qed
  then show ?thesis using checkApplied_follows [OF assms, of rs n] by (simp add: follows_def)
qed

definition ex_migration :: "string \<Rightarrow> nat \<Rightarrow> nat migration" where
  "ex_migration i k = \<lparr>mg_id = i, mg_up = (\<lambda>d. (d + k, None)), mg_down = Some (\<lambda>d. (d - k, None)), mg_transaction = True\<rparr>"

definition ex_list :: "nat migration list" where
  "ex_list = [ex_migration ''slugs'' 1, ex_migration ''backfill'' 10, ex_migration ''index'' 100]"

definition ex_record :: mrecord where
  "ex_record = \<lparr>mr_id = ''slugs'', mr_appliedAt = 5, mr_durationMs = 1\<rparr>"

theorem checkApplied_exact_witness: "checkApplied ex_list [ex_record] = Inr 1"
proof -
  have "distinct (map mg_id ex_list)" by code_simp
  from checkApplied_exact [OF this, of "[ex_record]" 1] show ?thesis by (simp add: ex_list_def ex_record_def ex_migration_def)
qed

text \<open>C31. However a \<open>migrate\<close> ends, what is recorded is a prefix of the list: the records it found and, in the
  list's order, the migrations that went through. When it answers, these are all that were pending, up to
  \<open>to\<close>, and the database is what their steps make of it, one after the other; when the list does not extend
  what is recorded, or the lock is held, nothing is run.\<close>

theorem migrate_keeps_prefix:
  assumes "migrate ms opt env db = (r, db')" "\<not> mo_dryRun opt"
  shows "(sd_records db' = sd_records db \<and> sd_data db' = sd_data db \<and> (\<exists>e. r = Inl e)) \<or>
    (\<exists>n j plan. follows ms (sd_records db) n \<and> follows ms (sd_records db') (n + j) \<and> j \<le> length plan \<and> plan = take (length plan) (drop n ms) \<and>
       sd_records db' = sd_records db @ map (stamp (me_clock env)) (take j plan) \<and>
       ran plan (sd_data db) j (map_sum id fst r) (sd_data db') \<and>
       (mo_to opt = None \<longrightarrow> n + length plan = length ms))"
proof (cases "mbind (checkList {} ms) (\<lambda>_. storeOf (mo_collection opt) (mo_lockTtlMs opt))")
  case (Inl e)
  then have "Inl e = r" "db = db'" using assms by (simp_all add: migrate_def)
  then show ?thesis by blast
next
  case (Inr st)
  have d: "distinct (map mg_id ms)" using Inr checkList_distinct [of "{}" ms] by auto
  define run where "run = (\<lambda>db. case toApply ms (sd_records db) (mo_to opt) of Inl e \<Rightarrow> (Inl e :: migrated mres, db)
         | Inr plan \<Rightarrow> (case run_ups (me_clock env) (me_lost env) plan db of (r, db') \<Rightarrow> (mbind r (\<lambda>applied. Inr (applied, [])), db')))"
  have call: "locked st env run db = (r, db')" using assms Inr by (simp add: migrate_def run_def)
  obtain a k where acq: "acquire (so_ttl st) (me_now env) (me_holder env) (sd_lock db) = (a, k)"
    by (cases "acquire (so_ttl st) (me_now env) (me_holder env) (sd_lock db)")
  show ?thesis
  proof (cases a)
    case (Inl e)
    then show ?thesis using call acq by (auto simp: locked_def)
  next
    case u: (Inr u)
    obtain r2 db2 where r2: "run (db\<lparr>sd_lock := k\<rparr>) = (r2, db2)" by (cases "run (db\<lparr>sd_lock := k\<rparr>)")
    have same: "r = r2" "sd_records db' = sd_records db2" "sd_data db' = sd_data db2" using call acq u r2 by (auto simp: locked_def)
    show ?thesis
    proof (cases "toApply ms (sd_records db) (mo_to opt)")
      case (Inl e)
      then show ?thesis using r2 same by (auto simp: run_def)
    next
      case (Inr plan)
      obtain n e where n: "follows ms (sd_records db) n" "plan = slice n e ms" "n \<le> e" "e \<le> length ms" "mo_to opt = None \<longrightarrow> e = length ms"
        using toApply_slice [OF Inr d] by metis
      obtain r3 where r3: "run_ups (me_clock env) (me_lost env) plan (db\<lparr>sd_lock := k\<rparr>) = (r3, db2)" "r2 = mbind r3 (\<lambda>applied. Inr (applied, []))"
        using r2 Inr by (auto simp: run_def split: prod.splits)
      obtain j where j: "j \<le> length plan" "sd_records db2 = sd_records db @ map (stamp (me_clock env)) (take j plan)"
          "ran plan (sd_data db) j r3 (sd_data db2)"
        using run_ups_records [OF r3(1)] by auto
      have len: "length plan = e - n" "plan = take (length plan) (drop n ms)" using n(2-4) by (simp_all add: slice_def)
      have "mr_id ` set (sd_records db2) = mr_id ` set (sd_records db) \<union> mg_id ` set (take j plan)" using j(2) by (simp add: image_Un image_image)
      then have "follows ms (sd_records db2) (n + j)" using follows_more [OF n(1), of j e] j(1) n(2,3) by simp
      moreover have "map_sum id fst r = r3" using same(1) r3(2) by (cases r3) simp_all
      moreover have "mo_to opt = None \<longrightarrow> n + length plan = length ms" using n(3-5) len(1) by simp
      ultimately show ?thesis using n(1) j len(2) same(2,3) by (intro disjI2 exI [of _ n] exI [of _ j] exI [of _ plan]) simp
    qed
  qed
qed

section \<open>A rollback undoes\<close>

fun all_ok :: "'d migration list \<Rightarrow> 'd \<Rightarrow> bool" where
  "all_ok [] d = True"
| "all_ok (m # ms) d = (snd (mg_up m d) = None \<and> all_ok ms (fst (mg_up m d)))"

lemma all_ok_append: "all_ok (xs @ ys) d \<longleftrightarrow> all_ok xs d \<and> all_ok ys (ups xs d)"
  by (induction xs arbitrary: d) auto

lemma run_ups_ok: "run_ups clock lost ms db = (Inr is, db') \<Longrightarrow> all_ok ms (sd_data db)"
proof (induction ms arbitrary: lost db "is")
  case (Cons m ms)
  obtain d f where up: "mg_up m (sd_data db) = (d, f)" by (cases "mg_up m (sd_data db)")
  have "f = None \<and> (\<exists>is2. run_ups clock (tl lost) ms (db\<lparr>sd_data := d, sd_records := sd_records db @ [stamp clock m]\<rparr>) = (Inr is2, db'))"
    using Cons.prems runStep_up [OF up, of "stamp clock m"] by (auto simp: stamp_def split: sum.splits prod.splits if_splits)
  then show ?case using Cons.IH up by fastforce
qed simp

text \<open>\<open>down\<close> takes back what \<open>up\<close> did.\<close>

definition undoes :: "'d migration \<Rightarrow> bool" where
  "undoes m = (case mg_down m of None \<Rightarrow> False | Some g \<Rightarrow> \<forall>d. snd (mg_up m d) = None \<longrightarrow> g (fst (mg_up m d)) = (d, None))"

lemma with_downs_append: "with_downs (xs @ ys) = mbind (with_downs xs) (\<lambda>a. mbind (with_downs ys) (\<lambda>b. Inr (a @ b)))"
proof (induction xs)
  case Nil
  show ?case by (cases "with_downs ys") simp_all
next
  case (Cons m xs)
  then show ?case by (cases "with_downs xs"; cases "with_downs ys") (simp_all split: option.splits)
qed

lemma runs_back:
  assumes "all_ok plan d" "\<forall>m \<in> set plan. undoes m" "distinct (map mg_id plan)" "mr_id ` set rs \<inter> mg_id ` set plan = {}"
    "with_downs (rev plan) = Inr pairs" "run_downs lost pairs db1 = (Inr is, db2)"
    "sd_data db1 = ups plan d" "sd_records db1 = rs @ map (stamp clock) plan"
  shows "is = rev (map mg_id plan) \<and> sd_data db2 = d \<and> sd_records db2 = rs"
  using assms
proof (induction plan arbitrary: pairs lost db1 "is" rule: rev_induct)
  case (snoc m plan)
  obtain g where g: "mg_down m = Some g" "g (fst (mg_up m (ups plan d))) = (ups plan d, None)"
    using snoc.prems(1,2) by (auto simp: undoes_def all_ok_append split: option.splits)
  obtain pairs2 where p: "with_downs (rev plan) = Inr pairs2" "pairs = (m, g) # pairs2"
    using snoc.prems(5) g(1) by auto
  let ?db = "db1\<lparr>sd_data := ups plan d, sd_records := filter (\<lambda>x. mr_id x \<noteq> mg_id m) (sd_records db1)\<rparr>"
  have recs: "filter (\<lambda>x. mr_id x \<noteq> mg_id m) (sd_records db1) = rs @ map (stamp clock) plan"
  proof -
    have "\<forall>x \<in> set rs. mr_id x \<noteq> mg_id m" using snoc.prems(4) by force
    then have "filter (\<lambda>x. mr_id x \<noteq> mg_id m) rs = rs" by (simp add: filter_id_conv)
    moreover have "filter (\<lambda>x. mr_id x \<noteq> mg_id m) (map (stamp clock) plan) = map (stamp clock) plan"
    proof -
      have "mg_id m \<notin> mg_id ` set plan" using snoc.prems(3) by simp
      then have "\<forall>x \<in> set plan. mg_id x \<noteq> mg_id m" by (metis imageI)
      then show ?thesis by (simp add: filter_id_conv)
    qed
    ultimately show ?thesis using snoc.prems(8) by simp
  qed
  have step: "runStep m ''down'' g (removeRecord (mg_id m)) db1 = (Inr (), ?db)"
    using g snoc.prems(7) by (simp add: runStep_def once_def removeRecord_def ups_append)
  obtain is2 where r2: "run_downs (tl lost) pairs2 ?db = (Inr is2, db2)" "is = mg_id m # is2"
    using snoc.prems(6) step p(2) by (auto simp: checkLock_def split: prod.splits sum.splits if_splits)
  have "is2 = rev (map mg_id plan) \<and> sd_data db2 = d \<and> sd_records db2 = rs"
    by (rule snoc.IH [OF _ _ _ _ p(1) r2(1)]) (use snoc.prems(1-4) recs in \<open>auto simp: all_ok_append\<close>)
  then show ?case using r2(2) by simp
qed simp

lemma index_from_nth: "distinct (map mg_id ms) \<Longrightarrow> k < length ms \<Longrightarrow> index_from n ms (mg_id (ms ! k)) = Some (n + k)"
proof (induction ms arbitrary: n k)
  case (Cons m ms)
  show ?case
  proof (cases k)
    case (Suc j)
    have "j < length ms" using Cons.prems(2) Suc by simp
    then have "mg_id (ms ! j) \<in> mg_id ` set ms" by simp
    then have "mg_id m \<noteq> mg_id (ms ! j)" using Cons.prems(1) by auto
    then show ?thesis using Cons Suc \<open>j < length ms\<close> by simp
  qed simp
qed simp

lemma locked_done:
  assumes "locked st env f db = (Inr v, db')"
  obtains k db2 where "f (db\<lparr>sd_lock := k\<rparr>) = (Inr v, db2)" "sd_records db' = sd_records db2" "sd_data db' = sd_data db2"
  using assms by (auto simp: locked_def split: prod.splits sum.splits)

lemma migrate_done:
  assumes "migrate ms opt env db = (Inr (applied, pending), db1)" "\<not> mo_dryRun opt"
  obtains n e where "distinct (map mg_id ms)" "follows ms (sd_records db) n" "n \<le> e" "e \<le> length ms" "applied = map mg_id (slice n e ms)"
    "all_ok (slice n e ms) (sd_data db)" "sd_data db1 = ups (slice n e ms) (sd_data db)"
    "sd_records db1 = sd_records db @ map (stamp (me_clock env)) (slice n e ms)"
proof -
  obtain st where st: "checkList {} ms = Inr ()" "mbind (checkList {} ms) (\<lambda>_. storeOf (mo_collection opt) (mo_lockTtlMs opt)) = Inr st"
    using assms by (auto simp: migrate_def split: sum.splits)
  have d: "distinct (map mg_id ms)" using st(1) checkList_distinct [of "{}" ms] by auto
  define f where "f = (\<lambda>db. case toApply ms (sd_records db) (mo_to opt) of Inl e \<Rightarrow> (Inl e :: migrated mres, db)
         | Inr plan \<Rightarrow> (case run_ups (me_clock env) (me_lost env) plan db of (r, db') \<Rightarrow> (mbind r (\<lambda>applied. Inr (applied, [])), db')))"
  have "locked st env f db = (Inr (applied, pending), db1)" using assms st(2) by (simp add: migrate_def f_def)
  then obtain k db2 where f: "f (db\<lparr>sd_lock := k\<rparr>) = (Inr (applied, pending), db2)" "sd_records db1 = sd_records db2" "sd_data db1 = sd_data db2"
    by (rule locked_done)
  obtain plan where plan: "toApply ms (sd_records db) (mo_to opt) = Inr plan"
      "run_ups (me_clock env) (me_lost env) plan (db\<lparr>sd_lock := k\<rparr>) = (Inr applied, db2)"
    using f(1) by (auto simp: f_def split: sum.splits prod.splits)
  obtain n e where n: "follows ms (sd_records db) n" "plan = slice n e ms" "n \<le> e" "e \<le> length ms"
    using toApply_slice [OF plan(1) d] by metis
  show thesis
    using that [OF d n(1,3,4)] run_ups_records [OF plan(2)] run_ups_ok [OF plan(2)] f(2,3) n(2) by (auto simp: ran_def)
qed

text \<open>C32. A \<open>rollback\<close> to the last migration that was applied before undoes a \<open>migrate\<close>: when each \<open>down\<close>
  takes back what its \<open>up\<close> did, the database and the records are as they were, and what was undone is
  what was applied, the last first.\<close>

theorem rollback_undoes:
  assumes "migrate ms opt env db = (Inr (applied, pending), db1)" "\<not> mo_dryRun opt" "distinct (map mr_id (sd_records db))"
    "follows ms (sd_records db) n" "0 < n" "\<forall>m \<in> set (drop n ms). undoes m"
    "rollback ms opt2 env2 db1 = (Inr (reverted, pending2), db2)" "\<not> mo_dryRun opt2" "mo_to opt2 = Some (mg_id (ms ! (n - 1)))"
  shows "reverted = rev applied \<and> sd_data db2 = sd_data db \<and> sd_records db2 = sd_records db"
proof -
  obtain n' e where m: "distinct (map mg_id ms)" "follows ms (sd_records db) n'" "n' \<le> e" "e \<le> length ms" "applied = map mg_id (slice n' e ms)"
      "all_ok (slice n' e ms) (sd_data db)" "sd_data db1 = ups (slice n' e ms) (sd_data db)"
      "sd_records db1 = sd_records db @ map (stamp (me_clock env)) (slice n' e ms)"
    by (rule migrate_done [OF assms(1,2)])
  let ?plan = "slice n e ms"
  have n': "n' = n" using m(2) assms(4) checkApplied_follows [OF m(1)] by (metis sum.inject(2))
  have nl: "n \<le> length ms" using assms(4) by (simp add: follows_def)
  have fol: "follows ms (sd_records db1) e"
    using follows_more [OF m(2), of "length ?plan" e "sd_records db1"] m(3,4,8) n' by (auto simp: slice_def image_Un image_image)
  define f where "f = (\<lambda>db. case toRevert ms (sd_records db) (mo_to opt2) of Inl e \<Rightarrow> (Inl e :: migrated mres, db)
         | Inr plan \<Rightarrow> (case run_downs (me_lost env2) plan db of (r, db') \<Rightarrow> (mbind r (\<lambda>reverted. Inr (reverted, [])), db')))"
  obtain st where "locked st env2 f db1 = (Inr (reverted, pending2), db2)"
    using assms(7,8) by (auto simp: rollback_def f_def split: sum.splits)
  then obtain k db3 where f: "f (db1\<lparr>sd_lock := k\<rparr>) = (Inr (reverted, pending2), db3)" "sd_records db2 = sd_records db3" "sd_data db2 = sd_data db3"
    by (rule locked_done)
  obtain pairs where pairs: "toRevert ms (sd_records db1) (mo_to opt2) = Inr pairs"
      "run_downs (me_lost env2) pairs (db1\<lparr>sd_lock := k\<rparr>) = (Inr reverted, db3)"
    using f(1) by (auto simp: f_def split: sum.splits prod.splits)
  have "index_from 0 ms (mg_id (ms ! (n - 1))) = Some (n - 1)" using index_from_nth [OF m(1), of "n - 1" 0] assms(5) nl by simp
  then have "with_downs (rev ?plan) = Inr pairs"
    using pairs(1) checkApplied_follows [OF m(1), of "sd_records db1" e, THEN iffD2, OF fol] assms(5,9) m(3) n'
    by (simp add: toRevert_def indexOf_def max_absorb2)
  moreover have "mr_id ` set (sd_records db) \<inter> mg_id ` set ?plan = {}"
  proof -
    have "set (take n (map mg_id ms)) \<inter> set (drop n (map mg_id ms)) = {}"
      using m(1) by (rule set_take_disj_set_drop_if_distinct) simp
    then have "mg_id ` set (take n ms) \<inter> mg_id ` set (drop n ms) = {}" by (simp add: take_map drop_map)
    moreover have "set ?plan \<subseteq> set (drop n ms)" by (simp add: slice_def set_take_subset)
    ultimately show ?thesis using assms(4) by (auto simp: follows_def)
  qed
  moreover have "distinct (map mg_id ?plan)" using m(1) by (simp add: slice_def flip: take_map drop_map)
  moreover have "\<forall>m \<in> set ?plan. undoes m" using assms(6) by (auto simp: slice_def dest: in_set_takeD)
  ultimately show ?thesis
    using runs_back [of ?plan "sd_data db" "sd_records db" pairs "me_lost env2" "db1\<lparr>sd_lock := k\<rparr>" reverted db3 "me_clock env"]
      m(5-8) n' pairs(2) f(2,3) by (simp add: rev_map)
qed

section \<open>Witnesses\<close>

definition ex_options :: "string option \<Rightarrow> moptions" where
  "ex_options dest = \<lparr>mo_collection = None, mo_lockTtlMs = None, mo_to = dest, mo_dryRun = False\<rparr>"

definition ex_env :: "int \<Rightarrow> menv" where
  "ex_env t = \<lparr>me_holder = ''host:1:a'', me_now = t, me_lost = [], me_during = [(t + 20000, MRenew ''host:1:a'')], me_clock = (\<lambda>i. (t, 3))\<rparr>"

definition ex_db :: "nat sdb" where
  "ex_db = \<lparr>sd_data = 1, sd_records = [ex_record], sd_lock = None\<rparr>"

lemma ex_migrate: "migrate ex_list (ex_options None) (ex_env 7) ex_db =
    (Inr ([''backfill'', ''index''], []), \<lparr>sd_data = 111, sd_records = [ex_record, \<lparr>mr_id = ''backfill'', mr_appliedAt = 7, mr_durationMs = 3\<rparr>,
       \<lparr>mr_id = ''index'', mr_appliedAt = 7, mr_durationMs = 3\<rparr>], sd_lock = None\<rparr>)"
  by code_simp

theorem migrate_keeps_prefix_witness:
  "\<exists>n j. follows ex_list (sd_records (snd (migrate ex_list (ex_options None) (ex_env 7) ex_db))) (n + j)"
proof -
  have dry: "\<not> mo_dryRun (ex_options None)" by (simp add: ex_options_def)
  show ?thesis using migrate_keeps_prefix [OF ex_migrate dry] ex_migrate by auto
qed

theorem rollback_undoes_witness:
  "sd_data (snd (rollback ex_list (ex_options (Some ''slugs'')) (ex_env 9) (snd (migrate ex_list (ex_options None) (ex_env 7) ex_db)))) = 1"
proof -
  let ?db = "snd (migrate ex_list (ex_options None) (ex_env 7) ex_db)"
  have undone: "rollback ex_list (ex_options (Some ''slugs'')) (ex_env 9) ?db = (Inr ([''index'', ''backfill''], []), ex_db)"
    unfolding ex_migrate by code_simp
  have dry: "\<not> mo_dryRun (ex_options d)" for d by (simp add: ex_options_def)
  have fol: "follows ex_list (sd_records ex_db) 1" by (simp add: follows_def ex_db_def ex_list_def ex_record_def ex_migration_def)
  have undo: "\<forall>m \<in> set (drop 1 ex_list). undoes m" by (simp add: ex_list_def ex_migration_def undoes_def)
  have ids: "distinct (map mr_id (sd_records ex_db))" by (simp add: ex_db_def)
  have dest: "mo_to (ex_options (Some ''slugs'')) = Some (mg_id (ex_list ! (1 - 1)))" by (simp add: ex_options_def ex_list_def ex_migration_def)
  have mig: "migrate ex_list (ex_options None) (ex_env 7) ex_db = (Inr ([''backfill'', ''index''], []), ?db)" by (simp add: ex_migrate)
  show ?thesis
    using rollback_undoes [OF mig dry ids fol _ undo undone dry dest] undone by (simp add: ex_db_def)
qed

end
