(* ===== verification/Image_Png.thy ===== *)
theory Image_Png
  imports Prelude Json "HOL-Library.Word"
begin

text \<open>
  The PNG reader and writer of \<open>packages/image/src/crop\<close>: chunks and the header (\<open>png.ts\<close>, \<open>png-chunks.ts\<close>),
  the row filters (\<open>unfilter.ts\<close>), the assembler that cuts inflated bytes into rows (\<open>row-assembler.ts\<close>) and the
  crop that stops after its last row (\<open>crop-png.ts\<close>). A \<open>Uint8Array\<close> is a list of bytes, a view of it a part of the list.
  zlib and the CRC are parameters: what \<open>DecompressionStream\<close> makes of the payloads is the parts it gives
  and how it ends.
\<close>

section \<open>Bytes and errors\<close>

type_synonym byte = "8 word"

datatype image_code = TOO_LARGE | UNSUPPORTED_TYPE | UNDECODABLE | TOO_SMALL | INVALID_CROP

datatype image_reason = ByBytes | ByPixels | ByFormat | ByHeic | ByDecode | ByDimensions | ByCrop

datatype image_error = ImageError image_code image_reason string | RangeError string | TypeError string | Foreign string

definition refuse_png :: "string \<Rightarrow> image_error" where
  "refuse_png why = ImageError UNDECODABLE ByDecode (''the PNG cannot be read: '' @ why)"

text \<open>\<open>array.set(ys, at)\<close>, where the part fits.\<close>

definition splice :: "'a list \<Rightarrow> nat \<Rightarrow> 'a list \<Rightarrow> 'a list" where
  "splice xs at ys = take at xs @ ys @ drop (at + length ys) xs"

text \<open>\<open>array.subarray(from, to)\<close>.\<close>

definition subarray :: "'a list \<Rightarrow> nat \<Rightarrow> nat \<Rightarrow> 'a list" where
  "subarray xs a b = take (b - a) (drop a xs)"

definition setUint32 :: "nat \<Rightarrow> byte list" where
  "setUint32 n = [of_nat (n div 16777216), of_nat (n div 65536), of_nat (n div 256), of_nat n]"

definition getUint32 :: "byte list \<Rightarrow> nat \<Rightarrow> nat" where
  "getUint32 bs at = 16777216 * unat (bs ! at) + 65536 * unat (bs ! (at + 1)) + 256 * unat (bs ! (at + 2)) + unat (bs ! (at + 3))"

definition char_bytes :: "string \<Rightarrow> byte list" where
  "char_bytes t = map of_char t"

definition fromCharCode :: "byte list \<Rightarrow> string" where
  "fromCharCode bs = map (\<lambda>b. char_of (unat b)) bs"

section \<open>Writing\<close>

record raw_image =
  ri_width :: nat
  ri_height :: nat
  ri_channels :: nat
  ri_pixels :: "byte list"

definition PNG_SIGNATURE :: "byte list" where
  "PNG_SIGNATURE = [0x89, 0x50, 0x4e, 0x47, 0x0d, 0x0a, 0x1a, 0x0a]"

definition chunk :: "(byte list \<Rightarrow> nat) \<Rightarrow> string \<Rightarrow> byte list \<Rightarrow> byte list" where
  "chunk crc t data = setUint32 (length data) @ char_bytes (take 4 t) @ data @ setUint32 (crc (char_bytes (take 4 t) @ data))"

text \<open>One row of the raw data: the filter byte 0, then the pixels; what they lack stays 0.\<close>

definition raw_row :: "nat \<Rightarrow> byte list \<Rightarrow> nat \<Rightarrow> byte list" where
  "raw_row stride pixels y = splice (replicate (stride + 1) 0) 1 (subarray pixels (y * stride) ((y + 1) * stride))"

definition png_header :: "nat \<Rightarrow> nat \<Rightarrow> byte \<Rightarrow> byte list" where
  "png_header w h colour = setUint32 w @ setUint32 h @ [8, colour, 0, 0, 0]"

definition encodePng :: "(byte list \<Rightarrow> byte list) \<Rightarrow> (byte list \<Rightarrow> nat) \<Rightarrow> raw_image \<Rightarrow> byte list" where
  "encodePng deflate crc img = (let stride = ri_width img * ri_channels img;
       raw = concat (map (raw_row stride (ri_pixels img)) [0..<ri_height img]);
       header = png_header (ri_width img) (ri_height img) (if ri_channels img = 4 then 6 else 2) in
     PNG_SIGNATURE @ chunk crc ''IHDR'' header @ chunk crc ''IDAT'' (deflate raw) @ chunk crc ''IEND'' [])"

section \<open>Chunks\<close>

record png_head =
  ph_width :: nat
  ph_height :: nat
  ph_samples :: nat

definition chunkAt :: "byte list \<Rightarrow> nat \<Rightarrow> image_error + string \<times> byte list \<times> nat" where
  "chunkAt bs at = (if at + 12 > length bs then Inl (refuse_png ''no IEND chunk'')
     else (let n = getUint32 bs at in
       if at + 12 + n > length bs then Inl (refuse_png ''a chunk is cut short'')
       else Inr (fromCharCode (subarray bs (at + 4) (at + 8)), subarray bs (at + 8) (at + 8 + n), at + 12 + n)))"

definition samples_of :: "byte \<Rightarrow> nat option" where
  "samples_of colour = (if colour = 0 then Some 1 else if colour = 2 then Some 3 else if colour = 4 then Some 2 else if colour = 6 then Some 4 else None)"

definition size_valid :: "nat \<Rightarrow> nat \<Rightarrow> bool" where
  "size_valid w h = (\<not> (w < 1 \<or> h < 1 \<or> w > 0x7fffffff \<or> h > 0x7fffffff))"

definition readHeader :: "byte list \<Rightarrow> nat option \<Rightarrow> image_error + png_head" where
  "readHeader bs maxPixels = (if take 8 bs \<noteq> PNG_SIGNATURE then Inl (refuse_png ''no PNG signature'')
     else (case chunkAt bs 8 of Inl e \<Rightarrow> Inl e
     | Inr (t, header, next) \<Rightarrow>
       if t \<noteq> ''IHDR'' \<or> length header \<noteq> 13 then Inl (refuse_png ''no IHDR chunk'')
       else (let w = getUint32 header 0; h = getUint32 header 4 in
         if \<not> size_valid w h then Inl (refuse_png ''the size is not valid'')
         else if (case maxPixels of Some most \<Rightarrow> w * h > most | None \<Rightarrow> False)
           then Inl (ImageError TOO_LARGE ByPixels (''the PNG has '' @ show_nat w @ ''x'' @ show_nat h @ '' pixels, over the '' @ show_nat (the maxPixels) @ '' limit''))
         else if header ! 8 \<noteq> 8 then Inl (refuse_png ''only 8-bit samples are read'')
         else if header ! 12 \<noteq> 0 then Inl (refuse_png ''an interlaced PNG is not read'')
         else (case samples_of (header ! 9) of
             None \<Rightarrow> Inl (refuse_png ''this colour type (a palette, for one) is not read'')
           | Some n \<Rightarrow> Inr \<lparr>ph_width = w, ph_height = h, ph_samples = n\<rparr>))))"

lemma chunkAt_next: "chunkAt bs at = Inr (t, data, next) \<Longrightarrow> length bs - next < length bs - at"
  by (auto simp: chunkAt_def Let_def split: if_splits)

text \<open>The payloads the stream gives, one per \<open>pull\<close>, and the error it ends with, if any.\<close>

function idat_from :: "byte list \<Rightarrow> nat \<Rightarrow> bool \<Rightarrow> byte list list \<times> image_error option" where
  "idat_from bs at saw = (case chunkAt bs at of Inl e \<Rightarrow> ([], Some e)
     | Inr (t, data, next) \<Rightarrow>
         if t = ''IDAT'' then (case idat_from bs next True of (ps, e) \<Rightarrow> (data # ps, e))
         else if t = ''IEND'' then ([], if saw then None else Some (refuse_png ''no IDAT chunk''))
         else idat_from bs next saw)"
  by pat_completeness auto

termination
  by (relation "measure (\<lambda>(bs, at, saw). length bs - at)") (auto dest: chunkAt_next)

declare idat_from.simps [simp del]

definition idatStream :: "byte list \<Rightarrow> byte list list \<times> image_error option" where
  "idatStream bs = idat_from bs 8 False"

section \<open>Filters\<close>

definition paeth :: "int \<Rightarrow> int \<Rightarrow> int \<Rightarrow> int" where
  "paeth a b c = (let p = a + b - c; pa = \<bar>p - a\<bar>; pb = \<bar>p - b\<bar>; pc = \<bar>p - c\<bar> in
     if pa \<le> pb \<and> pa \<le> pc then a else if pb \<le> pc then b else c)"

definition byte_int :: "byte \<Rightarrow> int" where
  "byte_int b = uint b"

text \<open>The loops of \<open>unfilterRow\<close>, each writing \<open>row[i]\<close> in place as \<open>i\<close> goes up.\<close>

definition unfilter_sub :: "nat \<Rightarrow> nat \<Rightarrow> byte list \<Rightarrow> byte list" where
  "unfilter_sub bpp i row = row[i := row ! i + row ! (i - bpp)]"

definition unfilter_up :: "byte list \<Rightarrow> nat \<Rightarrow> byte list \<Rightarrow> byte list" where
  "unfilter_up previous i row = row[i := row ! i + previous ! i]"

definition unfilter_average :: "byte list \<Rightarrow> nat \<Rightarrow> nat \<Rightarrow> nat \<Rightarrow> byte list \<Rightarrow> byte list" where
  "unfilter_average previous offset bpp i row = (let left = (if i \<ge> offset + bpp then byte_int (row ! (i - bpp)) else 0) in
     row[i := of_int (byte_int (row ! i) + (left + byte_int (previous ! i)) div 2)])"

definition unfilter_paeth :: "byte list \<Rightarrow> nat \<Rightarrow> nat \<Rightarrow> nat \<Rightarrow> byte list \<Rightarrow> byte list" where
  "unfilter_paeth previous offset bpp i row = (let has = (i \<ge> offset + bpp);
       left = (if has then byte_int (row ! (i - bpp)) else 0); upLeft = (if has then byte_int (previous ! (i - bpp)) else 0) in
     row[i := of_int (byte_int (row ! i) + paeth left (byte_int (previous ! i)) upLeft)])"

definition unfilterRow :: "nat \<Rightarrow> byte list \<Rightarrow> byte list \<Rightarrow> nat \<Rightarrow> nat \<Rightarrow> nat \<Rightarrow> byte list option" where
  "unfilterRow type row previous offset stride bpp = (let end = offset + stride in
     if type = 0 then Some row
     else if type = 1 then Some (fold (unfilter_sub bpp) [offset + bpp..<end] row)
     else if type = 2 then Some (fold (unfilter_up previous) [offset..<end] row)
     else if type = 3 then Some (fold (unfilter_average previous offset bpp) [offset..<end] row)
     else if type = 4 then Some (fold (unfilter_paeth previous offset bpp) [offset..<end] row)
     else None)"

section \<open>Rows\<close>

record assembler =
  as_previous :: "byte list"
  as_current :: "byte list"
  as_filled :: nat
  as_y :: nat

definition createRowAssembler :: "nat \<Rightarrow> assembler" where
  "createRowAssembler stride = \<lparr>as_previous = replicate (stride + 1) 0, as_current = replicate (stride + 1) 0, as_filled = 0, as_y = 0\<rparr>"

text \<open>\<open>feed\<close>: \<open>onRow\<close> gives whether to go on, and what it has kept (\<open>'s\<close>).\<close>

function feed :: "nat \<Rightarrow> nat \<Rightarrow> nat \<Rightarrow> (byte list \<Rightarrow> nat \<Rightarrow> 's \<Rightarrow> bool \<times> 's) \<Rightarrow> byte list \<Rightarrow> assembler \<Rightarrow> 's
    \<Rightarrow> image_error + bool \<times> assembler \<times> 's" where
  "feed stride height bpp onRow part a s = (if part = [] then Inr (True, a, s)
     else if as_y a \<ge> height then Inl (refuse_png ''the pixel data is longer than the header says'')
     else (let n = min (length part) (stride + 1 - as_filled a);
             current = splice (as_current a) (as_filled a) (take n part); filled = as_filled a + n in
       if filled < stride + 1 then feed stride height bpp onRow (drop n part) (a\<lparr>as_current := current, as_filled := filled\<rparr>) s
       else (case unfilterRow (unat (current ! 0)) current (as_previous a) 1 stride bpp of
           None \<Rightarrow> Inl (refuse_png ''a row has an unknown filter'')
         | Some row \<Rightarrow> (case onRow row (as_y a) s of (going, s') \<Rightarrow>
             (let a' = \<lparr>as_previous = row, as_current = as_previous a, as_filled = 0, as_y = as_y a + 1\<rparr> in
               if \<not> going then Inr (False, a', s') else feed stride height bpp onRow (drop n part) a' s')))))"
  by pat_completeness auto

termination
  by (relation "measure (\<lambda>(stride, height, bpp, onRow, part, a, s). 2 * length part + (if as_filled a > stride then 1 else 0))")
    (auto simp: min_def split: if_splits)

declare feed.simps [simp del]

section \<open>The crop\<close>

text \<open>A number of a region: a whole one, or another with its text.\<close>

datatype js_whole = Whole int | Fraction string

fun whole_text :: "js_whole \<Rightarrow> string" where
  "whole_text (Whole n) = show_int n"
| "whole_text (Fraction t) = t"

record region =
  rg_x :: js_whole
  rg_y :: js_whole
  rg_width :: js_whole
  rg_height :: js_whole

fun region_fits :: "js_whole \<Rightarrow> js_whole \<Rightarrow> nat \<Rightarrow> bool" where
  "region_fits (Whole x) (Whole w) most = (\<not> (x < 0 \<or> w < 1 \<or> x + w > int most))"
| "region_fits _ _ most = False"

definition checkRegion :: "region \<Rightarrow> png_head \<Rightarrow> image_error + unit" where
  "checkRegion r header = (if \<not> (region_fits (rg_x r) (rg_width r) (ph_width header) \<and> region_fits (rg_y r) (rg_height r) (ph_height header))
     then Inl (RangeError (''a '' @ whole_text (rg_width r) @ ''x'' @ whole_text (rg_height r) @ '' region at ('' @ whole_text (rg_x r) @ '', '' @ whole_text (rg_y r) @
       '') does not fit a '' @ show_nat (ph_width header) @ ''x'' @ show_nat (ph_height header) @ '' image''))
     else Inr ())"

fun pos_of :: "js_whole \<Rightarrow> nat" where
  "pos_of (Whole n) = nat n"
| "pos_of (Fraction t) = 0"

definition grey_pixel :: "byte list \<Rightarrow> nat \<Rightarrow> nat \<Rightarrow> nat \<Rightarrow> nat \<Rightarrow> nat \<Rightarrow> byte list \<Rightarrow> byte list" where
  "grey_pixel row a samples channels outRow i out = (let grey = row ! (a + i * samples); at = outRow + i * channels;
       out = out[at := grey, at + 1 := grey, at + 2 := grey] in
     if channels = 4 then out[at + 3 := row ! (a + i * samples + 1)] else out)"

definition copyColumns :: "byte list \<Rightarrow> nat \<Rightarrow> nat \<Rightarrow> nat \<Rightarrow> byte list \<Rightarrow> nat \<Rightarrow> byte list" where
  "copyColumns row x width samples out outRow = (let a = 1 + x * samples in
     if samples \<ge> 3 then splice out outRow (subarray row a (a + width * samples))
     else (let channels = (if samples = 1 then 3 else 4) in
       fold (grey_pixel row a samples channels outRow) [0..<width] out))"

definition channels_of :: "nat \<Rightarrow> nat" where
  "channels_of samples = (if samples = 1 \<or> samples = 3 then 3 else 4)"

text \<open>\<open>onRow\<close> of the crop: what it keeps is \<open>out\<close>.\<close>

definition keep_row :: "region \<Rightarrow> png_head \<Rightarrow> byte list \<Rightarrow> nat \<Rightarrow> byte list \<Rightarrow> bool \<times> byte list" where
  "keep_row wanted header row y out = (let samples = ph_samples header; channels = channels_of samples;
       lastRow = pos_of (rg_y wanted) + pos_of (rg_height wanted) - 1;
       out' = (if y \<ge> pos_of (rg_y wanted)
         then copyColumns row (pos_of (rg_x wanted)) (pos_of (rg_width wanted)) samples out ((y - pos_of (rg_y wanted)) * pos_of (rg_width wanted) * channels)
         else out) in
     (y < lastRow \<or> lastRow = ph_height header - 1, out'))"

text \<open>How the inflated stream ends: closed, or broken, by the \<open>idatStream\<close>'s error or by zlib's own.\<close>

datatype ending = Closed | Broken "image_error option"

fun read_parts :: "png_head \<Rightarrow> region \<Rightarrow> byte list list \<Rightarrow> ending \<Rightarrow> assembler \<Rightarrow> byte list \<Rightarrow> image_error + byte list" where
  "read_parts header wanted [] fin a out = (case fin of
       Broken (Some e) \<Rightarrow> Inl e
     | Broken None \<Rightarrow> Inl (refuse_png ''the pixel data is not valid zlib'')
     | Closed \<Rightarrow> if as_y a < ph_height header then Inl (refuse_png ''the pixel data is shorter than the header says'') else Inr out)"
| "read_parts header wanted (part # parts) fin a out =
     (case feed (ph_width header * ph_samples header) (ph_height header) (ph_samples header) (keep_row wanted header) part a out of
        Inl e \<Rightarrow> Inl e
      | Inr (going, a', out') \<Rightarrow> if \<not> going then Inr out' else read_parts header wanted parts fin a' out')"

type_synonym inflate = "byte list list \<Rightarrow> image_error option \<Rightarrow> byte list list \<times> ending"

definition cropPng :: "inflate \<Rightarrow> byte list \<Rightarrow> (nat \<Rightarrow> nat \<Rightarrow> region) \<Rightarrow> nat option \<Rightarrow> image_error + raw_image" where
  "cropPng inflate bs region maxPixels = (case readHeader bs maxPixels of Inl e \<Rightarrow> Inl e
     | Inr header \<Rightarrow> (let wanted = region (ph_width header) (ph_height header) in
       case checkRegion wanted header of Inl e \<Rightarrow> Inl e
       | Inr _ \<Rightarrow> (let w = pos_of (rg_width wanted); h = pos_of (rg_height wanted); channels = channels_of (ph_samples header);
             out = replicate (w * h * channels) 0;
             (parts, fin) = (case idatStream bs of (payloads, e) \<Rightarrow> inflate payloads e) in
           case read_parts header wanted parts fin (createRowAssembler (ph_width header * ph_samples header)) out of
             Inl e \<Rightarrow> Inl e
           | Inr pixels \<Rightarrow> Inr \<lparr>ri_width = w, ri_height = h, ri_channels = channels, ri_pixels = pixels\<rparr>)))"

end
