(* ===== verification/Image_Crop.thy ===== *)
theory Image_Crop
  imports Image_Png
begin

text \<open>
  What the crop reads is what was drawn: the filters of the PNG specification (section 9) as functions of the
  pixels, that \<open>unfilterRow\<close> undoes each, that the assembler cuts rows the same however the inflated bytes
  are cut, and the region of \<open>cropPng\<close> for any such file, \<open>encodePng\<close>'s among them.
\<close>

section \<open>The filters of the specification\<close>

text \<open>The neighbour nearest to \<open>a + b - c\<close>, the first of them on a tie.\<close>

definition nearest :: "int \<Rightarrow> int \<Rightarrow> int \<Rightarrow> int" where
  "nearest a b c = hd (sort_key (\<lambda>v. \<bar>a + b - c - v\<bar>) [a, b, c])"

definition predictor :: "nat \<Rightarrow> byte \<Rightarrow> byte \<Rightarrow> byte \<Rightarrow> byte" where
  "predictor t a b c = [0, a, b, of_int ((uint a + uint b) div 2), of_int (nearest (uint a) (uint b) (uint c))] ! t"

text \<open>The byte a pixel to the left, 0 where there is none.\<close>

definition left_sample :: "nat \<Rightarrow> byte list \<Rightarrow> nat \<Rightarrow> byte" where
  "left_sample bpp xs i = (if bpp \<le> i then xs ! (i - bpp) else 0)"

definition filter_row :: "nat \<Rightarrow> nat \<Rightarrow> byte list \<Rightarrow> byte list \<Rightarrow> byte list" where
  "filter_row t bpp prev cur = map (\<lambda>i. cur ! i - predictor t (left_sample bpp cur i) (prev ! i) (left_sample bpp prev i)) [0..<length cur]"

lemma paeth_nearest: "paeth a b c = nearest a b c"
  by (auto simp: paeth_def nearest_def Let_def insort_key.simps)

lemma filter_row_length [simp]: "length (filter_row t bpp prev cur) = length cur"
  by (simp add: filter_row_def)

lemma filter_row_nth [simp]:
  "i < length cur \<Longrightarrow> filter_row t bpp prev cur ! i = cur ! i - predictor t (left_sample bpp cur i) (prev ! i) (left_sample bpp prev i)"
  by (simp add: filter_row_def)

text \<open>The row while the loop is at \<open>i\<close>: what is before it is undone, the rest is not.\<close>

definition half_done :: "'a \<Rightarrow> 'a list \<Rightarrow> 'a list \<Rightarrow> nat \<Rightarrow> 'a list" where
  "half_done t cur filtered k = t # take k cur @ drop k filtered"

lemma half_done_nth:
  "length filtered = length cur \<Longrightarrow> k \<le> length cur \<Longrightarrow> j < length cur \<Longrightarrow> half_done t cur filtered k ! (Suc j) = (if j < k then cur ! j else filtered ! j)"
  by (auto simp: half_done_def nth_append)

lemma half_done_length [simp]: "length filtered = length cur \<Longrightarrow> k \<le> length cur \<Longrightarrow> length (half_done t cur filtered k) = Suc (length cur)"
  by (simp add: half_done_def)

lemma half_done_step:
  assumes "length filtered = length cur" "k < length cur"
  shows "(half_done t cur filtered k)[Suc k := cur ! k] = half_done t cur filtered (Suc k)"
proof (rule nth_equalityI)
  fix i assume "i < length ((half_done t cur filtered k)[Suc k := cur ! k])"
  then show "(half_done t cur filtered k)[Suc k := cur ! k] ! i = half_done t cur filtered (Suc k) ! i"
    using assms half_done_nth [OF assms(1)] by (cases i) (auto simp: nth_list_update half_done_def nth_append less_Suc_eq)
qed (use assms in simp)

lemma half_done_all: "length filtered = length cur \<Longrightarrow> half_done t cur filtered (length cur) = t # cur"
  by (simp add: half_done_def)

lemma undo_loop:
  assumes f: "length filtered = length cur" and k: "k \<le> length cur"
    and step: "\<And>j. k \<le> j \<Longrightarrow> j < length cur \<Longrightarrow> f (Suc j) (half_done t cur filtered j) = (half_done t cur filtered j)[Suc j := cur ! j]"
  shows "fold f [Suc k..<Suc (length cur)] (half_done t cur filtered k) = t # cur"
proof -
  have "fold f [Suc k..<Suc n] (half_done t cur filtered k) = half_done t cur filtered n" if "k \<le> n" "n \<le> length cur" for n
    using that
  proof (induction n rule: dec_induct)
    case base
    then show ?case by simp
  next
    case (step m)
    then show ?case using assms(3) [of m] half_done_step [OF f, of m] by simp
  qed
  then show ?thesis using k half_done_all [OF f] by simp
qed

lemma half_done_start: "(\<And>i. i < k \<Longrightarrow> filtered ! i = cur ! i) \<Longrightarrow> length filtered = length cur \<Longrightarrow> k \<le> length cur \<Longrightarrow> t # filtered = half_done t cur filtered k"
proof -
  assume a: "\<And>i. i < k \<Longrightarrow> filtered ! i = cur ! i" "length filtered = length cur" "k \<le> length cur"
  then have "take k cur = take k filtered" by (intro nth_equalityI) auto
  then show ?thesis by (simp add: half_done_def)
qed

lemma byte_add [simp]: "(of_int (byte_int x + n) :: byte) = x + of_int n"
  by (simp add: byte_int_def)

lemma unfilter_filter:
  assumes "t \<le> 4" "length prev = length cur" "1 \<le> bpp"
  shows "unfilterRow t (h # filter_row t bpp prev cur) (p # prev) 1 (length cur) bpp = Some (h # cur)"
proof -
  let ?F = "filter_row t bpp prev cur"
  have len: "length ?F = length cur" by simp
  have here: "half_done h cur ?F j ! Suc j = ?F ! j" if "j < length cur" for j
    using half_done_nth [OF len, of j j] that by simp
  have left: "half_done h cur ?F j ! (Suc j - bpp) = cur ! (j - bpp)" if "bpp \<le> j" "j < length cur" for j
    using half_done_nth [OF len, of j "j - bpp"] that assms(3) by (simp add: Suc_diff_le)
  have pleft: "(p # prev) ! (Suc j - bpp) = prev ! (j - bpp)" if "bpp \<le> j" for j
    using that by (simp add: Suc_diff_le)
  have undo: "fold f [1..<1 + length cur] (h # ?F) = h # cur"
    if "\<And>j. j < length cur \<Longrightarrow> f (Suc j) (half_done h cur ?F j) = (half_done h cur ?F j)[Suc j := cur ! j]" for f
    using undo_loop [OF len, of 0 f h] that half_done_start [of 0 ?F cur h] by simp
  consider "t = 0" | "t = 1" | "t = 2" | "t = 3" | "t = 4" using assms(1) by linarith
  then show ?thesis
  proof cases
    case 1
    then have "?F = cur" by (intro nth_equalityI) (simp_all add: predictor_def)
    then show ?thesis using 1 by (simp add: unfilterRow_def)
  next
    case 2
    have "fold (unfilter_sub bpp) [1 + bpp..<1 + length cur] (h # ?F) = h # cur"
    proof (cases "bpp \<le> length cur")
      case True
      have "h # ?F = half_done h cur ?F bpp"
        by (rule half_done_start) (use True 2 in \<open>auto simp: predictor_def left_sample_def\<close>)
      moreover have "fold (unfilter_sub bpp) [Suc bpp..<Suc (length cur)] (half_done h cur ?F bpp) = h # cur"
        by (rule undo_loop [OF len True]) (use 2 here left in \<open>simp add: unfilter_sub_def predictor_def left_sample_def\<close>)
      ultimately show ?thesis by simp
    next
      case False
      then have "?F = cur" by (intro nth_equalityI) (use 2 in \<open>simp_all add: predictor_def left_sample_def\<close>)
      then show ?thesis using False by simp
    qed
    then show ?thesis using 2 by (simp add: unfilterRow_def)
  next
    case 3
    have "fold (unfilter_up (p # prev)) [1..<1 + length cur] (h # ?F) = h # cur"
      by (rule undo) (use 3 here in \<open>simp add: unfilter_up_def predictor_def\<close>)
    then show ?thesis using 3 by (simp add: unfilterRow_def)
  next
    case 4
    have "fold (unfilter_average (p # prev) 1 bpp) [1..<1 + length cur] (h # ?F) = h # cur"
    proof (rule undo)
      fix j assume j: "j < length cur"
      show "unfilter_average (p # prev) 1 bpp (Suc j) (half_done h cur ?F j) = (half_done h cur ?F j)[Suc j := cur ! j]"
        using here [OF j] left [of j] j 4 by (cases "bpp \<le> j") (simp_all add: unfilter_average_def predictor_def left_sample_def byte_int_def)
    qed
    then show ?thesis using 4 by (simp add: unfilterRow_def)
  next
    case 5
    have "fold (unfilter_paeth (p # prev) 1 bpp) [1..<1 + length cur] (h # ?F) = h # cur"
    proof (rule undo)
      fix j assume j: "j < length cur"
      show "unfilter_paeth (p # prev) 1 bpp (Suc j) (half_done h cur ?F j) = (half_done h cur ?F j)[Suc j := cur ! j]"
        using here [OF j] left [of j] pleft [of j] j 5 by (cases "bpp \<le> j") (simp_all add: unfilter_paeth_def predictor_def left_sample_def byte_int_def paeth_nearest)
    qed
    then show ?thesis using 5 by (simp add: unfilterRow_def)
  qed
qed

section \<open>Rows of a stream\<close>

text \<open>The rows of the whole data, as if it came in one piece: what is left is less than a row.\<close>

function by_rows :: "nat \<Rightarrow> nat \<Rightarrow> nat \<Rightarrow> (byte list \<Rightarrow> nat \<Rightarrow> 's \<Rightarrow> bool \<times> 's) \<Rightarrow> byte list \<Rightarrow> nat \<Rightarrow> 's \<Rightarrow> byte list
    \<Rightarrow> image_error + bool \<times> (byte list \<times> nat \<times> byte list) \<times> 's" where
  "by_rows stride height bpp onRow prev y s bs = (if bs = [] then Inr (True, (prev, y, []), s)
     else if y \<ge> height then Inl (refuse_png ''the pixel data is longer than the header says'')
     else if length bs < stride + 1 then Inr (True, (prev, y, bs), s)
     else (case unfilterRow (unat (bs ! 0)) (take (stride + 1) bs) prev 1 stride bpp of
         None \<Rightarrow> Inl (refuse_png ''a row has an unknown filter'')
       | Some row \<Rightarrow> (case onRow row y s of (going, s') \<Rightarrow>
           if \<not> going then Inr (False, (row, y + 1, []), s')
           else by_rows stride height bpp onRow row (y + 1) s' (drop (stride + 1) bs))))"
  by pat_completeness auto

termination
  by (relation "measure (\<lambda>(stride, height, bpp, onRow, prev, y, s, bs). length bs)") auto

declare by_rows.simps [simp del]

definition sized :: "nat \<Rightarrow> nat \<Rightarrow> assembler \<Rightarrow> bool" where
  "sized stride height a = (length (as_previous a) = stride + 1 \<and> length (as_current a) = stride + 1 \<and> as_filled a \<le> stride \<and>
     (0 < as_filled a \<longrightarrow> as_y a < height))"

definition pending :: "assembler \<Rightarrow> byte list" where
  "pending a = take (as_filled a) (as_current a)"

lemma fold_length: "(\<And>i r. length (f i r) = length r) \<Longrightarrow> length (fold f is r) = length r"
  by (induction "is" arbitrary: r) simp_all

lemma unfilterRow_length: "unfilterRow t row prev off stride bpp = Some row' \<Longrightarrow> length row' = length row"
  by (auto simp: unfilterRow_def Let_def unfilter_sub_def unfilter_up_def unfilter_average_def unfilter_paeth_def fold_length split: if_splits)

definition same_rows :: "nat \<Rightarrow> nat \<Rightarrow> image_error + bool \<times> assembler \<times> 's \<Rightarrow> image_error + bool \<times> (byte list \<times> nat \<times> byte list) \<times> 's \<Rightarrow> bool" where
  "same_rows stride height r q = (case r of Inl e \<Rightarrow> q = Inl e
     | Inr (going, a, s) \<Rightarrow> if going then q = Inr (True, (as_previous a, as_y a, pending a), s) \<and> sized stride height a
         else (\<exists>x. q = Inr (False, x, s)))"

lemma feed_by_rows:
  "sized stride height a \<Longrightarrow> same_rows stride height (feed stride height bpp onRow part a s) (by_rows stride height bpp onRow (as_previous a) (as_y a) s (pending a @ part))"
proof (induction stride height bpp onRow part a s rule: feed.induct)
  case (1 stride height bpp onRow part a s)
  note sz = 1(3) [unfolded sized_def]
  have lp: "length (pending a) = as_filled a" using sz by (simp add: pending_def)
  show ?case
  proof (cases "part = []")
    case True
    have "by_rows stride height bpp onRow (as_previous a) (as_y a) s (pending a) = Inr (True, (as_previous a, as_y a, pending a), s)"
      using sz lp by (subst by_rows.simps) auto
    then show ?thesis using True 1(3) by (simp add: feed.simps [of _ _ _ _ "[]"] same_rows_def)
  next
    case ne: False
    show ?thesis
    proof (cases "as_y a \<ge> height")
      case True
      then have "by_rows stride height bpp onRow (as_previous a) (as_y a) s (pending a @ part) = Inl (refuse_png ''the pixel data is longer than the header says'')"
        using ne by (subst by_rows.simps) simp
      then show ?thesis using ne True by (subst feed.simps) (simp add: same_rows_def)
    next
      case y: False
      define n where "n = min (length part) (stride + 1 - as_filled a)"
      define current where "current = splice (as_current a) (as_filled a) (take n part)"
      have cur: "take (as_filled a + n) current = pending a @ take n part" "length current = stride + 1"
        using sz by (auto simp: current_def splice_def pending_def n_def min_def)
      show ?thesis
      proof (cases "as_filled a + n < stride + 1")
        case True
        then have n: "n = length part" by (auto simp: n_def)
        define a' where "a' = a\<lparr>as_current := current, as_filled := as_filled a + n\<rparr>"
        have "feed stride height bpp onRow part a s = Inr (True, a', s)"
          using ne y True n unfolding feed.simps [of _ _ _ _ part] a'_def current_def n_def Let_def by (simp add: feed.simps [of _ _ _ _ "[]"])
        moreover have "by_rows stride height bpp onRow (as_previous a) (as_y a) s (pending a @ part) = Inr (True, (as_previous a, as_y a, pending a @ part), s)"
          using ne y True n lp by (subst by_rows.simps) simp
        moreover have "pending a' = pending a @ part" using cur(1) n by (simp add: a'_def pending_def)
        moreover have "sized stride height a'" using sz cur y True by (auto simp: a'_def sized_def)
        ultimately show ?thesis by (simp add: same_rows_def a'_def)
      next
        case full: False
        have n: "as_filled a + n = stride + 1" "n \<le> length part" using full sz by (auto simp: n_def min_def split: if_splits)
        have whole: "current = take (stride + 1) (pending a @ part)" "drop (stride + 1) (pending a @ part) = drop n part"
          using cur n(2) lp n(1) [symmetric] by auto
        have first: "current ! 0 = (pending a @ part) ! 0" unfolding whole(1) by (rule nth_take) simp
        have long: "\<not> length (pending a @ part) < stride + 1" using n lp by simp
        have step: "feed stride height bpp onRow part a s = (case unfilterRow (unat (current ! 0)) current (as_previous a) 1 stride bpp of
             None \<Rightarrow> Inl (refuse_png ''a row has an unknown filter'')
           | Some row \<Rightarrow> (case onRow row (as_y a) s of (going, s') \<Rightarrow>
               (let a' = \<lparr>as_previous = row, as_current = as_previous a, as_filled = 0, as_y = as_y a + 1\<rparr> in
                 if \<not> going then Inr (False, a', s') else feed stride height bpp onRow (drop n part) a' s')))"
          unfolding feed.simps [of _ _ _ _ part] current_def n_def Let_def if_not_P [OF ne] if_not_P [OF y] if_not_P [OF full [unfolded n_def]] ..
        have rows: "by_rows stride height bpp onRow (as_previous a) (as_y a) s (pending a @ part) =
            (case unfilterRow (unat (current ! 0)) current (as_previous a) 1 stride bpp of
               None \<Rightarrow> Inl (refuse_png ''a row has an unknown filter'')
             | Some row \<Rightarrow> (case onRow row (as_y a) s of (going, s') \<Rightarrow>
                 if \<not> going then Inr (False, (row, as_y a + 1, []), s')
                 else by_rows stride height bpp onRow row (as_y a + 1) s' (drop n part)))"
          using ne y long unfolding by_rows.simps [of _ _ _ _ _ _ _ "pending a @ part"] first whole [symmetric] by simp
        show ?thesis
        proof (cases "unfilterRow (unat (current ! 0)) current (as_previous a) 1 stride bpp")
          case None
          then show ?thesis unfolding step rows by (simp add: same_rows_def)
        next
          case (Some row)
          obtain going s' where o: "onRow row (as_y a) s = (going, s')" by (cases "onRow row (as_y a) s")
          define a' where "a' = \<lparr>as_previous = row, as_current = as_previous a, as_filled = 0, as_y = as_y a + 1\<rparr>"
          have sz': "sized stride height a'" using sz unfilterRow_length [OF Some] cur(2) by (simp add: sized_def a'_def)
          show ?thesis
          proof (cases going)
            case True
            have "same_rows stride height (feed stride height bpp onRow (drop n part) a' s') (by_rows stride height bpp onRow (as_previous a') (as_y a') s' (pending a' @ drop n part))"
              by (rule 1(2) [OF ne y n_def current_def refl full Some o [symmetric] a'_def _ sz']) (use True in simp_all)
            then show ?thesis unfolding step rows Some option.case o prod.case using True by (simp add: a'_def Let_def pending_def)
          next
            case False
            then show ?thesis unfolding step rows Some option.case o prod.case by (simp add: same_rows_def Let_def)
          qed
        qed
      qed
    qed
  qed
qed

lemma by_rows_append:
  "by_rows stride height bpp onRow prev y s (bs @ tail) = (case by_rows stride height bpp onRow prev y s bs of
     Inl e \<Rightarrow> Inl e
   | Inr (going, (prev', y', rest), s') \<Rightarrow> if going then by_rows stride height bpp onRow prev' y' s' (rest @ tail) else Inr (going, (prev', y', rest), s'))"
proof (induction stride height bpp onRow prev y s bs rule: by_rows.induct)
  case (1 stride height bpp onRow prev y s bs)
  show ?case
  proof (cases "bs = [] \<or> y \<ge> height \<or> length bs < stride + 1")
    case True
    show ?thesis
    proof (cases "bs = []")
      case False
      then show ?thesis using True
        by (cases "y \<ge> height") (simp_all add: by_rows.simps [of _ _ _ _ _ _ _ bs] by_rows.simps [of _ _ _ _ _ _ _ "bs @ tail"])
    qed (simp add: by_rows.simps [of _ _ _ _ _ _ _ "[]"])
  next
    case False
    then have l: "stride + 1 \<le> length bs" "\<not> y \<ge> height" "bs \<noteq> []" by auto
    have t: "take (stride + 1) (bs @ tail) = take (stride + 1) bs" "drop (stride + 1) (bs @ tail) = drop (stride + 1) bs @ tail" "(bs @ tail) ! 0 = bs ! 0"
      using l by (auto simp: nth_append)
    have a: "by_rows stride height bpp onRow prev y s (bs @ tail) = (case unfilterRow (unat (bs ! 0)) (take (stride + 1) bs) prev 1 stride bpp of
         None \<Rightarrow> Inl (refuse_png ''a row has an unknown filter'')
       | Some row \<Rightarrow> (case onRow row y s of (going, s') \<Rightarrow>
           if \<not> going then Inr (False, (row, y + 1, []), s')
           else by_rows stride height bpp onRow row (y + 1) s' (drop (stride + 1) bs @ tail)))"
      unfolding by_rows.simps [of _ _ _ _ _ _ _ "bs @ tail"] t using l by simp
    have b: "by_rows stride height bpp onRow prev y s bs = (case unfilterRow (unat (bs ! 0)) (take (stride + 1) bs) prev 1 stride bpp of
         None \<Rightarrow> Inl (refuse_png ''a row has an unknown filter'')
       | Some row \<Rightarrow> (case onRow row y s of (going, s') \<Rightarrow>
           if \<not> going then Inr (False, (row, y + 1, []), s')
           else by_rows stride height bpp onRow row (y + 1) s' (drop (stride + 1) bs)))"
      unfolding by_rows.simps [of _ _ _ _ _ _ _ bs] using l by simp
    show ?thesis
    proof (cases "unfilterRow (unat (bs ! 0)) (take (stride + 1) bs) prev 1 stride bpp")
      case None
      then show ?thesis unfolding a b by simp
    next
      case (Some row)
      obtain going s' where o: "onRow row y s = (going, s')" by (cases "onRow row y s")
      show ?thesis
      proof (cases going)
        case True
        show ?thesis unfolding a b Some option.case o prod.case
          using 1 [OF l(3) l(2) _ Some o [symmetric]] l True by simp
      next
        case False
        then show ?thesis unfolding a b Some option.case o prod.case by simp
      qed
    qed
  qed
qed

text \<open>What is left to do once the data has been fed.\<close>

definition fin_of :: "png_head \<Rightarrow> ending \<Rightarrow> image_error + bool \<times> (byte list \<times> nat \<times> byte list) \<times> byte list \<Rightarrow> image_error + byte list" where
  "fin_of header fin r = (case r of Inl e \<Rightarrow> Inl e
     | Inr (going, (prev, y, rest), out) \<Rightarrow> if \<not> going then Inr out
         else (case fin of
             Broken (Some e) \<Rightarrow> Inl e
           | Broken None \<Rightarrow> Inl (refuse_png ''the pixel data is not valid zlib'')
           | Closed \<Rightarrow> if y < ph_height header then Inl (refuse_png ''the pixel data is shorter than the header says'') else Inr out))"

lemma read_parts_by_rows:
  assumes "sized (ph_width header * ph_samples header) (ph_height header) a"
  shows "read_parts header wanted parts fin a out =
    fin_of header fin (by_rows (ph_width header * ph_samples header) (ph_height header) (ph_samples header) (keep_row wanted header)
      (as_previous a) (as_y a) out (pending a @ concat parts))"
  using assms
proof (induction parts arbitrary: a out)
  case Nil
  have "by_rows (ph_width header * ph_samples header) (ph_height header) (ph_samples header) (keep_row wanted header) (as_previous a) (as_y a) out (pending a)
      = Inr (True, (as_previous a, as_y a, pending a), out)"
    using Nil by (subst by_rows.simps) (auto simp: sized_def pending_def)
  then show ?case by (simp add: fin_of_def)
next
  case (Cons part parts)
  let ?S = "ph_width header * ph_samples header"
  let ?feed = "feed ?S (ph_height header) (ph_samples header) (keep_row wanted header) part a out"
  let ?B = "by_rows ?S (ph_height header) (ph_samples header) (keep_row wanted header)"
  have rel: "same_rows ?S (ph_height header) ?feed (?B (as_previous a) (as_y a) out (pending a @ part))" by (rule feed_by_rows) (rule Cons.prems)
  have app: "?B (as_previous a) (as_y a) out (pending a @ concat (part # parts)) = (case ?B (as_previous a) (as_y a) out (pending a @ part) of
     Inl e \<Rightarrow> Inl e
   | Inr (going, (prev', y', rest), s') \<Rightarrow> if going then ?B prev' y' s' (rest @ concat parts) else Inr (going, (prev', y', rest), s'))"
    using by_rows_append [of _ _ _ _ _ _ _ "pending a @ part" "concat parts"] by simp
  show ?case
  proof (cases ?feed)
    case (Inl e)
    then show ?thesis unfolding app using rel by (simp add: same_rows_def fin_of_def)
  next
    case (Inr r)
    obtain going a' out' where r: "r = (going, a', out')" by (cases r)
    show ?thesis
    proof (cases going)
      case True
      then show ?thesis unfolding app using rel Inr r Cons.IH [of a' out'] by (simp add: same_rows_def)
    next
      case False
      then show ?thesis unfolding app using rel Inr r by (auto simp: same_rows_def fin_of_def)
    qed
  qed
qed

section \<open>Filtered rows\<close>

text \<open>The raw data of an image: each row with its filter, over the row above it.\<close>

fun filtered_rows :: "nat \<Rightarrow> byte list \<Rightarrow> (nat \<times> byte list) list \<Rightarrow> byte list" where
  "filtered_rows bpp prev [] = []"
| "filtered_rows bpp prev ((t, cur) # rows) = of_nat t # filter_row t bpp prev cur @ filtered_rows bpp cur rows"

fun on_rows :: "(byte list \<Rightarrow> nat \<Rightarrow> 's \<Rightarrow> bool \<times> 's) \<Rightarrow> nat \<Rightarrow> 's \<Rightarrow> (nat \<times> byte list) list \<Rightarrow> bool \<times> nat \<times> 's" where
  "on_rows onRow y s [] = (True, y, s)"
| "on_rows onRow y s ((t, cur) # rows) = (case onRow (of_nat t # cur) y s of (going, s') \<Rightarrow>
     if \<not> going then (False, y + 1, s') else on_rows onRow (y + 1) s' rows)"

lemma by_rows_filtered:
  assumes "\<And>t cur. (t, cur) \<in> set rows \<Longrightarrow> t \<le> 4 \<and> length cur = stride" "length prev = stride" "1 \<le> bpp" "y + length rows \<le> height"
  shows "\<exists>prev'. by_rows stride height bpp onRow (p # prev) y s (filtered_rows bpp prev rows) =
    (case on_rows onRow y s rows of (going, y', s') \<Rightarrow> Inr (going, (prev', y', []), s'))"
  using assms
proof (induction rows arbitrary: prev p y s)
  case Nil
  then show ?case by (subst by_rows.simps) simp
next
  case (Cons row rows)
  obtain t cur where row: "row = (t, cur)" by (cases row)
  have t: "t \<le> 4" "length cur = stride" using Cons.prems(1) [of t cur] row by simp_all
  have next_rows: "drop (stride + 1) (filtered_rows bpp prev (row # rows)) = filtered_rows bpp cur rows" using t(2) by (simp add: row)
  have "unat (of_nat t :: byte) = t" using t by (simp add: unat_of_nat)
  moreover have "unfilterRow t (of_nat t # filter_row t bpp prev cur) (p # prev) 1 stride bpp = Some (of_nat t # cur)"
    using unfilter_filter [OF t(1), of prev cur bpp] t(2) Cons.prems(2, 3) by simp
  ultimately have step: "by_rows stride height bpp onRow (p # prev) y s (filtered_rows bpp prev (row # rows)) = (case onRow (of_nat t # cur) y s of (going, s') \<Rightarrow>
       if \<not> going then Inr (False, (of_nat t # cur, y + 1, []), s') else by_rows stride height bpp onRow (of_nat t # cur) (y + 1) s' (filtered_rows bpp cur rows))"
    unfolding by_rows.simps [of _ _ _ _ _ _ _ "filtered_rows bpp prev (row # rows)"] next_rows using Cons.prems(4) t(2) by (simp add: row)
  obtain going s' where o: "onRow (of_nat t # cur) y s = (going, s')" by (cases "onRow (of_nat t # cur) y s")
  show ?case
  proof (cases going)
    case True
    have "\<exists>prev'. by_rows stride height bpp onRow (of_nat t # cur) (y + 1) s' (filtered_rows bpp cur rows) =
        (case on_rows onRow (y + 1) s' rows of (going, y', s') \<Rightarrow> Inr (going, (prev', y', []), s'))"
      by (rule Cons.IH) (use Cons.prems t in auto)
    then show ?thesis using True unfolding step o by (simp add: row o)
  next
    case False
    then show ?thesis unfolding step o by (simp add: row o)
  qed
qed

section \<open>The region\<close>

text \<open>A pixel of the result: grey is widened to RGB, grey with alpha to RGBA.\<close>

definition widen :: "nat \<Rightarrow> byte list \<Rightarrow> byte list" where
  "widen n px = (if n = 1 then [px ! 0, px ! 0, px ! 0] else if n = 2 then [px ! 0, px ! 0, px ! 0, px ! 1] else px)"

definition pixel :: "nat \<Rightarrow> byte list \<Rightarrow> nat \<Rightarrow> byte list" where
  "pixel n row c = take n (drop (c * n) row)"

definition row_region :: "nat \<Rightarrow> byte list \<Rightarrow> nat \<Rightarrow> nat \<Rightarrow> byte list" where
  "row_region n row x w = concat (map (\<lambda>c. widen n (pixel n row c)) [x..<x + w])"

definition region_pixels :: "nat \<Rightarrow> byte list list \<Rightarrow> nat \<Rightarrow> nat \<Rightarrow> nat \<Rightarrow> nat \<Rightarrow> byte list" where
  "region_pixels n rows x y w h = concat (map (\<lambda>r. row_region n (rows ! r) x w) [y..<y + h])"

lemma row_region_Suc: "row_region n row x (Suc w) = row_region n row x w @ widen n (pixel n row (x + w))"
  by (simp add: row_region_def)

lemma row_region_0 [simp]: "row_region n row x 0 = []"
  by (simp add: row_region_def)

lemma widen_length: "n \<in> {1, 2, 3, 4} \<Longrightarrow> length px = n \<Longrightarrow> length (widen n px) = channels_of n"
  by (auto simp: widen_def channels_of_def)

lemma pixel_length: "length row = W * n \<Longrightarrow> c < W \<Longrightarrow> length (pixel n row c) = n"
proof -
  assume a: "length row = W * n" "c < W"
  have "Suc c * n \<le> W * n" using a(2) by (intro mult_le_mono1) simp
  then show ?thesis using a(1) by (simp add: pixel_def)
qed

lemma row_region_length:
  assumes "n \<in> {1, 2, 3, 4}" "length row = W * n" "x + w \<le> W"
  shows "length (row_region n row x w) = w * channels_of n"
  using assms(3)
proof (induction w)
  case (Suc w)
  then show ?case using widen_length [OF assms(1) pixel_length [OF assms(2), of "x + w"]] by (simp add: row_region_Suc)
qed simp

lemma splice_update: "at + length ys < length xs \<Longrightarrow> (splice xs at ys)[at + length ys := v] = splice xs at (ys @ [v])"
  by (simp add: splice_def list_update_append Cons_nth_drop_Suc [symmetric])

lemma splice_length: "at + length ys \<le> length xs \<Longrightarrow> length (splice xs at ys) = length xs"
  by (simp add: splice_def)

lemma splice_four:
  "at + length ys + 3 < length xs \<Longrightarrow> (splice xs at ys)[at + length ys := a, at + length ys + 1 := b, at + length ys + 2 := c, at + length ys + 3 := d] = splice xs at (ys @ [a, b, c, d])"
  using splice_update [of at ys xs a] splice_update [of at "ys @ [a]" xs b] splice_update [of at "ys @ [a, b]" xs c] splice_update [of at "ys @ [a, b, c]" xs d]
  by (simp add: add.assoc eval_nat_numeral)

lemma splice_three:
  "at + length ys + 2 < length xs \<Longrightarrow> (splice xs at ys)[at + length ys := a, at + length ys + 1 := b, at + length ys + 2 := c] = splice xs at (ys @ [a, b, c])"
  using splice_update [of at ys xs a] splice_update [of at "ys @ [a]" xs b] splice_update [of at "ys @ [a, b]" xs c]
  by (simp add: add.assoc)

lemma whole_pixels: "3 \<le> n \<Longrightarrow> row_region n row x w = take (w * n) (drop (x * n) row)"
proof (induction w)
  case (Suc w)
  have "take (Suc w * n) (drop (x * n) row) = take (w * n) (drop (x * n) row) @ take n (drop ((x + w) * n) row)"
    using take_add [of "w * n" n "drop (x * n) row"] by (simp add: algebra_simps)
  then show ?case using Suc by (simp add: row_region_Suc widen_def pixel_def)
qed simp

lemma grey_step:
  assumes n: "n = 1 \<or> n = 2" and row: "length row = W * n" "x + k < W" and out: "outRow + Suc k * channels_of n \<le> length out"
  shows "grey_pixel (t # row) (1 + x * n) n (channels_of n) outRow k (splice out outRow (row_region n row x k)) = splice out outRow (row_region n row x (Suc k))"
proof -
  have len: "length (row_region n row x k) = k * channels_of n" by (rule row_region_length [OF _ row(1)]) (use n row(2) in auto)
  have "(x + k) * n + n \<le> length row" using row by (metis Suc_leI add.commute mult_Suc mult_le_mono1)
  then have px: "pixel n row (x + k) ! j = row ! ((x + k) * n + j)" if "j < n" for j using that n by (auto simp: pixel_def)
  have idx: "(t # row) ! (1 + x * n + k * n) = row ! ((x + k) * n)" "(t # row) ! (1 + x * n + k * n + 1) = row ! ((x + k) * n + 1)"
    by (simp_all add: add_mult_distrib)
  from n show ?thesis
  proof
    assume 1: "n = 1"
    show ?thesis using splice_three [of outRow "row_region n row x k" out] len out px [of 0] idx 1
      by (simp add: grey_pixel_def Let_def row_region_Suc widen_def channels_of_def)
  next
    assume 2: "n = 2"
    show ?thesis using splice_four [of outRow "row_region n row x k" out] len out px [of 0] px [of 1] idx 2
      by (simp add: grey_pixel_def Let_def row_region_Suc widen_def channels_of_def)
  qed
qed

lemma copyColumns_region:
  assumes n: "n \<in> {1, 2, 3, 4}" and row: "length row = W * n" "x + w \<le> W" and out: "outRow + w * channels_of n \<le> length out"
  shows "copyColumns (t # row) x w n out outRow = splice out outRow (row_region n row x w)"
proof (cases "n \<ge> 3")
  case True
  then show ?thesis by (simp add: copyColumns_def Let_def subarray_def whole_pixels)
next
  case False
  then have n12: "n = 1 \<or> n = 2" using n by auto
  have "fold (grey_pixel (t # row) (1 + x * n) n (channels_of n) outRow) [0..<k] out = splice out outRow (row_region n row x k)" if "k \<le> w" for k
    using that
  proof (induction k)
    case 0
    then show ?case by (simp add: splice_def)
  next
    case (Suc k)
    have "Suc k * channels_of n \<le> w * channels_of n" using Suc.prems by (rule mult_le_mono1)
    then show ?case using Suc grey_step [OF n12 row(1), of x k outRow out t] row(2) out by simp
  qed
  moreover have "(if n = 1 then 3 else 4) = channels_of n" using n12 by (auto simp: channels_of_def)
  ultimately show ?thesis using False by (simp add: copyColumns_def Let_def)
qed

text \<open>What is kept before row \<open>r\<close> of an image whose region is \<open>x, y, w, h\<close>.\<close>

definition kept_before :: "nat \<Rightarrow> byte list list \<Rightarrow> nat \<Rightarrow> nat \<Rightarrow> nat \<Rightarrow> nat \<Rightarrow> nat \<Rightarrow> byte list" where
  "kept_before n rows x y w h r = region_pixels n rows x y w (r - y) @ replicate ((h - (r - y)) * w * channels_of n) 0"

lemma region_pixels_Suc: "region_pixels n rows x y w (Suc h) = region_pixels n rows x y w h @ row_region n (rows ! (y + h)) x w"
  by (simp add: region_pixels_def)

lemma region_pixels_length:
  assumes "n \<in> {1, 2, 3, 4}" "\<And>r. r < H \<Longrightarrow> length (rows ! r) = W * n" "x + w \<le> W" "y + h \<le> H"
  shows "length (region_pixels n rows x y w h) = h * w * channels_of n"
  using assms(4)
proof (induction h)
  case 0
  then show ?case by (simp add: region_pixels_def)
next
  case (Suc h)
  then show ?case using row_region_length [OF assms(1) assms(2) assms(3), of "y + h"] by (simp add: region_pixels_Suc add_mult_distrib)
qed

definition rect :: "nat \<Rightarrow> nat \<Rightarrow> nat \<Rightarrow> nat \<Rightarrow> region" where
  "rect x y w h = \<lparr>rg_x = Whole (int x), rg_y = Whole (int y), rg_width = Whole (int w), rg_height = Whole (int h)\<rparr>"

lemma keep_row_step:
  assumes n: "ph_samples header = n" "n \<in> {1, 2, 3, 4}" and rows: "\<And>r. r < H \<Longrightarrow> length (rows ! r) = W * n"
    and fit: "x + w \<le> W" "y + h \<le> H" and r: "r < y + h" "ph_height header = H"
  shows "keep_row (rect x y w h) header (t # rows ! r) r (kept_before n rows x y w h r) =
    (r < y + h - 1 \<or> y + h = H, kept_before n rows x y w h (Suc r))"
proof (cases "y \<le> r")
  case False
  then show ?thesis using n r fit by (auto simp: keep_row_def rect_def Let_def kept_before_def)
next
  case True
  define k where "k = r - y"
  have k: "r = y + k" "k < h" using True r by (auto simp: k_def)
  have len: "length (region_pixels n rows x y w k) = k * w * channels_of n"
    by (rule region_pixels_length [OF n(2) rows fit(1)]) (use k fit in auto)
  have total: "k * w * channels_of n + (h - k) * w * channels_of n = h * w * channels_of n"
    using k by (metis add_mult_distrib le_add_diff_inverse less_imp_le)
  have split: "(h - k) * w * channels_of n = w * channels_of n + (h - Suc k) * w * channels_of n"
    using k by (simp add: Suc_diff_Suc [symmetric] add_mult_distrib)
  have "copyColumns (t # rows ! r) x w n (kept_before n rows x y w h r) (k * w * channels_of n) = splice (kept_before n rows x y w h r) (k * w * channels_of n) (row_region n (rows ! r) x w)"
    by (rule copyColumns_region [OF n(2) rows fit(1)]) (use k fit len split in \<open>auto simp: kept_before_def\<close>)
  also have "\<dots> = kept_before n rows x y w h (Suc r)"
    using len split k row_region_length [OF n(2) rows fit(1), of "y + k"] fit
    by (simp add: kept_before_def splice_def region_pixels_Suc Suc_diff_le)
  finally show ?thesis using n r k fit by (auto simp: keep_row_def rect_def Let_def)
qed

lemma kept_before_all [simp]: "kept_before n rows x y w h (y + h) = region_pixels n rows x y w h"
  by (simp add: kept_before_def)

lemma on_rows_keep:
  assumes n: "ph_samples header = n" "n \<in> {1, 2, 3, 4}" and rows: "\<And>r. r < H \<Longrightarrow> length (snd (trs ! r)) = W * n"
    and fit: "x + w \<le> W" "y + h \<le> H" "1 \<le> h" and H: "length trs = H" "ph_height header = H"
    and at: "todo = drop r trs" "r \<le> H" "r < y + h \<or> r = H \<and> y + h = H"
  shows "\<exists>going. on_rows (keep_row (rect x y w h) header) r (kept_before n (map snd trs) x y w h r) todo =
      (going, if going then H else y + h, region_pixels n (map snd trs) x y w h)"
  using at
proof (induction todo arbitrary: r)
  case Nil
  then have "H \<le> r" using H by simp
  then have "r = y + h" "y + h = H" using Nil.prems fit by auto
  then show ?case using kept_before_all [of n "map snd trs" x y w h] by (intro exI [of _ True]) simp
next
  case (Cons row todo)
  have d: "drop r trs = row # todo" using Cons.prems(1) by simp
  then have "r < length trs" by (cases "r < length trs") auto
  then have r: "r < H" "row = trs ! r" "todo = drop (Suc r) trs" using H(1) d Cons_nth_drop_Suc [of r trs] by simp_all
  obtain t cur where row: "row = (t, cur)" by (cases row)
  then have cur: "map snd trs ! r = cur" using r H by (metis nth_map snd_conv)
  have ry: "r < y + h" using Cons.prems(3) r by auto
  have "keep_row (rect x y w h) header (of_nat t # map snd trs ! r) r (kept_before n (map snd trs) x y w h r) =
      (r < y + h - 1 \<or> y + h = H, kept_before n (map snd trs) x y w h (Suc r))"
    by (rule keep_row_step [OF n _ fit(1, 2) ry H(2)]) (use rows H in simp)
  then have step: "on_rows (keep_row (rect x y w h) header) r (kept_before n (map snd trs) x y w h r) (row # todo) =
      (if \<not> (r < y + h - 1 \<or> y + h = H) then (False, r + 1, kept_before n (map snd trs) x y w h (Suc r))
       else on_rows (keep_row (rect x y w h) header) (Suc r) (kept_before n (map snd trs) x y w h (Suc r)) todo)"
    unfolding row cur by simp
  show ?case
  proof (cases "r < y + h - 1 \<or> y + h = H")
    case True
    have "Suc r < y + h \<or> Suc r = H \<and> y + h = H" using True ry r by auto
    then show ?thesis unfolding step using True Cons.IH [of "Suc r"] r by simp
  next
    case False
    then have "Suc r = y + h" using ry by arith
    then show ?thesis unfolding step using False by (intro exI [of _ False]) simp
  qed
qed

section \<open>Any file\<close>

lemma checkRegion_rect:
  assumes "checkRegion r header = Inr u"
  shows "\<exists>x y w h. r = rect x y w h \<and> 1 \<le> w \<and> 1 \<le> h \<and> x + w \<le> ph_width header \<and> y + h \<le> ph_height header"
proof -
  have f: "region_fits (rg_x r) (rg_width r) (ph_width header)" "region_fits (rg_y r) (rg_height r) (ph_height header)"
    using assms by (auto simp: checkRegion_def split: if_splits)
  obtain x w where xw: "rg_x r = Whole x" "rg_width r = Whole w" "0 \<le> x" "1 \<le> w" "x + w \<le> int (ph_width header)"
    using f(1) by (cases "rg_x r"; cases "rg_width r") auto
  obtain y h where yh: "rg_y r = Whole y" "rg_height r = Whole h" "0 \<le> y" "1 \<le> h" "y + h \<le> int (ph_height header)"
    using f(2) by (cases "rg_y r"; cases "rg_height r") auto
  have "r = rect (nat x) (nat y) (nat w) (nat h)" using xw yh by (simp add: rect_def)
  moreover have "1 \<le> nat w" "1 \<le> nat h" "nat x + nat w \<le> ph_width header" "nat y + nat h \<le> ph_height header" using xw yh by auto
  ultimately show ?thesis by blast
qed

lemma readHeader_samples: "readHeader bs most = Inr header \<Longrightarrow> ph_samples header \<in> {1, 2, 3, 4} \<and> 1 \<le> ph_width header \<and> 1 \<le> ph_height header"
  by (auto simp: readHeader_def samples_of_def size_valid_def Let_def split: if_splits sum.splits option.splits)

lemma crop_rows:
  assumes "readHeader bs most = Inr header" "idatStream bs = (payloads, None)" "inflate payloads None = (parts, Closed)"
    and data: "concat parts = filtered_rows (ph_samples header) (replicate (ph_width header * ph_samples header) 0) trs"
    and rows: "length trs = ph_height header" "\<And>t row. (t, row) \<in> set trs \<Longrightarrow> t \<le> 4 \<and> length row = ph_width header * ph_samples header"
    and region: "region (ph_width header) (ph_height header) = rect x y w h" "1 \<le> w" "1 \<le> h" "x + w \<le> ph_width header" "y + h \<le> ph_height header"
  shows "cropPng inflate bs region most =
    Inr \<lparr>ri_width = w, ri_height = h, ri_channels = channels_of (ph_samples header), ri_pixels = region_pixels (ph_samples header) (map snd trs) x y w h\<rparr>"
proof -
  define n where "n = ph_samples header"
  define W where "W = ph_width header"
  define H where "H = ph_height header"
  have n: "n \<in> {1, 2, 3, 4}" using readHeader_samples [OF assms(1)] by (simp add: n_def)
  have ok: "checkRegion (rect x y w h) header = Inr ()" using region by (simp add: checkRegion_def rect_def)
  have len: "length (snd (trs ! r)) = W * n" if "r < H" for r
    using rows(2) [of "fst (trs ! r)" "snd (trs ! r)"] rows(1) that nth_mem [of r trs] by (simp add: H_def W_def n_def)
  have "\<exists>going. on_rows (keep_row (rect x y w h) header) 0 (kept_before n (map snd trs) x y w h 0) trs =
      (going, if going then H else y + h, region_pixels n (map snd trs) x y w h)"
    by (rule on_rows_keep [where trs = trs and H = H and W = W, OF n_def [symmetric] n len]) (use rows(1) region in \<open>simp_all add: W_def H_def\<close>)
  then obtain going where go: "on_rows (keep_row (rect x y w h) header) 0 (kept_before n (map snd trs) x y w h 0) trs =
      (going, if going then H else y + h, region_pixels n (map snd trs) x y w h)" by blast
  have start: "kept_before n (map snd trs) x y w h 0 = replicate (w * h * channels_of n) 0"
    by (simp add: kept_before_def region_pixels_def mult.commute)
  let ?a = "createRowAssembler (W * n)"
  have sz: "sized (W * n) H ?a" by (simp add: sized_def createRowAssembler_def)
  let ?B = "by_rows (W * n) H n (keep_row (rect x y w h) header) (0 # replicate (W * n) 0) 0 (replicate (w * h * channels_of n) 0) (filtered_rows n (replicate (W * n) 0) trs)"
  have "\<exists>prev'. ?B = (case on_rows (keep_row (rect x y w h) header) 0 (replicate (w * h * channels_of n) 0) trs of (going, y', s') \<Rightarrow> Inr (going, (prev', y', []), s'))"
    by (rule by_rows_filtered) (use rows n in \<open>auto simp: n_def W_def H_def\<close>)
  then obtain prev' where by_rows: "?B = Inr (going, (prev', if going then H else y + h, []), region_pixels n (map snd trs) x y w h)"
    unfolding go [unfolded start] by auto
  have "read_parts header (rect x y w h) parts Closed ?a (replicate (w * h * channels_of n) 0) =
      fin_of header Closed (by_rows (W * n) H n (keep_row (rect x y w h) header) (0 # replicate (W * n) 0) 0 (replicate (w * h * channels_of n) 0) (filtered_rows n (replicate (W * n) 0) trs))"
    using read_parts_by_rows [of header ?a "rect x y w h" parts Closed "replicate (w * h * channels_of n) 0"] sz data
    by (simp add: n_def W_def H_def createRowAssembler_def pending_def)
  also have "\<dots> = Inr (region_pixels n (map snd trs) x y w h)" unfolding by_rows by (simp add: fin_of_def H_def)
  finally have read: "read_parts header (rect x y w h) parts Closed ?a (replicate (w * h * channels_of n) 0) = Inr (region_pixels n (map snd trs) x y w h)" .
  have pos: "pos_of (rg_width (rect x y w h)) = w" "pos_of (rg_height (rect x y w h)) = h" by (simp_all add: rect_def)
  show ?thesis using assms(1-3) ok read region(1) pos by (simp add: cropPng_def Let_def n_def W_def)
qed

text \<open>C35. The crop of a PNG reads what was drawn: for any file whose header is one the reader takes, whose
  inflated data is the rows of an image, each under any of the five filters of the specification, and however
  the stream cuts that data, \<open>cropPng\<close> gives exactly the pixels of the region, grey widened to RGB; a region that
  does not fit is a \<open>RangeError\<close> and nothing else is.\<close>

theorem crop_exact:
  assumes "readHeader bs most = Inr header" "idatStream bs = (payloads, None)" "inflate payloads None = (parts, Closed)"
    and "concat parts = filtered_rows (ph_samples header) (replicate (ph_width header * ph_samples header) 0) trs"
    and "length trs = ph_height header" "\<forall>(t, row) \<in> set trs. t \<le> 4 \<and> length row = ph_width header * ph_samples header"
  shows "cropPng inflate bs region most = (case checkRegion (region (ph_width header) (ph_height header)) header of
      Inl e \<Rightarrow> Inl e
    | Inr _ \<Rightarrow> (let r = region (ph_width header) (ph_height header); w = pos_of (rg_width r); h = pos_of (rg_height r) in
        Inr \<lparr>ri_width = w, ri_height = h, ri_channels = channels_of (ph_samples header),
          ri_pixels = region_pixels (ph_samples header) (map snd trs) (pos_of (rg_x r)) (pos_of (rg_y r)) w h\<rparr>))"
proof (cases "checkRegion (region (ph_width header) (ph_height header)) header")
  case (Inl e)
  then show ?thesis using assms(1) by (simp add: cropPng_def)
next
  case (Inr u)
  obtain x y w h where r: "region (ph_width header) (ph_height header) = rect x y w h" "1 \<le> w" "1 \<le> h" "x + w \<le> ph_width header" "y + h \<le> ph_height header"
    using checkRegion_rect [OF Inr] by blast
  have "cropPng inflate bs region most = Inr \<lparr>ri_width = w, ri_height = h, ri_channels = channels_of (ph_samples header), ri_pixels = region_pixels (ph_samples header) (map snd trs) x y w h\<rparr>"
    by (rule crop_rows [where region = region and inflate = inflate and trs = trs and parts = parts and payloads = payloads]) (use assms r in auto)
  then show ?thesis using Inr r(1) by (simp add: rect_def Let_def)
qed

section \<open>What the writer writes\<close>

lemma uint32_parts: "n < 4294967296 \<Longrightarrow>
    16777216 * (n div 16777216 mod 256) + 65536 * (n div 65536 mod 256) + 256 * (n div 256 mod 256) + n mod 256 = (n::nat)"
proof -
  assume n: "n < 4294967296"
  define a where "a = n div 256"
  define b where "b = a div 256"
  define c where "c = b div 256"
  have d: "n div 65536 = b" "n div 16777216 = c" by (simp_all add: a_def b_def c_def div_mult2_eq [symmetric])
  have "c < 256" using n by (simp add: a_def b_def c_def div_mult2_eq [symmetric] less_mult_imp_div_less)
  then have "c mod 256 = c" by simp
  moreover have "n = 256 * a + n mod 256" "a = 256 * b + a mod 256" "b = 256 * c + b mod 256" by (simp_all add: a_def b_def c_def)
  ultimately show ?thesis unfolding d a_def [symmetric] by linarith
qed

lemma get_set_uint32: "n < 4294967296 \<Longrightarrow> getUint32 (pre @ setUint32 n @ post) (length pre) = n"
  using uint32_parts [of n] by (simp add: getUint32_def setUint32_def nth_append unat_of_nat)

lemma get_set_uint32_0: "n < 4294967296 \<Longrightarrow> getUint32 (setUint32 n @ post) 0 = n"
  using get_set_uint32 [of n "[]"] by simp

lemma setUint32_length [simp]: "length (setUint32 n) = 4"
  by (simp add: setUint32_def)

lemma char_byte: "char_of (unat (of_char c :: byte)) = c"
proof -
  have "(of_nat (of_char c) :: byte) = of_char c" by (rule of_nat_of_char)
  moreover have "unat (of_nat (of_char c) :: byte) = of_char c mod 256" by (simp add: unat_of_nat)
  ultimately show ?thesis by simp
qed

lemma chunk_length [simp]: "length t = 4 \<Longrightarrow> length (chunk crc t data) = 12 + length data"
  by (simp add: chunk_def char_bytes_def)

lemma chunkAt_chunk:
  assumes "length t = 4" "length data < 4294967296" "at = length pre"
  shows "chunkAt (pre @ chunk crc t data @ post) at = Inr (t, data, at + 12 + length data)"
proof -
  let ?crc = "setUint32 (crc (char_bytes t @ data))"
  have n: "getUint32 (pre @ chunk crc t data @ post) at = length data"
    using get_set_uint32 [of "length data" pre "char_bytes (take 4 t) @ data @ setUint32 (crc (char_bytes (take 4 t) @ data)) @ post"] assms by (simp add: chunk_def)
  have c: "chunk crc t data = setUint32 (length data) @ char_bytes t @ data @ ?crc" using assms(1) by (simp add: chunk_def)
  have "subarray (pre @ chunk crc t data @ post) (at + 4) (at + 8) = char_bytes t"
    using assms by (simp add: c subarray_def char_bytes_def)
  moreover have "subarray (pre @ chunk crc t data @ post) (at + 8) (at + 8 + length data) = data"
    using assms by (simp add: c subarray_def char_bytes_def)
  moreover have "fromCharCode (char_bytes t) = t" by (simp add: fromCharCode_def char_bytes_def comp_def char_byte)
  ultimately show ?thesis using n assms by (simp add: chunkAt_def Let_def)
qed

lemma png_header_length [simp]: "length (png_header w h colour) = 13"
  by (simp add: png_header_def)

lemma png_header_fields:
  assumes "w < 4294967296" "h < 4294967296"
  shows "getUint32 (png_header w h colour) 0 = w" "getUint32 (png_header w h colour) 4 = h" "png_header w h colour ! 8 = 8"
    "png_header w h colour ! 9 = colour" "png_header w h colour ! 12 = 0"
proof -
  show "getUint32 (png_header w h colour) 0 = w" using get_set_uint32_0 [OF assms(1)] by (simp add: png_header_def)
  show "getUint32 (png_header w h colour) 4 = h" using get_set_uint32 [OF assms(2), of "setUint32 w"] by (simp add: png_header_def)
qed (simp_all add: png_header_def setUint32_def)

text \<open>The rows of an image.\<close>

definition image_rows :: "raw_image \<Rightarrow> byte list list" where
  "image_rows img = map (\<lambda>y. subarray (ri_pixels img) (y * (ri_width img * ri_channels img)) ((y + 1) * (ri_width img * ri_channels img))) [0..<ri_height img]"

definition image_ok :: "raw_image \<Rightarrow> bool" where
  "image_ok img = (ri_channels img \<in> {3, 4} \<and> 1 \<le> ri_width img \<and> ri_width img \<le> 0x7fffffff \<and> 1 \<le> ri_height img \<and> ri_height img \<le> 0x7fffffff \<and>
     length (ri_pixels img) = ri_width img * ri_height img * ri_channels img)"

lemma image_rows_nth:
  assumes "image_ok img" "y < ri_height img"
  shows "length (image_rows img ! y) = ri_width img * ri_channels img"
    "image_rows img ! y = take (ri_width img * ri_channels img) (drop (y * (ri_width img * ri_channels img)) (ri_pixels img))"
proof -
  let ?s = "ri_width img * ri_channels img"
  have "Suc y * ?s \<le> ri_height img * ?s" using assms(2) by (intro mult_le_mono1) simp
  moreover have "length (ri_pixels img) = ri_height img * ?s" using assms(1) by (simp add: image_ok_def ac_simps)
  moreover have "Suc y * ?s = y * ?s + ?s" by simp
  ultimately have "y * ?s + ?s \<le> length (ri_pixels img)" by linarith
  then show "length (image_rows img ! y) = ?s" "image_rows img ! y = take ?s (drop (y * ?s) (ri_pixels img))"
    using assms(2) by (simp_all add: image_rows_def subarray_def)
qed

lemma filter_none: "filter_row 0 bpp prev cur = cur"
  by (intro nth_equalityI) (simp_all add: predictor_def)

lemma filtered_none: "filtered_rows bpp prev (map (Pair 0) rows) = concat (map ((#) 0) rows)"
  by (induction rows arbitrary: prev) (simp_all add: filter_none)

lemma raw_rows:
  assumes "image_ok img"
  shows "map (raw_row (ri_width img * ri_channels img) (ri_pixels img)) [0..<ri_height img] = map ((#) 0) (image_rows img)"
proof -
  have "raw_row (ri_width img * ri_channels img) (ri_pixels img) y = 0 # image_rows img ! y" if "y < ri_height img" for y
    using image_rows_nth [OF assms that] that by (simp add: raw_row_def splice_def image_rows_def)
  then show ?thesis by (intro nth_equalityI) (simp_all add: image_rows_def)
qed

text \<open>A file of one \<open>IDAT\<close> chunk.\<close>

definition png_file :: "(byte list \<Rightarrow> nat) \<Rightarrow> nat \<Rightarrow> nat \<Rightarrow> byte \<Rightarrow> byte list \<Rightarrow> byte list" where
  "png_file crc w h colour data = PNG_SIGNATURE @ chunk crc ''IHDR'' (png_header w h colour) @ chunk crc ''IDAT'' data @ chunk crc ''IEND'' []"

lemma png_file_read:
  assumes size: "size_valid w h" and room: "\<And>m. most = Some m \<Longrightarrow> w * h \<le> m" and colour: "samples_of colour = Some n" and len: "length data < 4294967296"
  shows "readHeader (png_file crc w h colour data) most = Inr \<lparr>ph_width = w, ph_height = h, ph_samples = n\<rparr>"
    "idatStream (png_file crc w h colour data) = ([data], None)"
proof -
  let ?bs = "png_file crc w h colour data" and ?hd = "png_header w h colour"
  have small: "w < 4294967296" "h < 4294967296" using size by (auto simp: size_valid_def)
  have sig: "length PNG_SIGNATURE = 8" by (simp add: PNG_SIGNATURE_def)
  have at8: "chunkAt ?bs 8 = Inr (''IHDR'', ?hd, 33)"
    unfolding png_file_def by (subst chunkAt_chunk) (simp_all add: sig)
  have at33: "chunkAt ?bs 33 = Inr (''IDAT'', data, 45 + length data)"
    using chunkAt_chunk [of "''IDAT''" data 33 "PNG_SIGNATURE @ chunk crc ''IHDR'' ?hd" crc "chunk crc ''IEND'' []"] len
    unfolding png_file_def by (simp add: sig)
  have at_end: "chunkAt ?bs (45 + length data) = Inr (''IEND'', [], 57 + length data)"
    using chunkAt_chunk [of "''IEND''" "[]" "45 + length data" "PNG_SIGNATURE @ chunk crc ''IHDR'' ?hd @ chunk crc ''IDAT'' data" crc "[]"]
    unfolding png_file_def by (simp add: sig)
  have "take 8 ?bs = PNG_SIGNATURE" unfolding png_file_def by (simp add: sig)
  moreover have "\<not> (case most of None \<Rightarrow> False | Some m \<Rightarrow> m < w * h)" using room by (cases most) (auto simp: not_less)
  ultimately show "readHeader ?bs most = Inr \<lparr>ph_width = w, ph_height = h, ph_samples = n\<rparr>"
    using at8 png_header_fields [OF small, of colour] size colour by (simp add: readHeader_def Let_def)
  have "idat_from ?bs (45 + length data) True = ([], None)" using at_end by (subst idat_from.simps) simp
  then have "idat_from ?bs 33 False = ([data], None)" using at33 by (subst idat_from.simps) simp
  then show "idatStream ?bs = ([data], None)" using at8 unfolding idatStream_def by (subst idat_from.simps) simp
qed

lemma encoded_read:
  assumes ok: "image_ok img" and room: "\<And>m. most = Some m \<Longrightarrow> ri_width img * ri_height img \<le> m"
    and len: "length (deflate (concat (map ((#) 0) (image_rows img)))) < 4294967296"
  shows "readHeader (encodePng deflate crc img) most = Inr \<lparr>ph_width = ri_width img, ph_height = ri_height img, ph_samples = ri_channels img\<rparr>"
    "idatStream (encodePng deflate crc img) = ([deflate (concat (map ((#) 0) (image_rows img)))], None)"
proof -
  let ?colour = "(if ri_channels img = 4 then 6 else 2) :: byte"
  have bs: "encodePng deflate crc img = png_file crc (ri_width img) (ri_height img) ?colour (deflate (concat (map ((#) 0) (image_rows img))))"
    using raw_rows [OF ok] by (simp add: encodePng_def png_file_def Let_def)
  have "size_valid (ri_width img) (ri_height img)" "samples_of ?colour = Some (ri_channels img)"
    using ok by (auto simp: size_valid_def samples_of_def image_ok_def)
  note read = png_file_read [where most = most and w = "ri_width img" and h = "ri_height img", OF this(1) room this(2) len]
  show "readHeader (encodePng deflate crc img) most = Inr \<lparr>ph_width = ri_width img, ph_height = ri_height img, ph_samples = ri_channels img\<rparr>"
    "idatStream (encodePng deflate crc img) = ([deflate (concat (map ((#) 0) (image_rows img)))], None)"
    unfolding bs by (rule read, assumption)+
qed

lemma whole_rows:
  assumes ok: "image_ok img"
  shows "region_pixels (ri_channels img) (image_rows img) 0 0 (ri_width img) (ri_height img) = ri_pixels img"
proof -
  let ?n = "ri_channels img" and ?w = "ri_width img"
  have n: "3 \<le> ?n" using ok by (auto simp: image_ok_def)
  have "region_pixels ?n (image_rows img) 0 0 ?w k = take (k * (?w * ?n)) (ri_pixels img)" if "k \<le> ri_height img" for k
    using that
  proof (induction k)
    case 0
    then show ?case by (simp add: region_pixels_def)
  next
    case (Suc k)
    have k: "k < ri_height img" using Suc.prems by simp
    have "row_region ?n (image_rows img ! k) 0 ?w = take (?w * ?n) (drop (k * (?w * ?n)) (ri_pixels img))"
      using whole_pixels [OF n, of "image_rows img ! k" 0 ?w] image_rows_nth [OF ok k] by simp
    then show ?case using Suc take_add [of "k * (?w * ?n)" "?w * ?n" "ri_pixels img"] by (simp add: region_pixels_Suc add.commute)
  qed
  from this [of "ri_height img"] show ?thesis using ok by (simp add: image_ok_def ac_simps)
qed

lemma encoded_crop:
  assumes ok: "image_ok img" and room: "\<And>m. most = Some m \<Longrightarrow> ri_width img * ri_height img \<le> m"
    and len: "length (deflate (concat (map ((#) 0) (image_rows img)))) < 4294967296"
    and zlib: "\<And>raw payloads. concat payloads = deflate raw \<Longrightarrow> \<exists>parts. inflate payloads None = (parts, Closed) \<and> concat parts = raw"
    and fit: "region (ri_width img) (ri_height img) = rect x y w h" "1 \<le> w" "1 \<le> h" "x + w \<le> ri_width img" "y + h \<le> ri_height img"
  shows "cropPng inflate (encodePng deflate crc img) region most =
      Inr \<lparr>ri_width = w, ri_height = h, ri_channels = ri_channels img, ri_pixels = region_pixels (ri_channels img) (image_rows img) x y w h\<rparr>"
proof -
  define raw where "raw = concat (map ((#) 0) (image_rows img))"
  let ?trs = "map (Pair 0) (image_rows img) :: (nat \<times> byte list) list"
  let ?header = "\<lparr>ph_width = ri_width img, ph_height = ri_height img, ph_samples = ri_channels img\<rparr>"
  obtain parts where parts: "inflate [deflate raw] None = (parts, Closed)" "concat parts = raw" using zlib [of "[deflate raw]" raw] by auto
  have c: "channels_of (ri_channels img) = ri_channels img" using ok by (auto simp: image_ok_def channels_of_def)
  have rows: "t \<le> 4 \<and> length row = ri_width img * ri_channels img" if "(t, row) \<in> set ?trs" for t row
    using that image_rows_nth(1) [OF ok] by (auto simp: in_set_conv_nth image_rows_def)
  have "cropPng inflate (encodePng deflate crc img) region most = Inr \<lparr>ri_width = w, ri_height = h, ri_channels = channels_of (ph_samples ?header),
      ri_pixels = region_pixels (ph_samples ?header) (map snd ?trs) x y w h\<rparr>"
  proof (rule crop_rows [where inflate = inflate and region = region and trs = ?trs and parts = parts])
    show "readHeader (encodePng deflate crc img) most = Inr ?header" by (rule encoded_read(1) [where deflate = deflate and most = most, OF ok room len])
    show "idatStream (encodePng deflate crc img) = ([deflate raw], None)" using encoded_read(2) [where deflate = deflate and most = most, OF ok room len] by (simp add: raw_def)
    show "concat parts = filtered_rows (ph_samples ?header) (replicate (ph_width ?header * ph_samples ?header) 0) ?trs"
      using parts(2) by (simp add: raw_def filtered_none)
  qed (use parts rows fit in \<open>simp_all add: image_rows_def\<close>)
  moreover have "map snd ?trs = image_rows img" by (simp add: comp_def)
  ultimately show ?thesis using c by simp
qed

text \<open>C36. What \<open>encodePng\<close> writes \<open>cropPng\<close> reads back: any region of it that fits gives exactly those pixels of
  the image, row by row, and the whole of it gives the image itself. zlib is only asked to give back, in any
  parts, the data it was given, however the payloads are cut.\<close>

theorem encode_crop:
  assumes ok: "image_ok img" and room: "\<And>m. most = Some m \<Longrightarrow> ri_width img * ri_height img \<le> m"
    and len: "length (deflate (concat (map ((#) 0) (image_rows img)))) < 4294967296"
    and zlib: "\<And>raw payloads. concat payloads = deflate raw \<Longrightarrow> \<exists>parts. inflate payloads None = (parts, Closed) \<and> concat parts = raw"
    and fit: "1 \<le> w" "1 \<le> h" "x + w \<le> ri_width img" "y + h \<le> ri_height img"
  shows "cropPng inflate (encodePng deflate crc img) (\<lambda>_ _. rect x y w h) most =
      Inr \<lparr>ri_width = w, ri_height = h, ri_channels = ri_channels img, ri_pixels = region_pixels (ri_channels img) (image_rows img) x y w h\<rparr> \<and>
    cropPng inflate (encodePng deflate crc img) (\<lambda>iw ih. rect 0 0 iw ih) most = Inr img"
proof
  show "cropPng inflate (encodePng deflate crc img) (\<lambda>_ _. rect x y w h) most =
      Inr \<lparr>ri_width = w, ri_height = h, ri_channels = ri_channels img, ri_pixels = region_pixels (ri_channels img) (image_rows img) x y w h\<rparr>"
    by (rule encoded_crop [where inflate = inflate and deflate = deflate and most = most, OF ok room len zlib refl fit])
  have "1 \<le> ri_width img" "1 \<le> ri_height img" using ok by (auto simp: image_ok_def)
  then show "cropPng inflate (encodePng deflate crc img) (\<lambda>iw ih. rect 0 0 iw ih) most = Inr img"
    using encoded_crop [where inflate = inflate and deflate = deflate and most = most and region = "\<lambda>iw ih. rect 0 0 iw ih" and crc = crc, OF ok room len zlib refl] whole_rows [OF ok] by simp
qed

section \<open>Examples\<close>

text \<open>A stream that gives its bytes one at a time, of a codec that stores.\<close>

definition stored_inflate :: inflate where
  "stored_inflate payloads e = (map (\<lambda>b. [b]) (concat payloads), Closed)"

definition ex_crc :: "byte list \<Rightarrow> nat" where
  "ex_crc bs = length bs"

definition ex_rows :: "(nat \<times> byte list) list" where
  "ex_rows = [(1, [10, 20, 30]), (3, [7, 250, 9]), (4, [30, 7, 1])]"

definition ex_png :: "byte list" where
  "ex_png = png_file ex_crc 3 3 0 (filtered_rows 1 [0, 0, 0] ex_rows)"

definition ex_image :: raw_image where
  "ex_image = \<lparr>ri_width = 2, ri_height = 2, ri_channels = 3, ri_pixels = [1, 2, 3, 4, 5, 6, 7, 8, 9, 10, 11, 12]\<rparr>"

lemma concat_bytes: "concat (map (\<lambda>b. [b]) xs) = xs"
  by (induction xs) simp_all

theorem crop_exact_witness:
  "cropPng stored_inflate ex_png (\<lambda>_ _. rect 1 1 2 2) None =
    Inr \<lparr>ri_width = 2, ri_height = 2, ri_channels = 3, ri_pixels = [250, 250, 250, 9, 9, 9, 7, 7, 7, 1, 1, 1]\<rparr>"
proof -
  have l: "length (filtered_rows 1 [0, 0, 0] ex_rows) < 4294967296" by (simp add: ex_rows_def)
  have r: "readHeader ex_png None = Inr \<lparr>ph_width = 3, ph_height = 3, ph_samples = 1\<rparr>"
    unfolding ex_png_def by (rule png_file_read) (use l in \<open>simp_all add: size_valid_def samples_of_def\<close>)
  have i: "idatStream ex_png = ([filtered_rows 1 [0, 0, 0] ex_rows], None)"
    unfolding ex_png_def by (rule png_file_read [where n = 1 and most = None]) (use l in \<open>simp_all add: size_valid_def samples_of_def\<close>)
  have p: "stored_inflate [filtered_rows 1 [0, 0, 0] ex_rows] None = (map (\<lambda>b. [b]) (filtered_rows 1 [0, 0, 0] ex_rows), Closed)"
    by (simp add: stored_inflate_def)
  have d: "concat (map (\<lambda>b. [b]) (filtered_rows 1 [0, 0, 0] ex_rows)) = filtered_rows 1 (replicate (3 * 1) 0) ex_rows"
    by (simp add: concat_bytes eval_nat_numeral)
  have c: "checkRegion (rect 1 1 2 2) \<lparr>ph_width = 3, ph_height = 3, ph_samples = 1\<rparr> = Inr ()" by code_simp
  have q: "region_pixels 1 (map snd ex_rows) 1 1 2 2 = [250, 250, 250, 9, 9, 9, 7, 7, 7, 1, 1, 1]" by code_simp
  from crop_exact [where inflate = stored_inflate and region = "\<lambda>_ _. rect 1 1 2 2" and trs = ex_rows, OF r i p] d c q show ?thesis
    by (simp add: ex_rows_def Let_def rect_def channels_of_def)
qed

theorem encode_crop_witness:
  "cropPng stored_inflate (encodePng (\<lambda>raw. raw) ex_crc ex_image) (\<lambda>_ _. rect 1 0 1 2) None =
    Inr \<lparr>ri_width = 1, ri_height = 2, ri_channels = 3, ri_pixels = [4, 5, 6, 10, 11, 12]\<rparr>"
proof -
  have ok: "image_ok ex_image" by (simp add: image_ok_def ex_image_def)
  have rows: "image_rows ex_image = [[1, 2, 3, 4, 5, 6], [7, 8, 9, 10, 11, 12]]" by (simp add: image_rows_def ex_image_def subarray_def eval_nat_numeral upt_rec)
  have z: "\<exists>parts. stored_inflate payloads None = (parts, Closed) \<and> concat parts = raw" if "concat payloads = raw" for payloads raw
    using that by (simp add: stored_inflate_def concat_bytes)
  have q: "region_pixels 3 [[1, 2, 3, 4, 5, 6], [7, 8, 9, 10, 11, 12]] 1 0 1 2 = [4, 5, 6, 10, 11, 12]" by code_simp
  from encode_crop [where inflate = stored_inflate and deflate = "\<lambda>raw. raw" and most = None and w = 1 and h = 2 and x = 1 and y = 0 and crc = ex_crc, OF ok _ _ z] rows q show ?thesis by (simp add: ex_image_def)
qed

end
