(* ===== verification/Image_Process.thy ===== *)
theory Image_Process
  imports Image_Crop Doubles
begin

text \<open>
  What \<open>packages/image\<close> makes of an upload: its format by its first bytes (\<open>input/sniff.ts\<close>), its bytes within a
  limit (\<open>input/read-input.ts\<close>), the options of a set (\<open>set/options.ts\<close>, \<open>whole.ts\<close>), the geometry of a crop in
  doubles (\<open>process/geometry.ts\<close>), the place in the queue (\<open>set/limit.ts\<close>) and \<open>processImage\<close> from the upload to
  its variants. \<open>Bun.Image\<close> and zlib are parameters.
\<close>

section \<open>The format\<close>

datatype sniffed = Jpeg | Png | Webp | Heic

definition HEIC_BRANDS :: "string set" where
  "HEIC_BRANDS = {''heic'', ''heix'', ''hevc'', ''hevx'', ''mif1'', ''msf1''}"

definition AVIF_BRANDS :: "string set" where
  "AVIF_BRANDS = {''avif'', ''avis''}"

definition startsWith :: "byte list \<Rightarrow> byte list \<Rightarrow> nat \<Rightarrow> bool" where
  "startsWith bs signature at = (length bs \<ge> at + length signature \<and> take (length signature) (drop at bs) = signature)"

definition ascii :: "byte list \<Rightarrow> nat \<Rightarrow> nat \<Rightarrow> string" where
  "ascii bs at n = fromCharCode (subarray bs at (at + n))"

text \<open>The compatible brands from \<open>at\<close>, four bytes each, up to \<open>end\<close>.\<close>

function brands_from :: "byte list \<Rightarrow> nat \<Rightarrow> nat \<Rightarrow> string list" where
  "brands_from bs at stop = (if at + 4 \<le> stop then ascii bs at 4 # brands_from bs (at + 4) stop else [])"
  by pat_completeness auto

termination
  by (relation "measure (\<lambda>(bs, at, stop). stop - at)") auto

declare brands_from.simps [simp del]

definition brandsOf :: "byte list \<Rightarrow> string list" where
  "brandsOf bs = (if length bs < 12 \<or> ascii bs 4 4 \<noteq> ''ftyp'' then []
     else ascii bs 8 4 # brands_from bs 16 (min (length bs) (max (getUint32 bs 0) 16)))"

definition sniffFormat :: "byte list \<Rightarrow> sniffed option" where
  "sniffFormat bs = (if startsWith bs [0xff, 0xd8, 0xff] 0 then Some Jpeg
     else if startsWith bs PNG_SIGNATURE 0 then Some Png
     else if length bs \<ge> 12 \<and> ascii bs 0 4 = ''RIFF'' \<and> ascii bs 8 4 = ''WEBP'' then Some Webp
     else (let brands = brandsOf bs in
       if \<exists>b \<in> set brands. b \<in> AVIF_BRANDS then None
       else if \<exists>b \<in> set brands. b \<in> HEIC_BRANDS then Some Heic else None))"

definition format_text :: "sniffed \<Rightarrow> string" where
  "format_text f = (case f of Jpeg \<Rightarrow> ''jpeg'' | Png \<Rightarrow> ''png'' | Webp \<Rightarrow> ''webp'' | Heic \<Rightarrow> ''heic'')"

section \<open>The bytes\<close>

text \<open>
  An upload: bytes, a buffer, a \<open>Blob\<close> with its claimed size (\<open>None\<close>: not a number) and what its buffer and its
  stream give, a stream, or something else. A stream gives chunks (\<open>None\<close>: one that is not bytes) and may break.
\<close>

type_synonym byte_stream = "byte list option list \<times> string option"

datatype image_input = InBytes "byte list" | InBuffer "byte list" | InBlob "nat option" "byte list" byte_stream | InStream byte_stream | InOther

definition tooLarge :: "nat \<Rightarrow> image_error" where
  "tooLarge maxBytes = ImageError TOO_LARGE ByBytes (''the upload is over '' @ show_nat maxBytes @ '' bytes'')"

fun read_chunks :: "nat \<Rightarrow> nat \<Rightarrow> byte list option list \<Rightarrow> string option \<Rightarrow> image_error + byte list list" where
  "read_chunks maxBytes sofar [] broken = (case broken of None \<Rightarrow> Inr [] | Some e \<Rightarrow> Inl (Foreign e))"
| "read_chunks maxBytes sofar (None # chunks) broken = Inl (TypeError ''a stream chunk must be a Uint8Array'')"
| "read_chunks maxBytes sofar (Some c # chunks) broken =
     (if sofar + length c > maxBytes then Inl (tooLarge maxBytes)
      else (case read_chunks maxBytes (sofar + length c) chunks broken of Inl e \<Rightarrow> Inl e | Inr cs \<Rightarrow> Inr (c # cs)))"

definition readStream :: "byte_stream \<Rightarrow> nat \<Rightarrow> image_error + byte list" where
  "readStream s maxBytes = (case read_chunks maxBytes 0 (fst s) (snd s) of Inl e \<Rightarrow> Inl e | Inr chunks \<Rightarrow> Inr (concat chunks))"

fun readInput :: "image_input \<Rightarrow> nat \<Rightarrow> image_error + byte list" where
  "readInput (InBytes bs) maxBytes = (if length bs > maxBytes then Inl (tooLarge maxBytes) else Inr bs)"
| "readInput (InBuffer bs) maxBytes = (if length bs > maxBytes then Inl (tooLarge maxBytes) else Inr bs)"
| "readInput (InBlob sz buffer s) maxBytes = (case sz of None \<Rightarrow> readStream s maxBytes
     | Some n \<Rightarrow> if \<not> (n \<le> maxBytes) then Inl (tooLarge maxBytes)
         else if length buffer > maxBytes then Inl (tooLarge maxBytes) else Inr buffer)"
| "readInput (InStream s) maxBytes = readStream s maxBytes"
| "readInput InOther maxBytes = Inl (TypeError ''image input must be a Uint8Array, an ArrayBuffer, a Blob or a ReadableStream of Uint8Array'')"

section \<open>Options\<close>

text \<open>\<open>isWhole\<close>; here \<open>JNum\<close> is any whole double.\<close>

fun isWhole :: "jv \<Rightarrow> int \<Rightarrow> int option \<Rightarrow> bool" where
  "isWhole (JNum n) lo hi = (lo \<le> n \<and> (case hi of None \<Rightarrow> True | Some m \<Rightarrow> n \<le> m))"
| "isWhole v lo hi = False"

record image_options =
  io_sizes :: "nat list"
  io_maxBytes :: nat
  io_maxPixels :: nat
  io_minSide :: nat
  io_quality :: nat
  io_concurrency :: nat

definition DEFAULT_SIZES :: jv where "DEFAULT_SIZES = JList [JNum 256, JNum 64]"
definition DEFAULT_MAX_BYTES :: int where "DEFAULT_MAX_BYTES = 5 * 1024 * 1024"
definition DEFAULT_MAX_PIXELS :: int where "DEFAULT_MAX_PIXELS = 25000000"
definition DEFAULT_QUALITY :: int where "DEFAULT_QUALITY = 80"
definition DEFAULT_CONCURRENCY :: int where "DEFAULT_CONCURRENCY = 2"
definition MAX_CONCURRENCY :: int where "MAX_CONCURRENCY = 64"
definition MAX_SIZE :: int where "MAX_SIZE = 4096"

definition or_else :: "jv option \<Rightarrow> jv \<Rightarrow> jv" where
  "or_else v d = (case v of None \<Rightarrow> d | Some JNull \<Rightarrow> d | Some w \<Rightarrow> w)"

text \<open>The value quoted at the end of a message is left out.\<close>

definition whole_option :: "string \<Rightarrow> jv \<Rightarrow> int \<Rightarrow> int option \<Rightarrow> image_error + nat" where
  "whole_option name v lo hi = (if isWhole v lo hi then Inr (nat (num_of (Some v)))
     else Inl (TypeError (name @ '' must be a whole number of '' @ show_int lo @ (case hi of None \<Rightarrow> '' or more'' | Some m \<Rightarrow> '' to '' @ show_int m))))"

fun each_size :: "jv list \<Rightarrow> image_error + nat list" where
  "each_size [] = Inr []"
| "each_size (v # vs) = (case whole_option ''sizes[]'' v 1 (Some MAX_SIZE) of Inl e \<Rightarrow> Inl e
     | Inr n \<Rightarrow> (case each_size vs of Inl e \<Rightarrow> Inl e | Inr ns \<Rightarrow> Inr (n # ns)))"

definition checkSizes :: "jv \<Rightarrow> image_error + nat list" where
  "checkSizes sizes = (case list_of (Some sizes) of None \<Rightarrow> Inl (TypeError ''sizes must be a non-empty array of whole numbers'')
     | Some vs \<Rightarrow> if vs = [] then Inl (TypeError ''sizes must be a non-empty array of whole numbers'')
         else (case each_size vs of Inl e \<Rightarrow> Inl e
           | Inr ns \<Rightarrow> if distinct ns then Inr ns else Inl (TypeError ''sizes must be unique'')))"

definition largest :: "nat list \<Rightarrow> nat" where
  "largest ns = fold max ns 0"

definition resolveOptions :: "(string \<Rightarrow> jv option) \<Rightarrow> image_error + image_options" where
  "resolveOptions opt = (case checkSizes (or_else (opt ''sizes'') DEFAULT_SIZES) of Inl e \<Rightarrow> Inl e
   | Inr sizes \<Rightarrow> (case whole_option ''maxBytes'' (or_else (opt ''maxBytes'') (JNum DEFAULT_MAX_BYTES)) 1 None of Inl e \<Rightarrow> Inl e
   | Inr mb \<Rightarrow> (case whole_option ''maxPixels'' (or_else (opt ''maxPixels'') (JNum DEFAULT_MAX_PIXELS)) 1 None of Inl e \<Rightarrow> Inl e
   | Inr mp \<Rightarrow> (case whole_option ''minSide'' (or_else (opt ''minSide'') (JNum (int (largest sizes)))) 1 None of Inl e \<Rightarrow> Inl e
   | Inr ms \<Rightarrow> (case whole_option ''quality'' (or_else (opt ''quality'') (JNum DEFAULT_QUALITY)) 1 (Some 100) of Inl e \<Rightarrow> Inl e
   | Inr q \<Rightarrow> (case whole_option ''concurrency'' (or_else (opt ''concurrency'') (JNum DEFAULT_CONCURRENCY)) 1 (Some MAX_CONCURRENCY) of Inl e \<Rightarrow> Inl e
   | Inr c \<Rightarrow> Inr \<lparr>io_sizes = sizes, io_maxBytes = mb, io_maxPixels = mp, io_minSide = ms, io_quality = q, io_concurrency = c\<rparr>))))))"

section \<open>Geometry\<close>

text \<open>
  A scale is a double at most 1: \<open>m / 2 ^ k\<close>. A whole number times it is rounded to 53 bits, and \<open>Math.round\<close> is
  the floor of half more.
\<close>

type_synonym scale = "int \<times> nat"

definition shrinkScale :: "nat \<Rightarrow> nat \<Rightarrow> scale" where
  "shrinkScale cropSide most = (if cropSide \<le> 2 * most then (1, 0)
     else (fmant (2 * int most) (int cropSide), fscale (2 * int most) (int cropSide)))"

definition below_one :: "scale \<Rightarrow> bool" where
  "below_one s = (fst s < 2 ^ snd s)"

definition round_scaled :: "nat \<Rightarrow> scale \<Rightarrow> int" where
  "round_scaled v s = (2 * fround (int v * fst s) + 2 ^ snd s) div (2 * 2 ^ snd s)"

definition scaledDimensions :: "nat \<times> nat \<Rightarrow> scale \<Rightarrow> nat \<times> nat" where
  "scaledDimensions d s = (nat (max 1 (round_scaled (fst d) s)), nat (max 1 (round_scaled (snd d) s)))"

record crop_box =
  cb_x :: js_whole
  cb_y :: js_whole
  cb_size :: js_whole

definition centredCrop :: "nat \<Rightarrow> nat \<Rightarrow> nat \<times> nat \<times> nat" where
  "centredCrop w h = (let sz = min w h in ((w - sz) div 2, (h - sz) div 2, sz))"

fun whole_from_0 :: "js_whole \<Rightarrow> bool" where
  "whole_from_0 (Whole n) = (0 \<le> n)"
| "whole_from_0 (Fraction t) = False"

text \<open>\<open>None\<close>: a crop that is not an object.\<close>

definition assertCropShape :: "crop_box option \<Rightarrow> image_error + nat \<times> nat \<times> nat" where
  "assertCropShape crop = (case crop of
     Some c \<Rightarrow> if whole_from_0 (cb_x c) \<and> whole_from_0 (cb_y c) \<and> whole_from_0 (cb_size c) then Inr (pos_of (cb_x c), pos_of (cb_y c), pos_of (cb_size c))
       else Inl (ImageError INVALID_CROP ByCrop ''a crop is { x, y, size }, three whole numbers of 0 or more'')
   | None \<Rightarrow> Inl (ImageError INVALID_CROP ByCrop ''a crop is { x, y, size }, three whole numbers of 0 or more''))"

definition assertCropFits :: "nat \<times> nat \<times> nat \<Rightarrow> nat \<Rightarrow> nat \<Rightarrow> image_error + unit" where
  "assertCropFits crop w h = (case crop of (x, y, sz) \<Rightarrow>
     if sz < 1 \<or> x + sz > w \<or> y + sz > h
     then Inl (ImageError INVALID_CROP ByCrop (''a '' @ show_nat sz @ ''px crop at ('' @ show_nat x @ '', '' @ show_nat y @ '') does not fit the '' @ show_nat w @ ''x'' @ show_nat h @ '' image''))
     else Inr ())"

definition clamp :: "scale \<Rightarrow> int \<Rightarrow> nat \<Rightarrow> nat \<Rightarrow> int" where
  "clamp s sz value room = max 0 (min (round_scaled value s) (int room - sz))"

definition scaleCrop :: "nat \<times> nat \<times> nat \<Rightarrow> scale \<Rightarrow> nat \<Rightarrow> nat \<Rightarrow> int \<times> int \<times> int" where
  "scaleCrop crop s w h = (case crop of (x, y, side) \<Rightarrow>
     (let sz = max 1 (min (round_scaled side s) (min (int w) (int h))) in (clamp s sz x w, clamp s sz y h, sz)))"

section \<open>The pipeline\<close>

text \<open>\<open>Bun.Image\<close>: an error with its \<open>code\<close>, the size, the image as a PNG shrunk to a size or not, and a WebP.\<close>

record bun_error =
  be_code :: "string option"
  be_text :: string

record bun_image =
  bi_metadata :: "byte list \<Rightarrow> nat \<Rightarrow> bun_error + nat \<times> nat"
  bi_png :: "byte list \<Rightarrow> nat \<Rightarrow> (nat \<times> nat) option \<Rightarrow> bun_error + byte list"
  bi_webp :: "byte list \<Rightarrow> nat \<Rightarrow> nat \<Rightarrow> bun_error + byte list"
  bi_inflate :: inflate
  bi_deflate :: "byte list \<Rightarrow> byte list"
  bi_crc :: "byte list \<Rightarrow> nat"

definition mapBunError :: "bun_error \<Rightarrow> sniffed \<Rightarrow> image_error" where
  "mapBunError e f = (
     if be_code e = Some ''ERR_IMAGE_TOO_MANY_PIXELS'' then ImageError TOO_LARGE ByPixels ''the image has too many pixels''
     else if be_code e = Some ''ERR_IMAGE_FORMAT_UNSUPPORTED'' then
       (if f = Heic then ImageError UNSUPPORTED_TYPE ByHeic ''this machine cannot decode HEIC (Linux cannot)''
        else ImageError UNSUPPORTED_TYPE ByFormat (''this machine cannot decode '' @ format_text f))
     else if be_code e = Some ''ERR_IMAGE_DECODE_FAILED'' \<or> be_code e = Some ''ERR_IMAGE_UNKNOWN_FORMAT'' then
       ImageError UNDECODABLE ByDecode (''the '' @ format_text f @ '' image cannot be decoded'')
     else Foreign (be_text e))"

fun guarded_step :: "sniffed \<Rightarrow> bun_error + 'a \<Rightarrow> image_error + 'a" where
  "guarded_step f (Inl e) = Inl (mapBunError e f)"
| "guarded_step f (Inr v) = Inr v"

definition shrink :: "bun_image \<Rightarrow> byte list \<Rightarrow> sniffed \<Rightarrow> nat \<times> nat \<Rightarrow> scale \<Rightarrow> nat \<Rightarrow> image_error + byte list" where
  "shrink bun bs f img s maxPixels = guarded_step f (bi_png bun bs maxPixels (if below_one s then Some (scaledDimensions img s) else None))"

record variant =
  va_size :: nat
  va_bytes :: "byte list"

definition variantOf :: "bun_image \<Rightarrow> byte list \<Rightarrow> nat \<Rightarrow> nat \<Rightarrow> image_error + variant" where
  "variantOf bun square quality sz = (case guarded_step Png (bi_webp bun square sz quality) of Inl e \<Rightarrow> Inl e
     | Inr bs \<Rightarrow> Inr \<lparr>va_size = sz, va_bytes = bs\<rparr>)"

definition square_region :: "int \<times> int \<times> int \<Rightarrow> region" where
  "square_region b = (case b of (x, y, sz) \<Rightarrow> \<lparr>rg_x = Whole x, rg_y = Whole y, rg_width = Whole sz, rg_height = Whole sz\<rparr>)"

definition cropToPng :: "bun_image \<Rightarrow> byte list \<Rightarrow> sniffed \<Rightarrow> nat \<times> nat \<Rightarrow> nat \<times> nat \<times> nat \<Rightarrow> image_options \<Rightarrow> image_error + byte list" where
  "cropToPng bun bs f img box opts = (let s = shrinkScale (snd (snd box)) (largest (io_sizes opts)) in
     case shrink bun bs f img s (io_maxPixels opts) of Inl e \<Rightarrow> Inl e
     | Inr png \<Rightarrow> (case cropPng (bi_inflate bun) png (\<lambda>w h. square_region (scaleCrop box s w h)) (Some (io_maxPixels opts)) of
         Inl e \<Rightarrow> Inl e | Inr square \<Rightarrow> Inr (encodePng (bi_deflate bun) (bi_crc bun) square)))"

text \<open>\<open>Promise.all\<close> of the variants: the first to reject here is the first in order.\<close>

fun all_variants :: "(nat \<Rightarrow> image_error + variant) \<Rightarrow> nat list \<Rightarrow> image_error + variant list" where
  "all_variants f [] = Inr []"
| "all_variants f (n # ns) = (case f n of Inl e \<Rightarrow> Inl e | Inr v \<Rightarrow> (case all_variants f ns of Inl e \<Rightarrow> Inl e | Inr vs \<Rightarrow> Inr (v # vs)))"

record processed =
  pr_format :: sniffed
  pr_width :: nat
  pr_height :: nat
  pr_variants :: "variant list"

definition box_of :: "crop_box option option \<Rightarrow> nat \<Rightarrow> nat \<Rightarrow> image_error + nat \<times> nat \<times> nat" where
  "box_of crop w h = (case crop of None \<Rightarrow> Inr (centredCrop w h)
     | Some c \<Rightarrow> (case assertCropShape c of Inl e \<Rightarrow> Inl e
       | Inr box \<Rightarrow> (case assertCropFits box w h of Inl e \<Rightarrow> Inl e | Inr _ \<Rightarrow> Inr box)))"

definition processImage :: "bun_image \<Rightarrow> image_input \<Rightarrow> crop_box option option \<Rightarrow> image_options \<Rightarrow> image_error + processed" where
  "processImage bun input crop opts = (case readInput input (io_maxBytes opts) of Inl e \<Rightarrow> Inl e
   | Inr bs \<Rightarrow> (case sniffFormat bs of
       None \<Rightarrow> Inl (ImageError UNSUPPORTED_TYPE ByFormat ''the upload is not a JPEG, PNG, WebP or HEIC'')
     | Some f \<Rightarrow> (case guarded_step f (bi_metadata bun bs (io_maxPixels opts)) of Inl e \<Rightarrow> Inl e
     | Inr (w, h) \<Rightarrow> (case box_of crop w h of Inl e \<Rightarrow> Inl e
     | Inr box \<Rightarrow> if snd (snd box) < io_minSide opts then Inl (ImageError TOO_SMALL ByDimensions
           (if crop \<noteq> None then ''the crop is '' @ show_nat (snd (snd box)) @ ''px, under the '' @ show_nat (io_minSide opts) @ ''px minimum''
            else ''the image is '' @ show_nat w @ ''x'' @ show_nat h @ '', under '' @ show_nat (io_minSide opts) @ ''px on its short side''))
         else (case cropToPng bun bs f (w, h) box opts of Inl e \<Rightarrow> Inl e
           | Inr square \<Rightarrow> (case all_variants (variantOf bun square (io_quality opts)) (io_sizes opts) of Inl e \<Rightarrow> Inl e
             | Inr vs \<Rightarrow> Inr \<lparr>pr_format = f, pr_width = w, pr_height = h, pr_variants = vs\<rparr>))))))"

section \<open>The queue\<close>

text \<open>\<open>createLimit\<close>: how many run, and who waits, in order. A submitted task starts at once or waits; one that
  ends gives its place to the first who waits.\<close>

record 't limiter =
  li_running :: nat
  li_waiting :: "'t list"

definition createLimit :: "'t limiter" where
  "createLimit = \<lparr>li_running = 0, li_waiting = []\<rparr>"

definition limit_submit :: "nat \<Rightarrow> 't \<Rightarrow> 't limiter \<Rightarrow> 't option \<times> 't limiter" where
  "limit_submit most t l = (if li_running l < most then (Some t, l\<lparr>li_running := li_running l + 1\<rparr>)
     else (None, l\<lparr>li_waiting := li_waiting l @ [t]\<rparr>))"

definition limit_release :: "'t limiter \<Rightarrow> 't option \<times> 't limiter" where
  "limit_release l = (case li_waiting l of
     t # ts \<Rightarrow> (Some t, l\<lparr>li_waiting := ts\<rparr>)
   | [] \<Rightarrow> (None, l\<lparr>li_running := li_running l - 1\<rparr>))"

text \<open>What happens to a set's tasks: one is submitted, or one that runs ends.\<close>

datatype 't limit_event = Submit 't | Ended

fun limit_step :: "nat \<Rightarrow> 't limit_event \<Rightarrow> 't list \<times> 't limiter \<Rightarrow> 't list \<times> 't limiter" where
  "limit_step most (Submit t) (started, l) = (case limit_submit most t l of (Some u, l') \<Rightarrow> (started @ [u], l') | (None, l') \<Rightarrow> (started, l'))"
| "limit_step most Ended (started, l) = (if li_running l = 0 then (started, l)
     else (case limit_release l of (Some u, l') \<Rightarrow> (started @ [u], l') | (None, l') \<Rightarrow> (started, l')))"

fun submitted :: "'t limit_event list \<Rightarrow> 't list" where
  "submitted [] = []"
| "submitted (Submit t # es) = t # submitted es"
| "submitted (Ended # es) = submitted es"

text \<open>Never more than \<open>most\<close> run, they start in the order they came, and none waits while a place is free.\<close>

lemma limit_fifo:
  "fold (limit_step most) es (started, l) = (started', l') \<Longrightarrow> li_running l \<le> most \<Longrightarrow> (li_waiting l \<noteq> [] \<longrightarrow> li_running l = most) \<Longrightarrow>
    started' @ li_waiting l' = started @ li_waiting l @ submitted es \<and> li_running l' \<le> most \<and> (li_waiting l' \<noteq> [] \<longrightarrow> li_running l' = most)"
proof (induction es arbitrary: started l)
  case (Cons e es)
  obtain s1 l1 where one: "limit_step most e (started, l) = (s1, l1)" by (cases "limit_step most e (started, l)")
  have "s1 @ li_waiting l1 = started @ li_waiting l @ submitted [e] \<and> li_running l1 \<le> most \<and> (li_waiting l1 \<noteq> [] \<longrightarrow> li_running l1 = most)"
  proof (cases e)
    case (Submit t)
    then show ?thesis using one Cons.prems by (auto simp: limit_submit_def split: if_splits)
  next
    case Ended
    then show ?thesis using one Cons.prems by (cases "li_waiting l") (auto simp: limit_release_def split: if_splits)
  qed
  moreover have "submitted (e # es) = submitted [e] @ submitted es" by (cases e) simp_all
  ultimately show ?case using Cons.IH [of s1 l1] Cons.prems one by simp
qed simp

section \<open>Nothing out of bounds\<close>

fun is_range :: "image_error \<Rightarrow> bool" where
  "is_range (RangeError t) = True"
| "is_range e = False"

lemma read_chunks_bounded: "read_chunks most sofar chunks broken = Inr cs \<Longrightarrow> sofar \<le> most \<Longrightarrow> sofar + length (concat cs) \<le> most"
  by (induction most sofar chunks broken arbitrary: cs rule: read_chunks.induct) (auto split: if_splits sum.splits option.splits)

lemma readInput_bounded: "readInput input most = Inr bs \<Longrightarrow> length bs \<le> most"
  by (cases "(input, most)" rule: readInput.cases)
    (auto simp: readStream_def split: if_splits option.splits sum.splits dest: read_chunks_bounded)

lemma readInput_error: "readInput input most = Inl e \<Longrightarrow> \<not> is_range e"
proof -
  have c: "read_chunks most sofar chunks broken = Inl e \<Longrightarrow> \<not> is_range e" for sofar chunks broken
    by (induction most sofar chunks broken rule: read_chunks.induct) (auto simp: tooLarge_def split: if_splits sum.splits option.splits)
  show "readInput input most = Inl e \<Longrightarrow> \<not> is_range e"
    by (cases "(input, most)" rule: readInput.cases)
      (auto simp: readStream_def tooLarge_def split: if_splits option.splits sum.splits dest: c)
qed

lemma scaled_region_fits:
  assumes "1 \<le> w" "1 \<le> h"
  shows "\<exists>x y n. square_region (scaleCrop box s w h) = rect x y n n \<and> 1 \<le> n \<and> x + n \<le> w \<and> y + n \<le> h"
proof -
  obtain bx bt side where box: "box = (bx, bt, side)" by (cases box)
  define n where "n = max 1 (min (round_scaled side s) (min (int w) (int h)))"
  define x where "x = clamp s n bx w"
  define y where "y = clamp s n bt h"
  have n: "1 \<le> n" "n \<le> int w" "n \<le> int h" using assms by (auto simp: n_def)
  have x: "0 \<le> x" "x + n \<le> int w" and y: "0 \<le> y" "y + n \<le> int h" using n by (auto simp: x_def y_def clamp_def)
  have "square_region (scaleCrop box s w h) = rect (nat x) (nat y) (nat n) (nat n)"
    using n x y by (simp add: square_region_def scaleCrop_def box rect_def Let_def n_def [symmetric] x_def [symmetric] y_def [symmetric])
  moreover have "1 \<le> nat n" "nat x + nat n \<le> w" "nat y + nat n \<le> h" using n x y by auto
  ultimately show ?thesis by blast
qed

definition in_range :: "image_error + 'a \<Rightarrow> bool" where
  "in_range r = (case r of Inl e \<Rightarrow> \<not> is_range e | Inr v \<Rightarrow> True)"

lemma in_range_simps: "in_range (Inl e) = (\<not> is_range e)" "in_range (Inr v)" "in_range (if b then p else q) = (if b then in_range p else in_range q)"
  "in_range (case opt of None \<Rightarrow> p | Some n \<Rightarrow> f n) = (case opt of None \<Rightarrow> in_range p | Some n \<Rightarrow> in_range (f n))"
  by (auto simp: in_range_def split: option.splits)

lemma in_rangeD: "in_range r \<Longrightarrow> r = Inl e \<Longrightarrow> \<not> is_range e"
  by (simp add: in_range_def)

lemma refuse_range [simp]: "is_range (refuse_png t) = False"
  by (simp add: refuse_png_def)

lemma chunkAt_range: "in_range (chunkAt bs at)"
  by (simp add: chunkAt_def Let_def in_range_simps)

lemma readHeader_range: "in_range (readHeader bs most)"
proof (cases "chunkAt bs 8")
  case (Inl e)
  then show ?thesis using in_rangeD [OF chunkAt_range Inl] unfolding readHeader_def Inl sum.case in_range_simps by simp
next
  case (Inr r)
  obtain t header nxt where r: "r = (t, header, nxt)" by (cases r)
  show ?thesis unfolding readHeader_def Inr r sum.case prod.case Let_def in_range_simps refuse_range is_range.simps
    by (simp split: option.split add: in_range_simps)
qed

lemma feed_range: "in_range (feed stride height bpp onRow part a s)"
proof (induction stride height bpp onRow part a s rule: feed.induct)
  case (1 stride height bpp onRow part a s)
  show ?case
  proof (cases "part = [] \<or> as_y a \<ge> height")
    case True
    then show ?thesis by (subst feed.simps) (auto simp: in_range_simps)
  next
    case False
    then have ne: "part \<noteq> []" "\<not> as_y a \<ge> height" by auto
    note ih = 1 [OF ne refl refl refl]
    show ?thesis
      unfolding feed.simps [of _ _ _ _ part] if_not_P [OF ne(1)] if_not_P [OF ne(2)] Let_def in_range_simps
    proof (split if_split, intro conjI impI, goal_cases)
      case 1
      then show ?case by (rule ih(1))
    next
      case 2
      note full = this
      show ?case
      proof (split option.split, intro conjI impI allI, goal_cases)
        case (2 row)
        show ?case
        proof (split prod.split, intro allI impI, goal_cases)
          case (1 going s')
          show ?case unfolding in_range_simps using ih(2) [OF full 2 1 [symmetric] refl] by (simp add: in_range_simps)
        qed
      qed (simp add: in_range_simps)
    qed
  qed
qed

lemmas feed_error = in_rangeD [OF feed_range]

lemma read_parts_error:
  assumes "\<And>e. fin = Broken (Some e) \<Longrightarrow> \<not> is_range e"
  shows "read_parts header wanted parts fin a out = Inl e \<Longrightarrow> \<not> is_range e"
proof (induction parts arbitrary: a out)
  case Nil
  then show ?case using assms by (auto simp: refuse_png_def split: ending.splits option.splits if_splits)
next
  case (Cons part parts)
  then show ?case by (auto split: sum.splits prod.splits if_splits dest: feed_error)
qed

lemma idat_error: "snd (idat_from bs at saw) = Some e \<Longrightarrow> \<not> is_range e"
proof (induction bs at saw rule: idat_from.induct)
  case (1 bs at saw)
  show ?case
  proof (cases "chunkAt bs at")
    case (Inl x)
    then have "\<not> is_range x" using in_rangeD [OF chunkAt_range] by blast
    then show ?thesis using 1(3) Inl by (subst (asm) idat_from.simps) auto
  next
    case (Inr r)
    obtain t data nxt where r: "r = (t, data, nxt)" by (cases r)
    have step: "idat_from bs at saw = (if t = ''IDAT'' then (case idat_from bs nxt True of (ps, e) \<Rightarrow> (data # ps, e))
         else if t = ''IEND'' then ([], if saw then None else Some (refuse_png ''no IDAT chunk'')) else idat_from bs nxt saw)"
      by (subst idat_from.simps) (simp only: Inr r sum.case prod.case)
    show ?thesis
    proof (cases "t = ''IDAT''")
      case True
      then have "snd (idat_from bs nxt True) = Some e" using 1(3) unfolding step by (simp split: prod.splits)
      then show ?thesis using 1(1) [OF Inr] r True by blast
    next
      case no: False
      show ?thesis
      proof (cases "t = ''IEND''")
        case True
        then show ?thesis using 1(3) no unfolding step by (auto split: if_splits)
      next
        case False
        then have "snd (idat_from bs nxt saw) = Some e" using 1(3) no unfolding step by simp
        then show ?thesis using 1(2) [OF Inr] r False no by blast
      qed
    qed
  qed
qed

text \<open>A stream the decompression passes on breaks with the error of its source.\<close>

definition passes_errors :: "inflate \<Rightarrow> bool" where
  "passes_errors inflate = (\<forall>payloads e parts r. inflate payloads e = (parts, Broken (Some r)) \<longrightarrow> e = Some r)"

lemma crop_scaled:
  assumes "passes_errors inflate"
  shows "case cropPng inflate png (\<lambda>w h. square_region (scaleCrop box s w h)) most of
      Inl e \<Rightarrow> \<not> is_range e
    | Inr sq \<Rightarrow> ri_width sq = ri_height sq \<and> 1 \<le> ri_width sq"
proof (cases "readHeader png most")
  case (Inl e)
  then show ?thesis using in_rangeD [OF readHeader_range Inl] by (simp add: cropPng_def)
next
  case (Inr header)
  have "1 \<le> ph_width header" "1 \<le> ph_height header" using readHeader_samples [OF Inr] by simp_all
  then obtain x y n where r: "square_region (scaleCrop box s (ph_width header) (ph_height header)) = rect x y n n" "1 \<le> n" "x + n \<le> ph_width header" "y + n \<le> ph_height header"
    using scaled_region_fits by blast
  have c: "checkRegion (rect x y n n) header = Inr ()" using r by (simp add: checkRegion_def rect_def)
  have pos: "pos_of (rg_width (rect x y n n)) = n" "pos_of (rg_height (rect x y n n)) = n" by (simp_all add: rect_def)
  obtain payloads e where i: "idatStream png = (payloads, e)" by (cases "idatStream png")
  obtain parts fin where f: "inflate payloads e = (parts, fin)" by (cases "inflate payloads e")
  have fin: "\<not> is_range d" if "fin = Broken (Some d)" for d
  proof -
    have "e = Some d" using assms f that by (auto simp: passes_errors_def)
    then show ?thesis using idat_error [of png 8 False d] i by (simp add: idatStream_def)
  qed
  let ?read = "read_parts header (rect x y n n) parts fin (createRowAssembler (ph_width header * ph_samples header)) (replicate (n * n * channels_of (ph_samples header)) 0)"
  have call: "cropPng inflate png (\<lambda>w h. square_region (scaleCrop box s w h)) most = (case ?read of Inl e \<Rightarrow> Inl e
     | Inr pixels \<Rightarrow> Inr \<lparr>ri_width = n, ri_height = n, ri_channels = channels_of (ph_samples header), ri_pixels = pixels\<rparr>)"
    using Inr r(1) c i f pos by (simp add: cropPng_def Let_def)
  show ?thesis
  proof (cases ?read)
    case (Inl d)
    then show ?thesis unfolding call using read_parts_error [OF fin Inl] by simp
  next
    case (Inr pixels)
    then show ?thesis unfolding call using r(2) by simp
  qed
qed

lemma map_range [simp]: "is_range (mapBunError e f) = False"
  by (simp add: mapBunError_def)

lemma guarded_range: "guarded_step f r = Inl e \<Longrightarrow> \<not> is_range e"
  by (cases r) auto

lemma box_range: "box_of crop w h = Inl e \<Longrightarrow> \<not> is_range e"
  by (auto simp: box_of_def assertCropShape_def assertCropFits_def split: option.splits if_splits sum.splits prod.splits)

definition box_meant :: "crop_box option option \<Rightarrow> nat \<Rightarrow> nat \<Rightarrow> nat \<times> nat \<times> nat \<Rightarrow> bool" where
  "box_meant crop w h box = (case box of (x, y, side) \<Rightarrow> x + side \<le> w \<and> y + side \<le> h \<and>
     (case crop of None \<Rightarrow> side = min w h
      | Some c \<Rightarrow> 1 \<le> side \<and> c = Some \<lparr>cb_x = Whole (int x), cb_y = Whole (int y), cb_size = Whole (int side)\<rparr>))"

lemma whole_pos: "whole_from_0 n \<Longrightarrow> n = Whole (int (pos_of n))"
  by (cases n) auto

lemma box_meant: "box_of crop w h = Inr box \<Longrightarrow> box_meant crop w h box"
proof (cases crop)
  case None
  assume "box_of crop w h = Inr box"
  moreover have "(a - b) div 2 + b \<le> a" if "b \<le> a" for a b :: nat using that by linarith
  ultimately show ?thesis using None by (auto simp: box_of_def centredCrop_def box_meant_def Let_def)
next
  case (Some c)
  assume b: "box_of crop w h = Inr box"
  obtain cb where c: "c = Some cb" "whole_from_0 (cb_x cb)" "whole_from_0 (cb_y cb)" "whole_from_0 (cb_size cb)" "box = (pos_of (cb_x cb), pos_of (cb_y cb), pos_of (cb_size cb))"
    "assertCropFits box w h = Inr ()"
    using b Some by (auto simp: box_of_def assertCropShape_def split: option.splits if_splits sum.splits)
  have "cb = \<lparr>cb_x = Whole (int (pos_of (cb_x cb))), cb_y = Whole (int (pos_of (cb_y cb))), cb_size = Whole (int (pos_of (cb_size cb)))\<rparr>"
    using whole_pos [OF c(2)] whole_pos [OF c(3)] whole_pos [OF c(4)] by (cases cb) simp
  then show ?thesis using c Some by (auto simp: box_meant_def assertCropFits_def split: if_splits)
qed

lemma all_variants_ok: "all_variants f ns = Inr vs \<Longrightarrow> length vs = length ns \<and> (\<forall>i < length ns. f (ns ! i) = Inr (vs ! i))"
proof (induction ns arbitrary: vs)
  case (Cons n ns)
  then show ?case by (auto split: sum.splits simp: nth_Cons')
qed simp

lemma all_variants_range: "(\<And>n e. f n = Inl e \<Longrightarrow> \<not> is_range e) \<Longrightarrow> all_variants f ns = Inl e \<Longrightarrow> \<not> is_range e"
  by (induction ns) (auto split: sum.splits)

lemma variantOf_range: "variantOf bun square q n = Inl e \<Longrightarrow> \<not> is_range e"
  by (auto simp: variantOf_def split: sum.splits dest: guarded_range)

lemma variantOf_ok: "variantOf bun square q n = Inr v \<Longrightarrow> va_size v = n \<and> bi_webp bun square n q = Inr (va_bytes v)"
  by (cases "bi_webp bun square n q") (auto simp: variantOf_def)

text \<open>C37. A call of \<open>process\<close> never falls out of the image. When it answers, the upload was within \<open>maxBytes\<close>, the
  square it kept is the caller's crop or the centred one, inside the image and at least \<open>minSide\<close>, the region
  read from the shrunk image, in doubles and rounded, was a square inside it, and the variants are the WebPs
  of that square, one per size in order. When it refuses, it is never the \<open>RangeError\<close> of a region that does
  not fit.\<close>

theorem process_in_bounds:
  assumes "passes_errors (bi_inflate bun)"
  shows "case processImage bun input crop opts of
      Inl e \<Rightarrow> \<not> is_range e
    | Inr p \<Rightarrow> (\<exists>bs box png sq. readInput input (io_maxBytes opts) = Inr bs \<and> length bs \<le> io_maxBytes opts \<and> sniffFormat bs = Some (pr_format p) \<and>
        bi_metadata bun bs (io_maxPixels opts) = Inr (pr_width p, pr_height p) \<and> box_meant crop (pr_width p) (pr_height p) box \<and> io_minSide opts \<le> snd (snd box) \<and>
        cropPng (bi_inflate bun) png (\<lambda>w h. square_region (scaleCrop box (shrinkScale (snd (snd box)) (largest (io_sizes opts))) w h)) (Some (io_maxPixels opts)) = Inr sq \<and>
        ri_width sq = ri_height sq \<and> 1 \<le> ri_width sq \<and> length (pr_variants p) = length (io_sizes opts) \<and>
        (\<forall>i < length (io_sizes opts). va_size (pr_variants p ! i) = io_sizes opts ! i \<and>
          bi_webp bun (encodePng (bi_deflate bun) (bi_crc bun) sq) (io_sizes opts ! i) (io_quality opts) = Inr (va_bytes (pr_variants p ! i))))"
proof -
  define scale where "scale = (\<lambda>box :: nat \<times> nat \<times> nat. shrinkScale (snd (snd box)) (largest (io_sizes opts)))"
  define crop_of where "crop_of = (\<lambda>png box. cropPng (bi_inflate bun) png (\<lambda>w h. square_region (scaleCrop box (scale box) w h)) (Some (io_maxPixels opts)))"
  have call: "cropToPng bun bs f img box opts = (case shrink bun bs f img (scale box) (io_maxPixels opts) of Inl e \<Rightarrow> Inl e
     | Inr png \<Rightarrow> (case crop_of png box of Inl e \<Rightarrow> Inl e | Inr square \<Rightarrow> Inr (encodePng (bi_deflate bun) (bi_crc bun) square)))" for bs f img box
    unfolding cropToPng_def crop_of_def scale_def Let_def ..
  have scaled: "case crop_of png box of Inl e \<Rightarrow> \<not> is_range e | Inr sq \<Rightarrow> ri_width sq = ri_height sq \<and> 1 \<le> ri_width sq" for png box
    unfolding crop_of_def by (rule crop_scaled [OF assms])
  have crop_range: "\<not> is_range e" if "cropToPng bun bs f img box opts = Inl e" for bs f img box e
  proof (cases "shrink bun bs f img (scale box) (io_maxPixels opts)")
    case (Inl d)
    then show ?thesis using that guarded_range unfolding call shrink_def by auto
  next
    case (Inr png)
    then show ?thesis using that scaled [of png box] unfolding call by (cases "crop_of png box") auto
  qed
  have crop_ok: "\<exists>png sq. crop_of png box = Inr sq \<and> ri_width sq = ri_height sq \<and> 1 \<le> ri_width sq \<and> square = encodePng (bi_deflate bun) (bi_crc bun) sq"
    if "cropToPng bun bs f img box opts = Inr square" for bs f img box square
  proof (cases "shrink bun bs f img (scale box) (io_maxPixels opts)")
    case (Inl d)
    then show ?thesis using that unfolding call by simp
  next
    case (Inr png)
    then show ?thesis using that scaled [of png box] unfolding call by (cases "crop_of png box") auto
  qed
  have variants_range: "\<not> is_range e" if "all_variants (variantOf bun square q) ns = Inl e" for square q ns e
    by (rule all_variants_range [OF _ that]) (rule variantOf_range)
  show ?thesis
  proof (cases "processImage bun input crop opts")
    case (Inl e)
    then have "\<not> is_range e"
      unfolding processImage_def
      by (auto split: sum.splits option.splits if_splits prod.splits
          dest: readInput_error guarded_range box_range crop_range variants_range)
    then show ?thesis using Inl by simp
  next
    case (Inr p)
    obtain bs where bs: "readInput input (io_maxBytes opts) = Inr bs" using Inr by (auto simp: processImage_def split: sum.splits)
    obtain f where f: "sniffFormat bs = Some f" using Inr bs by (auto simp: processImage_def split: option.splits)
    obtain w h where wh: "bi_metadata bun bs (io_maxPixels opts) = Inr (w, h)" using Inr bs f by (cases "bi_metadata bun bs (io_maxPixels opts)") (auto simp: processImage_def)
    obtain box where box: "box_of crop w h = Inr box" using Inr bs f wh by (auto simp: processImage_def split: sum.splits)
    have side: "io_minSide opts \<le> snd (snd box)" using Inr bs f wh box by (auto simp: processImage_def split: if_splits)
    obtain square where sq: "cropToPng bun bs f (w, h) box opts = Inr square" using Inr bs f wh box side by (auto simp: processImage_def split: sum.splits)
    obtain vs where vs: "all_variants (variantOf bun square (io_quality opts)) (io_sizes opts) = Inr vs" "p = \<lparr>pr_format = f, pr_width = w, pr_height = h, pr_variants = vs\<rparr>"
      using Inr bs f wh box side sq by (auto simp: processImage_def split: sum.splits)
    obtain png img where img: "crop_of png box = Inr img"
      "ri_width img = ri_height img" "1 \<le> ri_width img" "square = encodePng (bi_deflate bun) (bi_crc bun) img"
      using crop_ok [OF sq] by blast
    have v: "length vs = length (io_sizes opts)" "\<And>i. i < length (io_sizes opts) \<Longrightarrow> variantOf bun square (io_quality opts) (io_sizes opts ! i) = Inr (vs ! i)"
      using all_variants_ok [OF vs(1)] by auto
    have "\<forall>i < length (io_sizes opts). va_size (vs ! i) = io_sizes opts ! i \<and>
        bi_webp bun (encodePng (bi_deflate bun) (bi_crc bun) img) (io_sizes opts ! i) (io_quality opts) = Inr (va_bytes (vs ! i))"
      using variantOf_ok [OF v(2)] img(4) by simp
    then show ?thesis unfolding Inr sum.case
      by (intro exI [of _ bs] exI [of _ box] exI [of _ png] exI [of _ img] conjI)
        (use bs readInput_bounded [OF bs] f wh box_meant [OF box] side img(1) [unfolded crop_of_def scale_def] img(2, 3) v(1) in \<open>simp_all add: vs(2)\<close>)
  qed
qed

section \<open>An example\<close>

text \<open>A PNG of one chunk, and a \<open>Bun.Image\<close> that answers the example image and keeps the bytes as the WebP.\<close>

definition ex_upload :: "byte list" where
  "ex_upload = encodePng (\<lambda>raw. raw) ex_crc ex_image"

definition ex_bun :: bun_image where
  "ex_bun = \<lparr>bi_metadata = (\<lambda>bs most. Inr (2, 2)), bi_png = (\<lambda>bs most to. Inr ex_upload), bi_webp = (\<lambda>bs n q. Inr (take n bs)),
     bi_inflate = stored_inflate, bi_deflate = (\<lambda>raw. raw), bi_crc = ex_crc\<rparr>"

definition ex_opts :: image_options where
  "ex_opts = \<lparr>io_sizes = [1], io_maxBytes = 100, io_maxPixels = 50, io_minSide = 1, io_quality = 80, io_concurrency = 2\<rparr>"

definition ex_wanted :: "crop_box option option" where
  "ex_wanted = Some (Some \<lparr>cb_x = Whole 1, cb_y = Whole 1, cb_size = Whole 1\<rparr>)"

lemma ex_cropped:
  assumes "region 2 2 = rect 1 1 1 1"
  shows "cropPng stored_inflate ex_upload region (Some 50) = Inr \<lparr>ri_width = 1, ri_height = 1, ri_channels = 3, ri_pixels = [10, 11, 12]\<rparr>"
proof -
  have ok: "image_ok ex_image" by (simp add: image_ok_def ex_image_def)
  have rows: "image_rows ex_image = [[1, 2, 3, 4, 5, 6], [7, 8, 9, 10, 11, 12]]" by (simp add: image_rows_def ex_image_def subarray_def eval_nat_numeral upt_rec)
  have z: "\<exists>parts. stored_inflate payloads None = (parts, Closed) \<and> concat parts = raw" if "concat payloads = raw" for payloads raw
    using that by (simp add: stored_inflate_def concat_bytes)
  have q: "region_pixels 3 [[1, 2, 3, 4, 5, 6], [7, 8, 9, 10, 11, 12]] 1 1 1 1 = [10, 11, 12]" by code_simp
  from encoded_crop [where inflate = stored_inflate and deflate = "\<lambda>raw. raw" and most = "Some 50" and region = region and w = 1 and h = 1 and x = 1 and y = 1 and crc = ex_crc, OF ok _ _ z] assms rows q
  show ?thesis by (simp add: ex_image_def ex_upload_def)
qed

lemma ex_processed:
  "processImage ex_bun (InBytes ex_upload) ex_wanted ex_opts =
    Inr \<lparr>pr_format = Png, pr_width = 2, pr_height = 2, pr_variants = [\<lparr>va_size = 1, va_bytes = [0x89]\<rparr>]\<rparr>"
proof -
  have l: "length ex_upload \<le> 100"
    by (simp add: ex_upload_def encodePng_def ex_image_def PNG_SIGNATURE_def png_header_def raw_row_def splice_def subarray_def upt_rec eval_nat_numeral)
  have f: "sniffFormat ex_upload = Some Png"
    by (simp add: sniffFormat_def startsWith_def ex_upload_def encodePng_def PNG_SIGNATURE_def Let_def)
  have b: "box_of ex_wanted 2 2 = Inr (1, 1, 1)" by code_simp
  have r: "square_region (scaleCrop (1, 1, 1) (shrinkScale 1 1) 2 2) = rect 1 1 1 1" by code_simp
  have c: "cropToPng ex_bun ex_upload Png (2, 2) (1, 1, 1) ex_opts = Inr (encodePng (\<lambda>raw. raw) ex_crc \<lparr>ri_width = 1, ri_height = 1, ri_channels = 3, ri_pixels = [10, 11, 12]\<rparr>)"
    using ex_cropped [of "\<lambda>w h. square_region (scaleCrop (1, 1, 1) (shrinkScale 1 1) w h)"] r
    by (simp add: cropToPng_def shrink_def ex_bun_def ex_opts_def largest_def Let_def)
  show ?thesis using l f b c by (simp add: processImage_def ex_bun_def ex_opts_def variantOf_def encodePng_def PNG_SIGNATURE_def Let_def)
qed

theorem process_in_bounds_witness:
  "\<exists>box. box_meant ex_wanted 2 2 box \<and> 1 \<le> snd (snd box) \<and>
    processImage ex_bun (InBytes ex_upload) ex_wanted ex_opts =
      Inr \<lparr>pr_format = Png, pr_width = 2, pr_height = 2, pr_variants = [\<lparr>va_size = 1, va_bytes = [0x89]\<rparr>]\<rparr>"
proof -
  have "passes_errors (bi_inflate ex_bun)" by (simp add: passes_errors_def ex_bun_def stored_inflate_def)
  from process_in_bounds [where input = "InBytes ex_upload" and crop = ex_wanted and opts = ex_opts, OF this]
  have "\<exists>box. box_meant ex_wanted 2 2 box \<and> io_minSide ex_opts \<le> snd (snd box)" unfolding ex_processed by auto
  moreover have "io_minSide ex_opts = 1" by (simp add: ex_opts_def)
  ultimately have "\<exists>box. box_meant ex_wanted 2 2 box \<and> 1 \<le> snd (snd box)" by simp
  then show ?thesis by (simp add: ex_processed)
qed

end
