(* ===== verification/Cron.thy ===== *)
theory Cron
  imports Calendar
begin

text \<open>
  The schedules' clock: \<open>packages/redis/src/queue/schedule/cron.ts\<close>, \<open>next.ts\<close> and \<open>zone.ts\<close>. A cron is parsed field by
  field and refused when no day of a 400-year cycle matches; the next occurrence is searched day by day in
  the wall time of a zone. What \<open>Intl\<close> reads at an instant is a parameter, the zone.
\<close>

section \<open>A cron\<close>

record cron =
  cr_minutes :: "int set"
  cr_hours :: "int set"
  cr_days :: "int set"
  cr_months :: "int set"
  cr_weekdays :: "int set"
  cr_daysStar :: bool
  cr_weekdaysStar :: bool

text \<open>\<open>names\<close> and \<open>nameBase\<close> together: the names and what the first stands for.\<close>

record cron_field =
  cf_name :: string
  cf_min :: int
  cf_max :: int
  cf_names :: "(string list \<times> int) option"

definition MONTHS :: "string list" where
  "MONTHS = [''jan'', ''feb'', ''mar'', ''apr'', ''may'', ''jun'', ''jul'', ''aug'', ''sep'', ''oct'', ''nov'', ''dec'']"

definition WEEKDAYS :: "string list" where
  "WEEKDAYS = [''sun'', ''mon'', ''tue'', ''wed'', ''thu'', ''fri'', ''sat'']"

definition MINUTE :: cron_field where "MINUTE = \<lparr>cf_name = ''minute'', cf_min = 0, cf_max = 59, cf_names = None\<rparr>"
definition HOUR :: cron_field where "HOUR = \<lparr>cf_name = ''hour'', cf_min = 0, cf_max = 23, cf_names = None\<rparr>"
definition DAY_OF_MONTH :: cron_field where "DAY_OF_MONTH = \<lparr>cf_name = ''day of month'', cf_min = 1, cf_max = 31, cf_names = None\<rparr>"
definition MONTH :: cron_field where "MONTH = \<lparr>cf_name = ''month'', cf_min = 1, cf_max = 12, cf_names = Some (MONTHS, 1)\<rparr>"
definition DAY_OF_WEEK :: cron_field where "DAY_OF_WEEK = \<lparr>cf_name = ''day of week'', cf_min = 0, cf_max = 7, cf_names = Some (WEEKDAYS, 0)\<rparr>"

section \<open>Texts\<close>

text \<open>\<open>text.split(c)\<close>, \<open>text.trim().split(/\s+/)\<close>, \<open>text.toLowerCase()\<close>.\<close>

fun split_on :: "char \<Rightarrow> string \<Rightarrow> string list" where
  "split_on c [] = [[]]"
| "split_on c (x # xs) = (if x = c then [] # split_on c xs else (case split_on c xs of [] \<Rightarrow> [[x]] | w # ws \<Rightarrow> (x # w) # ws))"

definition cron_space :: "char \<Rightarrow> bool" where
  "cron_space c = (let n = of_char c :: nat in (9 \<le> n \<and> n \<le> 13) \<or> n = 32 \<or> n = 160)"

function words :: "string \<Rightarrow> string list" where
  "words s = (case dropWhile cron_space s of [] \<Rightarrow> []
     | x # xs \<Rightarrow> (x # takeWhile (\<lambda>c. \<not> cron_space c) xs) # words (dropWhile (\<lambda>c. \<not> cron_space c) xs))"
  by pat_completeness auto

termination
proof (relation "measure length")
  fix s :: string and x xs
  assume d: "dropWhile cron_space s = x # xs"
  have "length (dropWhile (\<lambda>c. \<not> cron_space c) xs) \<le> length xs" by (rule length_dropWhile_le)
  also have "\<dots> < length (dropWhile cron_space s)" by (simp add: d)
  also have "\<dots> \<le> length s" by (rule length_dropWhile_le)
  finally show "(dropWhile (\<lambda>c. \<not> cron_space c) xs, s) \<in> measure length" by simp
qed simp

declare words.simps [simp del]

definition cron_parts :: "string \<Rightarrow> string list" where
  "cron_parts s = (if words s = [] then [[]] else words s)"

definition lower_char :: "char \<Rightarrow> char" where
  "lower_char c = (if 65 \<le> (of_char c :: nat) \<and> (of_char c :: nat) \<le> 90 then char_of (of_char c + 32 :: nat) else c)"

definition starts_star :: "string \<Rightarrow> bool" where
  "starts_star s = (s \<noteq> [] \<and> hd s = CHR ''*'')"

section \<open>Parsing\<close>

definition refusal :: "cron_field \<Rightarrow> string \<Rightarrow> string" where
  "refusal f reason = ''cron '' @ cf_name f @ '': '' @ reason"

definition cron_number :: "string \<Rightarrow> cron_field \<Rightarrow> string \<Rightarrow> int result" where
  "cron_number s f what = (if \<not> whole s then Inl (refusal f (''\"'' @ s @ ''\" is not '' @ what @ (if cf_names f \<noteq> None then '' or a name'' else '''')))
     else Inr (int (parse_nat s)))"

fun index_in :: "string list \<Rightarrow> string \<Rightarrow> nat option" where
  "index_in [] s = None"
| "index_in (n # ns) s = (if n = s then Some 0 else map_option Suc (index_in ns s))"

definition named_value :: "string \<Rightarrow> cron_field \<Rightarrow> int option" where
  "named_value s f = (case cf_names f of None \<Rightarrow> None
     | Some (names, base) \<Rightarrow> map_option (\<lambda>i. int i + base) (index_in names (map lower_char s)))"

definition cron_value :: "string \<Rightarrow> cron_field \<Rightarrow> int result" where
  "cron_value s f = (case (case named_value s f of Some v \<Rightarrow> Inr v | None \<Rightarrow> cron_number s f ''a value'') of Inl e \<Rightarrow> Inl e
     | Inr v \<Rightarrow> if v < cf_min f \<or> v > cf_max f
         then Inl (refusal f (show_int v @ '' is out of range '' @ show_int (cf_min f) @ ''-'' @ show_int (cf_max f)))
         else Inr v)"

definition last_value :: "cron_field \<Rightarrow> int" where
  "last_value f = (if cf_max f = 7 then 6 else cf_max f)"

definition bounds :: "string \<Rightarrow> bool \<Rightarrow> cron_field \<Rightarrow> (int \<times> int) result" where
  "bounds rng stepped f = (if rng = ''*'' then Inr (cf_min f, last_value f)
     else (case split_on (CHR ''-'') rng of
         [a] \<Rightarrow> (case cron_value a f of Inl e \<Rightarrow> Inl e | Inr v \<Rightarrow> Inr (v, if stepped then last_value f else v))
       | [a, b] \<Rightarrow> (case cron_value a f of Inl e \<Rightarrow> Inl e
           | Inr v \<Rightarrow> (case cron_value b f of Inl e \<Rightarrow> Inl e
             | Inr w \<Rightarrow> if v > w then Inl (refusal f (''range '' @ rng @ '' is reversed'')) else Inr (v, w)))
       | _ \<Rightarrow> Inl (refusal f (''\"'' @ rng @ ''\" is not a value or a range''))))"

text \<open>\<open>for (let v = from; v <= to; v += stride)\<close>, with \<open>stride\<close> at least 1.\<close>

function stepping :: "int \<Rightarrow> int \<Rightarrow> int \<Rightarrow> int list" where
  "stepping v most stride = (if v \<le> most \<and> 1 \<le> stride then v # stepping (v + stride) most stride else [])"
  by pat_completeness auto

termination
  by (relation "measure (\<lambda>(v, most, stride). nat (most - v + 1))") auto

declare stepping.simps [simp del]

definition parse_item :: "string \<Rightarrow> cron_field \<Rightarrow> int list result" where
  "parse_item item f = (let go = (\<lambda>rng stride stepped.
       if stride < 1 then Inl (refusal f (''step '' @ show_int stride @ '' must be at least 1''))
       else (case bounds rng stepped f of Inl e \<Rightarrow> Inl e | Inr (v, w) \<Rightarrow> Inr (stepping v w stride))) in
     case split_on (CHR ''/'') item of
       [rng] \<Rightarrow> go rng 1 False
     | [rng, step] \<Rightarrow> (case cron_number step f ''a step'' of Inl e \<Rightarrow> Inl e | Inr stride \<Rightarrow> go rng stride True)
     | _ \<Rightarrow> Inl (refusal f (''\"'' @ item @ ''\" has more than one \"/\"'')))"

fun parse_items :: "string list \<Rightarrow> cron_field \<Rightarrow> int list result" where
  "parse_items [] f = Inr []"
| "parse_items (item # items) f = (case parse_item item f of Inl e \<Rightarrow> Inl e
     | Inr vs \<Rightarrow> (case parse_items items f of Inl e \<Rightarrow> Inl e | Inr ws \<Rightarrow> Inr (vs @ ws)))"

definition parseField :: "string \<Rightarrow> cron_field \<Rightarrow> int set result" where
  "parseField s f = (case parse_items (split_on (CHR '','') s) f of Inl e \<Rightarrow> Inl e | Inr vs \<Rightarrow> Inr (set vs))"

section \<open>Days\<close>

definition matchesDay :: "cron \<Rightarrow> int \<Rightarrow> int \<Rightarrow> int \<Rightarrow> bool" where
  "matchesDay c month dayOfMonth dayOfWeek = (if month \<notin> cr_months c then False
     else (let day = (dayOfMonth \<in> cr_days c); week = (dayOfWeek \<in> cr_weekdays c) in
       if cr_daysStar c \<or> cr_weekdaysStar c then day \<and> week else day \<or> week))"

definition matchesTime :: "cron \<Rightarrow> int \<Rightarrow> int \<Rightarrow> bool" where
  "matchesTime c hour minute = (hour \<in> cr_hours c \<and> minute \<in> cr_minutes c)"

definition CYCLE_DAYS :: int where
  "CYCLE_DAYS = 146097"

text \<open>Whether a day from \<open>i\<close> on, up to \<open>CYCLE_DAYS\<close>, matches: the days as \<open>new Date(start + i * 86_400_000)\<close>.\<close>

definition day_matches :: "cron \<Rightarrow> int \<Rightarrow> bool" where
  "day_matches c t = matchesDay c (utc_month t) (utc_date t) (utc_day t)"

function reach_from :: "cron \<Rightarrow> int \<Rightarrow> bool" where
  "reach_from c i = (if i < CYCLE_DAYS then (if day_matches c (date_utc 2000 1 1 0 0 0 0 + i * 86400000) then True else reach_from c (i + 1)) else False)"
  by pat_completeness auto

termination
  by (relation "measure (\<lambda>(c, i). nat (CYCLE_DAYS - i))") auto

declare reach_from.simps [simp del]

definition checkReachable :: "cron \<Rightarrow> unit result" where
  "checkReachable c = (if reach_from c 0 then Inr ()
     else Inl ''cron day of month and day of week: no day of a 400-year cycle matches, so it would never match'')"

definition parseCron :: "string \<Rightarrow> cron result" where
  "parseCron s = (case cron_parts s of
     [a, b, d, m, w] \<Rightarrow> (case parseField a MINUTE of Inl e \<Rightarrow> Inl e
       | Inr minutes \<Rightarrow> (case parseField b HOUR of Inl e \<Rightarrow> Inl e
       | Inr hours \<Rightarrow> (case parseField d DAY_OF_MONTH of Inl e \<Rightarrow> Inl e
       | Inr days \<Rightarrow> (case parseField m MONTH of Inl e \<Rightarrow> Inl e
       | Inr months \<Rightarrow> (case parseField w DAY_OF_WEEK of Inl e \<Rightarrow> Inl e
       | Inr weekdays \<Rightarrow> (let c = \<lparr>cr_minutes = minutes, cr_hours = hours, cr_days = days, cr_months = months,
             cr_weekdays = (if 7 \<in> weekdays then insert 0 (weekdays - {7}) else weekdays), cr_daysStar = starts_star d, cr_weekdaysStar = starts_star w\<rparr> in
           case checkReachable c of Inl e \<Rightarrow> Inl e | Inr _ \<Rightarrow> Inr c))))))
   | parts \<Rightarrow> Inl (''cron needs five fields (minute hour day-of-month month day-of-week), got '' @ show_nat (length parts)))"

section \<open>Zones\<close>

record wall =
  wa_year :: int
  wa_month :: int
  wa_day :: int
  wa_hour :: int
  wa_minute :: int
  wa_second :: int

text \<open>What \<open>formatToParts\<close> reads at an instant.\<close>

type_synonym zone = "int \<Rightarrow> wall"

definition wallOf :: "int \<Rightarrow> zone \<Rightarrow> wall" where
  "wallOf ms z = (z ms)\<lparr>wa_hour := wa_hour (z ms) mod 24\<rparr>"

text \<open>\<open>Date.UTC\<close> over the years it counts as they are: from 100 on.\<close>

definition asUtc :: "wall \<Rightarrow> int" where
  "asUtc w = date_utc (wa_year w) (wa_month w) (wa_day w) (wa_hour w) (wa_minute w) (wa_second w) 0"

definition offsetAt :: "int \<Rightarrow> zone \<Rightarrow> int" where
  "offsetAt ms z = asUtc (wallOf ms z) - ms div 1000 * 1000"

text \<open>The bisection; it may not end when the bounds are not whole seconds apart.\<close>

partial_function (option) transitionBetween :: "int \<Rightarrow> int \<Rightarrow> int \<Rightarrow> zone \<Rightarrow> int option" where
  "transitionBetween low high offsetAtLo z = (if high - low > 1000 then
       (let mid = low + (high - low) div 2000 * 1000 in
         if offsetAt mid z = offsetAtLo then transitionBetween mid high offsetAtLo z else transitionBetween low mid offsetAtLo z)
     else Some high)"

definition instantsOf :: "wall \<Rightarrow> zone \<Rightarrow> (int \<times> bool) option" where
  "instantsOf w z = (let target = asUtc w; earlier = offsetAt (target - DAY) z; later = offsetAt (target + DAY) z;
       valid = filter (\<lambda>guess. asUtc (wallOf guess z) = target) [target - earlier, target - later] in
     case valid of
       g # gs \<Rightarrow> Some (fold min gs g, False)
     | [] \<Rightarrow> map_option (\<lambda>s. (s, True)) (transitionBetween (target - later) (target - earlier) earlier z))"

section \<open>The next occurrence\<close>

definition MAX_DAYS :: int where
  "MAX_DAYS = CYCLE_DAYS + 366"

definition SKIP_BEFORE_MS :: int where
  "SKIP_BEFORE_MS = 0"

definition slots :: "(int \<times> int) list" where
  "slots = concat (map (\<lambda>hour. map (Pair hour) [0..59]) [0..23])"

text \<open>The hours and minutes of one day: \<open>None\<close> where a call does not return, \<open>Some None\<close> where none is after \<open>t\<close>.\<close>

fun try_slots :: "cron \<Rightarrow> zone \<Rightarrow> int \<Rightarrow> int \<Rightarrow> int \<Rightarrow> int \<Rightarrow> int \<Rightarrow> (int \<times> int) list \<Rightarrow> int option option" where
  "try_slots c z t startUtc year month day [] = Some None"
| "try_slots c z t startUtc year month day ((hour, minute) # rest) =
     (if \<not> matchesTime c hour minute then try_slots c z t startUtc year month day rest
      else if date_utc year month day hour minute 0 0 < startUtc - SKIP_BEFORE_MS then try_slots c z t startUtc year month day rest
      else (case instantsOf \<lparr>wa_year = year, wa_month = month, wa_day = day, wa_hour = hour, wa_minute = minute, wa_second = 0\<rparr> z of
          None \<Rightarrow> None
        | Some (first, inGap) \<Rightarrow> if first > t then Some (Some first) else try_slots c z t startUtc year month day rest))"

function search_days :: "cron \<Rightarrow> zone \<Rightarrow> int \<Rightarrow> wall \<Rightarrow> int \<Rightarrow> int \<Rightarrow> int option option" where
  "search_days c z t start startUtc i = (if i < MAX_DAYS then
       (let date = date_utc (wa_year start) (wa_month start) (wa_day start + i) 0 0 0 0 in
         if \<not> matchesDay c (utc_month date) (utc_date date) (utc_day date) then search_days c z t start startUtc (i + 1)
         else (case try_slots c z t startUtc (utc_year date) (utc_month date) (utc_date date) slots of
             None \<Rightarrow> None
           | Some (Some first) \<Rightarrow> Some (Some first)
           | Some None \<Rightarrow> search_days c z t start startUtc (i + 1)))
     else Some None)"
  by pat_completeness auto

termination
  by (relation "measure (\<lambda>(c, z, t, start, startUtc, i). nat (MAX_DAYS - i))") auto

declare search_days.simps [simp del]

text \<open>\<open>nextAfter\<close>: \<open>None\<close> where it does not return, an error where no day matched (its text without the instant).\<close>

definition nextAfter :: "cron \<Rightarrow> zone \<Rightarrow> int \<Rightarrow> int result option" where
  "nextAfter c z t = (let start = wallOf t z;
       startUtc = date_utc (wa_year start) (wa_month start) (wa_day start) (wa_hour start) (wa_minute start) (wa_second start) 0 in
     map_option (\<lambda>r. case r of Some first \<Rightarrow> Inr first | None \<Rightarrow> Inl (''no occurrence within '' @ show_int MAX_DAYS @ '' days; this is a bug''))
       (search_days c z t start startUtc 0))"

text \<open>\<open>nextEvery\<close>: times are below \<open>2 ^ 53\<close>, where the floor of a double quotient is the floor of the exact one.\<close>

definition nextEvery :: "int \<Rightarrow> int \<Rightarrow> int \<Rightarrow> int" where
  "nextEvery due everyMs now = due + max 1 ((now - due) div everyMs + 1) * everyMs"

end
