(* ===== verification/Cron_Next.thy ===== *)
theory Cron_Next
  imports Cron
begin

text \<open>
  The next occurrence is the least one: what a zone is, the first instant its clock reaches a wall time, that
  \<open>instantsOf\<close> finds it over a change of the clocks either way, that the calendar repeats every 400 years, so that
  a cron the parser accepts always has a next occurrence, and that the search finds the least.
\<close>

section \<open>Zones\<close>

text \<open>The fields of a moment, as \<open>Date\<close>'s UTC getters give them.\<close>

definition wall_at :: "int \<Rightarrow> wall" where
  "wall_at x = \<lparr>wa_year = utc_year x, wa_month = utc_month x, wa_day = utc_date x, wa_hour = utc_hours x, wa_minute = utc_minutes x, wa_second = utc_seconds x\<rparr>"

definition local_time :: "(int \<Rightarrow> int) \<Rightarrow> int \<Rightarrow> int" where
  "local_time off s = s div 1000 * 1000 + off s"

text \<open>
  What the database of time zones says of a zone: its clock reads UTC plus an offset, of whole seconds and less
  than a day, that depends on the second, and changes at most once in any two days.
\<close>

definition zone_law :: "zone \<Rightarrow> (int \<Rightarrow> int) \<Rightarrow> bool" where
  "zone_law z off = ((\<forall>s. z s = wall_at (local_time off s)) \<and> (\<forall>s. off s mod 1000 = 0 \<and> - DAY < off s \<and> off s < DAY) \<and>
     (\<forall>s. off s = off (s div 1000 * 1000)) \<and>
     (\<forall>x. \<exists>change. \<forall>s. x \<le> s \<and> s \<le> x + 2 * DAY \<longrightarrow> off s = (if s < change then off x else off (x + 2 * DAY))))"

text \<open>The first instant the clock reads \<open>w\<close> or later.\<close>

definition reaches :: "(int \<Rightarrow> int) \<Rightarrow> int \<Rightarrow> int \<Rightarrow> bool" where
  "reaches off w s = (w \<le> local_time off s \<and> (\<forall>r < s. local_time off r < w))"

lemma reaches_mono: "reaches off w s \<Longrightarrow> reaches off w' s' \<Longrightarrow> w \<le> w' \<Longrightarrow> s \<le> s'"
  unfolding reaches_def by (meson linorder_not_less order_trans)

lemma reaches_unique: "reaches off w s \<Longrightarrow> reaches off w s' \<Longrightarrow> s = s'"
  by (meson order_antisym order_refl reaches_mono)

lemma zone_lawD:
  assumes "zone_law z off"
  shows "z s = wall_at (local_time off s)" "off s mod 1000 = 0" "- DAY < off s" "off s < DAY" "off s = off (s div 1000 * 1000)"
  using assms unfolding zone_law_def by auto

lemma local_whole: "zone_law z off \<Longrightarrow> local_time off s mod 1000 = 0"
  using zone_lawD(2) [of z off s] by (simp add: local_time_def mod_add_eq [symmetric])

lemma wallOf_law: "zone_law z off \<Longrightarrow> wallOf s z = wall_at (local_time off s)"
  using clock_bounds(1) [of "local_time off s"] by (simp add: wallOf_def zone_lawD(1) wall_at_def)

lemma asUtc_wall: "x mod 1000 = 0 \<Longrightarrow> asUtc (wall_at x) = x"
  using date_utc_parts [of x] by (simp add: asUtc_def wall_at_def utc_millis_def)

lemma asUtc_law: "zone_law z off \<Longrightarrow> asUtc (wallOf s z) = local_time off s"
  by (simp add: wallOf_law asUtc_wall local_whole)

lemma offsetAt_law: "zone_law z off \<Longrightarrow> offsetAt s z = off s"
  by (simp add: offsetAt_def asUtc_law local_time_def)

lemma local_second: "s mod 1000 = 0 \<Longrightarrow> local_time off s = s + off s"
  using div_mult_mod_eq [of s 1000] by (simp add: local_time_def)

lemma local_le: "local_time off s \<le> s + off s"
  using div_bracket [of 1000 s] by (simp add: local_time_def)

lemma local_ge: "s + off s - 1000 < local_time off s"
  using div_bracket [of 1000 s] by (simp add: local_time_def)

text \<open>Two whole seconds less than a second apart are one.\<close>

lemma whole_seconds: "a mod 1000 = 0 \<Longrightarrow> b mod 1000 = (0::int) \<Longrightarrow> a < b \<Longrightarrow> a + 1000 \<le> b"
proof -
  assume a: "a mod 1000 = 0" "b mod 1000 = 0" "a < b"
  then obtain q p where "a = 1000 * q" "b = 1000 * p" by (auto simp: mod_eq_0_iff_dvd dvd_def)
  then show ?thesis using a(3) by simp
qed

lemma bisection:
  assumes "zone_law z off"
  shows "low mod 1000 = 0 \<Longrightarrow> high mod 1000 = 0 \<Longrightarrow> change mod 1000 = 0 \<Longrightarrow> low < change \<Longrightarrow> change \<le> high \<Longrightarrow>
    (\<forall>s. low \<le> s \<and> s \<le> high \<longrightarrow> (off s = e \<longleftrightarrow> s < change)) \<Longrightarrow> transitionBetween low high e z = Some change"
proof (induction "nat (high - low)" arbitrary: low high rule: less_induct)
  case less
  show ?case
  proof (cases "high - low > 1000")
    case False
    then have "high = change" using whole_seconds [OF less.prems(1, 3, 4)] less.prems(5) by linarith
    then show ?thesis using False by (subst transitionBetween.simps) simp
  next
    case True
    define mid where "mid = low + (high - low) div 2000 * 1000"
    have "low + 2000 \<le> high" using whole_seconds [of "low + 1000" high] less.prems(1, 2) True by simp
    then have k: "1 \<le> (high - low) div 2000" "(high - low) div 2000 * 2000 \<le> high - low" using div_bracket [of 2000 "high - low"] by linarith+
    then have mid: "low < mid" "mid < high" "mid mod 1000 = 0" using less.prems(1) by (auto simp: mid_def)
    have step: "transitionBetween low high e z = (if offsetAt mid z = e then transitionBetween mid high e z else transitionBetween low mid e z)"
      using True by (subst transitionBetween.simps) (simp add: mid_def Let_def)
    show ?thesis
    proof (cases "mid < change")
      case True
      then have "off mid = e" using less.prems(6) mid by auto
      moreover have "transitionBetween mid high e z = Some change"
        by (rule less.hyps) (use mid less.prems True in auto)
      ultimately show ?thesis unfolding step by (simp add: offsetAt_law [OF assms])
    next
      case False
      then have "off mid \<noteq> e" using less.prems(6) mid by auto
      moreover have "transitionBetween low mid e z = Some change"
        by (rule less.hyps) (use mid less.prems False in auto)
      ultimately show ?thesis unfolding step by (simp add: offsetAt_law [OF assms])
    qed
  qed
qed

lemma instantsOf_reaches:
  assumes law: "zone_law z off" and w: "asUtc wl = w" "w mod 1000 = 0"
  shows "\<exists>s gap. instantsOf wl z = Some (s, gap) \<and> reaches off w s"
proof -
  define x where "x = w - DAY"
  define e where "e = off x"
  define l where "l = off (w + DAY)"
  have x2: "x + 2 * DAY = w + DAY" by (simp add: x_def)
  obtain change where ch: "\<And>s. x \<le> s \<Longrightarrow> s \<le> w + DAY \<Longrightarrow> off s = (if s < change then e else l)"
    using law x2 unfolding zone_law_def e_def l_def by metis
  note d = zone_lawD [OF law]
  have day: "DAY mod 1000 = 0" by (simp add: DAY_def)
  have eb: "- DAY < e" "e < DAY" "e mod 1000 = 0" and lb: "- DAY < l" "l < DAY" "l mod 1000 = 0" using d(2-4) by (auto simp: e_def l_def)
  have g: "(w - e) mod 1000 = 0" "(w - l) mod 1000 = 0" using w(2) eb(3) lb(3) by (simp_all add: mod_diff_eq [symmetric])
  have in_w: "x \<le> w - e" "w - e \<le> w + DAY" "x \<le> w - l" "w - l \<le> w + DAY" using eb lb by (simp_all add: x_def)
  have far: "local_time off r < w" if "r < x" for r using local_le [of off r] d(4) [of r] that by (simp add: x_def)
  have g1: "local_time off (w - e) = w \<longleftrightarrow> off (w - e) = e" and g2: "local_time off (w - l) = w \<longleftrightarrow> off (w - l) = l"
    using local_second [OF g(1), of off] local_second [OF g(2), of off] by auto
  have inst: "instantsOf wl z = (case filter (\<lambda>guess. local_time off guess = w) [w - e, w - l] of
       g # gs \<Rightarrow> Some (fold min gs g, False) | [] \<Rightarrow> map_option (\<lambda>s. (s, True)) (transitionBetween (w - l) (w - e) e z))"
    by (simp add: instantsOf_def Let_def w(1) offsetAt_law [OF law] asUtc_law [OF law] e_def l_def x_def)
  show ?thesis
  proof (cases "e = l \<or> w - e < change")
    case True
    then have "off (w - e) = e" using ch [OF in_w(1, 2)] by auto
    moreover have "w - l = w - e \<or> off (w - l) \<noteq> l \<or> w - e \<le> w - l" using True ch [OF in_w(3, 4)] by (auto split: if_splits)
    ultimately have "instantsOf wl z = Some (w - e, False)" unfolding inst using g1 g2 by (auto simp: min_def)
    moreover have "local_time off r < w" if "r < w - e" for r
    proof (cases "r < x")
      case False
      have "off r = e" using ch [of r] that False in_w(2) True by (auto split: if_splits)
      then show ?thesis using local_le [of off r] that by simp
    qed (rule far)
    ultimately show ?thesis using g1 \<open>off (w - e) = e\<close> by (auto simp: reaches_def)
  next
    case False
    then have ne: "e \<noteq> l" "change \<le> w - e" by auto
    have g1n: "off (w - e) = l" using ch [OF in_w(1, 2)] ne by simp
    show ?thesis
    proof (cases "change \<le> w - l")
      case True
      then have ok: "off (w - l) = l" using ch [OF in_w(3, 4)] by simp
      then have "instantsOf wl z = Some (w - l, False)" unfolding inst using g1 g2 g1n ne by simp
      moreover have "local_time off r < w" if "r < w - l" for r
      proof (cases "r < x")
        case False
        then have "r + off r < w" using ch [of r] that in_w(4) ne(2) by (auto split: if_splits)
        then show ?thesis using local_le [of off r] by simp
      qed (rule far)
      ultimately show ?thesis using g2 ok by (auto simp: reaches_def)
    next
      case low: False
      then have off_low: "off (w - l) = e" using ch [OF in_w(3, 4)] by simp
      have "x < change" using low in_w(3) by linarith
      have whole: "change mod 1000 = 0"
      proof (rule ccontr)
        assume m: "change mod 1000 \<noteq> 0"
        define s where "s = change div 1000 * 1000"
        have "0 < change mod 1000" using m pos_mod_sign [of 1000 change] by (simp add: order_le_neq_trans)
        then have s: "s < change" "s mod 1000 = 0" using div_mult_mod_eq [of change 1000] unfolding s_def by (linarith, simp)
        have "w - l \<le> s"
        proof (rule ccontr)
          assume "\<not> w - l \<le> s"
          then have "s + 1000 \<le> w - l" using whole_seconds [OF s(2) g(2)] by simp
          moreover have "change < s + 1000" using div_bracket [of 1000 change] by (simp add: s_def mult.commute)
          ultimately show False using low by linarith
        qed
        then have "off s = e" using ch [of s] s(1) in_w ne(2) by auto
        moreover have "off change = l" using ch [of change] \<open>x < change\<close> ne(2) in_w(2) by simp
        ultimately show False using d(5) [of change, folded s_def] ne(1) by metis
      qed
      have "transitionBetween (w - l) (w - e) e z = Some change"
        by (rule bisection [OF law g(2) g(1) whole]) (use low ne ch in_w in \<open>auto split: if_splits\<close>)
      then have "instantsOf wl z = Some (change, True)" unfolding inst using g1 g2 g1n off_low ne by simp
      moreover have "w \<le> local_time off change"
      proof -
        have "off change = l" using ch [of change] \<open>x < change\<close> ne(2) in_w(2) by simp
        then show ?thesis using local_second [OF whole, of off] low by simp
      qed
      moreover have "local_time off r < w" if "r < change" for r
      proof (cases "r < x")
        case False
        then have "off r = e" using ch [of r] that ne(2) in_w(2) by simp
        then show ?thesis using local_le [of off r] that ne(2) by simp
      qed (rule far)
      ultimately show ?thesis by (auto simp: reaches_def)
    qed
  qed
qed

section \<open>The calendar repeats\<close>

lemma year_start_cycle: "year_start (y + 400) = year_start y + 146097"
proof -
  have "(y + 400 - 1) div 4 = (y - 1) div 4 + 100" "(y + 400 - 1) div 100 = (y - 1) div 100 + 4" "(y + 400 - 1) div 400 = (y - 1) div 400 + 1"
    using div_mult_self1 [of 4 "y - 1" 100] div_mult_self1 [of 100 "y - 1" 4] div_mult_self1 [of 400 "y - 1" 1] by (simp_all add: algebra_simps)
  then show ?thesis by (simp add: year_start_def)
qed

lemma leap_cycle: "leap (y + 400) = leap y"
proof -
  have "(y + 400) mod 4 = y mod 4" "(y + 400) mod 100 = y mod 100" "(y + 400) mod 400 = y mod 400"
    using mod_mult_self1 [of y 100 4] mod_mult_self1 [of y 4 100] mod_mult_self1 [of y 1 400] by simp_all
  then show ?thesis by (simp add: leap_def)
qed

lemma year_of_cycle: "year_of (n + 146097) = year_of n + 400"
proof (rule year_of_unique)
  show "year_start (year_of n + 400) \<le> n + 146097" "n + 146097 < year_start (year_of n + 400 + 1)"
    using year_of_bounds [of n] year_start_cycle [of "year_of n"] year_start_cycle [of "year_of n + 1"] by (simp_all add: add.commute add.left_commute)
qed

lemma day_cycle: "day_matches c (n * DAY + 146097 * DAY) = day_matches c (n * DAY)"
proof -
  have d: "(n * DAY + 146097 * DAY) div DAY = n + 146097" "(n * DAY) div DAY = n" by (simp_all add: DAY_def)
  have y: "utc_year (n * DAY + 146097 * DAY) = utc_year (n * DAY) + 400" unfolding utc_year_def d by (rule year_of_cycle)
  have dy: "day_of_year (n * DAY + 146097 * DAY) = day_of_year (n * DAY)"
    unfolding day_of_year_def y d year_start_cycle by simp
  have m: "utc_month (n * DAY + 146097 * DAY) = utc_month (n * DAY)" "utc_date (n * DAY + 146097 * DAY) = utc_date (n * DAY)"
    unfolding utc_month_def utc_date_def dy y leap_cycle by simp_all
  have "(n + 146097 + 4) mod 7 = (n + 4) mod 7" using mod_mult_self1 [of "n + 4" 20871 7] by (simp add: add.commute add.left_commute)
  then have "utc_day (n * DAY + 146097 * DAY) = utc_day (n * DAY)" unfolding utc_day_def d .
  then show ?thesis using m by (simp add: day_matches_def)
qed

lemma day_cycles: "day_matches c ((n + 146097 * k) * DAY) = day_matches c (n * DAY)"
proof -
  have up: "day_matches c ((n + 146097 * int j) * DAY) = day_matches c (n * DAY)" for n j
  proof (induction j)
    case (Suc j)
    have "(n + 146097 * int (Suc j)) * DAY = (n + 146097 * int j) * DAY + 146097 * DAY" by (simp add: algebra_simps)
    then show ?case using day_cycle [of c "n + 146097 * int j"] Suc by simp
  qed simp
  show ?thesis
  proof (cases "0 \<le> k")
    case True
    then show ?thesis using up [of n "nat k"] by simp
  next
    case False
    then show ?thesis using up [of "n + 146097 * k" "nat (- k)"] by simp
  qed
qed

lemma reach_from_day: "reach_from c i \<Longrightarrow> 0 \<le> i \<Longrightarrow> \<exists>n. day_matches c (n * DAY)"
proof (induction c i rule: reach_from.induct)
  case (1 c i)
  have base: "date_utc 2000 1 1 0 0 0 0 + i * 86400000 = (10957 + i) * DAY"
    by (simp add: date_utc_def day_number_def year_start_def month_start_def DAY_def algebra_simps)
  show ?case using 1 by (cases "i < CYCLE_DAYS"; cases "day_matches c ((10957 + i) * DAY)")
      (auto simp: reach_from.simps [of c i] base split: if_splits)
qed

text \<open>A day that matches is found in any cycle.\<close>

lemma day_in_cycle:
  assumes "day_matches c (n * DAY)"
  shows "\<exists>m. from_day \<le> m \<and> m < from_day + 146097 \<and> day_matches c (m * DAY)"
proof -
  define m where "m = from_day + (n - from_day) mod 146097"
  have "n - from_day = (n - from_day) div 146097 * 146097 + (n - from_day) mod 146097" by simp
  then have "m = n + 146097 * (- ((n - from_day) div 146097))" unfolding m_def by linarith
  then have "day_matches c (m * DAY)" using assms day_cycles [of c n "- ((n - from_day) div 146097)"] by simp
  then show ?thesis by (intro exI [of _ m]) (simp add: m_def)
qed

section \<open>What the parser accepts\<close>

lemma split_on_ne [simp]: "split_on c s \<noteq> []"
  by (cases s) (simp_all split: list.split)

lemma stepping_set: "1 \<le> stride \<Longrightarrow> set (stepping v most stride) \<subseteq> {v..most} \<and> (v \<le> most \<longrightarrow> stepping v most stride \<noteq> [])"
proof (induction v most stride rule: stepping.induct)
  case (1 v most stride)
  show ?case
  proof (cases "v \<le> most")
    case True
    then show ?thesis using 1 by (subst (1 2) stepping.simps) force
  next
    case False
    then show ?thesis by (subst (1 2) stepping.simps) simp
  qed
qed

lemma cron_value_in: "cron_value s f = Inr v \<Longrightarrow> cf_min f \<le> v \<and> v \<le> cf_max f"
  by (auto simp: cron_value_def split: sum.splits if_splits option.splits)

text \<open>The fields where a stepped value always has values up to the last: all but the day of the week.\<close>

lemma bounds_in:
  assumes "bounds s stepped f = Inr (v, w)" "cf_min f \<le> last_value f"
  shows "cf_min f \<le> v \<and> w \<le> cf_max f \<and> (last_value f = cf_max f \<longrightarrow> v \<le> w)"
  using assms cron_value_in [of _ f]
  by (auto simp: bounds_def last_value_def split: if_splits list.splits sum.splits)

lemma parse_item_in:
  assumes "parse_item item f = Inr vs" "cf_min f \<le> last_value f"
  shows "set vs \<subseteq> {cf_min f..cf_max f} \<and> (last_value f = cf_max f \<longrightarrow> vs \<noteq> [])"
proof -
  obtain s stride stepped v w where b: "1 \<le> stride" "bounds s stepped f = Inr (v, w)" "vs = stepping v w stride"
  proof -
    have "\<exists>stride s stepped v w. 1 \<le> stride \<and> bounds s stepped f = Inr (v, w) \<and> vs = stepping v w stride"
      using assms(1) by (fastforce simp: parse_item_def Let_def not_less split: list.splits sum.splits if_splits)
    then show thesis using that by blast
  qed
  then show ?thesis using bounds_in [OF b(2) assms(2)] stepping_set [OF b(1), of v w] by fastforce
qed

lemma parse_items_in:
  "parse_items items f = Inr vs \<Longrightarrow> cf_min f \<le> last_value f \<Longrightarrow> set vs \<subseteq> {cf_min f..cf_max f} \<and> (last_value f = cf_max f \<and> items \<noteq> [] \<longrightarrow> vs \<noteq> [])"
proof (induction items arbitrary: vs)
  case (Cons item items)
  obtain a b where ab: "parse_item item f = Inr a" "parse_items items f = Inr b" "vs = a @ b" using Cons.prems(1) by (auto split: sum.splits)
  then show ?case using parse_item_in [OF ab(1) Cons.prems(2)] Cons.IH [OF ab(2) Cons.prems(2)] by auto
qed simp

lemma parseField_in:
  assumes "parseField s f = Inr vs" "cf_min f \<le> last_value f"
  shows "vs \<subseteq> {cf_min f..cf_max f} \<and> (last_value f = cf_max f \<longrightarrow> vs \<noteq> {})"
  using assms parse_items_in [of "split_on (CHR '','') s" f] by (auto simp: parseField_def split: sum.splits)

definition cron_ok :: "cron \<Rightarrow> bool" where
  "cron_ok c = (cr_minutes c \<subseteq> {0..59} \<and> cr_minutes c \<noteq> {} \<and> cr_hours c \<subseteq> {0..23} \<and> cr_hours c \<noteq> {} \<and>
     cr_days c \<subseteq> {1..31} \<and> cr_days c \<noteq> {} \<and> cr_months c \<subseteq> {1..12} \<and> cr_months c \<noteq> {} \<and> cr_weekdays c \<subseteq> {0..6} \<and> (\<exists>n. day_matches c (n * DAY)))"

lemma parseCron_ok:
  assumes "parseCron s = Inr c"
  shows "cron_ok c"
proof -
  obtain a b d m w minutes hours days months weekdays where
    p: "parseField a MINUTE = Inr minutes" "parseField b HOUR = Inr hours" "parseField d DAY_OF_MONTH = Inr days" "parseField m MONTH = Inr months" "parseField w DAY_OF_WEEK = Inr weekdays"
    and c: "c = \<lparr>cr_minutes = minutes, cr_hours = hours, cr_days = days, cr_months = months,
             cr_weekdays = (if 7 \<in> weekdays then insert 0 (weekdays - {7}) else weekdays), cr_daysStar = starts_star d, cr_weekdaysStar = starts_star w\<rparr>"
    and r: "checkReachable c = Inr ()"
    using assms by (auto simp: parseCron_def Let_def split: list.splits sum.splits)
  have l: "last_value MINUTE = 59" "last_value HOUR = 23" "last_value DAY_OF_MONTH = 31" "last_value MONTH = 12" "last_value DAY_OF_WEEK = 6"
    by (simp_all add: last_value_def MINUTE_def HOUR_def DAY_OF_MONTH_def MONTH_def DAY_OF_WEEK_def)
  have i: "minutes \<subseteq> {0..59}" "minutes \<noteq> {}" "hours \<subseteq> {0..23}" "hours \<noteq> {}" "days \<subseteq> {1..31}" "days \<noteq> {}" "months \<subseteq> {1..12}" "months \<noteq> {}" "weekdays \<subseteq> {0..7}"
    using parseField_in [OF p(1)] parseField_in [OF p(2)] parseField_in [OF p(3)] parseField_in [OF p(4)] parseField_in [OF p(5)] l
    by (simp_all add: MINUTE_def HOUR_def DAY_OF_MONTH_def MONTH_def DAY_OF_WEEK_def)
  have "{0..7} - {7} = {0..6::int}" by auto
  then have "cr_weekdays c \<subseteq> {0..6}" using i(9) by (auto simp: c)
  moreover have "\<exists>n. day_matches c (n * DAY)" using r reach_from_day [of c 0] by (auto simp: checkReachable_def split: if_splits)
  ultimately show ?thesis using i by (simp add: cron_ok_def c)
qed

section \<open>The search\<close>

text \<open>A wall minute the cron lists.\<close>

definition cron_matches :: "cron \<Rightarrow> int \<Rightarrow> bool" where
  "cron_matches c w = (w mod 60000 = 0 \<and> day_matches c w \<and> matchesTime c (utc_hours w) (utc_minutes w))"

definition slot_at :: "int \<Rightarrow> int \<times> int \<Rightarrow> int" where
  "slot_at n slot = n * DAY + fst slot * 3600000 + snd slot * 60000"

text \<open>The slots of a day are its minutes, in order.\<close>

lemma slots_order: "map (\<lambda>(h, m). 60 * h + m) slots = [0..1439]"
  by code_simp

lemma slots_set: "(h, m) \<in> set slots \<longleftrightarrow> 0 \<le> h \<and> h < 24 \<and> 0 \<le> m \<and> m < 60"
  by (auto simp: slots_def intro!: bexI [of _ h])

lemma slots_nth: "i < length slots \<Longrightarrow> slot_at n (slots ! i) = n * DAY + 60000 * int i"
proof -
  assume i: "i < length slots"
  have "length slots = length [0..1439]" using arg_cong [OF slots_order, of length] by simp
  then have "(case slots ! i of (h, m) \<Rightarrow> 60 * h + m) = int i"
    using i arg_cong [OF slots_order, of "\<lambda>xs. xs ! i"] by simp
  then show ?thesis by (auto simp: slot_at_def split: prod.splits)
qed

lemma slot_fields:
  assumes "(h, m) \<in> set slots"
  shows "slot_at n (h, m) div DAY = n" "utc_hours (slot_at n (h, m)) = h" "utc_minutes (slot_at n (h, m)) = m" "slot_at n (h, m) mod 60000 = 0"
proof -
  have "slot_at n (h, m) div DAY = n \<and> utc_hours (slot_at n (h, m)) = h \<and> utc_minutes (slot_at n (h, m)) = m \<and> utc_seconds (slot_at n (h, m)) = 0 \<and> utc_millis (slot_at n (h, m)) = 0"
    by (rule clock_of) (use assms in \<open>auto simp: slots_set slot_at_def\<close>)
  then show "slot_at n (h, m) div DAY = n" "utc_hours (slot_at n (h, m)) = h" "utc_minutes (slot_at n (h, m)) = m" by auto
  show "slot_at n (h, m) mod 60000 = 0" by (simp add: slot_at_def DAY_def mod_simps)
qed

lemma minute_slot:
  assumes "w mod 60000 = 0"
  shows "\<exists>slot \<in> set slots. w = slot_at (w div DAY) slot"
proof -
  have "w = w div DAY * DAY + utc_hours w * 3600000 + utc_minutes w * 60000 + w mod 60000"
    using clock_split [of w] div_mult_mod_eq [of w DAY] by linarith
  then show ?thesis using assms clock_bounds [of w] by (intro bexI [of _ "(utc_hours w, utc_minutes w)"]) (auto simp: slot_at_def slots_set)
qed

lemma day_fields: "t div DAY = n \<Longrightarrow> day_matches c t = day_matches c (n * DAY)"
proof -
  assume t: "t div DAY = n"
  have d: "(n * DAY) div DAY = n" by (simp add: DAY_def)
  have "utc_year t = utc_year (n * DAY)" "utc_day t = utc_day (n * DAY)" unfolding utc_year_def utc_day_def t d by simp_all
  moreover from this have "day_of_year t = day_of_year (n * DAY)" unfolding day_of_year_def t d by simp
  ultimately show ?thesis unfolding day_matches_def utc_month_def utc_date_def by simp
qed

text \<open>A slot the search stops at: listed, not before the start, and first reached after \<open>t\<close>.\<close>

definition hits :: "cron \<Rightarrow> (int \<Rightarrow> int) \<Rightarrow> int \<Rightarrow> int \<Rightarrow> int \<Rightarrow> bool" where
  "hits c off t start w = (matchesTime c (utc_hours w) (utc_minutes w) \<and> start \<le> w \<and> (\<exists>s. reaches off w s \<and> t < s))"

lemma try_slots_find:
  assumes law: "zone_law z off" and sub: "set sl \<subseteq> set slots"
  shows "(case find (\<lambda>slot. hits c off t start (slot_at n slot)) sl of
      None \<Rightarrow> try_slots c z t start (utc_year (n * DAY)) (utc_month (n * DAY)) (utc_date (n * DAY)) sl = Some None
    | Some slot \<Rightarrow> \<exists>u. try_slots c z t start (utc_year (n * DAY)) (utc_month (n * DAY)) (utc_date (n * DAY)) sl = Some (Some u) \<and> reaches off (slot_at n slot) u \<and> t < u)"
  using sub
proof (induction sl)
  case (Cons slot sl)
  obtain h m where slot: "slot = (h, m)" by (cases slot)
  let ?tried = "try_slots c z t start (utc_year (n * DAY)) (utc_month (n * DAY)) (utc_date (n * DAY))"
  let ?w = "slot_at n slot"
  have f: "utc_hours ?w = h" "utc_minutes ?w = m" "?w mod 60000 = 0" using slot_fields [of h m n] Cons.prems by (simp_all add: slot)
  have dn: "day_number (utc_year (n * DAY)) (utc_month (n * DAY)) (utc_date (n * DAY)) = n" using utc_date_number [of "n * DAY"] by (simp add: DAY_def)
  have utc: "date_utc (utc_year (n * DAY)) (utc_month (n * DAY)) (utc_date (n * DAY)) h m 0 0 = ?w"
    by (simp add: date_utc_def dn slot_at_def slot)
  have "?w mod 1000 = 0" using f(3) mod_mod_cancel [of 1000 60000 ?w] by simp
  then obtain s gap where s: "instantsOf \<lparr>wa_year = utc_year (n * DAY), wa_month = utc_month (n * DAY), wa_day = utc_date (n * DAY), wa_hour = h, wa_minute = m, wa_second = 0\<rparr> z = Some (s, gap)" "reaches off ?w s"
    using instantsOf_reaches [OF law, of "\<lparr>wa_year = utc_year (n * DAY), wa_month = utc_month (n * DAY), wa_day = utc_date (n * DAY), wa_hour = h, wa_minute = m, wa_second = 0\<rparr>" ?w]
    by (auto simp: asUtc_def utc)
  have hit: "hits c off t start ?w \<longleftrightarrow> matchesTime c h m \<and> start \<le> ?w \<and> t < s"
    using s(2) reaches_unique by (auto simp: hits_def f)
  have step: "?tried (slot # sl) = (if \<not> matchesTime c h m \<or> ?w < start then ?tried sl else if s > t then Some (Some s) else ?tried sl)"
    unfolding slot by (simp add: utc [unfolded slot] s(1) SKIP_BEFORE_MS_def)
  show ?case
  proof (cases "hits c off t start ?w")
    case True
    then show ?thesis unfolding step using hit s(2) by auto
  next
    case False
    then show ?thesis unfolding step using hit Cons by auto
  qed
qed simp

text \<open>Of the minutes of a day, \<open>find\<close> stops at the first.\<close>

lemma find_first_slot:
  assumes "find (\<lambda>slot. P (slot_at n slot)) slots = Some slot"
  shows "slot \<in> set slots" "P (slot_at n slot)" "\<And>w. w mod 60000 = 0 \<Longrightarrow> w div DAY = n \<Longrightarrow> w < slot_at n slot \<Longrightarrow> \<not> P w"
proof -
  obtain i where i: "i < length slots" "P (slot_at n (slots ! i))" "slot = slots ! i" "\<And>j. j < i \<Longrightarrow> \<not> P (slot_at n (slots ! j))"
    using assms by (auto simp: find_Some_iff)
  show "slot \<in> set slots" "P (slot_at n slot)" using i by auto
  fix w assume w: "w mod 60000 = 0" "w div DAY = n" "w < slot_at n slot"
  obtain j where j: "j < length slots" "w = slot_at n (slots ! j)" using minute_slot [OF w(1)] w(2) by (auto simp: in_set_conv_nth)
  then have "j < i" using w(3) i(1, 3) by (simp add: slots_nth)
  then show "\<not> P w" using i(4) j(2) by simp
qed

lemma search_first:
  assumes law: "zone_law z off" and start: "S = local_time off s0"
  shows "0 \<le> i \<Longrightarrow> (\<exists>w. cron_matches c w \<and> hits c off t S w \<and> S div DAY + i \<le> w div DAY \<and> w div DAY < S div DAY + MAX_DAYS) \<Longrightarrow>
    \<exists>u w. search_days c z t (wall_at S) S i = Some (Some u) \<and> cron_matches c w \<and> reaches off w u \<and> t < u \<and>
      (\<forall>v. cron_matches c v \<and> hits c off t S v \<and> S div DAY + i \<le> v div DAY \<longrightarrow> w \<le> v)"
proof (induction "nat (MAX_DAYS - i)" arbitrary: i rule: less_induct)
  case less
  define n where "n = S div DAY + i"
  obtain w0 where w0: "cron_matches c w0" "hits c off t S w0" "n \<le> w0 div DAY" "w0 div DAY < S div DAY + MAX_DAYS" using less.prems(2) by (auto simp: n_def)
  have i: "i < MAX_DAYS" using w0(3, 4) by (simp add: n_def)
  have date: "date_utc (wa_year (wall_at S)) (wa_month (wall_at S)) (wa_day (wall_at S) + i) 0 0 0 0 = n * DAY"
    using utc_date_number [of S] by (simp add: wall_at_def date_utc_def day_number_def n_def)
  have step: "search_days c z t (wall_at S) S i = (if \<not> day_matches c (n * DAY) then search_days c z t (wall_at S) S (i + 1)
      else (case try_slots c z t S (utc_year (n * DAY)) (utc_month (n * DAY)) (utc_date (n * DAY)) slots of
             None \<Rightarrow> None
           | Some (Some first) \<Rightarrow> Some (Some first)
           | Some None \<Rightarrow> search_days c z t (wall_at S) S (i + 1)))"
    using i unfolding search_days.simps [of c z t "wall_at S" S i] date Let_def day_matches_def by simp
  have rest: "\<exists>u w. search_days c z t (wall_at S) S (i + 1) = Some (Some u) \<and> cron_matches c w \<and> reaches off w u \<and> t < u \<and>
      (\<forall>v. cron_matches c v \<and> hits c off t S v \<and> S div DAY + i \<le> v div DAY \<longrightarrow> w \<le> v)"
    if none: "\<And>v. cron_matches c v \<Longrightarrow> v div DAY = n \<Longrightarrow> \<not> hits c off t S v"
  proof -
    have after: "v div DAY \<noteq> n" if "cron_matches c v" "hits c off t S v" for v using none that by blast
    have "\<exists>w. cron_matches c w \<and> hits c off t S w \<and> S div DAY + (i + 1) \<le> w div DAY \<and> w div DAY < S div DAY + MAX_DAYS"
      using w0 after [OF w0(1, 2)] by (intro exI [of _ w0]) (simp add: n_def)
    then obtain u w where uw: "search_days c z t (wall_at S) S (i + 1) = Some (Some u)" "cron_matches c w" "reaches off w u" "t < u"
      "\<And>v. cron_matches c v \<and> hits c off t S v \<and> S div DAY + (i + 1) \<le> v div DAY \<Longrightarrow> w \<le> v"
      using less.hyps [of "i + 1"] less.prems(1) i by force
    have "w \<le> v" if "cron_matches c v" "hits c off t S v" "S div DAY + i \<le> v div DAY" for v
      using uw(5) [of v] that after [OF that(1, 2)] by (simp add: n_def)
    then show ?thesis using uw by blast
  qed
  show ?case
  proof (cases "day_matches c (n * DAY)")
    case False
    have "\<not> hits c off t S v" if "cron_matches c v" "v div DAY = n" for v
      using that False day_fields [OF that(2), of c] by (simp add: cron_matches_def)
    then show ?thesis using rest False unfolding step by simp
  next
    case True
    note tried = try_slots_find [OF law subset_refl, of c t S n]
    show ?thesis
    proof (cases "find (\<lambda>slot. hits c off t S (slot_at n slot)) slots")
      case None
      have "\<not> hits c off t S v" if v: "cron_matches c v" "v div DAY = n" for v
      proof -
        obtain slot where "slot \<in> set slots" "v = slot_at n slot" using minute_slot [of v] v by (auto simp: cron_matches_def)
        then show ?thesis using None unfolding find_None_iff by blast
      qed
      then show ?thesis using rest True tried None unfolding step by simp
    next
      case (Some slot)
      note first = find_first_slot [where P = "hits c off t S", OF Some]
      obtain u where u: "try_slots c z t S (utc_year (n * DAY)) (utc_month (n * DAY)) (utc_date (n * DAY)) slots = Some (Some u)" "reaches off (slot_at n slot) u" "t < u"
        using tried Some by auto
      obtain h m where slot: "slot = (h, m)" by (cases slot)
      note f = slot_fields [of h m n, folded slot, OF first(1)]
      have match: "cron_matches c (slot_at n slot)"
        using first(2) f True day_fields [OF f(1), of c] by (simp add: cron_matches_def hits_def)
      have least: "slot_at n slot \<le> v" if "cron_matches c v" "hits c off t S v" "S div DAY + i \<le> v div DAY" for v
      proof (cases "v div DAY = n")
        case True
        then show ?thesis using first(3) [of v] that by (force simp: cron_matches_def)
      next
        case False
        then have "slot_at n slot div DAY < v div DAY" using that(3) f(1) by (simp add: n_def)
        then show ?thesis using zdiv_mono1 [of v "slot_at n slot" DAY] by (force simp: DAY_def)
      qed
      show ?thesis unfolding step using True u match least by (intro exI [of _ u] exI [of _ "slot_at n slot"]) simp
    qed
  qed
qed

text \<open>C34. Every cron the parser accepts has a next occurrence in every zone, found within the bound, and it is the
  least: the first instant after \<open>t\<close> at which the zone's clock reaches a minute the cron lists, where a minute
  the clocks skip counts at the first instant after the gap, and one they repeat at its first reading.\<close>

theorem next_is_least:
  assumes "parseCron s = Inr c" "zone_law z off"
  shows "\<exists>u. nextAfter c z t = Some (Inr u) \<and> t < u \<and> (\<exists>w. cron_matches c w \<and> reaches off w u) \<and>
    (\<forall>w v. cron_matches c w \<and> reaches off w v \<and> t < v \<longrightarrow> u \<le> v)"
proof -
  have ok: "cron_ok c" by (rule parseCron_ok [OF assms(1)])
  define S where "S = local_time off t"
  have wall: "wallOf t z = wall_at S" by (simp add: S_def wallOf_law [OF assms(2)])
  have sS: "S mod 1000 = 0" unfolding S_def by (rule local_whole [OF assms(2)])
  have startUtc: "date_utc (wa_year (wall_at S)) (wa_month (wall_at S)) (wa_day (wall_at S)) (wa_hour (wall_at S)) (wa_minute (wall_at S)) (wa_second (wall_at S)) 0 = S"
    using asUtc_wall [OF sS] by (simp add: asUtc_def)
  have call: "nextAfter c z t = Some (Inr u)" if "search_days c z t (wall_at S) S 0 = Some (Some u)" for u
    unfolding nextAfter_def wall Let_def startUtc that by simp
  have reach: "\<exists>s. reaches off w s" if "w mod 60000 = 0" for w
  proof -
    have "w mod 1000 = 0" using that mod_mod_cancel [of 1000 60000 w] by simp
    then obtain s gap where "reaches off w s" using instantsOf_reaches [OF assms(2) asUtc_wall [of w]] by metis
    then show ?thesis by (rule exI)
  qed
  obtain n0 where "day_matches c (n0 * DAY)" using ok by (auto simp: cron_ok_def)
  then obtain n where n: "S div DAY + 4 \<le> n" "n < S div DAY + 4 + 146097" "day_matches c (n * DAY)" using day_in_cycle by blast
  obtain h m where hm: "h \<in> cr_hours c" "m \<in> cr_minutes c" using ok by (auto simp: cron_ok_def)
  then have slot: "(h, m) \<in> set slots" using ok by (auto simp: cron_ok_def slots_set)
  note f = slot_fields [OF slot, of n]
  let ?w = "slot_at n (h, m)"
  have match: "cron_matches c ?w" using f hm n(3) day_fields [OF f(1), of c] by (simp add: cron_matches_def matchesTime_def)
  have late: "S + 3 * DAY \<le> ?w" using n(1) div_bracket [of DAY S] slot by (simp add: slot_at_def slots_set DAY_def)
  have "hits c off t S ?w"
  proof -
    obtain s where s: "reaches off ?w s" using reach [OF f(4)] by blast
    have "t < s"
    proof (rule ccontr)
      assume "\<not> t < s"
      then have "?w \<le> t + DAY" using s local_le [of off s] zone_lawD(4) [OF assms(2), of s] by (simp add: reaches_def)
      moreover have "t - DAY - 1000 < S" using local_ge [of t off] zone_lawD(3) [OF assms(2), of t] by (simp add: S_def)
      ultimately show False using late by (simp add: DAY_def)
    qed
    then show ?thesis using s late f hm by (auto simp: hits_def matchesTime_def DAY_def)
  qed
  then have "\<exists>w. cron_matches c w \<and> hits c off t S w \<and> S div DAY + 0 \<le> w div DAY \<and> w div DAY < S div DAY + MAX_DAYS"
    using match n(1, 2) f(1) by (intro exI [of _ ?w]) (simp add: MAX_DAYS_def CYCLE_DAYS_def)
  then obtain u w where uw: "search_days c z t (wall_at S) S 0 = Some (Some u)" "cron_matches c w" "reaches off w u" "t < u"
    "\<And>v. cron_matches c v \<Longrightarrow> hits c off t S v \<Longrightarrow> S div DAY \<le> v div DAY \<Longrightarrow> w \<le> v"
    using search_first [OF assms(2) S_def, of 0 c t] by auto
  have "u \<le> v" if v: "cron_matches c x" "reaches off x v" "t < v" for x v
  proof -
    have "S < x" using v(2, 3) by (auto simp: reaches_def S_def)
    then have "hits c off t S x" "S div DAY \<le> x div DAY" using v by (auto simp: hits_def cron_matches_def DAY_def intro: zdiv_mono1)
    then show ?thesis using uw(5) [OF v(1)] reaches_mono [OF uw(3) v(2)] by blast
  qed
  then show ?thesis using uw by (auto simp: call)
qed

text \<open>Half past midnight on New Year's Day, in a zone whose clocks jump from 0:00 to 1:00 on the first of January 1970.\<close>

definition new_year :: cron where
  "new_year = \<lparr>cr_minutes = {30}, cr_hours = {0}, cr_days = {1}, cr_months = {1}, cr_weekdays = {0, 1, 2, 3, 4, 5, 6},
     cr_daysStar = False, cr_weekdaysStar = True\<rparr>"

definition jumping :: "int \<Rightarrow> int" where
  "jumping s = (if s < 0 then 0 else 3600000)"

lemma jumping_law: "zone_law (\<lambda>s. wall_at (local_time jumping s)) jumping"
proof -
  have "jumping s = (if s < 0 then jumping x else jumping (x + 2 * DAY))" if "x \<le> s" "s \<le> x + 2 * DAY" for x s
    using that by (simp add: jumping_def)
  then have "\<exists>change. \<forall>s. x \<le> s \<and> s \<le> x + 2 * DAY \<longrightarrow> jumping s = (if s < change then jumping x else jumping (x + 2 * DAY))" for x
    by blast
  moreover have "s div 1000 * 1000 < 0 \<longleftrightarrow> s < 0" for s :: int
    by (simp add: mult_less_0_iff pos_imp_zdiv_neg_iff)
  ultimately show ?thesis unfolding zone_law_def by (simp add: jumping_def DAY_def)
qed

lemma new_year_read: "parseCron ''30 0 1 1 *'' = Inr new_year"
  by code_simp

lemma new_year_skipped: "cron_matches new_year 1800000" "reaches jumping 1800000 0"
proof -
  show "cron_matches new_year 1800000" by code_simp
  have "r div 1000 * 1000 \<le> r" for r :: int using div_mult_mod_eq [of r 1000] pos_mod_sign [of 1000 r] by linarith
  then show "reaches jumping 1800000 0" by (auto simp: reaches_def local_time_def jumping_def intro: le_less_trans)
qed

theorem next_is_least_witness: "nextAfter new_year (\<lambda>s. wall_at (local_time jumping s)) (- 1) = Some (Inr 0)"
proof -
  obtain u where "nextAfter new_year (\<lambda>s. wall_at (local_time jumping s)) (- 1) = Some (Inr u)" "- 1 < u"
    "\<forall>w v. cron_matches new_year w \<and> reaches jumping w v \<and> - 1 < v \<longrightarrow> u \<le> v"
    using next_is_least [OF new_year_read jumping_law, of "- 1"] by blast
  then show ?thesis using new_year_skipped by force
qed

text \<open>A step that starts at 7, which the field reads as Sunday, lists no day at all.\<close>

lemma sunday_step_lists_nothing: "parseField ''7/1'' DAY_OF_WEEK = Inr {}" "parseField ''0/1'' DAY_OF_WEEK = Inr {0, 1, 2, 3, 4, 5, 6}"
  by code_simp+

end
