(* ===== verification/Backup_Lock.thy ===== *)
theory Backup_Lock
  imports Backup_Repo
begin

text \<open>
  The lock of a backup definition in one repository: \<open>packages/backup/src/lock/lock.ts\<close> and
  \<open>lock/run-locks.ts\<close>. A lock is a file of its own; a writer puts it, then looks for others, and gives up
  when it finds one that may still be held. Each stretch of a call between two awaits is a function of its
  writer, and \<open>lstep\<close> runs the writers, the repository and the time in any order.
\<close>

section \<open>A lock file\<close>

datatype lock_op = OpCreate | OpPrune

record lock_record =
  lr_id :: string
  lr_op :: lock_op
  lr_expiresAt :: string

definition LOCK_FORMAT :: string where "LOCK_FORMAT = ''nxgt-backup-lock/1''"
definition LOCKS :: string where "LOCKS = ''locks''"
definition LOCK_MAX_BYTES :: nat where "LOCK_MAX_BYTES = 4096"

definition op_text :: "lock_op \<Rightarrow> string" where
  "op_text op = (case op of OpCreate \<Rightarrow> ''create'' | OpPrune \<Rightarrow> ''prune'')"

definition op_of :: "jv option \<Rightarrow> lock_op option" where
  "op_of v = (if v = Some (JText ''create'') then Some OpCreate else if v = Some (JText ''prune'') then Some OpPrune else None)"

definition lock_json :: "lock_record \<Rightarrow> jv" where
  "lock_json r = JRec [(''format'', JText LOCK_FORMAT), (''id'', JText (lr_id r)), (''operation'', JText (op_text (lr_op r))), (''expiresAt'', JText (lr_expiresAt r))]"

text \<open>\<open>Date.parse\<close> reads what \<open>iso_time\<close> does, the dates the package writes.\<close>

definition readLock :: "outside \<Rightarrow> string \<Rightarrow> lock_record option" where
  "readLock w s = (case o_json w s of None \<Rightarrow> None
     | Some v \<Rightarrow> if \<not> is_record v then None
         else if jget v ''format'' \<noteq> Some (JText LOCK_FORMAT) \<or> \<not> isBackupId (jget v ''id'') then None
         else (case (op_of (jget v ''operation''), text_of (jget v ''expiresAt'')) of
             (Some op, Some e) \<Rightarrow> if iso_time e = None then None
               else Some \<lparr>lr_id = or_text (text_of (jget v ''id'')), lr_op = op, lr_expiresAt = e\<rparr>
           | _ \<Rightarrow> None))"

definition lockKey :: "bctx \<Rightarrow> string \<Rightarrow> string" where
  "lockKey ctx i = x_backup ctx @ ''/'' @ LOCKS @ ''/'' @ i @ ''.json''"

definition lock_text :: "outside \<Rightarrow> lock_record \<Rightarrow> string" where
  "lock_text w r = o_text w (lock_json r) @ [CHR 0x0A]"

text \<open>\<open>writeLock\<close>, as it reaches the repository.\<close>

definition writeLock :: "outside \<Rightarrow> bctx \<Rightarrow> lock_record \<Rightarrow> repo \<Rightarrow> repo" where
  "writeLock w ctx r rp = repo_put (lockKey ctx (lr_id r)) (lock_text w r) rp"

text \<open>\<open>forget\<close>, whether the repository does it or not.\<close>

definition forget_lock :: "bool \<Rightarrow> string \<Rightarrow> repo \<Rightarrow> repo" where
  "forget_lock did k rp = (if did then repo_delete k rp else rp)"

text \<open>What \<open>stillHeld\<close> makes of what it got under a key: no lock any more, one still held, or a stale one, which it
  then deletes.\<close>

datatype seen = Gone | Live | Stale

definition lock_seen :: "outside \<Rightarrow> bctx \<Rightarrow> int \<Rightarrow> string option \<Rightarrow> seen" where
  "lock_seen w ctx now found = (case found of None \<Rightarrow> Gone
     | Some bytes \<Rightarrow> (case readLock w (upTo LOCK_MAX_BYTES bytes) of None \<Rightarrow> Live
         | Some r \<Rightarrow> (case iso_time (lr_expiresAt r) of None \<Rightarrow> Live
             | Some e \<Rightarrow> if e + x_lease ctx \<ge> now then Live else Stale)))"

section \<open>A writer\<close>

text \<open>
  Where an \<open>acquireLock\<close> is: its put under way; its put done, before the listing answers; looking at the
  keys left; deleting a stale lock before the keys left; forgetting its own lock before it throws; holding the
  lease; releasing it; done.
\<close>

datatype phase = Writing | Listing | Looking "string list" | Dropping string "string list" | GivingUp berr
  | Holding | Releasing | Finished "berr option"

text \<open>A writer: its record, its phase, its put under way (and whether it has reached the repository), the deadline
  that put would give, its deadline, the wall time it compares with, and \<open>lost\<close>.\<close>

record writer =
  wr_record :: lock_record
  wr_phase :: phase
  wr_put :: "(lock_record \<times> bool) option"
  wr_next :: int
  wr_deadline :: int
  wr_now :: int
  wr_lost :: bool

text \<open>The first stretch of \<open>acquireLock\<close>: \<open>clock\<close> is \<open>performance.now()\<close>, \<open>wall\<close> is \<open>Date.now()\<close>.\<close>

definition acquireLock :: "bctx \<Rightarrow> string \<Rightarrow> lock_op \<Rightarrow> int \<Rightarrow> int \<Rightarrow> writer" where
  "acquireLock ctx i op clock wall = (let r = \<lparr>lr_id = i, lr_op = op, lr_expiresAt = iso_string (wall + x_lease ctx)\<rparr> in
     \<lparr>wr_record = r, wr_phase = Writing, wr_put = Some (r, False), wr_next = clock + x_lease ctx, wr_deadline = clock + x_lease ctx, wr_now = wall, wr_lost = False\<rparr>)"

text \<open>\<open>held()\<close>, with what it leaves.\<close>

definition is_held :: "int \<Rightarrow> writer \<Rightarrow> bool \<times> writer" where
  "is_held clock u = (if \<not> wr_lost u \<and> clock \<ge> wr_deadline u then (False, u\<lparr>wr_lost := True\<rparr>) else (\<not> wr_lost u, u))"

text \<open>The put resolved: \<open>refuseOthers\<close> begins with the wall time of now; a renewal raises the deadline if the lease
  is still held.\<close>

definition put_resolved :: "int \<Rightarrow> int \<Rightarrow> writer \<Rightarrow> writer" where
  "put_resolved clock wall u = (if wr_phase u = Writing then u\<lparr>wr_phase := Listing, wr_put := None, wr_now := wall\<rparr>
     else (case is_held clock u of (ok, v) \<Rightarrow> (if ok then v\<lparr>wr_deadline := max (wr_deadline v) (wr_next v)\<rparr> else v)\<lparr>wr_put := None\<rparr>))"

definition put_rejected :: "berr \<Rightarrow> writer \<Rightarrow> writer" where
  "put_rejected e u = (if wr_phase u = Writing then u\<lparr>wr_phase := GivingUp e, wr_put := None\<rparr> else u\<lparr>wr_put := None\<rparr>)"

definition locked_error :: "bctx \<Rightarrow> string \<Rightarrow> string \<Rightarrow> berr" where
  "locked_error ctx call n = BErr LOCKED None (Some n)
     (call @ '' on \"'' @ x_backup ctx @ ''\": another create, prune or hold has the lock (repository \"'' @ n @ ''\")'')"

text \<open>One key of the listing, with what is under it: \<open>refuseOthers\<close> and \<open>stillHeld\<close>.\<close>

definition refuseOthers :: "outside \<Rightarrow> bctx \<Rightarrow> string \<Rightarrow> string \<Rightarrow> string option \<Rightarrow> string \<Rightarrow> string list \<Rightarrow> writer \<Rightarrow> writer" where
  "refuseOthers w ctx call n found k ks u =
     (if k = lockKey ctx (lr_id (wr_record u)) \<or> \<not> ends_with ''.json'' k then u\<lparr>wr_phase := Looking ks\<rparr>
      else (case lock_seen w ctx (wr_now u) found of
          Gone \<Rightarrow> u\<lparr>wr_phase := Looking ks\<rparr>
        | Live \<Rightarrow> u\<lparr>wr_phase := GivingUp (locked_error ctx call n)\<rparr>
        | Stale \<Rightarrow> u\<lparr>wr_phase := Dropping k ks\<rparr>))"

text \<open>The timer of \<open>renewing\<close>.\<close>

definition renewing :: "bctx \<Rightarrow> int \<Rightarrow> int \<Rightarrow> writer \<Rightarrow> writer" where
  "renewing ctx clock wall u = (if wr_put u \<noteq> None then u
     else (case is_held clock u of (ok, v) \<Rightarrow> if \<not> ok then v
         else v\<lparr>wr_next := clock + x_lease ctx, wr_put := Some ((wr_record v)\<lparr>lr_expiresAt := iso_string (wall + x_lease ctx)\<rparr>, False)\<rparr>))"

section \<open>The writers of a repository\<close>

record lock_sys =
  ls_time :: int
  ls_repo :: repo
  ls_writers :: "string \<Rightarrow> writer option"

definition put_writer :: "string \<Rightarrow> writer \<Rightarrow> lock_sys \<Rightarrow> lock_sys" where
  "put_writer i u s = s\<lparr>ls_writers := (ls_writers s)(i \<mapsto> u)\<rparr>"

definition lock_start :: "repo \<Rightarrow> lock_sys" where
  "lock_start rp = \<lparr>ls_time = 0, ls_repo = rp, ls_writers = Map.empty\<rparr>"

text \<open>
  One step. \<open>wall i t\<close> is what the wall clock of writer \<open>i\<close> reads at \<open>t\<close>; the monotonic clocks go at the rate of
  time. An id is its writer's alone, new to the repository and to whoever looks at it. A put reaches the repository before it resolves, before it rejects, or
  never; a listing holds every key there, and possibly others; a delete may fail; whoever else writes there
  leaves the locks' keys alone. A writer that stops for good just takes no step.
\<close>

inductive lstep :: "outside \<Rightarrow> bctx \<Rightarrow> (string \<Rightarrow> int \<Rightarrow> int) \<Rightarrow> lock_sys \<Rightarrow> lock_sys \<Rightarrow> bool" for w ctx wall where
  passes: "ls_time s \<le> t \<Longrightarrow> lstep w ctx wall s (s\<lparr>ls_time := t\<rparr>)"
| others: "\<forall>i. ls_writers s i \<noteq> None \<longrightarrow> repo_get rp (lockKey ctx i) = repo_get (ls_repo s) (lockKey ctx i) \<Longrightarrow> lstep w ctx wall s (s\<lparr>ls_repo := rp\<rparr>)"
| begins: "ls_writers s i = None \<Longrightarrow> id_text i \<Longrightarrow> repo_get (ls_repo s) (lockKey ctx i) = None \<Longrightarrow>
    \<forall>j u ks. ls_writers s j = Some u \<longrightarrow> wr_phase u \<noteq> Dropping (lockKey ctx i) ks \<Longrightarrow>
    lstep w ctx wall s (put_writer i (acquireLock ctx i op (ls_time s) (wall i (ls_time s))) s)"
| lands: "ls_writers s i = Some u \<Longrightarrow> wr_put u = Some (r, False) \<Longrightarrow>
    lstep w ctx wall s (put_writer i (u\<lparr>wr_put := Some (r, True)\<rparr>) (s\<lparr>ls_repo := writeLock w ctx r (ls_repo s)\<rparr>))"
| resolves: "ls_writers s i = Some u \<Longrightarrow> wr_put u = Some (r, True) \<Longrightarrow>
    lstep w ctx wall s (put_writer i (put_resolved (ls_time s) (wall i (ls_time s)) u) s)"
| rejects: "ls_writers s i = Some u \<Longrightarrow> wr_put u = Some p \<Longrightarrow> lstep w ctx wall s (put_writer i (put_rejected e u) s)"
| lists: "ls_writers s i = Some u \<Longrightarrow> wr_phase u = Listing \<Longrightarrow> set (repo_list (ls_repo s) (x_backup ctx @ ''/'' @ LOCKS @ ''/'')) \<subseteq> set ks \<Longrightarrow>
    lstep w ctx wall s (put_writer i (u\<lparr>wr_phase := Looking ks\<rparr>) s)"
| breaks: "ls_writers s i = Some u \<Longrightarrow> wr_phase u = Listing \<or> wr_phase u = Looking ks \<Longrightarrow>
    lstep w ctx wall s (put_writer i (u\<lparr>wr_phase := GivingUp e\<rparr>) s)"
| looks: "ls_writers s i = Some u \<Longrightarrow> wr_phase u = Looking (k # ks) \<Longrightarrow>
    lstep w ctx wall s (put_writer i (refuseOthers w ctx call n (repo_get (ls_repo s) k) k ks u) s)"
| drops: "ls_writers s i = Some u \<Longrightarrow> wr_phase u = Dropping k ks \<Longrightarrow>
    lstep w ctx wall s (put_writer i (u\<lparr>wr_phase := Looking ks\<rparr>) (s\<lparr>ls_repo := forget_lock did k (ls_repo s)\<rparr>))"
| holds: "ls_writers s i = Some u \<Longrightarrow> wr_phase u = Looking [] \<Longrightarrow> lstep w ctx wall s (put_writer i (u\<lparr>wr_phase := Holding\<rparr>) s)"
| renews: "ls_writers s i = Some u \<Longrightarrow> wr_phase u = Holding \<Longrightarrow>
    lstep w ctx wall s (put_writer i (renewing ctx (ls_time s) (wall i (ls_time s)) u) s)"
| asks: "ls_writers s i = Some u \<Longrightarrow> wr_phase u = Holding \<Longrightarrow> lstep w ctx wall s (put_writer i (snd (is_held (ls_time s) u)) s)"
| releases: "ls_writers s i = Some u \<Longrightarrow> wr_phase u = Holding \<Longrightarrow> lstep w ctx wall s (put_writer i (u\<lparr>wr_phase := Releasing\<rparr>) s)"
| forgets: "ls_writers s i = Some u \<Longrightarrow> (wr_phase u = Releasing \<and> wr_put u = None \<and> e = None) \<or> (\<exists>b. wr_phase u = GivingUp b \<and> e = Some b) \<Longrightarrow>
    lstep w ctx wall s (put_writer i (u\<lparr>wr_phase := Finished e\<rparr>) (s\<lparr>ls_repo := forget_lock did (lockKey ctx i) (ls_repo s)\<rparr>))"

inductive lock_reachable :: "outside \<Rightarrow> bctx \<Rightarrow> (string \<Rightarrow> int \<Rightarrow> int) \<Rightarrow> lock_sys \<Rightarrow> bool" for w ctx wall where
  start: "lock_reachable w ctx wall (lock_start rp)"
| step: "lock_reachable w ctx wall s \<Longrightarrow> lstep w ctx wall s t \<Longrightarrow> lock_reachable w ctx wall t"

text \<open>A writer that has the lock, and knows it.\<close>

definition holding :: "lock_sys \<Rightarrow> string \<Rightarrow> bool" where
  "holding s i = (case ls_writers s i of None \<Rightarrow> False | Some u \<Rightarrow> wr_phase u = Holding \<and> fst (is_held (ls_time s) u))"

section \<open>A call around its locks\<close>

text \<open>\<open>lockAll\<close>, by what each repository's \<open>acquireLock\<close> gave; \<open>withLock\<close>, with the lease it released.\<close>

definition lockAll :: "(string \<Rightarrow> 'l bres) \<Rightarrow> string list \<Rightarrow> (string \<times> 'l) list \<times> (string \<times> berr) list" where
  "lockAll acquire names = (List.map_filter (\<lambda>n. case acquire n of Inr l \<Rightarrow> Some (n, l) | Inl e \<Rightarrow> None) names,
     List.map_filter (\<lambda>n. case acquire n of Inl e \<Rightarrow> Some (n, e) | Inr l \<Rightarrow> None) names)"

definition withLease :: "'l bres \<Rightarrow> ('l \<Rightarrow> 'a bres) \<Rightarrow> 'a bres \<times> 'l option" where
  "withLease acquired work = (case acquired of Inl e \<Rightarrow> (Inl e, None) | Inr l \<Rightarrow> (work l, Some l))"

section \<open>One at a time\<close>

text \<open>
  The contract: at any two moments up to \<open>T\<close> two wall clocks disagree by at most one lease, however they step;
  and the lock files print and parse back, below the bytes read of one.
\<close>

definition clocks_agree :: "bctx \<Rightarrow> (string \<Rightarrow> int \<Rightarrow> int) \<Rightarrow> int \<Rightarrow> bool" where
  "clocks_agree ctx wall T = ((\<forall>i j t u. 0 \<le> t \<and> t \<le> T \<and> 0 \<le> u \<and> u \<le> T \<longrightarrow> wall j u - wall i t \<le> u - t + x_lease ctx) \<and>
     (\<forall>i t. 0 \<le> t \<and> t \<le> T \<longrightarrow> year_4 (wall i t + x_lease ctx)))"

definition lock_law :: "outside \<Rightarrow> bool" where
  "lock_law w = (\<forall>r. id_text (lr_id r) \<and> length (lr_expiresAt r) = 24 \<longrightarrow>
     o_json w (lock_text w r) = Some (lock_json r) \<and> length (lock_text w r) \<le> LOCK_MAX_BYTES)"

text \<open>The record of a put begun at \<open>a\<close>.\<close>

definition record_at :: "bctx \<Rightarrow> (string \<Rightarrow> int \<Rightarrow> int) \<Rightarrow> string \<Rightarrow> lock_op \<Rightarrow> int \<Rightarrow> lock_record" where
  "record_at ctx wall i op a = \<lparr>lr_id = i, lr_op = op, lr_expiresAt = iso_string (wall i a + x_lease ctx)\<rparr>"

lemma iso_string_length: "year_4 t \<Longrightarrow> length (iso_string t) = 24"
  by (simp add: iso_string_digits length_digits)

lemma lockKey_inj [simp]: "lockKey ctx i = lockKey ctx j \<longleftrightarrow> i = j"
  by (simp add: lockKey_def)

lemma lockKey_json [simp]: "ends_with ''.json'' (lockKey ctx i)"
  using ends_with_append [of "''.json''" "x_backup ctx @ ''/'' @ LOCKS @ ''/'' @ i"] by (simp add: lockKey_def)

lemma lockKey_listed: "repo_get rp (lockKey ctx i) \<noteq> None \<Longrightarrow> lockKey ctx i \<in> set (repo_list rp (x_backup ctx @ ''/'' @ LOCKS @ ''/''))"
  by (simp add: repo_list_get starts_with_def lockKey_def)

lemma own_lock_live:
  assumes "lock_law w" "id_text i" "year_4 (wall i a + x_lease ctx)" "now \<le> wall i a + 2 * x_lease ctx"
  shows "lock_seen w ctx now (Some (lock_text w (record_at ctx wall i op a))) = Live"
proof -
  let ?r = "record_at ctx wall i op a"
  have r: "id_text (lr_id ?r)" "length (lr_expiresAt ?r) = 24" "iso_time (lr_expiresAt ?r) = Some (wall i a + x_lease ctx)"
    using assms by (simp_all add: record_at_def iso_string_length iso_time_digits)
  then have read: "o_json w (upTo LOCK_MAX_BYTES (lock_text w ?r)) = Some (lock_json ?r)"
    using assms(1) by (simp add: lock_law_def upTo_def)
  have "op_of (Some (JText (op_text op))) = Some op" by (cases op) (simp_all add: op_of_def op_text_def)
  then have "readLock w (upTo LOCK_MAX_BYTES (lock_text w ?r)) = Some ?r"
    using r(1, 3) read by (simp add: readLock_def lock_json_def or_text_def record_at_def)
  then show ?thesis using r(3) assms(4) by (simp add: lock_seen_def)
qed

text \<open>Phases in which a writer has its lock there, and the keys it has left to look at.\<close>

fun entered :: "phase \<Rightarrow> bool" where
  "entered Listing = True"
| "entered (Looking ks) = True"
| "entered (Dropping k ks) = True"
| "entered Holding = True"
| "entered p = False"

fun todo :: "phase \<Rightarrow> string list option" where
  "todo (Looking ks) = Some ks"
| "todo (Dropping k ks) = Some ks"
| "todo Holding = Some []"
| "todo p = None"

definition at_lock :: "writer \<Rightarrow> bool" where
  "at_lock u = (entered (wr_phase u) \<or> wr_phase u = Writing)"

lemma todo_entered: "todo p = Some ks \<Longrightarrow> entered p"
  by (cases p) simp_all

definition fresh_lock :: "outside \<Rightarrow> bctx \<Rightarrow> (string \<Rightarrow> int \<Rightarrow> int) \<Rightarrow> int \<Rightarrow> repo \<Rightarrow> string \<Rightarrow> writer \<Rightarrow> bool" where
  "fresh_lock w ctx wall T rp i u = (\<exists>a. 0 \<le> a \<and> a \<le> T \<and> wr_deadline u \<le> a + x_lease ctx \<and>
     repo_get rp (lockKey ctx i) = Some (lock_text w (record_at ctx wall i (lr_op (wr_record u)) a)))"

definition put_ok :: "bctx \<Rightarrow> (string \<Rightarrow> int \<Rightarrow> int) \<Rightarrow> int \<Rightarrow> string \<Rightarrow> writer \<Rightarrow> bool" where
  "put_ok ctx wall T i u = (\<forall>r l. wr_put u = Some (r, l) \<longrightarrow>
     (\<exists>a. 0 \<le> a \<and> a \<le> T \<and> r = record_at ctx wall i (lr_op (wr_record u)) a \<and> wr_deadline u \<le> a + x_lease ctx \<and> wr_next u \<le> a + x_lease ctx))"

definition writer_ok :: "outside \<Rightarrow> bctx \<Rightarrow> (string \<Rightarrow> int \<Rightarrow> int) \<Rightarrow> int \<Rightarrow> repo \<Rightarrow> string \<Rightarrow> writer \<Rightarrow> bool" where
  "writer_ok w ctx wall T rp i u = (lr_id (wr_record u) = i \<and> id_text i \<and> wr_deadline u \<le> T + x_lease ctx \<and> put_ok ctx wall T i u \<and>
     (wr_put u \<noteq> None \<longrightarrow> wr_phase u \<in> {Writing, Holding, Releasing}) \<and>
     (\<forall>r. wr_phase u = Writing \<and> wr_put u = Some (r, False) \<longrightarrow> repo_get rp (lockKey ctx i) = None) \<and>
     (T < wr_deadline u \<and> (entered (wr_phase u) \<or> wr_phase u = Writing \<and> (\<forall>r. wr_put u \<noteq> Some (r, False))) \<longrightarrow> fresh_lock w ctx wall T rp i u) \<and>
     (\<forall>r. T < wr_deadline u \<and> at_lock u \<and> wr_put u = Some (r, True) \<longrightarrow> repo_get rp (lockKey ctx i) = Some (lock_text w r)) \<and>
     (entered (wr_phase u) \<and> wr_phase u \<noteq> Holding \<longrightarrow> (\<exists>t. 0 \<le> t \<and> t \<le> T \<and> wr_now u = wall i t)))"

definition lock_inv :: "outside \<Rightarrow> bctx \<Rightarrow> (string \<Rightarrow> int \<Rightarrow> int) \<Rightarrow> lock_sys \<Rightarrow> bool" where
  "lock_inv w ctx wall s = (0 \<le> ls_time s \<and>
     (\<forall>i u. ls_writers s i = Some u \<longrightarrow> writer_ok w ctx wall (ls_time s) (ls_repo s) i u) \<and>
     (\<forall>i j u v ks. ls_writers s j = Some u \<and> wr_phase u = Dropping (lockKey ctx i) ks \<and> ls_writers s i = Some v \<and> at_lock v \<longrightarrow> wr_deadline v \<le> ls_time s) \<and>
     (\<forall>i j u v ks ls. i \<noteq> j \<and> ls_writers s i = Some u \<and> ls_writers s j = Some v \<and> ls_time s < wr_deadline u \<and> ls_time s < wr_deadline v \<and>
        todo (wr_phase u) = Some ks \<and> todo (wr_phase v) = Some ls \<longrightarrow> lockKey ctx j \<in> set ks \<or> lockKey ctx i \<in> set ls))"

lemma lock_invD:
  assumes "lock_inv w ctx wall s"
  shows "0 \<le> ls_time s" "ls_writers s i = Some u \<Longrightarrow> writer_ok w ctx wall (ls_time s) (ls_repo s) i u"
    "ls_writers s j = Some u \<Longrightarrow> wr_phase u = Dropping (lockKey ctx i) ks \<Longrightarrow> ls_writers s i = Some v \<Longrightarrow> at_lock v \<Longrightarrow> wr_deadline v \<le> ls_time s"
    "i \<noteq> j \<Longrightarrow> ls_writers s i = Some u \<Longrightarrow> ls_writers s j = Some v \<Longrightarrow> ls_time s < wr_deadline u \<Longrightarrow> ls_time s < wr_deadline v \<Longrightarrow>
       todo (wr_phase u) = Some ks \<Longrightarrow> todo (wr_phase v) = Some ls \<Longrightarrow> lockKey ctx j \<in> set ks \<or> lockKey ctx i \<in> set ls"
  using assms unfolding lock_inv_def by blast+

text \<open>One writer changes, and perhaps what is under keys that are nobody else's.\<close>

lemma lock_inv_put:
  assumes inv: "lock_inv w ctx wall s" and ok: "writer_ok w ctx wall (ls_time s) rp i u"
    and kept: "\<And>j v. j \<noteq> i \<Longrightarrow> ls_writers s j = Some v \<Longrightarrow> writer_ok w ctx wall (ls_time s) rp j v"
    and drops: "\<And>j v ks. wr_phase u = Dropping (lockKey ctx j) ks \<Longrightarrow> j \<noteq> i \<and> (ls_writers s j = Some v \<longrightarrow> at_lock v \<longrightarrow> wr_deadline v \<le> ls_time s)"
    and dropped: "\<And>j v ks. j \<noteq> i \<Longrightarrow> ls_writers s j = Some v \<Longrightarrow> wr_phase v = Dropping (lockKey ctx i) ks \<Longrightarrow> at_lock u \<Longrightarrow> wr_deadline u \<le> ls_time s"
    and pairs: "\<And>j v ks ls. j \<noteq> i \<Longrightarrow> ls_writers s j = Some v \<Longrightarrow> ls_time s < wr_deadline u \<Longrightarrow> ls_time s < wr_deadline v \<Longrightarrow>
      todo (wr_phase u) = Some ks \<Longrightarrow> todo (wr_phase v) = Some ls \<Longrightarrow> lockKey ctx j \<in> set ks \<or> lockKey ctx i \<in> set ls"
  shows "lock_inv w ctx wall (put_writer i u (s\<lparr>ls_repo := rp\<rparr>))"
proof -
  have ws: "ls_writers (put_writer i u (s\<lparr>ls_repo := rp\<rparr>)) j = (if j = i then Some u else ls_writers s j)" for j
    by (simp add: put_writer_def)
  have st: "ls_time (put_writer i u (s\<lparr>ls_repo := rp\<rparr>)) = ls_time s" "ls_repo (put_writer i u (s\<lparr>ls_repo := rp\<rparr>)) = rp"
    by (simp_all add: put_writer_def)
  show ?thesis unfolding lock_inv_def st ws
  proof (intro conjI allI impI)
    show "0 \<le> ls_time s" by (rule lock_invD(1) [OF inv])
  next
    fix j v assume "(if j = i then Some u else ls_writers s j) = Some v"
    then show "writer_ok w ctx wall (ls_time s) rp j v" using ok kept by (auto split: if_splits)
  next
    fix k j a v ks
    assume h: "(if j = i then Some u else ls_writers s j) = Some a \<and> wr_phase a = Dropping (lockKey ctx k) ks \<and> (if k = i then Some u else ls_writers s k) = Some v \<and> at_lock v"
    show "wr_deadline v \<le> ls_time s"
    proof (cases "j = i")
      case True
      then show ?thesis using h drops [of k ks v] by (auto split: if_splits)
    next
      case j: False
      show ?thesis
      proof (cases "k = i")
        case True
        then show ?thesis using h j dropped [of j a ks] by auto
      next
        case False
        then show ?thesis using h j lock_invD(3) [OF inv, of j a k ks v] by auto
      qed
    qed
  next
    fix j k a b ks ls
    assume h: "j \<noteq> k \<and> (if j = i then Some u else ls_writers s j) = Some a \<and> (if k = i then Some u else ls_writers s k) = Some b \<and>
      ls_time s < wr_deadline a \<and> ls_time s < wr_deadline b \<and> todo (wr_phase a) = Some ks \<and> todo (wr_phase b) = Some ls"
    show "lockKey ctx k \<in> set ks \<or> lockKey ctx j \<in> set ls"
    proof (cases "j = i")
      case True
      then show ?thesis using h pairs [of k b ks ls] by auto
    next
      case j: False
      show ?thesis
      proof (cases "k = i")
        case True
        then show ?thesis using h j pairs [of j a ls ks] by auto
      next
        case False
        then show ?thesis using h j lock_invD(4) [OF inv, of j k a b ks ls] by auto
      qed
    qed
  qed
qed

text \<open>What is under the other keys does not matter to a writer.\<close>

lemma writer_ok_cong:
  "repo_get rp (lockKey ctx i) = repo_get rq (lockKey ctx i) \<Longrightarrow> writer_ok w ctx wall T rp i u = writer_ok w ctx wall T rq i u"
  by (simp add: writer_ok_def fresh_lock_def)

lemma writer_ok_later:
  assumes "writer_ok w ctx wall T rp i u" "T \<le> T'"
  shows "writer_ok w ctx wall T' rp i u"
proof -
  have "put_ok ctx wall T i u \<Longrightarrow> put_ok ctx wall T' i u" using assms(2) unfolding put_ok_def by (meson order_trans)
  moreover have "fresh_lock w ctx wall T rp i u \<Longrightarrow> fresh_lock w ctx wall T' rp i u" using assms(2) unfolding fresh_lock_def by (meson order_trans)
  moreover have "\<exists>t. 0 \<le> t \<and> t \<le> T \<and> wr_now u = wall i t \<Longrightarrow> \<exists>t. 0 \<le> t \<and> t \<le> T' \<and> wr_now u = wall i t" using assms(2) by (meson order_trans)
  ultimately show ?thesis using assms unfolding writer_ok_def by auto
qed

text \<open>A writer that only moves on in the phases it is in: same puts, same deadline.\<close>

lemma lock_inv_same:
  assumes inv: "lock_inv w ctx wall s" and u: "ls_writers s i = Some u"
    and ok: "writer_ok w ctx wall (ls_time s) (ls_repo s) i v"
    and less: "ls_time s < wr_deadline v \<Longrightarrow> ls_time s < wr_deadline u" and at: "at_lock v \<Longrightarrow> at_lock u"
    and todo: "todo (wr_phase v) = None \<or> todo (wr_phase v) = todo (wr_phase u)"
    and phase: "\<And>k ks. wr_phase v \<noteq> Dropping k ks"
  shows "lock_inv w ctx wall (put_writer i v s)"
proof -
  have "lock_inv w ctx wall (put_writer i v (s\<lparr>ls_repo := ls_repo s\<rparr>))"
  proof (rule lock_inv_put [OF inv ok])
    fix j a ks assume "j \<noteq> i" "ls_writers s j = Some a" "wr_phase a = Dropping (lockKey ctx i) ks" "at_lock v"
    then show "wr_deadline v \<le> ls_time s" using lock_invD(3) [OF inv _ _ u at] less by force
  next
    fix j a ks ls assume "j \<noteq> i" "ls_writers s j = Some a" "ls_time s < wr_deadline v" "ls_time s < wr_deadline a" "todo (wr_phase v) = Some ks" "todo (wr_phase a) = Some ls"
    then show "lockKey ctx j \<in> set ks \<or> lockKey ctx i \<in> set ls" using lock_invD(4) [OF inv _ u, of j a ks ls] less todo by auto
  qed (use phase lock_invD(2) [OF inv] in auto)
  then show ?thesis by simp
qed

lemma lock_inv_passes:
  assumes "lock_inv w ctx wall s" "ls_time s \<le> t"
  shows "lock_inv w ctx wall (s\<lparr>ls_time := t\<rparr>)"
proof -
  have st: "ls_time (s\<lparr>ls_time := t\<rparr>) = t" "ls_repo (s\<lparr>ls_time := t\<rparr>) = ls_repo s" "ls_writers (s\<lparr>ls_time := t\<rparr>) = ls_writers s" by simp_all
  show ?thesis unfolding lock_inv_def st
  proof (intro conjI allI impI)
  show "0 \<le> t" using lock_invD(1) [OF assms(1)] assms(2) by simp
next
  fix i u assume "ls_writers s i = Some u"
  then show "writer_ok w ctx wall t (ls_repo s) i u" using lock_invD(2) [OF assms(1)] writer_ok_later assms(2) by blast
next
  fix i j u v ks assume "ls_writers s j = Some u \<and> wr_phase u = Dropping (lockKey ctx i) ks \<and> ls_writers s i = Some v \<and> at_lock v"
  then have "wr_deadline v \<le> ls_time s" using lock_invD(3) [OF assms(1)] by blast
  then show "wr_deadline v \<le> t" using assms(2) by simp
next
  fix i j u v ks ls assume h: "i \<noteq> j \<and> ls_writers s i = Some u \<and> ls_writers s j = Some v \<and> t < wr_deadline u \<and> t < wr_deadline v \<and> todo (wr_phase u) = Some ks \<and> todo (wr_phase v) = Some ls"
  then have "ls_time s < wr_deadline u" "ls_time s < wr_deadline v" using assms(2) by auto
  then show "lockKey ctx j \<in> set ks \<or> lockKey ctx i \<in> set ls" using lock_invD(4) [OF assms(1)] h by blast
  qed
qed

text \<open>A writer's lock, as another sees it while its deadline is not reached.\<close>

lemma active_seen:
  assumes inv: "lock_inv w ctx wall s" and law: "lock_law w" and clocks: "clocks_agree ctx wall (ls_time s)"
    and v: "ls_writers s j = Some v" "ls_time s < wr_deadline v" "at_lock v" and now: "0 \<le> t" "t \<le> ls_time s"
  shows "lock_seen w ctx (wall i t) (repo_get (ls_repo s) (lockKey ctx j)) \<noteq> Stale"
    "entered (wr_phase v) \<Longrightarrow> lock_seen w ctx (wall i t) (repo_get (ls_repo s) (lockKey ctx j)) = Live"
proof -
  have ok: "writer_ok w ctx wall (ls_time s) (ls_repo s) j v" by (rule lock_invD(2) [OF inv v(1)])
  have live: "lock_seen w ctx (wall i t) (repo_get (ls_repo s) (lockKey ctx j)) = Live" if fresh: "fresh_lock w ctx wall (ls_time s) (ls_repo s) j v"
  proof -
    obtain a where a: "0 \<le> a" "a \<le> ls_time s" "wr_deadline v \<le> a + x_lease ctx"
      "repo_get (ls_repo s) (lockKey ctx j) = Some (lock_text w (record_at ctx wall j (lr_op (wr_record v)) a))"
      using fresh unfolding fresh_lock_def by blast
    have "wall i t - wall j a \<le> t - a + x_lease ctx" "year_4 (wall j a + x_lease ctx)"
      using clocks a(1, 2) now unfolding clocks_agree_def by blast+
    moreover have "id_text j" using ok by (simp add: writer_ok_def)
    ultimately show ?thesis unfolding a(4) using law v(2) a(3) now(2) by (intro own_lock_live) auto
  qed
  then show "entered (wr_phase v) \<Longrightarrow> lock_seen w ctx (wall i t) (repo_get (ls_repo s) (lockKey ctx j)) = Live"
    using ok v(2) by (simp add: writer_ok_def)
  show "lock_seen w ctx (wall i t) (repo_get (ls_repo s) (lockKey ctx j)) \<noteq> Stale"
  proof (cases "\<exists>r. wr_phase v = Writing \<and> wr_put v = Some (r, False)")
    case True
    then have "repo_get (ls_repo s) (lockKey ctx j) = None" using ok by (auto simp: writer_ok_def)
    then show ?thesis by (simp add: lock_seen_def)
  next
    case False
    then have "fresh_lock w ctx wall (ls_time s) (ls_repo s) j v" using ok v(2, 3) by (auto simp: writer_ok_def at_lock_def)
    then show ?thesis using live by simp
  qed
qed

lemma lock_inv_looks:
  assumes inv: "lock_inv w ctx wall s" and law: "lock_law w" and clocks: "clocks_agree ctx wall (ls_time s)"
    and u: "ls_writers s i = Some u" "wr_phase u = Looking (k # ks)"
  shows "lock_inv w ctx wall (put_writer i (refuseOthers w ctx call n (repo_get (ls_repo s) k) k ks u) s)"
proof -
  note ok = lock_invD(2) [OF inv u(1)]
  have own: "lr_id (wr_record u) = i" using ok by (simp add: writer_ok_def)
  obtain t where t: "0 \<le> t" "t \<le> ls_time s" "wr_now u = wall i t" using ok u(2) by (auto simp: writer_ok_def)
  let ?v = "refuseOthers w ctx call n (repo_get (ls_repo s) k) k ks u"
  consider (on) "?v = u\<lparr>wr_phase := Looking ks\<rparr>" "\<And>j v. j \<noteq> i \<Longrightarrow> ls_writers s j = Some v \<Longrightarrow> ls_time s < wr_deadline v \<Longrightarrow> entered (wr_phase v) \<Longrightarrow> k \<noteq> lockKey ctx j"
    | (up) e where "?v = u\<lparr>wr_phase := GivingUp e\<rparr>"
    | (stale) "?v = u\<lparr>wr_phase := Dropping k ks\<rparr>" "k \<noteq> lockKey ctx i" "lock_seen w ctx (wall i t) (repo_get (ls_repo s) k) = Stale"
  proof (cases "k = lockKey ctx i \<or> \<not> ends_with ''.json'' k")
    case True
    then have "k \<noteq> lockKey ctx j" if "j \<noteq> i" for j using that lockKey_json [of ctx j] by auto
    then show ?thesis using on True by (auto simp: refuseOthers_def own)
  next
    case False
    then show ?thesis
    proof (cases "lock_seen w ctx (wall i t) (repo_get (ls_repo s) k)")
      case Gone
      then show ?thesis using on False active_seen(2) [OF inv law clocks _ _ _ t(1, 2), of _ _ i]
        by (force simp: refuseOthers_def own t(3) at_lock_def)
    qed (use up stale in \<open>auto simp: refuseOthers_def own t(3)\<close>)
  qed
  then show ?thesis
  proof cases
    case on
    have "lock_inv w ctx wall (put_writer i ?v (s\<lparr>ls_repo := ls_repo s\<rparr>))"
    proof (rule lock_inv_put [OF inv])
      show "writer_ok w ctx wall (ls_time s) (ls_repo s) i ?v" using ok u(2) unfolding on(1) by (auto simp: writer_ok_def put_ok_def fresh_lock_def)
      show "writer_ok w ctx wall (ls_time s) (ls_repo s) j v" if "ls_writers s j = Some v" for j v by (rule lock_invD(2) [OF inv that])
      show "j \<noteq> i \<and> (ls_writers s j = Some v \<longrightarrow> at_lock v \<longrightarrow> wr_deadline v \<le> ls_time s)" if "wr_phase ?v = Dropping (lockKey ctx j) ls" for j v ls
        using that unfolding on(1) by simp
      show "wr_deadline ?v \<le> ls_time s" if "ls_writers s j = Some v" "wr_phase v = Dropping (lockKey ctx i) ls" for j v ls
        using lock_invD(3) [OF inv that u(1)] u(2) unfolding on(1) by (simp add: at_lock_def)
      show "lockKey ctx j \<in> set ks' \<or> lockKey ctx i \<in> set ls"
        if "j \<noteq> i" "ls_writers s j = Some v" "ls_time s < wr_deadline ?v" "ls_time s < wr_deadline v" "todo (wr_phase ?v) = Some ks'" "todo (wr_phase v) = Some ls" for j v ks' ls
        using lock_invD(4) [OF inv _ u(1) that(2), of "k # ks" ls] on(2) [OF that(1, 2, 4) todo_entered [OF that(6)]] that u(2) unfolding on(1) by auto
    qed
    then show ?thesis by simp
  next
    case up
    show ?thesis unfolding up
      using ok u(2) by (intro lock_inv_same [OF inv u(1)]) (auto simp: writer_ok_def put_ok_def at_lock_def)
  next
    case stale
    have "lock_inv w ctx wall (put_writer i ?v (s\<lparr>ls_repo := ls_repo s\<rparr>))"
    proof (rule lock_inv_put [OF inv])
      show "writer_ok w ctx wall (ls_time s) (ls_repo s) i ?v" using ok u(2) unfolding stale(1) by (auto simp: writer_ok_def put_ok_def fresh_lock_def)
      show "writer_ok w ctx wall (ls_time s) (ls_repo s) j v" if "ls_writers s j = Some v" for j v by (rule lock_invD(2) [OF inv that])
      show "j \<noteq> i \<and> (ls_writers s j = Some v \<longrightarrow> at_lock v \<longrightarrow> wr_deadline v \<le> ls_time s)" if "wr_phase ?v = Dropping (lockKey ctx j) ls" for j v ls
      proof -
        have k: "k = lockKey ctx j" using that unfolding stale(1) by simp
        have "wr_deadline v \<le> ls_time s" if v: "ls_writers s j = Some v" "at_lock v"
        proof (rule ccontr)
          assume "\<not> wr_deadline v \<le> ls_time s"
          then have "ls_time s < wr_deadline v" by simp
          then show False using active_seen(1) [OF inv law clocks v(1) _ v(2) t(1, 2), of i] stale(3) k by simp
        qed
        then show ?thesis using stale(2) k by simp
      qed
      show "wr_deadline ?v \<le> ls_time s" if "ls_writers s j = Some v" "wr_phase v = Dropping (lockKey ctx i) ls" for j v ls
        using lock_invD(3) [OF inv that u(1)] u(2) unfolding stale(1) by (simp add: at_lock_def)
      show "lockKey ctx j \<in> set ks' \<or> lockKey ctx i \<in> set ls"
        if "j \<noteq> i" "ls_writers s j = Some v" "ls_time s < wr_deadline ?v" "ls_time s < wr_deadline v" "todo (wr_phase ?v) = Some ks'" "todo (wr_phase v) = Some ls" for j v ks' ls
      proof -
        have "at_lock v" using todo_entered [OF that(6)] by (simp add: at_lock_def)
        then have "k \<noteq> lockKey ctx j" using stale(3) active_seen(1) [OF inv law clocks that(2, 4) _ t(1, 2), of i] by auto
        then show ?thesis using lock_invD(4) [OF inv _ u(1) that(2), of "k # ks" ls] that u(2) unfolding stale(1) by auto
      qed
    qed
    then show ?thesis by simp
  qed
qed

lemma put_ok_held: "put_ok ctx wall T i (snd (is_held c u)) = put_ok ctx wall T i u"
  by (simp add: put_ok_def is_held_def)

lemma held_keeps [simp]: "wr_record (snd (is_held c u)) = wr_record u" "wr_phase (snd (is_held c u)) = wr_phase u" "wr_put (snd (is_held c u)) = wr_put u"
  "wr_next (snd (is_held c u)) = wr_next u" "wr_deadline (snd (is_held c u)) = wr_deadline u" "wr_now (snd (is_held c u)) = wr_now u"
  by (simp_all add: is_held_def)

lemma held_early: "fst (is_held c u) \<Longrightarrow> c < wr_deadline u \<and> snd (is_held c u) = u"
  by (auto simp: is_held_def split: if_splits)

lemma writer_ok_same:
  assumes "writer_ok w ctx wall T rp i u" "wr_record v = wr_record u" "wr_phase v = wr_phase u" "wr_put v = wr_put u" "wr_next v = wr_next u"
    "wr_deadline v = wr_deadline u" "wr_now v = wr_now u"
  shows "writer_ok w ctx wall T rp i v"
  using assms by (simp add: writer_ok_def put_ok_def fresh_lock_def at_lock_def)

lemma lock_inv_settles:
  assumes inv: "lock_inv w ctx wall s" and u: "ls_writers s i = Some u" "wr_put u = Some (r, True)"
  shows "lock_inv w ctx wall (put_writer i (put_resolved (ls_time s) (wall i (ls_time s)) u) s)"
proof -
  note ok = lock_invD(2) [OF inv u(1)]
  have T: "0 \<le> ls_time s" by (rule lock_invD(1) [OF inv])
  obtain a where a: "0 \<le> a" "a \<le> ls_time s" "wr_deadline u \<le> a + x_lease ctx" "wr_next u \<le> a + x_lease ctx"
    using ok u(2) by (auto simp: writer_ok_def put_ok_def)
  let ?v = "put_resolved (ls_time s) (wall i (ls_time s)) u"
  show ?thesis
  proof (cases "wr_phase u = Writing")
    case True
    have "writer_ok w ctx wall (ls_time s) (ls_repo s) i ?v"
      using ok True u(2) T by (auto simp: put_resolved_def writer_ok_def put_ok_def fresh_lock_def)
    then show ?thesis
      using True by (intro lock_inv_same [OF inv u(1)]) (auto simp: put_resolved_def at_lock_def)
  next
    case False
    then have ph: "wr_phase u = Holding \<or> wr_phase u = Releasing" using ok u(2) by (auto simp: writer_ok_def)
    have v: "wr_phase ?v = wr_phase u" "wr_put ?v = None" "wr_record ?v = wr_record u" "wr_deadline ?v = wr_deadline u \<or> ls_time s < wr_deadline u \<and> wr_deadline ?v = max (wr_deadline u) (wr_next u)"
      using False held_early [of "ls_time s" u] by (auto simp: put_resolved_def split: prod.split dest: arg_cong [of _ _ snd])
        (auto simp: is_held_def split: if_splits)
    have fresh: "fresh_lock w ctx wall (ls_time s) (ls_repo s) i ?v" if "wr_phase u = Holding" "ls_time s < wr_deadline ?v"
    proof -
      obtain b where b: "0 \<le> b" "b \<le> ls_time s" "r = record_at ctx wall i (lr_op (wr_record u)) b" "wr_deadline u \<le> b + x_lease ctx" "wr_next u \<le> b + x_lease ctx"
        using ok u(2) by (auto simp: writer_ok_def put_ok_def)
      have "repo_get (ls_repo s) (lockKey ctx i) = Some (lock_text w r)"
        using ok u(2) that v(4) by (auto simp: writer_ok_def at_lock_def)
      then show ?thesis using b v(3, 4) unfolding fresh_lock_def by (intro exI [of _ b]) auto
    qed
    have "wr_deadline ?v \<le> ls_time s + x_lease ctx" using v(4) a by auto
    then have "writer_ok w ctx wall (ls_time s) (ls_repo s) i ?v"
      using ok ph v(1, 2, 3) fresh by (auto simp: writer_ok_def put_ok_def)
    then show ?thesis
      using v ph by (intro lock_inv_same [OF inv u(1)]) (auto simp: at_lock_def)
  qed
qed

lemma lock_inv_lands:
  assumes inv: "lock_inv w ctx wall s" and u: "ls_writers s i = Some u" "wr_put u = Some (r, False)"
  shows "lock_inv w ctx wall (put_writer i (u\<lparr>wr_put := Some (r, True)\<rparr>) (s\<lparr>ls_repo := writeLock w ctx r (ls_repo s)\<rparr>))"
proof -
  note ok = lock_invD(2) [OF inv u(1)]
  obtain b where b: "0 \<le> b" "b \<le> ls_time s" "r = record_at ctx wall i (lr_op (wr_record u)) b" "wr_deadline u \<le> b + x_lease ctx" "wr_next u \<le> b + x_lease ctx"
    using ok u(2) by (auto simp: writer_ok_def put_ok_def)
  have get: "repo_get (writeLock w ctx r (ls_repo s)) (lockKey ctx j) = (if j = i then Some (lock_text w r) else repo_get (ls_repo s) (lockKey ctx j))" for j
    using b(3) by (simp add: writeLock_def record_at_def)
  have phase: "wr_phase u \<in> {Writing, Holding, Releasing}" using ok u(2) by (auto simp: writer_ok_def)
  let ?v = "u\<lparr>wr_put := Some (r, True)\<rparr>"
  show ?thesis
  proof (rule lock_inv_put [OF inv])
    have "fresh_lock w ctx wall (ls_time s) (writeLock w ctx r (ls_repo s)) i ?v"
      using b get [of i] unfolding fresh_lock_def by (intro exI [of _ b]) simp
    then show "writer_ok w ctx wall (ls_time s) (writeLock w ctx r (ls_repo s)) i ?v"
      using ok phase u(2) get [of i] by (auto simp: writer_ok_def put_ok_def)
    show "writer_ok w ctx wall (ls_time s) (writeLock w ctx r (ls_repo s)) j v" if "j \<noteq> i" "ls_writers s j = Some v" for j v
      using lock_invD(2) [OF inv that(2)] get [of j] that(1) writer_ok_cong [of "writeLock w ctx r (ls_repo s)" ctx j "ls_repo s"] by simp
    show "j \<noteq> i \<and> (ls_writers s j = Some v \<longrightarrow> at_lock v \<longrightarrow> wr_deadline v \<le> ls_time s)" if "wr_phase ?v = Dropping (lockKey ctx j) ls" for j v ls
      using that phase by auto
    show "wr_deadline ?v \<le> ls_time s" if "ls_writers s j = Some v" "wr_phase v = Dropping (lockKey ctx i) ls" "at_lock ?v" for j v ls
      using lock_invD(3) [OF inv that(1, 2) u(1)] that(3) by (simp add: at_lock_def)
    show "lockKey ctx j \<in> set ks \<or> lockKey ctx i \<in> set ls"
      if "j \<noteq> i" "ls_writers s j = Some v" "ls_time s < wr_deadline ?v" "ls_time s < wr_deadline v" "todo (wr_phase ?v) = Some ks" "todo (wr_phase v) = Some ls" for j v ks ls
      using lock_invD(4) [OF inv _ u(1) that(2)] that by auto
  qed
qed

text \<open>A delete: of a stale lock's key, or of one's own.\<close>

lemma lock_inv_deletes:
  assumes inv: "lock_inv w ctx wall s" and u: "ls_writers s i = Some u"
    and gone: "\<And>j v. k = lockKey ctx j \<Longrightarrow> j \<noteq> i \<Longrightarrow> ls_writers s j = Some v \<Longrightarrow> at_lock v \<Longrightarrow> wr_deadline v \<le> ls_time s"
    and own: "k = lockKey ctx i \<Longrightarrow> at_lock v \<Longrightarrow> wr_deadline u \<le> ls_time s"
    and v: "wr_record v = wr_record u" "wr_put v = wr_put u" "wr_next v = wr_next u" "wr_deadline v = wr_deadline u" "wr_now v = wr_now u"
    and phase: "entered (wr_phase v) \<Longrightarrow> entered (wr_phase u) \<and> wr_phase u \<noteq> Holding \<and> wr_phase v \<noteq> Holding" "wr_phase v \<noteq> Writing" "\<And>k ks. wr_phase v \<noteq> Dropping k ks"
      "wr_put u \<noteq> None \<Longrightarrow> wr_phase v \<in> {Holding, Releasing}" "todo (wr_phase v) = None \<or> todo (wr_phase v) = todo (wr_phase u)"
  shows "lock_inv w ctx wall (put_writer i v (s\<lparr>ls_repo := forget_lock did k (ls_repo s)\<rparr>))"
proof -
  note ok = lock_invD(2) [OF inv u]
  have get: "repo_get (forget_lock did k (ls_repo s)) l = (if did \<and> l = k then None else repo_get (ls_repo s) l)" for l
    by (simp add: forget_lock_def)
  show ?thesis
  proof (rule lock_inv_put [OF inv])
    have "entered (wr_phase v) \<Longrightarrow> ls_time s < wr_deadline v \<Longrightarrow> fresh_lock w ctx wall (ls_time s) (ls_repo s) i u \<Longrightarrow> fresh_lock w ctx wall (ls_time s) (forget_lock did k (ls_repo s)) i v"
      using own v by (auto simp: fresh_lock_def get at_lock_def)
    then show "writer_ok w ctx wall (ls_time s) (forget_lock did k (ls_repo s)) i v"
      using ok v phase own by (auto simp: writer_ok_def put_ok_def at_lock_def)
    show "writer_ok w ctx wall (ls_time s) (forget_lock did k (ls_repo s)) j a" if "j \<noteq> i" "ls_writers s j = Some a" for j a
    proof (cases "k = lockKey ctx j")
      case True
      then have "at_lock a \<Longrightarrow> wr_deadline a \<le> ls_time s" using gone that by blast
      then show ?thesis using lock_invD(2) [OF inv that(2)] get [of k] True by (auto simp: writer_ok_def fresh_lock_def at_lock_def)
    next
      case False
      then show ?thesis using lock_invD(2) [OF inv that(2)] writer_ok_cong [of "forget_lock did k (ls_repo s)" ctx j "ls_repo s"] get by simp
    qed
    show "j \<noteq> i \<and> (ls_writers s j = Some a \<longrightarrow> at_lock a \<longrightarrow> wr_deadline a \<le> ls_time s)" if "wr_phase v = Dropping (lockKey ctx j) ls" for j a ls
      using that phase(3) by simp
    show "wr_deadline v \<le> ls_time s" if "ls_writers s j = Some a" "wr_phase a = Dropping (lockKey ctx i) ls" "at_lock v" for j a ls
      using lock_invD(3) [OF inv that(1, 2) u] that(3) phase(1, 2) v(4) by (auto simp: at_lock_def)
    show "lockKey ctx j \<in> set ks \<or> lockKey ctx i \<in> set ls"
      if "j \<noteq> i" "ls_writers s j = Some a" "ls_time s < wr_deadline v" "ls_time s < wr_deadline a" "todo (wr_phase v) = Some ks" "todo (wr_phase a) = Some ls" for j a ks ls
      using lock_invD(4) [OF inv _ u that(2), of ks ls] that phase(5) v(4) by auto
  qed
qed

lemma lock_inv_renews:
  assumes inv: "lock_inv w ctx wall s" and u: "ls_writers s i = Some u" "wr_phase u = Holding"
  shows "lock_inv w ctx wall (put_writer i (renewing ctx (ls_time s) (wall i (ls_time s)) u) s)"
proof -
  note ok = lock_invD(2) [OF inv u(1)]
  have T: "0 \<le> ls_time s" by (rule lock_invD(1) [OF inv])
  have asked: "writer_ok w ctx wall (ls_time s) (ls_repo s) i (snd (is_held (ls_time s) u))"
    by (rule writer_ok_same [OF ok]) simp_all
  let ?v = "renewing ctx (ls_time s) (wall i (ls_time s)) u"
  have "writer_ok w ctx wall (ls_time s) (ls_repo s) i ?v"
  proof (cases "wr_put u \<noteq> None \<or> \<not> fst (is_held (ls_time s) u)")
    case True
    then have "?v = u \<or> ?v = snd (is_held (ls_time s) u)" by (auto simp: renewing_def split: prod.split)
    then show ?thesis using ok asked by auto
  next
    case False
    let ?r = "record_at ctx wall i (lr_op (wr_record u)) (ls_time s)"
    have "?v = u\<lparr>wr_next := ls_time s + x_lease ctx, wr_put := Some (?r, False)\<rparr>"
      using False held_early [of "ls_time s" u] ok by (cases "is_held (ls_time s) u") (simp add: renewing_def record_at_def writer_ok_def)
    then show ?thesis using ok u(2) T by (auto simp: writer_ok_def put_ok_def fresh_lock_def)
  qed
  moreover have "wr_phase ?v = wr_phase u" "wr_deadline ?v = wr_deadline u"
    using held_keeps [of "ls_time s" u] by (cases "is_held (ls_time s) u"; simp add: renewing_def)+
  ultimately show ?thesis using u(2) by (intro lock_inv_same [OF inv u(1)]) (auto simp: at_lock_def)
qed

lemma lock_inv_lists:
  assumes inv: "lock_inv w ctx wall s" and u: "ls_writers s i = Some u" "wr_phase u = Listing"
    and ks: "set (repo_list (ls_repo s) (x_backup ctx @ ''/'' @ LOCKS @ ''/'')) \<subseteq> set ks"
  shows "lock_inv w ctx wall (put_writer i (u\<lparr>wr_phase := Looking ks\<rparr>) s)"
proof -
  note ok = lock_invD(2) [OF inv u(1)]
  have "lock_inv w ctx wall (put_writer i (u\<lparr>wr_phase := Looking ks\<rparr>) (s\<lparr>ls_repo := ls_repo s\<rparr>))"
  proof (rule lock_inv_put [OF inv])
    show "writer_ok w ctx wall (ls_time s) (ls_repo s) i (u\<lparr>wr_phase := Looking ks\<rparr>)"
      using ok u(2) by (auto simp: writer_ok_def put_ok_def fresh_lock_def)
    show "writer_ok w ctx wall (ls_time s) (ls_repo s) j v" if "ls_writers s j = Some v" for j v by (rule lock_invD(2) [OF inv that])
    show "j \<noteq> i \<and> (ls_writers s j = Some v \<longrightarrow> at_lock v \<longrightarrow> wr_deadline v \<le> ls_time s)" if "wr_phase (u\<lparr>wr_phase := Looking ks\<rparr>) = Dropping (lockKey ctx j) ls" for j v ls
      using that by simp
    show "wr_deadline (u\<lparr>wr_phase := Looking ks\<rparr>) \<le> ls_time s" if "ls_writers s j = Some v" "wr_phase v = Dropping (lockKey ctx i) ls" for j v ls
      using lock_invD(3) [OF inv that u(1)] u(2) by (simp add: at_lock_def)
    show "lockKey ctx j \<in> set xs \<or> lockKey ctx i \<in> set ls"
      if "j \<noteq> i" "ls_writers s j = Some v" "ls_time s < wr_deadline v" "todo (wr_phase (u\<lparr>wr_phase := Looking ks\<rparr>)) = Some xs" "todo (wr_phase v) = Some ls" for j v xs ls
    proof -
      have "fresh_lock w ctx wall (ls_time s) (ls_repo s) j v"
        using lock_invD(2) [OF inv that(2)] that(3) todo_entered [OF that(5)] by (simp add: writer_ok_def)
      then have "lockKey ctx j \<in> set ks" using ks lockKey_listed [of "ls_repo s" ctx j] by (auto simp: fresh_lock_def)
      then show ?thesis using that(4) by simp
    qed
  qed
  then show ?thesis by simp
qed

lemma lock_inv_begins:
  assumes inv: "lock_inv w ctx wall s" and new: "ls_writers s i = None" "id_text i" "repo_get (ls_repo s) (lockKey ctx i) = None"
    "\<forall>j u ks. ls_writers s j = Some u \<longrightarrow> wr_phase u \<noteq> Dropping (lockKey ctx i) ks"
  shows "lock_inv w ctx wall (put_writer i (acquireLock ctx i op (ls_time s) (wall i (ls_time s))) s)"
proof -
  let ?u = "acquireLock ctx i op (ls_time s) (wall i (ls_time s))"
  have u: "?u = \<lparr>wr_record = record_at ctx wall i op (ls_time s), wr_phase = Writing, wr_put = Some (record_at ctx wall i op (ls_time s), False),
     wr_next = ls_time s + x_lease ctx, wr_deadline = ls_time s + x_lease ctx, wr_now = wall i (ls_time s), wr_lost = False\<rparr>"
    by (simp add: acquireLock_def record_at_def Let_def)
  have "lock_inv w ctx wall (put_writer i ?u (s\<lparr>ls_repo := ls_repo s\<rparr>))"
  proof (rule lock_inv_put [OF inv])
    show "writer_ok w ctx wall (ls_time s) (ls_repo s) i ?u"
      using new lock_invD(1) [OF inv] unfolding u by (auto simp: writer_ok_def put_ok_def record_at_def)
    show "writer_ok w ctx wall (ls_time s) (ls_repo s) j v" if "ls_writers s j = Some v" for j v by (rule lock_invD(2) [OF inv that])
  qed (use new in \<open>auto simp: u\<close>)
  then show ?thesis by simp
qed

lemma lock_inv_others:
  assumes inv: "lock_inv w ctx wall s" and same: "\<forall>i. ls_writers s i \<noteq> None \<longrightarrow> repo_get rp (lockKey ctx i) = repo_get (ls_repo s) (lockKey ctx i)"
  shows "lock_inv w ctx wall (s\<lparr>ls_repo := rp\<rparr>)"
proof -
  have "writer_ok w ctx wall (ls_time s) rp i u" if "ls_writers s i = Some u" for i u
    using lock_invD(2) [OF inv that] same that writer_ok_cong [of rp ctx i "ls_repo s"] by simp
  then have new: "\<forall>i u. ls_writers s i = Some u \<longrightarrow> writer_ok w ctx wall (ls_time s) rp i u" by blast
  have st: "ls_time (s\<lparr>ls_repo := rp\<rparr>) = ls_time s" "ls_repo (s\<lparr>ls_repo := rp\<rparr>) = rp" "ls_writers (s\<lparr>ls_repo := rp\<rparr>) = ls_writers s" by simp_all
  show ?thesis unfolding lock_inv_def st
    by (intro conjI; (rule new)?) (use inv [unfolded lock_inv_def] in blast)+
qed

lemma lock_inv_step:
  assumes step: "lstep w ctx wall s t" and inv: "lock_inv w ctx wall s" and law: "lock_law w" and clocks: "clocks_agree ctx wall (ls_time s)"
  shows "lock_inv w ctx wall t"
  using step
proof cases
  case (passes t)
  then show ?thesis using lock_inv_passes [OF inv] by simp
next
  case (others rp)
  then show ?thesis using lock_inv_others [OF inv] by simp
next
  case (begins i op)
  then show ?thesis using lock_inv_begins [OF inv] by simp
next
  case (lands i u r)
  then show ?thesis using lock_inv_lands [OF inv] by simp
next
  case (resolves i u r)
  then show ?thesis using lock_inv_settles [OF inv] by simp
next
  case (rejects i u p e)
  note ok = lock_invD(2) [OF inv rejects(2)]
  let ?v = "put_rejected e u"
  have v: "wr_record ?v = wr_record u" "wr_put ?v = None" "wr_deadline ?v = wr_deadline u" "wr_now ?v = wr_now u"
    "wr_phase ?v = wr_phase u \<and> wr_phase u \<noteq> Writing \<or> wr_phase ?v = GivingUp e"
    by (simp_all add: put_rejected_def)
  have "put_ok ctx wall (ls_time s) i ?v" "fresh_lock w ctx wall (ls_time s) (ls_repo s) i ?v = fresh_lock w ctx wall (ls_time s) (ls_repo s) i u"
    by (simp_all add: put_ok_def fresh_lock_def v(1-3))
  then have "writer_ok w ctx wall (ls_time s) (ls_repo s) i ?v"
    using ok v(5) unfolding writer_ok_def v(1-4) by (elim disjE) simp_all
  moreover have "wr_phase u \<in> {Writing, Holding, Releasing}" using ok rejects(3) by (simp add: writer_ok_def)
  ultimately show ?thesis unfolding rejects(1)
    using v(3, 5) by (intro lock_inv_same [OF inv rejects(2)]) (auto simp: at_lock_def)
next
  case (lists i u ks)
  then show ?thesis using lock_inv_lists [OF inv] by simp
next
  case (breaks i u ks e)
  show ?thesis unfolding breaks(1) using breaks(3) lock_invD(2) [OF inv breaks(2)]
    by (intro lock_inv_same [OF inv breaks(2)]) (auto simp: writer_ok_def put_ok_def at_lock_def)
next
  case (looks i u k ks call n)
  then show ?thesis using lock_inv_looks [OF inv law clocks] by simp
next
  case (drops i u k ks did)
  note ok = lock_invD(2) [OF inv drops(2)]
  show ?thesis unfolding drops(1)
  proof (rule lock_inv_deletes [OF inv drops(2)])
    show "wr_deadline v \<le> ls_time s" if "k = lockKey ctx j" "ls_writers s j = Some v" "at_lock v" for j v
      using lock_invD(3) [OF inv drops(2) _ that(2, 3)] drops(3) that(1) by simp
    show "wr_deadline u \<le> ls_time s" if "k = lockKey ctx i"
      using lock_invD(3) [OF inv drops(2) _ drops(2)] drops(3) that by (simp add: at_lock_def)
  qed (use drops(3) ok in \<open>auto simp: writer_ok_def\<close>)
next
  case (holds i u)
  show ?thesis unfolding holds(1) using holds(3) lock_invD(2) [OF inv holds(2)]
    by (intro lock_inv_same [OF inv holds(2)]) (auto simp: writer_ok_def put_ok_def fresh_lock_def at_lock_def)
next
  case (renews i u)
  then show ?thesis using lock_inv_renews [OF inv] by simp
next
  case (asks i u)
  show ?thesis unfolding asks(1)
    using asks(3) writer_ok_same [OF lock_invD(2) [OF inv asks(2)]] by (intro lock_inv_same [OF inv asks(2)]) (auto simp: at_lock_def)
next
  case (releases i u)
  show ?thesis unfolding releases(1) using releases(3) lock_invD(2) [OF inv releases(2)]
    by (intro lock_inv_same [OF inv releases(2)]) (auto simp: writer_ok_def put_ok_def at_lock_def)
next
  case (forgets i u e did)
  show ?thesis unfolding forgets(1)
    by (rule lock_inv_deletes [OF inv forgets(2)]) (use forgets(3) lock_invD(2) [OF inv forgets(2)] in \<open>auto simp: writer_ok_def at_lock_def\<close>)
qed

lemma lstep_time: "lstep w ctx wall s t \<Longrightarrow> ls_time s \<le> ls_time t"
  by (cases rule: lstep.cases) (auto simp: put_writer_def)

lemma clocks_before: "clocks_agree ctx wall T \<Longrightarrow> U \<le> T \<Longrightarrow> clocks_agree ctx wall U"
  by (simp add: clocks_agree_def)

lemma lock_reachable_inv:
  assumes "lock_reachable w ctx wall s" "lock_law w" "clocks_agree ctx wall (ls_time s)"
  shows "lock_inv w ctx wall s"
  using assms
proof (induction rule: lock_reachable.induct)
  case (start rp)
  show ?case by (simp add: lock_inv_def lock_start_def)
next
  case (step s t)
  have "clocks_agree ctx wall (ls_time s)" by (rule clocks_before [OF step.prems(2) lstep_time [OF step.hyps(2)]])
  then show ?case using lock_inv_step step by blast
qed

text \<open>C2. The lock of a definition in a repository is one writer's at a time: however the writers, their puts, their
  renewals, their deletes and the repository interleave, and wherever one stops, no two of them hold a lease
  that says it is held, as long as the wall clocks disagree by no more than a lease.\<close>

theorem lock_excludes:
  assumes "lock_reachable w ctx wall s" "lock_law w" "clocks_agree ctx wall (ls_time s)"
    and "holding s i" "holding s j"
  shows "i = j"
proof (rule ccontr)
  assume "i \<noteq> j"
  obtain u v where uv: "ls_writers s i = Some u" "ls_writers s j = Some v" "wr_phase u = Holding" "wr_phase v = Holding"
    "fst (is_held (ls_time s) u)" "fst (is_held (ls_time s) v)"
    using assms(4, 5) by (auto simp: holding_def split: option.splits)
  then show False
    using lock_invD(4) [OF lock_reachable_inv [OF assms(1-3)] \<open>i \<noteq> j\<close> uv(1, 2), of "[]" "[]"] held_early by auto
qed

text \<open>A repository where one writer has the lock and another has put its own.\<close>

definition lock_world :: outside where
  "lock_world = \<lparr>o_json = (\<lambda>s. Some (lock_json \<lparr>lr_id = take 28 (tl s), lr_op = (if hd s = CHR ''c'' then OpCreate else OpPrune), lr_expiresAt = butlast (drop 29 s)\<rparr>)),
     o_text = (\<lambda>v. (if op_of (jget v ''operation'') = Some OpCreate then CHR ''c'' else CHR ''p'') # or_text (text_of (jget v ''id'')) @ or_text (text_of (jget v ''expiresAt''))),
     o_pretty = (\<lambda>v. []), o_sha = (\<lambda>s. s), o_seal = (\<lambda>ks s. s), o_open = (\<lambda>ks s. Plain s), o_sign = (\<lambda>s. s), o_verify = (\<lambda>s t. True)\<rparr>"

definition lock_ctx :: bctx where
  "lock_ctx = \<lparr>x_backup = ''app'', x_repositories = [''main''], x_recipients = [], x_signer = False, x_trusted = False, x_lease = DEFAULT_LEASE\<rparr>"

definition lock_wall :: "string \<Rightarrow> int \<Rightarrow> int" where
  "lock_wall i t = 1791065700123 + t"

definition first_id :: string where "first_id = ''20261003T221500123Z-9f3a61c0''"
definition second_id :: string where "second_id = ''20261003T221500123Z-00112233''"

lemma lock_world_law: "lock_law lock_world"
proof -
  have "o_json lock_world (lock_text lock_world r) = Some (lock_json r) \<and> length (lock_text lock_world r) \<le> LOCK_MAX_BYTES"
    if "id_text (lr_id r)" "length (lr_expiresAt r) = 24" for r
  proof -
    have t: "lock_text lock_world r = (if lr_op r = OpCreate then CHR ''c'' else CHR ''p'') # lr_id r @ lr_expiresAt r @ [CHR 0x0A]"
      by (cases "lr_op r") (simp_all add: lock_text_def lock_world_def lock_json_def op_of_def op_text_def or_text_def)
    have "length (lr_id r) = 28" using that(1) by (simp add: id_text_def)
    then show ?thesis unfolding t using that(2)
      by (cases "lr_op r") (simp_all add: lock_world_def lock_json_def butlast_append LOCK_MAX_BYTES_def)
  qed
  then show ?thesis unfolding lock_law_def by blast
qed

lemma lock_clocks: "clocks_agree lock_ctx lock_wall 0"
proof -
  have "year_4 (lock_wall i 0 + x_lease lock_ctx)" for i by (simp add: lock_wall_def lock_ctx_def DEFAULT_LEASE_def) code_simp
  then show ?thesis by (auto simp: clocks_agree_def lock_wall_def lock_ctx_def DEFAULT_LEASE_def)
qed

definition first_record :: lock_record where
  "first_record = \<lparr>lr_id = first_id, lr_op = OpCreate, lr_expiresAt = iso_string (1791065700123 + DEFAULT_LEASE)\<rparr>"

definition first_writer :: "phase \<Rightarrow> (lock_record \<times> bool) option \<Rightarrow> writer" where
  "first_writer p put = \<lparr>wr_record = first_record, wr_phase = p, wr_put = put, wr_next = DEFAULT_LEASE, wr_deadline = DEFAULT_LEASE, wr_now = 1791065700123, wr_lost = False\<rparr>"

definition first_sys :: "repo \<Rightarrow> writer \<Rightarrow> lock_sys" where
  "first_sys rp u = put_writer first_id u (lock_start rp)"

definition first_repo :: repo where
  "first_repo = writeLock lock_world lock_ctx first_record []"

lemma first_sys_simps: "ls_time (first_sys rp u) = 0" "ls_repo (first_sys rp u) = rp" "ls_writers (first_sys rp u) = [first_id \<mapsto> u]"
  "put_writer first_id v (first_sys rp u) = first_sys rp v" "(first_sys rp u)\<lparr>ls_repo := rq\<rparr> = first_sys rq u"
  by (simp_all add: first_sys_def put_writer_def lock_start_def)

lemma first_steps:
  shows "lock_reachable lock_world lock_ctx lock_wall (first_sys [] (first_writer Writing (Some (first_record, False))))" (is "lock_reachable _ _ _ ?a")
    and "lock_reachable lock_world lock_ctx lock_wall (first_sys first_repo (first_writer Listing None))" (is "lock_reachable _ _ _ ?c")
    and "lock_reachable lock_world lock_ctx lock_wall (first_sys first_repo (first_writer Holding None))"
proof -
  have "acquireLock lock_ctx first_id OpCreate 0 (lock_wall first_id 0) = first_writer Writing (Some (first_record, False))"
    by (simp add: acquireLock_def first_writer_def first_record_def lock_ctx_def lock_wall_def Let_def)
  moreover have "id_text first_id" unfolding first_id_def by code_simp
  ultimately show a: "lock_reachable lock_world lock_ctx lock_wall ?a"
    using lock_reachable.step [OF lock_reachable.start [where rp = "[]" and w = lock_world and ctx = lock_ctx and wall = lock_wall] lstep.begins [where i = first_id and op = OpCreate]]
    by (simp add: first_sys_def lock_start_def repo_get_def)
  note b = lock_reachable.step [OF a lstep.lands [where i = first_id and u = "first_writer Writing (Some (first_record, False))" and r = first_record],
      unfolded first_sys_simps, simplified first_writer_def writer.simps, folded first_writer_def first_repo_def]
  show c: "lock_reachable lock_world lock_ctx lock_wall ?c"
    using lock_reachable.step [OF b lstep.resolves [where i = first_id and u = "first_writer Writing (Some (first_record, True))" and r = first_record]]
    by (simp add: first_sys_simps first_writer_def put_resolved_def lock_wall_def)
  let ?k = "lockKey lock_ctx first_id"
  have key: "first_repo = [(?k, lock_text lock_world first_record)]" by (simp add: first_repo_def writeLock_def repo_put_def first_record_def)
  have d: "lock_reachable lock_world lock_ctx lock_wall (first_sys first_repo (first_writer (Looking [?k]) None))"
    using lock_reachable.step [OF c lstep.lists [where i = first_id and u = "first_writer Listing None" and ks = "[?k]"]]
    by (simp add: first_sys_simps first_writer_def key repo_list_def)
  have e: "lock_reachable lock_world lock_ctx lock_wall (first_sys first_repo (first_writer (Looking []) None))"
    using lock_reachable.step [OF d lstep.looks [where i = first_id and u = "first_writer (Looking [?k]) None" and k = ?k and ks = "[]"]]
    by (simp add: first_sys_simps first_writer_def refuseOthers_def first_record_def)
  show "lock_reachable lock_world lock_ctx lock_wall (first_sys first_repo (first_writer Holding None))"
    using lock_reachable.step [OF e lstep.holds [where i = first_id and u = "first_writer (Looking []) None"]]
    by (simp add: first_sys_simps first_writer_def)
qed

text \<open>A second writer begins beside the holder.\<close>

theorem lock_excludes_witness:
  "\<exists>s. lock_reachable lock_world lock_ctx lock_wall s \<and> dom (ls_writers s) = {first_id, second_id} \<and> holding s first_id \<and> (\<forall>j. holding s j \<longrightarrow> first_id = j)"
proof -
  let ?s = "first_sys first_repo (first_writer Holding None)"
  let ?t = "put_writer second_id (acquireLock lock_ctx second_id OpPrune 0 (lock_wall second_id 0)) ?s"
  have ids: "id_text second_id" "first_id \<noteq> second_id" unfolding first_id_def second_id_def by code_simp+
  have "repo_get first_repo (lockKey lock_ctx second_id) = None"
    using ids(2) by (simp add: first_repo_def writeLock_def repo_put_def repo_get_def first_record_def)
  then have t: "lock_reachable lock_world lock_ctx lock_wall ?t"
    using lock_reachable.step [OF first_steps(3) lstep.begins [where i = second_id and op = OpPrune]] ids
    by (simp add: first_sys_simps first_writer_def)
  have st: "ls_time ?t = 0" "ls_writers ?t first_id = Some (first_writer Holding None)" "dom (ls_writers ?t) = {first_id, second_id}"
    using ids(2) by (auto simp: put_writer_def first_sys_def lock_start_def)
  have "fst (is_held 0 (first_writer Holding None))" "wr_phase (first_writer Holding None) = Holding"
    by (simp_all add: first_writer_def is_held_def DEFAULT_LEASE_def)
  then have h: "holding ?t first_id" unfolding holding_def st option.case by blast
  have "first_id = j" if "holding ?t j" for j
    by (rule lock_excludes [OF t lock_world_law _ h that]) (simp add: st(1) lock_clocks)
  then show ?thesis using t st(3) h by blast
qed

end
