(* ===== verification/Mongo_Coerce.thy ===== *)
theory Mongo_Coerce
  imports Calendar Json "HOL-Library.AList"
begin

text \<open>
  Strings read as the ids and the dates a collection stores: \<open>packages/mongo/src/collection/coerce.ts\<close>. A schema
  gives the fields to coerce, by dotted path; a filter, a document or a patch is walked, and what is a value of
  such a field is converted when it is written in the one form that means one thing.
\<close>

section \<open>Values and schemas\<close>

text \<open>
  A value: a text, an \<open>ObjectId\<close> by its hex digits, a \<open>Date\<close> by its time, an array, a plain object by its own
  properties in order, and anything else, which the code hands on.
\<close>

datatype mval = MText string | MId string | MDate int | MList "mval list" | MRec "(string \<times> mval) list" | MOther string

type_synonym fields = "(string \<times> mval) list"

text \<open>A schema of zod, as \<open>defOf\<close> and \<open>meta\<close> read it: one whose \<open>bsonType\<close> is \<open>objectId\<close>, a date, an array, an object by
  its shape, a wrapper (optional, nullable, default...), any other.\<close>

datatype schema = SId | SDate | SArray schema | SObject "(string \<times> schema) list" | SWrap schema | SOther

type_synonym shape = "(string \<times> schema) list"

text \<open>\<open>BsonKind\<close>, and what a lookup by a name of \<open>Object.prototype\<close> finds instead.\<close>

datatype bson_kind = ObjectIdKind | DateKind | Inherited

type_synonym kinds = "(string \<times> bson_kind) list"

fun unwrap :: "schema \<Rightarrow> schema" where
  "unwrap (SWrap s) = unwrap s"
| "unwrap s = s"

fun bsonKindOf :: "schema \<Rightarrow> bson_kind option" where
  "bsonKindOf (SWrap s) = bsonKindOf s"
| "bsonKindOf (SArray e) = bsonKindOf e"
| "bsonKindOf SId = Some ObjectIdKind"
| "bsonKindOf SDate = Some DateKind"
| "bsonKindOf s = None"

text \<open>\<open>def.shape\<close>, or the shape of the elements.\<close>

fun own_shape :: "schema \<Rightarrow> shape option" where
  "own_shape (SObject sh) = Some sh"
| "own_shape s = None"

definition nested_shape :: "schema \<Rightarrow> shape option" where
  "nested_shape s = (case unwrap s of SObject sh \<Rightarrow> Some sh | SArray e \<Rightarrow> own_shape (unwrap e) | _ \<Rightarrow> None)"

lemma size_unwrap: "size (unwrap s) \<le> size s"
  by (induction s rule: unwrap.induct) simp_all

abbreviation shape_size :: "shape \<Rightarrow> nat" where
  "shape_size sh \<equiv> size_list (size_prod (\<lambda>_. 0) size) sh"

lemma nested_shape_size: "nested_shape s = Some sh \<Longrightarrow> shape_size sh < size s"
proof -
  assume n: "nested_shape s = Some sh"
  have u: "size (unwrap s) \<le> size s" by (rule size_unwrap)
  show ?thesis
  proof (cases "unwrap s")
    case (SArray e)
    then have "own_shape (unwrap e) = Some sh" using n by (simp add: nested_shape_def)
    then have "unwrap e = SObject sh" by (cases "unwrap e") simp_all
    then have "size (SObject sh) \<le> size e" using size_unwrap [of e] by simp
    then show ?thesis using u SArray by simp
  next
    case (SObject sh')
    then show ?thesis using n u by (simp add: nested_shape_def)
  qed (use n in \<open>simp_all add: nested_shape_def\<close>)
qed

section \<open>The fields to coerce\<close>

definition path_of :: "string \<Rightarrow> string \<Rightarrow> string" where
  "path_of prefix name = (if prefix = [] then name else prefix @ ''.'' @ name)"

text \<open>What \<open>walk\<close> assigns, in its order.\<close>

function kinds_walk :: "shape \<Rightarrow> string \<Rightarrow> kinds" where
  "kinds_walk [] prefix = []"
| "kinds_walk ((name, s) # fs) prefix = (case bsonKindOf s of
       Some k \<Rightarrow> [(path_of prefix name, k)]
     | None \<Rightarrow> (case nested_shape s of Some sh \<Rightarrow> kinds_walk sh (path_of prefix name) | None \<Rightarrow> [])) @ kinds_walk fs prefix"
  by pat_completeness auto

termination
proof (relation "measure (\<lambda>(sh, prefix). shape_size sh)")
  fix name s fs prefix and sh :: shape
  assume "nested_shape s = Some sh"
  then have "shape_size sh < size s" by (rule nested_shape_size)
  then show "((sh, path_of prefix name), ((name, s) # fs, prefix)) \<in> measure (\<lambda>(sh, prefix). shape_size sh)" by simp
qed simp_all

definition kindsOf :: "shape \<Rightarrow> kinds" where
  "kindsOf sh = fold (\<lambda>(p, k) kinds. AList.update p k kinds) (kinds_walk sh []) []"

text \<open>\<open>kinds[key]\<close>: \<open>kinds\<close> is a plain object, so a name of \<open>Object.prototype\<close> finds what it inherits.\<close>

definition PROTOTYPE :: "string set" where
  "PROTOTYPE = {''constructor'', ''hasOwnProperty'', ''isPrototypeOf'', ''propertyIsEnumerable'', ''toLocaleString'', ''toString'', ''valueOf'',
     ''__proto__'', ''__defineGetter__'', ''__defineSetter__'', ''__lookupGetter__'', ''__lookupSetter__''}"

definition kind_at :: "kinds \<Rightarrow> string \<Rightarrow> bson_kind option" where
  "kind_at ks key = (case map_of ks key of Some k \<Rightarrow> Some k | None \<Rightarrow> if key \<in> PROTOTYPE then Some Inherited else None)"

definition kindsUnder :: "kinds \<Rightarrow> string \<Rightarrow> kinds option" where
  "kindsUnder ks path = (let prefix = path @ ''.''; inside = map (\<lambda>(key, k). (drop (length prefix) key, k)) (filter (\<lambda>(key, k). starts_with prefix key) ks) in
     if inside \<noteq> [] then Some inside else None)"

section \<open>Texts that are ids and dates\<close>

definition hex_char :: "char \<Rightarrow> bool" where
  "hex_char c = (is_hex c \<or> (65 \<le> (of_char c :: nat) \<and> (of_char c :: nat) \<le> 70))"

definition lower_hex :: "char \<Rightarrow> char" where
  "lower_hex c = (if 65 \<le> (of_char c :: nat) \<and> (of_char c :: nat) \<le> 70 then char_of (of_char c + 32 :: nat) else c)"

definition HEX_24 :: "string \<Rightarrow> bool" where
  "HEX_24 s = (length s = 24 \<and> list_all hex_char s)"

text \<open>Two digits at the head of a text.\<close>

fun two_digits_of :: "string \<Rightarrow> (int \<times> string) option" where
  "two_digits_of (a # b # r) = (if is_digit a \<and> is_digit b then Some (int (parse_nat [a, b]), r) else None)"
| "two_digits_of s = None"

text \<open>The seconds and their fraction, when there are any: \<open>(?::\d{2}(?:\.\d{1,3})?)?\<close>.\<close>

definition seconds_of :: "string \<Rightarrow> (int \<times> int \<times> string) option" where
  "seconds_of s = (case s of
     c # r \<Rightarrow> if c \<noteq> CHR '':'' then Some (0, 0, s)
       else (case two_digits_of r of None \<Rightarrow> None
         | Some (sec, r2) \<Rightarrow> (case r2 of
             d # r3 \<Rightarrow> if d \<noteq> CHR ''.'' then Some (sec, 0, r2)
               else (let n = length (takeWhile is_digit r3) in
                 if n < 1 \<or> n > 3 then None else Some (sec, int (parse_nat (take n r3)) * 10 ^ (3 - n), drop n r3))
           | [] \<Rightarrow> Some (sec, 0, r2)))
   | [] \<Rightarrow> Some (0, 0, s))"

text \<open>The zone, in minutes: \<open>(?:Z|[+-]\d{2}:\d{2})$\<close>, as \<open>Date\<close> reads it (hours below 24, minutes below 60).\<close>

definition zone_of :: "string \<Rightarrow> int option" where
  "zone_of s = (if s = ''Z'' then Some 0
     else (case s of
         sign # r \<Rightarrow> (case two_digits_of r of
             Some (h, c # r2) \<Rightarrow> (case two_digits_of r2 of
                 Some (m, []) \<Rightarrow> if c = CHR '':'' \<and> sign \<in> {CHR ''+'', CHR ''-''} \<and> h < 24 \<and> m < 60
                     then Some ((if sign = CHR ''-'' then -1 else 1) * (60 * h + m)) else None
               | _ \<Rightarrow> None)
           | _ \<Rightarrow> None)
       | [] \<Rightarrow> None))"

text \<open>The milliseconds of a time with its zone, from the day's midnight in UTC.\<close>

definition time_of :: "string \<Rightarrow> int option" where
  "time_of s = (case s of
     [] \<Rightarrow> Some 0
   | t # r \<Rightarrow> (case two_digits_of r of
         Some (h, c # r2) \<Rightarrow> (case two_digits_of r2 of
             Some (mi, r3) \<Rightarrow> (case seconds_of r3 of
                 Some (sec, ms, r4) \<Rightarrow> (case zone_of r4 of
                     Some z \<Rightarrow> if t = CHR ''T'' \<and> c = CHR '':'' \<and> mi < 60 \<and> sec < 60 \<and> (h < 24 \<or> h = 24 \<and> mi = 0 \<and> sec = 0 \<and> ms = 0)
                         then Some (((h * 60 + mi - z) * 60 + sec) * 1000 + ms) else None
                   | None \<Rightarrow> None)
               | None \<Rightarrow> None)
           | None \<Rightarrow> None)
       | _ \<Rightarrow> None))"

text \<open>\<open>Date.UTC\<close> takes a year below 100 as one of the 1900s.\<close>

definition isCalendarDate :: "int \<Rightarrow> int \<Rightarrow> int \<Rightarrow> bool" where
  "isCalendarDate y m d = (if m < 1 \<or> m > 12 \<or> d < 1 then False else d \<le> month_len (if 0 \<le> y \<and> y \<le> 99 then 1900 + y else y) m)"

text \<open>\<open>ISO_DATE\<close>, the calendar, then \<open>new Date\<close>: the time of a text that is one unambiguous date.\<close>

definition iso_given :: "string \<Rightarrow> int option" where
  "iso_given s = (if \<not> (10 \<le> length s \<and> list_all is_digit (take 4 s @ take 2 (drop 5 s) @ take 2 (drop 8 s)) \<and> s ! 4 = CHR ''-'' \<and> s ! 7 = CHR ''-'') then None
     else (let y = int (parse_nat (take 4 s)); m = int (parse_nat (take 2 (drop 5 s))); d = int (parse_nat (take 2 (drop 8 s))) in
       if \<not> isCalendarDate y m d then None
       else map_option (\<lambda>t. date_utc y m d 0 0 0 0 + t) (time_of (drop 10 s))))"

section \<open>Coercing\<close>

fun isPlain :: "mval \<Rightarrow> bool" where
  "isPlain (MRec fs) = True"
| "isPlain v = False"

fun coerceValue :: "bson_kind \<Rightarrow> mval \<Rightarrow> mval" where
  "coerceValue k (MList vs) = MList (map (coerceValue k) vs)"
| "coerceValue k (MText t) = (if k = ObjectIdKind then (if HEX_24 t then MId (map lower_hex t) else MText t)
     else (case iso_given t of Some d \<Rightarrow> MDate d | None \<Rightarrow> MText t))"
| "coerceValue k v = v"

definition VALUE_OPERATORS :: "string set" where
  "VALUE_OPERATORS = {''$eq'', ''$ne'', ''$gt'', ''$gte'', ''$lt'', ''$lte'', ''$in'', ''$nin'', ''$all'', ''$each''}"

definition FILTER_OPERATORS :: "string set" where
  "FILTER_OPERATORS = {''$and'', ''$or'', ''$nor''}"

text \<open>\<open>out[key] = v\<close> on a new object: an assignment to \<open>__proto__\<close> makes no property.\<close>

definition set_prop :: "string \<Rightarrow> mval \<Rightarrow> fields \<Rightarrow> fields" where
  "set_prop key v rest = (if key = ''__proto__'' then rest else (key, v) # rest)"

fun coerceOperators :: "bson_kind \<Rightarrow> fields \<Rightarrow> fields" where
  "coerceOperators k [] = []"
| "coerceOperators k ((op, MRec fs) # ops) = set_prop op (if op = ''$not'' then MRec (coerceOperators k fs)
     else if op \<in> VALUE_OPERATORS then coerceValue k (MRec fs) else MRec fs) (coerceOperators k ops)"
| "coerceOperators k ((op, v) # ops) = set_prop op (if op \<in> VALUE_OPERATORS then coerceValue k v else v) (coerceOperators k ops)"

fun coerceFields :: "kinds \<Rightarrow> fields \<Rightarrow> fields" and coerceNested :: "kinds \<Rightarrow> string \<Rightarrow> mval \<Rightarrow> mval" where
  "coerceFields ks [] = []"
| "coerceFields ks ((key, MRec fs) # rest) = set_prop key
     (if starts_with ''$'' key then MRec (coerceFields ks fs)
      else (case kind_at ks key of None \<Rightarrow> coerceNested ks key (MRec fs) | Some k \<Rightarrow> MRec (coerceOperators k fs))) (coerceFields ks rest)"
| "coerceFields ks ((key, v) # rest) = set_prop key
     (case kind_at ks key of None \<Rightarrow> coerceNested ks key v | Some k \<Rightarrow> coerceValue k v) (coerceFields ks rest)"
| "coerceNested ks path (MList vs) = MList (map (coerceNested ks path) vs)"
| "coerceNested ks path (MRec fs) = (case kindsUnder ks path of Some inside \<Rightarrow> MRec (coerceFields inside fs) | None \<Rightarrow> MRec fs)"
| "coerceNested ks path v = v"

lemma map_of_rec_size: "map_of fs k = Some v \<Longrightarrow> size v < size_list (size_prod (\<lambda>_. 0) size) fs"
  by (induction fs) (auto split: if_splits)

text \<open>The property \<open>$elemMatch\<close> of \<open>{ ...value, $elemMatch: ... }\<close> takes the place the value's own had.\<close>

function coerceFilter :: "kinds \<Rightarrow> fields \<Rightarrow> fields" where
  "coerceFilter ks [] = []"
| "coerceFilter ks ((key, MList vs) # rest) = set_prop key
     (if key \<in> FILTER_OPERATORS then MList (map (\<lambda>one. case one of MRec fs \<Rightarrow> MRec (coerceFilter ks fs) | _ \<Rightarrow> one) vs)
      else (case kind_at ks key of None \<Rightarrow> MList vs | Some k \<Rightarrow> coerceValue k (MList vs))) (coerceFilter ks rest)"
| "coerceFilter ks ((key, MRec fs) # rest) = set_prop key
     (if key = ''$not'' then MRec (coerceFilter ks fs)
      else (case kind_at ks key of
          Some k \<Rightarrow> MRec (coerceOperators k fs)
        | None \<Rightarrow> (case map_of fs ''$elemMatch'' of
            Some (MRec inner) \<Rightarrow> (case kindsUnder ks key of
                Some inside \<Rightarrow> MRec (AList.update ''$elemMatch'' (MRec (coerceFilter inside inner)) fs)
              | None \<Rightarrow> MRec fs)
          | _ \<Rightarrow> MRec fs))) (coerceFilter ks rest)"
| "coerceFilter ks ((key, MText t) # rest) = set_prop key (case kind_at ks key of None \<Rightarrow> MText t | Some k \<Rightarrow> coerceValue k (MText t)) (coerceFilter ks rest)"
| "coerceFilter ks ((key, MId i) # rest) = set_prop key (MId i) (coerceFilter ks rest)"
| "coerceFilter ks ((key, MDate d) # rest) = set_prop key (MDate d) (coerceFilter ks rest)"
| "coerceFilter ks ((key, MOther t) # rest) = set_prop key (MOther t) (coerceFilter ks rest)"
  by pat_completeness auto

termination
proof (relation "measure (\<lambda>(ks, fs). size_list (size_prod (\<lambda>_. 0) size) fs)")
  fix ks and key :: string and vs :: "mval list" and rest :: fields and one fs
  assume "one \<in> set vs" "one = MRec fs"
  then have "size (MRec fs) \<le> size_list size vs" using size_list_estimation' [of "MRec fs" vs "size (MRec fs)" size] by simp
  then show "((ks, fs), (ks, (key, MList vs) # rest)) \<in> measure (\<lambda>(ks, fs). size_list (size_prod (\<lambda>_. 0) size) fs)" by simp
next
  fix ks ks' and key :: string and fs rest inner and v :: mval
  assume "map_of fs ''$elemMatch'' = Some v" "v = MRec inner"
  then have "size (MRec inner) < size_list (size_prod (\<lambda>_. 0) size) fs" using map_of_rec_size [of fs _ v] by simp
  then show "((ks', inner), (ks, (key, MRec fs) # rest)) \<in> measure (\<lambda>(ks, fs). size_list (size_prod (\<lambda>_. 0) size) fs)" by simp
qed simp_all

section \<open>A collection's filters and values\<close>

text \<open>What \<open>coerce.ts\<close> and \<open>filters.ts\<close> read of a collection's context.\<close>

record cctx =
  cc_name :: string
  cc_coerces :: bool
  cc_kinds :: kinds
  cc_softDeletes :: bool
  cc_deletedAt :: "string option"

definition coercedValues :: "cctx \<Rightarrow> mval \<Rightarrow> mval" where
  "coercedValues ctx v = (case v of MRec fs \<Rightarrow> if cc_coerces ctx then MRec (coerceFields (cc_kinds ctx) fs) else v | _ \<Rightarrow> v)"

definition coerceId :: "cctx \<Rightarrow> mval \<Rightarrow> mval" where
  "coerceId ctx v = (case kind_at (cc_kinds ctx) ''_id'' of Some k \<Rightarrow> if cc_coerces ctx then coerceValue k v else v | None \<Rightarrow> v)"

definition isUpdateFilter :: "fields \<Rightarrow> bool" where
  "isUpdateFilter patch = (\<exists>key \<in> set (map fst patch). starts_with ''$'' key)"

definition mergeFilters :: "fields option \<Rightarrow> fields option \<Rightarrow> fields" where
  "mergeFilters a b = (let left = (if a = Some [] then None else a); right = (if b = Some [] then None else b) in
     case left of None \<Rightarrow> (case right of None \<Rightarrow> [] | Some r \<Rightarrow> r)
     | Some l \<Rightarrow> (case right of None \<Rightarrow> l | Some r \<Rightarrow> [(''$and'', MList [MRec l, MRec r])]))"

definition live :: "cctx \<Rightarrow> bool \<Rightarrow> fields option" where
  "live ctx withDeleted = (case cc_deletedAt ctx of None \<Rightarrow> None
     | Some field \<Rightarrow> if \<not> cc_softDeletes ctx \<or> withDeleted \<or> field = [] then None else Some [(field, MOther ''null'')])"

text \<open>\<open>isRecord\<close> takes any object but an array; what is not a plain one is given by its own properties.\<close>

definition coerced :: "cctx \<Rightarrow> fields option \<Rightarrow> fields" where
  "coerced ctx filt = (let given = (case filt of None \<Rightarrow> [] | Some fs \<Rightarrow> fs) in if cc_coerces ctx then coerceFilter (cc_kinds ctx) given else given)"

definition scoped :: "cctx \<Rightarrow> fields option \<Rightarrow> bool \<Rightarrow> fields" where
  "scoped ctx filt withDeleted = mergeFilters (map_option (\<lambda>fs. coerced ctx (Some fs)) filt) (live ctx withDeleted)"

definition requireFilter :: "cctx \<Rightarrow> string \<Rightarrow> fields option \<Rightarrow> unit result" where
  "requireFilter ctx call filt = (if filt = None \<or> filt = Some []
     then Inl (call @ '' needs a filter. Pass `{ _id: { $exists: true } }` to target every document of \"'' @ cc_name ctx @ ''\".'')
     else Inr ())"

end
