(* ===== verification/Mongo_Coerce_Types.thy ===== *)
theory Mongo_Coerce_Types
  imports Mongo_Coerce
begin

text \<open>
  What the coercion of \<open>Mongo_Coerce\<close> makes of a typed document: it agrees with the conversion the schema
  directs, a document given as \<open>AsGiven\<close> allows becomes one of the stored types, and a second pass changes
  nothing.
\<close>

section \<open>The types\<close>

fun is_other :: "mval \<Rightarrow> bool" where
  "is_other (MOther t) = True"
| "is_other v = False"

lemma is_other_iff: "is_other v \<longleftrightarrow> (\<exists>t. v = MOther t)"
  by (cases v) simp_all

lemma map_of_shape_size: "map_of sh k = Some s \<Longrightarrow> size s < shape_size sh"
  by (induction sh) (auto split: if_splits)

text \<open>A value of a schema, with what an id and a date may be.\<close>

function conforms :: "(mval \<Rightarrow> bool) \<Rightarrow> (mval \<Rightarrow> bool) \<Rightarrow> schema \<Rightarrow> mval \<Rightarrow> bool" where
  "conforms ids dates SId v = ids v"
| "conforms ids dates SDate v = dates v"
| "conforms ids dates SOther v = True"
| "conforms ids dates (SWrap s) v = (is_other v \<or> conforms ids dates s v)"
| "conforms ids dates (SArray e) v = (case v of MList vs \<Rightarrow> (\<forall>x \<in> set vs. conforms ids dates e x) | _ \<Rightarrow> False)"
| "conforms ids dates (SObject sh) v = (case v of
     MRec fs \<Rightarrow> (\<forall>(k, x) \<in> set fs. case map_of sh k of None \<Rightarrow> False | Some s \<Rightarrow> conforms ids dates s x) | _ \<Rightarrow> False)"
  by pat_completeness auto

termination
proof (relation "measure (\<lambda>(ids, dates, s, v). size s)")
  fix ids dates :: "mval \<Rightarrow> bool" and sh :: shape and v x :: mval and k :: string and s :: schema
  assume "map_of sh k = Some s"
  then have "size s < shape_size sh" by (rule map_of_shape_size)
  then show "((ids, dates, s, x), (ids, dates, SObject sh, v)) \<in> measure (\<lambda>(ids, dates, s, v). size s)" by simp
qed simp_all

fun is_id :: "mval \<Rightarrow> bool" where
  "is_id (MId i) = True"
| "is_id v = False"

fun is_date :: "mval \<Rightarrow> bool" where
  "is_date (MDate d) = True"
| "is_date v = False"

fun id_given :: "mval \<Rightarrow> bool" where
  "id_given (MText t) = HEX_24 t"
| "id_given v = is_id v"

fun date_given :: "mval \<Rightarrow> bool" where
  "date_given (MText t) = (iso_given t \<noteq> None)"
| "date_given v = is_date v"

abbreviation stored :: "schema \<Rightarrow> mval \<Rightarrow> bool" where
  "stored \<equiv> conforms is_id is_date"

abbreviation as_given :: "schema \<Rightarrow> mval \<Rightarrow> bool" where
  "as_given \<equiv> conforms id_given date_given"

text \<open>The conversion a schema directs.\<close>

fun to_id :: "mval \<Rightarrow> mval" where
  "to_id (MText t) = (if HEX_24 t then MId (map lower_hex t) else MText t)"
| "to_id v = v"

fun to_date :: "mval \<Rightarrow> mval" where
  "to_date (MText t) = (case iso_given t of Some d \<Rightarrow> MDate d | None \<Rightarrow> MText t)"
| "to_date v = v"

declare is_other_iff [simp]

function to_stored :: "schema \<Rightarrow> mval \<Rightarrow> mval" where
  "to_stored SId v = to_id v"
| "to_stored SDate v = to_date v"
| "to_stored SOther v = v"
| "to_stored (SWrap s) v = (case v of MOther t \<Rightarrow> v | _ \<Rightarrow> to_stored s v)"
| "to_stored (SArray e) v = (case v of MList vs \<Rightarrow> MList (map (to_stored e) vs) | _ \<Rightarrow> v)"
| "to_stored (SObject sh) v = (case v of
     MRec fs \<Rightarrow> MRec (map (\<lambda>(k, x). (k, case map_of sh k of None \<Rightarrow> x | Some s \<Rightarrow> to_stored s x)) fs) | _ \<Rightarrow> v)"
  by pat_completeness auto

termination
proof (relation "measure (\<lambda>(s, v). size s)")
  fix sh :: shape and v x :: mval and k :: string and s :: schema
  assume "map_of sh k = Some s"
  then have "size s < shape_size sh" by (rule map_of_shape_size)
  then show "((s, x), (SObject sh, v)) \<in> measure (\<lambda>(s, v). size s)" by simp
qed simp_all

text \<open>Every value that conforms as given conforms as stored once converted.\<close>

lemma to_stored_stored: "as_given s v \<Longrightarrow> stored s (to_stored s v)"
proof (induction s v rule: to_stored.induct)
  case (1 v)
  then show ?case by (cases v) auto
next
  case (2 v)
  then show ?case by (cases v) auto
next
  case (4 s v)
  then show ?case by (cases v) auto
next
  case (5 e v)
  then show ?case by (cases v) auto
next
  case (6 sh v)
  then show ?case by (cases v) (auto split: option.splits)
qed simp_all

section \<open>Field names\<close>

text \<open>
  A name a schema may give a field: not empty, without a dot, no operator and no name of \<open>Object.prototype\<close>. An
  array of arrays of objects is left out, which \<open>kindsOf\<close> does not walk, unless nothing in it is coerced.
\<close>

definition name_ok :: "string \<Rightarrow> bool" where
  "name_ok n = (n \<noteq> [] \<and> CHR ''.'' \<notin> set n \<and> \<not> starts_with ''$'' n \<and> n \<notin> PROTOTYPE)"

fun inert :: "schema \<Rightarrow> bool" where
  "inert SId = False"
| "inert SDate = False"
| "inert SOther = True"
| "inert (SWrap s) = inert s"
| "inert (SArray e) = inert e"
| "inert (SObject sh) = (\<forall>(n, s) \<in> set sh. inert s)"

fun nested_array :: "schema \<Rightarrow> bool" where
  "nested_array (SArray e) = True"
| "nested_array s = False"

fun schema_ok :: "schema \<Rightarrow> bool" where
  "schema_ok (SWrap s) = schema_ok s"
| "schema_ok (SArray e) = (schema_ok e \<and> (bsonKindOf e = None \<and> nested_array (unwrap e) \<longrightarrow> inert e))"
| "schema_ok (SObject sh) = (distinct (map fst sh) \<and> (\<forall>(n, s) \<in> set sh. name_ok n \<and> schema_ok s))"
| "schema_ok s = True"

text \<open>What \<open>walk\<close> assigns for one field, its own kinds prefixed by its name.\<close>

definition under_name :: "string \<Rightarrow> kinds \<Rightarrow> kinds" where
  "under_name n ks = map (\<lambda>(p, k). (n @ ''.'' @ p, k)) ks"

definition field_kinds :: "string \<times> schema \<Rightarrow> kinds" where
  "field_kinds f = (case bsonKindOf (snd f) of Some k \<Rightarrow> [(fst f, k)]
     | None \<Rightarrow> (case nested_shape (snd f) of Some sh \<Rightarrow> under_name (fst f) (kinds_walk sh []) | None \<Rightarrow> []))"

lemma under_name_Nil [simp]: "under_name n [] = []"
  by (simp add: under_name_def)

lemma under_name_append [simp]: "under_name n (a @ b) = under_name n a @ under_name n b"
  by (simp add: under_name_def)

lemma schema_ok_unwrap: "schema_ok s \<Longrightarrow> schema_ok (unwrap s)"
  by (induction s rule: unwrap.induct) simp_all

lemma schema_ok_nested: "schema_ok s \<Longrightarrow> nested_shape s = Some sh \<Longrightarrow> schema_ok (SObject sh)"
proof -
  assume ok: "schema_ok s" and n: "nested_shape s = Some sh"
  then have u: "schema_ok (unwrap s)" by (simp add: schema_ok_unwrap)
  show ?thesis
  proof (cases "unwrap s")
    case (SArray e)
    then have "unwrap e = SObject sh" using n by (cases "unwrap e") (simp_all add: nested_shape_def)
    then show ?thesis using u SArray schema_ok_unwrap [of e] by simp
  next
    case (SObject sh')
    then show ?thesis using n u by (simp add: nested_shape_def)
  qed (use n in \<open>simp_all add: nested_shape_def\<close>)
qed

lemma walk_prefixed: "schema_ok (SObject sh) \<Longrightarrow> pre \<noteq> [] \<Longrightarrow> kinds_walk sh pre = under_name pre (kinds_walk sh [])"
proof (induction sh "pre" arbitrary: "pre" rule: kinds_walk.induct)
  case (2 name s fs p)
  have ok: "name \<noteq> []" "schema_ok s" "schema_ok (SObject fs)" using 2(3) by (simp_all add: name_ok_def)
  have rest: "kinds_walk fs pre = under_name pre (kinds_walk fs [])" using 2(2) [OF ok(3) 2(4)] .
  show ?case
  proof (cases "bsonKindOf s")
    case (Some k)
    then show ?thesis using rest 2(4) by (simp add: path_of_def under_name_def)
  next
    case None
    show ?thesis
    proof (cases "nested_shape s")
      case (Some sh)
      have deep: "kinds_walk sh q = under_name q (kinds_walk sh [])" if "q \<noteq> []" for q
        using 2(1) [OF None Some schema_ok_nested [OF ok(2) Some] that] .
      show ?thesis using None Some rest deep [of "path_of pre name"] deep [of name] ok(1) 2(4)
        by (simp add: path_of_def under_name_def split_beta)
    qed (use None rest in simp)
  qed
qed simp

lemma walk_fields: "schema_ok (SObject sh) \<Longrightarrow> kinds_walk sh [] = concat (map field_kinds sh)"
proof (induction sh)
  case (Cons f sh)
  obtain n s where f: "f = (n, s)" by (cases f)
  have ok: "n \<noteq> []" "schema_ok s" "schema_ok (SObject sh)" using Cons.prems by (simp_all add: f name_ok_def)
  have "kinds_walk sh' n = under_name n (kinds_walk sh' [])" if "nested_shape s = Some sh'" for sh'
    using walk_prefixed [OF schema_ok_nested [OF ok(2) that] ok(1)] .
  then show ?case using Cons.IH [OF ok(3)]
    by (cases "bsonKindOf s"; cases "nested_shape s") (simp_all add: f field_kinds_def path_of_def)
qed simp

text \<open>A path's first name is its field's.\<close>

definition head_name :: "string \<Rightarrow> string" where
  "head_name p = takeWhile (\<lambda>c. c \<noteq> CHR ''.'') p"

lemma head_name_path: "CHR ''.'' \<notin> set n \<Longrightarrow> head_name n = n" "CHR ''.'' \<notin> set n \<Longrightarrow> head_name (n @ CHR ''.'' # p) = n"
  unfolding head_name_def by (induction n) auto

lemma field_kinds_head: "(p, k) \<in> set (field_kinds (n, s)) \<Longrightarrow> CHR ''.'' \<notin> set n \<Longrightarrow> head_name p = n"
  by (auto simp: field_kinds_def under_name_def head_name_path split: option.splits)

lemma map_of_under: "CHR ''.'' \<notin> set n \<Longrightarrow> map_of (under_name m ks) n = None"
  by (induction ks) (auto simp: under_name_def)

lemma map_of_fields:
  assumes "\<forall>f \<in> set sh. CHR ''.'' \<notin> set (fst f)" "distinct (map fst sh)" "CHR ''.'' \<notin> set n"
  shows "map_of (concat (map field_kinds sh)) n = (case map_of sh n of None \<Rightarrow> None | Some s \<Rightarrow> bsonKindOf s)"
  using assms(1, 2)
proof (induction sh)
  case (Cons f sh)
  obtain m s where f: "f = (m, s)" by (cases f)
  show ?case
  proof (cases "m = n")
    case True
    have "map_of (field_kinds f) n = bsonKindOf s"
      using True assms(3) map_of_under [of n] by (auto simp: f field_kinds_def split: option.split)
    moreover have "map_of sh n = None" using Cons.prems(2) True by (simp add: f map_of_eq_None_iff)
    moreover have "map_of (concat (map field_kinds sh)) n = None" using Cons \<open>map_of sh n = None\<close> by simp
    ultimately show ?thesis using True by (simp add: f map_add_def split: option.split)
  next
    case False
    have "n \<notin> fst ` set (field_kinds f)"
      using field_kinds_head [of n _ m s] Cons.prems(1) False head_name_path(1) [OF assms(3)] by (force simp: f)
    then have "map_of (field_kinds f) n = None" by (simp add: map_of_eq_None_iff)
    then show ?thesis using Cons False by (simp add: f map_add_def split: option.split)
  qed
qed simp

lemma starts_with_name:
  assumes "CHR ''.'' \<notin> set n" "head_name p \<noteq> n"
  shows "\<not> starts_with (n @ ''.'') p"
proof
  assume "starts_with (n @ ''.'') p"
  then have "p = (n @ ''.'') @ drop (length (n @ ''.'')) p" unfolding starts_with_def by (metis append_take_drop_id)
  then have "head_name p = n" using head_name_path(2) [OF assms(1), of "drop (length (n @ ''.'')) p"] by simp
  then show False using assms(2) by simp
qed

lemma under_kept: "filter (\<lambda>(key, k). starts_with (n @ ''.'') key) (under_name n ks) = under_name n ks"
  by (induction ks) (auto simp: under_name_def starts_with_def)

lemma under_stripped: "map (\<lambda>(key, k). (drop (length (n @ ''.'')) key, k)) (under_name n ks) = ks"
  by (induction ks) (auto simp: under_name_def)

lemma filter_fields:
  assumes "\<forall>f \<in> set sh. CHR ''.'' \<notin> set (fst f)" "distinct (map fst sh)" "(n, s) \<in> set sh"
  shows "filter (\<lambda>(key, k). starts_with (n @ ''.'') key) (concat (map field_kinds sh)) =
    (case bsonKindOf s of Some k \<Rightarrow> [] | None \<Rightarrow> (case nested_shape s of Some sh' \<Rightarrow> under_name n (kinds_walk sh' []) | None \<Rightarrow> []))"
  using assms
proof (induction sh)
  case (Cons f sh)
  have dot: "CHR ''.'' \<notin> set n" using Cons.prems(1, 3) by auto
  have other: "filter (\<lambda>(key, k). starts_with (n @ ''.'') key) (field_kinds g) = []" if "g \<in> set (f # sh)" "fst g \<noteq> n" for g
  proof -
    have "\<not> starts_with (n @ ''.'') key" if "(key, k) \<in> set (field_kinds g)" for key k
    proof -
      have "head_name key = fst g" using field_kinds_head [of key k "fst g" "snd g"] that Cons.prems(1) \<open>g \<in> set (f # sh)\<close> by auto
      then show ?thesis using starts_with_name [OF dot] \<open>fst g \<noteq> n\<close> by simp
    qed
    then show ?thesis by (auto simp: filter_empty_conv)
  qed
  show ?case
  proof (cases "f = (n, s)")
    case True
    have "filter (\<lambda>(key, k). starts_with (n @ ''.'') key) (concat (map field_kinds sh)) = []"
    proof -
      have "fst g \<noteq> n" if "g \<in> set sh" for g using Cons.prems(2) True that by force
      then show ?thesis using other by (simp add: filter_concat comp_def)
    qed
    moreover have "\<not> starts_with (n @ ''.'') n" by (simp add: starts_with_def)
    then have "filter (\<lambda>(key, k). starts_with (n @ ''.'') key) (field_kinds f) = (case bsonKindOf s of Some k \<Rightarrow> []
        | None \<Rightarrow> (case nested_shape s of Some sh' \<Rightarrow> under_name n (kinds_walk sh' []) | None \<Rightarrow> []))"
      unfolding True by (simp only: field_kinds_def fst_conv snd_conv) (simp add: under_kept split: option.split)
    ultimately show ?thesis by simp
  next
    case False
    then have "(n, s) \<in> set sh" using Cons.prems(3) by auto
    then have "n \<in> set (map fst sh)" by force
    then have "fst f \<noteq> n" using Cons.prems(2) by auto
    then show ?thesis using other [of f] Cons False by auto
  qed
qed simp

lemma kindsUnder_field:
  assumes "schema_ok (SObject sh)" "(n, s) \<in> set sh" "bsonKindOf s = None"
  shows "kindsUnder (kinds_walk sh []) n = (case nested_shape s of None \<Rightarrow> None
    | Some sh' \<Rightarrow> if kinds_walk sh' [] = [] then None else Some (kinds_walk sh' []))"
proof -
  have names: "\<forall>f \<in> set sh. CHR ''.'' \<notin> set (fst f)" "distinct (map fst sh)" using assms(1) by (auto simp: name_ok_def)
  have strip: "map (\<lambda>(key, k). (drop (length (n @ ''.'')) key, k)) (under_name n ks) = ks" for ks by (rule under_stripped)
  show ?thesis unfolding kindsUnder_def walk_fields [OF assms(1)] Let_def filter_fields [OF names assms(2)] assms(3) option.case
    by (cases "nested_shape s") (simp_all only: option.case strip list.map refl if_False if_True simp_thms split: if_split, blast)
qed

lemma kind_of_field:
  assumes "schema_ok (SObject sh)" "(n, s) \<in> set sh"
  shows "kind_at (kinds_walk sh []) n = bsonKindOf s"
proof -
  have names: "\<forall>f \<in> set sh. CHR ''.'' \<notin> set (fst f)" "distinct (map fst sh)" "CHR ''.'' \<notin> set n" "n \<notin> PROTOTYPE"
    using assms by (auto simp: name_ok_def)
  have "map_of sh n = Some s" using names(2) assms(2) by simp
  then have "map_of (kinds_walk sh []) n = bsonKindOf s"
    unfolding walk_fields [OF assms(1)] map_of_fields [OF names(1-3)] by simp
  then show ?thesis using names(4) by (cases "bsonKindOf s") (simp_all add: kind_at_def)
qed

section \<open>The coercion and the conversion agree\<close>

lemma coerce_value_typed: "bsonKindOf s = Some k \<Longrightarrow> as_given s v \<Longrightarrow> coerceValue k v = to_stored s v \<and> \<not> isPlain v"
proof (induction s arbitrary: v rule: bsonKindOf.induct)
  case (1 s)
  then show ?case using 1(1) [of v] by (cases v) auto
next
  case (2 e)
  then show ?case by (cases v) auto
next
  case 3
  then show ?case by (cases v) auto
next
  case 4
  then show ?case by (cases v) auto
qed simp_all

lemma bsonKindOf_unwrap: "bsonKindOf (unwrap s) = bsonKindOf s"
  by (induction s rule: unwrap.induct) simp_all

lemma to_stored_unwrap: "to_stored (unwrap s) v = to_stored s v"
proof (induction s rule: unwrap.induct)
  case (1 s)
  show ?case
  proof (cases "\<exists>t. v = MOther t")
    case True
    have "to_stored r (MOther t) = MOther t" for r t by (induction r "MOther t" rule: to_stored.induct) simp_all
    then show ?thesis using True by auto
  qed (use 1 in \<open>cases v; simp\<close>)
qed simp_all

lemma inert_same: "inert s \<Longrightarrow> to_stored s v = v"
proof (induction s v rule: to_stored.induct)
  case (4 s v)
  then show ?case by (cases v) auto
next
  case (5 e v)
  then show ?case by (cases v) (auto intro: map_idI)
next
  case (6 sh v)
  show ?case
  proof (cases v)
    case (MRec fs)
    have "(case map_of sh k of None \<Rightarrow> x | Some s \<Rightarrow> to_stored s x) = x" if "(k, x) \<in> set fs" for k x
    proof (cases "map_of sh k")
      case (Some s)
      then have "inert s" using 6(2) map_of_SomeD [OF Some] by auto
      then show ?thesis using 6(1) [OF MRec that refl Some] Some by simp
    qed simp
    then have "map (\<lambda>(k, x). (k, case map_of sh k of None \<Rightarrow> x | Some s \<Rightarrow> to_stored s x)) fs = fs" by (intro map_idI) auto
    then show ?thesis using MRec by simp
  qed simp_all
qed simp_all

lemma unwrap_not_wrap: "unwrap s \<noteq> SWrap r"
  by (induction s rule: unwrap.induct) simp_all

text \<open>A shape without kinds has nothing to convert.\<close>

lemma no_kinds_inert:
  "schema_ok (SObject sh) \<Longrightarrow> kinds_walk sh p = [] \<Longrightarrow> inert (SObject sh)"
proof (induction sh p rule: kinds_walk.induct)
  case (2 name s fs p)
  have rest: "inert (SObject fs)" using 2 by simp
  have none: "bsonKindOf s = None" using 2(4) by (auto split: option.splits)
  have nested: "inert (SObject sh)" if "nested_shape s = Some sh" for sh
    using 2(1) [OF none that schema_ok_nested [OF _ that]] 2(3, 4) none that by simp
  have "inert s"
  proof -
    have u: "inert (unwrap r) = inert r" for r by (induction r rule: unwrap.induct) simp_all
    have ok: "schema_ok (unwrap s)" using 2(3) schema_ok_unwrap by simp
    have k: "bsonKindOf (unwrap s) = None" using none by (simp add: bsonKindOf_unwrap)
    have "inert (unwrap s)"
    proof (cases "unwrap s")
      case (SArray e)
      show ?thesis
      proof (cases "unwrap e")
        case (SObject sh)
        then show ?thesis using nested [of sh] SArray u [of e] by (simp add: nested_shape_def)
      qed (use SArray k ok u [of e] bsonKindOf_unwrap [of e] unwrap_not_wrap [of e] in auto)
    next
      case (SObject sh)
      then show ?thesis using nested [of sh] by (simp add: nested_shape_def)
    qed (use k unwrap_not_wrap [of s] in auto)
    then show ?thesis using u by simp
  qed
  then show ?case using rest by simp
qed simp

text \<open>\<open>kindsOf\<close> assigns each path once.\<close>

lemma update_all: "distinct (map fst (acc @ ps)) \<Longrightarrow> fold (\<lambda>(p, k) kinds. AList.update p k kinds) ps acc = acc @ ps"
proof (induction ps arbitrary: acc)
  case (Cons a ps)
  obtain p k where a: "a = (p, k)" by (cases a)
  have "p \<notin> fst ` set acc" using Cons.prems by (auto simp: a)
  then have "AList.update p k acc = acc @ [(p, k)]" by (induction acc) auto
  then show ?case using Cons.IH [of "acc @ [(p, k)]"] Cons.prems by (simp add: a)
qed simp

lemma distinct_under: "distinct (map fst (under_name n ks)) = distinct (map fst ks)"
proof -
  have "map fst (under_name n ks) = map (\<lambda>p. n @ ''.'' @ p) (map fst ks)" by (induction ks) (auto simp: under_name_def)
  moreover have "distinct (map (\<lambda>p. n @ ''.'' @ p) xs) = distinct xs" for xs by (induction xs) auto
  ultimately show ?thesis by (simp only:)
qed

lemma distinct_walk: "schema_ok (SObject sh) \<Longrightarrow> distinct (map fst (kinds_walk sh p))"
proof (induction sh p rule: kinds_walk.induct)
  case (2 name s fs p)
  have ok: "schema_ok s" "schema_ok (SObject fs)" "schema_ok (SObject ((name, s) # fs))" using 2(3) by simp_all
  have names: "CHR ''.'' \<notin> set name" "\<forall>f \<in> set fs. CHR ''.'' \<notin> set (fst f)" "name \<notin> fst ` set fs" using 2(3) by (auto simp: name_ok_def)
  have field: "distinct (map fst (field_kinds (name, s)))"
  proof (cases "bsonKindOf s")
    case None
    show ?thesis
    proof (cases "nested_shape s")
      case (Some sh)
      have "distinct (map fst (kinds_walk sh (path_of p name)))" by (rule 2(1) [OF None Some schema_ok_nested [OF ok(1) Some]])
      then have "distinct (map fst (kinds_walk sh []))"
        using walk_prefixed [OF schema_ok_nested [OF ok(1) Some], of "path_of p name"] by (cases "path_of p name = []") (simp_all add: distinct_under)
      then show ?thesis using None Some distinct_under by (simp add: field_kinds_def)
    qed (use None in \<open>simp add: field_kinds_def\<close>)
  qed (simp add: field_kinds_def)
  have rest: "distinct (map fst (kinds_walk fs []))"
    using 2(2) [OF ok(2)] walk_prefixed [OF ok(2), of p] by (cases "p = []") (simp_all add: distinct_under)
  have heads: "head_name q \<in> fst ` set fs" if q: "(q, k) \<in> set (kinds_walk fs [])" for q k
  proof -
    obtain f where f: "f \<in> set fs" "(q, k) \<in> set (field_kinds f)" using q unfolding walk_fields [OF ok(2)] by auto
    then have "head_name q = fst f" using field_kinds_head [of q k "fst f" "snd f"] names(2) by simp
    then show ?thesis using f(1) by simp
  qed
  have apart: "fst ` set (field_kinds (name, s)) \<inter> fst ` set (kinds_walk fs []) = {}"
  proof (rule Int_emptyI)
    fix q assume "q \<in> fst ` set (field_kinds (name, s))" "q \<in> fst ` set (kinds_walk fs [])"
    then obtain k l where "(q, k) \<in> set (field_kinds (name, s))" "(q, l) \<in> set (kinds_walk fs [])" by auto
    then show False using field_kinds_head [OF _ names(1)] heads names(3) by metis
  qed
  have "distinct (map fst (kinds_walk ((name, s) # fs) []))"
    using field rest apart unfolding walk_fields [OF ok(3)] walk_fields [OF ok(2)] by simp
  then show ?case using walk_prefixed [OF ok(3), of p] distinct_under [of p] by (cases "p = []") (simp_all only: not_False_eq_True simp_thms)
qed simp

lemma kindsOf_walk: "schema_ok (SObject sh) \<Longrightarrow> kindsOf sh = kinds_walk sh []"
  unfolding kindsOf_def using update_all [of "[]" "kinds_walk sh []"] distinct_walk by simp

lemma conforms_unwrap: "conforms ids dates s v \<Longrightarrow> (\<exists>t. v = MOther t) \<or> conforms ids dates (unwrap s) v"
  by (induction s rule: unwrap.induct) auto

lemma to_stored_other [simp]: "to_stored s (MOther t) = MOther t"
  by (induction s "MOther t" rule: to_stored.induct) simp_all

text \<open>A document of the fields of a shape, coerced with the kinds of the shape.\<close>

lemma coerce_typed:
  assumes "schema_ok (SObject sh)" "as_given (SObject sh) (MRec fs)"
  shows "MRec (coerceFields (kinds_walk sh []) fs) = to_stored (SObject sh) (MRec fs)"
  using assms
proof (induction "shape_size sh" arbitrary: sh fs rule: less_induct)
  case less
  let ?ks = "kinds_walk sh []"
  have nested: "coerceNested ?ks n v = to_stored s v" if f: "(n, s) \<in> set sh" "bsonKindOf s = None" "as_given s v" for n s v
  proof -
    have ok: "schema_ok s" using less.prems(1) f(1) by auto
    have inside: "MRec (case kindsUnder ?ks n of Some ks' \<Rightarrow> coerceFields ks' gs | None \<Rightarrow> gs) = to_stored (SObject sh') (MRec gs)"
      if "nested_shape s = Some sh'" "as_given (SObject sh') (MRec gs)" for sh' gs
    proof -
      have ok': "schema_ok (SObject sh')" by (rule schema_ok_nested [OF ok that(1)])
      have "shape_size sh' < size s" by (rule nested_shape_size [OF that(1)])
      also have "size s < shape_size sh" using f(1) by (induction sh) auto
      finally have "MRec (coerceFields (kinds_walk sh' []) gs) = to_stored (SObject sh') (MRec gs)" using less.hyps ok' that(2) by blast
      moreover have "to_stored (SObject sh') (MRec gs) = MRec gs" if "kinds_walk sh' [] = []" using inert_same [OF no_kinds_inert [OF ok' that]] .
      ultimately show ?thesis unfolding kindsUnder_field [OF less.prems(1) f(1, 2)] that(1) option.case by simp
    qed
    have rec: "coerceNested ?ks n (MRec gs) = MRec (case kindsUnder ?ks n of Some ks' \<Rightarrow> coerceFields ks' gs | None \<Rightarrow> gs)" for gs
      by (simp split: option.split)
    have none: "kindsUnder ?ks n = None" if "nested_shape s = None"
      unfolding kindsUnder_field [OF less.prems(1) f(1, 2)] that by simp
    have same: "coerceNested ks n w = w" if "kindsUnder ks n = None" for ks w
      using that by (induction w) (auto intro: map_idI)
    have typed: "to_stored s v = to_stored (unwrap s) v" by (simp add: to_stored_unwrap)
    have kind: "bsonKindOf (unwrap s) = None" using f(2) by (simp add: bsonKindOf_unwrap)
    show ?thesis
    proof (cases "\<exists>t. v = MOther t")
      case True
      then show ?thesis by auto
    next
      case False
      then have v: "as_given (unwrap s) v" using conforms_unwrap [OF f(3)] by simp
      show ?thesis
      proof (cases "unwrap s")
        case SOther
        then show ?thesis using same [OF none] typed by (simp add: nested_shape_def)
      next
        case (SObject sh')
        then obtain gs where gs: "v = MRec gs" "as_given (SObject sh') (MRec gs)" using v by (cases v) auto
        have "nested_shape s = Some sh'" using SObject by (simp add: nested_shape_def)
        then show ?thesis using rec [of gs] inside [OF _ gs(2)] typed SObject gs(1) by simp
      next
        case (SArray e)
        then obtain vs where vs: "v = MList vs" "\<And>x. x \<in> set vs \<Longrightarrow> as_given e x" using v by (cases v) auto
        have ke: "bsonKindOf e = None" "bsonKindOf (unwrap e) = None" using kind SArray by (simp_all add: bsonKindOf_unwrap)
        have "coerceNested ?ks n x = to_stored e x" if "x \<in> set vs" for x
        proof (cases "\<exists>sh'. unwrap e = SObject sh'")
          case True
          then obtain sh' where sh': "unwrap e = SObject sh'" by blast
          then have n': "nested_shape s = Some sh'" using SArray by (simp add: nested_shape_def)
          show ?thesis
          proof (cases x)
            case (MRec gs)
            then have "as_given (SObject sh') (MRec gs)" using conforms_unwrap [OF vs(2) [OF that]] sh' by auto
            then show ?thesis using rec [of gs] inside [OF n'] MRec sh' to_stored_unwrap [of e x] by simp
          qed (use conforms_unwrap [OF vs(2) [OF that]] sh' in auto)
        next
          case False
          then have "nested_shape s = None" using SArray by (cases "unwrap e") (simp_all add: nested_shape_def)
          then have "coerceNested ?ks n x = x" by (rule same [OF none])
          moreover have "to_stored e x = x"
          proof (cases "unwrap e")
            case (SArray e')
            then have "inert e" using schema_ok_unwrap [OF ok] \<open>unwrap s = SArray e\<close> ke(1) by simp
            then show ?thesis by (rule inert_same)
          next
            case SOther
            then show ?thesis using to_stored_unwrap [of e x] by simp
          qed (use ke(2) False unwrap_not_wrap [of e] in auto)
          ultimately show ?thesis by simp
        qed
        then show ?thesis using typed SArray vs(1) by simp
      qed (use kind unwrap_not_wrap [of s] in auto)
    qed
  qed
  have "coerceFields ?ks gs = map (\<lambda>(k, x). (k, case map_of sh k of None \<Rightarrow> x | Some s \<Rightarrow> to_stored s x)) gs"
    if "as_given (SObject sh) (MRec gs)" for gs
    using that
  proof (induction gs)
    case (Cons a gs)
    obtain k x where a: "a = (k, x)" by (cases a)
    obtain s where s: "map_of sh k = Some s" "as_given s x" using Cons.prems by (auto simp: a split: option.splits)
    have k: "(k, s) \<in> set sh" using map_of_SomeD [OF s(1)] .
    then have name: "name_ok k" using less.prems(1) by auto
    have put: "set_prop k w r = (k, w) # r" for w r using name by (auto simp: set_prop_def name_ok_def PROTOTYPE_def)
    have kind: "kind_at ?ks k = bsonKindOf s" by (rule kind_of_field [OF less.prems(1) k])
    have rest: "coerceFields ?ks gs = map (\<lambda>(k, x). (k, case map_of sh k of None \<Rightarrow> x | Some s \<Rightarrow> to_stored s x)) gs"
      using Cons.IH Cons.prems by simp
    have "coerceFields ?ks ((k, x) # gs) = (k, to_stored s x) # coerceFields ?ks gs"
    proof (cases "bsonKindOf s")
      case None
      then show ?thesis using nested [OF k None s(2)] kind put name by (cases x) (simp_all add: name_ok_def)
    next
      case (Some b)
      then show ?thesis using coerce_value_typed [OF Some s(2)] kind put by (cases x) simp_all
    qed
    then show ?case using rest s(1) by (simp add: a)
  qed simp
  then show ?case using less.prems(2) by simp
qed

section \<open>A second pass\<close>

lemma value_twice: "coerceValue k (coerceValue k v) = coerceValue k v"
proof (induction k v rule: coerceValue.induct)
  case (2 k t)
  then show ?case by (auto split: option.splits)
qed simp_all

lemma value_not_plain: "\<not> isPlain v \<Longrightarrow> \<not> isPlain (coerceValue k v)"
  by (cases v) (auto split: option.split)

lemma operators_one: "\<not> isPlain v \<Longrightarrow> coerceOperators k ((op, v) # ops) = set_prop op (if op \<in> VALUE_OPERATORS then coerceValue k v else v) (coerceOperators k ops)"
  by (cases v) simp_all

lemma operators_twice: "coerceOperators k (coerceOperators k fs) = coerceOperators k fs"
proof (induction fs rule: measure_induct_rule [of "size_list (size_prod (\<lambda>_. 0) size)"])
  case (less fs)
  show ?case
  proof (cases fs)
    case (Cons a ops)
    obtain op v where a: "a = (op, v)" by (cases a)
    have ops: "coerceOperators k (coerceOperators k ops) = coerceOperators k ops" using less Cons by simp
    show ?thesis
    proof (cases "isPlain v")
      case True
      then obtain gs where v: "v = MRec gs" by (cases v) auto
      have "coerceOperators k (coerceOperators k gs) = coerceOperators k gs" using less Cons a v by simp
      then show ?thesis using ops by (simp add: Cons a v set_prop_def)
    next
      case False
      have "\<not> isPlain (if op \<in> VALUE_OPERATORS then coerceValue k v else v)" using False value_not_plain by simp
      then show ?thesis using ops operators_one [OF False, of k op ops] operators_one [of _ k op "coerceOperators k ops"]
        by (simp add: Cons a set_prop_def value_twice)
    qed
  qed simp
qed

lemma nested_not_plain: "\<not> isPlain v \<Longrightarrow> \<not> isPlain (coerceNested ks p v)"
  by (cases v) auto

lemma fields_one: "\<not> isPlain v \<Longrightarrow> coerceFields ks ((key, v) # rest) =
    set_prop key (case kind_at ks key of None \<Rightarrow> coerceNested ks key v | Some k \<Rightarrow> coerceValue k v) (coerceFields ks rest)"
  by (cases v) auto

lemma fields_step:
  assumes v: "\<not> isPlain v" and nested: "kind_at ks key = None \<Longrightarrow> coerceNested ks key (coerceNested ks key v) = coerceNested ks key v"
    and rest: "coerceFields ks (coerceFields ks rest) = coerceFields ks rest"
  shows "coerceFields ks (coerceFields ks ((key, v) # rest)) = coerceFields ks ((key, v) # rest)"
proof -
  let ?w = "case kind_at ks key of None \<Rightarrow> coerceNested ks key v | Some k \<Rightarrow> coerceValue k v"
  have w: "\<not> isPlain ?w" using nested_not_plain [OF v] value_not_plain [OF v] by (simp split: option.split)
  have "(case kind_at ks key of None \<Rightarrow> coerceNested ks key ?w | Some k \<Rightarrow> coerceValue k ?w) = ?w"
    using nested by (auto simp: value_twice split: option.split)
  then show ?thesis using rest fields_one [OF v] fields_one [OF w] by (simp add: set_prop_def)
qed

lemma fields_twice:
  "coerceFields ks (coerceFields ks fs) = coerceFields ks fs"
  "coerceNested ks p (coerceNested ks p v) = coerceNested ks p v"
proof (induction ks fs and ks p v rule: coerceFields_coerceNested.induct)
  case (2 ks key fs rest)
  show ?case
  proof (cases "starts_with ''$'' key")
    case True
    then show ?thesis using 2 by (simp add: set_prop_def)
  next
    case False
    show ?thesis
    proof (cases "kind_at ks key")
      case None
      then have "coerceNested ks key (coerceNested ks key (MRec fs)) = coerceNested ks key (MRec fs)" using 2 False by simp
      then show ?thesis using 2 False None by (cases "kindsUnder ks key") (simp_all add: set_prop_def)
    next
      case (Some k)
      then show ?thesis using 2 False by (simp add: set_prop_def operators_twice)
    qed
  qed
next
  case "3_1"
  then show ?case by (intro fields_step) simp_all
next
  case "3_2"
  then show ?case by (intro fields_step) simp_all
next
  case "3_3"
  then show ?case by (intro fields_step) simp_all
next
  case "3_4"
  then show ?case by (intro fields_step) simp_all
next
  case "3_5"
  then show ?case by (intro fields_step) simp_all
qed (auto split: option.split)

section \<open>What is stored\<close>

text \<open>C38. A document written as the types of a collection allow, its ids as hex texts and its dates as unambiguous
  texts where the caller had them so, at any depth, is read as the document of the stored types that the schema
  directs, and reading it a second time changes nothing.\<close>

theorem given_becomes_stored:
  assumes "schema_ok (SObject sh)" "as_given (SObject sh) (MRec doc)" "cc_coerces ctx" "cc_kinds ctx = kindsOf sh"
  shows "coercedValues ctx (MRec doc) = to_stored (SObject sh) (MRec doc) \<and> stored (SObject sh) (coercedValues ctx (MRec doc)) \<and>
    coercedValues ctx (coercedValues ctx (MRec doc)) = coercedValues ctx (MRec doc)"
proof -
  have read: "coercedValues ctx (MRec fs) = MRec (coerceFields (kinds_walk sh []) fs)" for fs
    using assms(3, 4) kindsOf_walk [OF assms(1)] by (simp add: coercedValues_def)
  have typed: "coercedValues ctx (MRec doc) = to_stored (SObject sh) (MRec doc)"
    unfolding read by (rule coerce_typed [OF assms(1, 2)])
  moreover have "stored (SObject sh) (coercedValues ctx (MRec doc))"
    unfolding typed by (rule to_stored_stored [OF assms(2)])
  moreover have "coercedValues ctx (coercedValues ctx (MRec doc)) = coercedValues ctx (MRec doc)"
    unfolding read by (simp only: fields_twice(1))
  ultimately show ?thesis by blast
qed

text \<open>A post with an author, tags, comments and a date.\<close>

definition post_shape :: shape where
  "post_shape = [(''_id'', SId), (''title'', SOther), (''at'', SWrap SDate), (''author'', SObject [(''id'', SId), (''name'', SOther)]),
     (''tags'', SArray (SWrap SId)), (''comments'', SArray (SObject [(''by'', SWrap SId), (''when'', SDate), (''words'', SOther)]))]"

definition an_id :: string where "an_id = ''507f1f77bcf86cd799439011''"

definition post_given :: fields where
  "post_given = [(''_id'', MText ''507F1F77BCF86CD799439011''), (''title'', MText ''2026-01-01''), (''at'', MText ''2026-02-28T23:30:00.5-05:00''),
     (''author'', MRec [(''id'', MText an_id), (''name'', MText ''Ada'')]), (''tags'', MList [MText an_id, MId an_id]),
     (''comments'', MList [MRec [(''by'', MText an_id), (''when'', MText ''2026-03-01''), (''words'', MText an_id)]])]"

definition post_ctx :: cctx where
  "post_ctx = \<lparr>cc_name = ''posts'', cc_coerces = True, cc_kinds = kindsOf post_shape, cc_softDeletes = False, cc_deletedAt = None\<rparr>"

theorem given_becomes_stored_witness:
  "coercedValues post_ctx (MRec post_given) = MRec
     [(''_id'', MId an_id), (''title'', MText ''2026-01-01''), (''at'', MDate 1772339400500),
      (''author'', MRec [(''id'', MId an_id), (''name'', MText ''Ada'')]), (''tags'', MList [MId an_id, MId an_id]),
      (''comments'', MList [MRec [(''by'', MId an_id), (''when'', MDate 1772323200000), (''words'', MText an_id)]])]"
proof -
  have ok: "schema_ok (SObject post_shape)" unfolding post_shape_def by code_simp
  have given: "as_given (SObject post_shape) (MRec post_given)" unfolding post_shape_def post_given_def an_id_def by code_simp
  have conv: "to_stored (SObject post_shape) (MRec post_given) = MRec
     [(''_id'', MId an_id), (''title'', MText ''2026-01-01''), (''at'', MDate 1772339400500),
      (''author'', MRec [(''id'', MId an_id), (''name'', MText ''Ada'')]), (''tags'', MList [MId an_id, MId an_id]),
      (''comments'', MList [MRec [(''by'', MId an_id), (''when'', MDate 1772323200000), (''words'', MText an_id)]])]"
    unfolding post_shape_def post_given_def an_id_def by code_simp
  have ctx: "cc_coerces post_ctx" "cc_kinds post_ctx = kindsOf post_shape" by (simp_all add: post_ctx_def)
  show ?thesis by (rule trans [OF conjunct1 [OF given_becomes_stored [OF ok given ctx]] conv])
qed

text \<open>The names the types leave out: one of \<open>Object.prototype\<close> is taken for a field that is coerced, and the ids inside
  it are not read.\<close>

lemma constructor_is_coerced:
  "coerceFields (kindsOf [(''constructor'', SOther)]) [(''constructor'', MText ''2026-01-01'')] = [(''constructor'', MDate 1767225600000)]"
  "coerceFields (kindsOf [(''constructor'', SObject [(''id'', SId)])]) [(''constructor'', MRec [(''id'', MText an_id)])] =
     [(''constructor'', MRec [(''id'', MText an_id)])]"
  unfolding an_id_def by code_simp+

text \<open>An array of arrays of objects has no kinds, though its type takes texts.\<close>

lemma nested_arrays_stay:
  "kindsOf [(''grid'', SArray (SArray (SObject [(''id'', SId)])))] = []"
  "as_given (SArray (SArray (SObject [(''id'', SId)]))) (MList [MList [MRec [(''id'', MText an_id)]]])"
  "coerceFields (kindsOf [(''grid'', SArray (SArray (SObject [(''id'', SId)])))]) [(''grid'', MList [MList [MRec [(''id'', MText an_id)]]])] =
     [(''grid'', MList [MList [MRec [(''id'', MText an_id)]]])]"
  unfolding an_id_def by code_simp+

end
