(* ===== verification/Mongo_Errors.thy ===== *)
theory Mongo_Errors
  imports Mongo_Coerce
begin

text \<open>
  What the package throws: \<open>packages/mongo/src/errors\<close>. A driver's error is read by its fields, a duplicate key and
  a refused document become errors of their own, and any other keeps the server's code. An error's fields are
  parsed JSON; what \<open>String\<close> makes of a value that is no text is a parameter.
\<close>

section \<open>The errors\<close>

datatype error_code = DATABASE | NOT_FOUND | CONFLICT | VALIDATION | OPTIMISTIC_LOCK | INVALID_CURSOR | INVALID_ID | CORRUPT_FILE
  | MIGRATION | MIGRATION_LOCKED | CONNECTION

record validation_issue =
  vi_path :: string
  vi_reason :: string
  vi_specifiedAs :: "jv option"
  vi_consideredValue :: "jv option"
  vi_consideredType :: "string option"
  vi_description :: "string option"

record error_options =
  eo_collection :: "string option"
  eo_id :: "mval option"
  eo_serverCode :: "int option"
  eo_serverCodeName :: "string option"
  eo_index :: "string option"
  eo_keys :: "string list"
  eo_values :: "(string \<times> jv) list option"
  eo_issues :: "validation_issue list"
  eo_expectedVersion :: "int option"
  eo_actualVersion :: "int option"
  eo_cause :: "jv option"

definition no_options :: error_options where
  "no_options = \<lparr>eo_collection = None, eo_id = None, eo_serverCode = None, eo_serverCodeName = None, eo_index = None, eo_keys = [],
     eo_values = None, eo_issues = [], eo_expectedVersion = None, eo_actualVersion = None, eo_cause = None\<rparr>"

record data_error =
  de_code :: error_code
  de_message :: string
  de_options :: error_options
  de_errorLabels :: "string list"

text \<open>The constructors, the two defaults of a server code included.\<close>

definition new_error :: "error_code \<Rightarrow> string \<Rightarrow> error_options \<Rightarrow> data_error" where
  "new_error code message options = \<lparr>de_code = code, de_message = message,
     de_options = (case eo_serverCode options of
         None \<Rightarrow> options\<lparr>eo_serverCode := if code = CONFLICT then Some 11000 else if code = VALIDATION then Some 121 else None\<rparr>
       | Some n \<Rightarrow> options),
     de_errorLabels = (case eo_cause options of None \<Rightarrow> [] | Some c \<Rightarrow> (case list_of (jget c ''errorLabels'') of
         None \<Rightarrow> [] | Some ls \<Rightarrow> List.map_filter (\<lambda>l. text_of (Some l)) ls))\<rparr>"

definition hasErrorLabel :: "data_error \<Rightarrow> string \<Rightarrow> bool" where
  "hasErrorLabel e label = (label \<in> set (de_errorLabels e))"

text \<open>What a call throws: an error of the package, a \<open>TypeError\<close> or \<open>RangeError\<close> by its message, or any other value.\<close>

datatype mongo_failure = Failed data_error | Refused string | Thrown jv

section \<open>Reading a message\<close>

text \<open>\<open>\s\<close>, and \<open>[\w.$]\<close>.\<close>

definition re_space :: "char \<Rightarrow> bool" where
  "re_space c = (let n = of_char c :: nat in (9 \<le> n \<and> n \<le> 13) \<or> n = 32 \<or> n = 160)"

definition key_char :: "char \<Rightarrow> bool" where
  "key_char c = (is_digit c \<or> is_lower c \<or> (65 \<le> (of_char c :: nat) \<and> (of_char c :: nat) \<le> 90) \<or> c \<in> {CHR ''_'', CHR ''.'', CHR ''$''})"

text \<open>The first place of a text a pattern matches at.\<close>

fun first_match :: "(string \<Rightarrow> 'a option) \<Rightarrow> string \<Rightarrow> 'a option" where
  "first_match f [] = f []"
| "first_match f (c # s) = (case f (c # s) of Some x \<Rightarrow> Some x | None \<Rightarrow> first_match f s)"

definition index_here :: "string \<Rightarrow> string option" where
  "index_here s = (if \<not> starts_with ''index:'' s then None
     else (let r = dropWhile re_space (drop 6 s); name = takeWhile (\<lambda>c. \<not> re_space c) r; r2 = dropWhile (\<lambda>c. \<not> re_space c) r in
       if name \<noteq> [] \<and> r2 \<noteq> [] \<and> starts_with ''dup key'' (dropWhile re_space r2) then Some name else None))"

definition indexFromMessage :: "string option \<Rightarrow> string option" where
  "indexFromMessage message = (case message of None \<Rightarrow> None | Some m \<Rightarrow> first_match index_here m)"

definition dup_key_here :: "string \<Rightarrow> string option" where
  "dup_key_here s = (if \<not> starts_with ''dup key:'' s then None
     else (case dropWhile re_space (drop 8 s) of
         c # r \<Rightarrow> if c = CHR ''{'' \<and> CHR ''}'' \<in> set r then Some (takeWhile (\<lambda>d. d \<noteq> CHR ''}'') r) else None
       | [] \<Rightarrow> None))"

function keys_named :: "string \<Rightarrow> string list" where
  "keys_named [] = []"
| "keys_named (c # s) = (if \<not> key_char c then keys_named s
     else (case dropWhile re_space (dropWhile key_char s) of
         [] \<Rightarrow> []
       | d # r \<Rightarrow> if d = CHR '':'' then (c # takeWhile key_char s) # keys_named r else keys_named (dropWhile key_char s)))"
  by pat_completeness auto

termination
proof (relation "measure length")
  fix c d :: char and s r :: string
  assume "dropWhile re_space (dropWhile key_char s) = d # r"
  then have "length (d # r) \<le> length s" by (metis length_dropWhile_le order_trans)
  then show "(r, c # s) \<in> measure length" by simp
qed (simp_all add: length_dropWhile_le le_imp_less_Suc)

definition keysOfDuplicate :: "jv \<Rightarrow> string list \<times> (string \<times> jv) list option" where
  "keysOfDuplicate e = (case jget e ''keyPattern'' of
     Some (JRec pat) \<Rightarrow> (map fst pat, case jget e ''keyValue'' of Some (JRec vs) \<Rightarrow> Some vs | _ \<Rightarrow> None)
   | _ \<Rightarrow> (case text_of (jget e ''errmsg'') of
       None \<Rightarrow> ([], None)
     | Some m \<Rightarrow> (case first_match dup_key_here m of None \<Rightarrow> ([], None) | Some inside \<Rightarrow> (keys_named inside, None))))"

section \<open>Reading an error\<close>

fun asArray :: "jv option \<Rightarrow> jv list" where
  "asArray None = []"
| "asArray (Some JNull) = []"
| "asArray (Some (JList vs)) = vs"
| "asArray (Some v) = [v]"

definition firstWriteError :: "jv \<Rightarrow> jv option" where
  "firstWriteError e = find is_record (map (\<lambda>w. case jget w ''err'' of Some (JRec fs) \<Rightarrow> JRec fs | _ \<Rightarrow> w) (asArray (jget e ''writeErrors'')))"

fun join_with :: "string \<Rightarrow> string list \<Rightarrow> string" where
  "join_with sep [] = []"
| "join_with sep [s] = s"
| "join_with sep (s # ss) = s @ sep @ join_with sep ss"

text \<open>\<open>String(missing)\<close>.\<close>

fun string_of :: "(jv \<Rightarrow> string) \<Rightarrow> jv \<Rightarrow> string" where
  "string_of shown (JText t) = t"
| "string_of shown v = shown v"

definition described :: "string option \<Rightarrow> validation_issue \<Rightarrow> validation_issue" where
  "described description i = (case vi_description i of None \<Rightarrow> i\<lparr>vi_description := description\<rparr> | Some d \<Rightarrow> i)"

definition first_some :: "'a option \<Rightarrow> 'a option \<Rightarrow> 'a option" where
  "first_some a b = (case a of None \<Rightarrow> b | Some x \<Rightarrow> a)"

definition rule_issue :: "jv \<Rightarrow> string list \<Rightarrow> validation_issue" where
  "rule_issue rule path = \<lparr>vi_path = join_with ''.'' path,
     vi_reason = (case first_some (text_of (jget rule ''reason'')) (text_of (jget rule ''operatorName'')) of None \<Rightarrow> ''invalid'' | Some r \<Rightarrow> r),
     vi_specifiedAs = jget rule ''specifiedAs'', vi_consideredValue = jget rule ''consideredValue'',
     vi_consideredType = text_of (jget rule ''consideredType''), vi_description = None\<rparr>"

definition missing_issue :: "(jv \<Rightarrow> string) \<Rightarrow> jv \<Rightarrow> string list \<Rightarrow> jv \<Rightarrow> validation_issue" where
  "missing_issue shown rule path missing = \<lparr>vi_path = join_with ''.'' (path @ [string_of shown missing]), vi_reason = ''required'',
     vi_specifiedAs = jget rule ''specifiedAs'', vi_consideredValue = None, vi_consideredType = None, vi_description = None\<rparr>"

definition text_or :: "string \<Rightarrow> jv option \<Rightarrow> string" where
  "text_or other v = (case text_of v of None \<Rightarrow> other | Some t \<Rightarrow> t)"

definition size_of :: "jv option \<Rightarrow> nat" where
  "size_of v = (case v of None \<Rightarrow> 0 | Some w \<Rightarrow> Suc (size w))"

lemma asArray_size: "v \<in> set (asArray x) \<Longrightarrow> Suc (size v) \<le> size_of x"
proof (induction x rule: asArray.induct)
  case (3 vs)
  then show ?case using size_list_estimation' [of v vs "size v" size] by (simp add: size_of_def)
qed (simp_all add: size_of_def)

lemma jget_size: "size_of (jget v k) < Suc (size v)"
proof (cases v)
  case (JRec fs)
  have "size w < size_list (size_prod (\<lambda>_. 0) size) fs" if "map_of fs k = Some w" for w
    using that by (induction fs) (auto split: if_splits)
  then show ?thesis using JRec by (cases "map_of fs k") (auto simp: size_of_def)
qed (simp_all add: size_of_def)

function issuesOf :: "(jv \<Rightarrow> string) \<Rightarrow> jv option \<Rightarrow> string list \<Rightarrow> validation_issue list" where
  "issuesOf shown details path = concat (map (\<lambda>rule.
     if \<not> is_record rule then []
     else if jget rule ''propertiesNotSatisfied'' \<noteq> None then
       concat (map (\<lambda>property. if \<not> is_record property then []
         else map (described (text_of (jget property ''description'')))
           (issuesOf shown (jget property ''details'') (path @ [text_or '''' (jget property ''propertyName'')])))
         (asArray (jget rule ''propertiesNotSatisfied'')))
     else if jget rule ''missingProperties'' \<noteq> None then map (missing_issue shown rule path) (asArray (jget rule ''missingProperties''))
     else if jget rule ''schemaRulesNotSatisfied'' \<noteq> None then issuesOf shown (jget rule ''schemaRulesNotSatisfied'') path
     else [rule_issue rule path]) (asArray details))"
  by pat_completeness auto

termination
proof (relation "measure (\<lambda>(shown, details, path). size_of details)")
  fix shown :: "jv \<Rightarrow> string" and details and path :: "string list" and rule property
  assume r: "rule \<in> set (asArray details)" "\<not> \<not> is_record rule" and p: "property \<in> set (asArray (jget rule ''propertiesNotSatisfied''))" "\<not> \<not> is_record property"
  have "size_of (jget property ''details'') < Suc (size property)" by (rule jget_size)
  also have "\<dots> \<le> size_of (jget rule ''propertiesNotSatisfied'')" by (rule asArray_size [OF p(1)])
  also have "\<dots> < Suc (size rule)" by (rule jget_size)
  also have "\<dots> \<le> size_of details" by (rule asArray_size [OF r(1)])
  finally show "((shown, jget property ''details'', path @ [text_or '''' (jget property ''propertyName'')]), shown, details, path) \<in> measure (\<lambda>(shown, details, path). size_of details)"
    by simp
next
  fix shown :: "jv \<Rightarrow> string" and details and path :: "string list" and rule
  assume r: "rule \<in> set (asArray details)" "\<not> \<not> is_record rule"
  have "size_of (jget rule ''schemaRulesNotSatisfied'') < Suc (size rule)" by (rule jget_size)
  also have "\<dots> \<le> size_of details" by (rule asArray_size [OF r(1)])
  finally show "((shown, jget rule ''schemaRulesNotSatisfied'', path), shown, details, path) \<in> measure (\<lambda>(shown, details, path). size_of details)" by simp
qed simp

fun number_of :: "jv option \<Rightarrow> int option" where
  "number_of (Some (JNum n)) = Some n"
| "number_of v = None"

definition in_collection :: "string option \<Rightarrow> string" where
  "in_collection name = (case name of None \<Rightarrow> '''' | Some c \<Rightarrow> if c = '''' then '''' else '' in \"'' @ c @ ''\"'')"

text \<open>\<open>toDataError\<close>. A server's code is a whole number.\<close>

definition toDataError :: "(jv \<Rightarrow> string) \<Rightarrow> string option \<Rightarrow> mongo_failure \<Rightarrow> mongo_failure" where
  "toDataError shown collection err = (case err of
     Thrown e \<Rightarrow> if \<not> is_record e then err
       else (let source = (case firstWriteError e of None \<Rightarrow> e | Some w \<Rightarrow> w) in
         case first_some (number_of (jget source ''code'')) (number_of (jget e ''code'')) of
           None \<Rightarrow> err
         | Some code \<Rightarrow>
           (let message = text_or (text_or (text_or '''' (jget e ''message'')) (jget source ''message'')) (jget source ''errmsg'');
                common = no_options\<lparr>eo_collection := collection, eo_serverCode := Some code,
                  eo_serverCodeName := first_some (text_of (jget e ''codeName'')) (text_of (jget source ''codeName'')), eo_cause := Some e\<rparr> in
            if code = 11000 then
              (let (keys, vals) = keysOfDuplicate source; index = indexFromMessage (Some message);
                   named = (if keys \<noteq> [] then join_with '', '' keys else (case index of None \<Rightarrow> ''a unique index'' | Some i \<Rightarrow> i)) in
               Failed (new_error CONFLICT (''Duplicate key on '' @ named @ in_collection collection) (common\<lparr>eo_index := index, eo_keys := keys, eo_values := vals\<rparr>)))
            else if code = 121 then
              (let issues = issuesOf shown (case jget source ''errInfo'' of Some (JRec fs) \<Rightarrow> map_of fs ''details'' | _ \<Rightarrow> None) [] in
               Failed (new_error VALIDATION (''Document failed validation'' @ in_collection collection @
                 (if issues \<noteq> [] then '': '' @ join_with '', '' (map (\<lambda>i. vi_path i @ '' '' @ vi_reason i) issues) else ''''))
                 (common\<lparr>eo_issues := issues, eo_keys := map vi_path issues\<rparr>)))
            else Failed (new_error DATABASE (if message = '''' then ''MongoDB error '' @ show_int code else message) common)))
   | _ \<Rightarrow> err)"

section \<open>What a duplicate key names\<close>

lemma take_drop_runs: "key_char c \<Longrightarrow> takeWhile key_char (c # s) = c # takeWhile key_char s" "key_char c \<Longrightarrow> dropWhile key_char (c # s) = dropWhile key_char s"
  by simp_all

lemma no_keys: "CHR '':'' \<notin> set s \<Longrightarrow> keys_named s = []"
proof (induction s rule: keys_named.induct)
  case (2 c s)
  have sub: "set (dropWhile re_space (dropWhile key_char s)) \<subseteq> set s" "set (dropWhile key_char s) \<subseteq> set s" by (auto dest!: set_dropWhileD)
  show ?case
  proof (cases "key_char c")
    case True
    show ?thesis
    proof (cases "dropWhile re_space (dropWhile key_char s)")
      case (Cons d r)
      have "d \<in> set (dropWhile re_space (dropWhile key_char s))" unfolding Cons by (rule list.set_intros(1))
      then have "d \<noteq> CHR '':''" using sub 2(4) by (metis list.set_intros(2) subset_iff)
      moreover have "CHR '':'' \<notin> set (dropWhile key_char s)" using sub 2(4) by (metis list.set_intros(2) subset_iff)
      ultimately show ?thesis using True Cons 2(3) by simp
    next
      case Nil
      show ?thesis unfolding keys_named.simps Nil using True by simp
    qed
  next
    case False
    then show ?thesis using 2(1, 4) by simp
  qed
qed simp

lemma value_names_nothing:
  assumes "CHR '':'' \<notin> set v"
  shows "keys_named (v @ CHR '','' # r) = keys_named r"
  using assms
proof (induction "length v" arbitrary: v rule: less_induct)
  case less
  have comma: "\<not> key_char (CHR '','')" "\<not> re_space (CHR '','')" by code_simp+
  show ?case
  proof (cases v)
    case Nil
    then show ?thesis using comma by simp
  next
    case (Cons c s)
    have shorter: "keys_named (u @ CHR '','' # r) = keys_named r" if "length u \<le> length s" "set u \<subseteq> set s" for u
      using less(1) [of u] less(2) that unfolding Cons by fastforce
    show ?thesis
    proof (cases "key_char c")
      case True
      let ?u = "dropWhile key_char s"
      have u: "dropWhile key_char (s @ CHR '','' # r) = ?u @ CHR '','' # r" using comma by (induction s) simp_all
      have w: "dropWhile re_space (x @ CHR '','' # r) = dropWhile re_space x @ CHR '','' # r" for x using comma by (induction x) simp_all
      have sub: "set ?u \<subseteq> set s" "set (dropWhile re_space ?u) \<subseteq> set s" by (auto dest!: set_dropWhileD)
      obtain d r' where d: "dropWhile re_space ?u @ CHR '','' # r = d # r'" "d \<in> set s \<union> {CHR '',''}"
        using sub by (cases "dropWhile re_space ?u") auto
      moreover have "CHR '':'' \<notin> set s" "CHR '':'' \<noteq> CHR '',''" using less(2) unfolding Cons by simp_all
      ultimately have "d \<noteq> CHR '':''" by blast
      then have "keys_named (c # s @ CHR '','' # r) = keys_named (?u @ CHR '','' # r)" using True by (simp add: u w d)
      also have "\<dots> = keys_named r" by (intro shorter sub(1) length_dropWhile_le)
      finally show ?thesis unfolding Cons by simp
    next
      case False
      then have "keys_named (c # s @ CHR '','' # r) = keys_named (s @ CHR '','' # r)" by simp
      also have "\<dots> = keys_named r" by (intro shorter) simp_all
      finally show ?thesis unfolding Cons by simp
    qed
  qed
qed

text \<open>The keys and values of a duplicate, as the server prints them.\<close>

definition printed_keys :: "(string \<times> string) list \<Rightarrow> string" where
  "printed_keys kvs = join_with '', '' (map (\<lambda>(k, v). k @ '': '' @ v) kvs)"

definition key_name :: "string \<Rightarrow> bool" where
  "key_name k = (k \<noteq> [] \<and> list_all key_char k)"

lemma key_is_read: "key_name k \<Longrightarrow> keys_named (CHR '' '' # k @ CHR '':'' # r) = k # keys_named r"
proof -
  assume "key_name k"
  then obtain c s where k: "k = c # s" "key_char c" "list_all key_char s" by (cases k) (auto simp: key_name_def)
  have marks: "\<not> key_char (CHR '':'')" "\<not> key_char (CHR '' '')" "\<not> re_space (CHR '':'')" by code_simp+
  have "takeWhile key_char (s @ CHR '':'' # r) = s" "dropWhile key_char (s @ CHR '':'' # r) = CHR '':'' # r"
    using k(3) marks by (induction s) simp_all
  then show ?thesis using k(2) marks unfolding k(1) by simp
qed

text \<open>A bulk write's message names the keys, when no value holds a colon.\<close>

lemma bulk_conflict_keys:
  assumes "\<forall>(k, v) \<in> set kvs. key_name k \<and> CHR '':'' \<notin> set v"
  shows "keys_named (CHR '' '' # printed_keys kvs @ '' '') = map fst kvs"
  using assms
proof (induction kvs rule: induct_list012)
  case 1
  have "keys_named ''  '' = []" by code_simp
  then show ?case by (simp add: printed_keys_def)
next
  case (2 kv)
  obtain k v where kv: "kv = (k, v)" by (cases kv)
  have "keys_named (CHR '' '' # k @ CHR '':'' # CHR '' '' # v @ '' '') = k # keys_named (CHR '' '' # v @ '' '')"
    using 2 by (intro key_is_read) (simp add: kv)
  also have "keys_named (CHR '' '' # v @ '' '') = []" using 2 by (intro no_keys) (simp add: kv)
  finally show ?case by (simp add: kv printed_keys_def)
next
  case (3 kv kw kvs)
  obtain k v where kv: "kv = (k, v)" by (cases kv)
  let ?r = "CHR '' '' # printed_keys (kw # kvs) @ '' ''"
  have "keys_named (CHR '' '' # k @ CHR '':'' # (CHR '' '' # v) @ CHR '','' # ?r) = k # keys_named ((CHR '' '' # v) @ CHR '','' # ?r)"
    using 3(3) by (intro key_is_read) (simp add: kv)
  also have "keys_named ((CHR '' '' # v) @ CHR '','' # ?r) = keys_named ?r" using 3(3) by (intro value_names_nothing) (simp add: kv)
  also have "\<dots> = map fst (kw # kvs)" using 3 by simp
  finally show ?case by (simp add: kv printed_keys_def)
qed

text \<open>A value that holds one is read as another key: here the scheme of an address.\<close>

lemma bulk_keys_take_values:
  "fst (keysOfDuplicate (JRec [(''code'', JNum 11000),
     (''errmsg'', JText ''E11000 duplicate key error collection: app.pages index: url_1 dup key: { url: \"https://nxgt.dev/\" }'')])) = [''url'', ''https'']"
  by code_simp

end
