(* ===== verification/Mongo_Cursor.thy ===== *)
theory Mongo_Cursor
  imports Mongo_Coerce Backup_Ids
begin

text \<open>
  The cursors of a listing: \<open>packages/mongo/src/pagination/cursor.ts\<close>. A cursor is the JSON of an ordering and of
  the values of the last document, with tags for what JSON has no form of, in URL-safe base64. \<open>JSON.parse\<close>,
  \<open>JSON.stringify\<close> and SHA-256 are parameters; a text is its UTF-8 bytes.
\<close>

section \<open>Values and their tags\<close>

text \<open>Numbers are whole; a date that \<open>Date\<close> cannot read is \<open>CBadDate\<close>.\<close>

datatype cval = CNull | CBool bool | CNum int | COther | CText string | CBig int | CDate int | CBadDate | COid string
  | CList "cval list" | CRec "(string \<times> cval) list"

text \<open>What \<open>JSON.stringify\<close> writes through \<open>replacer\<close>.\<close>

fun replacer :: "cval \<Rightarrow> jv" where
  "replacer CNull = JNull"
| "replacer (CBool b) = JBool b"
| "replacer (CNum n) = JNum n"
| "replacer COther = JOther"
| "replacer (CText t) = JText t"
| "replacer (CBig n) = JRec [(''$bigint'', JText (show_int n))]"
| "replacer (CDate t) = JRec [(''$date'', JText (iso_string t))]"
| "replacer CBadDate = JNull"
| "replacer (COid h) = JRec [(''$oid'', JText h)]"
| "replacer (CList vs) = JList (map replacer vs)"
| "replacer (CRec fs) = JRec (map (\<lambda>(k, v). (k, replacer v)) fs)"

text \<open>An invalid date is what \<open>toISOString\<close> throws on.\<close>

fun bad_date :: "cval \<Rightarrow> bool" where
  "bad_date CBadDate = True"
| "bad_date (CList vs) = (\<exists>v \<in> set vs. bad_date v)"
| "bad_date (CRec fs) = (\<exists>(k, v) \<in> set fs. bad_date v)"
| "bad_date v = False"

text \<open>\<open>BigInt(text)\<close>: decimal digits with a sign or none, or hexadecimal, octal or binary ones, between spaces
  (\<open>None\<close>: it throws).\<close>

definition digit_value :: "char \<Rightarrow> nat" where
  "digit_value c = (let n = of_char c in if 48 \<le> n \<and> n \<le> 57 then n - 48 else if 97 \<le> n \<and> n \<le> 122 then n - 87 else if 65 \<le> n \<and> n \<le> 90 then n - 55 else 99)"

definition radix_of :: "nat \<Rightarrow> string \<Rightarrow> int option" where
  "radix_of base s = (if s \<noteq> [] \<and> list_all (\<lambda>c. digit_value c < base) s then Some (int (foldl (\<lambda>a c. base * a + digit_value c) 0 s)) else None)"

definition big_space :: "char \<Rightarrow> bool" where
  "big_space c = (let n = of_char c :: nat in (9 \<le> n \<and> n \<le> 13) \<or> n = 32 \<or> n = 160)"

definition bigint_of :: "string \<Rightarrow> int option" where
  "bigint_of s = (case rev (dropWhile big_space (rev (dropWhile big_space s))) of [] \<Rightarrow> Some 0
     | c # r \<Rightarrow> if c = CHR ''-'' then map_option uminus (radix_of 10 r)
         else if c = CHR ''+'' then radix_of 10 r
         else if c = CHR ''0'' \<and> r \<noteq> [] \<and> hd r \<in> {CHR ''x'', CHR ''X''} then radix_of 16 (tl r)
         else if c = CHR ''0'' \<and> r \<noteq> [] \<and> hd r \<in> {CHR ''o'', CHR ''O''} then radix_of 8 (tl r)
         else if c = CHR ''0'' \<and> r \<noteq> [] \<and> hd r \<in> {CHR ''b'', CHR ''B''} then radix_of 2 (tl r)
         else radix_of 10 (c # r))"

text \<open>\<open>reviver\<close> on an object whose own values were revived before it: \<open>None\<close> where it throws.\<close>

definition revive_record :: "(string \<times> cval) list \<Rightarrow> cval option" where
  "revive_record fs = (case fs of
     [(k, CText s)] \<Rightarrow> if k = ''$date'' then Some (case iso_time s of Some t \<Rightarrow> CDate t | None \<Rightarrow> CBadDate)
       else if k = ''$bigint'' then map_option CBig (bigint_of s)
       else if k = ''$oid'' then (if HEX_24 s then Some (COid (map lower_hex s)) else None)
       else Some (CRec fs)
   | _ \<Rightarrow> Some (CRec fs))"

fun reviver :: "jv \<Rightarrow> cval option" and reviver_all :: "jv list \<Rightarrow> cval list option" and reviver_props :: "(string \<times> jv) list \<Rightarrow> (string \<times> cval) list option" where
  "reviver JNull = Some CNull"
| "reviver (JBool b) = Some (CBool b)"
| "reviver (JNum n) = Some (CNum n)"
| "reviver JOther = Some COther"
| "reviver (JText t) = Some (CText t)"
| "reviver (JList vs) = map_option CList (reviver_all vs)"
| "reviver (JRec fs) = (case reviver_props fs of None \<Rightarrow> None | Some cs \<Rightarrow> revive_record cs)"
| "reviver_all [] = Some []"
| "reviver_all (v # vs) = (case reviver v of None \<Rightarrow> None | Some c \<Rightarrow> map_option ((#) c) (reviver_all vs))"
| "reviver_props [] = Some []"
| "reviver_props ((k, v) # fs) = (case reviver v of None \<Rightarrow> None | Some c \<Rightarrow> map_option ((#) (k, c)) (reviver_props fs))"

section \<open>Base64\<close>

definition b64_char :: "nat \<Rightarrow> char" where
  "b64_char n = (if n < 26 then char_of (65 + n) else if n < 52 then char_of (71 + n) else if n < 62 then char_of (n - 4)
     else if n = 62 then CHR ''+'' else CHR ''/'')"

definition b64_val :: "char \<Rightarrow> nat option" where
  "b64_val c = (let n = of_char c in if 65 \<le> n \<and> n \<le> 90 then Some (n - 65) else if 97 \<le> n \<and> n \<le> 122 then Some (n - 71)
     else if 48 \<le> n \<and> n \<le> 57 then Some (n + 4) else if c = CHR ''+'' then Some 62 else if c = CHR ''/'' then Some 63 else None)"

text \<open>\<open>btoa\<close>.\<close>

fun btoa :: "string \<Rightarrow> string" where
  "btoa [] = []"
| "btoa [a] = (let n = of_char a :: nat in [b64_char (n div 4), b64_char (n mod 4 * 16), CHR ''='', CHR ''=''])"
| "btoa [a, b] = (let n = of_char a * 256 + of_char b :: nat in [b64_char (n div 1024), b64_char (n div 16 mod 64), b64_char (n mod 16 * 4), CHR ''=''])"
| "btoa (a # b # c # r) = (let n = (of_char a * 256 + of_char b) * 256 + of_char c :: nat in
     [b64_char (n div 262144), b64_char (n div 4096 mod 64), b64_char (n div 64 mod 64), b64_char (n mod 64)] @ btoa r)"

text \<open>\<open>atob\<close>, which forgives spaces and the padding, and the bits left over: \<open>None\<close> where it throws.\<close>

fun sextets :: "nat list \<Rightarrow> string option" where
  "sextets [] = Some []"
| "sextets [w] = None"
| "sextets [w, x] = Some [char_of ((w * 64 + x) div 16)]"
| "sextets [w, x, y] = (let n = (w * 64 + x) * 64 + y in Some [char_of (n div 1024), char_of (n div 4 mod 256)])"
| "sextets (w # x # y # z # r) = (let n = ((w * 64 + x) * 64 + y) * 64 + z in
     map_option (\<lambda>t. [char_of (n div 65536), char_of (n div 256 mod 256), char_of (n mod 256)] @ t) (sextets r))"

definition unpadded :: "string \<Rightarrow> string" where
  "unpadded s = (if length s mod 4 \<noteq> 0 then s
     else if drop (length s - 2) s = ''=='' then take (length s - 2) s
     else if drop (length s - 1) s = ''='' then take (length s - 1) s else s)"

definition ascii_space :: "char \<Rightarrow> bool" where
  "ascii_space c = ((of_char c :: nat) \<in> {9, 10, 12, 13, 32})"

definition atob :: "string \<Rightarrow> string option" where
  "atob s = (case those (map b64_val (unpadded (filter (\<lambda>c. \<not> ascii_space c) s))) of None \<Rightarrow> None | Some ns \<Rightarrow> sextets ns)"

definition url_char :: "char \<Rightarrow> char" where
  "url_char c = (if c = CHR ''+'' then CHR ''-'' else if c = CHR ''/'' then CHR ''_'' else c)"

definition plain_char :: "char \<Rightarrow> char" where
  "plain_char c = (if c = CHR ''-'' then CHR ''+'' else if c = CHR ''_'' then CHR ''/'' else c)"

definition toBase64Url :: "string \<Rightarrow> string" where
  "toBase64Url s = rev (dropWhile (\<lambda>c. c = CHR ''='') (rev (map url_char (btoa s))))"

definition fromBase64Url :: "string \<Rightarrow> string option" where
  "fromBase64Url s = (let base64 = map plain_char s in atob (base64 @ replicate ((4 - length base64 mod 4) mod 4) (CHR ''='')))"

section \<open>Cursors\<close>

definition cursorKey :: "(string \<Rightarrow> string) \<Rightarrow> string \<Rightarrow> string option \<Rightarrow> string" where
  "cursorKey sha order_of scope = (case scope of None \<Rightarrow> order_of | Some s \<Rightarrow> order_of @ ''#'' @ take 16 (sha s))"

text \<open>\<open>splitKey\<close>: the ordering, and the scope's hash.\<close>

definition splitKey :: "string \<Rightarrow> string \<times> string option" where
  "splitKey key = (let n = length key in
     if 17 \<le> n \<and> key ! (n - 17) = CHR ''#'' \<and> list_all is_hex (drop (n - 16) key) then (take (n - 17) key, Some (drop (n - 16) key))
     else (key, None))"

text \<open>\<open>encodeCursor\<close>: \<open>None\<close> where a value is an invalid date, on which it throws.\<close>

definition encodeCursor :: "(jv \<Rightarrow> string) \<Rightarrow> string \<Rightarrow> cval list \<Rightarrow> string option" where
  "encodeCursor stringify key values = (if bad_date (CList values) then None
     else Some (toBase64Url (stringify (replacer (CList [CText key, CList values])))))"

text \<open>\<open>decodeCursor\<close>: \<open>InvalidCursorError\<close>s are their messages.\<close>

definition decodeCursor :: "(string \<Rightarrow> jv option) \<Rightarrow> string \<Rightarrow> string option \<Rightarrow> string option \<Rightarrow> (string \<times> cval list) result" where
  "decodeCursor parse cursor expectedKey site = (let at = (case site of None \<Rightarrow> '''' | Some w \<Rightarrow> if w = '''' then '''' else '' in '' @ w) in
     case (case fromBase64Url cursor of None \<Rightarrow> None | Some s \<Rightarrow> (case parse s of None \<Rightarrow> None | Some v \<Rightarrow> reviver v)) of
       None \<Rightarrow> Inl (''Invalid cursor'' @ at @ '': it cannot be decoded'')
     | Some (CList [CText key, CList values]) \<Rightarrow>
         (case expectedKey of
           None \<Rightarrow> Inr (key, values)
         | Some expected \<Rightarrow> if key = expected then Inr (key, values)
             else if fst (splitKey key) \<noteq> fst (splitKey expected)
               then Inl (''Invalid cursor'' @ at @ '': it was written for the ordering '' @ fst (splitKey key) @ '', not '' @ fst (splitKey expected))
               else Inl (''Invalid cursor'' @ at @ '': it was written for another scope''))
     | Some _ \<Rightarrow> Inl (''Invalid cursor'' @ at @ '': unexpected shape''))"

section \<open>What was written is read back\<close>

text \<open>The sextets of a text, before their letters.\<close>

fun groups :: "string \<Rightarrow> nat list" where
  "groups [] = []"
| "groups [a] = (let n = of_char a :: nat in [n div 4, n mod 4 * 16])"
| "groups [a, b] = (let n = of_char a * 256 + of_char b :: nat in [n div 1024, n div 16 mod 64, n mod 16 * 4])"
| "groups (a # b # c # r) = (let n = (of_char a * 256 + of_char b) * 256 + of_char c :: nat in
     [n div 262144, n div 4096 mod 64, n div 64 mod 64, n mod 64] @ groups r)"

definition padding :: "nat \<Rightarrow> string" where
  "padding n = replicate ((4 - n mod 4) mod 4) (CHR ''='')"

lemma of_char_less: "(of_char c :: nat) < 256"
  by simp

lemma btoa_groups: "btoa s = map b64_char (groups s) @ padding (length (groups s)) \<and> length (groups s) mod 4 \<noteq> 1"
proof (induction s rule: btoa.induct)
  case (4 a b c r)
  have "(Suc (Suc (Suc (Suc k)))) mod 4 = k mod 4" for k :: nat by presburger
  then show ?case using 4 by (simp add: Let_def padding_def)
qed (simp_all add: Let_def padding_def numeral_2_eq_2)

lemma bytes_less: "a < 256 \<Longrightarrow> b < 256 \<Longrightarrow> c < 256 \<Longrightarrow> (a * 256 + b) * 256 + c < 64 * (262144 :: nat)"
  by simp

lemma three_bytes:
  assumes "b < 256" "c < (256 :: nat)"
  shows "((a * 256 + b) * 256 + c) div 65536 = a" "((a * 256 + b) * 256 + c) div 256 mod 256 = b" "((a * 256 + b) * 256 + c) mod 256 = c"
proof -
  have one: "(x * 256 + c) div 256 = x" "(x * 256 + c) mod 256 = c" for x using assms by simp_all
  note m = one [of "a * 256 + b"]
  show "((a * 256 + b) * 256 + c) mod 256 = c" by (rule m(2))
  show "((a * 256 + b) * 256 + c) div 256 mod 256 = b" unfolding m(1) using assms by simp
  have "((a * 256 + b) * 256 + c) div 65536 = (a * 256 + b) div 256" using div_mult2_eq [of "(a * 256 + b) * 256 + c" 256 256] unfolding m(1) by simp
  then show "((a * 256 + b) * 256 + c) div 65536 = a" using assms by simp
qed

lemma groups_less: "n \<in> set (groups s) \<Longrightarrow> n < 64"
proof (induction s rule: groups.induct)
  case (2 a)
  have "(of_char a :: nat) div 4 < 64" using of_char_less [of a] by (intro less_mult_imp_div_less) simp
  then show ?case using 2 by (auto simp: Let_def)
next
  case (3 a b)
  have "(of_char a * 256 + of_char b :: nat) div 1024 < 64" using of_char_less [of a] of_char_less [of b] by linarith
  then show ?case using 3 by (auto simp: Let_def)
next
  case (4 a b c r)
  have "(of_char a * 256 + of_char b) * 256 + of_char c < 64 * (262144 :: nat)" by (intro bytes_less of_char_less)
  then have "((of_char a * 256 + of_char b) * 256 + of_char c :: nat) div 262144 < 64" by (rule less_mult_imp_div_less)
  then show ?case using 4 by (auto simp: Let_def)
qed simp

lemma div_join: "(n :: nat) div (d * 64) * 64 + n div d mod 64 = n div d"
  by (metis div_mult2_eq div_mult_mod_eq)

lemma char_of_code: "n mod 256 = (of_char c :: nat) \<Longrightarrow> char_of n = c"
  by (metis char_of_char char_of_mod_256)

lemma sextets_groups: "sextets (groups s) = Some s"
proof (induction s rule: groups.induct)
  case (2 a)
  have "((of_char a :: nat) div 4 * 64 + of_char a mod 4 * 16) div 16 = of_char a" by presburger
  then show ?case by (simp add: Let_def)
next
  case (3 a b)
  define n where "n = (of_char a * 256 + of_char b :: nat)"
  have "n div 1024 * 64 + n div 16 mod 64 = n div 16" using div_join [of n 16] by simp
  moreover have "n div 16 * 64 + n mod 16 * 4 = 4 * n" by presburger
  ultimately have "(n div 1024 * 64 + n div 16 mod 64) * 64 + n mod 16 * 4 = 4 * n" by (simp only:)
  moreover have "n div 256 = of_char a" "n mod 256 = of_char b" using of_char_less [of b] by (simp_all add: n_def)
  then have "4 * n div 1024 = of_char a" "char_of (4 * n div 4 mod 256) = b" by (simp_all add: char_of_code)
  ultimately show ?case by (simp only: sextets.simps groups.simps Let_def n_def [symmetric] char_of_char)
next
  case (4 a b c r)
  define n where "n = ((of_char a * 256 + of_char b) * 256 + of_char c :: nat)"
  have "n div 262144 * 64 + n div 4096 mod 64 = n div 4096" "n div 4096 * 64 + n div 64 mod 64 = n div 64" "n div 64 * 64 + n mod 64 = n"
    using div_join [of n 4096] div_join [of n 64] by simp_all
  then have "((n div 262144 * 64 + n div 4096 mod 64) * 64 + n div 64 mod 64) * 64 + n mod 64 = n" by simp
  moreover have "n div 65536 = of_char a" "n div 256 mod 256 = of_char b" "n mod 256 = of_char c"
    unfolding n_def by (intro three_bytes of_char_less)+
  then have "char_of (n div 65536) = a" "char_of (n div 256 mod 256) = b" "char_of (n mod 256) = c" by (simp_all add: char_of_code)
  ultimately show ?case using 4 by (simp only: sextets.simps groups.simps Let_def n_def [symmetric] append.simps option.map)
qed simp

lemma char_codes: "c = CHR ''+'' \<longleftrightarrow> (of_char c :: nat) = 43" "c = CHR ''/'' \<longleftrightarrow> (of_char c :: nat) = 47" "c = CHR ''-'' \<longleftrightarrow> (of_char c :: nat) = 45"
  "c = CHR ''_'' \<longleftrightarrow> (of_char c :: nat) = 95" "c = CHR ''='' \<longleftrightarrow> (of_char c :: nat) = 61"
  by (simp_all flip: of_char_eq_iff [where 'a = nat])

lemma b64_code: "n < 64 \<Longrightarrow> (of_char (b64_char n) :: nat) = (if n < 26 then 65 + n else if n < 52 then 71 + n else if n < 62 then n - 4 else if n = 62 then 43 else 47)"
  by (simp add: b64_char_def)

lemma b64_letters:
  assumes "n < 64"
  shows "b64_val (b64_char n) = Some n" "plain_char (url_char (b64_char n)) = b64_char n" "b64_char n \<noteq> CHR ''=''"
    "url_char (b64_char n) \<noteq> CHR ''=''" "\<not> ascii_space (b64_char n)"
proof -
  have code: "(of_char (b64_char n) :: nat) \<in> {65..90} \<union> {97..122} \<union> {48..57} \<union> {43, 47}" using assms by (auto simp: b64_code)
  show "b64_val (b64_char n) = Some n" using assms unfolding b64_val_def char_codes Let_def b64_code [OF assms] by auto
  show "b64_char n \<noteq> CHR ''=''" unfolding char_codes using code by auto
  show "\<not> ascii_space (b64_char n)" unfolding ascii_space_def using code by auto
  have minus: "b64_char n \<noteq> CHR ''-''" "b64_char n \<noteq> CHR ''_''" unfolding char_codes using code by auto
  then show "plain_char (url_char (b64_char n)) = b64_char n" by (simp add: plain_char_def url_char_def)
  show "url_char (b64_char n) \<noteq> CHR ''=''" using \<open>b64_char n \<noteq> CHR ''=''\<close> by (simp add: url_char_def)
qed

lemma toBase64Url_groups: "toBase64Url s = map (\<lambda>n. url_char (b64_char n)) (groups s)"
proof -
  have u: "url_char (CHR ''='') = CHR ''=''" by code_simp
  have "rev (map url_char (btoa s)) = replicate ((4 - length (groups s) mod 4) mod 4) (CHR ''='') @ rev (map (\<lambda>n. url_char (b64_char n)) (groups s))"
    using btoa_groups [of s] by (simp add: padding_def u comp_def)
  moreover have "dropWhile (\<lambda>c. c = x) (replicate k x @ ys) = dropWhile (\<lambda>c. c = x) ys" for k and x :: char and ys by (induction k) simp_all
  moreover have "dropWhile (\<lambda>c. c = CHR ''='') (rev (map (\<lambda>n. url_char (b64_char n)) (groups s))) = rev (map (\<lambda>n. url_char (b64_char n)) (groups s))"
  proof -
    have "\<forall>c \<in> set (rev (map (\<lambda>n. url_char (b64_char n)) (groups s))). c \<noteq> CHR ''=''" using groups_less b64_letters by auto
    then show ?thesis by (cases "rev (map (\<lambda>n. url_char (b64_char n)) (groups s))") (simp_all del: rev_map)
  qed
  ultimately show ?thesis by (simp add: toBase64Url_def)
qed

lemma unpadded_padding:
  assumes "\<forall>c \<in> set s. c \<noteq> CHR ''=''" "length s mod 4 \<noteq> 1"
  shows "unpadded (s @ padding (length s)) = s"
proof -
  consider "length s mod 4 = 0" | "length s mod 4 = 2" | "length s mod 4 = 3" using assms(2) by linarith
  then show ?thesis
  proof cases
    case 1
    then have p: "padding (length s) = []" by (simp add: padding_def)
    have no: "drop k s \<noteq> CHR ''='' # xs" for k xs
    proof
      assume "drop k s = CHR ''='' # xs"
      then have "CHR ''='' \<in> set (drop k s)" by (simp only: list.set_intros)
      then show False using assms(1) set_drop_subset [of k s] by blast
    qed
    show ?thesis using 1 unfolding unpadded_def p append_Nil2 by (simp only: no if_False not_True_eq_False simp_thms)
  next
    case 2
    then have p: "padding (length s) = ''==''" by (simp add: padding_def numeral_2_eq_2)
    moreover have "(length s + 2) mod 4 = 0" using 2 by presburger
    ultimately show ?thesis by (simp add: unpadded_def)
  next
    case 3
    then have p: "padding (length s) = ''=''" by (simp add: padding_def)
    obtain t c where s: "s = t @ [c]" using 3 by (cases s rule: rev_cases) auto
    then have "c \<noteq> CHR ''=''" using assms(1) by simp
    moreover have "(length s + 1) mod 4 = 0" using 3 by presburger
    ultimately show ?thesis using p s by (simp add: unpadded_def)
  qed
qed

lemma base64_roundtrip: "fromBase64Url (toBase64Url s) = Some s"
proof -
  let ?cs = "map b64_char (groups s)"
  have plain: "map plain_char (toBase64Url s) = ?cs" unfolding toBase64Url_groups using groups_less b64_letters by (auto simp: comp_def)
  have cs: "\<forall>c \<in> set ?cs. c \<noteq> CHR ''='' \<and> \<not> ascii_space c" using groups_less b64_letters by auto
  have "\<not> ascii_space (CHR ''='')" by code_simp
  then have "filter (\<lambda>c. \<not> ascii_space c) (?cs @ padding (length ?cs)) = ?cs @ padding (length ?cs)"
    using cs by (intro filter_True) (auto simp: padding_def)
  moreover have "unpadded (?cs @ padding (length ?cs)) = ?cs" using cs btoa_groups [of s] by (intro unpadded_padding) auto
  moreover have "those (map b64_val (map b64_char ns)) = Some ns" if "\<forall>n \<in> set ns. n < 64" for ns
    using that by (induction ns) (auto simp: b64_letters)
  ultimately have "atob (?cs @ padding (length ?cs)) = Some s"
    unfolding atob_def using groups_less sextets_groups by simp
  then show ?thesis unfolding fromBase64Url_def Let_def plain padding_def .
qed

text \<open>The values a cursor gives back as they were: the tags' own texts read back, and no object looks like a tag.\<close>

fun cursor_value :: "cval \<Rightarrow> bool" where
  "cursor_value CBadDate = False"
| "cursor_value (CDate t) = year_4 t"
| "cursor_value (COid h) = (HEX_24 h \<and> map lower_hex h = h)"
| "cursor_value (CList vs) = (\<forall>v \<in> set vs. cursor_value v)"
| "cursor_value (CRec fs) = ((\<forall>(k, v) \<in> set fs. cursor_value v) \<and> revive_record fs = Some (CRec fs))"
| "cursor_value v = True"

lemma digit_value_digit: "n < 10 \<Longrightarrow> digit_value (digit_char n) = n"
  by (simp add: digit_value_def of_char_digit Let_def)

lemma digits_radix:
  assumes "whole s"
  shows "radix_of 10 s = Some (int (parse_nat s))"
proof -
  have val: "digit_value c = char_val c \<and> digit_value c < 10" if "is_digit c" for c
    using that by (auto simp: is_digit_def digit_value_def char_val_def Let_def)
  have "foldl (\<lambda>a c. 10 * a + digit_value c) z s = foldl (\<lambda>a c. 10 * a + char_val c) z s" if "list_all is_digit s" for z :: nat and s
    using that by (induction s arbitrary: z) (simp_all add: val)
  moreover have "list_all (\<lambda>c. digit_value c < 10) s" using assms val unfolding whole_def list_all_iff by blast
  ultimately show ?thesis using assms by (simp add: radix_of_def parse_nat_def whole_def)
qed

lemma digit_no_space: "is_digit c \<Longrightarrow> \<not> big_space c"
  by (auto simp: is_digit_def big_space_def Let_def)

lemma no_space_ends:
  assumes "s \<noteq> []" "\<not> big_space (hd s)" "\<not> big_space (last s)"
  shows "rev (dropWhile big_space (rev (dropWhile big_space s))) = s"
proof -
  have "dropWhile big_space s = s" using assms by (cases s) simp_all
  moreover have "dropWhile big_space (rev s) = rev s" using assms by (cases s rule: rev_cases) simp_all
  ultimately show ?thesis by simp
qed

lemma show_nat_ends: "is_digit (hd (show_nat n))" "is_digit (last (show_nat n))"
  using show_nat_digits [of n] by (simp_all add: list_all_iff)

lemma show_nat_zero: "hd (show_nat n) = CHR ''0'' \<Longrightarrow> n = 0"
proof (induction n rule: show_nat.induct)
  case (1 n)
  show ?case
  proof (cases "n < 10")
    case True
    then have "(of_char (digit_char n) :: nat) = of_char (CHR ''0'')" using 1(2) by (subst (asm) show_nat.simps) simp
    then show ?thesis using True by (simp add: of_char_digit)
  next
    case False
    then have "hd (show_nat (n div 10)) = CHR ''0''" using 1(2) by (subst (asm) show_nat.simps) simp
    then have "n div 10 = 0" by (rule 1(1) [OF False])
    then show ?thesis using False by simp
  qed
qed

lemma bigint_show_nat: "bigint_of (show_nat n) = Some (int n)"
proof -
  have all: "rev (dropWhile big_space (rev (dropWhile big_space (show_nat n)))) = show_nat n"
    using show_nat_ends [of n] digit_no_space by (intro no_space_ends) simp_all
  obtain c r where s: "show_nat n = c # r" using show_nat_nonempty [of n] by (cases "show_nat n") auto
  have c: "is_digit c" using show_nat_ends(1) [of n] unfolding s by (simp only: list.sel)
  have signs: "c \<noteq> CHR ''-''" "c \<noteq> CHR ''+''" using c by (auto simp: is_digit_def)
  have "r = []" if "c = CHR ''0''"
  proof -
    have "hd (show_nat n) = CHR ''0''" unfolding s list.sel by (rule that)
    then have "n = 0" by (rule show_nat_zero)
    then have "length (show_nat n) = 1" by (simp add: show_nat.simps)
    then show ?thesis unfolding s by simp
  qed
  then have base: "bigint_of (show_nat n) = radix_of 10 (c # r)"
    unfolding bigint_of_def all unfolding s list.case using signs by auto
  show ?thesis unfolding base s [symmetric] by (simp add: digits_radix)
qed

lemma bigint_show_int: "bigint_of (show_int n) = Some n"
proof (cases "n < 0")
  case True
  let ?s = "CHR ''-'' # show_nat (nat (- n))"
  have last: "is_digit (last ?s)" using show_nat_ends(2) by simp
  have first: "\<not> big_space (hd ?s)" unfolding list.sel by code_simp
  have "rev (dropWhile big_space (rev (dropWhile big_space ?s))) = ?s"
    by (rule no_space_ends [OF _ first digit_no_space [OF last]]) simp
  then have "bigint_of ?s = map_option uminus (radix_of 10 (show_nat (nat (- n))))" unfolding bigint_of_def by simp
  then show ?thesis using True by (simp add: show_int_def digits_radix)
qed (simp add: show_int_def bigint_show_nat)

lemma revive_tags:
  "revive_record [(''$bigint'', CText (show_int n))] = Some (CBig n)"
  "year_4 t \<Longrightarrow> revive_record [(''$date'', CText (iso_string t))] = Some (CDate t)"
  "HEX_24 h \<Longrightarrow> map lower_hex h = h \<Longrightarrow> revive_record [(''$oid'', CText h)] = Some (COid h)"
  by (simp_all add: revive_record_def bigint_show_int iso_time_digits)

lemma reviver_replacer: "cursor_value v \<Longrightarrow> reviver (replacer v) = Some v"
proof (induction v rule: replacer.induct)
  case (10 vs)
  have "reviver_all (map replacer us) = Some us" if "set us \<subseteq> set vs" for us
    using that 10 by (induction us) simp_all
  then show ?case by simp
next
  case (11 fs)
  have "reviver_props (map (\<lambda>(k, v). (k, replacer v)) gs) = Some gs" if "set gs \<subseteq> set fs" for gs
    using that
  proof (induction gs)
    case (Cons g gs)
    obtain k v where g: "g = (k, v)" by (cases g)
    have "reviver (replacer v) = Some v" using 11 Cons(2) by (fastforce simp: g)
    then show ?case using Cons by (simp add: g)
  qed simp
  then show ?case using 11(2) by simp
qed (simp_all add: revive_tags)

lemma good_dates: "cursor_value v \<Longrightarrow> \<not> bad_date v"
  by (induction v rule: bad_date.induct) auto

text \<open>What a cursor written under one key is refused with where another is expected.\<close>

definition other_list :: "string \<Rightarrow> string \<Rightarrow> string option \<Rightarrow> string" where
  "other_list key expected site = (let at = (case site of None \<Rightarrow> '''' | Some w \<Rightarrow> if w = '''' then '''' else '' in '' @ w) in
     if fst (splitKey key) \<noteq> fst (splitKey expected)
     then ''Invalid cursor'' @ at @ '': it was written for the ordering '' @ fst (splitKey key) @ '', not '' @ fst (splitKey expected)
     else ''Invalid cursor'' @ at @ '': it was written for another scope'')"

lemma decode_encoded:
  assumes "list_all cursor_value values"
    and "parse (stringify (replacer (CList [CText key, CList values]))) = Some (replacer (CList [CText key, CList values]))"
  defines "cursor \<equiv> toBase64Url (stringify (replacer (CList [CText key, CList values])))"
  shows "encodeCursor stringify key values = Some cursor" "decodeCursor parse cursor None site = Inr (key, values)"
    "decodeCursor parse cursor (Some key) site = Inr (key, values)"
    "key' \<noteq> key \<Longrightarrow> decodeCursor parse cursor (Some key') site = Inl (other_list key key' site)"
proof -
  let ?v = "CList [CText key, CList values]"
  have v: "cursor_value ?v" using assms(1) by (simp add: list_all_iff)
  show "encodeCursor stringify key values = Some cursor"
    unfolding encodeCursor_def cursor_def using good_dates [OF v] by simp
  note opened = decodeCursor_def cursor_def base64_roundtrip option.case assms(2) reviver_replacer [OF v]
  show "decodeCursor parse cursor None site = Inr (key, values)" "decodeCursor parse cursor (Some key) site = Inr (key, values)"
    unfolding opened by (simp_all add: Let_def)
  show "decodeCursor parse cursor (Some key') site = Inl (other_list key key' site)" if "key' \<noteq> key"
    unfolding opened other_list_def using that by (simp add: Let_def)
qed

text \<open>A key is split into the ordering and the scope's hash it was made from.\<close>

lemma splitKey_cursorKey:
  assumes "splitKey order = (order, None)" "16 \<le> length (sha (the scope))" "list_all is_hex (take 16 (sha (the scope)))"
  shows "splitKey (cursorKey sha order scope) = (order, map_option (take 16 \<circ> sha) scope)"
proof (cases scope)
  case None
  then show ?thesis using assms(1) by (simp add: cursorKey_def)
next
  case (Some t)
  define h where "h = take 16 (sha t)"
  have h: "length h = 16" "list_all is_hex h" using assms(2,3) Some by (simp_all add: h_def)
  have "length (order @ CHR ''#'' # h) = length order + 17" "drop (length order + 1) (order @ CHR ''#'' # h) = h" using h(1) by simp_all
  then have "splitKey (order @ CHR ''#'' # h) = (order, Some h)" using h unfolding splitKey_def Let_def by simp
  then show ?thesis using Some by (simp add: cursorKey_def h_def)
qed

end
