(* ===== verification/Mongo_Pages.thy ===== *)
theory Mongo_Pages
  imports Mongo_Errors Mongo_Cursor
begin

text \<open>
  Reading a collection: \<open>packages/mongo/src/collection/operations/reads.ts\<close>, \<open>paginate.ts\<close> and \<open>pagination/page.ts\<close>.
  The driver's calls are parameters, over the filter, the order and the window they are given; so is the text
  \<open>String\<close> makes of an id.
\<close>

section \<open>The context\<close>

text \<open>A schema as \<open>hasPath\<close> walks it: a wrapper, an object, one that says nothing of its keys (a record, \<open>any\<close>, a
  union...), any other.\<close>

datatype node = NWrap node | NObject "(string \<times> node) list" | NOpen | NClosed

record pctx = cctx +
  pc_shape :: "(string \<times> node) list"
  pc_maxPageSize :: int
  pc_cursorScope :: "string option"
  pc_hasOwnId :: bool

text \<open>What a driver's \<open>find\<close> is called with.\<close>

record find_call =
  fc_filter :: fields
  fc_projection :: "mval option"
  fc_sort :: "(string \<times> int) list option"
  fc_skip :: "int option"
  fc_limit :: "int option"

type_synonym 'a thrown = "mongo_failure + 'a"
type_synonym finder = "find_call \<Rightarrow> jv + fields list"

text \<open>The collection's driver, and \<open>String\<close> of a value.\<close>

record driver =
  dr_find :: finder
  dr_findOne :: "fields \<Rightarrow> mval option \<Rightarrow> jv + fields option"
  dr_count :: "fields \<Rightarrow> jv + int"
  dr_shown :: "jv \<Rightarrow> string"
  dr_idtext :: "mval \<Rightarrow> string"

section \<open>Reads\<close>

definition mongo_call :: "driver \<Rightarrow> pctx \<Rightarrow> jv + 'a \<Rightarrow> 'a thrown" where
  "mongo_call dr ctx r = (case r of Inl e \<Rightarrow> Inl (toDataError (dr_shown dr) (Some (cc_name ctx)) (Thrown e)) | Inr v \<Rightarrow> Inr v)"

definition notFound :: "driver \<Rightarrow> pctx \<Rightarrow> mval \<Rightarrow> mongo_failure" where
  "notFound dr ctx i = Failed (new_error NOT_FOUND (''No document in \"'' @ cc_name ctx @ ''\" with _id '' @ dr_idtext dr i)
     (no_options\<lparr>eo_collection := Some (cc_name ctx), eo_id := Some i\<rparr>))"

text \<open>\<open>withId\<close>: the computed \<open>id\<close> comes after the document's own properties.\<close>

definition withId :: "driver \<Rightarrow> pctx \<Rightarrow> fields \<Rightarrow> fields" where
  "withId dr ctx d = (case map_of d ''_id'' of
     None \<Rightarrow> d
   | Some i \<Rightarrow> if pc_hasOwnId ctx \<or> map_of d ''id'' \<noteq> None then d else d @ [(''id'', MText (dr_idtext dr i))])"

definition findOne :: "driver \<Rightarrow> pctx \<Rightarrow> fields \<Rightarrow> mval option \<Rightarrow> fields option thrown" where
  "findOne dr ctx filt projection = map_sum id (map_option (withId dr ctx)) (mongo_call dr ctx (dr_findOne dr filt projection))"

definition ctx_of :: "pctx \<Rightarrow> cctx" where
  "ctx_of ctx = cctx.truncate ctx"

definition findById :: "driver \<Rightarrow> pctx \<Rightarrow> mval \<Rightarrow> bool \<Rightarrow> fields option thrown" where
  "findById dr ctx i withDeleted = findOne dr ctx (scoped (ctx_of ctx) (Some [(''_id'', i)]) withDeleted) None"

definition getById :: "driver \<Rightarrow> pctx \<Rightarrow> mval \<Rightarrow> bool \<Rightarrow> fields thrown" where
  "getById dr ctx given withDeleted = (let i = coerceId (ctx_of ctx) given in
     case findById dr ctx i withDeleted of Inl e \<Rightarrow> Inl e | Inr None \<Rightarrow> Inl (notFound dr ctx i) | Inr (Some d) \<Rightarrow> Inr d)"

record find_opts =
  fo_filter :: "fields option"
  fo_withDeleted :: bool
  fo_projection :: "mval option"
  fo_sort :: "(string \<times> int) list option"
  fo_skip :: "int option"
  fo_limit :: "int option"

definition findMany :: "driver \<Rightarrow> pctx \<Rightarrow> find_opts \<Rightarrow> fields list thrown" where
  "findMany dr ctx opts = map_sum id (map (withId dr ctx)) (mongo_call dr ctx (dr_find dr
     \<lparr>fc_filter = scoped (ctx_of ctx) (fo_filter opts) (fo_withDeleted opts), fc_projection = fo_projection opts,
      fc_sort = fo_sort opts, fc_skip = fo_skip opts, fc_limit = fo_limit opts\<rparr>))"

definition findFirst :: "driver \<Rightarrow> pctx \<Rightarrow> fields option \<Rightarrow> find_opts \<Rightarrow> fields option thrown" where
  "findFirst dr ctx filt opts = map_sum id (\<lambda>ds. case ds of [] \<Rightarrow> None | d # r \<Rightarrow> Some d)
     (findMany dr ctx (opts\<lparr>fo_filter := filt, fo_limit := Some 1\<rparr>))"

definition countDocuments :: "driver \<Rightarrow> pctx \<Rightarrow> fields option \<Rightarrow> bool \<Rightarrow> int thrown" where
  "countDocuments dr ctx filt withDeleted = mongo_call dr ctx (dr_count dr (scoped (ctx_of ctx) filt withDeleted))"

definition exists_one :: "driver \<Rightarrow> pctx \<Rightarrow> fields option \<Rightarrow> bool \<Rightarrow> bool thrown" where
  "exists_one dr ctx filt withDeleted = map_sum id (\<lambda>d. d \<noteq> None)
     (findOne dr ctx (scoped (ctx_of ctx) filt withDeleted) (Some (MRec [(''_id'', MOther ''1'')])))"

section \<open>Pages by number\<close>

text \<open>A number: a whole one, or another by its text.\<close>

datatype num_arg = Whole int | NotWhole string

definition DEFAULT_PAGE_SIZE :: int where "DEFAULT_PAGE_SIZE = 20"
definition DEFAULT_MAX_PAGE_SIZE :: int where "DEFAULT_MAX_PAGE_SIZE = 100"

definition pageNumber :: "string \<Rightarrow> num_arg \<Rightarrow> string option \<Rightarrow> int thrown" where
  "pageNumber name v site = (let at = (case site of None \<Rightarrow> '''' | Some w \<Rightarrow> if w = '''' then '''' else w @ '': '');
       bad = (\<lambda>shown. Inl (Refused (at @ name @ '' must be an integer of at least 1, not '' @ shown))) in
     case v of NotWhole t \<Rightarrow> bad t | Whole n \<Rightarrow> if n < 1 then bad (show_int n) else Inr n)"

record page_window =
  pw_page :: int
  pw_pageSize :: int
  pw_limit :: int
  pw_skip :: int

definition pageWindow :: "num_arg option \<Rightarrow> num_arg option \<Rightarrow> int \<Rightarrow> string option \<Rightarrow> page_window thrown" where
  "pageWindow page pageSize maxPageSize site =
     (case pageNumber ''page'' (case page of None \<Rightarrow> Whole 1 | Some n \<Rightarrow> n) site of
        Inl e \<Rightarrow> Inl e
      | Inr p \<Rightarrow> (case pageNumber ''pageSize'' (case pageSize of None \<Rightarrow> Whole DEFAULT_PAGE_SIZE | Some n \<Rightarrow> n) site of
          Inl e \<Rightarrow> Inl e
        | Inr s \<Rightarrow> (let size = min s maxPageSize in Inr \<lparr>pw_page = p, pw_pageSize = size, pw_limit = size, pw_skip = (p - 1) * size\<rparr>)))"

record numbered_page =
  np_items :: "fields list"
  np_total :: int
  np_page :: int
  np_pageSize :: int
  np_pageCount :: int

text \<open>\<open>Math.ceil(total / pageSize)\<close>, for a size of at least 1.\<close>

definition toPage :: "fields list \<Rightarrow> int \<Rightarrow> page_window \<Rightarrow> numbered_page" where
  "toPage items n w = \<lparr>np_items = items, np_total = n, np_page = pw_page w, np_pageSize = pw_pageSize w,
     np_pageCount = - ((- n) div pw_pageSize w)\<rparr>"

definition cursorLimit :: "num_arg option \<Rightarrow> int \<Rightarrow> string option \<Rightarrow> int thrown" where
  "cursorLimit limit maxPageSize site = map_sum id (\<lambda>n. min n maxPageSize)
     (pageNumber ''limit'' (case limit of None \<Rightarrow> Whole DEFAULT_PAGE_SIZE | Some n \<Rightarrow> n) site)"

definition paginate_site :: "pctx \<Rightarrow> string" where
  "paginate_site ctx = ''paginate on \"'' @ cc_name ctx @ ''\"''"

text \<open>\<open>paginate\<close>; of two calls that both fail, the first one's error.\<close>

definition paginate :: "driver \<Rightarrow> pctx \<Rightarrow> num_arg option \<Rightarrow> num_arg option \<Rightarrow> fields option \<Rightarrow> (string \<times> int) list option \<Rightarrow> bool \<Rightarrow> numbered_page thrown" where
  "paginate dr ctx page pageSize filt sorting withDeleted =
     (case pageWindow page pageSize (pc_maxPageSize ctx) (Some (paginate_site ctx)) of
        Inl e \<Rightarrow> Inl e
      | Inr w \<Rightarrow> (case findMany dr ctx \<lparr>fo_filter = filt, fo_withDeleted = withDeleted, fo_projection = None,
            fo_sort = Some (case sorting of None \<Rightarrow> [(''_id'', 1)] | Some s \<Rightarrow> s), fo_skip = Some (pw_skip w), fo_limit = Some (pw_limit w)\<rparr> of
          Inl e \<Rightarrow> Inl e
        | Inr items \<Rightarrow> (case countDocuments dr ctx filt withDeleted of Inl e \<Rightarrow> Inl e | Inr n \<Rightarrow> Inr (toPage items n w))))"

section \<open>Pages by cursor\<close>

definition NULL :: mval where "NULL = MOther ''null''"

datatype direction = Asc | Desc

text \<open>\<open>values[0] ?? null\<close>.\<close>

definition keyset :: "string list \<Rightarrow> mval list \<Rightarrow> string \<Rightarrow> direction \<Rightarrow> fields" where
  "keyset names values past direction = (let lead = hd names; leadValue = (case values of [] \<Rightarrow> NULL | v # vs \<Rightarrow> v) in
     [(''$or'', MList (map MRec (
       (if leadValue \<noteq> NULL then [(lead, MRec [(past, leadValue)])] # (if direction = Desc then [[(lead, NULL)]] else [])
        else if direction = Asc then [[(lead, MRec [(''$ne'', NULL)])]] else []) @
       map (\<lambda>(field, v). [(lead, leadValue), (field, MRec [(past, v)])]) (zip (tl names) (tl values)))))])"

fun inner :: "nat \<Rightarrow> node \<Rightarrow> node" where
  "inner 0 n = n"
| "inner (Suc i) (NWrap n) = inner i n"
| "inner (Suc i) n = n"

text \<open>\<open>shape[name]\<close>, on a plain object.\<close>

definition node_at :: "(string \<times> node) list \<Rightarrow> string \<Rightarrow> node option" where
  "node_at shape name = (case map_of shape name of Some n \<Rightarrow> Some n | None \<Rightarrow> if name \<in> PROTOTYPE then Some NClosed else None)"

fun path_parts :: "string \<Rightarrow> string list" where
  "path_parts [] = [[]]"
| "path_parts (c # s) = (if c = CHR ''.'' then [] # path_parts s else (c # hd (path_parts s)) # tl (path_parts s))"

fun has_rest :: "node \<Rightarrow> string list \<Rightarrow> bool" where
  "has_rest n [] = True"
| "has_rest n (part # rest) = (case inner 16 n of
     NObject shape \<Rightarrow> (case node_at shape part of None \<Rightarrow> False | Some m \<Rightarrow> has_rest m rest)
   | NOpen \<Rightarrow> True
   | _ \<Rightarrow> False)"

definition hasPath :: "(string \<times> node) list \<Rightarrow> string \<Rightarrow> bool" where
  "hasPath shape path = (if path = ''_id'' then True
     else (case node_at shape (hd (path_parts path)) of None \<Rightarrow> False | Some n \<Rightarrow> has_rest n (tl (path_parts path))))"

text \<open>\<open>valueAt\<close>, under plain objects; \<open>INHERITED\<close> stands for what a name of \<open>Object.prototype\<close> gives.\<close>

definition INHERITED :: mval where "INHERITED = MOther ''inherited''"

definition prop_of :: "fields \<Rightarrow> string \<Rightarrow> mval option" where
  "prop_of d name = (case map_of d name of Some v \<Rightarrow> Some v | None \<Rightarrow> if name \<in> PROTOTYPE then Some INHERITED else None)"

fun value_in :: "mval \<Rightarrow> string list \<Rightarrow> mval option" where
  "value_in v [] = Some v"
| "value_in (MRec d) (part # rest) = (case prop_of d part of None \<Rightarrow> None | Some v \<Rightarrow> value_in v rest)"
| "value_in v (part # rest) = None"

definition valueAt :: "fields \<Rightarrow> string \<Rightarrow> mval option" where
  "valueAt d path = (case prop_of d path of Some v \<Rightarrow> Some v | None \<Rightarrow> value_in (MRec d) (path_parts path))"

definition value_or_null :: "fields \<Rightarrow> string \<Rightarrow> mval" where
  "value_or_null d path = (case valueAt d path of None \<Rightarrow> NULL | Some v \<Rightarrow> v)"

text \<open>One JavaScript value as the filters hold it and as the cursors do.\<close>

definition int_of_text :: "string \<Rightarrow> int option" where
  "int_of_text s = (case s of [] \<Rightarrow> None | c # r \<Rightarrow> if c = CHR ''-'' then map_option uminus (radix_of 10 r) else radix_of 10 s)"

definition other_of :: "string \<Rightarrow> cval" where
  "other_of t = (if t = ''null'' then CNull else if t = ''true'' then CBool True else if t = ''false'' then CBool False
     else (case int_of_text t of Some n \<Rightarrow> CNum n
       | None \<Rightarrow> (case (if ends_with ''n'' t then int_of_text (butlast t) else None) of Some n \<Rightarrow> CBig n | None \<Rightarrow> COther)))"

fun cval_of :: "mval \<Rightarrow> cval" where
  "cval_of (MText t) = CText t"
| "cval_of (MId h) = COid h"
| "cval_of (MDate t) = CDate t"
| "cval_of (MList vs) = CList (map cval_of vs)"
| "cval_of (MRec fs) = CRec (map (\<lambda>(k, v). (k, cval_of v)) fs)"
| "cval_of (MOther t) = other_of t"

fun mval_of :: "cval \<Rightarrow> mval" where
  "mval_of CNull = NULL"
| "mval_of (CBool b) = MOther (if b then ''true'' else ''false'')"
| "mval_of (CNum n) = MOther (show_int n)"
| "mval_of COther = MOther ''other''"
| "mval_of (CText t) = MText t"
| "mval_of (CBig n) = MOther (show_int n @ ''n'')"
| "mval_of (CDate t) = MDate t"
| "mval_of CBadDate = MOther ''Invalid Date''"
| "mval_of (COid h) = MId h"
| "mval_of (CList vs) = MList (map mval_of vs)"
| "mval_of (CRec fs) = MRec (map (\<lambda>(k, v). (k, mval_of v)) fs)"

text \<open>A scope: a text, or another value by its \<open>typeof\<close> (\<open>null\<close> by its name).\<close>

datatype scope_arg = ScopeText string | ScopeOther string

record cursor_opts =
  co_orderBy :: "string option"
  co_direction :: "direction option"
  co_scope :: "scope_arg option"
  co_limit :: "num_arg option"
  co_after :: "string option"
  co_filter :: "fields option"
  co_withDeleted :: bool

text \<open>What the cursors need of the outside: JSON and SHA-256.\<close>

record codec =
  cd_parse :: "string \<Rightarrow> jv option"
  cd_stringify :: "jv \<Rightarrow> string"
  cd_sha :: "string \<Rightarrow> string"

definition cursor_site :: "pctx \<Rightarrow> string" where
  "cursor_site ctx = ''paginateByCursor on \"'' @ cc_name ctx @ ''\"''"

definition invalid_cursor :: "pctx \<Rightarrow> string \<Rightarrow> mongo_failure" where
  "invalid_cursor ctx message = Failed (new_error INVALID_CURSOR message (no_options\<lparr>eo_collection := Some (cc_name ctx)\<rparr>))"

definition order_text :: "string \<Rightarrow> direction \<Rightarrow> string" where
  "order_text field d = field @ '':'' @ (if d = Asc then ''asc'' else ''desc'')"

definition sort_fields :: "string \<Rightarrow> string list" where
  "sort_fields sortField = (if sortField = ''_id'' then [''_id''] else [sortField, ''_id''])"

definition sort_of :: "string \<Rightarrow> direction \<Rightarrow> (string \<times> int) list" where
  "sort_of sortField d = map (\<lambda>f. (f, if d = Asc then 1 else -1)) (sort_fields sortField)"

text \<open>The filter a cursor resumes with.\<close>

definition resumed :: "codec \<Rightarrow> pctx \<Rightarrow> string \<Rightarrow> direction \<Rightarrow> string \<Rightarrow> string option \<Rightarrow> fields option thrown" where
  "resumed cd ctx sortField d key after = (case after of
     None \<Rightarrow> Inr None
   | Some cursor \<Rightarrow> if cursor = '''' then Inr None
     else (case decodeCursor (cd_parse cd) cursor (Some key) (Some (cursor_site ctx)) of
         Inl message \<Rightarrow> Inl (invalid_cursor ctx message)
       | Inr (k, values) \<Rightarrow> if length values \<noteq> length (sort_fields sortField)
           then Inl (invalid_cursor ctx (''Invalid cursor in '' @ cursor_site ctx @ '': it holds '' @ show_nat (length values) @
             '' value(s) where the ordering '' @ order_text sortField d @ '' needs '' @ show_nat (length (sort_fields sortField)) @
             '' ('' @ join_with '', '' (sort_fields sortField) @ '')''))
           else Inr (Some (keyset (sort_fields sortField) (map mval_of values) (if d = Asc then ''$gt'' else ''$lt'') d))))"

text \<open>\<open>slice(0, limit)\<close>, which counts from the end for a negative limit.\<close>

definition slice_to :: "int \<Rightarrow> 'a list \<Rightarrow> 'a list" where
  "slice_to n xs = (if n < 0 then take (length xs - nat (- n)) xs else take (nat n) xs)"

text \<open>The page, and the cursor of the next one.\<close>

definition cursor_page :: "codec \<Rightarrow> string \<Rightarrow> string list \<Rightarrow> int \<Rightarrow> fields list \<Rightarrow> (fields list \<times> string option) thrown" where
  "cursor_page cd key names limit documents = (let items = slice_to limit documents in
     if int (length documents) \<le> limit \<or> items = [] then Inr (items, None)
     else (case encodeCursor (cd_stringify cd) key (map (\<lambda>f. cval_of (value_or_null (last items) f)) names) of
         None \<Rightarrow> Inl (Refused ''Invalid Date'')
       | Some cursor \<Rightarrow> Inr (items, Some cursor)))"

definition paginateByCursor :: "codec \<Rightarrow> driver \<Rightarrow> pctx \<Rightarrow> cursor_opts \<Rightarrow> (fields list \<times> string option) thrown" where
  "paginateByCursor cd dr ctx opts = (let sortField = (case co_orderBy opts of None \<Rightarrow> ''_id'' | Some f \<Rightarrow> f);
       d = (case co_direction opts of None \<Rightarrow> Asc | Some x \<Rightarrow> x);
       own = (case co_scope opts of None \<Rightarrow> map_option ScopeText (pc_cursorScope ctx) | Some s \<Rightarrow> Some s) in
     if \<not> hasPath (pc_shape ctx) sortField
     then Inl (Refused (''paginateByCursor: \"'' @ cc_name ctx @ ''\" has no field \"'' @ sortField @ ''\" in its schema''))
     else (case (case own of None \<Rightarrow> Inr None | Some (ScopeText s) \<Rightarrow> Inr (Some s)
           | Some (ScopeOther t) \<Rightarrow> Inl (Refused (''paginateByCursor: \"scope\" of \"'' @ cc_name ctx @ ''\" must be a string, not '' @ t))) of
         Inl e \<Rightarrow> Inl e
       | Inr scope \<Rightarrow> (let key = cursorKey (cd_sha cd) (order_text sortField d) scope in
           case cursorLimit (co_limit opts) (pc_maxPageSize ctx) (Some (cursor_site ctx)) of
             Inl e \<Rightarrow> Inl e
           | Inr limit \<Rightarrow> (case resumed cd ctx sortField d key (co_after opts) of
               Inl e \<Rightarrow> Inl e
             | Inr after \<Rightarrow> (case findMany dr ctx \<lparr>fo_filter = Some (mergeFilters (co_filter opts) after), fo_withDeleted = co_withDeleted opts,
                   fo_projection = None, fo_sort = Some (sort_of sortField d), fo_skip = None, fo_limit = Some (limit + 1)\<rparr> of
                 Inl e \<Rightarrow> Inl e
               | Inr documents \<Rightarrow> cursor_page cd key (sort_fields sortField) limit documents)))))"

section \<open>A cursor is for its ordering and its scope\<close>

text \<open>An ordering ends with its direction, so it never looks like one with a scope's hash.\<close>

lemma order_text_plain: "splitKey (order_text field d) = (order_text field d, None)"
proof -
  have "\<not> is_hex (CHR ''s'')" by code_simp
  moreover have "CHR ''s'' \<in> set (drop (length (order_text field d) - 16) (order_text field d))"
    by (cases d) (simp_all add: order_text_def)
  ultimately have "\<not> list_all is_hex (drop (length (order_text field d) - 16) (order_text field d))"
    unfolding list_all_iff by blast
  then show ?thesis by (simp add: splitKey_def Let_def)
qed

lemma order_text_inj: "order_text field d = order_text field' d' \<Longrightarrow> field = field' \<and> d = d'"
proof -
  assume e: "order_text field d = order_text field' d'"
  have "hd (drop (length (order_text f k) - 3) (order_text f k)) = (if k = Asc then CHR ''a'' else CHR ''e'')" for f k
    by (cases k) (simp_all add: order_text_def)
  then have "(if d = Asc then CHR ''a'' else CHR ''e'') = (if d' = Asc then CHR ''a'' else CHR ''e'')" using e by metis
  then have "d = d'" by (cases d; cases d') simp_all
  then show "field = field' \<and> d = d'" using e by (simp add: order_text_def)
qed

text \<open>What the listing needs of SHA-256: at least sixteen digits, in lower case.\<close>

definition sha_hex :: "(string \<Rightarrow> string) \<Rightarrow> bool" where
  "sha_hex sha = (\<forall>s. 16 \<le> length (sha s) \<and> list_all is_hex (sha s))"

lemma splitKey_order:
  assumes "sha_hex sha"
  shows "splitKey (cursorKey sha (order_text field d) scope) = (order_text field d, map_option (take 16 \<circ> sha) scope)"
proof (rule splitKey_cursorKey [OF order_text_plain])
  show "16 \<le> length (sha (the scope))" using assms by (simp add: sha_hex_def)
  have "list_all is_hex (sha (the scope))" using assms by (simp add: sha_hex_def)
  then show "list_all is_hex (take 16 (sha (the scope)))" by (auto simp: list_all_iff dest: in_set_takeD)
qed

text \<open>C39. A cursor written for a field, a direction and a scope is read back as its key and its values, dates,
  bigints and ids among them, by a listing of the same field, direction and scope. A listing by another field or in
  the other direction refuses it, saying both orderings and no scope, whatever its scope; one by the same ordering
  refuses it, saying nothing of either scope, when only one of the two has a scope or their SHA-256 do not begin with
  the same sixteen digits. \<open>JSON.parse\<close> is asked only to read what \<open>JSON.stringify\<close> printed.\<close>

theorem cursor_roundtrip:
  assumes "list_all cursor_value values" and "sha_hex sha"
    and "parse (stringify (replacer (CList [CText (cursorKey sha (order_text field d) scope), CList values])))
      = Some (replacer (CList [CText (cursorKey sha (order_text field d) scope), CList values]))"
  shows "\<exists>cursor. encodeCursor stringify (cursorKey sha (order_text field d) scope) values = Some cursor
    \<and> decodeCursor parse cursor None site = Inr (cursorKey sha (order_text field d) scope, values)
    \<and> decodeCursor parse cursor (Some (cursorKey sha (order_text field d) scope)) site
        = Inr (cursorKey sha (order_text field d) scope, values)
    \<and> (\<forall>field' d' scope'. (field', d') \<noteq> (field, d) \<longrightarrow>
        decodeCursor parse cursor (Some (cursorKey sha (order_text field' d') scope')) site =
          Inl (''Invalid cursor'' @ (case site of None \<Rightarrow> '''' | Some w \<Rightarrow> if w = '''' then '''' else '' in '' @ w) @
            '': it was written for the ordering '' @ order_text field d @ '', not '' @ order_text field' d'))
    \<and> (\<forall>scope'. map_option (take 16 \<circ> sha) scope' \<noteq> map_option (take 16 \<circ> sha) scope \<longrightarrow>
        decodeCursor parse cursor (Some (cursorKey sha (order_text field d) scope')) site =
          Inl (''Invalid cursor'' @ (case site of None \<Rightarrow> '''' | Some w \<Rightarrow> if w = '''' then '''' else '' in '' @ w) @
            '': it was written for another scope''))"
proof -
  define key where "key = cursorKey sha (order_text field d) scope"
  define cursor where "cursor = toBase64Url (stringify (replacer (CList [CText key, CList values])))"
  note read = decode_encoded [where parse = parse and stringify = stringify and key = key,
    OF assms(1) assms(3) [folded key_def], folded cursor_def]
  note split = splitKey_order [OF assms(2)]
  have k: "splitKey key = (order_text field d, map_option (take 16 \<circ> sha) scope)" unfolding key_def by (rule split)
  have order: "decodeCursor parse cursor (Some (cursorKey sha (order_text field' d') scope')) site =
      Inl (''Invalid cursor'' @ (case site of None \<Rightarrow> '''' | Some w \<Rightarrow> if w = '''' then '''' else '' in '' @ w) @
        '': it was written for the ordering '' @ order_text field d @ '', not '' @ order_text field' d')"
    if "(field', d') \<noteq> (field, d)" for field' d' scope'
  proof -
    have o: "order_text field d \<noteq> order_text field' d'" using order_text_inj that by blast
    then have "cursorKey sha (order_text field' d') scope' \<noteq> key" using k split [of field' d' scope'] by fastforce
    then have r: "decodeCursor parse cursor (Some (cursorKey sha (order_text field' d') scope')) site
        = Inl (other_list key (cursorKey sha (order_text field' d') scope') site)" by (rule read(4))
    show ?thesis unfolding r other_list_def k split Let_def fst_conv using o by (simp only: if_True not_False_eq_True)
  qed
  have other: "decodeCursor parse cursor (Some (cursorKey sha (order_text field d) scope')) site =
      Inl (''Invalid cursor'' @ (case site of None \<Rightarrow> '''' | Some w \<Rightarrow> if w = '''' then '''' else '' in '' @ w) @
        '': it was written for another scope'')"
    if "map_option (take 16 \<circ> sha) scope' \<noteq> map_option (take 16 \<circ> sha) scope" for scope'
  proof -
    have "cursorKey sha (order_text field d) scope' \<noteq> key" using k split [of field d scope'] that by fastforce
    then have r: "decodeCursor parse cursor (Some (cursorKey sha (order_text field d) scope')) site
        = Inl (other_list key (cursorKey sha (order_text field d) scope') site)" by (rule read(4))
    show ?thesis unfolding r other_list_def k split Let_def fst_conv by (simp only: if_False simp_thms)
  qed
  show ?thesis unfolding key_def [symmetric] by (intro exI [of _ cursor] conjI allI impI read(1-3) order other)
qed

text \<open>The second page of the posts of a team, by their times: JSON where it prints this one cursor.\<close>

definition last_post :: "cval list" where
  "last_post = [CDate 1791065700123, COid ''507f1f77bcf86cd799439011'', CBig (-7)]"

definition last_json :: string where
  "last_json = ''[\"at:desc#0123456789abcdef\",[{\"$date\":\"2026-10-03T22:55:00.123Z\"},{\"$oid\":\"507f1f77bcf86cd799439011\"},{\"$bigint\":\"-7\"}]]''"

definition team_sha :: "string \<Rightarrow> string" where
  "team_sha s = (if s = ''a'' then ''0123456789abcdef0'' else ''fedcba98765432100'')"

definition post_parse :: "string \<Rightarrow> jv option" where
  "post_parse s = (if s = last_json then Some (replacer (CList [CText ''at:desc#0123456789abcdef'', CList last_post])) else None)"

theorem cursor_roundtrip_witness:
  "\<exists>cursor. encodeCursor (\<lambda>v. last_json) (cursorKey team_sha (order_text ''at'' Desc) (Some ''a'')) last_post = Some cursor
    \<and> decodeCursor post_parse cursor (Some ''at:desc#0123456789abcdef'') None = Inr (''at:desc#0123456789abcdef'', last_post)
    \<and> decodeCursor post_parse cursor (Some (cursorKey team_sha (order_text ''at'' Desc) (Some ''b''))) None
        = Inl ''Invalid cursor: it was written for another scope''"
proof -
  have v: "list_all cursor_value last_post" unfolding last_post_def by code_simp
  have "list_all is_hex ''0123456789abcdef0''" "list_all is_hex ''fedcba98765432100''" by code_simp+
  then have sha: "sha_hex team_sha" by (simp add: sha_hex_def team_sha_def)
  have key: "cursorKey team_sha (order_text ''at'' Desc) (Some ''a'') = ''at:desc#0123456789abcdef''" by code_simp
  have p: "post_parse last_json = Some (replacer (CList [CText (cursorKey team_sha (order_text ''at'' Desc) (Some ''a'')), CList last_post]))"
    unfolding key post_parse_def by (simp only: if_True simp_thms)
  have other: "map_option (take 16 \<circ> team_sha) (Some ''b'') \<noteq> map_option (take 16 \<circ> team_sha) (Some ''a'')" by code_simp
  from cursor_roundtrip [where site = None and stringify = "\<lambda>v. last_json" and parse = post_parse and sha = team_sha and field = "''at''" and d = Desc
      and scope = "Some ''a''", OF v sha p] obtain cursor where
    c: "encodeCursor (\<lambda>v. last_json) (cursorKey team_sha (order_text ''at'' Desc) (Some ''a'')) last_post = Some cursor"
      "decodeCursor post_parse cursor (Some (cursorKey team_sha (order_text ''at'' Desc) (Some ''a''))) None
        = Inr (cursorKey team_sha (order_text ''at'' Desc) (Some ''a''), last_post)"
      "\<forall>scope'. map_option (take 16 \<circ> team_sha) scope' \<noteq> map_option (take 16 \<circ> team_sha) (Some ''a'') \<longrightarrow>
        decodeCursor post_parse cursor (Some (cursorKey team_sha (order_text ''at'' Desc) scope')) None =
          Inl (''Invalid cursor'' @ (case None of None \<Rightarrow> '''' | Some w \<Rightarrow> if w = '''' then '''' else '' in '' @ w) @
            '': it was written for another scope'')"
    by (elim exE conjE)
  have refused: "decodeCursor post_parse cursor (Some (cursorKey team_sha (order_text ''at'' Desc) (Some ''b''))) None
        = Inl ''Invalid cursor: it was written for another scope''"
    using c(3) other by simp
  show ?thesis using c(1) c(2) [unfolded key] refused by (intro exI [of _ cursor] conjI)
qed

end
