(* ===== verification/Mongo_Walk.thy ===== *)
theory Mongo_Walk
  imports Mongo_Pages
begin

text \<open>
  Walking the pages of a listing: every matching document once, in order. What a server's filters and orders mean is
  stated as laws, for the filters the package sends and the values the documents hold.
\<close>

section \<open>The server\<close>

text \<open>
  The documents of a collection; the filters the server takes and what they match; the order of values as ranks, and
  which values \<open>$gt\<close> and \<open>$lt\<close> compare at all.
\<close>

record server =
  sv_docs :: "fields list"
  sv_takes :: "fields \<Rightarrow> bool"
  sv_matches :: "fields \<Rightarrow> fields \<Rightarrow> bool"
  sv_rank :: "mval \<Rightarrow> int"
  sv_same :: "mval \<Rightarrow> mval \<Rightarrow> bool"

definition order_key :: "server \<Rightarrow> (string \<times> int) list \<Rightarrow> fields \<Rightarrow> int list" where
  "order_key sv sorting d = map (\<lambda>(f, o1). o1 * sv_rank sv (value_or_null d f)) sorting"

text \<open>What a \<open>find\<close> with no limit would list.\<close>

definition listed_docs :: "server \<Rightarrow> fields \<Rightarrow> (string \<times> int) list \<Rightarrow> fields list" where
  "listed_docs sv filt sorting = sort_key (order_key sv sorting) (filter (sv_matches sv filt) (sv_docs sv))"

definition find_law :: "server \<Rightarrow> finder \<Rightarrow> bool" where
  "find_law sv find_docs = (\<forall>filt sorting n. sv_takes sv filt \<and> 0 < n \<longrightarrow>
     find_docs \<lparr>fc_filter = filt, fc_projection = None, fc_sort = Some sorting, fc_skip = None, fc_limit = Some n\<rparr>
       = Inr (take (nat n) (listed_docs sv filt sorting)))"

fun scalar :: "mval \<Rightarrow> bool" where
  "scalar (MList vs) = False"
| "scalar (MRec fs) = False"
| "scalar v = True"

definition plain_name :: "string \<Rightarrow> bool" where
  "plain_name f = (\<not> starts_with ''$'' f \<and> f \<noteq> ''__proto__'')"

text \<open>\<open>filt\<close> is taken, and matches the documents \<open>meaning\<close> says.\<close>

definition means :: "server \<Rightarrow> fields \<Rightarrow> (fields \<Rightarrow> bool) \<Rightarrow> bool" where
  "means sv filt meaning = (sv_takes sv filt \<and> (\<forall>d \<in> set (sv_docs sv). sv_matches sv filt d = meaning d))"

definition joins_law :: "server \<Rightarrow> bool" where
  "joins_law sv = (means sv [] (\<lambda>d. True)
     \<and> (\<forall>a b. sv_takes sv a \<and> sv_takes sv b \<longrightarrow> means sv [(''$and'', MList [MRec a, MRec b])] (\<lambda>d. sv_matches sv a d \<and> sv_matches sv b d))
     \<and> (\<forall>cs. cs \<noteq> [] \<and> list_all (sv_takes sv) cs \<longrightarrow> means sv [(''$or'', MList (map MRec cs))] (\<lambda>d. \<exists>c \<in> set cs. sv_matches sv c d)))"

text \<open>A field with a value some document holds: equality, where null is also a field that is not there, and the
  operators, which compare values of one type.\<close>

definition field_law :: "server \<Rightarrow> string \<Rightarrow> bool" where
  "field_law sv f = (\<forall>x \<in> set (sv_docs sv). let v = value_or_null x f in
     means sv [(f, v)] (\<lambda>d. sv_rank sv (value_or_null d f) = sv_rank sv v)
     \<and> means sv [(f, NULL)] (\<lambda>d. value_or_null d f = NULL)
     \<and> means sv [(f, MRec [(''$ne'', NULL)])] (\<lambda>d. value_or_null d f \<noteq> NULL)
     \<and> (v \<noteq> NULL \<longrightarrow> sv_rank sv NULL < sv_rank sv v
         \<and> means sv [(f, MRec [(''$gt'', v)])] (\<lambda>d. sv_same sv v (value_or_null d f) \<and> sv_rank sv v < sv_rank sv (value_or_null d f))
         \<and> means sv [(f, MRec [(''$lt'', v)])] (\<lambda>d. sv_same sv v (value_or_null d f) \<and> sv_rank sv (value_or_null d f) < sv_rank sv v)))"

definition both_law :: "server \<Rightarrow> string \<Rightarrow> string \<Rightarrow> bool" where
  "both_law sv f g = (\<forall>v w. sv_takes sv [(f, v)] \<and> sv_takes sv [(g, w)] \<longrightarrow>
     means sv [(f, v), (g, w)] (\<lambda>d. sv_matches sv [(f, v)] d \<and> sv_matches sv [(g, w)] d))"

definition query_laws :: "server \<Rightarrow> string \<Rightarrow> bool" where
  "query_laws sv lead = (joins_law sv \<and> field_law sv lead \<and> field_law sv ''_id'' \<and> (lead \<noteq> ''_id'' \<longrightarrow> both_law sv lead ''_id''))"

text \<open>Documents that can be listed by a field: values of one type or null under it, ids of one type, all different.\<close>

definition orderable :: "server \<Rightarrow> string \<Rightarrow> bool" where
  "orderable sv lead = ((\<forall>f \<in> {lead, ''_id''}. \<forall>d \<in> set (sv_docs sv). scalar (value_or_null d f) \<and>
       (\<forall>e \<in> set (sv_docs sv). value_or_null d f \<noteq> NULL \<and> value_or_null e f \<noteq> NULL \<longrightarrow> sv_same sv (value_or_null d f) (value_or_null e f)))
     \<and> (\<forall>d \<in> set (sv_docs sv). value_or_null d ''_id'' \<noteq> NULL)
     \<and> distinct (map (\<lambda>d. sv_rank sv (value_or_null d ''_id'')) (sv_docs sv)))"

section \<open>Past a document\<close>

definition past_op :: "direction \<Rightarrow> string" where
  "past_op d = (if d = Asc then ''$gt'' else ''$lt'')"

text \<open>The filter that resumes after a document.\<close>

definition after_doc :: "string \<Rightarrow> direction \<Rightarrow> fields \<Rightarrow> fields" where
  "after_doc lead dir x = keyset (sort_fields lead) (map (value_or_null x) (sort_fields lead)) (past_op dir) dir"

lemma meansD: "means sv filt P \<Longrightarrow> sv_takes sv filt" "means sv filt P \<Longrightarrow> d \<in> set (sv_docs sv) \<Longrightarrow> sv_matches sv filt d = P d"
  by (simp_all add: means_def)

lemma means_mono: "means sv filt P \<Longrightarrow> (\<And>d. d \<in> set (sv_docs sv) \<Longrightarrow> P d = Q d) \<Longrightarrow> means sv filt Q"
  by (simp add: means_def)

lemmas joinsD = joins_law_def [THEN iffD1, THEN conjunct1] joins_law_def [THEN iffD1, THEN conjunct2, THEN conjunct1, THEN spec, THEN spec, THEN mp]
  joins_law_def [THEN iffD1, THEN conjunct2, THEN conjunct2, THEN spec, THEN mp]

lemma means_or:
  assumes "joins_law sv" "cs \<noteq> []" "\<forall>(c, P) \<in> set cs. means sv c P"
  shows "means sv [(''$or'', MList (map MRec (map fst cs)))] (\<lambda>d. \<exists>(c, P) \<in> set cs. P d)"
proof -
  have "list_all (sv_takes sv) (map fst cs)" using assms(3) by (auto simp: list_all_iff means_def)
  moreover have "map fst cs \<noteq> []" using assms(2) by simp
  ultimately have "map fst cs \<noteq> [] \<and> list_all (sv_takes sv) (map fst cs)" by (intro conjI)
  then have "means sv [(''$or'', MList (map MRec (map fst cs)))] (\<lambda>d. \<exists>c \<in> set (map fst cs). sv_matches sv c d)"
    by (rule joinsD(3) [OF assms(1)])
  moreover have "(\<exists>c \<in> set (map fst cs). sv_matches sv c d) = (\<exists>(c, P) \<in> set cs. P d)" if "d \<in> set (sv_docs sv)" for d
  proof -
    have "sv_matches sv (fst p) d = snd p d" if "p \<in> set cs" for p
      using assms(3) that \<open>d \<in> set (sv_docs sv)\<close> by (auto simp: means_def)
    then show ?thesis by (simp add: case_prod_beta cong: bex_cong)
  qed
  ultimately show ?thesis by (rule means_mono)
qed

lemma means_both:
  assumes "both_law sv f g" "means sv [(f, v)] P" "means sv [(g, w)] Q"
  shows "means sv [(f, v), (g, w)] (\<lambda>d. P d \<and> Q d)"
proof -
  have "means sv [(f, v), (g, w)] (\<lambda>d. sv_matches sv [(f, v)] d \<and> sv_matches sv [(g, w)] d)"
    using assms meansD(1) unfolding both_law_def by blast
  moreover have "(sv_matches sv [(f, v)] d \<and> sv_matches sv [(g, w)] d) = (P d \<and> Q d)" if "d \<in> set (sv_docs sv)" for d
    using assms(2, 3) that by (simp add: means_def)
  ultimately show ?thesis by (rule means_mono)
qed

text \<open>What the two clauses of a field say of a document.\<close>

definition beyond :: "server \<Rightarrow> direction \<Rightarrow> mval \<Rightarrow> mval \<Rightarrow> bool" where
  "beyond sv dir v u = (sv_same sv v u \<and> (if dir = Asc then sv_rank sv v < sv_rank sv u else sv_rank sv u < sv_rank sv v))"

lemma means_beyond:
  assumes "field_law sv f" "x \<in> set (sv_docs sv)" "value_or_null x f \<noteq> NULL"
  shows "means sv [(f, MRec [(past_op dir, value_or_null x f)])] (\<lambda>d. beyond sv dir (value_or_null x f) (value_or_null d f))"
  using assms unfolding field_law_def Let_def by (cases dir) (simp_all add: past_op_def beyond_def)

lemma means_field:
  assumes "field_law sv f" "x \<in> set (sv_docs sv)"
  shows "means sv [(f, value_or_null x f)] (\<lambda>d. sv_rank sv (value_or_null d f) = sv_rank sv (value_or_null x f))"
    "means sv [(f, NULL)] (\<lambda>d. value_or_null d f = NULL)" "means sv [(f, MRec [(''$ne'', NULL)])] (\<lambda>d. value_or_null d f \<noteq> NULL)"
    "value_or_null x f \<noteq> NULL \<Longrightarrow> sv_rank sv NULL < sv_rank sv (value_or_null x f)"
  using assms unfolding field_law_def Let_def by blast+

lemma means_after_id:
  assumes "query_laws sv ''_id''" "orderable sv ''_id''" "x \<in> set (sv_docs sv)"
  shows "means sv (after_doc ''_id'' dir x) (\<lambda>d. order_key sv (sort_of ''_id'' dir) x < order_key sv (sort_of ''_id'' dir) d)"
proof -
  let ?v = "value_or_null x ''_id''"
  have laws: "joins_law sv" "field_law sv ''_id''" using assms(1) by (simp_all add: query_laws_def)
  have nonnull: "?v \<noteq> NULL" using assms(2, 3) by (simp add: orderable_def)
  let ?gt = "([(''_id'', MRec [(past_op dir, ?v)])], \<lambda>d. beyond sv dir ?v (value_or_null d ''_id''))"
  let ?cs = "if dir = Desc then [?gt, ([(''_id'', NULL)], \<lambda>d. value_or_null d ''_id'' = NULL)] else [?gt]"
  have "after_doc ''_id'' dir x = [(''$or'', MList (map MRec (map fst ?cs)))]"
    using nonnull by (simp add: after_doc_def keyset_def sort_fields_def Let_def)
  moreover have "means sv [(''$or'', MList (map MRec (map fst ?cs)))] (\<lambda>d. \<exists>(c, P) \<in> set ?cs. P d)"
    using means_beyond [OF laws(2) assms(3) nonnull] means_field [OF laws(2) assms(3)] by (intro means_or laws) simp_all
  moreover have "(\<exists>(c, P) \<in> set ?cs. P d) = (order_key sv (sort_of ''_id'' dir) x < order_key sv (sort_of ''_id'' dir) d)"
    if "d \<in> set (sv_docs sv)" for d
  proof -
    have "value_or_null d ''_id'' \<noteq> NULL" "sv_same sv ?v (value_or_null d ''_id'')" using assms(2, 3) that nonnull by (simp_all add: orderable_def)
    then show ?thesis by (cases dir) (simp_all add: beyond_def order_key_def sort_of_def sort_fields_def)
  qed
  ultimately show ?thesis by (simp only: means_mono)
qed

lemma means_after_two:
  assumes "query_laws sv lead" "orderable sv lead" "x \<in> set (sv_docs sv)" "lead \<noteq> ''_id''"
  shows "means sv (after_doc lead dir x) (\<lambda>d. order_key sv (sort_of lead dir) x < order_key sv (sort_of lead dir) d)"
proof -
  let ?v = "value_or_null x lead" and ?w = "value_or_null x ''_id''"
  have laws: "joins_law sv" "field_law sv lead" "field_law sv ''_id''" "both_law sv lead ''_id''" using assms(1, 4) by (simp_all add: query_laws_def)
  have nonnull: "?w \<noteq> NULL" using assms(2, 3) by (simp add: orderable_def)
  let ?tie = "([(lead, ?v), (''_id'', MRec [(past_op dir, ?w)])],
    \<lambda>d. sv_rank sv (value_or_null d lead) = sv_rank sv ?v \<and> beyond sv dir ?w (value_or_null d ''_id''))"
  let ?null = "([(lead, NULL)], \<lambda>d. value_or_null d lead = NULL)"
  let ?gt = "([(lead, MRec [(past_op dir, ?v)])], \<lambda>d. beyond sv dir ?v (value_or_null d lead))"
  let ?some = "([(lead, MRec [(''$ne'', NULL)])], \<lambda>d. value_or_null d lead \<noteq> NULL)"
  let ?cs = "(if ?v \<noteq> NULL then ?gt # (if dir = Desc then [?null] else []) else if dir = Asc then [?some] else []) @ [?tie]"
  have "after_doc lead dir x = [(''$or'', MList (map MRec (map fst ?cs)))]"
    using assms(4) by (simp add: after_doc_def keyset_def sort_fields_def Let_def)
  moreover have "means sv [(''$or'', MList (map MRec (map fst ?cs)))] (\<lambda>d. \<exists>(c, P) \<in> set ?cs. P d)"
  proof (rule means_or [OF laws(1)])
    have "means sv (fst ?tie) (snd ?tie)" unfolding fst_conv snd_conv
      by (intro means_both laws means_field means_beyond assms(3) nonnull)
    moreover have "means sv (fst ?null) (snd ?null)" "means sv (fst ?some) (snd ?some)" "?v \<noteq> NULL \<Longrightarrow> means sv (fst ?gt) (snd ?gt)"
      unfolding fst_conv snd_conv by (intro means_field [OF laws(2) assms(3)] means_beyond [OF laws(2) assms(3)]; assumption)+
    ultimately show "\<forall>(c, P) \<in> set ?cs. means sv c P" by simp
  qed simp
  moreover have "(\<exists>(c, P) \<in> set ?cs. P d) = (order_key sv (sort_of lead dir) x < order_key sv (sort_of lead dir) d)"
    if d: "d \<in> set (sv_docs sv)" for d
  proof -
    have "value_or_null d ''_id'' \<noteq> NULL" using assms(2) d by (simp add: orderable_def)
    then have ids: "sv_same sv ?w (value_or_null d ''_id'')" using assms(2, 3) d nonnull by (simp add: orderable_def)
    have leads: "?v \<noteq> NULL \<Longrightarrow> value_or_null d lead \<noteq> NULL \<Longrightarrow> sv_same sv ?v (value_or_null d lead)" using assms(2, 3) d by (simp add: orderable_def)
    have nulls: "?v \<noteq> NULL \<Longrightarrow> sv_rank sv NULL < sv_rank sv ?v" "value_or_null d lead \<noteq> NULL \<Longrightarrow> sv_rank sv NULL < sv_rank sv (value_or_null d lead)"
      by (intro means_field(4) [OF laws(2)] assms(3) d; assumption)+
    show ?thesis using ids leads nulls assms(4)
      by (cases dir; cases "?v = NULL"; cases "value_or_null d lead = NULL")
        (auto simp: beyond_def order_key_def sort_of_def sort_fields_def)
  qed
  ultimately show ?thesis by (simp only: means_mono)
qed

lemma means_after:
  assumes "query_laws sv lead" "orderable sv lead" "x \<in> set (sv_docs sv)"
  shows "means sv (after_doc lead dir x) (\<lambda>d. order_key sv (sort_of lead dir) x < order_key sv (sort_of lead dir) d)"
  using means_after_id means_after_two assms by (cases "lead = ''_id''") simp_all

section \<open>The filter of a page\<close>

text \<open>A value the collection stores under a field is left as it is.\<close>

definition settled :: "pctx \<Rightarrow> string \<Rightarrow> mval \<Rightarrow> bool" where
  "settled ctx f v = (cc_coerces ctx \<longrightarrow> (case kind_at (cc_kinds ctx) f of None \<Rightarrow> True | Some k \<Rightarrow> coerceValue k v = v))"

lemma plain_names: "plain_name f \<Longrightarrow> f \<notin> FILTER_OPERATORS" "plain_name f \<Longrightarrow> f \<noteq> ''$not''" "plain_name f \<Longrightarrow> set_prop f v r = (f, v) # r"
  by (auto simp: plain_name_def FILTER_OPERATORS_def starts_with_def set_prop_def)

lemma settled_field:
  assumes "plain_name f" "scalar v" "\<forall>k. kind_at ks f = Some k \<longrightarrow> coerceValue k v = v"
  shows "coerceFilter ks ((f, v) # r) = (f, v) # coerceFilter ks r"
  using assms by (cases v) (simp_all add: plain_names split: option.splits)

lemma settled_operator:
  assumes "plain_name f" "scalar v" "\<forall>k. kind_at ks f = Some k \<longrightarrow> coerceValue k v = v" "op \<in> {''$gt'', ''$lt'', ''$ne''}"
  shows "coerceFilter ks ((f, MRec [(op, v)]) # r) = (f, MRec [(op, v)]) # coerceFilter ks r"
proof -
  have op: "op \<noteq> ''$elemMatch''" "op \<noteq> ''$not''" "op \<noteq> ''__proto__''" using assms(4) by auto
  have "coerceOperators k [(op, v)] = [(op, v)]" if "kind_at ks f = Some k" for k
    using assms(2, 3) that op by (cases v) (simp_all add: set_prop_def)
  then show ?thesis using assms(1) op by (simp add: plain_names split: option.splits)
qed

lemma null_settled: "scalar NULL" "coerceValue k NULL = NULL"
  by (simp_all add: NULL_def)

lemma settled_or:
  assumes "\<forall>c \<in> set cs. coerceFilter ks c = c"
  shows "coerceFilter ks [(''$or'', MList (map MRec cs))] = [(''$or'', MList (map MRec cs))]"
proof -
  have "''$or'' \<in> FILTER_OPERATORS" by (simp add: FILTER_OPERATORS_def)
  then show ?thesis using assms by (simp add: set_prop_def)
qed

definition names_settled :: "pctx \<Rightarrow> string \<Rightarrow> fields \<Rightarrow> bool" where
  "names_settled ctx lead x = (\<forall>f \<in> {lead, ''_id''}. plain_name f \<and> scalar (value_or_null x f) \<and> settled ctx f (value_or_null x f))"

lemma after_settled:
  assumes "names_settled ctx lead x"
  shows "coerced (ctx_of ctx) (Some (after_doc lead dir x)) = after_doc lead dir x"
proof (cases "cc_coerces ctx")
  case True
  let ?ks = "cc_kinds ctx"
  have f: "plain_name f" "scalar (value_or_null x f)" "\<forall>k. kind_at ?ks f = Some k \<longrightarrow> coerceValue k (value_or_null x f) = value_or_null x f"
    if "f = lead \<or> f = ''_id''" for f
    using assms True that by (auto simp: names_settled_def settled_def)
  have past: "past_op dir \<in> {''$gt'', ''$lt'', ''$ne''}" by (simp add: past_op_def)
  have null: "\<forall>k. kind_at ?ks f = Some k \<longrightarrow> coerceValue k NULL = NULL" for f by (simp add: null_settled)
  have "coerceFilter ?ks ((f, MRec [(past_op dir, value_or_null x f)]) # r) = (f, MRec [(past_op dir, value_or_null x f)]) # coerceFilter ?ks r"
    "coerceFilter ?ks ((f, MRec [(''$ne'', NULL)]) # r) = (f, MRec [(''$ne'', NULL)]) # coerceFilter ?ks r"
    "coerceFilter ?ks ((f, value_or_null x f) # r) = (f, value_or_null x f) # coerceFilter ?ks r"
    "coerceFilter ?ks ((f, NULL) # r) = (f, NULL) # coerceFilter ?ks r" if "f = lead \<or> f = ''_id''" for f r
    by (intro settled_operator settled_field f [OF that] past null null_settled; simp)+
  note keep = this
  have none: "coerceFilter ?ks [] = []" by simp
  have "coerceFilter ?ks (after_doc lead dir x) = after_doc lead dir x"
  proof (cases "lead = ''_id''")
    case True
    then show ?thesis unfolding after_doc_def keyset_def sort_fields_def Let_def
      by (simp only: if_True list.map list.sel list.case zip.simps append_Nil2) (intro settled_or; simp del: coerceFilter.simps add: keep none)
  next
    case False
    then show ?thesis unfolding after_doc_def keyset_def sort_fields_def Let_def
      by (simp only: if_False list.map list.sel list.case zip_Cons_Cons zip_Nil prod.case) (intro settled_or; simp del: coerceFilter.simps add: keep none)
  qed
  then show ?thesis using True by (simp add: coerced_def ctx_of_def cctx.truncate_def)
qed (simp add: coerced_def ctx_of_def cctx.truncate_def)

definition opt_means :: "server \<Rightarrow> fields option \<Rightarrow> (fields \<Rightarrow> bool) \<Rightarrow> bool" where
  "opt_means sv filt P = (case filt of None \<Rightarrow> P = (\<lambda>d. True) | Some f \<Rightarrow> means sv f P)"

lemma means_merged:
  assumes "joins_law sv" "opt_means sv a P" "opt_means sv b Q"
  shows "means sv (mergeFilters a b) (\<lambda>d. P d \<and> Q d)"
proof -
  have empty: "P d" if "a = Some [] \<or> a = None" "d \<in> set (sv_docs sv)" for d
    using assms(1, 2) that by (auto simp: opt_means_def means_def dest: joinsD(1))
  have empty': "Q d" if "b = Some [] \<or> b = None" "d \<in> set (sv_docs sv)" for d
    using assms(1, 3) that by (auto simp: opt_means_def means_def dest: joinsD(1))
  consider "a = Some [] \<or> a = None" "b = Some [] \<or> b = None" | y where "a = Some [] \<or> a = None" "b = Some y" "y \<noteq> []"
    | x where "a = Some x" "x \<noteq> []" "b = Some [] \<or> b = None" | x y where "a = Some x" "x \<noteq> []" "b = Some y" "y \<noteq> []"
    by (cases a; cases b) auto
  then show ?thesis
  proof cases
    case 1
    then have "mergeFilters a b = []" by (auto simp: mergeFilters_def)
    then show ?thesis using 1 empty empty' joinsD(1) [OF assms(1)] by (simp add: means_def)
  next
    case 2
    then have "mergeFilters a b = y" by (auto simp: mergeFilters_def)
    then show ?thesis using 2 empty assms(3) by (simp add: means_def opt_means_def)
  next
    case 3
    then have "mergeFilters a b = x" by (auto simp: mergeFilters_def)
    then show ?thesis using 3 empty' assms(2) by (simp add: means_def opt_means_def)
  next
    case 4
    then have m: "mergeFilters a b = [(''$and'', MList [MRec x, MRec y])]" by (simp add: mergeFilters_def)
    have xy: "means sv x P" "means sv y Q" using 4 assms(2, 3) by (simp_all add: opt_means_def)
    then have "sv_takes sv x \<and> sv_takes sv y" by (simp add: means_def)
    then have "means sv [(''$and'', MList [MRec x, MRec y])] (\<lambda>d. sv_matches sv x d \<and> sv_matches sv y d)" by (rule joinsD(2) [OF assms(1)])
    then show ?thesis unfolding m using xy by (simp add: means_def)
  qed
qed

text \<open>The filter of the listing and of each of its pages.\<close>

definition page_filter :: "pctx \<Rightarrow> fields option \<Rightarrow> bool \<Rightarrow> fields option \<Rightarrow> fields" where
  "page_filter ctx filt wd after = scoped (ctx_of ctx) (Some (mergeFilters filt after)) wd"

lemma coerced_and:
  assumes "a \<noteq> []" "b \<noteq> []"
  shows "coerced c (Some (mergeFilters (Some a) (Some b))) = [(''$and'', MList [MRec (coerced c (Some a)), MRec (coerced c (Some b))])]"
proof -
  have "''$and'' \<in> FILTER_OPERATORS" by (simp add: FILTER_OPERATORS_def)
  then show ?thesis using assms by (simp add: coerced_def mergeFilters_def set_prop_def)
qed

lemma coerced_empty [simp]: "coerced c (Some []) = []"
  by (simp add: coerced_def)

lemma means_page:
  assumes "joins_law sv" "opt_means sv (map_option (\<lambda>f. coerced (ctx_of ctx) (Some f)) filt) P" "opt_means sv (live (ctx_of ctx) wd) L"
    and "opt_means sv after Q" "after \<noteq> Some []" "\<forall>a. after = Some a \<longrightarrow> coerced (ctx_of ctx) (Some a) = a"
  shows "means sv (page_filter ctx filt wd after) (\<lambda>d. (P d \<and> Q d) \<and> L d)"
proof -
  let ?c = "ctx_of ctx"
  have given: "opt_means sv (Some (coerced ?c (Some (mergeFilters filt after)))) (\<lambda>d. P d \<and> Q d)"
  proof (cases "filt = None \<or> filt = Some []")
    case True
    then have P: "P d" if "d \<in> set (sv_docs sv)" for d using assms(1, 2) that by (auto simp: opt_means_def means_def dest: joinsD(1))
    have "coerced ?c (Some (mergeFilters filt after)) = (case after of None \<Rightarrow> [] | Some a \<Rightarrow> a)"
      using True assms(5, 6) by (cases after) (auto simp: mergeFilters_def)
    then show ?thesis using P assms(4) joinsD(1) [OF assms(1)] by (cases after) (simp_all add: opt_means_def means_def)
  next
    case False
    then obtain f where f: "filt = Some f" "f \<noteq> []" by auto
    show ?thesis
    proof (cases after)
      case None
      then show ?thesis using f assms(2, 4) by (simp add: mergeFilters_def opt_means_def)
    next
      case (Some a)
      have fa: "means sv (coerced ?c (Some f)) P" "means sv a Q" using Some f assms(2, 4) by (simp_all add: opt_means_def)
      then have "sv_takes sv (coerced ?c (Some f)) \<and> sv_takes sv a" by (simp add: means_def)
      then have "means sv [(''$and'', MList [MRec (coerced ?c (Some f)), MRec a])] (\<lambda>d. sv_matches sv (coerced ?c (Some f)) d \<and> sv_matches sv a d)"
        by (rule joinsD(2) [OF assms(1)])
      moreover have "coerced ?c (Some (mergeFilters filt after)) = [(''$and'', MList [MRec (coerced ?c (Some f)), MRec a])]"
        using coerced_and [of f a ?c] f Some assms(5, 6) by simp
      ultimately show ?thesis using fa by (simp add: opt_means_def means_def)
    qed
  qed
  show ?thesis unfolding page_filter_def scoped_def using means_merged [OF assms(1) given assms(3)] by simp
qed

section \<open>One page\<close>

definition cursor_lead :: "cursor_opts \<Rightarrow> string" where
  "cursor_lead opts = (case co_orderBy opts of None \<Rightarrow> ''_id'' | Some f \<Rightarrow> f)"

definition cursor_dir :: "cursor_opts \<Rightarrow> direction" where
  "cursor_dir opts = (case co_direction opts of None \<Rightarrow> Asc | Some d \<Rightarrow> d)"

definition cursor_key :: "codec \<Rightarrow> pctx \<Rightarrow> cursor_opts \<Rightarrow> string" where
  "cursor_key cd ctx opts = cursorKey (cd_sha cd) (order_text (cursor_lead opts) (cursor_dir opts))
     (case co_scope opts of None \<Rightarrow> pc_cursorScope ctx | Some (ScopeText s) \<Rightarrow> Some s | Some (ScopeOther t) \<Rightarrow> None)"

definition doc_values :: "string \<Rightarrow> fields \<Rightarrow> cval list" where
  "doc_values lead x = map (\<lambda>f. cval_of (value_or_null x f)) (sort_fields lead)"

text \<open>JSON prints and reads the cursors of the documents, and reads nothing in an empty text.\<close>

definition codec_law :: "codec \<Rightarrow> string \<Rightarrow> string \<Rightarrow> fields list \<Rightarrow> bool" where
  "codec_law cd key lead docs = (cd_parse cd '''' = None \<and> (\<forall>x \<in> set docs. let v = replacer (CList [CText key, CList (doc_values lead x)]) in
     cd_parse cd (cd_stringify cd v) = Some v))"

text \<open>The values a cursor can carry: what is written is what is compared with.\<close>

definition carried :: "string \<Rightarrow> fields \<Rightarrow> bool" where
  "carried lead x = (list_all cursor_value (doc_values lead x) \<and> map mval_of (doc_values lead x) = map (value_or_null x) (sort_fields lead))"

definition cursor_text :: "codec \<Rightarrow> string \<Rightarrow> string \<Rightarrow> fields \<Rightarrow> string" where
  "cursor_text cd key lead x = toBase64Url (cd_stringify cd (replacer (CList [CText key, CList (doc_values lead x)])))"

lemma toBase64Url_empty: "toBase64Url s = '''' \<Longrightarrow> s = ''''"
proof -
  assume "toBase64Url s = ''''"
  then have "groups s = []" by (simp add: toBase64Url_groups)
  then show "s = ''''" by (cases s rule: groups.cases) (simp_all add: Let_def)
qed

lemma resumed_after:
  assumes "codec_law cd key lead docs" "x \<in> set docs" "carried lead x"
  shows "resumed cd ctx lead dir key (Some (cursor_text cd key lead x)) = Inr (Some (after_doc lead dir x))"
    "encodeCursor (cd_stringify cd) key (doc_values lead x) = Some (cursor_text cd key lead x)"
proof -
  let ?v = "replacer (CList [CText key, CList (doc_values lead x)])"
  have parse: "cd_parse cd (cd_stringify cd ?v) = Some ?v" "cd_parse cd '''' = None" using assms(1, 2) by (auto simp: codec_law_def Let_def)
  have vals: "list_all cursor_value (doc_values lead x)" "map mval_of (doc_values lead x) = map (value_or_null x) (sort_fields lead)"
    using assms(3) by (simp_all add: carried_def)
  note read = decode_encoded [where parse = "cd_parse cd" and stringify = "cd_stringify cd" and key = key, OF vals(1) parse(1)]
  have "cd_stringify cd ?v \<noteq> ''''" using parse by auto
  then have "cursor_text cd key lead x \<noteq> ''''" using toBase64Url_empty unfolding cursor_text_def by blast
  moreover have "length (doc_values lead x) = length (sort_fields lead)" by (simp add: doc_values_def)
  ultimately show "resumed cd ctx lead dir key (Some (cursor_text cd key lead x)) = Inr (Some (after_doc lead dir x))"
    using read(3) [of "Some (cursor_site ctx)"] vals(2)
    by (simp add: resumed_def cursor_text_def after_doc_def past_op_def)
  show "encodeCursor (cd_stringify cd) key (doc_values lead x) = Some (cursor_text cd key lead x)" unfolding cursor_text_def by (rule read(1))
qed

text \<open>The computed \<open>id\<close> is never a field a list is ordered by.\<close>

lemma path_parts_nonempty: "path_parts s \<noteq> []"
  by (induction s) simp_all

lemma path_parts_head: "f = ''_id'' \<Longrightarrow> hd (path_parts f) = ''_id''" "f = ''id'' \<Longrightarrow> hd (path_parts f) = ''id''"
  by simp_all

lemma value_with_id:
  assumes "hasPath (pc_shape ctx) f" "pc_hasOwnId ctx \<longleftrightarrow> map_of (pc_shape ctx) ''id'' \<noteq> None"
  shows "value_or_null (withId dr ctx d) f = value_or_null d f"
proof (cases "withId dr ctx d = d")
  case False
  then obtain i where i: "withId dr ctx d = d @ [(''id'', i)]" "\<not> pc_hasOwnId ctx" "map_of d ''id'' = None"
    by (auto simp: withId_def split: option.splits if_splits)
  then have "node_at (pc_shape ctx) ''id'' = None" using assms(2) by (simp add: node_at_def PROTOTYPE_def)
  then have head: "hd (path_parts f) \<noteq> ''id''" using assms(1) path_parts_head [of f] by (auto simp: hasPath_def split: if_splits)
  then have "f \<noteq> ''id''" using path_parts_head(2) by blast
  then have "prop_of (withId dr ctx d) f = prop_of d f" by (simp add: prop_of_def i(1) map_add_def split: option.split)
  moreover have "prop_of (withId dr ctx d) (hd (path_parts f)) = prop_of d (hd (path_parts f))"
    using head by (simp add: prop_of_def i(1) map_add_def split: option.split)
  then have "value_in (MRec (withId dr ctx d)) (path_parts f) = value_in (MRec d) (path_parts f)"
    using path_parts_nonempty [of f] by (cases "path_parts f") simp_all
  ultimately show ?thesis by (cases "prop_of d f") (simp_all add: value_or_null_def valueAt_def)
qed simp

lemma id_has_path: "hasPath shape ''_id''"
  by (simp add: hasPath_def)

text \<open>A call once its options are read.\<close>

lemma paginate_reads:
  assumes "hasPath (pc_shape ctx) (cursor_lead opts)" "\<forall>t. co_scope opts \<noteq> Some (ScopeOther t)"
    and "cursorLimit (co_limit opts) (pc_maxPageSize ctx) (Some (cursor_site ctx)) = Inr n"
  shows "paginateByCursor cd dr ctx opts = (case resumed cd ctx (cursor_lead opts) (cursor_dir opts) (cursor_key cd ctx opts) (co_after opts) of
      Inl e \<Rightarrow> Inl e
    | Inr after \<Rightarrow> (case findMany dr ctx \<lparr>fo_filter = Some (mergeFilters (co_filter opts) after), fo_withDeleted = co_withDeleted opts,
          fo_projection = None, fo_sort = Some (sort_of (cursor_lead opts) (cursor_dir opts)), fo_skip = None, fo_limit = Some (n + 1)\<rparr> of
        Inl e \<Rightarrow> Inl e
      | Inr documents \<Rightarrow> cursor_page cd (cursor_key cd ctx opts) (sort_fields (cursor_lead opts)) n documents))"
proof -
  have scope: "(case (case co_scope opts of None \<Rightarrow> map_option ScopeText (pc_cursorScope ctx) | Some s \<Rightarrow> Some s) of
      None \<Rightarrow> Inr None | Some (ScopeText s) \<Rightarrow> Inr (Some s) | Some (ScopeOther t) \<Rightarrow> Inl (bad t))
    = (Inr (case co_scope opts of None \<Rightarrow> pc_cursorScope ctx | Some (ScopeText s) \<Rightarrow> Some s | Some (ScopeOther t) \<Rightarrow> None) :: mongo_failure + string option)" for bad
    using assms(2) by (auto split: option.split scope_arg.split)
  show ?thesis
    unfolding paginateByCursor_def Let_def scope cursor_lead_def [symmetric] cursor_dir_def [symmetric] cursor_key_def
    using assms(1, 3) by simp
qed

section \<open>Every page\<close>

text \<open>A caller that follows the cursors, page by page.\<close>

fun walk :: "nat \<Rightarrow> (string option \<Rightarrow> (fields list \<times> string option) thrown) \<Rightarrow> string option \<Rightarrow> fields list list option" where
  "walk 0 page after = None"
| "walk (Suc fuel) page after = (case page after of
     Inl e \<Rightarrow> None
   | Inr (items, None) \<Rightarrow> Some [items]
   | Inr (items, Some next_one) \<Rightarrow> map_option ((#) items) (walk fuel page (Some next_one)))"

text \<open>The documents a listing shows, and what is asked of the collection, its server and its codec.\<close>

definition shown_filter :: "pctx \<Rightarrow> cursor_opts \<Rightarrow> fields" where
  "shown_filter ctx opts = page_filter ctx (co_filter opts) (co_withDeleted opts) None"

definition shown_docs :: "server \<Rightarrow> pctx \<Rightarrow> cursor_opts \<Rightarrow> fields list" where
  "shown_docs sv ctx opts = listed_docs sv (shown_filter ctx opts) (sort_of (cursor_lead opts) (cursor_dir opts))"

definition filters_taken :: "server \<Rightarrow> pctx \<Rightarrow> cursor_opts \<Rightarrow> bool" where
  "filters_taken sv ctx opts = ((\<forall>f. co_filter opts = Some f \<longrightarrow> sv_takes sv (coerced (ctx_of ctx) (Some f)))
     \<and> (\<forall>f. live (ctx_of ctx) (co_withDeleted opts) = Some f \<longrightarrow> sv_takes sv f))"

definition served :: "codec \<Rightarrow> driver \<Rightarrow> server \<Rightarrow> pctx \<Rightarrow> cursor_opts \<Rightarrow> bool" where
  "served cd dr sv ctx opts = (let lead = cursor_lead opts in
     find_law sv (dr_find dr) \<and> query_laws sv lead \<and> orderable sv lead \<and> filters_taken sv ctx opts
     \<and> codec_law cd (cursor_key cd ctx opts) lead (sv_docs sv)
     \<and> (\<forall>x \<in> set (sv_docs sv). names_settled ctx lead x \<and> carried lead x))"

definition opts_ok :: "pctx \<Rightarrow> cursor_opts \<Rightarrow> int \<Rightarrow> bool" where
  "opts_ok ctx opts n = (hasPath (pc_shape ctx) (cursor_lead opts) \<and> (pc_hasOwnId ctx \<longleftrightarrow> map_of (pc_shape ctx) ''id'' \<noteq> None)
     \<and> (case co_scope opts of Some (ScopeOther t) \<Rightarrow> False | _ \<Rightarrow> True)
     \<and> cursorLimit (co_limit opts) (pc_maxPageSize ctx) (Some (cursor_site ctx)) = Inr n \<and> 0 < n)"

lemma opt_takes: "(\<forall>f. o1 = Some f \<longrightarrow> sv_takes sv f) \<Longrightarrow> \<exists>P. opt_means sv o1 P"
  by (cases o1) (auto simp: opt_means_def means_def)

lemma filter_past:
  assumes "sorted (map key (P @ x # R))" "distinct (map key (P @ x # R))"
  shows "filter (\<lambda>d. key x < (key d :: int list)) (P @ x # R) = R"
proof -
  have P: "filter (\<lambda>d. key x < key d) P = []"
    using assms(1) unfolding filter_empty_conv sorted_append map_append not_less by simp
  have "key x < key d" if "d \<in> set R" for d
  proof -
    have "key d \<in> key ` set R" "key x \<notin> key ` set R" using assms(2) that by simp_all
    then have "key x \<noteq> key d" by metis
    moreover have "key x \<le> key d" using assms(1) that by (simp add: sorted_append)
    ultimately show ?thesis by (intro order.not_eq_order_implies_strict)
  qed
  then have "filter (\<lambda>d. key x < key d) R = R" by (simp add: filter_id_conv)
  then show ?thesis using P by simp
qed

lemma keys_distinct:
  assumes "orderable sv lead"
  shows "distinct (map (order_key sv (sort_of lead dir)) (sv_docs sv))"
proof -
  let ?r = "\<lambda>d. sv_rank sv (value_or_null d ''_id'')"
  have "distinct (map ?r (sv_docs sv))" using assms by (simp add: orderable_def)
  then have one: "distinct (sv_docs sv)" "inj_on ?r (set (sv_docs sv))" by (simp_all add: distinct_map)
  have "?r d = ?r e" if "order_key sv (sort_of lead dir) d = order_key sv (sort_of lead dir) e" for d e
    using that by (cases dir; cases "lead = ''_id''") (simp_all add: order_key_def sort_of_def sort_fields_def)
  then have "inj_on (order_key sv (sort_of lead dir)) (set (sv_docs sv))"
    by (intro inj_onI inj_onD [OF one(2)])
  then show ?thesis using one(1) by (simp add: distinct_map)
qed

lemma listed_docs_keys:
  assumes "orderable sv lead"
  shows "distinct (map (order_key sv (sort_of lead dir)) (listed_docs sv filt (sort_of lead dir)))"
    "sorted (map (order_key sv (sort_of lead dir)) (listed_docs sv filt (sort_of lead dir)))"
    "set (listed_docs sv filt (sort_of lead dir)) \<subseteq> set (sv_docs sv)"
proof -
  have "distinct (sv_docs sv)" "inj_on (order_key sv (sort_of lead dir)) (set (sv_docs sv))"
    using keys_distinct [OF assms, of dir] by (simp_all add: distinct_map)
  then show "distinct (map (order_key sv (sort_of lead dir)) (listed_docs sv filt (sort_of lead dir)))"
    by (auto simp: listed_docs_def distinct_map intro: inj_on_subset)
qed (auto simp: listed_docs_def)

lemma listing_means:
  assumes "means sv filt P"
  shows "listed_docs sv filt sorting = sort_key (order_key sv sorting) (filter P (sv_docs sv))"
proof -
  have "filter (sv_matches sv filt) (sv_docs sv) = filter P (sv_docs sv)" using assms by (intro filter_cong) (simp_all add: means_def)
  then show ?thesis by (simp add: listed_docs_def)
qed

text \<open>Where a walk stands: at the start, or past a document of the listing.\<close>

definition stands :: "codec \<Rightarrow> server \<Rightarrow> pctx \<Rightarrow> cursor_opts \<Rightarrow> string option \<Rightarrow> fields list \<Rightarrow> bool" where
  "stands cd sv ctx opts after rest = (let docs = shown_docs sv ctx opts in
     (after = None \<and> rest = docs)
     \<or> (\<exists>seen x. after = Some (cursor_text cd (cursor_key cd ctx opts) (cursor_lead opts) x) \<and> docs = seen @ x # rest))"

lemma resumed_listing:
  assumes "served cd dr sv ctx opts" "stands cd sv ctx opts after rest"
  shows "\<exists>filt. resumed cd ctx (cursor_lead opts) (cursor_dir opts) (cursor_key cd ctx opts) after = Inr filt
    \<and> sv_takes sv (page_filter ctx (co_filter opts) (co_withDeleted opts) filt)
    \<and> listed_docs sv (page_filter ctx (co_filter opts) (co_withDeleted opts) filt) (sort_of (cursor_lead opts) (cursor_dir opts)) = rest"
proof -
  let ?lead = "cursor_lead opts" and ?dir = "cursor_dir opts" and ?pf = "page_filter ctx (co_filter opts) (co_withDeleted opts)"
  let ?sort = "sort_of ?lead ?dir"
  have laws: "query_laws sv ?lead" "orderable sv ?lead" "filters_taken sv ctx opts" using assms(1) by (simp_all add: served_def Let_def)
  then have joins: "joins_law sv" by (simp add: query_laws_def)
  obtain P L where pl: "opt_means sv (map_option (\<lambda>f. coerced (ctx_of ctx) (Some f)) (co_filter opts)) P"
      "opt_means sv (live (ctx_of ctx) (co_withDeleted opts)) L"
    using laws(3) opt_takes [of "map_option (\<lambda>f. coerced (ctx_of ctx) (Some f)) (co_filter opts)" sv]
      opt_takes [of "live (ctx_of ctx) (co_withDeleted opts)" sv] by (auto simp: filters_taken_def)
  have "opt_means sv None (\<lambda>d. True)" by (simp add: opt_means_def)
  then have start: "means sv (?pf None) (\<lambda>d. (P d \<and> True) \<and> L d)" by (intro means_page joins pl) simp_all
  then have docs: "shown_docs sv ctx opts = sort_key (order_key sv ?sort) (filter (\<lambda>d. P d \<and> L d) (sv_docs sv))"
    unfolding shown_docs_def shown_filter_def by (simp add: listing_means)
  show ?thesis
  proof (cases "after = None")
    case True
    then have "rest = shown_docs sv ctx opts" using assms(2) by (auto simp: stands_def Let_def)
    then have "listed_docs sv (?pf None) ?sort = rest" by (simp add: shown_docs_def shown_filter_def)
    moreover have "resumed cd ctx ?lead ?dir (cursor_key cd ctx opts) after = Inr None" by (simp add: resumed_def True)
    moreover have "sv_takes sv (?pf None)" by (rule meansD(1) [OF start])
    ultimately show ?thesis by blast
  next
    case False
    then obtain seen x where x: "after = Some (cursor_text cd (cursor_key cd ctx opts) ?lead x)" "shown_docs sv ctx opts = seen @ x # rest"
      using assms(2) by (auto simp: stands_def Let_def)
    then have mem: "x \<in> set (sv_docs sv)" using listed_docs_keys(3) [OF laws(2), of "shown_filter ctx opts" ?dir] by (auto simp: shown_docs_def)
    have here: "codec_law cd (cursor_key cd ctx opts) ?lead (sv_docs sv)" "carried ?lead x" "names_settled ctx ?lead x"
      using assms(1) mem by (simp_all add: served_def Let_def)
    let ?a = "after_doc ?lead ?dir x"
    have after_means: "opt_means sv (Some ?a) (\<lambda>d. order_key sv ?sort x < order_key sv ?sort d)"
      unfolding opt_means_def option.case by (rule means_after [OF laws(1, 2) mem])
    have "?a \<noteq> []" by (simp add: after_doc_def keyset_def Let_def)
    then have page: "means sv (?pf (Some ?a)) (\<lambda>d. (P d \<and> order_key sv ?sort x < order_key sv ?sort d) \<and> L d)"
      using after_settled [OF here(3)] by (intro means_page joins pl after_means) simp_all
    have "listed_docs sv (?pf (Some ?a)) ?sort = sort_key (order_key sv ?sort) (filter (\<lambda>d. (P d \<and> order_key sv ?sort x < order_key sv ?sort d) \<and> L d) (sv_docs sv))"
      by (rule listing_means [OF page])
    also have "\<dots> = filter (\<lambda>d. order_key sv ?sort x < order_key sv ?sort d) (shown_docs sv ctx opts)"
      unfolding docs filter_sort filter_filter by (simp add: conj_ac)
    also have "\<dots> = rest"
      using listed_docs_keys(1, 2) [OF laws(2), of ?dir "shown_filter ctx opts"] unfolding shown_docs_def [symmetric] x(2) by (intro filter_past)
    finally have "listed_docs sv (?pf (Some ?a)) ?sort = rest" .
    moreover have "resumed cd ctx ?lead ?dir (cursor_key cd ctx opts) after = Inr (Some ?a)" unfolding x(1) by (rule resumed_after(1) [OF here(1) mem here(2)])
    ultimately show ?thesis using meansD(1) [OF page] by blast
  qed
qed

text \<open>A page is the next documents of the listing, and its cursor stands past them.\<close>

lemma page_from:
  assumes "served cd dr sv ctx opts" "opts_ok ctx opts n" "stands cd sv ctx (opts) after rest"
  shows "paginateByCursor cd dr ctx (opts\<lparr>co_after := after\<rparr>) =
    (if int (length rest) \<le> n then Inr (map (withId dr ctx) rest, None)
     else Inr (map (withId dr ctx) (take (nat n) rest), Some (cursor_text cd (cursor_key cd ctx opts) (cursor_lead opts) (rest ! (nat n - 1)))))"
proof -
  let ?lead = "cursor_lead opts" and ?dir = "cursor_dir opts" and ?key = "cursor_key cd ctx opts"
  have ok: "hasPath (pc_shape ctx) ?lead" "pc_hasOwnId ctx \<longleftrightarrow> map_of (pc_shape ctx) ''id'' \<noteq> None" "0 < n"
      "\<forall>t. co_scope opts \<noteq> Some (ScopeOther t)" "cursorLimit (co_limit opts) (pc_maxPageSize ctx) (Some (cursor_site ctx)) = Inr n"
    using assms(2) by (auto simp: opts_ok_def)
  let ?o = "opts\<lparr>co_after := after\<rparr>"
  have same: "cursor_lead ?o = ?lead" "cursor_dir ?o = ?dir" "cursor_key cd ctx ?o = ?key"
    by (simp_all add: cursor_lead_def cursor_dir_def cursor_key_def)
  obtain filt where f: "resumed cd ctx ?lead ?dir ?key after = Inr filt" "sv_takes sv (page_filter ctx (co_filter opts) (co_withDeleted opts) filt)"
      "listed_docs sv (page_filter ctx (co_filter opts) (co_withDeleted opts) filt) (sort_of ?lead ?dir) = rest"
    using resumed_listing [OF assms(1, 3)] by blast
  have find: "find_law sv (dr_find dr)" using assms(1) by (simp add: served_def Let_def)
  have "findMany dr ctx \<lparr>fo_filter = Some (mergeFilters (co_filter opts) filt), fo_withDeleted = co_withDeleted opts,
      fo_projection = None, fo_sort = Some (sort_of ?lead ?dir), fo_skip = None, fo_limit = Some (n + 1)\<rparr>
    = Inr (map (withId dr ctx) (take (nat (n + 1)) rest))"
    using find f(2, 3) ok(3) by (simp add: findMany_def find_law_def mongo_call_def page_filter_def [symmetric])
  then have page: "paginateByCursor cd dr ctx ?o = cursor_page cd ?key (sort_fields ?lead) n (map (withId dr ctx) (take (nat (n + 1)) rest))"
    using paginate_reads [of ctx ?o n cd dr] ok f(1) unfolding same by simp
  show ?thesis
  proof (cases "int (length rest) \<le> n")
    case True
    then have "take (nat (n + 1)) rest = rest" "slice_to n (map (withId dr ctx) rest) = map (withId dr ctx) rest"
      using ok(3) by (simp_all add: slice_to_def)
    then show ?thesis unfolding page using True by (simp add: cursor_page_def)
  next
    case False
    let ?items = "take (nat n) rest"
    have len: "length (take (nat (n + 1)) rest) = nat n + 1" "?items \<noteq> []" using False ok(3) by auto
    have items: "slice_to n (map (withId dr ctx) (take (nat (n + 1)) rest)) = map (withId dr ctx) ?items"
      using ok(3) by (simp add: slice_to_def take_map)
    have last: "last ?items = rest ! (nat n - 1)" using False ok(3) unfolding last_conv_nth [OF len(2)] by (simp add: min_def)
    have "rest ! (nat n - 1) \<in> set rest" using False ok(3) by simp
    moreover have "set rest \<subseteq> set (sv_docs sv)"
      using f(3) listed_docs_keys(3) [of sv ?lead] assms(1) by (auto simp: served_def Let_def)
    ultimately have mem: "rest ! (nat n - 1) \<in> set (sv_docs sv)" by blast
    have here: "codec_law cd ?key ?lead (sv_docs sv)" "carried ?lead (rest ! (nat n - 1))" using assms(1) mem by (simp_all add: served_def Let_def)
    have "map (\<lambda>f. cval_of (value_or_null (withId dr ctx d) f)) (sort_fields ?lead) = doc_values ?lead d" for d
      using value_with_id ok(1, 2) id_has_path by (simp add: doc_values_def sort_fields_def)
    then have "encodeCursor (cd_stringify cd) ?key (map (\<lambda>f. cval_of (value_or_null (last (map (withId dr ctx) ?items)) f)) (sort_fields ?lead))
        = Some (cursor_text cd ?key ?lead (rest ! (nat n - 1)))"
      using resumed_after(2) [OF here(1) mem here(2)] len(2) last by (simp add: last_map)
    then show ?thesis unfolding page using False len items ok(3) by (simp add: cursor_page_def Let_def)
  qed
qed

lemma stands_next:
  assumes "stands cd sv ctx opts after rest" "0 < n" "n < length rest"
  shows "stands cd sv ctx opts (Some (cursor_text cd (cursor_key cd ctx opts) (cursor_lead opts) (rest ! (n - 1)))) (drop n rest)"
proof -
  obtain seen where seen: "shown_docs sv ctx opts = seen @ rest" using assms(1) by (auto simp: stands_def Let_def)
  have "drop (n - 1) rest = rest ! (n - 1) # drop n rest" using Cons_nth_drop_Suc [of "n - 1" rest] assms(2, 3) by simp
  then have "shown_docs sv ctx opts = (seen @ take (n - 1) rest) @ rest ! (n - 1) # drop n rest"
    unfolding seen using append_take_drop_id [of "n - 1" rest] by simp
  then show ?thesis unfolding stands_def Let_def by blast
qed

lemma walk_rest:
  assumes "served cd dr sv ctx opts" "opts_ok ctx opts n" "stands cd sv ctx opts after rest" "length rest < fuel"
  shows "\<exists>pages. walk fuel (\<lambda>c. paginateByCursor cd dr ctx (opts\<lparr>co_after := c\<rparr>)) after = Some pages
    \<and> concat pages = map (withId dr ctx) rest \<and> (\<forall>p \<in> set pages. int (length p) \<le> n)"
  using assms(3, 4)
proof (induction fuel arbitrary: after rest)
  case (Suc fuel)
  have n: "0 < n" using assms(2) by (simp add: opts_ok_def)
  note page = page_from [OF assms(1, 2) Suc.prems(1)]
  show ?case
  proof (cases "int (length rest) \<le> n")
    case True
    then show ?thesis using page by simp
  next
    case False
    have "0 < nat n" "nat n < length rest" using n False by simp_all
    note rest = stands_next [OF Suc.prems(1) this]
    have "length (drop (nat n) rest) < fuel" using Suc.prems(2) \<open>0 < nat n\<close> \<open>nat n < length rest\<close> by simp
    from Suc.IH [OF rest this] obtain pages where
      p: "walk fuel (\<lambda>c. paginateByCursor cd dr ctx (opts\<lparr>co_after := c\<rparr>)) (Some (cursor_text cd (cursor_key cd ctx opts) (cursor_lead opts) (rest ! (nat n - 1)))) = Some pages"
        "concat pages = map (withId dr ctx) (drop (nat n) rest)" "\<forall>p \<in> set pages. int (length p) \<le> n" by blast
    have "walk (Suc fuel) (\<lambda>c. paginateByCursor cd dr ctx (opts\<lparr>co_after := c\<rparr>)) after = Some (map (withId dr ctx) (take (nat n) rest) # pages)"
      using page False p(1) by simp
    moreover have "concat (map (withId dr ctx) (take (nat n) rest) # pages) = map (withId dr ctx) rest"
      using p(2) by (simp flip: map_append)
    moreover have "\<forall>p \<in> set (map (withId dr ctx) (take (nat n) rest) # pages). int (length p) \<le> n" using p(3) n by simp
    ultimately show ?thesis by blast
  qed
qed simp

text \<open>C40. Following the cursors from the first page lists every document the filter and the soft delete let through,
  once, in the order asked for, nulls included, in pages within the limit, and the last page says it is the last.\<close>

theorem cursor_walk:
  assumes "served cd dr sv ctx opts" "opts_ok ctx opts n"
  shows "\<exists>pages. walk (Suc (length (shown_docs sv ctx opts))) (\<lambda>c. paginateByCursor cd dr ctx (opts\<lparr>co_after := c\<rparr>)) None = Some pages
    \<and> concat pages = map (withId dr ctx) (shown_docs sv ctx opts)
    \<and> (\<forall>p \<in> set pages. int (length p) \<le> n)"
proof -
  have "stands cd sv ctx opts None (shown_docs sv ctx opts)" by (simp add: stands_def)
  then show ?thesis by (rule walk_rest [OF assms]) simp
qed

section \<open>A listing of posts\<close>

text \<open>A server of six posts, of which one is deleted and two have no date, listed by date, the newest first, two by two.\<close>

fun post_rank :: "mval \<Rightarrow> int" where
  "post_rank (MOther t) = (if t = ''null'' then 0 else 1)"
| "post_rank (MDate t) = 2 + t"
| "post_rank (MText t) = 2 + of_char (last t)"
| "post_rank (MId t) = 2 + of_char (last t)"
| "post_rank v = 1"

fun post_same :: "mval \<Rightarrow> mval \<Rightarrow> bool" where
  "post_same (MDate t) (MDate u) = True"
| "post_same (MId t) (MId u) = True"
| "post_same (MText t) (MText u) = True"
| "post_same v w = False"

definition post_op :: "mval \<Rightarrow> fields \<Rightarrow> bool" where
  "post_op u ops = list_all (\<lambda>(op, v). if op = ''$gt'' then post_same v u \<and> post_rank v < post_rank u
     else if op = ''$lt'' then post_same v u \<and> post_rank u < post_rank v
     else op = ''$ne'' \<and> post_rank u \<noteq> post_rank v) ops"

fun post_matches :: "fields \<Rightarrow> fields \<Rightarrow> bool" and post_clause :: "mval \<Rightarrow> fields \<Rightarrow> bool" where
  "post_matches [] d = True"
| "post_matches ((k, MList vs) # r) d = ((if k = ''$and'' then (\<forall>v \<in> set vs. post_clause v d) else (\<exists>v \<in> set vs. post_clause v d)) \<and> post_matches r d)"
| "post_matches ((k, MRec ops) # r) d = (post_op (value_or_null d k) ops \<and> post_matches r d)"
| "post_matches ((k, v) # r) d = (post_rank (value_or_null d k) = post_rank v \<and> post_matches r d)"
| "post_clause (MRec f) d = post_matches f d"
| "post_clause v d = False"

definition posted :: "char \<Rightarrow> string \<Rightarrow> mval list \<Rightarrow> mval list \<Rightarrow> fields" where
  "posted c kind at_value deleted_value = [(''_id'', MId (replicate 23 (CHR ''0'') @ [c])), (''kind'', MText kind)]
     @ map (Pair ''at'') at_value @ map (Pair ''deletedAt'') deleted_value"

definition posts :: "fields list" where
  "posts = [posted (CHR ''1'') ''post'' [MDate 3000] [NULL], posted (CHR ''2'') ''post'' [NULL] [NULL], posted (CHR ''3'') ''post'' [MDate 1000] [],
     posted (CHR ''4'') ''post'' [] [], posted (CHR ''5'') ''post'' [MDate 3000] [], posted (CHR ''6'') ''post'' [MDate 2000] [MDate 5000],
     posted (CHR ''7'') ''note'' [MDate 2000] []]"

definition post_server :: server where
  "post_server = \<lparr>sv_docs = posts, sv_takes = (\<lambda>f. True), sv_matches = post_matches, sv_rank = post_rank, sv_same = post_same\<rparr>"

definition post_driver :: driver where
  "post_driver = \<lparr>dr_find = (\<lambda>call. Inr ((case fc_limit call of None \<Rightarrow> id | Some n \<Rightarrow> take (nat n))
       (listed_docs post_server (fc_filter call) (case fc_sort call of None \<Rightarrow> [] | Some s \<Rightarrow> s)))),
     dr_findOne = (\<lambda>f p. Inr None), dr_count = (\<lambda>f. Inr 0), dr_shown = (\<lambda>v. ''''), dr_idtext = (\<lambda>v. case v of MId h \<Rightarrow> h | _ \<Rightarrow> '''')\<rparr>"

definition post_listing :: pctx where
  "post_listing = \<lparr>cc_name = ''posts'', cc_coerces = True, cc_kinds = kindsOf [(''_id'', SId), (''kind'', SOther), (''at'', SWrap SDate), (''deletedAt'', SWrap SDate)],
     cc_softDeletes = True, cc_deletedAt = Some ''deletedAt'', pc_shape = [(''_id'', NClosed), (''kind'', NClosed), (''at'', NWrap NClosed), (''deletedAt'', NWrap NClosed)],
     pc_maxPageSize = 100, pc_cursorScope = None, pc_hasOwnId = False\<rparr>"

definition newest :: cursor_opts where
  "newest = \<lparr>co_orderBy = Some ''at'', co_direction = Some Desc, co_scope = None, co_limit = Some (Whole 2), co_after = None,
     co_filter = Some [(''kind'', MText ''post'')], co_withDeleted = False\<rparr>"

text \<open>JSON, for the cursors of these posts: the id of the last one names it.\<close>

definition post_print :: "jv \<Rightarrow> string" where
  "post_print v = (case v of JList [k, JList [a, JRec [(o1, JText h)]]] \<Rightarrow> h | _ \<Rightarrow> ''?'')"

definition post_codec :: codec where
  "post_codec = \<lparr>cd_parse = (\<lambda>s. map_option (\<lambda>x. replacer (CList [CText ''at:desc'', CList (doc_values ''at'' x)]))
       (find (\<lambda>x. value_or_null x ''_id'' = MId s) posts)), cd_stringify = post_print, cd_sha = (\<lambda>s. s)\<rparr>"

lemma post_laws: "find_law post_server (dr_find post_driver)" "joins_law post_server" "both_law post_server ''at'' ''_id''"
proof -
  show "find_law post_server (dr_find post_driver)" by (simp add: find_law_def post_driver_def)
  have "post_matches [(f, v), (g, w)] d = (post_matches [(f, v)] d \<and> post_matches [(g, w)] d)" for f v g w d
    by (cases v; cases w) (simp_all del: value_or_null_def)
  then show "both_law post_server ''at'' ''_id''" unfolding both_law_def means_def post_server_def by simp
  show "joins_law post_server" unfolding joins_law_def means_def post_server_def by simp
qed

lemma post_served: "served post_codec post_driver post_server post_listing newest"
proof -
  have "field_law post_server ''at''" "field_law post_server ''_id''" by code_simp+
  then have query: "query_laws post_server ''at''" unfolding query_laws_def using post_laws by blast
  have order: "orderable post_server ''at''" by code_simp
  have found: "list_all (\<lambda>x. case value_or_null x ''_id'' of MId h \<Rightarrow> find (\<lambda>y. value_or_null y ''_id'' = MId h) posts = Some x | _ \<Rightarrow> False) posts"
    by code_simp
  have none: "find (\<lambda>y. value_or_null y ''_id'' = MId []) posts = None" by code_simp
  have codec: "codec_law post_codec ''at:desc'' ''at'' posts"
  proof -
    have "cd_parse post_codec (cd_stringify post_codec v) = Some v"
      if x: "x \<in> set posts" and v: "v = replacer (CList [CText ''at:desc'', CList (doc_values ''at'' x)])" for x v
    proof -
      have "case value_or_null x ''_id'' of MId h \<Rightarrow> find (\<lambda>y. value_or_null y ''_id'' = MId h) posts = Some x | _ \<Rightarrow> False"
        using found x unfolding list_all_iff by (rule bspec)
      then obtain h where h: "value_or_null x ''_id'' = MId h" "find (\<lambda>y. value_or_null y ''_id'' = MId h) posts = Some x"
        by (cases "value_or_null x ''_id''") simp_all
      have "post_print v = h" unfolding v by (simp add: post_print_def doc_values_def sort_fields_def h(1))
      then show ?thesis using h(2) by (simp add: post_codec_def v)
    qed
    then show ?thesis using none by (simp add: codec_law_def Let_def) (simp add: post_codec_def)
  qed
  have docs: "list_all (\<lambda>x. carried ''at'' x) posts" by code_simp
  have names: "list_all (\<lambda>x. names_settled post_listing ''at'' x) posts" by code_simp
  have key: "cursor_key post_codec post_listing newest = ''at:desc''" by code_simp
  have lead: "cursor_lead newest = ''at''" by code_simp
  have sv: "sv_docs post_server = posts" by (simp add: post_server_def)
  have "filters_taken post_server post_listing newest" by (simp add: filters_taken_def post_server_def)
  then show ?thesis unfolding served_def Let_def lead key sv
    using post_laws(1) query order codec docs names by (simp add: list_all_iff)
qed

theorem cursor_walk_witness:
  "\<exists>pages. walk 6 (\<lambda>c. paginateByCursor post_codec post_driver post_listing (newest\<lparr>co_after := c\<rparr>)) None = Some pages
    \<and> concat pages = map (withId post_driver post_listing) (map ((!) posts) [4, 0, 2, 3, 1])
    \<and> (\<forall>p \<in> set pages. int (length p) \<le> 2)"
proof -
  have "opts_ok post_listing newest 2" by code_simp
  note all = cursor_walk [OF post_served this]
  have docs: "shown_docs post_server post_listing newest = map ((!) posts) [4, 0, 2, 3, 1]" by code_simp
  have "Suc (length (map ((!) posts) [4, 0, 2, 3, 1])) = 6" by simp
  then show ?thesis using all unfolding docs by (simp only:)
qed

end
