(* ===== verification/Mongo_Writes.thy ===== *)
theory Mongo_Writes
  imports Mongo_Pages
begin

text \<open>
  Writing a collection: \<open>packages/mongo/src/collection/stamp-writes.ts\<close>, \<open>documents.ts\<close> and \<open>operations/writes.ts\<close>. What a
  patch may say of the stamps, the update sent for it, and the calls of the driver, which are parameters over a state
  of their own. \<open>undefined\<close> is \<open>UNDEFINED\<close>; zod's parsing of a field and of a document is a parameter.
\<close>

section \<open>The context\<close>

record wctx = pctx +
  wc_createdAt :: "string option"
  wc_updatedAt :: "string option"
  wc_version :: "string option"
  wc_createdBy :: "string option"
  wc_updatedBy :: "string option"
  wc_deletedBy :: "string option"
  wc_actor :: "mval option"
  wc_touches :: bool
  wc_locks :: bool
  wc_parses :: bool
  wc_parse :: "string \<Rightarrow> mval \<Rightarrow> mval thrown"
  wc_parse_doc :: "fields \<Rightarrow> fields thrown"
  wc_string :: "mval \<Rightarrow> string"

definition UNDEFINED :: mval where "UNDEFINED = MOther ''undefined''"

text \<open>\<open>value[name] !== undefined\<close>.\<close>

definition given_prop :: "fields \<Rightarrow> string \<Rightarrow> mval option" where
  "given_prop d name = (case prop_of d name of None \<Rightarrow> None | Some v \<Rightarrow> if v = UNDEFINED then None else Some v)"

definition present :: "'a option list \<Rightarrow> 'a list" where
  "present os = List.map_filter (\<lambda>x. x) os"

lemma set_present: "x \<in> set (present os) \<longleftrightarrow> Some x \<in> set os"
  by (induction os) (auto simp: present_def List.map_filter_def)

section \<open>The stamps a write may name\<close>

definition keptByCollection :: "wctx \<Rightarrow> string list" where
  "keptByCollection ctx = present [cc_deletedAt ctx, wc_version ctx, wc_createdBy ctx, wc_updatedBy ctx, wc_deletedBy ctx]"

definition refused_stamp :: "wctx \<Rightarrow> string \<Rightarrow> string \<Rightarrow> mongo_failure" where
  "refused_stamp ctx call name = Refused (call @ '': \"'' @ name @ ''\" is kept by \"'' @ cc_name ctx @ ''\" itself and cannot be written. `raw` is the way to set it by hand.'')"

definition refuseKeptOnCreate :: "wctx \<Rightarrow> fields \<Rightarrow> unit thrown" where
  "refuseKeptOnCreate ctx document = (case find (\<lambda>name. given_prop document name \<noteq> None) (keptByCollection ctx) of
     None \<Rightarrow> Inr () | Some name \<Rightarrow> Inl (refused_stamp ctx ''create'' name))"

definition stamp_names :: "wctx \<Rightarrow> string list" where
  "stamp_names ctx = present [wc_createdAt ctx, wc_updatedAt ctx, cc_deletedAt ctx, wc_version ctx, wc_createdBy ctx, wc_updatedBy ctx, wc_deletedBy ctx]"

fun fill_each :: "wctx \<Rightarrow> string list \<Rightarrow> fields \<Rightarrow> fields thrown" where
  "fill_each ctx [] document = Inr document"
| "fill_each ctx (name # names) document = (if node_at (pc_shape ctx) name \<noteq> None \<and> given_prop document name = None
     then (case wc_parse ctx name UNDEFINED of Inl e \<Rightarrow> Inl e | Inr v \<Rightarrow> fill_each ctx names (AList.update name v document))
     else fill_each ctx names document)"

definition fillStamps :: "wctx \<Rightarrow> fields \<Rightarrow> fields thrown" where
  "fillStamps ctx document = fill_each ctx (stamp_names ctx) document"

text \<open>A whole number, as \<open>Number.isInteger\<close> takes one.\<close>

definition whole_of :: "mval \<Rightarrow> int option" where
  "whole_of v = (case v of MOther t \<Rightarrow> int_of_text t | _ \<Rightarrow> None)"

definition expectedVersionOf :: "wctx \<Rightarrow> string \<Rightarrow> fields \<Rightarrow> (int option \<times> fields) thrown" where
  "expectedVersionOf ctx call patch = (case wc_version ctx of None \<Rightarrow> Inr (None, patch)
     | Some field \<Rightarrow> (case given_prop patch field of None \<Rightarrow> Inr (None, patch)
       | Some expected \<Rightarrow>
           if call \<noteq> ''update'' then Inl (refused_stamp ctx call field)
           else if \<not> wc_locks ctx then Inl (Refused (''update: \"'' @ field @ ''\" is an expected version, and \"'' @ cc_name ctx @ ''\" is used here without its optimistic lock''))
           else (case whole_of expected of
               Some n \<Rightarrow> if n < 0 then Inl (Refused (''update: the expected \"'' @ field @ ''\" must be a whole number, not '' @ wc_string ctx expected))
                 else Inr (Some n, AList.delete field patch)
             | None \<Rightarrow> Inl (Refused (''update: the expected \"'' @ field @ ''\" must be a whole number, not '' @ wc_string ctx expected)))))"

definition REMOVING :: "string set" where "REMOVING = {''$unset'', ''$rename''}"

definition head_of :: "string \<Rightarrow> string" where
  "head_of path = hd (path_parts path)"

text \<open>What one property of a patch writes, and what it removes. The properties of an object that is no plain one are
  not looked at.\<close>

fun touched_by :: "wctx \<Rightarrow> string \<times> mval \<Rightarrow> string list \<times> string list" where
  "touched_by ctx (key, MRec fs) = (if \<not> starts_with ''$'' key then ([head_of key], [])
     else (map (head_of \<circ> fst) fs @ (if key = ''$rename'' then map (head_of \<circ> wc_string ctx \<circ> snd) fs else []),
       (if key \<in> REMOVING then map (head_of \<circ> fst) fs else []) @ (if key = ''$rename'' then map (head_of \<circ> wc_string ctx \<circ> snd) fs else [])))"
| "touched_by ctx (key, v) = ([head_of key], [])"

definition written_by :: "wctx \<Rightarrow> fields \<Rightarrow> string list" where
  "written_by ctx patch = concat (map (fst \<circ> touched_by ctx) patch)"

definition removed_by :: "wctx \<Rightarrow> fields \<Rightarrow> string list" where
  "removed_by ctx patch = concat (map (snd \<circ> touched_by ctx) patch)"

definition refuseId :: "wctx \<Rightarrow> string \<Rightarrow> fields \<Rightarrow> unit thrown" where
  "refuseId ctx call patch = (if ''_id'' \<notin> set (written_by ctx patch) then Inr ()
     else Inl (Refused (call @ '' on \"'' @ cc_name ctx @ ''\": \"_id\" is immutable, and '' @
       (if call = ''upsert'' then ''an upsert'' else ''an update'') @ '' never writes it. '' @
       (if call = ''upsert'' then ''Name it in the filter, which is what an inserted document is seeded from''
        else ''Leave it out; a document that needs another _id is a new document''))))"

definition refuseFixed :: "wctx \<Rightarrow> string \<Rightarrow> fields \<Rightarrow> string list thrown" where
  "refuseFixed ctx call patch = (let written = written_by ctx patch in
     case find (\<lambda>name. name \<noteq> '''' \<and> name \<in> set written) (keptByCollection ctx @ present [wc_createdAt ctx]) of
       Some name \<Rightarrow> Inl (refused_stamp ctx call name)
     | None \<Rightarrow> (case wc_updatedAt ctx of
         Some u \<Rightarrow> if u \<in> set (removed_by ctx patch)
           then Inl (Refused (call @ '': \"'' @ u @ ''\" is kept by \"'' @ cc_name ctx @ ''\" itself and cannot be removed, renamed away or renamed onto. `raw` is the way to do it by hand.''))
           else Inr written
       | None \<Rightarrow> Inr written))"

section \<open>Documents and updates\<close>

fun setFromFields :: "wctx \<Rightarrow> fields \<Rightarrow> string \<Rightarrow> fields thrown" where
  "setFromFields ctx [] call = Inr []"
| "setFromFields ctx ((field, v) # patch) call = (if v = UNDEFINED then setFromFields ctx patch call
     else if node_at (pc_shape ctx) field = None
       then Inl (Refused (call @ '': \"'' @ cc_name ctx @ ''\" has no field \"'' @ field @ ''\" in its schema''))
     else (let given = (case kind_at (cc_kinds ctx) field of Some k \<Rightarrow> if cc_coerces ctx then coerceValue k v else v | None \<Rightarrow> v) in
       case (if wc_parses ctx then wc_parse ctx field given else Inr given) of
         Inl e \<Rightarrow> Inl e
       | Inr w \<Rightarrow> (case setFromFields ctx patch call of Inl e \<Rightarrow> Inl e | Inr rest \<Rightarrow> Inr (set_prop field w rest))))"

fun withoutUndefined :: "fields \<Rightarrow> fields" where
  "withoutUndefined [] = []"
| "withoutUndefined ((key, MRec fs) # patch) = set_prop key (MRec (if starts_with ''$'' key then filter (\<lambda>(k, v). v \<noteq> UNDEFINED) fs else fs)) (withoutUndefined patch)"
| "withoutUndefined ((key, v) # patch) = (if v = UNDEFINED then withoutUndefined patch else set_prop key v (withoutUndefined patch))"

text \<open>\<open>toDocument\<close>: the document an insert sends.\<close>

definition toDocument :: "wctx \<Rightarrow> fields \<Rightarrow> fields thrown" where
  "toDocument ctx values = (let stamped = (if cc_coerces ctx then coerceFields (cc_kinds ctx) values else values) in
     case refuseKeptOnCreate ctx stamped of
       Inl e \<Rightarrow> Inl e
     | Inr done \<Rightarrow>
       (let stamped = (if pc_hasOwnId ctx then stamped else AList.delete ''id'' stamped);
            stamped = (case wc_actor ctx of None \<Rightarrow> stamped | Some a \<Rightarrow>
              fold (\<lambda>name d. AList.update name a d) (present [wc_createdBy ctx, wc_updatedBy ctx]) stamped) in
        if wc_parses ctx then wc_parse_doc ctx stamped else fillStamps ctx stamped))"

definition record_of :: "mval option \<Rightarrow> fields" where
  "record_of v = (case v of Some (MRec fs) \<Rightarrow> fs | _ \<Rightarrow> [])"

definition COUNT_ONE :: mval where "COUNT_ONE = MOther ''1''"

text \<open>The stamps added to what a patch sets and to the update it became.\<close>

definition touched_set :: "wctx \<Rightarrow> bool \<Rightarrow> int \<Rightarrow> string list \<Rightarrow> fields \<Rightarrow> fields" where
  "touched_set ctx audit now written set0 =
     (let set1 = (case wc_updatedAt ctx of Some u \<Rightarrow> if audit \<and> wc_touches ctx \<and> u \<notin> set written then AList.update u (MDate now) set0 else set0 | None \<Rightarrow> set0) in
      case wc_actor ctx of Some a \<Rightarrow> (case wc_updatedBy ctx of Some u \<Rightarrow> if audit then AList.update u a set1 else set1 | None \<Rightarrow> set1) | None \<Rightarrow> set1)"

definition raised :: "wctx \<Rightarrow> bool \<Rightarrow> fields \<Rightarrow> fields" where
  "raised ctx audit update = (case wc_version ctx of
     Some v \<Rightarrow> if audit \<and> wc_locks ctx then AList.update ''$inc'' (MRec (AList.update v COUNT_ONE (record_of (map_of update ''$inc'')))) update else update
   | None \<Rightarrow> update)"

definition update_of :: "wctx \<Rightarrow> fields \<Rightarrow> string \<Rightarrow> bool \<Rightarrow> int \<Rightarrow> (fields \<times> int option) thrown" where
  "update_of ctx given call audit now =
     (case refuseId ctx call given of Inl e \<Rightarrow> Inl e | Inr a \<Rightarrow>
      (case expectedVersionOf ctx call (withoutUndefined given) of Inl e \<Rightarrow> Inl e | Inr (expectedVersion, patch) \<Rightarrow>
       (case refuseFixed ctx call patch of Inl e \<Rightarrow> Inl e | Inr written \<Rightarrow>
        (let operators = isUpdateFilter patch;
             update = (if \<not> operators then [] else if cc_coerces ctx then coerceFields (cc_kinds ctx) patch else patch) in
         case (if operators then Inr [] else setFromFields ctx patch ''update'') of Inl e \<Rightarrow> Inl e | Inr own \<Rightarrow>
          (let set1 = touched_set ctx audit now written (AList.updates (map fst own) (map snd own) (record_of (map_of update ''$set'')));
               update = (if set1 \<noteq> [] then AList.update ''$set'' (MRec set1) update else update) in
           Inr (raised ctx audit update, expectedVersion))))))"

text \<open>\<open>isRecord\<close> lets a date through, which has no fields of its own; an id, whose own fields are the driver's, is refused
  here with the rest.\<close>

definition toUpdate :: "wctx \<Rightarrow> mval \<Rightarrow> string \<Rightarrow> bool \<Rightarrow> int \<Rightarrow> (fields \<times> int option) thrown" where
  "toUpdate ctx given call audit now = (case given of
     MRec fs \<Rightarrow> update_of ctx fs call audit now
   | MDate t \<Rightarrow> update_of ctx [] call audit now
   | _ \<Rightarrow> Inl (Refused (call @ CHR '':'' # '' expected the document'' @ [CHR 0x27] @ ''s fields or MongoDB'' @ [CHR 0x27] @ ''s operators, not '' @ wc_string ctx given)))"

section \<open>The calls\<close>

text \<open>The driver's writes, over a state of its own, which other writers may have changed by its answer.\<close>

record 's store = driver +
  st_findOneAndUpdate :: "fields \<Rightarrow> fields \<Rightarrow> 's \<Rightarrow> (jv + fields option) \<times> 's"
  st_findOne :: "fields \<Rightarrow> 's \<Rightarrow> jv + fields option"
  st_insertOne :: "fields \<Rightarrow> 's \<Rightarrow> (jv + unit) \<times> 's"
  st_insertMany :: "fields list \<Rightarrow> 's \<Rightarrow> (jv + unit) \<times> 's"
  st_updateMany :: "fields \<Rightarrow> fields \<Rightarrow> 's \<Rightarrow> (jv + int) \<times> 's"
  st_findOneAndDelete :: "fields \<Rightarrow> 's \<Rightarrow> (jv + fields option) \<times> 's"
  st_deleteMany :: "fields \<Rightarrow> 's \<Rightarrow> (jv + int) \<times> 's"

definition store_answer :: "'s store \<Rightarrow> wctx \<Rightarrow> jv + 'a \<Rightarrow> 'a thrown" where
  "store_answer st ctx r = mongo_call (driver.truncate st) (pctx.truncate ctx) r"

definition with_id :: "'s store \<Rightarrow> wctx \<Rightarrow> fields \<Rightarrow> fields" where
  "with_id st ctx d = withId (driver.truncate st) (pctx.truncate ctx) d"

definition not_there :: "'s store \<Rightarrow> wctx \<Rightarrow> mval \<Rightarrow> mongo_failure" where
  "not_there st ctx i = notFound (driver.truncate st) (pctx.truncate ctx) i"

definition live_filter :: "wctx \<Rightarrow> fields option" where
  "live_filter ctx = live (cctx.truncate ctx) False"

definition stored_id :: "wctx \<Rightarrow> mval \<Rightarrow> mval" where
  "stored_id ctx i = coerceId (cctx.truncate ctx) i"

text \<open>Versions are whole numbers here; \<open>versionOf\<close> tells only the error what it found.\<close>

definition versionOf :: "wctx \<Rightarrow> fields \<Rightarrow> int option" where
  "versionOf ctx document = (case wc_version ctx of None \<Rightarrow> None
     | Some field \<Rightarrow> (case prop_of document field of None \<Rightarrow> None | Some v \<Rightarrow> whole_of v))"

definition version_error :: "'s store \<Rightarrow> wctx \<Rightarrow> mval \<Rightarrow> int \<Rightarrow> int option \<Rightarrow> mongo_failure" where
  "version_error st ctx i expected actual = Failed (new_error OPTIMISTIC_LOCK (''Document '' @ dr_idtext st i @ '' of \"'' @ cc_name ctx @ ''\" is at version '' @
     (case actual of None \<Rightarrow> ''undefined'' | Some v \<Rightarrow> show_int v) @ '', not '' @ show_int expected @ '': it changed since it was read'')
     (no_options\<lparr>eo_collection := Some (cc_name ctx), eo_id := Some i, eo_expectedVersion := Some expected, eo_actualVersion := actual\<rparr>))"

definition updatedOrThrow :: "'s store \<Rightarrow> wctx \<Rightarrow> mval \<Rightarrow> fields \<Rightarrow> fields \<Rightarrow> int option \<Rightarrow> 's \<Rightarrow> fields thrown \<times> 's" where
  "updatedOrThrow st ctx i filt update expected s = (let (r, s) = st_findOneAndUpdate st filt update s in
     (case store_answer st ctx r of
        Inl e \<Rightarrow> Inl e
      | Inr (Some d) \<Rightarrow> Inr (with_id st ctx d)
      | Inr None \<Rightarrow> (case expected of
          None \<Rightarrow> Inl (not_there st ctx i)
        | Some v \<Rightarrow> (case store_answer st ctx (st_findOne st [(''_id'', i)] s) of
            Inl e \<Rightarrow> Inl e
          | Inr None \<Rightarrow> Inl (not_there st ctx i)
          | Inr (Some current) \<Rightarrow> Inl (version_error st ctx i v (versionOf ctx (with_id st ctx current))))), s))"

definition softDeleteUpdate :: "wctx \<Rightarrow> int \<Rightarrow> fields" where
  "softDeleteUpdate ctx now = [(''$set'', MRec (
       (case wc_actor ctx of Some a \<Rightarrow> (case wc_deletedBy ctx of Some f \<Rightarrow> AList.update f a | None \<Rightarrow> id) | None \<Rightarrow> id)
       (case cc_deletedAt ctx of Some f \<Rightarrow> [(f, MDate now)] | None \<Rightarrow> [])))]
     @ (case wc_version ctx of Some v \<Rightarrow> if wc_locks ctx then [(''$inc'', MRec [(v, COUNT_ONE)])] else [] | None \<Rightarrow> [])"

definition create_one :: "'s store \<Rightarrow> wctx \<Rightarrow> fields \<Rightarrow> 's \<Rightarrow> fields thrown \<times> 's" where
  "create_one st ctx values s = (case toDocument ctx values of Inl e \<Rightarrow> (Inl e, s)
     | Inr d \<Rightarrow> (let (r, s) = st_insertOne st d s in (map_sum id (\<lambda>u. with_id st ctx d) (store_answer st ctx r), s)))"

fun documents_of :: "wctx \<Rightarrow> fields list \<Rightarrow> fields list thrown" where
  "documents_of ctx [] = Inr []"
| "documents_of ctx (v # vs) = (case toDocument ctx v of Inl e \<Rightarrow> Inl e
     | Inr d \<Rightarrow> (case documents_of ctx vs of Inl e \<Rightarrow> Inl e | Inr ds \<Rightarrow> Inr (d # ds)))"

definition createMany :: "'s store \<Rightarrow> wctx \<Rightarrow> fields list \<Rightarrow> 's \<Rightarrow> fields list thrown \<times> 's" where
  "createMany st ctx values s = (if values = [] then (Inr [], s)
     else (case documents_of ctx values of Inl e \<Rightarrow> (Inl e, s)
       | Inr ds \<Rightarrow> (let (r, s) = st_insertMany st ds s in (map_sum id (\<lambda>u. map (with_id st ctx) ds) (store_answer st ctx r), s))))"

definition version_filter :: "wctx \<Rightarrow> mval \<Rightarrow> int option \<Rightarrow> fields" where
  "version_filter ctx i expected = mergeFilters (Some ((''_id'', i) # (case (expected, wc_version ctx) of
     (Some v, Some f) \<Rightarrow> [(f, MOther (show_int v))] | _ \<Rightarrow> []))) (live_filter ctx)"

definition update_one :: "'s store \<Rightarrow> wctx \<Rightarrow> mval \<Rightarrow> mval \<Rightarrow> bool \<Rightarrow> int \<Rightarrow> 's \<Rightarrow> fields thrown \<times> 's" where
  "update_one st ctx given patch audit now s = (let i = stored_id ctx given in
     case toUpdate ctx patch ''update'' audit now of Inl e \<Rightarrow> (Inl e, s)
     | Inr (update, expected) \<Rightarrow> updatedOrThrow st ctx i (version_filter ctx i expected) update expected s)"

definition updateMany :: "'s store \<Rightarrow> wctx \<Rightarrow> fields option \<Rightarrow> mval \<Rightarrow> bool \<Rightarrow> int \<Rightarrow> 's \<Rightarrow> int thrown \<times> 's" where
  "updateMany st ctx filt patch audit now s = (case requireFilter (cctx.truncate ctx) ''updateMany'' filt of Inl m \<Rightarrow> (Inl (Refused m), s)
     | Inr a \<Rightarrow> (case toUpdate ctx patch ''updateMany'' audit now of Inl e \<Rightarrow> (Inl e, s)
       | Inr (update, expected) \<Rightarrow> (let (r, s) = st_updateMany st (scoped (cctx.truncate ctx) filt False) update s in (store_answer st ctx r, s))))"

definition hardDelete :: "'s store \<Rightarrow> wctx \<Rightarrow> mval \<Rightarrow> 's \<Rightarrow> fields thrown \<times> 's" where
  "hardDelete st ctx given s = (let i = stored_id ctx given; (r, s) = st_findOneAndDelete st [(''_id'', i)] s in
     (case store_answer st ctx r of Inl e \<Rightarrow> Inl e | Inr None \<Rightarrow> Inl (not_there st ctx i) | Inr (Some d) \<Rightarrow> Inr (with_id st ctx d), s))"

definition hardDeleteMany :: "'s store \<Rightarrow> wctx \<Rightarrow> fields option \<Rightarrow> 's \<Rightarrow> int thrown \<times> 's" where
  "hardDeleteMany st ctx filt s = (case requireFilter (cctx.truncate ctx) ''hardDeleteMany'' filt of Inl m \<Rightarrow> (Inl (Refused m), s)
     | Inr a \<Rightarrow> (let (r, s) = st_deleteMany st (coerced (cctx.truncate ctx) filt) s in (store_answer st ctx r, s)))"

definition deleteOne :: "'s store \<Rightarrow> wctx \<Rightarrow> mval \<Rightarrow> int \<Rightarrow> 's \<Rightarrow> fields thrown \<times> 's" where
  "deleteOne st ctx given now s = (let i = stored_id ctx given in
     if \<not> cc_softDeletes ctx then hardDelete st ctx i s
     else updatedOrThrow st ctx i (mergeFilters (Some [(''_id'', i)]) (live_filter ctx)) (softDeleteUpdate ctx now) None s)"

definition deleteMany :: "'s store \<Rightarrow> wctx \<Rightarrow> fields option \<Rightarrow> int \<Rightarrow> 's \<Rightarrow> int thrown \<times> 's" where
  "deleteMany st ctx filt now s = (case requireFilter (cctx.truncate ctx) ''deleteMany'' filt of Inl m \<Rightarrow> (Inl (Refused m), s)
     | Inr a \<Rightarrow> if \<not> cc_softDeletes ctx then hardDeleteMany st ctx filt s
       else (let (r, s) = st_updateMany st (scoped (cctx.truncate ctx) filt False) (softDeleteUpdate ctx now) s in (store_answer st ctx r, s)))"

definition restore_one :: "'s store \<Rightarrow> wctx \<Rightarrow> mval \<Rightarrow> int \<Rightarrow> 's \<Rightarrow> fields thrown \<times> 's" where
  "restore_one st ctx given now s = (let i = stored_id ctx given in
     case cc_deletedAt ctx of None \<Rightarrow> (Inl (Refused (''restore: \"'' @ cc_name ctx @ ''\" has no soft delete'')), s)
     | Some d \<Rightarrow> (let set1 = (case wc_deletedBy ctx of Some f \<Rightarrow> AList.update f NULL [(d, NULL)] | None \<Rightarrow> [(d, NULL)]);
           set2 = (case wc_updatedAt ctx of Some f \<Rightarrow> if wc_touches ctx then AList.update f (MDate now) set1 else set1 | None \<Rightarrow> set1) in
         updatedOrThrow st ctx i [(''_id'', i)] ((''$set'', MRec set2) #
           (case wc_version ctx of Some v \<Rightarrow> if wc_locks ctx then [(''$inc'', MRec [(v, COUNT_ONE)])] else [] | None \<Rightarrow> [])) None s))"

end
