(* ===== verification/Mongo_Locks.thy ===== *)
theory Mongo_Locks
  imports Mongo_Writes
begin

text \<open>
  What the updates of a collection can do to its stamps, and what the optimistic lock gives: no two updates made from
  the same version of a document.
\<close>

section \<open>The fields an update writes\<close>

text \<open>The operator, the path and the operand of every write of an update.\<close>

definition update_writes :: "fields \<Rightarrow> (string \<times> string \<times> mval) list" where
  "update_writes u = concat (map (\<lambda>(op, x). case x of
     MRec fs \<Rightarrow> if starts_with ''$'' op then map (\<lambda>(path, v). (op, path, v)) fs else [] | _ \<Rightarrow> []) u)"

text \<open>The stamps a patch may not write, and names a definition may give them: a field of its own each, without a dot.\<close>

definition fixed_names :: "wctx \<Rightarrow> string list" where
  "fixed_names ctx = keptByCollection ctx @ present [wc_createdAt ctx]"

definition stamps_ok :: "wctx \<Rightarrow> bool" where
  "stamps_ok ctx = (distinct (stamp_names ctx) \<and> list_all (\<lambda>n. n \<noteq> '''' \<and> CHR ''.'' \<notin> set n \<and> n \<noteq> ''_id'') (stamp_names ctx))"

lemma mem_writes: "(op, path, v) \<in> set (update_writes u) \<longleftrightarrow> (\<exists>fs. (op, MRec fs) \<in> set u \<and> (path, v) \<in> set fs \<and> starts_with ''$'' op)"
  by (auto simp: update_writes_def split: mval.splits if_splits)

lemma set_update: "set (AList.update k v al) \<subseteq> insert (k, v) (set al)"
  by (induction al) auto

lemma update_mem: "x \<in> set (AList.update k v al) \<Longrightarrow> x = (k, v) \<or> x \<in> set al"
  by (drule subsetD [OF set_update]) simp

lemma set_updates: "(k, v) \<in> set (AList.updates ks vs al) \<Longrightarrow> (k, v) \<in> set (zip ks vs) \<or> (k, v) \<in> set al"
proof (induction ks arbitrary: vs al)
  case (Cons k' ks)
  then show ?case using set_update by (cases vs) fastforce+
qed simp

lemma head_of_plain: "CHR ''.'' \<notin> set n \<Longrightarrow> head_of n = n"
proof -
  assume "CHR ''.'' \<notin> set n"
  then have "path_parts n = [n]" by (induction n) auto
  then show ?thesis by (simp add: head_of_def)
qed

text \<open>Reading the values of a patch keeps its names.\<close>

definition coerce_field :: "kinds \<Rightarrow> string \<Rightarrow> mval \<Rightarrow> mval" where
  "coerce_field ks key v = (case v of
     MRec fs \<Rightarrow> if starts_with ''$'' key then MRec (coerceFields ks fs)
       else (case kind_at ks key of None \<Rightarrow> coerceNested ks key v | Some k \<Rightarrow> MRec (coerceOperators k fs))
   | _ \<Rightarrow> (case kind_at ks key of None \<Rightarrow> coerceNested ks key v | Some k \<Rightarrow> coerceValue k v))"

lemma coerceFields_Cons: "coerceFields ks ((key, v) # r) = set_prop key (coerce_field ks key v) (coerceFields ks r)"
  by (cases v) (simp_all add: coerce_field_def)

lemma coerced_entry: "(key, w) \<in> set (coerceFields ks fs) \<Longrightarrow> \<exists>v. (key, v) \<in> set fs \<and> w = coerce_field ks key v"
proof (induction fs)
  case (Cons kv fs)
  obtain k v where kv: "kv = (k, v)" by (cases kv)
  show ?case using Cons unfolding kv coerceFields_Cons by (auto simp: set_prop_def split: if_splits)
qed simp

lemma coerced_record: "coerce_field ks key v = MRec fs' \<Longrightarrow> starts_with ''$'' key \<Longrightarrow> \<exists>fs. v = MRec fs \<and> fs' = coerceFields ks fs"
  by (cases v) (auto simp: coerce_field_def split: option.splits if_splits)

lemma coerced_text: "coerce_field ks key v = MText t \<Longrightarrow> v = MText t"
  by (cases v) (auto simp: coerce_field_def split: option.splits if_splits)

lemma writes_coerced:
  assumes "(op, path, w) \<in> set (update_writes (coerceFields ks patch))"
  shows "\<exists>v. (op, path, v) \<in> set (update_writes patch) \<and> (\<forall>t. w = MText t \<longrightarrow> v = MText t)"
proof -
  obtain fs' where fs': "(op, MRec fs') \<in> set (coerceFields ks patch)" "(path, w) \<in> set fs'" "starts_with ''$'' op"
    using assms by (auto simp: mem_writes)
  then obtain x where "(op, x) \<in> set patch" "MRec fs' = coerce_field ks op x" using coerced_entry by blast
  then obtain fs where fs: "(op, MRec fs) \<in> set patch" "fs' = coerceFields ks fs" using coerced_record fs'(3) by metis
  obtain v where v: "(path, v) \<in> set fs" "w = coerce_field ks path v" using coerced_entry fs'(2) fs(2) by blast
  have "\<forall>t. w = MText t \<longrightarrow> v = MText t" using v(2) coerced_text by metis
  then show ?thesis using fs(1) v(1) fs'(3) by (auto simp: mem_writes)
qed

lemma written_iff: "t \<in> set (written_by ctx patch) \<longleftrightarrow> (\<exists>e \<in> set patch. t \<in> set (fst (touched_by ctx e)))"
  by (simp add: written_by_def)

text \<open>Every write of a patch is one \<open>touchedBy\<close> sees.\<close>

lemma writes_touched:
  assumes "(op, path, v) \<in> set (update_writes patch)"
  shows "head_of path \<in> set (written_by ctx patch)" "op = ''$rename'' \<Longrightarrow> head_of (wc_string ctx v) \<in> set (written_by ctx patch)"
proof -
  obtain fs where fs: "(op, MRec fs) \<in> set patch" "(path, v) \<in> set fs" "starts_with ''$'' op" using assms by (auto simp: mem_writes)
  have "head_of path \<in> (head_of \<circ> fst) ` set fs" "head_of (wc_string ctx v) \<in> (head_of \<circ> wc_string ctx \<circ> snd) ` set fs" using fs(2) by force+
  then have "head_of path \<in> set (fst (touched_by ctx (op, MRec fs)))" "op = ''$rename'' \<Longrightarrow> head_of (wc_string ctx v) \<in> set (fst (touched_by ctx (op, MRec fs)))"
    using fs(3) by simp_all
  then show "head_of path \<in> set (written_by ctx patch)" "op = ''$rename'' \<Longrightarrow> head_of (wc_string ctx v) \<in> set (written_by ctx patch)"
    using fs(1) unfolding written_iff by blast+
qed

lemma fields_touched:
  assumes "\<not> isUpdateFilter patch" "(field, v) \<in> set patch"
  shows "head_of field \<in> set (written_by ctx patch)"
proof -
  have "\<not> starts_with ''$'' field" using assms by (force simp: isUpdateFilter_def)
  then have "head_of field \<in> set (fst (touched_by ctx (field, v)))" by (cases v) simp_all
  then show ?thesis using assms(2) unfolding written_iff by blast
qed

lemma set_from_fields: "setFromFields ctx patch call = Inr own \<Longrightarrow> (field, w) \<in> set own \<Longrightarrow> \<exists>v. (field, v) \<in> set patch"
proof (induction ctx patch call arbitrary: own rule: setFromFields.induct)
  case (2 ctx f v patch call)
  then show ?case by (auto simp: set_prop_def Let_def split: if_splits sum.splits option.splits) blast+
qed simp

text \<open>Without its undefined values and its expected version, a patch writes no more than it did.\<close>

lemma without_entry: "(k, w) \<in> set (withoutUndefined patch) \<Longrightarrow>
  \<exists>v. (k, v) \<in> set patch \<and> (v = w \<or> (\<exists>fs fs'. v = MRec fs \<and> w = MRec fs' \<and> set fs' \<subseteq> set fs))"
proof (induction patch rule: withoutUndefined.induct)
  case (2 key fs patch)
  then show ?case by (cases "key = ''__proto__''") (auto simp: set_prop_def split: if_splits)
qed (auto simp: set_prop_def split: if_splits)

lemma touched_mono: "set fs' \<subseteq> set fs \<Longrightarrow> set (fst (touched_by ctx (k, MRec fs'))) \<subseteq> set (fst (touched_by ctx (k, MRec fs)))"
  by auto

lemma written_without: "set (written_by ctx (withoutUndefined patch)) \<subseteq> set (written_by ctx patch)"
proof
  fix t
  assume "t \<in> set (written_by ctx (withoutUndefined patch))"
  then obtain k w where w: "(k, w) \<in> set (withoutUndefined patch)" "t \<in> set (fst (touched_by ctx (k, w)))" unfolding written_iff by (metis surj_pair)
  obtain v where v: "(k, v) \<in> set patch" "v = w \<or> (\<exists>fs fs'. v = MRec fs \<and> w = MRec fs' \<and> set fs' \<subseteq> set fs)"
    using without_entry [OF w(1)] by blast
  have "t \<in> set (fst (touched_by ctx (k, v)))" using v(2) w(2) touched_mono by blast
  then show "t \<in> set (written_by ctx patch)" using v(1) unfolding written_iff by blast
qed

lemma written_delete: "set (written_by ctx (AList.delete f patch)) \<subseteq> set (written_by ctx patch)"
  by (auto simp: written_iff AList.delete_eq)

lemma expected_patch:
  assumes "expectedVersionOf ctx call patch = Inr (ev, patch')"
  shows "set (written_by ctx patch') \<subseteq> set (written_by ctx patch)"
  using assms written_delete unfolding expectedVersionOf_def by (auto split: option.splits if_splits)

lemma refuse_fixed:
  assumes "refuseFixed ctx call patch = Inr written" "n \<in> set (fixed_names ctx)" "n \<noteq> ''''"
  shows "written = written_by ctx patch" "n \<notin> set (written_by ctx patch)"
  using assms unfolding refuseFixed_def Let_def fixed_names_def by (auto simp: find_None_iff split: option.splits if_splits)

section \<open>What a patch cannot write\<close>

lemma record_entry: "x \<in> set (record_of (map_of u k)) \<Longrightarrow> (k, MRec (record_of (map_of u k))) \<in> set u"
  by (auto simp: record_of_def split: option.splits mval.splits dest: map_of_SomeD)

lemma writes_raised:
  "set (update_writes (raised ctx audit u)) \<subseteq> set (update_writes u) \<union>
     {(op, path, v). audit \<and> wc_locks ctx \<and> wc_version ctx = Some path \<and> op = ''$inc'' \<and> v = COUNT_ONE}"
proof
  fix e
  assume e: "e \<in> set (update_writes (raised ctx audit u))"
  obtain op path v where opv: "e = (op, path, v)" by (cases e)
  show "e \<in> set (update_writes u) \<union> {(op, path, v). audit \<and> wc_locks ctx \<and> wc_version ctx = Some path \<and> op = ''$inc'' \<and> v = COUNT_ONE}"
  proof (cases "\<exists>f. wc_version ctx = Some f \<and> audit \<and> wc_locks ctx")
    case False
    then have "raised ctx audit u = u" by (auto simp: raised_def split: option.splits)
    then show ?thesis using e by simp
  next
    case True
    then obtain f where f: "wc_version ctx = Some f" "audit" "wc_locks ctx" by blast
    let ?incs = "record_of (map_of u ''$inc'')"
    have r: "raised ctx audit u = AList.update ''$inc'' (MRec (AList.update f COUNT_ONE ?incs)) u" using f by (simp add: raised_def)
    obtain fs where fs: "(op, MRec fs) \<in> set (raised ctx audit u)" "(path, v) \<in> set fs" "starts_with ''$'' op" using e unfolding opv mem_writes by blast
    have "(op, MRec fs) = (''$inc'', MRec (AList.update f COUNT_ONE ?incs)) \<or> (op, MRec fs) \<in> set u" using fs(1) unfolding r by (rule update_mem)
    then consider "(op, MRec fs) \<in> set u" | "op = ''$inc''" "fs = AList.update f COUNT_ONE ?incs" unfolding prod.inject mval.inject by iprover
    then show ?thesis
    proof cases
      case 1
      then show ?thesis using fs unfolding opv by (auto simp: mem_writes)
    next
      case 2
      have "(path, v) = (f, COUNT_ONE) \<or> (path, v) \<in> set ?incs" using fs(2) unfolding 2(2) by (rule update_mem)
      then show ?thesis
      proof
        assume "(path, v) = (f, COUNT_ONE)"
        then show ?thesis using f 2(1) unfolding opv by simp
      next
        assume in_incs: "(path, v) \<in> set ?incs"
        have "(op, MRec ?incs) \<in> set u" unfolding 2(1) by (rule record_entry [OF in_incs])
        then have "(op, path, v) \<in> set (update_writes u)" using in_incs fs(3) unfolding mem_writes by blast
        then show ?thesis unfolding opv by (rule UnI1)
      qed
    qed
  qed
qed

lemma writes_set:
  "set (update_writes (AList.update ''$set'' (MRec fs) u)) \<subseteq> set (update_writes u) \<union> {(op, path, v). op = ''$set'' \<and> (path, v) \<in> set fs}"
proof
  fix e
  assume e: "e \<in> set (update_writes (AList.update ''$set'' (MRec fs) u))"
  obtain op path v where opv: "e = (op, path, v)" by (cases e)
  obtain gs where gs: "(op, MRec gs) \<in> set (AList.update ''$set'' (MRec fs) u)" "(path, v) \<in> set gs" "starts_with ''$'' op"
    using e unfolding opv mem_writes by blast
  have "(op, MRec gs) = (''$set'', MRec fs) \<or> (op, MRec gs) \<in> set u" using gs(1) by (rule update_mem)
  then consider "(op, MRec gs) \<in> set u" | "op = ''$set''" "gs = fs" unfolding prod.inject mval.inject by iprover
  then show "e \<in> set (update_writes u) \<union> {(op, path, v). op = ''$set'' \<and> (path, v) \<in> set fs}"
    using gs unfolding opv by cases (auto simp: mem_writes)
qed

lemma set_touched: "(path, v) \<in> set (touched_set ctx audit now written set0) \<Longrightarrow>
  (path, v) \<in> set set0 \<or> wc_updatedAt ctx = Some path \<or> (wc_updatedBy ctx = Some path \<and> wc_actor ctx = Some v)"
  unfolding touched_set_def Let_def
  by (auto split: option.splits if_splits dest!: update_mem)

lemma stamp_members:
  assumes "stamps_ok ctx"
  shows "n \<in> set (fixed_names ctx) \<Longrightarrow> n \<in> set (stamp_names ctx)" "wc_updatedAt ctx = Some u \<Longrightarrow> u \<in> set (stamp_names ctx)"
    "wc_updatedAt ctx = Some u \<Longrightarrow> u \<notin> set (fixed_names ctx)" "wc_updatedBy ctx = Some u \<Longrightarrow> u \<in> set (stamp_names ctx)"
    "wc_version ctx = Some f \<Longrightarrow> wc_updatedBy ctx = Some u \<Longrightarrow> u \<noteq> f" "wc_version ctx = Some f \<Longrightarrow> f \<in> set (fixed_names ctx)"
proof -
  show "n \<in> set (fixed_names ctx) \<Longrightarrow> n \<in> set (stamp_names ctx)" "wc_updatedAt ctx = Some u \<Longrightarrow> u \<in> set (stamp_names ctx)"
    "wc_updatedBy ctx = Some u \<Longrightarrow> u \<in> set (stamp_names ctx)" "wc_version ctx = Some f \<Longrightarrow> f \<in> set (fixed_names ctx)"
    unfolding fixed_names_def stamp_names_def keptByCollection_def set_append Un_iff set_present by auto
  have d: "distinct (stamp_names ctx)" using assms by (simp add: stamps_ok_def)
  show "wc_updatedAt ctx = Some u \<Longrightarrow> u \<notin> set (fixed_names ctx)"
    using d unfolding fixed_names_def stamp_names_def keptByCollection_def set_append Un_iff set_present
    by (auto simp: present_def List.map_filter_simps split: option.splits)
  show "wc_version ctx = Some f \<Longrightarrow> wc_updatedBy ctx = Some u \<Longrightarrow> u \<noteq> f"
    using d unfolding stamp_names_def by (auto simp: present_def List.map_filter_simps split: option.splits)
qed

lemma stamp_head:
  assumes "stamps_ok ctx" "n \<in> set (stamp_names ctx)"
  shows "head_of n = n" "n \<noteq> ''''" "n \<noteq> ''_id''"
  using assms head_of_plain by (auto simp: stamps_ok_def list_all_iff)

text \<open>A write a patch made itself: of no stamp the collection keeps, nor of the id.\<close>

definition free_write :: "wctx \<Rightarrow> string \<times> string \<times> mval \<Rightarrow> bool" where
  "free_write ctx w = (case w of (op, path, v) \<Rightarrow> head_of path \<notin> insert ''_id'' (set (fixed_names ctx))
     \<and> (op = ''$rename'' \<longrightarrow> (\<forall>t. v = MText t \<longrightarrow> head_of t \<notin> insert ''_id'' (set (fixed_names ctx)))))"

definition stamp_write :: "wctx \<Rightarrow> bool \<Rightarrow> string \<times> string \<times> mval \<Rightarrow> bool" where
  "stamp_write ctx audit w = (case w of (op, path, v) \<Rightarrow>
     (op = ''$inc'' \<and> wc_version ctx = Some path \<and> v = COUNT_ONE \<and> audit \<and> wc_locks ctx)
     \<or> (op = ''$set'' \<and> wc_updatedBy ctx = Some path \<and> wc_actor ctx = Some v))"

lemma accepted_writes:
  assumes "update_of ctx given call audit now = Inr (u, ev)" "stamps_ok ctx" "\<And>t. wc_string ctx (MText t) = t"
    and w: "w \<in> set (update_writes u)"
  shows "free_write ctx w \<or> stamp_write ctx audit w"
proof -
  obtain patch own where ids: "refuseId ctx call given = Inr ()" and ex: "expectedVersionOf ctx call (withoutUndefined given) = Inr (ev, patch)"
      and fixed: "refuseFixed ctx call patch = Inr (written_by ctx patch)"
      and own: "(if isUpdateFilter patch then Inr [] else setFromFields ctx patch ''update'') = Inr own"
      and u: "u = raised ctx audit (let base = (if \<not> isUpdateFilter patch then [] else if cc_coerces ctx then coerceFields (cc_kinds ctx) patch else patch);
          set1 = touched_set ctx audit now (written_by ctx patch) (AList.updates (map fst own) (map snd own) (record_of (map_of base ''$set'')))
        in if set1 \<noteq> [] then AList.update ''$set'' (MRec set1) base else base)"
    using assms(1) unfolding update_of_def Let_def
    by (auto simp: refuseFixed_def Let_def split: sum.splits prod.splits option.splits if_splits)
  have no_id: "''_id'' \<notin> set (written_by ctx patch)"
    using ids expected_patch [OF ex] written_without [of ctx given] by (auto simp: refuseId_def split: if_splits)
  have no_fixed: "n \<notin> set (written_by ctx patch)" if "n \<in> set (fixed_names ctx)" for n
    using refuse_fixed(2) [OF fixed that] stamp_head(2) [OF assms(2) stamp_members(1) [OF assms(2) that]] by blast
  have free: "h \<notin> insert ''_id'' (set (fixed_names ctx))" if "h \<in> set (written_by ctx patch)" for h using that no_id no_fixed by blast
  define base where "base = (if \<not> isUpdateFilter patch then [] else if cc_coerces ctx then coerceFields (cc_kinds ctx) patch else patch)"
  define set1 where "set1 = touched_set ctx audit now (written_by ctx patch) (AList.updates (map fst own) (map snd own) (record_of (map_of base ''$set'')))"
  have patch_free: "free_write ctx x" if "x \<in> set (update_writes patch)" for x
    using writes_touched [of _ _ _ patch ctx] that free assms(3) unfolding free_write_def by (cases x) fastforce
  have base_free: "free_write ctx x" if x: "x \<in> set (update_writes base)" for x
  proof -
    obtain op path v where opv: "x = (op, path, v)" by (cases x)
    show ?thesis
    proof (cases "isUpdateFilter patch")
      case False
      then show ?thesis using x by (simp add: base_def update_writes_def)
    next
      case True
      show ?thesis
      proof (cases "cc_coerces ctx")
        case True
        then have "(op, path, v) \<in> set (update_writes (coerceFields (cc_kinds ctx) patch))" using x \<open>isUpdateFilter patch\<close> by (simp add: opv base_def)
        then obtain v' where v': "(op, path, v') \<in> set (update_writes patch)" "\<forall>t. v = MText t \<longrightarrow> v' = MText t"
          using writes_coerced by blast
        then show ?thesis using patch_free [OF v'(1)] unfolding opv free_write_def by auto
      next
        case False
        then show ?thesis using x patch_free True by (simp add: base_def)
      qed
    qed
  qed
  have set_ok: "free_write ctx (''$set'', path, v) \<or> stamp_write ctx audit (''$set'', path, v)" if pv: "(path, v) \<in> set set1" for path v
  proof -
    consider "(path, v) \<in> set (AList.updates (map fst own) (map snd own) (record_of (map_of base ''$set'')))" | "wc_updatedAt ctx = Some path"
      | "wc_updatedBy ctx = Some path" "wc_actor ctx = Some v" using set_touched pv unfolding set1_def by blast
    then show ?thesis
    proof cases
      case 1
      then consider "(path, v) \<in> set own" | "(path, v) \<in> set (record_of (map_of base ''$set''))" using set_updates zip_map_fst_snd by metis
      then show ?thesis
      proof cases
        case 1
        then have "\<not> isUpdateFilter patch" using own by auto
        then obtain v0 where "(path, v0) \<in> set patch" using set_from_fields own 1 by metis
        then have "head_of path \<in> set (written_by ctx patch)" using fields_touched \<open>\<not> isUpdateFilter patch\<close> by blast
        then show ?thesis using free by (simp add: free_write_def)
      next
        case 2
        then have "(''$set'', path, v) \<in> set (update_writes base)" using record_entry [OF 2] by (auto simp: mem_writes starts_with_def)
        then show ?thesis using base_free by blast
      qed
    next
      case 2
      note u = stamp_members(2, 3) [OF assms(2) 2]
      then show ?thesis using stamp_head [OF assms(2) u(1)] by (simp add: free_write_def)
    next
      case 3
      then show ?thesis by (simp add: stamp_write_def)
    qed
  qed
  have "u = raised ctx audit (if set1 \<noteq> [] then AList.update ''$set'' (MRec set1) base else base)" unfolding u base_def set1_def Let_def ..
  then consider "w \<in> set (update_writes (if set1 \<noteq> [] then AList.update ''$set'' (MRec set1) base else base))" | "stamp_write ctx audit w"
    using writes_raised w unfolding stamp_write_def by blast
  then show ?thesis
  proof cases
    case 1
    then have "w \<in> set (update_writes base) \<or> (\<exists>path v. w = (''$set'', path, v) \<and> (path, v) \<in> set set1)"
      using writes_set [of set1 base] by (auto split: if_splits)
    then show ?thesis using base_free set_ok by blast
  qed simp
qed

section \<open>The optimistic lock\<close>

text \<open>An update that raises the version by one and writes it in no other way.\<close>

definition raises_version :: "string \<Rightarrow> fields \<Rightarrow> bool" where
  "raises_version f u = ((''$inc'', f, COUNT_ONE) \<in> set (update_writes u)
     \<and> (\<forall>(op, path, v) \<in> set (update_writes u). (head_of path = f \<longrightarrow> (op, path, v) = (''$inc'', f, COUNT_ONE))
         \<and> (op = ''$rename'' \<longrightarrow> (\<forall>t. v = MText t \<longrightarrow> head_of t \<noteq> f))))"

lemma raised_entry:
  assumes "wc_version ctx = Some f" "wc_locks ctx"
  shows "(''$inc'', f, COUNT_ONE) \<in> set (update_writes (raised ctx True u))"
proof -
  let ?fs = "AList.update f COUNT_ONE (record_of (map_of u ''$inc''))"
  have "map_of (AList.update ''$inc'' (MRec ?fs) u) ''$inc'' = Some (MRec ?fs)" "map_of ?fs f = Some COUNT_ONE" by (simp_all add: update_conv')
  then have "(''$inc'', MRec ?fs) \<in> set (raised ctx True u)" "(f, COUNT_ONE) \<in> set ?fs" using assms by (auto simp: raised_def dest: map_of_SomeD)
  then show ?thesis unfolding mem_writes by (auto simp: starts_with_def)
qed

lemma update_raises:
  assumes "update_of ctx given call True now = Inr (u, ev)" "stamps_ok ctx" "\<And>t. wc_string ctx (MText t) = t"
    and lock: "wc_version ctx = Some f" "wc_locks ctx"
  shows "raises_version f u"
proof -
  have fx: "f \<in> set (fixed_names ctx)" using stamp_members(6) [OF assms(2) lock(1)] .
  obtain w where "u = raised ctx True w"
    using assms(1) unfolding update_of_def Let_def by (auto split: sum.splits prod.splits)
  then have "(''$inc'', f, COUNT_ONE) \<in> set (update_writes u)" using raised_entry [OF lock] by simp
  moreover have "(head_of path = f \<longrightarrow> (op, path, v) = (''$inc'', f, COUNT_ONE)) \<and> (op = ''$rename'' \<longrightarrow> (\<forall>t. v = MText t \<longrightarrow> head_of t \<noteq> f))"
    if w: "(op, path, v) \<in> set (update_writes u)" for op path v
    using accepted_writes [OF assms(1-3) w]
  proof
    assume "free_write ctx (op, path, v)"
    then show ?thesis using fx by (auto simp: free_write_def)
  next
    assume st: "stamp_write ctx True (op, path, v)"
    then consider "op = ''$inc''" "path = f" "v = COUNT_ONE" | "op = ''$set''" "wc_updatedBy ctx = Some path"
      unfolding stamp_write_def using lock by auto
    then show ?thesis
    proof cases
      case 1
      then show ?thesis by simp
    next
      case 2
      have "head_of path = path" "path \<noteq> f" using stamp_head(1) [OF assms(2) stamp_members(4) [OF assms(2) 2(2)]] stamp_members(5) [OF assms(2) lock(1) 2(2)] by simp_all
      then show ?thesis using 2(1) by simp
    qed
  qed
  ultimately show ?thesis unfolding raises_version_def by blast
qed

text \<open>A silent update writes the version in no way.\<close>

definition keeps_version :: "string \<Rightarrow> fields \<Rightarrow> bool" where
  "keeps_version f u = (\<forall>(op, path, v) \<in> set (update_writes u). head_of path \<noteq> f
     \<and> (op = ''$rename'' \<longrightarrow> (\<forall>t. v = MText t \<longrightarrow> head_of t \<noteq> f)))"

lemma update_silent:
  assumes "update_of ctx given call False now = Inr (u, ev)" "stamps_ok ctx" "\<And>t. wc_string ctx (MText t) = t"
    and lock: "wc_version ctx = Some f"
  shows "keeps_version f u"
proof -
  have fx: "f \<in> set (fixed_names ctx)" using stamp_members(6) [OF assms(2) lock] .
  have "head_of path \<noteq> f \<and> (op = ''$rename'' \<longrightarrow> (\<forall>t. v = MText t \<longrightarrow> head_of t \<noteq> f))"
    if w: "(op, path, v) \<in> set (update_writes u)" for op path v
    using accepted_writes [OF assms(1-3) w]
  proof
    assume "free_write ctx (op, path, v)"
    then show ?thesis using fx by (auto simp: free_write_def)
  next
    assume st: "stamp_write ctx False (op, path, v)"
    then have actor: "op = ''$set''" "wc_updatedBy ctx = Some path" unfolding stamp_write_def by auto
    have "head_of path = path" "path \<noteq> f"
      using stamp_head(1) [OF assms(2) stamp_members(4) [OF assms(2) actor(2)]] stamp_members(5) [OF assms(2) lock actor(2)] by simp_all
    then show ?thesis using actor(1) by simp
  qed
  then show ?thesis unfolding keeps_version_def by blast
qed

text \<open>
  What the lock asks of the server, for one document and a number \<open>ver\<close> that is its version, of an update sent to its
  id: one that raises the version raises it when it answers a document and never lowers it, one that writes it in no
  way leaves it, and one that asks for a version finds the document at that version only.
\<close>

definition lock_laws :: "'s store \<Rightarrow> string \<Rightarrow> mval \<Rightarrow> ('s \<Rightarrow> int) \<Rightarrow> bool" where
  "lock_laws st f i ver = (
     (\<forall>c l u s r s'. st_findOneAndUpdate st (mergeFilters (Some ((''_id'', i) # c)) l) u s = (r, s') \<longrightarrow>
        (raises_version f u \<longrightarrow> ver s \<le> ver s' \<and> (\<forall>d. r = Inr (Some d) \<longrightarrow> ver s < ver s'))
        \<and> (keeps_version f u \<longrightarrow> ver s' = ver s))
     \<and> (\<forall>n l u s d s'. st_findOneAndUpdate st (mergeFilters (Some [(''_id'', i), (f, MOther (show_int n))]) l) u s = (Inr (Some d), s') \<longrightarrow> ver s = n))"

text \<open>
  What happens to a document: the updates made through collections, silent ones (\<open>audit\<close> false) too, and between any
  two of them whatever else never lowers its version.
\<close>

datatype 's act = Patch wctx mval mval bool int | Elsewhere "'s \<Rightarrow> 's"

definition act_ok :: "string \<Rightarrow> mval \<Rightarrow> ('s \<Rightarrow> int) \<Rightarrow> 's act \<Rightarrow> bool" where
  "act_ok f i ver a = (case a of
     Patch ctx given patch audit now \<Rightarrow> stamps_ok ctx \<and> wc_version ctx = Some f \<and> wc_locks ctx \<and> stored_id ctx given = i \<and> (\<forall>t. wc_string ctx (MText t) = t)
   | Elsewhere g \<Rightarrow> \<forall>s. ver s \<le> ver (g s))"

definition expected_of :: "wctx \<Rightarrow> mval \<Rightarrow> bool \<Rightarrow> int \<Rightarrow> int option" where
  "expected_of ctx patch audit now = (case toUpdate ctx patch ''update'' audit now of Inr (u, ev) \<Rightarrow> ev | Inl e \<Rightarrow> None)"

text \<open>The versions the updates that went through asked for, each with whether the update was audited.\<close>

fun versions_taken :: "'s store \<Rightarrow> 's act list \<Rightarrow> 's \<Rightarrow> (bool \<times> int) list" where
  "versions_taken st [] s = []"
| "versions_taken st (Elsewhere g # acts) s = versions_taken st acts (g s)"
| "versions_taken st (Patch ctx given patch audit now # acts) s = (case update_one st ctx given patch audit now s of
     (Inr d, s') \<Rightarrow> (case expected_of ctx patch audit now of
        Some v \<Rightarrow> (audit, v) # versions_taken st acts s' | None \<Rightarrow> versions_taken st acts s')
   | (Inl e, s') \<Rightarrow> versions_taken st acts s')"

text \<open>What an update may be made from after another: a later version than an audited one, no earlier one than a silent one.\<close>

definition made_after :: "bool \<times> int \<Rightarrow> bool \<times> int \<Rightarrow> bool" where
  "made_after a b = (if fst a then snd a < snd b else snd a \<le> snd b)"

lemma update_step:
  assumes laws: "lock_laws st f i ver" and ok: "act_ok f i ver (Patch ctx given patch audit now)"
    and run: "update_one st ctx given patch audit now s = (r, s')"
  shows "ver s \<le> ver s'"
    "r = Inr d \<Longrightarrow> expected_of ctx patch audit now = Some v \<Longrightarrow> ver s = v \<and> (audit \<longrightarrow> v < ver s')"
proof -
  have ctx: "stamps_ok ctx" "wc_version ctx = Some f" "wc_locks ctx" "stored_id ctx given = i" "\<And>t. wc_string ctx (MText t) = t" using ok by (simp_all add: act_ok_def)
  have "ver s \<le> ver s' \<and> (r = Inr d \<and> expected_of ctx patch audit now = Some v \<longrightarrow> ver s = v \<and> (audit \<longrightarrow> v < ver s'))"
  proof (cases "toUpdate ctx patch ''update'' audit now")
    case (Inl e)
    then show ?thesis using run by (auto simp: update_one_def expected_of_def Let_def)
  next
    case (Inr ue)
    obtain u ev where ue: "ue = (u, ev)" by (cases ue)
    then obtain fs where fs: "update_of ctx fs ''update'' audit now = Inr (u, ev)" using Inr by (auto simp: toUpdate_def split: mval.splits)
    have up: "audit \<Longrightarrow> raises_version f u" "\<not> audit \<Longrightarrow> keeps_version f u"
      using update_raises [OF _ ctx(1, 5, 2, 3)] update_silent [OF _ ctx(1, 5, 2)] fs by (cases audit; simp)+
    obtain a t where at: "st_findOneAndUpdate st (version_filter ctx i ev) u s = (a, t)" by fastforce
    have step: "t = s'" "r = Inr d \<Longrightarrow> \<exists>d0. a = Inr (Some d0)"
      using run Inr ue ctx(4) at
      by (auto simp: update_one_def updatedOrThrow_def store_answer_def mongo_call_def Let_def split: sum.splits option.splits)
    have law: "(raises_version f u \<longrightarrow> ver s \<le> ver t \<and> (\<forall>d. a = Inr (Some d) \<longrightarrow> ver s < ver t)) \<and> (keeps_version f u \<longrightarrow> ver t = ver s)"
      using laws at unfolding lock_laws_def version_filter_def by blast
    have mono: "ver s \<le> ver s'" "audit \<Longrightarrow> a = Inr (Some d0) \<Longrightarrow> ver s < ver s'" for d0
      using law up step(1) by (cases audit; simp)+
    have "ver s = v" if "r = Inr d" "expected_of ctx patch audit now = Some v"
    proof -
      have "ev = Some v" using that(2) Inr ue by (simp add: expected_of_def)
      then have "version_filter ctx i ev = mergeFilters (Some [(''_id'', i), (f, MOther (show_int v))]) (live_filter ctx)"
        using ctx(2) by (simp add: version_filter_def)
      then show ?thesis using laws at step(2) [OF that(1)] unfolding lock_laws_def by metis
    qed
    then show ?thesis using mono step(2) by blast
  qed
  then show "ver s \<le> ver s'" "r = Inr d \<Longrightarrow> expected_of ctx patch audit now = Some v \<Longrightarrow> ver s = v \<and> (audit \<longrightarrow> v < ver s')" by blast+
qed

lemma versions_rise:
  assumes "lock_laws st f i ver" "\<forall>a \<in> set acts. act_ok f i ver a"
  shows "sorted_wrt made_after (versions_taken st acts s) \<and> (\<forall>(a, v) \<in> set (versions_taken st acts s). ver s \<le> v)"
  using assms(2)
proof (induction acts arbitrary: s)
  case (Cons a acts)
  have rest: "sorted_wrt made_after (versions_taken st acts t) \<and> (\<forall>(b, v) \<in> set (versions_taken st acts t). ver t \<le> v)" for t
    using Cons by simp
  show ?case
  proof (cases a)
    case (Elsewhere g)
    then have "ver s \<le> ver (g s)" using Cons(2) by (simp add: act_ok_def)
    then show ?thesis using rest [of "g s"] Elsewhere by fastforce
  next
    case (Patch ctx given patch audit now)
    then have ok: "act_ok f i ver (Patch ctx given patch audit now)" using Cons(2) by simp
    obtain r t where run: "update_one st ctx given patch audit now s = (r, t)" by fastforce
    note step = update_step [OF assms(1) ok run]
    have skip: "sorted_wrt made_after (versions_taken st acts t) \<and> (\<forall>(b, v) \<in> set (versions_taken st acts t). ver s \<le> v)"
      using rest [of t] step(1) by fastforce
    show ?thesis
    proof (cases r)
      case (Inl e)
      then show ?thesis using skip run Patch by simp
    next
      case (Inr d)
      show ?thesis
      proof (cases "expected_of ctx patch audit now")
        case None
        then show ?thesis using skip run Patch Inr by simp
      next
        case (Some v)
        then have v: "ver s = v" "audit \<longrightarrow> v < ver t" "ver s \<le> ver t" using step Inr by blast+
        then have "made_after (audit, v) e" if "e \<in> set (versions_taken st acts t)" for e
          using rest [of t] that by (fastforce simp: made_after_def)
        then show ?thesis using skip v(1) run Patch Inr Some by simp
      qed
    qed
  qed
qed simp

lemma audited_distinct: "sorted_wrt made_after vs \<Longrightarrow> distinct (map snd (filter fst vs))"
  by (induction vs) (auto simp: made_after_def)

text \<open>C15. Of the updates of a document that ask for a version, with whatever else never lowers its version between
  them, each that goes through after an audited one was made from a later version than it, and after a silent one
  (\<open>audit: false\<close>) from no earlier one. So no two audited updates, the normal ones, go through from the same version:
  none overwrites what its caller had not read. A silent update checks the version it asks for and raises none, so
  it gives no such promise.\<close>

theorem no_lost_update:
  assumes "lock_laws st f i ver" "\<forall>a \<in> set acts. act_ok f i ver a"
  shows "sorted_wrt made_after (versions_taken st acts s) \<and> distinct (map snd (filter fst (versions_taken st acts s)))"
  using versions_rise [OF assms] audited_distinct by blast

text \<open>C16. No patch of fields or of operators that is accepted makes an update that writes the id or a stamp the
  collection keeps, by any operator, a path under it or a rename onto it; the one write of them is the collection's
  own, the version raised by one and the actor.\<close>

theorem update_keeps_stamps:
  assumes "toUpdate ctx given call audit now = Inr (u, expected)" "stamps_ok ctx" "\<And>t. wc_string ctx (MText t) = t"
  shows "\<forall>(op, path, v) \<in> set (update_writes u). let kept = insert ''_id'' (set (fixed_names ctx)) in
    (head_of path \<in> kept \<longrightarrow> (op = ''$inc'' \<and> wc_version ctx = Some path \<and> v = COUNT_ONE \<and> audit \<and> wc_locks ctx)
       \<or> (op = ''$set'' \<and> wc_updatedBy ctx = Some path \<and> wc_actor ctx = Some v))
    \<and> (op = ''$rename'' \<longrightarrow> (\<forall>t. v = MText t \<longrightarrow> head_of t \<notin> kept))"
proof -
  obtain fs where fs: "update_of ctx fs call audit now = Inr (u, expected)" using assms(1) by (auto simp: toUpdate_def split: mval.splits)
  have "case w of (op, path, v) \<Rightarrow> (head_of path \<in> insert ''_id'' (set (fixed_names ctx)) \<longrightarrow> stamp_write ctx audit (op, path, v))
      \<and> (op = ''$rename'' \<longrightarrow> (\<forall>t. v = MText t \<longrightarrow> head_of t \<notin> insert ''_id'' (set (fixed_names ctx))))"
    if "w \<in> set (update_writes u)" for w
    using accepted_writes [OF fs assms(2, 3) that] by (auto simp: free_write_def stamp_write_def)
  then show ?thesis unfolding stamp_write_def Let_def by fastforce
qed

section \<open>Two tasks\<close>

text \<open>A collection of tasks with every stamp, and the two calls of two callers who read one task at the same version.\<close>

definition task_ctx :: wctx where
  "task_ctx = \<lparr>cc_name = ''tasks'', cc_coerces = True, cc_kinds = kindsOf [(''_id'', SId), (''ownerId'', SId), (''title'', SOther)],
     cc_softDeletes = True, cc_deletedAt = Some ''deletedAt'', pc_shape = map (\<lambda>n. (n, NClosed)) [''_id'', ''ownerId'', ''title''],
     pc_maxPageSize = 100, pc_cursorScope = None, pc_hasOwnId = False,
     wc_createdAt = Some ''createdAt'', wc_updatedAt = Some ''updatedAt'', wc_version = Some ''version'', wc_createdBy = Some ''createdBy'',
     wc_updatedBy = Some ''updatedBy'', wc_deletedBy = Some ''deletedBy'', wc_actor = Some (MText ''ada''), wc_touches = True, wc_locks = True,
     wc_parses = True, wc_parse = (\<lambda>f v. Inr v), wc_parse_doc = (\<lambda>d. Inr d), wc_string = (\<lambda>v. case v of MText t \<Rightarrow> t | _ \<Rightarrow> ''?'')\<rparr>"

definition task_id :: string where "task_id = replicate 24 (CHR ''a'')"

definition task_patch :: mval where
  "task_patch = MRec [(''version'', MOther ''3''), (''$set'', MRec [(''ownerId'', MText task_id)]), (''$rename'', MRec [(''name'', MText ''title'')])]"

lemma task_update: "toUpdate task_ctx task_patch ''update'' True 5 = Inr
  ([(''$set'', MRec [(''ownerId'', MId task_id), (''updatedAt'', MDate 5), (''updatedBy'', MText ''ada'')]),
    (''$rename'', MRec [(''name'', MText ''title'')]), (''$inc'', MRec [(''version'', COUNT_ONE)])], Some 3)"
  by code_simp

lemma task_stamps: "stamps_ok task_ctx" "wc_string task_ctx (MText t) = t"
proof -
  show "stamps_ok task_ctx" by code_simp
  show "wc_string task_ctx (MText t) = t" by (simp add: task_ctx_def)
qed

theorem update_keeps_stamps_witness:
  "\<exists>u. toUpdate task_ctx task_patch ''update'' True 5 = Inr (u, Some 3) \<and> (\<forall>(op, path, v) \<in> set (update_writes u).
     head_of path = ''version'' \<longrightarrow> op = ''$inc'' \<and> v = COUNT_ONE)"
proof -
  let ?u = "[(''$set'', MRec [(''ownerId'', MId task_id), (''updatedAt'', MDate 5), (''updatedBy'', MText ''ada'')]),
    (''$rename'', MRec [(''name'', MText ''title'')]), (''$inc'', MRec [(''version'', COUNT_ONE)])]"
  have in_fixed: "''version'' \<in> set (fixed_names task_ctx)" "wc_updatedBy task_ctx = Some ''updatedBy''" by code_simp+
  have "head_of ''updatedBy'' \<noteq> ''version''" by code_simp
  then have "\<forall>(op, path, v) \<in> set (update_writes ?u). head_of path = ''version'' \<longrightarrow> op = ''$inc'' \<and> v = COUNT_ONE"
    using update_keeps_stamps [OF task_update task_stamps] in_fixed unfolding Let_def by fastforce
  then show ?thesis using task_update by blast
qed

text \<open>The server of one task: its version, raised by an update that says so, and an update of another id or one that
  asks for another version answered with no document.\<close>

definition asked_of :: "string \<Rightarrow> fields \<Rightarrow> mval option" where
  "asked_of n filt = (case map_of filt ''$and'' of
     Some (MList (MRec a # r)) \<Rightarrow> map_of a n | _ \<Rightarrow> map_of filt n)"

definition task_found :: "fields \<Rightarrow> int \<Rightarrow> bool" where
  "task_found filt s = (asked_of ''_id'' filt = Some (MId task_id)
     \<and> (asked_of ''version'' filt = None \<or> asked_of ''version'' filt = Some (MOther (show_int s))))"

definition task_after :: "fields \<Rightarrow> int \<Rightarrow> int" where
  "task_after u s = (if (''$inc'', ''version'', COUNT_ONE) \<in> set (update_writes u) then s + 1 else s)"

definition task_store :: "int store" where
  "task_store = \<lparr>dr_find = (\<lambda>c. Inr []), dr_findOne = (\<lambda>f p. Inr None), dr_count = (\<lambda>f. Inr 0), dr_shown = (\<lambda>v. ''''), dr_idtext = (\<lambda>v. ''''),
     st_findOneAndUpdate = (\<lambda>filt u s. if \<not> task_found filt s then (Inr None, s)
       else (Inr (Some [(''_id'', MId task_id), (''version'', MOther (show_int (task_after u s)))]), task_after u s)),
     st_findOne = (\<lambda>f s. Inr (Some [(''version'', MOther (show_int s))])), st_insertOne = (\<lambda>d s. (Inr (), s)), st_insertMany = (\<lambda>ds s. (Inr (), s)),
     st_updateMany = (\<lambda>f u s. (Inr 1, s + 1)), st_findOneAndDelete = (\<lambda>f s. (Inr None, s)), st_deleteMany = (\<lambda>f s. (Inr 0, s))\<rparr>"

lemma task_laws: "lock_laws task_store ''version'' (MId task_id) (\<lambda>s. s)"
proof -
  have "asked_of ''version'' (mergeFilters (Some [(''_id'', MId task_id), (''version'', v)]) l) = Some v" for v l
    by (auto simp: asked_of_def mergeFilters_def split: option.splits)
  moreover have "show_int a = show_int b \<Longrightarrow> a = b" for a b
    using bigint_show_int by (metis option.inject)
  moreover have "raises_version ''version'' u \<Longrightarrow> task_after u s = s + 1" for u s
    by (simp add: raises_version_def task_after_def)
  moreover have "keeps_version ''version'' u \<Longrightarrow> task_after u s = s" for u s
  proof -
    have "head_of ''version'' = ''version''" by code_simp
    then show "keeps_version ''version'' u \<Longrightarrow> task_after u s = s" unfolding keeps_version_def task_after_def by fastforce
  qed
  ultimately show ?thesis unfolding lock_laws_def by (auto simp: task_store_def task_found_def split: if_splits)
qed

text \<open>Another write, a silent update, the first caller's and the second caller's, and a silent one that comes too late.\<close>

definition task_acts :: "int act list" where
  "task_acts = [Elsewhere (\<lambda>s. s + 1), Patch task_ctx (MText task_id) task_patch False 4, Patch task_ctx (MText task_id) task_patch True 5,
     Patch task_ctx (MId task_id) task_patch True 6, Patch task_ctx (MId task_id) task_patch False 7]"

theorem no_lost_update_witness:
  "versions_taken task_store task_acts 2 = [(False, 3), (True, 3)] \<and> distinct (map snd (filter fst (versions_taken task_store task_acts 2)))"
proof -
  have "stored_id task_ctx (MText task_id) = MId task_id" "stored_id task_ctx (MId task_id) = MId task_id" by code_simp+
  moreover have "wc_version task_ctx = Some ''version''" "wc_locks task_ctx" by (simp_all add: task_ctx_def)
  ultimately have "\<forall>a \<in> set task_acts. act_ok ''version'' (MId task_id) (\<lambda>s. s) a" by (simp add: task_acts_def act_ok_def task_stamps)
  then have "distinct (map snd (filter fst (versions_taken task_store task_acts 2)))" using no_lost_update [OF task_laws] by blast
  moreover have "versions_taken task_store task_acts 2 = [(False, 3), (True, 3)]" by code_simp
  ultimately show ?thesis by blast
qed

end
