(* ===== verification/Spec2Isabelle.thy ===== *)
theory Spec2Isabelle
  imports Queue_Props Queue_Replies Backup_Roundtrip Backup_Prune_Safe Idempotency Redis_Lock Migrations Image_Process Cron_Next Backup_Lock
    Mongo_Coerce_Types Mongo_Walk Mongo_Locks
begin

text \<open>
  A model of the data packages under \<open>src/packages\<close>, and what makes them correct.

  \<^bold>\<open>The parts.\<close> The packages do not call each other much: \<open>redis\<close> keeps its state in the keys of a Redis
  server and changes it in Lua scripts, each one atomic; \<open>backup\<close> keeps its state in the objects of one or
  more repositories and changes it by puts and deletes in an order. The model follows this: a script is a
  function of the server's state, the clock and its arguments; a backup call is a function of the
  repositories and of what the outside answers.

  \<^bold>\<open>redis.\<close> \<open>Redis_Data\<close> holds the sorted sets, lists and hashes the scripts use, \<open>Doubles\<close> Lua's numbers with
  their rounding. \<open>Gcra\<close> is the rate limiter (\<open>rate-limit/gcra.ts\<close>, \<open>define-rate-limit.ts\<close>,
  \<open>bind-rate-limit.ts\<close>): the script in double arithmetic, the same algorithm in exact integers, and what
  may pass. The queue is one record of its keys (\<open>Queue_State\<close>, from \<open>queue/keys.ts\<close>), the functions of its
  groups (\<open>Queue_Groups\<close>, from \<open>scripts/groups/groups.ts\<close>) and one theory per group of scripts: \<open>Queue_Add\<close>
  (\<open>scripts/add.ts\<close>), \<open>Queue_Claim\<close> (\<open>scripts/claim\<close>), \<open>Queue_Settle\<close> (\<open>settle.ts\<close>, \<open>release.ts\<close>, \<open>renew.ts\<close>,
  \<open>step.ts\<close>, \<open>progress.ts\<close>), \<open>Queue_Admin\<close> (\<open>admin.ts\<close>, \<open>cancel.ts\<close>), \<open>Queue_Schedule\<close> (\<open>scripts/schedule\<close>),
  \<open>Queue_Replies\<close> (the parsers of \<open>claim.ts\<close>, \<open>replies.ts\<close>, \<open>mode.ts\<close>). \<open>Queue_Inv\<close> states the invariant,
  \<open>Queue_Moves\<close> and \<open>Queue_Claim_Inv\<close> show that every move between the sets keeps it, \<open>Queue_System\<close> is the step
  relation of all scripts in any order, and \<open>Queue_Props\<close> the properties of the reachable states.

  \<^bold>\<open>backup.\<close> \<open>Calendar\<close> and \<open>Json\<close> are the parts of \<open>Date\<close> and of parsed JSON the package uses. \<open>Backup_Ids\<close> and
  \<open>Backup_Format\<close> are the ids, the names and the two files (\<open>format/\<close>, \<open>definition/define-backup.ts\<close>) with
  their readers. \<open>Backup_Rotation\<close>, \<open>Backup_Policy\<close> and \<open>Backup_Plan\<close> are the rotation (\<open>rotation/periods.ts\<close>,
  \<open>policy.ts\<close>): the loops of the code, then what they keep, declaratively. \<open>Backup_Repo\<close> is a repository, the
  context and the reads (\<open>backups/context.ts\<close>, \<open>read.ts\<close>, \<open>crypto/\<close>), \<open>Backup_Chain\<close> the chain of a backup,
  restore, verify and list (\<open>chain/view.ts\<close>, \<open>backups/restore.ts\<close>, \<open>verify.ts\<close>, \<open>list.ts\<close>), \<open>Backup_Create\<close>
  the whole of create (\<open>backups/run.ts\<close>, \<open>entries.ts\<close>, \<open>create.ts\<close>, \<open>chain/base.ts\<close>), with its invariants in
  \<open>Backup_Create_Inv\<close> and the round trip through a restore in \<open>Backup_Roundtrip\<close>; \<open>Backup_Prune\<close> is prune and
  the holds (\<open>rotation/prune.ts\<close>, \<open>holds.ts\<close>), and \<open>Backup_Prune_Safe\<close> what a prune stopped anywhere leaves.

  \<open>Backup_Lock\<close> is the lock around a run (\<open>lock/lock.ts\<close>, \<open>run-locks.ts\<close>): each stretch between two awaits is a
  function of a writer and the repository, and a step relation interleaves any number of writers, their puts in
  flight, their renewals and their deletes, each with a clock of its own within a lease of the others.

  \<^bold>\<open>Leases.\<close> \<open>Leases\<close> is the interface three parts share, a locale of a key that one holder at a time has under a
  token (\<open>fenced_lease\<close>), with its lemmas proved once. \<open>Idempotency\<close> (\<open>redis/src/idempotency\<close>), \<open>Redis_Lock\<close>
  (\<open>redis/src/lock/with-lock.ts\<close>) and \<open>Migrations\<close> (\<open>mongo/src/migrations\<close>) interpret it on their own scripts and
  writes, then show what their calls give: a result replayed as it was, a value handed back only by who held the
  lock alone, a record that is always a prefix of the list.

  \<^bold>\<open>Schedules' clock.\<close> \<open>Cron\<close> and \<open>Cron_Next\<close> are \<open>queue/schedule/cron.ts\<close>, \<open>zone.ts\<close> and \<open>next.ts\<close>: the parser, a zone's
  wall clock and the search for the next occurrence. A zone is what \<open>Intl\<close> reads of it, under the law that its
  offset changes at most once in any two days.

  \<^bold>\<open>image.\<close> \<open>Image_Png\<close> is the PNG reader and writer (\<open>crop/png-chunks.ts\<close>, \<open>png.ts\<close>, \<open>unfilter.ts\<close>), \<open>Image_Crop\<close> the crop
  while a file inflates (\<open>row-assembler.ts\<close>, \<open>crop-png.ts\<close>), \<open>Image_Process\<close> a whole upload (\<open>input\<close>, \<open>set\<close>, \<open>process\<close>)
  from its bytes to its variants, with the queue of tasks. zlib and \<open>Bun.Image\<close> are parameters.

  \<^bold>\<open>mongo.\<close> \<open>Mongo_Coerce\<close> reads texts as the ids and dates a schema stores (\<open>collection/coerce.ts\<close>, \<open>filters.ts\<close>), and
  \<open>Mongo_Coerce_Types\<close> shows that what the types take becomes what they store. \<open>Mongo_Cursor\<close> is \<open>pagination/cursor.ts\<close>
  with its base64, \<open>Mongo_Errors\<close> the errors (\<open>errors/\<close>), \<open>Mongo_Pages\<close> the reads and the pages
  (\<open>operations/reads.ts\<close>, \<open>paginate.ts\<close>, \<open>pagination/page.ts\<close>), and for which ordering and scope a cursor
  is good. \<open>Mongo_Walk\<close> composes them all: a caller who follows the cursors is given every document of the listing once. The server is a record of its documents, the filters it
  takes, what they match and its order of values; its laws are those MongoDB documents, for the filters the package
  sends and the values the documents hold. \<open>Mongo_Writes\<close> is what a write may say of the stamps, the document and the
  update it sends and the calls (\<open>stamp-writes.ts\<close>, \<open>documents.ts\<close>, \<open>operations/writes.ts\<close>), over a driver with a state of
  its own; \<open>Mongo_Locks\<close> shows that no accepted patch reaches a stamp, and that the optimistic lock loses no audited
  update; a silent one (\<open>audit: false\<close>) checks a version and raises none.

  \<^bold>\<open>What is given from outside.\<close> The record \<open>outside\<close> of \<open>Backup_Repo\<close> holds what the package takes from
  elsewhere: \<open>JSON.parse\<close>, \<open>JSON.stringify\<close>, SHA-256, Ed25519, and age with zstd. The hypotheses on them are
  the documented ones: what was printed parses back, what was sealed to a recipient opens with its
  identity, equal digests are equal bytes where a property says so. Random bits, clocks, tokens and the
  outcomes of puts are arguments.

  \<^bold>\<open>Bounds and fuel.\<close> Lua's numbers are doubles: \<open>Gcra\<close> shows that the bounds \<open>checkRateValues\<close> refuses past
  keep every intermediate value exact or rounded the way the script allows for. The chain walk and the
  plan's loops are total functions with a measure; \<open>chain_fuel\<close> bounds the reads of a walk by the number of
  manifests. The search of a cron ends because a cron the parser accepts has a day within the years it looks at.
  A walk over pages is given as many calls as the listing has documents and one more, shown there to
  be enough.

  \<^bold>\<open>Where the model is narrower.\<close> A text is its UTF-8 bytes, so the bound on a name counts bytes. \<open>Date.UTC\<close> and ISO texts
  are taken over the years they write as they are, without the mapping of 0 to 99 and the ends of a \<open>Date\<close>. What the types of
  a definition already say (that a \<open>key\<close> is a function, that a stored version is whole) has no branch. The limiter's bound
  is for a clock that does not go back, as its guide says.

  \<^bold>\<open>Not modelled.\<close> The sockets, timeouts, timers and reconnections of the clients; file system and S3 calls; the key
  texts of the queue; the worker's loop around the scripts, which \<open>Queue_System\<close> takes in any order instead; of
  \<open>mongo\<close>, the upserts, which are expressions the server evaluates, the hooks, the
  aggregations, the change streams and GridFS; \<open>drizzle\<close>, \<open>meilisearch\<close>, the packages that join two drivers and \<open>s3\<close>,
  whose code builds what a library runs. \<open>PROJECT.json\<close> lists each part with the reason.
\<close>

end
